(* ===== verification/Prelude.thy ===== *)
theory Prelude
  imports "HOL-Library.Word"
begin

unbundle bit_operations_syntax

text \<open>
  Shared vocabulary of the development: the machine types of the C program, its error codes, the
  answers of the operating system, and the list lemmas that the components use.

  Machine integers are words of the C width (\<open>uint8_t\<close> \<open>byte\<close>, \<open>uint16_t\<close> \<open>u16\<close>, \<open>uint32_t\<close>
  \<open>u32\<close>, \<open>uint64_t\<close> \<open>u64\<close>); sizes of buffers and indices of arrays (\<open>size_t\<close>) are natural
  numbers, with every test against \<open>SIZE_MAX\<close> of the source kept. A fixed C array is a list of
  its length; a C string inside such an array is read by \<open>cstr\<close>, up to its first NUL.

  A C function that reports failure by \<open>-1\<close> and \<open>errno\<close> is a function into \<open>errno + 'a\<close>.
  Arguments are values, so the rejection of NULL pointers that the public functions begin with has
  no counterpart; where NULL is data (an absent payload, an absent hash table) it is an option.
\<close>

section \<open>Machine types and error codes\<close>

type_synonym byte = "8 word"
type_synonym u16 = "16 word"
type_synonym u32 = "32 word"
type_synonym u64 = "64 word"

datatype errno =
    EINVAL | ENOENT | EEXIST | EBADMSG | ENOMEM | ERANGE | EMSGSIZE | EOVERFLOW | EIO | EACCES
  | ENOSPC | EPERM | ESTALE | ENODATA | ENOTUNIQ | ENOTSUP | EHOSTUNREACH | EALREADY
  | ENAMETOOLONG | EREMOTEIO | EINTR | EAGAIN | EPIPE | ETIMEDOUT | ELOOP | EOTHER nat

type_synonym 'a result = "errno + 'a"

definition SIZE_MAX :: nat where
  "SIZE_MAX = 2 ^ 64 - 1"

definition UINT_MAX :: nat where
  "UINT_MAX = 2 ^ 32 - 1"

section \<open>Answers of the operating system\<close>

text \<open>
  A call into the operating system or the allocator may fail at any point of an operation. An
  environment \<open>os\<close> fixes the answers of one run: \<open>os p\<close> is the list of answers to the successive
  system calls made at the call site \<open>p\<close>, addressed by its path (the call sites on the way from
  the operation, numbered in the order of the source). \<open>at os k\<close> is the environment that the
  callee at site \<open>k\<close> sees. An exhausted list of answers means that the calls succeed and
  transfer all that was asked for, so \<open>calm\<close> is the environment without faults.
\<close>

datatype answer = Ret nat | Err errno

type_synonym os = "nat list \<Rightarrow> answer list"

definition calm :: os where
  "calm = (\<lambda>_. [])"

definition at :: "os \<Rightarrow> nat \<Rightarrow> os" where
  "at os k = (\<lambda>p. os (k # p))"

definition fault :: "os \<Rightarrow> errno option" where
  "fault os = (case os [] of Err e # _ \<Rightarrow> Some e | _ \<Rightarrow> None)"

lemma at_calm [simp]: "at calm k = calm"
  by (simp add: at_def calm_def)

lemma fault_calm [simp]: "fault calm = None"
  by (simp add: fault_def calm_def)

lemma calm_apply [simp]: "calm [] = []"
  by (simp add: calm_def)

section \<open>C arrays and strings\<close>

definition cstr :: "byte list \<Rightarrow> byte list" where
  "cstr bs = takeWhile (\<lambda>b. b \<noteq> 0) bs"

text \<open>A string of \<open>s\<close> stored in an array of \<open>n\<close> bytes that was zeroed before.\<close>

definition zero_padded :: "nat \<Rightarrow> byte list \<Rightarrow> byte list" where
  "zero_padded n s = s @ replicate (n - length s) 0"

lemma length_zero_padded [simp]: "length s \<le> n \<Longrightarrow> length (zero_padded n s) = n"
  by (simp add: zero_padded_def)

lemma cstr_no_zero [simp]: "0 \<notin> set (cstr bs)"
  by (auto simp: cstr_def dest: set_takeWhileD)

lemma cstr_length [simp]: "length (cstr bs) \<le> length bs"
  by (simp add: cstr_def length_takeWhile_le)

lemma cstr_id: "0 \<notin> set s \<Longrightarrow> cstr s = s"
  by (induction s) (auto simp: cstr_def)

lemma cstr_zero_padded:
  assumes "0 \<notin> set s"
  shows "cstr (zero_padded n s) = s"
proof -
  have "takeWhile (\<lambda>b. b \<noteq> 0) (s @ replicate (n - length s) 0) = s"
    using assms by (subst takeWhile_append2) (auto simp: takeWhile_replicate)
  then show ?thesis by (simp add: cstr_def zero_padded_def)
qed

lemma cstr_all [simp]: "cstr (cstr bs) = cstr bs"
  by (rule cstr_id) simp

section \<open>Lists\<close>

named_theorems len "lengths of encoded records"

lemma take_append_len: "length xs = n \<Longrightarrow> take n (xs @ ys) = xs"
  by simp

lemma drop_append_len: "length xs = n \<Longrightarrow> drop n (xs @ ys) = ys"
  by simp

lemma take_drop_split: "take n (drop k xs) @ drop (k + n) xs = drop k xs"
  by (metis add.commute append_take_drop_id drop_drop)

text \<open>Linear search for the first element with a property, as the loops of the source do it.\<close>

fun find_index :: "('a \<Rightarrow> bool) \<Rightarrow> 'a list \<Rightarrow> nat option" where
  "find_index P [] = None"
| "find_index P (x # xs) = (if P x then Some 0 else map_option Suc (find_index P xs))"

lemma find_index_None: "find_index P xs = None \<longleftrightarrow> (\<forall>x \<in> set xs. \<not> P x)"
  by (induction xs) auto

lemma find_index_Some:
  "find_index P xs = Some i \<Longrightarrow> i < length xs \<and> P (xs ! i) \<and> (\<forall>j < i. \<not> P (xs ! j))"
proof (induction xs arbitrary: i)
  case Nil
  then show ?case by simp
next
  case (Cons x xs)
  show ?case
  proof (cases "P x")
    case True
    with Cons.prems show ?thesis by simp
  next
    case False
    with Cons.prems obtain k where k: "find_index P xs = Some k" "i = Suc k" by auto
    with Cons.IH False show ?thesis by (auto simp: less_Suc_eq_0_disj)
  qed
qed

lemma find_index_unique:
  assumes "i < length xs" "P (xs ! i)" "\<And>j. j < length xs \<Longrightarrow> P (xs ! j) \<Longrightarrow> j = i"
  shows "find_index P xs = Some i"
proof (cases "find_index P xs")
  case None
  with assms(1,2) show ?thesis by (auto simp: find_index_None)
next
  case (Some k)
  with find_index_Some [OF Some] assms(3) show ?thesis by blast
qed

lemma find_index_append_None:
  "find_index P xs = None \<Longrightarrow> find_index P (xs @ ys) = map_option (\<lambda>i. length xs + i) (find_index P ys)"
  by (induction xs) (cases "find_index P ys"; auto split: if_splits)+

lemma find_index_append_Some:
  "find_index P xs = Some i \<Longrightarrow> find_index P (xs @ ys) = Some i"
  by (induction xs arbitrary: i) (auto split: if_splits)

lemma find_index_map: "find_index P (map f xs) = find_index (\<lambda>x. P (f x)) xs"
  by (induction xs) auto

lemma find_SomeD: "find P xs = Some x \<Longrightarrow> x \<in> set xs \<and> P x"
  by (induction xs) (auto split: if_splits)

lemma map_update_same: "i < length xs \<Longrightarrow> f y = f (xs ! i) \<Longrightarrow> map f (xs[i := y]) = map f xs"
  by (simp add: map_update list_update_same_conv)

lemma distinct_map_nth:
  "distinct (map f xs) \<Longrightarrow> i < length xs \<Longrightarrow> j < length xs \<Longrightarrow> f (xs ! i) = f (xs ! j) \<Longrightarrow> i = j"
  by (metis length_map nth_eq_iff_index_eq nth_map)

section \<open>Codecs for sequences of records\<close>

text \<open>
  The wire and file formats of the program are sequences of self-delimiting records. \<open>codec\<close> is
  the contract of one record format: decoding an encoded record followed by anything gives back
  the record and what follows. A format with this contract extends to sequences.
\<close>

fun decode_seq :: "(byte list \<Rightarrow> ('a \<times> byte list) option) \<Rightarrow> nat \<Rightarrow> byte list \<Rightarrow> ('a list \<times> byte list) option" where
  "decode_seq dec 0 bs = Some ([], bs)"
| "decode_seq dec (Suc n) bs =
     (case dec bs of None \<Rightarrow> None
      | Some (x, rest) \<Rightarrow>
          (case decode_seq dec n rest of None \<Rightarrow> None
           | Some (xs, rest') \<Rightarrow> Some (x # xs, rest')))"

locale codec =
  fixes enc :: "'a \<Rightarrow> byte list"
    and dec :: "byte list \<Rightarrow> ('a \<times> byte list) option"
    and wf :: "'a \<Rightarrow> bool"
  assumes dec_enc: "wf x \<Longrightarrow> dec (enc x @ rest) = Some (x, rest)"
begin

lemma decode_seq_enc:
  "list_all wf xs \<Longrightarrow> decode_seq dec (length xs) (concat (map enc xs) @ rest) = Some (xs, rest)"
  by (induction xs) (auto simp: dec_enc)

lemma enc_inj: "wf x \<Longrightarrow> wf y \<Longrightarrow> enc x = enc y \<Longrightarrow> x = y"
  by (metis dec_enc option.inject prod.inject)

lemma enc_prefix_free: "wf x \<Longrightarrow> wf y \<Longrightarrow> enc x @ r = enc y @ s \<Longrightarrow> x = y \<and> r = s"
  by (metis dec_enc option.inject prod.inject)

end

end
