(* ===== verification/Wire.thy ===== *)
theory Wire
  imports Prelude
begin

text \<open>
  The byte-order helpers of \<^verbatim>\<open>wire.h\<close> and the wire codes of \<^verbatim>\<open>remote_error.h\<close>. A function that
  writes at \<open>destination\<close> is modelled by the bytes it writes; a function that reads at \<open>source\<close>
  takes the bytes from there on.
\<close>

definition wire_put_u16 :: "u16 \<Rightarrow> byte list" where
  "wire_put_u16 v = [ucast (drop_bit 8 v), ucast v]"

definition wire_get_u16 :: "byte list \<Rightarrow> u16" where
  "wire_get_u16 s = push_bit 8 (ucast (s ! 0)) OR ucast (s ! 1)"

definition wire_put_u32 :: "u32 \<Rightarrow> byte list" where
  "wire_put_u32 v = [ucast (drop_bit 24 v), ucast (drop_bit 16 v), ucast (drop_bit 8 v), ucast v]"

definition wire_get_u32 :: "byte list \<Rightarrow> u32" where
  "wire_get_u32 s =
     push_bit 24 (ucast (s ! 0)) OR push_bit 16 (ucast (s ! 1)) OR push_bit 8 (ucast (s ! 2)) OR ucast (s ! 3)"

definition wire_put_u64 :: "u64 \<Rightarrow> byte list" where
  "wire_put_u64 v = map (\<lambda>i. ucast (drop_bit (56 - i * 8) v)) [0..<8]"

definition wire_get_u64 :: "byte list \<Rightarrow> u64" where
  "wire_get_u64 s = fold (\<lambda>i v. push_bit 8 v OR ucast (s ! i)) [0..<8] 0"

definition remote_error_encode :: "errno \<Rightarrow> byte list" where
  "remote_error_encode e = [1, (case e of
      ENOENT \<Rightarrow> 1 | ENOTUNIQ \<Rightarrow> 2 | EEXIST \<Rightarrow> 3 | EBADMSG \<Rightarrow> 4 | EINVAL \<Rightarrow> 4 | ENOTSUP \<Rightarrow> 5
    | EACCES \<Rightarrow> 6 | ENODATA \<Rightarrow> 7 | EMSGSIZE \<Rightarrow> 8 | EOVERFLOW \<Rightarrow> 8 | _ \<Rightarrow> 9)]"

definition remote_error_decode :: "byte list \<Rightarrow> errno" where
  "remote_error_decode d =
     (if length d \<noteq> 2 \<or> d ! 0 \<noteq> 1 then EREMOTEIO
      else if d ! 1 = 1 then ENOENT
      else if d ! 1 = 2 then ENOTUNIQ
      else if d ! 1 = 3 then EEXIST
      else if d ! 1 = 4 then EBADMSG
      else if d ! 1 = 5 then ENOTSUP
      else if d ! 1 = 6 then EACCES
      else if d ! 1 = 7 then ENODATA
      else if d ! 1 = 8 then EMSGSIZE
      else EIO)"

section \<open>Lengths\<close>

lemma upt_8: "[0..<8] = [0, 1, 2, 3, 4, 5, 6, 7 :: nat]"
  by code_simp

lemma length_wire_put_u16 [simp, len]: "length (wire_put_u16 v) = 2"
  by (simp add: wire_put_u16_def)

lemma length_wire_put_u32 [simp, len]: "length (wire_put_u32 v) = 4"
  by (simp add: wire_put_u32_def)

lemma length_wire_put_u64 [simp, len]: "length (wire_put_u64 v) = 8"
  by (simp add: wire_put_u64_def)

section \<open>Round trips\<close>

text \<open>One step of big-endian reassembly: a byte below the bits already read.\<close>

lemma horner_byte:
  "push_bit 8 (drop_bit (n + 8) v) OR ucast (ucast (drop_bit n v) :: byte) = drop_bit n (v :: 'a::len word)"
proof (rule bit_word_eqI)
  fix i assume i: "i < LENGTH('a)"
  show "bit (push_bit 8 (drop_bit (n + 8) v) OR ucast (ucast (drop_bit n v) :: byte)) i = bit (drop_bit n v) i"
    by (cases "i < 8") (use i in \<open>simp_all add: bit_simps\<close>)
qed

lemma wire_get_put_u16 [simp]: "wire_get_u16 (wire_put_u16 v @ rest) = v"
proof -
  have "drop_bit 16 v = 0"
    by (rule bit_word_eqI) (simp add: bit_simps)
  then show ?thesis
    using horner_byte [of 8 v] horner_byte [of 0 v] by (simp add: wire_get_u16_def wire_put_u16_def)
qed

lemma wire_get_put_u32 [simp]: "wire_get_u32 (wire_put_u32 v @ rest) = v"
proof -
  have z: "drop_bit 32 v = 0"
    by (rule bit_word_eqI) (simp add: bit_simps)
  have "wire_get_u32 (wire_put_u32 v @ rest) =
      push_bit 8 (push_bit 8 (push_bit 8 (push_bit 8 (drop_bit 32 v)
        OR ucast (ucast (drop_bit 24 v) :: byte)) OR ucast (ucast (drop_bit 16 v) :: byte))
        OR ucast (ucast (drop_bit 8 v) :: byte)) OR ucast (ucast v :: byte)"
    by (simp add: wire_get_u32_def wire_put_u32_def push_bit_or z or.assoc)
  also have "\<dots> = v"
    using horner_byte [of 24 v] horner_byte [of 16 v] horner_byte [of 8 v] horner_byte [of 0 v]
    by simp
  finally show ?thesis .
qed

lemma wire_get_put_u64 [simp]: "wire_get_u64 (wire_put_u64 v @ rest) = v"
  using horner_byte [of 24 v] horner_byte [of 16 v] horner_byte [of 8 v] horner_byte [of 0 v]
    horner_byte [of 56 v] horner_byte [of 48 v] horner_byte [of 40 v] horner_byte [of 32 v]
  by (simp add: wire_get_u64_def wire_put_u64_def upt_8)

lemma wire_get_put_u16' [simp]: "wire_get_u16 (wire_put_u16 v) = v"
  using wire_get_put_u16 [of v "[]"] by simp

lemma wire_get_put_u32' [simp]: "wire_get_u32 (wire_put_u32 v) = v"
  using wire_get_put_u32 [of v "[]"] by simp

lemma wire_get_put_u64' [simp]: "wire_get_u64 (wire_put_u64 v) = v"
  using wire_get_put_u64 [of v "[]"] by simp

lemma bit_byte_bound [simp]: "8 \<le> n \<Longrightarrow> \<not> bit (b :: byte) n"
  using bit_imp_le_length [of b n] by auto

text \<open>Decoding is injective: encoding what was read gives back the bytes it was read from.\<close>

lemma put_get_u16: "wire_put_u16 (wire_get_u16 [a, b]) = [a, b]"
  by (auto simp: wire_put_u16_def wire_get_u16_def bit_simps intro!: bit_word_eqI)

lemma put_get_u32: "wire_put_u32 (wire_get_u32 [a, b, c, d]) = [a, b, c, d]"
  by (auto simp: wire_put_u32_def wire_get_u32_def bit_simps intro!: bit_word_eqI)

lemma put_get_u64: "wire_put_u64 (wire_get_u64 [a, b, c, d, e, f, g, h]) = [a, b, c, d, e, f, g, h]"
  by (auto simp: wire_put_u64_def wire_get_u64_def upt_8 bit_simps intro!: bit_word_eqI)

lemma list_2: "length bs = 2 \<Longrightarrow> bs = [bs ! 0, bs ! 1]"
  by (auto simp: numeral_2_eq_2 length_Suc_conv)

lemma list_4: "length bs = 4 \<Longrightarrow> bs = [bs ! 0, bs ! 1, bs ! 2, bs ! 3]"
  by (auto simp: numeral_eq_Suc length_Suc_conv)

lemma list_8:
  "length bs = 8 \<Longrightarrow> bs = [bs ! 0, bs ! 1, bs ! 2, bs ! 3, bs ! 4, bs ! 5, bs ! 6, bs ! 7]"
  by (auto simp: numeral_eq_Suc length_Suc_conv)

lemma wire_put_get_u16: "2 \<le> length bs \<Longrightarrow> wire_put_u16 (wire_get_u16 bs) = take 2 bs"
  using put_get_u16 [of "bs ! 0" "bs ! 1"] list_2 [of "take 2 bs"] by (simp add: wire_get_u16_def)

lemma wire_put_get_u32: "4 \<le> length bs \<Longrightarrow> wire_put_u32 (wire_get_u32 bs) = take 4 bs"
  using put_get_u32 [of "bs ! 0" "bs ! 1" "bs ! 2" "bs ! 3"] list_4 [of "take 4 bs"]
  by (simp add: wire_get_u32_def)

lemma wire_put_get_u64: "8 \<le> length bs \<Longrightarrow> wire_put_u64 (wire_get_u64 bs) = take 8 bs"
  using put_get_u64 [of "bs ! 0" "bs ! 1" "bs ! 2" "bs ! 3" "bs ! 4" "bs ! 5" "bs ! 6" "bs ! 7"]
    list_8 [of "take 8 bs"]
  by (simp add: wire_get_u64_def upt_8)

section \<open>Remote error codes\<close>

text \<open>
  The receiver sees the sender's error up to the classes of the code table: \<open>EINVAL\<close> arrives as
  \<open>EBADMSG\<close>, \<open>EOVERFLOW\<close> as \<open>EMSGSIZE\<close> and everything unlisted as \<open>EIO\<close>.
\<close>

definition remote_class :: "errno \<Rightarrow> errno" where
  "remote_class e = (case e of
      ENOENT \<Rightarrow> ENOENT | ENOTUNIQ \<Rightarrow> ENOTUNIQ | EEXIST \<Rightarrow> EEXIST | EBADMSG \<Rightarrow> EBADMSG | EINVAL \<Rightarrow> EBADMSG
    | ENOTSUP \<Rightarrow> ENOTSUP | EACCES \<Rightarrow> EACCES | ENODATA \<Rightarrow> ENODATA | EMSGSIZE \<Rightarrow> EMSGSIZE
    | EOVERFLOW \<Rightarrow> EMSGSIZE | _ \<Rightarrow> EIO)"

lemma remote_error_roundtrip: "remote_error_decode (remote_error_encode e) = remote_class e"
  by (cases e) (simp_all add: remote_error_decode_def remote_error_encode_def remote_class_def)

end
