(* ===== verification/Network.thy ===== *)
theory Network
  imports Prelude
begin

text \<open>
  The two transfer loops of \<^verbatim>\<open>network.c\<close>. A socket is a byte stream. The environment answers each
  \<open>send\<close> or \<open>recv\<close> in turn: \<open>Ret n\<close> moves up to \<open>n\<close> bytes, \<open>Err e\<close> fails with \<open>errno = e\<close>
  (the expiry of the control deadline is the answer \<open>Err ETIMEDOUT\<close>), and after \<open>Err EAGAIN\<close> the
  next answer is that of \<open>wait_ready\<close>, which loops over \<open>poll\<close> until the descriptor is ready or
  the deadline passes. The loops return the bytes they moved.
\<close>

fun network_send_all :: "answer list \<Rightarrow> byte list \<Rightarrow> errno option \<times> byte list" where
  "network_send_all as [] = (None, [])"
| "network_send_all [] data = (None, data)"
| "network_send_all (Ret n # as) data =
     (if n = 0 then (Some EPIPE, [])
      else let (r, sent) = network_send_all as (drop n data) in (r, take n data @ sent))"
| "network_send_all (Err e # as) data =
     (if e = EINTR then network_send_all as data
      else if e = EAGAIN then
        (case as of [] \<Rightarrow> (None, data)
         | Err e' # _ \<Rightarrow> (Some e', [])
         | Ret _ # as' \<Rightarrow> network_send_all as' data)
      else (Some e, []))"

fun network_recv_exact :: "answer list \<Rightarrow> nat \<Rightarrow> byte list \<Rightarrow> errno + byte list \<times> byte list" where
  "network_recv_exact as 0 stream = Inr ([], stream)"
| "network_recv_exact [] (Suc k) stream = Inr (take (Suc k) stream, drop (Suc k) stream)"
| "network_recv_exact (Ret n # as) (Suc k) stream =
     (let count = min n (min (Suc k) (length stream)) in
      if count = 0 then Inr ([], stream)
      else case network_recv_exact as (Suc k - count) (drop count stream) of
             Inl e \<Rightarrow> Inl e
           | Inr (got, rest) \<Rightarrow> Inr (take count stream @ got, rest))"
| "network_recv_exact (Err e # as) (Suc k) stream =
     (if e = EINTR then network_recv_exact as (Suc k) stream
      else if e = EAGAIN then
        (case as of [] \<Rightarrow> Inr (take (Suc k) stream, drop (Suc k) stream)
         | Err e' # _ \<Rightarrow> Inl e'
         | Ret _ # as' \<Rightarrow> network_recv_exact as' (Suc k) stream)
      else Inl e)"

text \<open>Whatever the interruptions, a completed send delivers the whole buffer, in order.\<close>

lemma network_send_all_complete:
  "network_send_all as data = (None, sent) \<Longrightarrow> sent = data"
proof (induction as data arbitrary: sent rule: network_send_all.induct)
  case (3 n as v va)
  then show ?case
    by (auto simp: Let_def split: if_splits prod.splits)
next
  case (4 e as v va)
  then show ?case
    by (cases as) (auto split: if_splits answer.splits)
qed auto

lemma network_send_all_prefix: "\<exists>rest. data = snd (network_send_all as data) @ rest"
proof (induction as data rule: network_send_all.induct)
  case (3 n as v va)
  show ?case
  proof (cases "n = 0")
    case False
    with "3.IH" obtain rest where "drop n (v # va) = snd (network_send_all as (drop n (v # va))) @ rest"
      by auto
    then have "v # va = take n (v # va) @ snd (network_send_all as (drop n (v # va))) @ rest"
      by (metis append_take_drop_id)
    with False show ?thesis by (auto simp: Let_def split: prod.splits)
  qed simp
next
  case (4 e as v va)
  then show ?case by (cases as) (auto split: if_splits answer.splits)
qed auto

text \<open>A completed receive takes a prefix of the stream and never more than asked for.\<close>

lemma network_recv_exact_prefix:
  "network_recv_exact as want stream = Inr (got, rest) \<Longrightarrow> stream = got @ rest \<and> length got \<le> want"
proof (induction as want stream arbitrary: got rest rule: network_recv_exact.induct)
  case (3 n as k stream)
  let ?c = "min n (min (Suc k) (length stream))"
  show ?case
  proof (cases "?c = 0")
    case True
    with 3 show ?thesis by (auto simp: Let_def)
  next
    case False
    with "3.prems" obtain g where
      g: "network_recv_exact as (Suc k - ?c) (drop ?c stream) = Inr (g, rest)"
      and got: "got = take ?c stream @ g"
      by (auto simp: Let_def split: sum.splits)
    from "3.IH" [OF refl False g] have d: "drop ?c stream = g @ rest"
      and "length g \<le> Suc k - ?c" by (rule conjunct1, rule conjunct2)
    then have "length got \<le> Suc k"
      by (simp add: got)
    moreover have "stream = got @ rest"
      unfolding got append.assoc d [symmetric] by (rule append_take_drop_id [symmetric])
    ultimately show ?thesis by simp
  qed
next
  case (4 e as k stream)
  consider "e = EINTR" | "e = EAGAIN" "as = []" | r as' where "e = EAGAIN" "as = Ret r # as'"
    using "4.prems" by (cases as) (auto split: if_splits answer.splits)
  then show ?case
  proof cases
    case 1
    with "4.IH"(1) "4.prems" show ?thesis by simp
  next
    case 2
    with "4.prems" show ?thesis by auto
  next
    case 3
    then have "network_recv_exact as' (Suc k) stream = Inr (got, rest)"
      using "4.prems" by simp
    with "4.IH"(2) 3 show ?thesis by blast
  qed
qed auto

end
