(* ===== verification/Protocol.thy ===== *)
theory Protocol
  imports Wire Network
begin

text \<open>
  Framing of \<^verbatim>\<open>protocol.c\<close> and \<^verbatim>\<open>protocol.h\<close>: the 98-byte header, its validation, the CRC32 over
  header and payload, and sending and receiving one message over a byte stream.

  The CRC itself is zlib's \<open>crc32\<close>, a parameter \<open>crc :: u64 \<Rightarrow> byte list \<Rightarrow> u64\<close> (\<open>uLong\<close> is
  64 bits wide on the targets of the Makefile). What zlib documents of it is \<open>zlib_crc\<close>: feeding
  two blocks in turn is feeding their concatenation, and an empty block changes nothing.
\<close>

section \<open>Data\<close>

datatype Message_Type =
    M_JOIN | M_ACK | M_ERROR | M_PING | M_PONG | M_LEAVE | M_LOOKUP | M_STORE | M_DOWNLOAD_REQ
  | M_DOWNLOAD_REP | M_PREPARE | M_COMMIT | M_ABORT | M_HEARTBEAT | M_GOSSIP | M_ELECTION | M_OK
  | M_COORDINATOR | M_SNAPSHOT | M_STATE_TRANSFER | M_CHORD_INFO | M_CHORD_ROUTE
  | M_CHORD_PREDECESSOR | M_CHORD_NOTIFY | M_CHORD_FINGER | M_IST_REQUEST | M_IST_BATCH

fun m_type :: "Message_Type \<Rightarrow> byte" where
  "m_type M_JOIN = 0" | "m_type M_ACK = 1" | "m_type M_ERROR = 2" | "m_type M_PING = 3"
| "m_type M_PONG = 4" | "m_type M_LEAVE = 5" | "m_type M_LOOKUP = 6" | "m_type M_STORE = 7"
| "m_type M_DOWNLOAD_REQ = 8" | "m_type M_DOWNLOAD_REP = 9" | "m_type M_PREPARE = 10"
| "m_type M_COMMIT = 11" | "m_type M_ABORT = 12" | "m_type M_HEARTBEAT = 13" | "m_type M_GOSSIP = 14"
| "m_type M_ELECTION = 15" | "m_type M_OK = 16" | "m_type M_COORDINATOR = 17"
| "m_type M_SNAPSHOT = 18" | "m_type M_STATE_TRANSFER = 19" | "m_type M_CHORD_INFO = 20"
| "m_type M_CHORD_ROUTE = 21" | "m_type M_CHORD_PREDECESSOR = 22" | "m_type M_CHORD_NOTIFY = 23"
| "m_type M_CHORD_FINGER = 24" | "m_type M_IST_REQUEST = 25" | "m_type M_IST_BATCH = 26"

record header =
  protocol_version :: byte
  message_type :: byte
  source_node :: "byte list"
  destination_node :: "byte list"
  header_transaction_id :: "byte list"
  timestamp :: u64
  header_payload_size :: u32
  header_checksum :: u32

record message =
  message_header :: header
  message_payload :: "byte list option"

datatype protocol_result = PROTOCOL_ERROR | PROTOCOL_OK | PROTOCOL_CLOSED

type_synonym zcrc = "u64 \<Rightarrow> byte list \<Rightarrow> u64"

definition PROTOCOL_VERSION :: byte where
  "PROTOCOL_VERSION = 1"

definition NODE_ID_SIZE :: nat where
  "NODE_ID_SIZE = 32"

definition TRANSACTION_ID_SIZE :: nat where
  "TRANSACTION_ID_SIZE = 16"

definition HEADER_WIRE_SIZE :: nat where
  "HEADER_WIRE_SIZE = 98"

definition MAX_PAYLOAD_SIZE :: u32 where
  "MAX_PAYLOAD_SIZE = 5 * 1024 * 1024"

definition zero_header :: header where
  "zero_header = \<lparr>protocol_version = 0, message_type = 0, source_node = replicate NODE_ID_SIZE 0,
     destination_node = replicate NODE_ID_SIZE 0, header_transaction_id = replicate TRANSACTION_ID_SIZE 0,
     timestamp = 0, header_payload_size = 0, header_checksum = 0\<rparr>"

section \<open>Operations\<close>

definition message_init :: message where
  "message_init = \<lparr>message_header = zero_header\<lparr>protocol_version := PROTOCOL_VERSION\<rparr>, message_payload = None\<rparr>"

definition message_free :: "message \<Rightarrow> message" where
  "message_free m = m\<lparr>message_payload := None, message_header := zero_header\<rparr>"

text \<open>The CRC is updated in blocks of at most \<open>UINT_MAX\<close> bytes, the range of zlib's length.\<close>

function crc32_blocks :: "zcrc \<Rightarrow> u64 \<Rightarrow> byte list \<Rightarrow> u64" where
  "crc32_blocks crc r data =
     (if data = [] then r
      else let chunk = min (length data) UINT_MAX
           in crc32_blocks crc (crc r (take chunk data)) (drop chunk data))"
  by pat_completeness auto
termination
  by (relation "measure (\<lambda>(_, _, d). length d)") (auto simp: UINT_MAX_def)

definition crc32_update :: "zcrc \<Rightarrow> u32 \<Rightarrow> byte list \<Rightarrow> u32" where
  "crc32_update crc c data = ucast (crc32_blocks crc (ucast c) data)"

definition protocol_calculate_crc32 :: "zcrc \<Rightarrow> byte list \<Rightarrow> u32" where
  "protocol_calculate_crc32 crc data = crc32_update crc 0 data"

definition protocol_validate_header :: "header \<Rightarrow> bool" where
  "protocol_validate_header h \<longleftrightarrow>
     protocol_version h = PROTOCOL_VERSION \<and>
     message_type h \<in> set (map m_type
       [M_JOIN, M_ACK, M_ERROR, M_PING, M_PONG, M_LEAVE, M_LOOKUP, M_STORE, M_DOWNLOAD_REQ,
        M_DOWNLOAD_REP, M_PREPARE, M_COMMIT, M_ABORT, M_HEARTBEAT, M_GOSSIP, M_ELECTION, M_OK,
        M_COORDINATOR, M_SNAPSHOT, M_STATE_TRANSFER, M_CHORD_INFO, M_CHORD_ROUTE,
        M_CHORD_PREDECESSOR, M_CHORD_NOTIFY, M_CHORD_FINGER, M_IST_REQUEST, M_IST_BATCH]) \<and>
     header_payload_size h \<le> MAX_PAYLOAD_SIZE"

definition header_bytes :: "header \<Rightarrow> byte list" where
  "header_bytes h =
     [protocol_version h] @ [message_type h] @ source_node h @ destination_node h @
     header_transaction_id h @ wire_put_u64 (timestamp h) @ wire_put_u32 (header_payload_size h) @
     wire_put_u32 (header_checksum h)"

definition protocol_serialize_header :: "header \<Rightarrow> nat \<Rightarrow> byte list option" where
  "protocol_serialize_header h buffer_size =
     (if buffer_size < HEADER_WIRE_SIZE then None
      else if \<not> protocol_validate_header h then None
      else Some (header_bytes h))"

definition protocol_deserialize_header :: "byte list \<Rightarrow> header option" where
  "protocol_deserialize_header buffer =
     (if length buffer < HEADER_WIRE_SIZE then None
      else Some \<lparr>protocol_version = buffer ! 0, message_type = buffer ! 1,
             source_node = take NODE_ID_SIZE (drop 2 buffer),
             destination_node = take NODE_ID_SIZE (drop 34 buffer),
             header_transaction_id = take TRANSACTION_ID_SIZE (drop 66 buffer),
             timestamp = wire_get_u64 (drop 82 buffer),
             header_payload_size = wire_get_u32 (drop 90 buffer),
             header_checksum = wire_get_u32 (drop 94 buffer)\<rparr>)"

text \<open>The payload argument is the bytes that the pointer gives access to.\<close>

definition protocol_message_crc32 :: "zcrc \<Rightarrow> header \<Rightarrow> byte list \<Rightarrow> u32" where
  "protocol_message_crc32 crc h payload =
     (let canonical = h\<lparr>header_checksum := 0\<rparr> in
      case protocol_serialize_header canonical HEADER_WIRE_SIZE of
        None \<Rightarrow> 0
      | Some serialized \<Rightarrow>
          (let c = crc32_update crc 0 serialized in
           if 0 < header_payload_size canonical
           then crc32_update crc c (take (unat (header_payload_size canonical)) payload) else c))"

definition protocol_send_message :: "zcrc \<Rightarrow> os \<Rightarrow> message \<Rightarrow> protocol_result \<times> byte list" where
  "protocol_send_message crc os m =
     (let h = message_header m in
      if \<not> protocol_validate_header h \<or> (0 < header_payload_size h \<and> message_payload m = None)
      then (PROTOCOL_ERROR, [])
      else
        let payload = (case message_payload m of None \<Rightarrow> [] | Some p \<Rightarrow> p);
            wire = h\<lparr>header_checksum := 0\<rparr>;
            wire = wire\<lparr>header_checksum := protocol_message_crc32 crc wire payload\<rparr> in
        case protocol_serialize_header wire HEADER_WIRE_SIZE of
          None \<Rightarrow> (PROTOCOL_ERROR, [])
        | Some serialized \<Rightarrow>
            (case network_send_all (at os 0 []) serialized of
               (Some e, sent) \<Rightarrow> (PROTOCOL_ERROR, sent)
             | (None, sent) \<Rightarrow>
                 if 0 < header_payload_size wire then
                   (case network_send_all (at os 1 []) (take (unat (header_payload_size wire)) payload) of
                      (Some e, sent') \<Rightarrow> (PROTOCOL_ERROR, sent @ sent')
                    | (None, sent') \<Rightarrow> (PROTOCOL_OK, sent @ sent'))
                 else (PROTOCOL_OK, sent)))"

text \<open>The result, the caller's message object afterwards and the rest of the stream.\<close>

definition protocol_receive_message ::
  "zcrc \<Rightarrow> os \<Rightarrow> byte list \<Rightarrow> message \<Rightarrow> protocol_result \<times> message \<times> byte list" where
  "protocol_receive_message crc os stream old =
     (case network_recv_exact (at os 0 []) HEADER_WIRE_SIZE stream of
        Inl e \<Rightarrow> (PROTOCOL_ERROR, old, stream)
      | Inr (serialized, stream) \<Rightarrow>
          if serialized = [] then (PROTOCOL_CLOSED, old, stream)
          else if length serialized \<noteq> HEADER_WIRE_SIZE then (PROTOCOL_ERROR, old, stream)
          else (case protocol_deserialize_header serialized of
              None \<Rightarrow> (PROTOCOL_ERROR, old, stream)
            | Some h \<Rightarrow>
                if \<not> protocol_validate_header h then (PROTOCOL_ERROR, old, stream)
                else if 0 < header_payload_size h then
                  (case fault (at os 1) of
                     Some e \<Rightarrow> (PROTOCOL_ERROR, old, stream)
                   | None \<Rightarrow>
                       (case network_recv_exact (at os 2 []) (unat (header_payload_size h)) stream of
                          Inl e \<Rightarrow> (PROTOCOL_ERROR, old, stream)
                        | Inr (payload, stream) \<Rightarrow>
                            if length payload \<noteq> unat (header_payload_size h) then (PROTOCOL_ERROR, old, stream)
                            else if header_checksum h \<noteq> protocol_message_crc32 crc h payload
                            then (PROTOCOL_ERROR, old, stream)
                            else (PROTOCOL_OK, \<lparr>message_header = h, message_payload = Some payload\<rparr>, stream)))
                else if header_checksum h \<noteq> protocol_message_crc32 crc h []
                then (PROTOCOL_ERROR, old, stream)
                else (PROTOCOL_OK, \<lparr>message_header = h, message_payload = None\<rparr>, stream)))"

section \<open>The CRC in blocks\<close>

definition zlib_crc :: "zcrc \<Rightarrow> bool" where
  "zlib_crc crc \<longleftrightarrow> (\<forall>c a b. crc (crc c a) b = crc c (a @ b)) \<and> (\<forall>c. crc c [] = c)"

declare crc32_blocks.simps [simp del]

lemma crc32_blocks_Nil [simp]: "crc32_blocks crc r [] = r"
  by (simp add: crc32_blocks.simps)

lemma crc32_blocks_one_pass:
  "zlib_crc crc \<Longrightarrow> crc32_blocks crc r data = crc r data"
proof (induction crc r data rule: crc32_blocks.induct)
  case (1 crc r data)
  let ?c = "min (length data) UINT_MAX"
  show ?case
  proof (cases "data = []")
    case True
    with "1.prems" show ?thesis by (simp add: zlib_crc_def)
  next
    case False
    have "crc32_blocks crc r data = crc32_blocks crc (crc r (take ?c data)) (drop ?c data)"
      using False by (simp add: crc32_blocks.simps [of crc r data] Let_def)
    also have "\<dots> = crc (crc r (take ?c data)) (drop ?c data)"
      by (rule "1.IH" [OF False refl "1.prems"])
    also have "\<dots> = crc r data"
      using "1.prems" by (simp add: zlib_crc_def)
    finally show ?thesis .
  qed
qed

section \<open>Headers\<close>

definition header_wf :: "header \<Rightarrow> bool" where
  "header_wf h \<longleftrightarrow> length (source_node h) = NODE_ID_SIZE \<and> length (destination_node h) = NODE_ID_SIZE \<and>
     length (header_transaction_id h) = TRANSACTION_ID_SIZE"

lemmas size_defs = NODE_ID_SIZE_def TRANSACTION_ID_SIZE_def HEADER_WIRE_SIZE_def

lemma header_wf_checksum [simp]: "header_wf (h\<lparr>header_checksum := c\<rparr>) = header_wf h"
  by (simp add: header_wf_def)

lemma validate_checksum [simp]:
  "protocol_validate_header (h\<lparr>header_checksum := c\<rparr>) = protocol_validate_header h"
  by (simp add: protocol_validate_header_def)

lemma length_header_bytes [simp, len]: "header_wf h \<Longrightarrow> length (header_bytes h) = HEADER_WIRE_SIZE"
  by (simp add: header_bytes_def header_wf_def size_defs)

lemma deserialize_header_bytes:
  assumes "header_wf h"
  shows "protocol_deserialize_header (header_bytes h @ rest) = Some h"
proof -
  from assms have l: "length (source_node h) = 32" "length (destination_node h) = 32"
    "length (header_transaction_id h) = 16"
    by (auto simp: header_wf_def size_defs)
  have "HEADER_WIRE_SIZE \<le> length (header_bytes h @ rest)"
    using assms by simp
  then show ?thesis
    using l by (simp add: protocol_deserialize_header_def header_bytes_def drop_append
        NODE_ID_SIZE_def TRANSACTION_ID_SIZE_def)
qed

lemma deserialize_length:
  "protocol_deserialize_header b = Some h \<Longrightarrow> header_wf h \<and> HEADER_WIRE_SIZE \<le> length b"
  by (auto simp: protocol_deserialize_header_def header_wf_def size_defs split: if_splits)

lemma header_bytes_deserialize:
  assumes "protocol_deserialize_header b = Some h" "length b = HEADER_WIRE_SIZE"
  shows "header_bytes h = b"
proof -
  from assms(2) have l: "length b = 98" by (simp add: HEADER_WIRE_SIZE_def)
  have split: "b = [b ! 0] @ [b ! 1] @ take 32 (drop 2 b) @ take 32 (drop 34 b) @ take 16 (drop 66 b) @
      take 8 (drop 82 b) @ take 4 (drop 90 b) @ take 4 (drop 94 b)"
  proof -
    have "b = take 2 b @ drop 2 b" by simp
    also have "take 2 b = [b ! 0] @ [b ! 1]" using l list_2 [of "take 2 b"] by simp
    also have "drop 2 b = take 32 (drop 2 b) @ take 32 (drop 34 b) @ take 16 (drop 66 b) @
      take 8 (drop 82 b) @ take 4 (drop 90 b) @ take 4 (drop 94 b)"
      using l take_drop_split [of 32 2 b] take_drop_split [of 32 34 b] take_drop_split [of 16 66 b]
        take_drop_split [of 8 82 b] take_drop_split [of 4 90 b]
      by simp
    finally show ?thesis by simp
  qed
  have "header_bytes h = [b ! 0] @ [b ! 1] @ take 32 (drop 2 b) @ take 32 (drop 34 b) @ take 16 (drop 66 b) @
      take 8 (drop 82 b) @ take 4 (drop 90 b) @ take 4 (drop 94 b)"
    using assms(1) l by (auto simp: protocol_deserialize_header_def header_bytes_def size_defs
        wire_put_get_u64 wire_put_get_u32 split: if_splits)
  then show ?thesis
    unfolding split [symmetric] .
qed

section \<open>Frames\<close>

text \<open>
  The specification of a frame: the header carrying the checksum of the message, then the payload.
\<close>

definition message_wf :: "message \<Rightarrow> bool" where
  "message_wf m \<longleftrightarrow> header_wf (message_header m) \<and> protocol_validate_header (message_header m) \<and>
     (case message_payload m of
        None \<Rightarrow> header_payload_size (message_header m) = 0
      | Some p \<Rightarrow> p \<noteq> [] \<and> length p = unat (header_payload_size (message_header m)))"

definition payload_bytes :: "message \<Rightarrow> byte list" where
  "payload_bytes m = (case message_payload m of None \<Rightarrow> [] | Some p \<Rightarrow> p)"

definition sealed :: "zcrc \<Rightarrow> message \<Rightarrow> message" where
  "sealed crc m = m\<lparr>message_header := (message_header m)\<lparr>header_checksum :=
     protocol_message_crc32 crc (message_header m) (payload_bytes m)\<rparr>\<rparr>"

definition frame :: "zcrc \<Rightarrow> message \<Rightarrow> byte list" where
  "frame crc m = header_bytes (message_header (sealed crc m)) @ payload_bytes m"

lemma message_crc_checksum [simp]:
  "protocol_message_crc32 crc (h\<lparr>header_checksum := c\<rparr>) p = protocol_message_crc32 crc h p"
  by (simp add: protocol_message_crc32_def)

lemma send_ok_frame:
  assumes "message_wf m" "protocol_send_message crc os m = (PROTOCOL_OK, sent)"
  shows "sent = frame crc m"
  using assms
  by (auto simp: protocol_send_message_def message_wf_def frame_def sealed_def payload_bytes_def Let_def
      protocol_serialize_header_def word_greater_zero_iff
      dest!: network_send_all_complete split: if_splits option.splits prod.splits)

lemma recv_calm: "network_recv_exact [] n (xs @ ys) = Inr (xs, ys)" if "length xs = n"
  using that by (cases n) auto

lemma serialize_sealed:
  "header_wf h \<Longrightarrow> protocol_validate_header h \<Longrightarrow> protocol_serialize_header h HEADER_WIRE_SIZE = Some (header_bytes h)"
  by (simp add: protocol_serialize_header_def)

lemma receive_frame:
  assumes "message_wf m"
  shows "protocol_receive_message crc calm (frame crc m @ rest) old = (PROTOCOL_OK, sealed crc m, rest)"
proof -
  obtain h where h: "message_header (sealed crc m) = h" by simp
  have wf: "header_wf h" and v: "protocol_validate_header h"
    and crc: "header_checksum h = protocol_message_crc32 crc h (payload_bytes m)"
    and size: "header_payload_size h = header_payload_size (message_header m)"
    using assms by (auto simp: message_wf_def sealed_def h [symmetric])
  have s: "sealed crc m = \<lparr>message_header = h, message_payload = message_payload m\<rparr>"
    unfolding h [symmetric] by (simp add: sealed_def)
  have head: "network_recv_exact [] HEADER_WIRE_SIZE (header_bytes h @ p) = Inr (header_bytes h, p)" for p
    using wf by (intro recv_calm) simp
  have des: "protocol_deserialize_header (header_bytes h) = Some h"
    using deserialize_header_bytes [OF wf, of "[]"] by simp
  have nz: "header_bytes h \<noteq> []"
    by (simp add: header_bytes_def)
  note facts = protocol_receive_message_def frame_def h s head des nz wf v
  show ?thesis
  proof (cases "message_payload m")
    case None
    with assms size have "header_payload_size h = 0" by (auto simp: message_wf_def)
    with None crc show ?thesis by (simp add: facts payload_bytes_def)
  next
    case (Some p)
    with assms size have sz: "length p = unat (header_payload_size h)" "0 < header_payload_size h"
      by (auto simp: message_wf_def word_greater_zero_iff)
    then have "network_recv_exact [] (unat (header_payload_size h)) (p @ rest) = Inr (p, rest)"
      by (intro recv_calm)
    moreover have "payload_bytes m = p" using Some by (simp add: payload_bytes_def)
    ultimately show ?thesis using Some crc sz by (simp add: facts)
  qed
qed

text \<open>What a successful receive has seen: a frame of the returned message, then the rest.\<close>

lemma receive_sound:
  assumes "protocol_receive_message crc os stream old = (PROTOCOL_OK, m, rest)"
  shows "message_wf m \<and> sealed crc m = m \<and> stream = frame crc m @ rest"
proof -
  from assms obtain ser s1 h where
    r: "network_recv_exact (at os 0 []) HEADER_WIRE_SIZE stream = Inr (ser, s1)"
    and l: "length ser = HEADER_WIRE_SIZE" and d: "protocol_deserialize_header ser = Some h"
    and v: "protocol_validate_header h"
    by (auto simp: protocol_receive_message_def split: sum.splits if_splits option.splits prod.splits)
  from r have stream: "stream = ser @ s1" by (rule network_recv_exact_prefix [THEN conjunct1])
  have wf: "header_wf h" and hb: "header_bytes h = ser"
    using deserialize_length [OF d] header_bytes_deserialize [OF d l] by auto
  show ?thesis
  proof (cases "0 < header_payload_size h")
    case True
    with assms r l d v obtain p s2 where
      r2: "network_recv_exact (at os 2 []) (unat (header_payload_size h)) s1 = Inr (p, s2)"
      and lp: "length p = unat (header_payload_size h)"
      and c: "header_checksum h = protocol_message_crc32 crc h p"
      and m: "m = \<lparr>message_header = h, message_payload = Some p\<rparr>" "rest = s2"
      by (auto simp: protocol_receive_message_def split: sum.splits if_splits option.splits prod.splits)
    from r2 have "s1 = p @ s2" by (rule network_recv_exact_prefix [THEN conjunct1])
    moreover have "p \<noteq> []" using lp True by (auto simp: unat_eq_zero)
    ultimately show ?thesis
      using stream wf hb v lp m c [symmetric]
      by (auto simp: message_wf_def sealed_def frame_def payload_bytes_def)
  next
    case False
    with assms r l d v have
      c: "header_checksum h = protocol_message_crc32 crc h []"
      and m: "m = \<lparr>message_header = h, message_payload = None\<rparr>" "rest = s1"
      by (auto simp: protocol_receive_message_def split: sum.splits if_splits option.splits prod.splits)
    with False stream wf hb v show ?thesis
      using c [symmetric]
      by (auto simp: message_wf_def sealed_def frame_def payload_bytes_def word_greater_zero_iff)
  qed
qed

lemma receive_error_keeps:
  "protocol_receive_message crc os stream old = (r, m, rest) \<Longrightarrow> r \<noteq> PROTOCOL_OK \<Longrightarrow> m = old"
  by (auto simp: protocol_receive_message_def split: sum.splits if_splits option.splits prod.splits)

section \<open>A checksum for the examples\<close>

text \<open>A function with the laws of zlib's, to evaluate the definitions on concrete messages.\<close>

definition sum_crc :: zcrc where
  "sum_crc = foldl (\<lambda>c b. 31 * c + ucast b)"

lemma zlib_sum_crc [simp]: "zlib_crc sum_crc"
  by (simp add: zlib_crc_def sum_crc_def)

definition sample_message :: message where
  "sample_message = \<lparr>message_header = zero_header\<lparr>protocol_version := 1, message_type := m_type M_PING,
     header_payload_size := 3\<rparr>, message_payload = Some [7, 8, 9]\<rparr>"

lemma sample_message_wf: "message_wf sample_message"
  by (simp add: message_wf_def sample_message_def header_wf_def zero_header_def protocol_validate_header_def
      PROTOCOL_VERSION_def MAX_PAYLOAD_SIZE_def NODE_ID_SIZE_def TRANSACTION_ID_SIZE_def)

lemma send_calm:
  assumes "message_wf m"
  shows "protocol_send_message crc calm m = (PROTOCOL_OK, frame crc m)"
proof -
  have s: "network_send_all [] d = (None, d)" for d by (cases d) auto
  have v: "protocol_validate_header (message_header m)" using assms by (simp add: message_wf_def)
  show ?thesis
  proof (cases "message_payload m")
    case None
    with assms v show ?thesis
      by (simp add: protocol_send_message_def message_wf_def Let_def protocol_serialize_header_def s frame_def sealed_def
          payload_bytes_def)
  next
    case (Some p)
    with assms v show ?thesis
      by (auto simp: protocol_send_message_def message_wf_def Let_def protocol_serialize_header_def s frame_def sealed_def
          payload_bytes_def word_greater_zero_iff)
  qed
qed

section \<open>Properties\<close>

text \<open>
C34: What the sender writes the receiver reads. A message that is sent successfully puts exactly
one frame on the connection (and it is sent successfully when the system calls are), and receiving from a stream that begins with this frame gives the
message, with the checksum filled in, and leaves the rest of the stream untouched.
\<close>

theorem protocol_send_receive:
  assumes "message_wf m" "protocol_send_message crc os m = (PROTOCOL_OK, sent)"
  shows "protocol_receive_message crc calm (sent @ rest) old = (PROTOCOL_OK, sealed crc m, rest) \<and>
    protocol_send_message crc calm m = (PROTOCOL_OK, sent)"
  unfolding send_ok_frame [OF assms] using receive_frame [OF assms(1)] send_calm [OF assms(1)] by simp

theorem protocol_send_receive_witness:
  "protocol_receive_message sum_crc calm (frame sum_crc sample_message @ [1, 2]) message_init =
     (PROTOCOL_OK, sealed sum_crc sample_message, [1, 2]) \<and>
   protocol_send_message sum_crc calm sample_message = (PROTOCOL_OK, frame sum_crc sample_message)"
  by (rule protocol_send_receive [OF sample_message_wf send_calm [OF sample_message_wf]])

text \<open>
C33: A received message is genuine, whatever the connection delivers and however reads are
split: when receiving succeeds, the stream began with the frame of the returned message, whose
header passed validation, whose payload has the announced size and whose checksum matches. When
it fails, the caller's message is left as it was.
\<close>

theorem protocol_receive_genuine:
  assumes "protocol_receive_message crc os stream old = (r, m, rest)"
  shows "(r = PROTOCOL_OK \<longrightarrow> message_wf m \<and> sealed crc m = m \<and> stream = frame crc m @ rest) \<and>
    (r \<noteq> PROTOCOL_OK \<longrightarrow> m = old)"
  using receive_sound [of crc os stream old m rest] receive_error_keeps [OF assms] assms by blast

theorem protocol_receive_genuine_witness:
  "message_wf (sealed sum_crc sample_message) \<and>
     frame sum_crc sample_message @ [1] = frame sum_crc (sealed sum_crc sample_message) @ [1]"
  using protocol_receive_genuine [OF receive_frame [OF sample_message_wf, of sum_crc "[1]" message_init]] by simp

text \<open>
The checksum computed block by block, in pieces of at most \<open>UINT_MAX\<close> bytes, is the
checksum of the whole buffer, for a CRC function that can be continued over consecutive buffers.
\<close>

theorem protocol_crc_blocks:
  assumes "zlib_crc crc"
  shows "protocol_calculate_crc32 crc data = ucast (crc 0 data)"
  using crc32_blocks_one_pass [OF assms, of 0 data]
  by (simp add: protocol_calculate_crc32_def crc32_update_def)

theorem protocol_crc_blocks_witness:
  "protocol_calculate_crc32 sum_crc [1, 2] = 33"
  unfolding protocol_crc_blocks [OF zlib_sum_crc] by (simp add: sum_crc_def)

end
