(* ===== verification/C4_Log.thy ===== *)
theory C4_Log
  imports Protocol
begin

text \<open>
  The replicated operation log and its transaction journal (\<^verbatim>\<open>c4_log.c\<close>, \<^verbatim>\<open>c4_log.h\<close>).

  A log object is the record \<open>C4Log\<close>: the array of committed entries, the table of two-phase-commit
  transactions, and the contents of the two files behind it, the log and its \<^verbatim>\<open>.txn\<close> journal. The
  fields \<open>count\<close> and \<open>transaction_count\<close> of the source are the lengths of the two lists. An
  operation that returns \<open>0\<close> or \<open>-1\<close> and changes the object is a function into
  \<open>errno option \<times> C4Log\<close>, \<open>None\<close> for \<open>0\<close>. The mutex serialises the operations, so each is one step.
\<close>

section \<open>Data\<close>

definition C4_LOG_HEADER_SIZE :: nat where
  "C4_LOG_HEADER_SIZE = 44"

definition C4_LOG_MAGIC :: "byte list" where
  "C4_LOG_MAGIC = [0x43, 0x34, 0x4c, 0x47]"

definition C4_TXN_MAGIC :: "byte list" where
  "C4_TXN_MAGIC = [0x43, 0x35, 0x54, 0x4a]"

definition C4_TXN_HEADER_SIZE :: nat where
  "C4_TXN_HEADER_SIZE = 16"

definition C4_TXN_PREPARE :: byte where
  "C4_TXN_PREPARE = 1"

definition C4_TXN_COMMIT :: byte where
  "C4_TXN_COMMIT = 2"

definition C4_TXN_ABORT :: byte where
  "C4_TXN_ABORT = 3"

datatype C4TransactionState = C4_TXN_UNKNOWN | C4_TXN_PREPARED | C4_TXN_COMMITTED | C4_TXN_ABORTED

record C4LogEntry =
  entry_index :: u64
  entry_version :: u64
  transaction_id :: "byte list"
  payload :: "byte list option"
  payload_size :: u32
  checksum :: u32

record C4Transaction =
  txn_entry :: C4LogEntry
  txn_state :: C4TransactionState

record C4Log =
  entries :: "C4LogEntry list"
  capacity :: nat
  transactions :: "C4Transaction list"
  transaction_capacity :: nat
  log_file :: "byte list"
  journal_file :: "byte list"

text \<open>Sizes of the slots of the two arrays on a 64-bit target.\<close>

definition LOG_SLOT_SIZE :: nat where
  "LOG_SLOT_SIZE = 48"

definition TXN_SLOT_SIZE :: nat where
  "TXN_SLOT_SIZE = 56"

definition zero_entry :: C4LogEntry where
  "zero_entry = \<lparr>entry_index = 0, entry_version = 0, transaction_id = replicate 16 0, payload = None,
     payload_size = 0, checksum = 0\<rparr>"

definition entry_payload :: "C4LogEntry \<Rightarrow> byte list" where
  "entry_payload e = (case payload e of None \<Rightarrow> [] | Some p \<Rightarrow> take (unat (payload_size e)) p)"

section \<open>File access\<close>

text \<open>\<open>pread\<close> until \<open>want\<close> bytes are read or the file ends; \<open>rest\<close> is the file from the offset on.\<close>

fun read_exact_at :: "answer list \<Rightarrow> nat \<Rightarrow> byte list \<Rightarrow> byte list result" where
  "read_exact_at as 0 rest = Inr []"
| "read_exact_at [] (Suc k) rest = Inr (take (Suc k) rest)"
| "read_exact_at (Ret n # as) (Suc k) rest =
     (let amount = min n (min (Suc k) (length rest)) in
      if amount = 0 then Inr []
      else case read_exact_at as (Suc k - amount) (drop amount rest) of
             Inl e \<Rightarrow> Inl e
           | Inr got \<Rightarrow> Inr (take amount rest @ got))"
| "read_exact_at (Err e # as) (Suc k) rest =
     (if e = EINTR then read_exact_at as (Suc k) rest else Inl e)"

text \<open>\<open>write\<close> until the buffer is written: the error, if any, and what was written.\<close>

fun write_all :: "answer list \<Rightarrow> byte list \<Rightarrow> errno option \<times> byte list" where
  "write_all as [] = (None, [])"
| "write_all [] data = (None, data)"
| "write_all (Ret n # as) data =
     (if n = 0 then (Some EIO, [])
      else let (r, written) = write_all as (drop n data) in (r, take n data @ written))"
| "write_all (Err e # as) data =
     (if e = EINTR then write_all as data else (Some e, []))"

definition sync_parent_directory :: "os \<Rightarrow> errno option" where
  "sync_parent_directory os =
     (case fault (at os 0) of Some e \<Rightarrow> Some e
      | None \<Rightarrow> (case fault (at os 1) of Some e \<Rightarrow> Some e | None \<Rightarrow> fault (at os 2)))"

text \<open>
  Both files are extended the same way: seek to the end, write header and payload, synchronise,
  and cut the file back to its old size on any failure. The call sites are \<open>lseek\<close> (0), the two
  writes (1, 2), \<open>fsync\<close> (3) and \<open>ftruncate\<close> (4), whose failure the code ignores.
\<close>

definition append_file :: "os \<Rightarrow> byte list \<Rightarrow> byte list \<Rightarrow> byte list \<Rightarrow> errno option \<times> byte list" where
  "append_file os file header data =
     (case fault (at os 0) of
        Some e \<Rightarrow> (Some e, file)
      | None \<Rightarrow>
          (let undo = (\<lambda>e dirty. (Some e, if fault (at os 4) = None then file else dirty));
               (r1, w1) = write_all (at os 1 []) header in
           case r1 of
             Some e \<Rightarrow> undo e (file @ w1)
           | None \<Rightarrow>
               (let (r2, w2) = (if data = [] then (None, []) else write_all (at os 2 []) data) in
                case r2 of
                  Some e \<Rightarrow> undo e (file @ w1 @ w2)
                | None \<Rightarrow>
                    (case fault (at os 3) of
                       Some e \<Rightarrow> undo e (file @ w1 @ w2)
                     | None \<Rightarrow> (None, file @ w1 @ w2)))))"

section \<open>Entries\<close>

definition c4_log_entry_free :: "C4LogEntry \<Rightarrow> C4LogEntry" where
  "c4_log_entry_free e = zero_entry"

definition entry_header :: "C4LogEntry \<Rightarrow> u32 \<Rightarrow> byte list" where
  "entry_header e c =
     C4_LOG_MAGIC @ wire_put_u64 (entry_index e) @ wire_put_u64 (entry_version e) @ transaction_id e @
     wire_put_u32 (payload_size e) @ wire_put_u32 c"

definition c4_log_entry_checksum :: "zcrc \<Rightarrow> os \<Rightarrow> C4LogEntry \<Rightarrow> u32" where
  "c4_log_entry_checksum crc os e =
     (if (0 < payload_size e \<and> payload e = None) \<or> MAX_PAYLOAD_SIZE < payload_size e then 0
      else case fault (at os 0) of
        Some _ \<Rightarrow> 0
      | None \<Rightarrow> protocol_calculate_crc32 crc (entry_header e 0 @ entry_payload e))"

definition copy_entry :: "os \<Rightarrow> C4LogEntry \<Rightarrow> C4LogEntry result" where
  "copy_entry os source =
     (if 0 < payload_size source then
        (case fault (at os 0) of Some e \<Rightarrow> Inl e
         | None \<Rightarrow> Inr (source\<lparr>payload := Some (entry_payload source)\<rparr>))
      else Inr (source\<lparr>payload := None\<rparr>))"

definition same_entry :: "C4LogEntry \<Rightarrow> C4LogEntry \<Rightarrow> bool" where
  "same_entry l r \<longleftrightarrow>
     entry_index l = entry_index r \<and> entry_version l = entry_version r \<and> checksum l = checksum r \<and>
     payload_size l = payload_size r \<and> transaction_id l = transaction_id r \<and>
     (payload_size l = 0 \<or> entry_payload l = entry_payload r)"

definition c4_log_entry_encode :: "zcrc \<Rightarrow> os \<Rightarrow> C4LogEntry \<Rightarrow> byte list result" where
  "c4_log_entry_encode crc os e =
     (if checksum e \<noteq> c4_log_entry_checksum crc (at os 0) e then Inl EINVAL
      else if MAX_PAYLOAD_SIZE - of_nat C4_LOG_HEADER_SIZE < payload_size e then Inl EMSGSIZE
      else case fault (at os 1) of Some er \<Rightarrow> Inl er
        | None \<Rightarrow> Inr (entry_header e (checksum e) @ entry_payload e))"

text \<open>The fields of a serialised header, and the entry with the payload that follows it.\<close>

definition header_entry :: "byte list \<Rightarrow> C4LogEntry" where
  "header_entry h =
     \<lparr>entry_index = wire_get_u64 (drop 4 h), entry_version = wire_get_u64 (drop 12 h),
      transaction_id = take 16 (drop 20 h), payload = None, payload_size = wire_get_u32 (drop 36 h),
      checksum = wire_get_u32 (drop 40 h)\<rparr>"

definition parse_entry :: "byte list \<Rightarrow> C4LogEntry" where
  "parse_entry bytes =
     (let e = header_entry bytes in
      if 0 < payload_size e
      then e\<lparr>payload := Some (take (unat (payload_size e)) (drop C4_LOG_HEADER_SIZE bytes))\<rparr> else e)"

definition c4_log_entry_decode :: "zcrc \<Rightarrow> os \<Rightarrow> byte list \<Rightarrow> C4LogEntry result" where
  "c4_log_entry_decode crc os bytes =
     (if length bytes < C4_LOG_HEADER_SIZE \<or> take 4 bytes \<noteq> C4_LOG_MAGIC then Inl EINVAL
      else let n = wire_get_u32 (drop 36 bytes) in
        if MAX_PAYLOAD_SIZE < n \<or> length bytes \<noteq> C4_LOG_HEADER_SIZE + unat n then Inl EMSGSIZE
        else case (if 0 < n then fault (at os 0) else None) of
            Some er \<Rightarrow> Inl er
          | None \<Rightarrow>
              (let e = parse_entry bytes in
               if entry_index e = 0 \<or> entry_version e = 0 \<or>
                  checksum e \<noteq> c4_log_entry_checksum crc (at os 1) e
               then Inl EBADMSG else Inr e))"

section \<open>The array of entries\<close>

definition reserve_entry :: "os \<Rightarrow> C4Log \<Rightarrow> C4Log result" where
  "reserve_entry os log =
     (if length (entries log) = capacity log then
        (let c = (if capacity log = 0 then 16 else (capacity log * 2) mod 2 ^ 64) in
         if c < capacity log \<or> SIZE_MAX div LOG_SLOT_SIZE < c then Inl EOVERFLOW
         else case fault (at os 0) of Some e \<Rightarrow> Inl e | None \<Rightarrow> Inr (log\<lparr>capacity := c\<rparr>))
      else Inr log)"

definition append_memory :: "os \<Rightarrow> C4Log \<Rightarrow> C4LogEntry \<Rightarrow> errno option \<times> C4Log" where
  "append_memory os log e =
     (case reserve_entry (at os 0) log of
        Inl er \<Rightarrow> (Some er, log)
      | Inr log \<Rightarrow>
          (case copy_entry (at os 1) e of
             Inl er \<Rightarrow> (Some er, log)
           | Inr copy \<Rightarrow> (None, log\<lparr>entries := entries log @ [copy]\<rparr>)))"

definition reserve_transaction :: "os \<Rightarrow> C4Log \<Rightarrow> C4Log result" where
  "reserve_transaction os log =
     (if length (transactions log) = transaction_capacity log then
        (let c = (if transaction_capacity log = 0 then 16 else (transaction_capacity log * 2) mod 2 ^ 64) in
         if c < transaction_capacity log \<or> SIZE_MAX div TXN_SLOT_SIZE < c then Inl EOVERFLOW
         else case fault (at os 0) of Some e \<Rightarrow> Inl e | None \<Rightarrow> Inr (log\<lparr>transaction_capacity := c\<rparr>))
      else Inr log)"

definition find_transaction :: "C4Log \<Rightarrow> byte list \<Rightarrow> nat option" where
  "find_transaction log tid = find_index (\<lambda>t. transaction_id (txn_entry t) = tid) (transactions log)"

definition next_version :: "C4Log \<Rightarrow> u64" where
  "next_version log = (if entries log = [] then 1 else entry_version (last (entries log)) + 1)"

definition append_locked :: "zcrc \<Rightarrow> os \<Rightarrow> C4Log \<Rightarrow> C4LogEntry \<Rightarrow> bool \<Rightarrow> errno option \<times> C4Log" where
  "append_locked crc os log e persist =
     (if entry_index e = 0 \<or> entry_version e = 0 \<or> (0 < payload_size e \<and> payload e = None) \<or>
         MAX_PAYLOAD_SIZE < payload_size e \<or> checksum e \<noteq> c4_log_entry_checksum crc (at os 0) e
      then (Some EBADMSG, log)
      else case find (\<lambda>old. transaction_id old = transaction_id e) (entries log) of
        Some old \<Rightarrow> (if same_entry old e then (None, log) else (Some EEXIST, log))
      | None \<Rightarrow>
          if entry_index e \<noteq> of_nat (length (entries log)) + 1 \<or> entry_version e \<noteq> next_version log
          then (Some ERANGE, log)
          else if persist then
            (case append_file (at os 1) (log_file log) (entry_header e (checksum e)) (entry_payload e) of
               (Some er, file) \<Rightarrow> (Some er, log\<lparr>log_file := file\<rparr>)
             | (None, file) \<Rightarrow> append_memory (at os 2) (log\<lparr>log_file := file\<rparr>) e)
          else append_memory (at os 2) log e)"

section \<open>The journal\<close>

definition journal_checked :: "byte \<Rightarrow> byte list \<Rightarrow> byte list" where
  "journal_checked type data = [type] @ wire_put_u32 (of_nat (length data)) @ data"

definition journal_record_header :: "zcrc \<Rightarrow> byte \<Rightarrow> byte list \<Rightarrow> byte list" where
  "journal_record_header crc type data =
     C4_TXN_MAGIC @ [type, 0, 0, 0] @ wire_put_u32 (of_nat (length data)) @
     wire_put_u32 (protocol_calculate_crc32 crc (journal_checked type data))"

definition journal_record :: "zcrc \<Rightarrow> os \<Rightarrow> C4Log \<Rightarrow> byte \<Rightarrow> byte list \<Rightarrow> errno option \<times> C4Log" where
  "journal_record crc os log type data =
     (if unat MAX_PAYLOAD_SIZE < length data then (Some EMSGSIZE, log)
      else case fault (at os 0) of
        Some e \<Rightarrow> (Some e, log)
      | None \<Rightarrow>
          (let (r, file) = append_file (at os 1) (journal_file log) (journal_record_header crc type data) data
           in (r, log\<lparr>journal_file := file\<rparr>)))"

definition set_state :: "C4Log \<Rightarrow> nat \<Rightarrow> C4TransactionState \<Rightarrow> C4Log" where
  "set_state log i s = log\<lparr>transactions := (transactions log)[i := (transactions log ! i)\<lparr>txn_state := s\<rparr>]\<rparr>"

definition add_transaction :: "C4Log \<Rightarrow> C4LogEntry \<Rightarrow> C4TransactionState \<Rightarrow> C4Log" where
  "add_transaction log e s = log\<lparr>transactions := transactions log @ [\<lparr>txn_entry = e, txn_state = s\<rparr>]\<rparr>"

definition tombstone :: "byte list \<Rightarrow> C4LogEntry" where
  "tombstone tid = zero_entry\<lparr>transaction_id := tid\<rparr>"

text \<open>Index and version after the committed entries and the prepared transactions queued behind them.\<close>

definition expected_position :: "C4Log \<Rightarrow> u64 \<times> u64" where
  "expected_position log =
     fold (\<lambda>t (i, v). if txn_state t = C4_TXN_PREPARED \<and> i \<le> entry_index (txn_entry t)
                      then (entry_index (txn_entry t) + 1, entry_version (txn_entry t) + 1) else (i, v))
       (transactions log) (of_nat (length (entries log)) + 1, next_version log)"

section \<open>Public operations\<close>

definition c4_log_append_entry :: "zcrc \<Rightarrow> os \<Rightarrow> C4Log \<Rightarrow> C4LogEntry \<Rightarrow> errno option \<times> C4Log" where
  "c4_log_append_entry crc os log e = append_locked crc os log e True"

definition c4_log_append ::
  "zcrc \<Rightarrow> os \<Rightarrow> C4Log \<Rightarrow> byte list \<Rightarrow> u64 \<Rightarrow> byte list option \<Rightarrow> u32 \<Rightarrow> errno option \<times> C4Log" where
  "c4_log_append crc os log tid v data n =
     (if (0 < n \<and> data = None) \<or> MAX_PAYLOAD_SIZE < n then (Some EINVAL, log)
      else
        let e = \<lparr>entry_index = of_nat (length (entries log)) + 1, entry_version = v, transaction_id = tid,
               payload = data, payload_size = n, checksum = 0\<rparr> in
        case find (\<lambda>old. transaction_id old = tid) (entries log) of
          Some old \<Rightarrow>
            (if entry_version old = v \<and> payload_size old = n \<and> (n = 0 \<or> entry_payload old = entry_payload e)
             then (None, log) else (Some EEXIST, log))
        | None \<Rightarrow>
            append_locked crc (at os 1) log (e\<lparr>checksum := c4_log_entry_checksum crc (at os 0) e\<rparr>) True)"

definition c4_log_get :: "os \<Rightarrow> C4Log \<Rightarrow> u64 \<Rightarrow> C4LogEntry result" where
  "c4_log_get os log i =
     (if i = 0 then Inl EINVAL
      else if length (entries log) < unat i then Inl ENOENT
      else copy_entry os (entries log ! unat (i - 1)))"

definition c4_log_get_transaction :: "os \<Rightarrow> C4Log \<Rightarrow> byte list \<Rightarrow> C4LogEntry result" where
  "c4_log_get_transaction os log tid =
     (case find (\<lambda>e. transaction_id e = tid) (entries log) of
        None \<Rightarrow> Inl ENOENT
      | Some source \<Rightarrow> copy_entry os source)"

definition c4_log_last_index :: "C4Log \<Rightarrow> u64" where
  "c4_log_last_index log = of_nat (length (entries log))"

definition c4_log_last_version :: "C4Log \<Rightarrow> u64" where
  "c4_log_last_version log = (if entries log = [] then 0 else entry_version (last (entries log)))"

definition c4_log_prepare :: "zcrc \<Rightarrow> os \<Rightarrow> C4Log \<Rightarrow> C4LogEntry \<Rightarrow> errno option \<times> C4Log" where
  "c4_log_prepare crc os log e =
     (if entry_index e = 0 \<or> entry_version e = 0 \<or> checksum e \<noteq> c4_log_entry_checksum crc (at os 0) e
      then (Some EINVAL, log)
      else case find_transaction log (transaction_id e) of
        Some i \<Rightarrow>
          (let existing = transactions log ! i in
           if same_entry (txn_entry existing) e \<and> txn_state existing \<noteq> C4_TXN_ABORTED
           then (None, log) else (Some EEXIST, log))
      | None \<Rightarrow>
          if (entry_index e, entry_version e) \<noteq> expected_position log then (Some ERANGE, log)
          else case c4_log_entry_encode crc (at os 1) e of
            Inl er \<Rightarrow> (Some er, log)
          | Inr encoded \<Rightarrow>
              (case reserve_transaction (at os 2) log of
                 Inl er \<Rightarrow> (Some er, log)
               | Inr log \<Rightarrow>
                   (case journal_record crc (at os 3) log C4_TXN_PREPARE encoded of
                      (Some er, log) \<Rightarrow> (Some er, log)
                    | (None, log) \<Rightarrow>
                        (case c4_log_entry_decode crc (at os 4) encoded of
                           Inl er \<Rightarrow> (Some er, log)
                         | Inr decoded \<Rightarrow> (None, add_transaction log decoded C4_TXN_PREPARED)))))"

text \<open>The entry is copied to the caller; \<open>out\<close> is false where the caller passes no output.\<close>

definition c4_log_commit ::
  "zcrc \<Rightarrow> os \<Rightarrow> C4Log \<Rightarrow> byte list \<Rightarrow> bool \<Rightarrow> C4LogEntry result \<times> C4Log" where
  "c4_log_commit crc os log tid out =
     (case find_transaction log tid of
        None \<Rightarrow> (Inl ENOENT, log)
      | Some i \<Rightarrow>
          if txn_state (transactions log ! i) = C4_TXN_ABORTED then (Inl ENOENT, log)
          else
            let (r, log) = (if txn_state (transactions log ! i) = C4_TXN_PREPARED then
                   (case journal_record crc (at os 0) log C4_TXN_COMMIT tid of
                      (Some er, log) \<Rightarrow> (Some er, log)
                    | (None, log) \<Rightarrow> (None, set_state log i C4_TXN_COMMITTED))
                 else (None, log)) in
            case r of
              Some er \<Rightarrow> (Inl er, log)
            | None \<Rightarrow>
                (case append_locked crc (at os 1) log (txn_entry (transactions log ! i)) True of
                   (Some er, log) \<Rightarrow> (Inl er, log)
                 | (None, log) \<Rightarrow>
                     if out then (copy_entry (at os 2) (txn_entry (transactions log ! i)), log)
                     else (Inr (txn_entry (transactions log ! i)), log)))"

definition c4_log_abort :: "zcrc \<Rightarrow> os \<Rightarrow> C4Log \<Rightarrow> byte list \<Rightarrow> errno option \<times> C4Log" where
  "c4_log_abort crc os log tid =
     (case find_transaction log tid of
        Some i \<Rightarrow>
          if txn_state (transactions log ! i) = C4_TXN_ABORTED then (None, log)
          else if txn_state (transactions log ! i) \<noteq> C4_TXN_PREPARED then (Some EALREADY, log)
          else (case journal_record crc (at os 1) log C4_TXN_ABORT tid of
              (Some er, log) \<Rightarrow> (Some er, log)
            | (None, log) \<Rightarrow> (None, set_state log i C4_TXN_ABORTED))
      | None \<Rightarrow>
          (case reserve_transaction (at os 0) log of
             Inl er \<Rightarrow> (Some er, log)
           | Inr log \<Rightarrow>
               (case journal_record crc (at os 1) log C4_TXN_ABORT tid of
                  (Some er, log) \<Rightarrow> (Some er, log)
                | (None, log) \<Rightarrow> (None, add_transaction log (tombstone tid) C4_TXN_ABORTED))))"

definition c4_log_transaction_state :: "C4Log \<Rightarrow> byte list \<Rightarrow> C4TransactionState" where
  "c4_log_transaction_state log tid =
     (case find_transaction log tid of None \<Rightarrow> C4_TXN_UNKNOWN | Some i \<Rightarrow> txn_state (transactions log ! i))"

definition c4_log_get_prepared :: "os \<Rightarrow> C4Log \<Rightarrow> byte list \<Rightarrow> C4LogEntry result" where
  "c4_log_get_prepared os log tid =
     (case find_transaction log tid of
        None \<Rightarrow> Inl ENOENT
      | Some i \<Rightarrow>
          if txn_state (transactions log ! i) \<noteq> C4_TXN_PREPARED then Inl ENOENT
          else copy_entry os (txn_entry (transactions log ! i)))"

section \<open>Invariant\<close>

text \<open>What the callers of the operations pass: arrays of their size, readable payloads.\<close>

definition caller_entry :: "C4LogEntry \<Rightarrow> bool" where
  "caller_entry e \<longleftrightarrow> length (transaction_id e) = 16 \<and>
     (case payload e of None \<Rightarrow> True | Some p \<Rightarrow> unat (payload_size e) \<le> length p)"

definition stored_entry :: "C4LogEntry \<Rightarrow> bool" where
  "stored_entry e \<longleftrightarrow> length (transaction_id e) = 16 \<and> payload_size e \<le> MAX_PAYLOAD_SIZE \<and>
     (case payload e of None \<Rightarrow> payload_size e = 0
      | Some p \<Rightarrow> 0 < payload_size e \<and> length p = unat (payload_size e))"

text \<open>
  The entries are numbered consecutively from 1, with versions equal to their indices, no
  transaction occurs twice, and the arrays hold what they count.
\<close>

definition entries_inv :: "C4LogEntry list \<Rightarrow> bool" where
  "entries_inv es \<longleftrightarrow>
     (\<forall>i < length es. entry_index (es ! i) = of_nat (Suc i) \<and> entry_version (es ! i) = of_nat (Suc i)) \<and>
     distinct (map transaction_id es) \<and> list_all stored_entry es"

definition transactions_inv :: "C4Transaction list \<Rightarrow> bool" where
  "transactions_inv ts \<longleftrightarrow>
     distinct (map (\<lambda>t. transaction_id (txn_entry t)) ts) \<and>
     list_all (\<lambda>t. stored_entry (txn_entry t) \<and> txn_state t \<noteq> C4_TXN_UNKNOWN) ts"

definition room :: "C4Log \<Rightarrow> bool" where
  "room log \<longleftrightarrow> length (entries log) \<le> capacity log \<and> capacity log \<le> SIZE_MAX div LOG_SLOT_SIZE"

definition transactions_room :: "C4Log \<Rightarrow> bool" where
  "transactions_room log \<longleftrightarrow> length (transactions log) \<le> transaction_capacity log \<and>
     transaction_capacity log \<le> SIZE_MAX div TXN_SLOT_SIZE"

definition log_inv :: "C4Log \<Rightarrow> bool" where
  "log_inv log \<longleftrightarrow> entries_inv (entries log) \<and> transactions_inv (transactions log) \<and> room log \<and> transactions_room log"

lemma length_entry_payload: "stored_entry e \<Longrightarrow> length (entry_payload e) = unat (payload_size e)"
  by (auto simp: stored_entry_def entry_payload_def split: option.splits)

lemma stored_caller: "stored_entry e \<Longrightarrow> caller_entry e"
  by (auto simp: stored_entry_def caller_entry_def split: option.splits)

lemma copy_entry_stored:
  "copy_entry os e = Inr c \<Longrightarrow> caller_entry e \<Longrightarrow> payload_size e \<le> MAX_PAYLOAD_SIZE \<Longrightarrow>
     \<not> (0 < payload_size e \<and> payload e = None) \<Longrightarrow> stored_entry c"
  by (auto simp: copy_entry_def stored_entry_def caller_entry_def entry_payload_def min_def
      word_greater_zero_iff split: if_splits option.splits)

lemma copy_entry_fields:
  "copy_entry os e = Inr c \<Longrightarrow> entry_index c = entry_index e \<and> entry_version c = entry_version e \<and>
     transaction_id c = transaction_id e \<and> payload_size c = payload_size e \<and> checksum c = checksum e"
  by (auto simp: copy_entry_def split: if_splits option.splits)

lemma copy_stored: "stored_entry e \<Longrightarrow> copy_entry calm e = Inr e"
  by (cases e) (auto simp: copy_entry_def stored_entry_def entry_payload_def word_greater_zero_iff
      split: option.splits)

lemma find_entry_None: "find (\<lambda>old. transaction_id old = tid) es = None \<longleftrightarrow> tid \<notin> transaction_id ` set es"
  by (auto simp: find_None_iff)

text \<open>An append either leaves the entries alone or adds one at the next position.\<close>

lemma reserve_entry_ok:
  assumes "reserve_entry os log = Inr log'" "room log"
  shows "\<exists>c. log' = log\<lparr>capacity := c\<rparr> \<and> length (entries log) < c \<and> c \<le> SIZE_MAX div LOG_SLOT_SIZE"
proof (cases "length (entries log) = capacity log")
  case False
  with assms show ?thesis
    by (intro exI [of _ "capacity log"]) (auto simp: reserve_entry_def room_def)
next
  case True
  define c where "c = (if capacity log = 0 then 16 else (capacity log * 2) mod 2 ^ 64)"
  have "capacity log < c"
  proof -
    have "capacity log * 2 < 2 ^ 64"
      using assms(2) by (auto simp: room_def SIZE_MAX_def LOG_SLOT_SIZE_def)
    then show ?thesis by (simp add: c_def)
  qed
  with assms True show ?thesis
    by (intro exI [of _ c]) (auto simp: reserve_entry_def c_def [symmetric] Let_def split: if_splits option.splits)
qed

lemma append_memory_ok:
  assumes "append_memory os log e = (None, log')" "room log"
  shows "\<exists>k c. copy_entry (at os 1) e = Inr c \<and> log' = log\<lparr>capacity := k, entries := entries log @ [c]\<rparr> \<and>
    length (entries log) < k \<and> k \<le> SIZE_MAX div LOG_SLOT_SIZE"
  using assms by (fastforce simp: append_memory_def split: sum.splits dest: reserve_entry_ok)

lemma append_memory_error:
  assumes "append_memory os log e = (Some er, log')" "room log"
  shows "\<exists>k. log' = log\<lparr>capacity := k\<rparr> \<and> length (entries log) \<le> k \<and> k \<le> SIZE_MAX div LOG_SLOT_SIZE"
  using assms(2)
proof (cases "reserve_entry (at os 0) log")
  case (Inl x)
  with assms show ?thesis by (intro exI [of _ "capacity log"]) (auto simp: append_memory_def room_def)
next
  case (Inr l)
  with assms reserve_entry_ok [OF Inr assms(2)] show ?thesis
    by (fastforce simp: append_memory_def split: sum.splits)
qed

definition fresh_at_end :: "C4Log \<Rightarrow> C4LogEntry \<Rightarrow> bool" where
  "fresh_at_end log e \<longleftrightarrow> transaction_id e \<notin> transaction_id ` set (entries log) \<and>
     entry_index e = of_nat (Suc (length (entries log))) \<and> entry_version e = next_version log \<and>
     payload_size e \<le> MAX_PAYLOAD_SIZE \<and> \<not> (0 < payload_size e \<and> payload e = None)"

text \<open>The outcome of \<open>append_locked\<close> in any environment.\<close>

lemma append_locked_cases:
  assumes "append_locked crc os log e persist = (r, log')" "room log"
  shows "(\<exists>k file. log' = log\<lparr>log_file := file, capacity := k\<rparr> \<and>
            length (entries log) \<le> k \<and> k \<le> SIZE_MAX div LOG_SLOT_SIZE) \<or>
         (\<exists>k c file. r = None \<and> fresh_at_end log e \<and> copy_entry (at (at os 2) 1) e = Inr c \<and>
            log' = log\<lparr>log_file := file, capacity := k, entries := entries log @ [c]\<rparr> \<and>
            length (entries log) < k \<and> k \<le> SIZE_MAX div LOG_SLOT_SIZE)"
proof -
  let ?rej = "\<exists>k f. log' = log\<lparr>log_file := f, capacity := k\<rparr> \<and>
            length (entries log) \<le> k \<and> k \<le> SIZE_MAX div LOG_SLOT_SIZE"
  have same: "log' = log \<Longrightarrow> ?rej"
    using assms(2) by (intro exI [of _ "capacity log"] exI [of _ "log_file log"]) (simp add: room_def)
  have memory: ?thesis if fr: "fresh_at_end log e"
    and a: "append_memory (at os 2) (log\<lparr>log_file := f\<rparr>) e = (r, log')" for f
  proof -
    have room: "room (log\<lparr>log_file := f\<rparr>)" using assms(2) by (simp add: room_def)
    show ?thesis
    proof (cases r)
      case None
      with append_memory_ok [OF a [unfolded None] room] fr show ?thesis by (intro disjI2) (simp, blast)
    next
      case (Some er)
      with append_memory_error [OF a [unfolded Some] room] show ?thesis by (intro disjI1) (simp, blast)
    qed
  qed
  show ?thesis
  proof (cases "log' = log")
    case True
    with same show ?thesis by blast
  next
    case False
    with assms(1) have fr: "fresh_at_end log e"
      by (auto simp: append_locked_def fresh_at_end_def find_None_iff not_less
          split: if_splits option.splits prod.splits)
    have self: "log\<lparr>log_file := log_file log\<rparr> = log" by simp
    from False assms(1) consider
        (plain) "append_memory (at os 2) log e = (r, log')"
      | (persisted) f where "append_memory (at os 2) (log\<lparr>log_file := f\<rparr>) e = (r, log')"
      | (failed) f where "log' = log\<lparr>log_file := f\<rparr>"
      by (auto simp: append_locked_def split: if_splits option.splits prod.splits)
    then show ?thesis
    proof cases
      case plain
      with memory [OF fr, of "log_file log"] self show ?thesis by simp
    next
      case persisted
      with memory fr show ?thesis by blast
    next
      case failed
      then show ?thesis
        using assms(2) by (intro disjI1 exI [of _ "capacity log"] exI [of _ f]) (simp add: room_def)
    qed
  qed
qed

lemma entries_inv_Nil [simp]: "entries_inv []"
  by (simp add: entries_inv_def)

lemma transactions_inv_Nil [simp]: "transactions_inv []"
  by (simp add: transactions_inv_def)

lemma entries_inv_snoc:
  "entries_inv (es @ [c]) \<longleftrightarrow> entries_inv es \<and> entry_index c = of_nat (Suc (length es)) \<and>
     entry_version c = of_nat (Suc (length es)) \<and> transaction_id c \<notin> transaction_id ` set es \<and> stored_entry c"
  by (auto simp: entries_inv_def nth_append less_Suc_eq)

lemma next_version_inv:
  assumes "entries_inv (entries log)"
  shows "next_version log = of_nat (Suc (length (entries log)))"
proof (cases "entries log = []")
  case False
  then obtain n where n: "length (entries log) = Suc n" by (cases "entries log") auto
  with False have "last (entries log) = entries log ! n" by (simp add: last_conv_nth)
  with assms False n show ?thesis by (simp add: entries_inv_def next_version_def)
qed (simp add: next_version_def)

lemma append_locked_inv:
  assumes "append_locked crc os log e persist = (r, log')" "log_inv log" "caller_entry e"
  shows "log_inv log' \<and> transactions log' = transactions log \<and> journal_file log' = journal_file log \<and>
     (entries log' = entries log \<or> r = None \<and> (\<exists>c. entries log' = entries log @ [c] \<and> same_entry c e \<and> fresh_at_end log e))"
proof -
  from assms(2) have inv: "entries_inv (entries log)" "transactions_inv (transactions log)" "room log" "transactions_room log"
    by (auto simp: log_inv_def)
  from append_locked_cases [OF assms(1) inv(3)] show ?thesis
  proof (elim disjE exE conjE)
    fix k f assume "log' = log\<lparr>log_file := f, capacity := k\<rparr>" "length (entries log) \<le> k" "k \<le> SIZE_MAX div LOG_SLOT_SIZE"
    with inv show ?thesis by (auto simp: log_inv_def room_def transactions_room_def)
  next
    fix k c f assume r: "r = None" and f: "fresh_at_end log e" and c: "copy_entry (at (at os 2) 1) e = Inr c"
      and l: "log' = log\<lparr>log_file := f, capacity := k, entries := entries log @ [c]\<rparr>"
      and k: "length (entries log) < k" "k \<le> SIZE_MAX div LOG_SLOT_SIZE"
    have "stored_entry c" using copy_entry_stored [OF c assms(3)] f by (simp add: fresh_at_end_def)
    moreover note copy_entry_fields [OF c]
    ultimately have "entries_inv (entries log @ [c])"
      using inv(1) f by (simp add: entries_inv_snoc fresh_at_end_def next_version_inv)
    moreover have "same_entry c e"
      using c by (auto simp: same_entry_def copy_entry_def entry_payload_def word_greater_zero_iff
          split: if_splits option.splits)
    ultimately show ?thesis using inv k l r f by (auto simp: log_inv_def room_def transactions_room_def)
  qed
qed

lemma entries_inv_length:
  "log_inv log \<Longrightarrow> length (entries log) < 2 ^ 64 - 1"
  by (auto simp: log_inv_def room_def SIZE_MAX_def LOG_SLOT_SIZE_def)

section \<open>Encoded entries\<close>

lemma entry_header_length [simp, len]: "length (transaction_id e) = 16 \<Longrightarrow> length (entry_header e c) = C4_LOG_HEADER_SIZE"
  by (simp add: entry_header_def C4_LOG_MAGIC_def C4_LOG_HEADER_SIZE_def)

lemma entry_header_fields:
  assumes "length (transaction_id e) = 16"
  shows "take 4 (entry_header e c @ p) = C4_LOG_MAGIC"
    "wire_get_u64 (drop 4 (entry_header e c @ p)) = entry_index e"
    "wire_get_u64 (drop 12 (entry_header e c @ p)) = entry_version e"
    "take 16 (drop 20 (entry_header e c @ p)) = transaction_id e"
    "wire_get_u32 (drop 36 (entry_header e c @ p)) = payload_size e"
    "wire_get_u32 (drop 40 (entry_header e c @ p)) = c"
    "drop C4_LOG_HEADER_SIZE (entry_header e c @ p) = p"
  using assms by (simp_all add: entry_header_def C4_LOG_MAGIC_def C4_LOG_HEADER_SIZE_def)

lemma parse_entry_fields [simp]:
  "entry_index (parse_entry b) = wire_get_u64 (drop 4 b)" "entry_version (parse_entry b) = wire_get_u64 (drop 12 b)"
  "transaction_id (parse_entry b) = take 16 (drop 20 b)" "payload_size (parse_entry b) = wire_get_u32 (drop 36 b)"
  "checksum (parse_entry b) = wire_get_u32 (drop 40 b)"
  "payload (parse_entry b) = (if 0 < wire_get_u32 (drop 36 b)
     then Some (take (unat (wire_get_u32 (drop 36 b))) (drop C4_LOG_HEADER_SIZE b)) else None)"
  by (simp_all add: parse_entry_def header_entry_def Let_def)

lemma decode_Inr:
  assumes "c4_log_entry_decode crc os bytes = Inr d"
  shows "d = parse_entry bytes" "length bytes = C4_LOG_HEADER_SIZE + unat (payload_size d)"
    "payload_size d \<le> MAX_PAYLOAD_SIZE" "entry_index d \<noteq> 0" "entry_version d \<noteq> 0"
    "checksum d = c4_log_entry_checksum crc (at os 1) d"
  using assms unfolding c4_log_entry_decode_def Let_def
  by (auto simp del: parse_entry_fields simp: not_less parse_entry_fields(4) split: if_split_asm option.split_asm)

lemma decode_stored:
  assumes "c4_log_entry_decode crc os bytes = Inr d"
  shows "stored_entry d"
proof -
  note d = decode_Inr [OF assms]
  have "length (transaction_id d) = 16" unfolding d(1) using d(2) by (simp add: C4_LOG_HEADER_SIZE_def)
  moreover have "payload d = (if 0 < payload_size d
      then Some (take (unat (payload_size d)) (drop C4_LOG_HEADER_SIZE bytes)) else None)"
    unfolding d(1) by simp
  ultimately show ?thesis
    using d(2,3) by (auto simp: stored_entry_def word_greater_zero_iff)
qed

lemma decode_header:
  assumes "c4_log_entry_decode crc os (entry_header e c @ p) = Inr d" "length (transaction_id e) = 16"
  shows "entry_index d = entry_index e \<and> entry_version d = entry_version e \<and> transaction_id d = transaction_id e \<and>
     payload_size d = payload_size e \<and> checksum d = c \<and> entry_payload d = p"
proof -
  have l: "length p = unat (payload_size e)"
    using decode_Inr(2) [OF assms(1)] assms(2)
    unfolding decode_Inr(1) [OF assms(1)] parse_entry_fields entry_header_fields [OF assms(2)]
    by simp
  show ?thesis
    unfolding decode_Inr(1) [OF assms(1)] entry_payload_def parse_entry_fields entry_header_fields [OF assms(2)]
    using l by (auto simp: word_greater_zero_iff)
qed

lemma decode_encode_same:
  assumes "c4_log_entry_encode crc os e = Inr bytes" "c4_log_entry_decode crc os' bytes = Inr d"
    "length (transaction_id e) = 16"
  shows "same_entry d e \<and> transaction_id d = transaction_id e"
proof -
  from assms(1) have "bytes = entry_header e (checksum e) @ entry_payload e"
    by (auto simp: c4_log_entry_encode_def split: if_splits option.splits)
  with decode_header [OF assms(2) [unfolded this] assms(3)] show ?thesis
    by (auto simp: same_entry_def)
qed

section \<open>Transactions\<close>

text \<open>A capacity that leaves room for one more transaction.\<close>

definition reserved :: "C4Log \<Rightarrow> nat \<Rightarrow> bool" where
  "reserved log k \<longleftrightarrow> (transactions_room log \<longrightarrow> length (transactions log) < k \<and> k \<le> SIZE_MAX div TXN_SLOT_SIZE)"

lemma reserve_transaction_ok:
  assumes "reserve_transaction os log = Inr log'"
  shows "\<exists>k. log' = log\<lparr>transaction_capacity := k\<rparr> \<and> reserved log k"
proof (cases "length (transactions log) = transaction_capacity log")
  case False
  with assms show ?thesis
    by (intro exI [of _ "transaction_capacity log"]) (auto simp: reserve_transaction_def reserved_def transactions_room_def)
next
  case True
  define c where "c = (if transaction_capacity log = 0 then 16 else (transaction_capacity log * 2) mod 2 ^ 64)"
  have "transaction_capacity log < c" if "transactions_room log"
  proof -
    have "transaction_capacity log * 2 < 2 ^ 64" using that by (auto simp: transactions_room_def SIZE_MAX_def TXN_SLOT_SIZE_def)
    then show ?thesis by (simp add: c_def)
  qed
  with assms True show ?thesis
    by (intro exI [of _ c]) (auto simp: reserve_transaction_def c_def [symmetric] Let_def reserved_def split: if_splits option.splits)
qed

lemma journal_record_file: "journal_record crc os log ty d = (r, log') \<Longrightarrow> \<exists>f. log' = log\<lparr>journal_file := f\<rparr>"
  by (auto simp: journal_record_def split: if_splits option.splits prod.splits intro: exI [of _ "journal_file log"])

lemma find_transaction_None:
  "find_transaction log tid = None \<longleftrightarrow> tid \<notin> (\<lambda>t. transaction_id (txn_entry t)) ` set (transactions log)"
  by (auto simp: find_transaction_def find_index_None)

lemma find_transaction_Some:
  "find_transaction log tid = Some i \<Longrightarrow> i < length (transactions log) \<and> transaction_id (txn_entry (transactions log ! i)) = tid"
  by (auto simp: find_transaction_def dest!: find_index_Some)

lemma find_transaction_cong:
  "transactions log' = transactions log \<Longrightarrow> find_transaction log' tid = find_transaction log tid"
  by (simp add: find_transaction_def)

lemma transaction_state_cong:
  "transactions log' = transactions log \<Longrightarrow> c4_log_transaction_state log' tid = c4_log_transaction_state log tid"
  by (simp add: c4_log_transaction_state_def find_transaction_def split: option.split)

lemma set_state_ids:
  "i < length (transactions log) \<Longrightarrow>
     map (\<lambda>t. transaction_id (txn_entry t)) (transactions (set_state log i s)) =
     map (\<lambda>t. transaction_id (txn_entry t)) (transactions log)"
  by (simp add: set_state_def map_update_same)

lemma transactions_inv_set_state:
  assumes "transactions_inv (transactions log)" "i < length (transactions log)" "s \<noteq> C4_TXN_UNKNOWN"
  shows "transactions_inv (transactions (set_state log i s))"
  using assms set_state_ids [OF assms(2), of s]
  by (auto simp: transactions_inv_def list_all_length set_state_def nth_list_update)

lemma transactions_inv_add:
  "transactions_inv (transactions log) \<Longrightarrow> stored_entry e \<Longrightarrow> find_transaction log (transaction_id e) = None \<Longrightarrow>
     s \<noteq> C4_TXN_UNKNOWN \<Longrightarrow> transactions_inv (transactions (add_transaction log e s))"
  by (auto simp: transactions_inv_def add_transaction_def find_transaction_None)

lemma state_set_state:
  assumes "find_transaction log tid = Some i" "transactions_inv (transactions log)"
  shows "c4_log_transaction_state (set_state log i s) t = (if t = tid then s else c4_log_transaction_state log t)"
proof -
  from find_transaction_Some [OF assms(1)] have i: "i < length (transactions log)"
    "transaction_id (txn_entry (transactions log ! i)) = tid" by auto
  have ids: "find_transaction (set_state log i s) t = find_transaction log t" for t
  proof -
    have "find_index (\<lambda>x. x = t) (map (\<lambda>t. transaction_id (txn_entry t)) (transactions (set_state log i s))) =
      find_index (\<lambda>x. x = t) (map (\<lambda>t. transaction_id (txn_entry t)) (transactions log))"
      by (simp only: set_state_ids [OF i(1)])
    then show ?thesis by (simp add: find_transaction_def find_index_map o_def)
  qed
  show ?thesis
  proof (cases "t = tid")
    case True
    with assms(1) ids i show ?thesis by (simp add: c4_log_transaction_state_def set_state_def)
  next
    case False
    then have "find_transaction log t \<noteq> Some i" using find_transaction_Some i by blast
    with False ids show ?thesis
      by (auto simp: c4_log_transaction_state_def set_state_def split: option.splits)
  qed
qed

lemma state_add_transaction:
  assumes "find_transaction log (transaction_id e) = None"
  shows "c4_log_transaction_state (add_transaction log e s) t =
     (if t = transaction_id e then s else c4_log_transaction_state log t)"
proof (cases "find_transaction log t")
  case None
  then show ?thesis
    by (simp add: c4_log_transaction_state_def find_transaction_def add_transaction_def
        find_index_append_None)
next
  case (Some i)
  moreover from this assms have "t \<noteq> transaction_id e" by auto
  moreover have "i < length (transactions log)" using find_transaction_Some [OF Some] by simp
  ultimately show ?thesis
    by (simp add: c4_log_transaction_state_def find_transaction_def add_transaction_def
        find_index_append_Some nth_append)
qed

section \<open>The operations keep the invariant\<close>

lemma log_inv_frame [simp]:
  "log_inv (log\<lparr>journal_file := f\<rparr>) = log_inv log" "log_inv (log\<lparr>log_file := f\<rparr>) = log_inv log"
  by (simp_all add: log_inv_def room_def transactions_room_def)

lemma log_inv_reserved:
  "log_inv log \<Longrightarrow> k = transaction_capacity log \<or> reserved log k \<Longrightarrow> log_inv (log\<lparr>transaction_capacity := k\<rparr>)"
  by (auto simp: log_inv_def room_def transactions_room_def reserved_def)

lemma log_inv_add:
  "log_inv log \<Longrightarrow> length (transactions log) < transaction_capacity log \<Longrightarrow> stored_entry e \<Longrightarrow> find_transaction log (transaction_id e) = None \<Longrightarrow> s \<noteq> C4_TXN_UNKNOWN \<Longrightarrow>
     log_inv (add_transaction log e s)"
  using transactions_inv_add [of log e s] by (simp add: log_inv_def room_def transactions_room_def add_transaction_def)

lemma stored_txn: "log_inv log \<Longrightarrow> i < length (transactions log) \<Longrightarrow> stored_entry (txn_entry (transactions log ! i))"
  by (simp add: list_all_length log_inv_def transactions_inv_def)

lemma known_txn: "log_inv log \<Longrightarrow> c4_log_transaction_state log tid = C4_TXN_UNKNOWN \<longleftrightarrow> find_transaction log tid = None"
  by (auto simp: c4_log_transaction_state_def log_inv_def transactions_inv_def list_all_length
      dest: find_transaction_Some split: option.splits)

lemma log_inv_set_state:
  "log_inv log \<Longrightarrow> i < length (transactions log) \<Longrightarrow> s \<noteq> C4_TXN_UNKNOWN \<Longrightarrow> log_inv (set_state log i s)"
  using transactions_inv_set_state [of log i s] by (simp add: log_inv_def room_def transactions_room_def set_state_def)

lemma add_transaction_entries [simp]:
  "entries (add_transaction log e s) = entries log" "log_file (add_transaction log e s) = log_file log"
  "journal_file (add_transaction log e s) = journal_file log"
  "entries (set_state log i s) = entries log" "log_file (set_state log i s) = log_file log"
  "journal_file (set_state log i s) = journal_file log"
  by (simp_all add: add_transaction_def set_state_def)

lemma stored_tombstone: "length tid = 16 \<Longrightarrow> stored_entry (tombstone tid)"
  by (simp add: stored_entry_def tombstone_def zero_entry_def)

lemma tombstone_id [simp]: "transaction_id (tombstone tid) = tid"
  by (simp add: tombstone_def)

text \<open>
  \<open>prepare\<close> changes nothing but the journal and, on success, the table, where it enters the
  transaction as prepared.
\<close>

lemma prepare_cases:
  assumes "c4_log_prepare crc os log e = (r, log')" "length (transaction_id e) = 16"
  shows "(\<exists>f k. log' = log\<lparr>transaction_capacity := k, journal_file := f\<rparr> \<and> (k = transaction_capacity log \<or> reserved log k)) \<and>
           (r = None \<longrightarrow> log' = log \<and> c4_log_transaction_state log (transaction_id e) \<noteq> C4_TXN_ABORTED \<and>
              find_transaction log (transaction_id e) \<noteq> None) \<or>
         (\<exists>f k d. r = None \<and> find_transaction log (transaction_id e) = None \<and> reserved log k \<and>
            (entry_index e, entry_version e) = expected_position log \<and> stored_entry d \<and> same_entry d e \<and>
            log' = add_transaction (log\<lparr>transaction_capacity := k, journal_file := f\<rparr>) d C4_TXN_PREPARED)"
proof -
  have self: "log = log\<lparr>transaction_capacity := transaction_capacity log, journal_file := journal_file log\<rparr>"
    by simp
  have selfk: "l = log\<lparr>transaction_capacity := k\<rparr> \<Longrightarrow> l = log\<lparr>transaction_capacity := k, journal_file := journal_file log\<rparr>" for l k
    by simp
  show ?thesis
  proof (cases "find_transaction log (transaction_id e)")
    case (Some i)
    then have "log' = log \<and> (r = None \<longrightarrow> c4_log_transaction_state log (transaction_id e) \<noteq> C4_TXN_ABORTED)"
      using assms(1) by (auto simp: c4_log_prepare_def Let_def c4_log_transaction_state_def split: if_splits)
    with Some self show ?thesis by blast
  next
    case None
    obtain r1 l1 where j: "journal_record crc (at os 3) (projr (reserve_transaction (at os 2) log)) C4_TXN_PREPARE
        (projr (c4_log_entry_encode crc (at os 1) e)) = (r1, l1)" by fastforce
    with assms(1) None consider (early) "log' = log" "r \<noteq> None"
      | (reached) b l where "(entry_index e, entry_version e) = expected_position log"
          "c4_log_entry_encode crc (at os 1) e = Inr b" "reserve_transaction (at os 2) log = Inr l"
          "(case r1 of Some er \<Rightarrow> (Some er, l1) | None \<Rightarrow>
             (case c4_log_entry_decode crc (at os 4) b of Inl er \<Rightarrow> (Some er, l1)
              | Inr d \<Rightarrow> (None, add_transaction l1 d C4_TXN_PREPARED))) = (r, log')"
      unfolding c4_log_prepare_def
      by (cases "c4_log_entry_encode crc (at os 1) e"; cases "reserve_transaction (at os 2) log")
        (auto split: if_split_asm)
    then show ?thesis
    proof cases
      case early
      with self show ?thesis by blast
    next
      case (reached b l)
      note pos = reached(1) and b = reached(2) and l = reached(3) and rest = reached(4)
      note j = j [unfolded b l sum.sel]
      from reserve_transaction_ok [OF l] journal_record_file [OF j]
      obtain k f where l1: "l1 = log\<lparr>transaction_capacity := k, journal_file := f\<rparr>" "reserved log k" by blast
      show ?thesis
      proof (cases "r = None")
        case True
        with rest obtain d where d: "c4_log_entry_decode crc (at os 4) b = Inr d"
          and "log' = add_transaction l1 d C4_TXN_PREPARED"
          by (auto split: option.splits sum.splits)
        with decode_stored [OF d] decode_encode_same [OF b d assms(2)] l1 True None pos show ?thesis
          by blast
      next
        case False
        with rest have "log' = l1" by (auto split: option.splits sum.splits)
        with l1 False show ?thesis by blast
      qed
    qed
  qed
qed

lemma prepare_inv:
  assumes "c4_log_prepare crc os log e = (r, log')" "length (transaction_id e) = 16" "log_inv log"
  shows "log_inv log' \<and> entries log' = entries log"
  using prepare_cases [OF assms(1,2)]
proof (elim disjE exE conjE)
  fix f k d
  assume n: "find_transaction log (transaction_id e) = None" and s: "stored_entry d" "same_entry d e" and k: "reserved log k"
    and l: "log' = add_transaction (log\<lparr>transaction_capacity := k, journal_file := f\<rparr>) d C4_TXN_PREPARED"
  then have "find_transaction (log\<lparr>transaction_capacity := k, journal_file := f\<rparr>) (transaction_id d) = None"
    by (simp add: find_transaction_def same_entry_def)
  moreover have "length (transactions log) < k" using assms(3) k by (simp add: log_inv_def reserved_def)
  ultimately show ?thesis using l s log_inv_reserved [OF assms(3), of k] k by (simp add: log_inv_add)
qed (use assms(3) log_inv_reserved [OF assms(3)] in simp_all)

lemma commit_cases:
  assumes "c4_log_commit crc os log tid out = (r, log')"
  obtains (unknown) "r = Inl ENOENT" "log' = log"
      "c4_log_transaction_state log tid = C4_TXN_UNKNOWN \<or> c4_log_transaction_state log tid = C4_TXN_ABORTED"
    | (journal) i f er where "find_transaction log tid = Some i" "r = Inl er" "log' = log\<lparr>journal_file := f\<rparr>"
        "c4_log_transaction_state log tid = C4_TXN_PREPARED"
    | (append) i f l q where "find_transaction log tid = Some i"
        "c4_log_transaction_state log tid = C4_TXN_PREPARED \<and> l = set_state (log\<lparr>journal_file := f\<rparr>) i C4_TXN_COMMITTED \<or>
         c4_log_transaction_state log tid \<noteq> C4_TXN_PREPARED \<and> c4_log_transaction_state log tid \<noteq> C4_TXN_ABORTED \<and> l = log"
        "append_locked crc (at os 1) l (txn_entry (transactions l ! i)) True = (q, log')" "isl r \<or> q = None"
proof (cases "find_transaction log tid")
  case None
  with assms show ?thesis by (intro unknown) (auto simp: c4_log_commit_def c4_log_transaction_state_def)
next
  case (Some i)
  let ?s = "txn_state (transactions log ! i)"
  have st: "c4_log_transaction_state log tid = ?s" using Some by (simp add: c4_log_transaction_state_def)
  consider (a) "?s = C4_TXN_ABORTED" | (p) "?s = C4_TXN_PREPARED" | (o) "?s \<noteq> C4_TXN_ABORTED" "?s \<noteq> C4_TXN_PREPARED"
    by blast
  then show ?thesis
  proof cases
    case a
    with assms Some st show ?thesis by (intro unknown) (auto simp: c4_log_commit_def)
  next
    case p
    obtain jr l0 where j: "journal_record crc (at os 0) log C4_TXN_COMMIT tid = (jr, l0)" by fastforce
    from journal_record_file [OF j] obtain f where l0: "l0 = log\<lparr>journal_file := f\<rparr>" by blast
    show ?thesis
    proof (cases jr)
      case (Some er)
      with assms \<open>find_transaction log tid = Some i\<close> p j l0 st show ?thesis
        by (intro journal [of i er f]) (auto simp: c4_log_commit_def)
    next
      case jn: None
      let ?l = "set_state l0 i C4_TXN_COMMITTED"
      obtain q l2 where q: "append_locked crc (at os 1) ?l (txn_entry (transactions ?l ! i)) True = (q, l2)"
        by fastforce
      with assms \<open>find_transaction log tid = Some i\<close> p j jn have "l2 = log'" "isl r \<or> q = None"
        by (auto simp: c4_log_commit_def split: option.splits if_splits)
      with q \<open>find_transaction log tid = Some i\<close> p st l0 show ?thesis by (intro append [of i ?l f q]) auto
    qed
  next
    case o
    obtain q l2 where q: "append_locked crc (at os 1) log (txn_entry (transactions log ! i)) True = (q, l2)"
      by fastforce
    with assms Some o have "l2 = log'" "isl r \<or> q = None"
      by (auto simp: c4_log_commit_def split: option.splits if_splits)
    with q Some o st show ?thesis by (intro append [of i log _ q]) auto
  qed
qed


lemma commit_inv:
  assumes "c4_log_commit crc os log tid out = (r, log')" "log_inv log"
  shows "log_inv log' \<and> (entries log' = entries log \<or> (\<exists>c. entries log' = entries log @ [c] \<and> transaction_id c = tid))"
  using assms(1)
proof (cases rule: commit_cases)
  case unknown
  with assms show ?thesis by simp
next
  case journal
  with assms show ?thesis by simp
next
  case (append i f l q)
  from find_transaction_Some [OF append(1)] have i: "i < length (transactions log)"
    "transaction_id (txn_entry (transactions log ! i)) = tid" by auto
  have l: "log_inv l \<and> entries l = entries log \<and> txn_entry (transactions l ! i) = txn_entry (transactions log ! i) \<and>
      length (transactions l) = length (transactions log)"
    using append(2)
  proof (elim disjE conjE)
    assume l: "l = set_state (log\<lparr>journal_file := f\<rparr>) i C4_TXN_COMMITTED"
    have "log_inv l" unfolding l using assms(2) i by (intro log_inv_set_state) simp_all
    with l i show ?thesis by (simp add: set_state_def)
  qed (use assms(2) in simp)
  then have "stored_entry (txn_entry (transactions l ! i))"
    using i stored_txn [of l i] by simp
  from append_locked_inv [OF append(3) conjunct1 [OF l] stored_caller [OF this]] l i show ?thesis
    by (auto simp: same_entry_def)
qed

lemma commit_state:
  assumes "c4_log_commit crc os log tid out = (r, log')" "log_inv log"
  shows "c4_log_transaction_state log' t = c4_log_transaction_state log t \<or>
     t = tid \<and> c4_log_transaction_state log t = C4_TXN_PREPARED \<and> c4_log_transaction_state log' t = C4_TXN_COMMITTED"
  using assms(1)
proof (cases rule: commit_cases)
  case (append i f l q)
  have r: "room l" using append(2) assms(2) by (auto simp: set_state_def log_inv_def room_def)
  have "transactions log' = transactions l"
    using append_locked_cases [OF append(3) r] by auto
  then have eq: "c4_log_transaction_state log' t = c4_log_transaction_state l t" by (rule transaction_state_cong)
  from append(1) have f: "find_transaction (log\<lparr>journal_file := f\<rparr>) tid = Some i" by (simp add: find_transaction_def)
  have "transactions_inv (transactions (log\<lparr>journal_file := f\<rparr>))" using assms(2) by (simp add: log_inv_def)
  from append(2) eq state_set_state [OF f this, of C4_TXN_COMMITTED t]
    transaction_state_cong [of "log\<lparr>journal_file := f\<rparr>" log t] show ?thesis by (auto split: if_splits)
next
  case (journal i f er)
  with transaction_state_cong [of log' log t] show ?thesis by simp
qed simp

lemma abort_cases:
  assumes "c4_log_abort crc os log tid = (r, log')"
  obtains (same) f k where "log' = log\<lparr>transaction_capacity := k, journal_file := f\<rparr>" "k = transaction_capacity log \<or> reserved log k"
      "r = None \<Longrightarrow> c4_log_transaction_state log tid = C4_TXN_ABORTED"
    | (decided) i f where "r = None" "find_transaction log tid = Some i" "txn_state (transactions log ! i) = C4_TXN_PREPARED"
        "log' = set_state (log\<lparr>journal_file := f\<rparr>) i C4_TXN_ABORTED"
    | (refused) f k where "r = None" "find_transaction log tid = None" "reserved log k"
        "log' = add_transaction (log\<lparr>transaction_capacity := k, journal_file := f\<rparr>) (tombstone tid) C4_TXN_ABORTED"
proof -
  have self: "log = log\<lparr>transaction_capacity := transaction_capacity log, journal_file := journal_file log\<rparr>" by simp
  have selfj: "log\<lparr>journal_file := f\<rparr> = log\<lparr>transaction_capacity := transaction_capacity log, journal_file := f\<rparr>" for f
    by simp
  show ?thesis
  proof (cases "find_transaction log tid")
    case (Some i)
    let ?s = "txn_state (transactions log ! i)"
    have st: "c4_log_transaction_state log tid = ?s" using Some by (simp add: c4_log_transaction_state_def)
    obtain jr l0 where j: "journal_record crc (at os 1) log C4_TXN_ABORT tid = (jr, l0)" by fastforce
    from journal_record_file [OF j] obtain f where l0: "l0 = log\<lparr>journal_file := f\<rparr>" by blast
    show ?thesis
    proof (cases "?s = C4_TXN_PREPARED \<and> jr = None")
      case True
      with assms Some j l0 show ?thesis by (intro decided) (auto simp: c4_log_abort_def)
    next
      case False
      with assms Some j l0 have "log' = log \<or> log' = log\<lparr>journal_file := f\<rparr>" "r = None \<longrightarrow> ?s = C4_TXN_ABORTED"
        by (auto simp: c4_log_abort_def split: if_splits option.splits)
      with st self selfj same show ?thesis by metis
    qed
  next
    case None
    show ?thesis
    proof (cases "reserve_transaction (at os 0) log")
      case (Inl e)
      with assms None have "log' = log" "r \<noteq> None" by (auto simp: c4_log_abort_def)
      with self same show ?thesis by metis
    next
      case (Inr l)
      obtain jr l0 where j: "journal_record crc (at os 1) l C4_TXN_ABORT tid = (jr, l0)" by fastforce
      from journal_record_file [OF j] reserve_transaction_ok [OF Inr] obtain f k
        where l0: "l0 = log\<lparr>transaction_capacity := k, journal_file := f\<rparr>" and k: "reserved log k" by blast
      show ?thesis
      proof (cases jr)
        case (Some e)
        with assms None Inr j have "log' = l0" "r \<noteq> None" by (auto simp: c4_log_abort_def)
        with l0 k same show ?thesis by metis
      next
        case jn: None
        with assms None Inr j have "log' = add_transaction l0 (tombstone tid) C4_TXN_ABORTED" "r = None"
          by (auto simp: c4_log_abort_def)
        with l0 k None refused show ?thesis by metis
      qed
    qed
  qed
qed

lemma abort_inv:
  assumes "c4_log_abort crc os log tid = (r, log')" "log_inv log" "length tid = 16"
  shows "log_inv log' \<and> entries log' = entries log"
  using assms(1)
proof (cases rule: abort_cases)
  case (decided i f)
  have "log_inv log'" unfolding decided(4)
    using assms(2) find_transaction_Some [OF decided(2)] by (intro log_inv_set_state) simp_all
  with decided show ?thesis by simp
next
  case (refused f k)
  have "length (transactions log) < k" using assms(2) refused(3) by (simp add: log_inv_def reserved_def)
  then have "log_inv log'" unfolding refused(4)
    using log_inv_reserved [OF assms(2), of k] assms(3) refused(2,3) by (intro log_inv_add stored_tombstone) (simp_all add: find_transaction_def)
  with refused show ?thesis by simp
qed (use assms log_inv_reserved [OF assms(2)] in simp)

lemma abort_state:
  assumes "c4_log_abort crc os log tid = (r, log')" "log_inv log"
  shows "c4_log_transaction_state log' t = c4_log_transaction_state log t \<and>
      (r = None \<and> t = tid \<longrightarrow> c4_log_transaction_state log t = C4_TXN_ABORTED) \<or>
     r = None \<and> t = tid \<and> c4_log_transaction_state log t \<in> {C4_TXN_UNKNOWN, C4_TXN_PREPARED} \<and>
     c4_log_transaction_state log' t = C4_TXN_ABORTED"
  using assms(1)
proof (cases rule: abort_cases)
  case (same f k)
  with transaction_state_cong [of log' log t] show ?thesis by auto
next
  case (decided i f)
  have f: "find_transaction (log\<lparr>journal_file := f\<rparr>) tid = Some i" using decided(2) by (simp add: find_transaction_def)
  have "transactions_inv (transactions (log\<lparr>journal_file := f\<rparr>))" using assms(2) by (simp add: log_inv_def)
  from state_set_state [OF f this, of C4_TXN_ABORTED t] decided
    transaction_state_cong [of "log\<lparr>journal_file := f\<rparr>" log t] show ?thesis
    by (auto simp: c4_log_transaction_state_def)
next
  case (refused f k)
  let ?l = "log\<lparr>transaction_capacity := k, journal_file := f\<rparr>"
  have "find_transaction ?l (transaction_id (tombstone tid)) = None" using refused(2) by (simp add: find_transaction_def)
  from state_add_transaction [OF this, of C4_TXN_ABORTED t] refused
    transaction_state_cong [of ?l log t] show ?thesis
    by (auto simp: c4_log_transaction_state_def)
qed

lemma prepare_state:
  assumes "c4_log_prepare crc os log e = (r, log')" "length (transaction_id e) = 16"
  shows "c4_log_transaction_state log' t = c4_log_transaction_state log t \<or>
     r = None \<and> t = transaction_id e \<and> c4_log_transaction_state log t = C4_TXN_UNKNOWN \<and>
     c4_log_transaction_state log' t = C4_TXN_PREPARED"
  using prepare_cases [OF assms]
proof (elim disjE exE conjE)
  fix f k d
  assume n: "find_transaction log (transaction_id e) = None" and s: "same_entry d e" and r: "r = None"
    and l: "log' = add_transaction (log\<lparr>transaction_capacity := k, journal_file := f\<rparr>) d C4_TXN_PREPARED"
  let ?l = "log\<lparr>transaction_capacity := k, journal_file := f\<rparr>"
  have "find_transaction ?l (transaction_id d) = None" using n s by (simp add: find_transaction_def same_entry_def)
  from state_add_transaction [OF this, of C4_TXN_PREPARED t] n s r l
    transaction_state_cong [of ?l log t] show ?thesis
    by (auto simp: c4_log_transaction_state_def same_entry_def)
qed (use transaction_state_cong [of log' log t] in simp_all)

lemma append_inv:
  assumes "c4_log_append crc os log tid v data n = (r, log')" "log_inv log" "length tid = 16"
    "\<forall>p. data = Some p \<longrightarrow> unat n \<le> length p"
  shows "log_inv log' \<and> transactions log' = transactions log \<and>
     (entries log' = entries log \<or> (\<exists>c. entries log' = entries log @ [c]))"
proof (cases "log' = log")
  case False
  let ?e = "\<lparr>entry_index = of_nat (length (entries log)) + 1, entry_version = v, transaction_id = tid,
     payload = data, payload_size = n, checksum = 0\<rparr>"
  from assms(1) False obtain c where a: "append_locked crc (at os 1) log (?e\<lparr>checksum := c\<rparr>) True = (r, log')"
    by (auto simp: c4_log_append_def Let_def split: if_splits option.splits)
  have "caller_entry (?e\<lparr>checksum := c\<rparr>)" using assms(3,4) by (auto simp: caller_entry_def split: option.split)
  from append_locked_inv [OF a assms(2) this] show ?thesis by blast
qed (use assms in simp)

section \<open>Runs of a log\<close>

text \<open>One operation of a client in an arbitrary environment, whatever it returns.\<close>

inductive c4_step :: "zcrc \<Rightarrow> C4Log \<Rightarrow> C4Log \<Rightarrow> bool" for crc where
  step_append_entry: "c4_log_append_entry crc os log e = (r, log') \<Longrightarrow> caller_entry e \<Longrightarrow> c4_step crc log log'"
| step_append: "c4_log_append crc os log tid v data n = (r, log') \<Longrightarrow> length tid = 16 \<Longrightarrow>
    (\<forall>p. data = Some p \<longrightarrow> unat n \<le> length p) \<Longrightarrow> c4_step crc log log'"
| step_prepare: "c4_log_prepare crc os log e = (r, log') \<Longrightarrow> caller_entry e \<Longrightarrow> c4_step crc log log'"
| step_commit: "c4_log_commit crc os log tid out = (q, log') \<Longrightarrow> c4_step crc log log'"
| step_abort: "c4_log_abort crc os log tid = (r, log') \<Longrightarrow> length tid = 16 \<Longrightarrow> c4_step crc log log'"

inductive_cases c4_stepE: "c4_step crc log log'"

inductive c4_run :: "zcrc \<Rightarrow> C4Log \<Rightarrow> C4Log \<Rightarrow> bool" for crc where
  run_start: "c4_run crc log log"
| run_step: "c4_run crc log log' \<Longrightarrow> c4_step crc log' log'' \<Longrightarrow> c4_run crc log log''"

lemma c4_step_inv:
  assumes "c4_step crc log log'" "log_inv log"
  shows "log_inv log' \<and> (entries log' = entries log \<or> (\<exists>c. entries log' = entries log @ [c]))"
  using assms(1)
proof cases
  case (step_append_entry os e r)
  with append_locked_inv [of crc os log e True r log'] assms(2) show ?thesis
    unfolding c4_log_append_entry_def by blast
next
  case (step_append os tid v data n r)
  with append_inv assms(2) show ?thesis by blast
next
  case (step_prepare os e r)
  with prepare_inv assms(2) show ?thesis by (metis caller_entry_def)
next
  case (step_commit os tid out q)
  with commit_inv assms(2) show ?thesis by blast
next
  case (step_abort os tid r)
  with abort_inv assms(2) show ?thesis by blast
qed

text \<open>The moves of a transaction: two-phase commit with presumed abort.\<close>

definition txn_moves :: "(C4TransactionState \<times> C4TransactionState) set" where
  "txn_moves = {(C4_TXN_UNKNOWN, C4_TXN_PREPARED), (C4_TXN_UNKNOWN, C4_TXN_ABORTED),
     (C4_TXN_PREPARED, C4_TXN_COMMITTED), (C4_TXN_PREPARED, C4_TXN_ABORTED)}"

lemma c4_step_state:
  assumes "c4_step crc log log'" "log_inv log"
  shows "(c4_log_transaction_state log t, c4_log_transaction_state log' t) \<in> Id \<union> txn_moves"
  using assms(1)
proof cases
  case (step_append_entry os e r)
  with append_locked_inv [of crc os log e True r log'] assms(2) transaction_state_cong [of log' log t]
  show ?thesis unfolding c4_log_append_entry_def by simp
next
  case (step_append os tid v data n r)
  with append_inv [of crc os log tid v data n r log'] assms(2) transaction_state_cong [of log' log t]
  show ?thesis by simp
next
  case (step_prepare os e r)
  with prepare_state [of crc os log e r log' t] show ?thesis by (auto simp: caller_entry_def txn_moves_def)
next
  case (step_commit os tid out q)
  with commit_state [of crc os log tid out q log' t] assms(2) show ?thesis by (auto simp: txn_moves_def)
next
  case (step_abort os tid r)
  with abort_state [of crc os log tid r log' t] assms(2) show ?thesis by (auto simp: txn_moves_def)
qed

lemma c4_run_inv:
  assumes "c4_run crc log log'" "log_inv log"
  shows "log_inv log' \<and> (\<exists>es. entries log' = entries log @ es)"
  using assms
proof (induction rule: c4_run.induct)
  case (run_step log log' log'')
  then obtain es where "log_inv log'" "entries log' = entries log @ es" by blast
  with c4_step_inv [OF run_step.hyps(2)] show ?case by auto
qed simp

lemma c4_run_decided:
  assumes "c4_run crc log log'" "log_inv log"
    "c4_log_transaction_state log t \<in> {C4_TXN_COMMITTED, C4_TXN_ABORTED}"
  shows "c4_log_transaction_state log' t = c4_log_transaction_state log t"
  using assms
proof (induction rule: c4_run.induct)
  case (run_step log log' log'')
  with c4_run_inv c4_step_state [of crc log' log'' t] show ?case by (fastforce simp: txn_moves_def)
qed simp

text \<open>A commit that succeeds leaves its transaction decided and its entry in the log.\<close>

lemma append_locked_present:
  assumes "append_locked crc os log e persist = (None, log')" "log_inv log" "caller_entry e"
  shows "\<exists>c \<in> set (entries log'). same_entry c e"
proof (cases "find (\<lambda>old. transaction_id old = transaction_id e) (entries log)")
  case (Some old)
  with assms(1) have "log' = log" "same_entry old e" by (auto simp: append_locked_def split: if_splits)
  with Some show ?thesis by (auto simp: find_Some_iff)
next
  case None
  have "entries log' \<noteq> entries log"
  proof -
    have "append_memory o2 l e = (None, log') \<Longrightarrow> room l \<Longrightarrow> entries log' \<noteq> entries l" for o2 l
      by (drule (1) append_memory_ok) auto
    moreover have "room log" "room (log\<lparr>log_file := f\<rparr>)" for f using assms(2) by (auto simp: log_inv_def room_def)
    ultimately show ?thesis using assms(1) None
      by (fastforce simp: append_locked_def split: if_splits prod.splits option.splits)
  qed
  with append_locked_inv [OF assms] show ?thesis by auto
qed

lemma same_entry_trans: "same_entry a b \<Longrightarrow> same_entry b c \<Longrightarrow> same_entry a c"
  by (auto simp: same_entry_def)

lemma copy_entry_same: "copy_entry os e = Inr c \<Longrightarrow> same_entry e c"
  by (auto simp: copy_entry_def same_entry_def entry_payload_def word_greater_zero_iff split: if_splits option.splits)

lemma commit_result:
  assumes "c4_log_commit crc os log tid out = (Inr e, log')" "find_transaction log tid = Some i" "log_inv log"
  shows "same_entry (txn_entry (transactions log ! i)) e"
proof -
  let ?t = "txn_entry (transactions log ! i)"
  note i = find_transaction_Some [OF assms(2)]
  have same: "txn_entry (transactions log' ! i) = ?t"
    if a: "append_locked crc (at os 1) l (txn_entry (transactions l ! i)) True = (q, log')"
      and l: "txn_entry (transactions l ! i) = ?t" "length (transactions l) = length (transactions log)" "log_inv l" for l q
    using append_locked_inv [OF a l(3) stored_caller [OF stored_txn [OF l(3)]]] i l by simp
  have "e = txn_entry (transactions log' ! i) \<or> copy_entry (at os 2) (txn_entry (transactions log' ! i)) = Inr e"
    using assms(1,2)
    by (auto simp: c4_log_commit_def Let_def split: if_splits option.splits prod.splits)
  moreover have "txn_entry (transactions log' ! i) = ?t"
    using assms(1)
  proof (cases rule: commit_cases)
    case (append j f l q)
    have "j = i" using append(1) assms(2) by simp
    moreover have "log_inv (set_state (log\<lparr>journal_file := f\<rparr>) i C4_TXN_COMMITTED)"
      using assms(3) i by (intro log_inv_set_state) simp_all
    ultimately show ?thesis using same [of l q] append(2,3) assms(3) i by (auto simp: set_state_def)
  qed (use assms in auto)
  ultimately show ?thesis using copy_entry_same by (auto simp: same_entry_def)
qed

lemma commit_decided:
  assumes "c4_log_commit crc os log tid out = (Inr e, log')" "log_inv log"
  shows "c4_log_transaction_state log tid \<in> {C4_TXN_PREPARED, C4_TXN_COMMITTED} \<and>
    c4_log_transaction_state log' tid = C4_TXN_COMMITTED \<and>
    (\<exists>c \<in> set (entries log'). transaction_id c = tid \<and> same_entry c e)"
  using assms(1)
proof (cases rule: commit_cases)
  case (append i f l q)
  then have q: "append_locked crc (at os 1) l (txn_entry (transactions l ! i)) True = (None, log')" by simp
  note i = find_transaction_Some [OF append(1)]
  have f: "find_transaction (log\<lparr>journal_file := f\<rparr>) tid = Some i" using append(1) by (simp add: find_transaction_def)
  have ti: "transactions_inv (transactions (log\<lparr>journal_file := f\<rparr>))" using assms(2) by (simp add: log_inv_def)
  have known: "c4_log_transaction_state log tid \<noteq> C4_TXN_UNKNOWN" using known_txn [OF assms(2)] append(1) by simp
  have l: "log_inv l \<and> c4_log_transaction_state l tid = C4_TXN_COMMITTED \<and>
      txn_entry (transactions l ! i) = txn_entry (transactions log ! i) \<and> length (transactions l) = length (transactions log) \<and>
      c4_log_transaction_state log tid \<in> {C4_TXN_PREPARED, C4_TXN_COMMITTED}"
    using append(2)
  proof (elim disjE conjE)
    assume l: "l = set_state (log\<lparr>journal_file := f\<rparr>) i C4_TXN_COMMITTED" "c4_log_transaction_state log tid = C4_TXN_PREPARED"
    have "log_inv l" unfolding l using assms(2) i by (intro log_inv_set_state) simp_all
    with l i state_set_state [OF f ti, of C4_TXN_COMMITTED tid] show ?thesis by (simp add: set_state_def)
  next
    assume "l = log" "c4_log_transaction_state log tid \<noteq> C4_TXN_PREPARED" "c4_log_transaction_state log tid \<noteq> C4_TXN_ABORTED"
    with assms(2) known show ?thesis by (cases "c4_log_transaction_state log tid") auto
  qed
  have st: "caller_entry (txn_entry (transactions l ! i))" using l i stored_txn [of l i] stored_caller by simp
  have "transactions log' = transactions l" using append_locked_inv [OF q _ st] l by simp
  moreover obtain c where "c \<in> set (entries log')" "same_entry c (txn_entry (transactions log ! i))"
    using append_locked_present [OF q _ st] l by auto
  moreover have "same_entry (txn_entry (transactions log ! i)) e" by (rule commit_result [OF assms(1) append(1) assms(2)])
  ultimately show ?thesis
    using l i transaction_state_cong [of log' l tid] same_entry_trans by (metis same_entry_def)
qed (use assms in auto)

lemma get_committed:
  assumes "log_inv log" "i < length (entries log)"
  shows "c4_log_get calm log (of_nat (Suc i)) = Inr (entries log ! i)"
    "c4_log_get_transaction calm log (transaction_id (entries log ! i)) = Inr (entries log ! i)"
proof -
  let ?e = "entries log ! i"
  have e: "stored_entry ?e" "distinct (map transaction_id (entries log))"
    using assms by (auto simp: log_inv_def entries_inv_def list_all_length)
  have "Suc i < 2 ^ 64" using assms entries_inv_length [OF assms(1)] by simp
  then have u: "unat (of_nat (Suc i) :: u64) = Suc i" by (simp add: unat_of_nat take_bit_nat_eq_self del: of_nat_Suc)
  then have nz: "(of_nat (Suc i) :: u64) \<noteq> 0" by (metis nat.distinct(1) unat_0)
  have "unat ((of_nat (Suc i) :: u64) - 1) = i" using u nz by (simp add: unat_minus_one del: of_nat_Suc)
  with u nz copy_stored [OF e(1)] assms(2) show "c4_log_get calm log (of_nat (Suc i)) = Inr ?e"
    by (simp add: c4_log_get_def del: of_nat_Suc)
  obtain old where old: "find (\<lambda>e. transaction_id e = transaction_id ?e) (entries log) = Some old"
    using find_entry_None [of "transaction_id ?e" "entries log"] assms(2)
    by (cases "find (\<lambda>e. transaction_id e = transaction_id ?e) (entries log)") auto
  have "old = ?e"
    using find_SomeD [OF old] e(2) assms(2) by (metis distinct_map inj_onD nth_mem)
  with old copy_stored [OF e(1)] show "c4_log_get_transaction calm log (transaction_id ?e) = Inr ?e"
    by (simp add: c4_log_get_transaction_def)
qed

end
