(* ===== verification/C4_Recovery.thy ===== *)
theory C4_Recovery
  imports C4_Log
begin

text \<open>
  Opening a log (\<open>c4_log_open\<close> and \<open>load_journal\<close> of \<^verbatim>\<open>c4_log.c\<close>): the entries are read back from
  the log file, whose torn tail is cut off, and the journal is replayed over them. The loops
  advance an offset; here they recurse on the bytes of the file from the offset on.
\<close>

section \<open>Reading the log file\<close>

text \<open>Call sites of one round: reads (0, 2), \<open>malloc\<close> (1), \<open>ftruncate\<close> (3), \<open>append_locked\<close> (4).\<close>

definition truncate_tail :: "os \<Rightarrow> C4Log \<Rightarrow> byte list \<Rightarrow> errno option \<times> C4Log" where
  "truncate_tail os log rest =
     (case fault os of
        Some e \<Rightarrow> (Some e, log)
      | None \<Rightarrow> (None, log\<lparr>log_file := take (length (log_file log) - length rest) (log_file log)\<rparr>))"

function load_entries :: "zcrc \<Rightarrow> os \<Rightarrow> nat \<Rightarrow> C4Log \<Rightarrow> byte list \<Rightarrow> errno option \<times> C4Log" where
  "load_entries crc os k log rest =
     (if rest = [] then (None, log)
      else case read_exact_at (at (at os k) 0 []) C4_LOG_HEADER_SIZE rest of
        Inl e \<Rightarrow> (Some e, log)
      | Inr header \<Rightarrow>
          if length header < C4_LOG_HEADER_SIZE then truncate_tail (at (at os k) 3) log rest
          else if take 4 header \<noteq> C4_LOG_MAGIC then (Some EBADMSG, log)
          else
            let e = header_entry header in
            if MAX_PAYLOAD_SIZE < payload_size e then (Some EBADMSG, log)
            else if 0 < payload_size e then
              (case fault (at (at os k) 1) of
                 Some er \<Rightarrow> (Some er, log)
               | None \<Rightarrow>
                   (case read_exact_at (at (at os k) 2 []) (unat (payload_size e)) (drop C4_LOG_HEADER_SIZE rest) of
                      Inl er \<Rightarrow> (Some er, log)
                    | Inr data \<Rightarrow>
                        if length data < unat (payload_size e) then truncate_tail (at (at os k) 3) log rest
                        else (case append_locked crc (at (at os k) 4) log (e\<lparr>payload := Some data\<rparr>) False of
                            (Some er, log) \<Rightarrow> (Some er, log)
                          | (None, log) \<Rightarrow>
                              load_entries crc os (Suc k) log
                                (drop (C4_LOG_HEADER_SIZE + unat (payload_size e)) rest))))
            else (case append_locked crc (at (at os k) 4) log e False of
                (Some er, log) \<Rightarrow> (Some er, log)
              | (None, log) \<Rightarrow> load_entries crc os (Suc k) log (drop C4_LOG_HEADER_SIZE rest)))"
  by pat_completeness auto
termination
  by (relation "measure (\<lambda>(_, _, _, _, rest). length rest)") (auto simp: C4_LOG_HEADER_SIZE_def)

declare load_entries.simps [simp del]

section \<open>Replaying the journal\<close>

text \<open>The effect of one PREPARE record; the call sites are those of the functions it calls.\<close>

definition replay_prepare :: "zcrc \<Rightarrow> os \<Rightarrow> C4Log \<Rightarrow> byte list \<Rightarrow> errno option \<times> C4Log" where
  "replay_prepare crc os log data =
     (case c4_log_entry_decode crc (at os 0) data of
        Inl _ \<Rightarrow> (Some EBADMSG, log)
      | Inr e \<Rightarrow>
          if find_transaction log (transaction_id e) \<noteq> None then (Some EBADMSG, log)
          else case reserve_transaction (at os 1) log of
            Inl _ \<Rightarrow> (Some EBADMSG, log)
          | Inr log \<Rightarrow>
              (let enter = (\<lambda>already.
                   if \<not> already \<and> (entry_index e, entry_version e) \<noteq> expected_position log
                   then (Some EBADMSG, log)
                   else (None, add_transaction log e C4_TXN_PREPARED)) in
               case c4_log_get_transaction (at os 2) log (transaction_id e) of
                 Inr committed \<Rightarrow> if same_entry committed e then enter True else (Some EBADMSG, log)
               | Inl er \<Rightarrow> if er \<noteq> ENOENT then (Some er, log) else enter False))"

definition replay_decision :: "zcrc \<Rightarrow> os \<Rightarrow> C4Log \<Rightarrow> byte \<Rightarrow> byte list \<Rightarrow> errno option \<times> C4Log" where
  "replay_decision crc os log type tid =
     (case find_transaction log tid of
        None \<Rightarrow>
          (if type = C4_TXN_ABORT then
             (case reserve_transaction (at os 1) log of
                Inl _ \<Rightarrow> (Some EBADMSG, log)
              | Inr log \<Rightarrow> (None, add_transaction log (tombstone tid) C4_TXN_ABORTED))
           else (Some EBADMSG, log))
      | Some i \<Rightarrow>
          if txn_state (transactions log ! i) \<noteq> C4_TXN_PREPARED then
            (if type = C4_TXN_ABORT \<and> txn_state (transactions log ! i) = C4_TXN_ABORTED
             then (None, log) else (Some EBADMSG, log))
          else
            let log = set_state log i (if type = C4_TXN_COMMIT then C4_TXN_COMMITTED else C4_TXN_ABORTED) in
            if type = C4_TXN_COMMIT
            then append_locked crc (at os 2) log (txn_entry (transactions log ! i)) True
            else (None, log))"

definition replay_record :: "zcrc \<Rightarrow> os \<Rightarrow> C4Log \<Rightarrow> byte \<Rightarrow> byte list \<Rightarrow> errno option \<times> C4Log" where
  "replay_record crc os log type data =
     (if type = C4_TXN_PREPARE then replay_prepare crc os log data
      else if (type = C4_TXN_COMMIT \<or> type = C4_TXN_ABORT) \<and> length data = 16
      then replay_decision crc os log type data
      else (Some EBADMSG, log))"

text \<open>Call sites of one round: reads (0, 2), the two \<open>malloc\<close>s (1, 3), the record (4).\<close>

function load_journal :: "zcrc \<Rightarrow> os \<Rightarrow> nat \<Rightarrow> C4Log \<Rightarrow> byte list \<Rightarrow> errno option \<times> C4Log" where
  "load_journal crc os k log rest =
     (if rest = [] then (None, log)
      else case read_exact_at (at (at os k) 0 []) C4_TXN_HEADER_SIZE rest of
        Inl _ \<Rightarrow> (Some EBADMSG, log)
      | Inr header \<Rightarrow>
          if length header \<noteq> C4_TXN_HEADER_SIZE \<or> take 4 header \<noteq> C4_TXN_MAGIC then (Some EBADMSG, log)
          else
            let type = header ! 4; n = wire_get_u32 (drop 8 header); expected_crc = wire_get_u32 (drop 12 header) in
            if MAX_PAYLOAD_SIZE < n \<or> length rest < C4_TXN_HEADER_SIZE + unat n then (Some EBADMSG, log)
            else
              (case (if 0 < n then fault (at (at os k) 1) else None) of
                 Some er \<Rightarrow> (Some er, log)
               | None \<Rightarrow>
                   (case read_exact_at (at (at os k) 2 []) (unat n) (drop C4_TXN_HEADER_SIZE rest) of
                      Inl _ \<Rightarrow> (Some EBADMSG, log)
                    | Inr data \<Rightarrow>
                        if length data \<noteq> unat n then (Some EBADMSG, log)
                        else case fault (at (at os k) 3) of
                          Some er \<Rightarrow> (Some er, log)
                        | None \<Rightarrow>
                            if protocol_calculate_crc32 crc (journal_checked type data) \<noteq> expected_crc
                            then (Some EBADMSG, log)
                            else (case replay_record crc (at (at os k) 4) log type data of
                                (Some er, log) \<Rightarrow> (Some er, log)
                              | (None, log) \<Rightarrow>
                                  load_journal crc os (Suc k) log (drop (C4_TXN_HEADER_SIZE + unat n) rest)))))"
  by pat_completeness auto
termination
  by (relation "measure (\<lambda>(_, _, _, _, rest). length rest)") (auto simp: C4_TXN_HEADER_SIZE_def)

declare load_journal.simps [simp del]

section \<open>Opening and closing\<close>

text \<open>
  \<open>log\<close> and \<open>journal\<close> are the contents of the two files, empty where they do not exist yet. The
  call sites are \<open>calloc\<close> (0), \<open>open\<close> (1), the mutex (2), \<open>fstat\<close> (3), the entries (4), \<open>malloc\<close>
  (5), \<open>open\<close> of the journal (6), the synchronisation of its directory (7), \<open>fstat\<close> of the
  journal (8) and its replay (9). On failure the object is released; the returned record then
  shows the two files as the attempt left them.
\<close>

definition c4_log_open :: "zcrc \<Rightarrow> os \<Rightarrow> byte list \<Rightarrow> byte list \<Rightarrow> errno option \<times> C4Log" where
  "c4_log_open crc os log journal =
     (let object = \<lparr>entries = [], capacity = 0, transactions = [], transaction_capacity = 0,
                 log_file = log, journal_file = journal\<rparr>;
          first_fault = (\<lambda>ks. List.find (\<lambda>k. fault (at os k) \<noteq> None) ks) in
      case first_fault [0, 1, 2, 3] of
        Some k \<Rightarrow> (fault (at os k), object)
      | None \<Rightarrow>
          (case load_entries crc (at os 4) 0 object log of
             (Some e, object) \<Rightarrow> (Some e, object)
           | (None, object) \<Rightarrow>
               (case first_fault [5, 6] of
                  Some k \<Rightarrow> (fault (at os k), object)
                | None \<Rightarrow>
                    (case sync_parent_directory (at os 7) of
                       Some e \<Rightarrow> (Some e, object)
                     | None \<Rightarrow>
                         (case fault (at os 8) of
                            Some e \<Rightarrow> (Some e, object)
                          | None \<Rightarrow> load_journal crc (at os 9) 0 object journal)))))"

section \<open>Opening establishes the invariant\<close>

lemma read_exact_at_length: "read_exact_at as n rest = Inr got \<Longrightarrow> length got \<le> n"
proof (induction as n rest arbitrary: got rule: read_exact_at.induct)
  case (3 n as k rest)
  then show ?case by (fastforce simp: Let_def split: if_splits sum.splits)
qed (auto split: if_splits)

lemma read_exact_at_calm [simp]: "read_exact_at [] n rest = Inr (take n rest)"
  by (cases n) auto

lemma header_entry_caller: "length h = C4_LOG_HEADER_SIZE \<Longrightarrow> caller_entry (header_entry h)"
  by (simp add: caller_entry_def header_entry_def C4_LOG_HEADER_SIZE_def)

lemma header_entry_caller_payload:
  "length h = C4_LOG_HEADER_SIZE \<Longrightarrow> unat (payload_size (header_entry h)) \<le> length p \<Longrightarrow>
     caller_entry ((header_entry h)\<lparr>payload := Some p\<rparr>)"
  by (simp add: caller_entry_def header_entry_def C4_LOG_HEADER_SIZE_def)

lemma truncate_tail_inv: "truncate_tail os log rest = (r, log') \<Longrightarrow> log_inv log' = log_inv log"
  by (auto simp: truncate_tail_def split: option.splits)

lemma load_entries_inv:
  assumes "load_entries crc os k log rest = (r, log')" "log_inv log"
  shows "log_inv log'"
  using assms
proof (induction crc os k log rest arbitrary: r log' rule: load_entries.induct)
  case (1 crc os k log rest)
  show ?case
  proof (cases "rest = [] \<or> (\<exists>er. read_exact_at (at (at os k) 0 []) C4_LOG_HEADER_SIZE rest = Inl er)")
    case True
    with "1.prems" show ?thesis by (subst (asm) load_entries.simps) (auto split: if_splits)
  next
    case False
    then obtain h where ne: "rest \<noteq> []" and h: "read_exact_at (at (at os k) 0 []) C4_LOG_HEADER_SIZE rest = Inr h"
      by (cases "read_exact_at (at (at os k) 0 []) C4_LOG_HEADER_SIZE rest") auto
    let ?e = "header_entry h"
    let ?n = "payload_size ?e"
    from read_exact_at_length [OF h] have hl: "\<not> length h < C4_LOG_HEADER_SIZE \<Longrightarrow> length h = C4_LOG_HEADER_SIZE" by simp
    note unfold = "1.prems"(1) [unfolded load_entries.simps [of crc os k log rest] Let_def]
    consider (short) "length h < C4_LOG_HEADER_SIZE"
      | (bad) "\<not> length h < C4_LOG_HEADER_SIZE" "take 4 h \<noteq> C4_LOG_MAGIC \<or> MAX_PAYLOAD_SIZE < ?n"
      | (empty) "\<not> length h < C4_LOG_HEADER_SIZE" "take 4 h = C4_LOG_MAGIC" "\<not> MAX_PAYLOAD_SIZE < ?n" "\<not> 0 < ?n"
      | (body) "\<not> length h < C4_LOG_HEADER_SIZE" "take 4 h = C4_LOG_MAGIC" "\<not> MAX_PAYLOAD_SIZE < ?n" "0 < ?n"
      by blast
    then show ?thesis
    proof cases
      case short
      with unfold ne h truncate_tail_inv "1.prems"(2) show ?thesis by auto
    next
      case bad
      with unfold ne h "1.prems"(2) show ?thesis by (auto split: if_splits)
    next
      case empty
      obtain q l where a: "append_locked crc (at (at os k) 4) log ?e False = (q, l)" by fastforce
      have li: "log_inv l" using append_locked_inv [OF a "1.prems"(2) header_entry_caller [OF hl]] empty by blast
      show ?thesis
      proof (cases q)
        case (Some er)
        with unfold ne h empty a li show ?thesis by auto
      next
        case None
        with unfold ne h empty a have "load_entries crc os (Suc k) l (drop C4_LOG_HEADER_SIZE rest) = (r, log')" by auto
        from "1.IH"(2) [OF ne h empty(1) _ refl empty(3,4) a [symmetric] None this li] empty(2) show ?thesis by simp
      qed
    next
      case body
      show ?thesis
      proof (cases "fault (at (at os k) 1) = None \<and>
          (\<exists>data. read_exact_at (at (at os k) 2 []) (unat ?n) (drop C4_LOG_HEADER_SIZE rest) = Inr data \<and> \<not> length data < unat ?n)")
        case False
        with unfold ne h body "1.prems"(2) truncate_tail_inv show ?thesis
          by (auto split: option.splits sum.splits if_splits)
      next
        case True
        then obtain data where f: "fault (at (at os k) 1) = None"
          and data: "read_exact_at (at (at os k) 2 []) (unat ?n) (drop C4_LOG_HEADER_SIZE rest) = Inr data"
          and dl: "\<not> length data < unat ?n" by blast
        obtain q l where a: "append_locked crc (at (at os k) 4) log (?e\<lparr>payload := Some data\<rparr>) False = (q, l)" by fastforce
        have li: "log_inv l"
          using append_locked_inv [OF a "1.prems"(2) header_entry_caller_payload [OF hl]] body dl by simp
        show ?thesis
        proof (cases q)
          case (Some er)
          with unfold ne h body a li f data dl show ?thesis by auto
        next
          case None
          with unfold ne h body a f data dl
          have "load_entries crc os (Suc k) l (drop (C4_LOG_HEADER_SIZE + unat ?n) rest) = (r, log')" by auto
          from "1.IH"(1) [OF ne h body(1) _ refl body(3,4) f data dl a [symmetric] None this li] body(2) show ?thesis by simp
        qed
      qed
    qed
  qed
qed

lemma replay_prepare_inv:
  assumes "replay_prepare crc os log data = (r, log')" "log_inv log"
  shows "log_inv log'"
proof (cases "c4_log_entry_decode crc (at os 0) data")
  case (Inr e)
  show ?thesis
  proof (cases "find_transaction log (transaction_id e) = None \<and> (\<exists>l. reserve_transaction (at os 1) log = Inr l)")
    case True
    then obtain l where n: "find_transaction log (transaction_id e) = None" and l: "reserve_transaction (at os 1) log = Inr l"
      by blast
    from reserve_transaction_ok [OF l] obtain k where lk: "l = log\<lparr>transaction_capacity := k\<rparr>" and k: "reserved log k" by blast
    have "log_inv l" using lk k log_inv_reserved [OF assms(2)] by simp
    moreover have "log_inv (add_transaction l e C4_TXN_PREPARED)"
      using \<open>log_inv l\<close> decode_stored [OF Inr] n lk k assms(2) by (intro log_inv_add) (simp_all add: find_transaction_def reserved_def log_inv_def)
    ultimately show ?thesis using assms(1) Inr n l
      by (auto simp: replay_prepare_def Let_def split: sum.splits if_splits)
  qed (use assms Inr in \<open>auto simp: replay_prepare_def split: sum.splits if_splits\<close>)
qed (use assms in \<open>simp add: replay_prepare_def\<close>)

lemma replay_decision_inv:
  assumes "replay_decision crc os log ty tid = (r, log')" "log_inv log" "length tid = 16"
  shows "log_inv log'"
proof (cases "find_transaction log tid")
  case None
  have "log_inv (add_transaction l (tombstone tid) C4_TXN_ABORTED)" if l: "reserve_transaction (at os 1) log = Inr l" for l
  proof -
    from reserve_transaction_ok [OF l] obtain k where lk: "l = log\<lparr>transaction_capacity := k\<rparr>" and k: "reserved log k" by blast
    have "length (transactions log) < k" using assms(2) k by (simp add: log_inv_def reserved_def)
    then show ?thesis using log_inv_reserved [OF assms(2), of k] assms(3) None k
      by (intro log_inv_add stored_tombstone) (simp_all add: lk find_transaction_def)
  qed
  with None assms show ?thesis by (auto simp: replay_decision_def split: if_splits sum.splits)
next
  case (Some i)
  note i = find_transaction_Some [OF Some]
  have s: "log_inv (set_state log i s)" if "s \<noteq> C4_TXN_UNKNOWN" for s
    using assms(2) i that by (intro log_inv_set_state) auto
  have "stored_entry (txn_entry (transactions (set_state log i s) ! i))" for s
    using stored_txn [OF assms(2), of i] i by (simp add: set_state_def)
  with s append_locked_inv stored_caller Some assms(1,2) show ?thesis
    by (auto simp: replay_decision_def Let_def split: if_splits)
qed

lemma replay_record_inv:
  "replay_record crc os log ty data = (r, log') \<Longrightarrow> log_inv log \<Longrightarrow> log_inv log'"
  by (auto simp: replay_record_def replay_prepare_inv replay_decision_inv split: if_splits)

lemma load_journal_inv:
  assumes "load_journal crc os k log rest = (r, log')" "log_inv log"
  shows "log_inv log'"
  using assms
proof (induction crc os k log rest arbitrary: r log' rule: load_journal.induct)
  case (1 crc os k log rest)
  show ?case
  proof (cases "log' = log")
    case False
    note p = "1.prems"(1) [unfolded load_journal.simps [of crc os k log rest] Let_def]
    from False p obtain h data q l where
      ne: "rest \<noteq> []" and h: "read_exact_at (at (at os k) 0 []) C4_TXN_HEADER_SIZE rest = Inr h"
      and g: "\<not> (length h \<noteq> C4_TXN_HEADER_SIZE \<or> take 4 h \<noteq> C4_TXN_MAGIC)"
      and n: "\<not> (MAX_PAYLOAD_SIZE < wire_get_u32 (drop 8 h) \<or> length rest < C4_TXN_HEADER_SIZE + unat (wire_get_u32 (drop 8 h)))"
      and f: "(if 0 < wire_get_u32 (drop 8 h) then fault (at (at os k) 1) else None) = None"
      and d: "read_exact_at (at (at os k) 2 []) (unat (wire_get_u32 (drop 8 h))) (drop C4_TXN_HEADER_SIZE rest) = Inr data"
      and dl: "\<not> length data \<noteq> unat (wire_get_u32 (drop 8 h))"
      and f2: "fault (at (at os k) 3) = None"
      and c: "\<not> protocol_calculate_crc32 crc (journal_checked (h ! 4) data) \<noteq> wire_get_u32 (drop 12 h)"
      and rr: "replay_record crc (at (at os k) 4) log (h ! 4) data = (q, l)"
      and rest: "(case q of Some er \<Rightarrow> (Some er, l) | None \<Rightarrow>
          load_journal crc os (Suc k) l (drop (C4_TXN_HEADER_SIZE + unat (wire_get_u32 (drop 8 h))) rest)) = (r, log')"
      by (auto simp del: load_journal.simps split: if_split_asm sum.split_asm option.split_asm prod.split_asm)
    have l: "log_inv l" by (rule replay_record_inv [OF rr "1.prems"(2)])
    show ?thesis
    proof (cases q)
      case (Some er)
      with rest l show ?thesis by simp
    next
      case None
      with rest have "load_journal crc os (Suc k) l (drop (C4_TXN_HEADER_SIZE + unat (wire_get_u32 (drop 8 h))) rest) = (r, log')"
        by simp
      from "1.IH" [OF ne h g refl refl refl n f d dl f2 c rr [symmetric] None this l] show ?thesis .
    qed
  qed (use "1.prems" in simp)
qed

lemma open_inv:
  assumes "c4_log_open crc os lf jf = (r, log)"
  shows "log_inv log"
proof -
  let ?o = "\<lparr>entries = [], capacity = 0, transactions = [], transaction_capacity = 0, log_file = lf, journal_file = jf\<rparr>"
  have o: "log_inv ?o" by (simp add: log_inv_def room_def transactions_room_def)
  obtain q l where q: "load_entries crc (at os 4) 0 ?o lf = (q, l)" by fastforce
  have "log_inv l" by (rule load_entries_inv [OF q o])
  with o q load_journal_inv [of crc "at os 9" 0 l jf r log] assms show ?thesis
    by (auto simp: c4_log_open_def Let_def split: option.splits if_splits)
qed

end
