(* ===== verification/Node.thy ===== *)
theory Node
  imports Wire
begin

text \<open>
  Node identity (\<^verbatim>\<open>node.c\<close>, \<^verbatim>\<open>node.h\<close>): configurations, the NodeID as SHA-256 of address, port and
  UUID, hexadecimal text, and the comparison of identifiers that Chord and the election use.

  \<open>inet_pton\<close>, \<open>inet_ntop\<close> and \<open>SHA256\<close> are fields of the record \<open>lib\<close>, a parameter of the
  definitions: \<open>None\<close> stands for the failure return of the library function. Roles are a datatype,
  so the test of \<open>node_validate\<close> that the role is one of the two has no counterpart.
\<close>

section \<open>Data\<close>

record lib =
  inet_pton4 :: "byte list \<Rightarrow> byte list option"
  inet_pton6 :: "byte list \<Rightarrow> byte list option"
  inet_ntop4 :: "byte list \<Rightarrow> byte list option"
  inet_ntop6 :: "byte list \<Rightarrow> byte list option"
  sha256 :: "byte list \<Rightarrow> byte list option"

definition NODE_UUID_SIZE :: nat where
  "NODE_UUID_SIZE = 16"

definition NODE_ADDRESS_SIZE :: nat where
  "NODE_ADDRESS_SIZE = 46"

definition ID_SIZE :: nat where
  "ID_SIZE = 32"

type_synonym NodeID = "byte list"

record NodeConfig =
  ip :: "byte list"
  port :: u16
  uuid :: "byte list"

datatype NodeRole = NODE_ROLE_PEER | NODE_ROLE_SUPERPEER

record Node =
  id_of :: NodeID
  config :: NodeConfig
  process_id :: int
  role :: NodeRole

section \<open>Configuration\<close>

definition normalize_ip :: "lib \<Rightarrow> byte list \<Rightarrow> byte list result" where
  "normalize_ip lib text =
     (if cstr text = [] then Inl EINVAL
      else case inet_pton4 lib (cstr text) of
        Some a \<Rightarrow> (case inet_ntop4 lib a of
            None \<Rightarrow> Inl ENOSPC | Some s \<Rightarrow> Inr (zero_padded NODE_ADDRESS_SIZE s))
      | None \<Rightarrow>
          (case inet_pton6 lib (cstr text) of
             Some a \<Rightarrow> (case inet_ntop6 lib a of
                 None \<Rightarrow> Inl ENOSPC | Some s \<Rightarrow> Inr (zero_padded NODE_ADDRESS_SIZE s))
           | None \<Rightarrow> Inl EINVAL))"

text \<open>
  The read loop on \<^verbatim>\<open>/dev/urandom\<close>: \<open>device\<close> is what the device yields, the answers are those of
  the successive \<open>read\<close> calls. The call sites are \<open>open\<close> (0), \<open>read\<close> (1) and \<open>close\<close> (2).
\<close>

fun uuid_read :: "answer list \<Rightarrow> nat \<Rightarrow> byte list \<Rightarrow> byte list result" where
  "uuid_read as 0 device = Inr []"
| "uuid_read [] (Suc k) device = Inr (take (Suc k) device)"
| "uuid_read (Ret n # as) (Suc k) device =
     (if n = 0 then Inl EIO
      else let count = min n (Suc k) in
        case uuid_read as (Suc k - count) (drop count device) of
          Inl e \<Rightarrow> Inl e
        | Inr got \<Rightarrow> Inr (take count device @ got))"
| "uuid_read (Err e # as) (Suc k) device =
     (if e = EINTR then uuid_read as (Suc k) device else Inl e)"

definition node_generate_uuid :: "os \<Rightarrow> byte list \<Rightarrow> byte list result" where
  "node_generate_uuid os device =
     (case fault (at os 0) of Some e \<Rightarrow> Inl e
      | None \<Rightarrow>
          (case uuid_read (at os 1 []) NODE_UUID_SIZE device of Inl e \<Rightarrow> Inl e
           | Inr u \<Rightarrow>
               (case fault (at os 2) of Some e \<Rightarrow> Inl e
                | None \<Rightarrow>
                    Inr ((u[6 := (u ! 6 AND 0x0f) OR 0x40])[8 := (u ! 8 AND 0x3f) OR 0x80]))))"

definition node_config_validate :: "lib \<Rightarrow> NodeConfig \<Rightarrow> byte list result" where
  "node_config_validate lib c =
     (if port c = 0 then Inl EINVAL
      else if 0 \<notin> set (ip c) then Inl EINVAL
      else normalize_ip lib (ip c))"

definition node_config_init_with_uuid :: "lib \<Rightarrow> byte list \<Rightarrow> u16 \<Rightarrow> byte list \<Rightarrow> NodeConfig result" where
  "node_config_init_with_uuid lib text p u =
     (if p = 0 then Inl EINVAL
      else case normalize_ip lib text of Inl e \<Rightarrow> Inl e
        | Inr normalized \<Rightarrow> Inr \<lparr>ip = normalized, port = p, uuid = take NODE_UUID_SIZE u\<rparr>)"

definition node_config_init :: "lib \<Rightarrow> os \<Rightarrow> byte list \<Rightarrow> byte list \<Rightarrow> u16 \<Rightarrow> NodeConfig result" where
  "node_config_init lib os device text p =
     (if p = 0 then Inl EINVAL
      else case node_generate_uuid (at os 0) device of Inl e \<Rightarrow> Inl e
        | Inr u \<Rightarrow> node_config_init_with_uuid lib text p u)"

section \<open>Identity\<close>

definition id_input :: "byte list \<Rightarrow> NodeConfig \<Rightarrow> byte list" where
  "id_input address c = address @ wire_put_u16 (port c) @ uuid c"

definition node_compute_id :: "lib \<Rightarrow> NodeConfig \<Rightarrow> NodeID result" where
  "node_compute_id lib c =
     (case node_config_validate lib c of Inl e \<Rightarrow> Inl e
      | Inr _ \<Rightarrow>
          (case (case inet_pton4 lib (cstr (ip c)) of Some a \<Rightarrow> Some a | None \<Rightarrow> inet_pton6 lib (cstr (ip c))) of
             None \<Rightarrow> Inl EINVAL
           | Some address \<Rightarrow>
               (case sha256 lib (id_input address c) of None \<Rightarrow> Inl EIO | Some digest \<Rightarrow> Inr digest)))"

definition node_init :: "lib \<Rightarrow> int \<Rightarrow> NodeConfig \<Rightarrow> Node result" where
  "node_init lib pid c =
     (case node_compute_id lib c of Inl e \<Rightarrow> Inl e
      | Inr i \<Rightarrow> Inr \<lparr>id_of = i, config = c, process_id = pid, role = NODE_ROLE_PEER\<rparr>)"

fun memcmp :: "byte list \<Rightarrow> byte list \<Rightarrow> int" where
  "memcmp (x # xs) (y # ys) = (if x < y then -1 else if y < x then 1 else memcmp xs ys)"
| "memcmp _ _ = 0"

definition node_id_compare :: "NodeID \<Rightarrow> NodeID \<Rightarrow> int" where
  "node_id_compare l r = (let c = memcmp l r in if c < 0 then -1 else if 0 < c then 1 else 0)"

definition node_id_equal :: "NodeID \<Rightarrow> NodeID \<Rightarrow> bool" where
  "node_id_equal l r \<longleftrightarrow> memcmp l r = 0"

definition node_validate :: "lib \<Rightarrow> Node \<Rightarrow> bool" where
  "node_validate lib n \<longleftrightarrow>
     0 < process_id n \<and>
     (case node_compute_id lib (config n) of Inl e \<Rightarrow> False | Inr expected \<Rightarrow> node_id_equal (id_of n) expected)"

definition node_get_process_id :: "Node option \<Rightarrow> int" where
  "node_get_process_id n = (case n of None \<Rightarrow> -1 | Some n \<Rightarrow> process_id n)"

section \<open>Hexadecimal text\<close>

definition hexadecimal :: string where
  "hexadecimal = ''0123456789abcdef''"

definition node_id_to_hex :: "NodeID \<Rightarrow> nat \<Rightarrow> string result" where
  "node_id_to_hex i output_size =
     (if output_size < 2 * ID_SIZE + 1 then Inl ENOSPC
      else Inr (concat (map (\<lambda>b. [hexadecimal ! unat (drop_bit 4 b), hexadecimal ! unat (b AND 0x0f)]) i)))"

definition hexadecimal_value :: "char \<Rightarrow> int" where
  "hexadecimal_value c =
     (let v = of_char c :: int in
      if of_char (CHR ''0'') \<le> v \<and> v \<le> of_char (CHR ''9'') then v - of_char (CHR ''0'')
      else if of_char (CHR ''a'') \<le> v \<and> v \<le> of_char (CHR ''f'') then v - of_char (CHR ''a'') + 10
      else if of_char (CHR ''A'') \<le> v \<and> v \<le> of_char (CHR ''F'') then v - of_char (CHR ''A'') + 10
      else -1)"

fun hex_pairs :: "string \<Rightarrow> byte list result" where
  "hex_pairs (h # l # rest) =
     (let high = hexadecimal_value h; low = hexadecimal_value l in
      if high < 0 \<or> low < 0 then Inl EINVAL
      else case hex_pairs rest of Inl e \<Rightarrow> Inl e
        | Inr bs \<Rightarrow> Inr (word_of_int (push_bit 4 high OR low) # bs))"
| "hex_pairs _ = Inr []"

definition node_id_from_hex :: "string \<Rightarrow> NodeID result" where
  "node_id_from_hex hex = (if length hex \<noteq> 2 * ID_SIZE then Inl EINVAL else hex_pairs hex)"

section \<open>Comparison is the order of the identifiers as 256-bit numbers\<close>

definition id_val :: "byte list \<Rightarrow> nat" where
  "id_val bs = foldl (\<lambda>a b. a * 256 + unat b) 0 bs"

lemma foldl_base256: "foldl (\<lambda>a b. a * 256 + unat (b :: byte)) n bs = n * 256 ^ length bs + id_val bs"
proof (induction bs arbitrary: n)
  case Nil
  then show ?case by (simp add: id_val_def)
next
  case (Cons b bs)
  have "id_val (b # bs) = unat b * 256 ^ length bs + id_val bs"
    using Cons [of "unat b"] by (simp add: id_val_def)
  with Cons show ?case by (simp add: algebra_simps)
qed

lemma id_val_Nil [simp]: "id_val [] = 0"
  by (simp add: id_val_def)

lemma id_val_Cons [simp]: "id_val (b # bs) = unat b * 256 ^ length bs + id_val bs"
  using foldl_base256 [of "unat b" bs] by (simp add: id_val_def)

lemma id_val_append: "id_val (xs @ ys) = id_val xs * 256 ^ length ys + id_val ys"
  by (induction xs) (auto simp: power_add algebra_simps)

lemma unat_byte_less: "unat (b :: byte) < 256"
  using unsigned_less [where ?'a = nat, of b] by simp

lemma id_val_less: "id_val bs < 256 ^ length bs"
proof (induction bs)
  case (Cons b bs)
  have "unat b * 256 ^ length bs + id_val bs < (unat b + 1) * 256 ^ length bs"
    using Cons by simp
  also have "\<dots> \<le> 256 * 256 ^ length bs"
    using unat_byte_less [of b] by (intro mult_right_mono) auto
  finally show ?case by simp
qed simp

lemma id_val_lead:
  assumes "x < y" "length xs = length ys"
  shows "id_val (x # xs) < id_val (y # ys)"
proof -
  from assms(1) have "unat x + 1 \<le> unat y" by (simp add: word_less_nat_alt)
  have "id_val (x # xs) < (unat x + 1) * 256 ^ length xs"
    using id_val_less [of xs] by simp
  also have "\<dots> \<le> unat y * 256 ^ length xs"
    using \<open>unat x + 1 \<le> unat y\<close> by (rule mult_right_mono) simp
  also have "\<dots> \<le> id_val (y # ys)" using assms(2) by simp
  finally show ?thesis .
qed

lemma memcmp_id_val:
  "length xs = length ys \<Longrightarrow>
     memcmp xs ys = (if id_val xs < id_val ys then -1 else if id_val ys < id_val xs then 1 else 0)"
proof (induction xs ys rule: memcmp.induct)
  case (1 x xs y ys)
  consider "x < y" | "y < x" | "x = y" by fastforce
  then show ?case
  proof cases
    case 1
    with id_val_lead [of x y xs ys] \<open>length (x # xs) = _\<close> show ?thesis by simp
  next
    case 2
    with id_val_lead [of y x ys xs] \<open>length (x # xs) = _\<close> show ?thesis by simp
  next
    case 3
    with 1 show ?thesis by simp
  qed
qed auto

lemma id_val_inj: "length xs = length ys \<Longrightarrow> id_val xs = id_val ys \<Longrightarrow> xs = ys"
proof (induction xs ys rule: list_induct2')
  case (4 x xs y ys)
  have "x = y"
    using id_val_lead [of x y xs ys] id_val_lead [of y x ys xs] 4 by fastforce
  with 4 show ?case by simp
qed auto

lemma memcmp_eq_0: "length xs = length ys \<Longrightarrow> memcmp xs ys = 0 \<longleftrightarrow> xs = ys"
  by (auto simp: memcmp_id_val dest: id_val_inj)

lemma node_id_equal_iff [simp]:
  "length l = ID_SIZE \<Longrightarrow> length r = ID_SIZE \<Longrightarrow> node_id_equal l r \<longleftrightarrow> l = r"
  by (simp add: node_id_equal_def memcmp_eq_0)

lemma memcmp_refl [simp]: "memcmp xs xs = 0"
  by (induction xs) auto

lemma node_id_equal_refl [simp]: "node_id_equal x x"
  by (simp add: node_id_equal_def)

lemma node_id_compare_val:
  "length l = ID_SIZE \<Longrightarrow> length r = ID_SIZE \<Longrightarrow>
     node_id_compare l r = (if id_val l < id_val r then -1 else if id_val r < id_val l then 1 else 0)"
  by (simp add: node_id_compare_def memcmp_id_val)

section \<open>Hexadecimal round trip\<close>

lemma hexadecimal_digits: "list_all (\<lambda>k. hexadecimal_value (hexadecimal ! k) = int k) [0..<16]"
  by code_simp

lemma hexadecimal_digit: "k < 16 \<Longrightarrow> hexadecimal_value (hexadecimal ! k) = int k"
  using hexadecimal_digits by (simp add: list_all_iff)

lemma low_nibble: "b AND 0x0f = take_bit 4 (b :: byte)"
  by (simp add: take_bit_eq_mask mask_eq_exp_minus_1)

lemma nibbles: "push_bit 4 (drop_bit 4 b) OR (b AND 0x0f) = (b :: byte)"
  unfolding low_nibble by (auto intro!: bit_word_eqI simp: bit_simps)

lemma byte_of_nibbles: "word_of_int (push_bit 4 (uint x) OR uint y) = push_bit 4 x OR (y :: byte)"
  by (rule bit_word_eqI) (auto simp: bit_simps)

lemma nibble_bounds:
  "unat (drop_bit 4 (b :: byte)) < 16" "unat (b AND 0x0f :: byte) < 16"
proof -
  show "unat (drop_bit 4 b) < 16"
    using unat_byte_less [of b] by (simp add: drop_bit_eq_div unat_div)
  show "unat (b AND 0x0f) < 16"
    using take_bit_nat_less_exp [of 4 "unat b"] unfolding low_nibble by (simp add: unsigned_take_bit_eq)
qed

lemma hex_pairs_of_bytes:
  "hex_pairs (concat (map (\<lambda>b. [hexadecimal ! unat (drop_bit 4 b), hexadecimal ! unat (b AND 0x0f)]) i)) = Inr i"
proof (induction i)
  case (Cons b i)
  have "word_of_int (push_bit 4 (int (unat (drop_bit 4 b))) OR int (unat (b AND 0x0f))) = b"
    using byte_of_nibbles [of "drop_bit 4 b" "b AND 0x0f"] by (simp add: nibbles)
  with Cons show ?case
    by (simp add: hexadecimal_digit nibble_bounds)
qed simp

lemma hex_pairs_length: "hex_pairs s = Inr bs \<Longrightarrow> length bs = length s div 2"
  by (induction s arbitrary: bs rule: hex_pairs.induct) (auto simp: Let_def split: if_splits sum.splits)

lemma hex_pairs_ok:
  "even (length s) \<Longrightarrow> (\<exists>bs. hex_pairs s = Inr bs) \<longleftrightarrow> (\<forall>c \<in> set s. 0 \<le> hexadecimal_value c)"
  by (induction s rule: hex_pairs.induct) (auto simp: Let_def split: sum.splits)

section \<open>UUIDs\<close>

lemma uuid_read_length: "uuid_read as n device = Inr u \<Longrightarrow> n \<le> length device \<Longrightarrow> length u = n"
proof (induction as n device arbitrary: u rule: uuid_read.induct)
  case (3 n as k device)
  let ?c = "min n (Suc k)"
  from "3.prems" have n: "n \<noteq> 0" by (auto split: if_splits)
  with "3.prems"(1) obtain g where g: "uuid_read as (Suc k - ?c) (drop ?c device) = Inr g"
    and u: "u = take ?c device @ g"
    by (auto simp: Let_def split: sum.splits)
  have "Suc k - ?c \<le> length (drop ?c device)" using "3.prems"(2) by auto
  from "3.IH" [OF n refl g this] u "3.prems"(2) show ?case by auto
qed (auto split: if_splits)

lemma version_bits: "((x AND 0x0f) OR 0x40) AND 0xf0 = (0x40 :: byte)"
  by (rule bit_word_eqI) (auto simp: bit_simps bit_numeral_rec less_Suc_eq numeral_eq_Suc)

lemma variant_bits: "((x AND 0x3f) OR 0x80) AND 0xc0 = (0x80 :: byte)"
  by (rule bit_word_eqI) (auto simp: bit_simps bit_numeral_rec less_Suc_eq numeral_eq_Suc)

lemma uuid_generated:
  assumes "node_generate_uuid os device = Inr u" "16 \<le> length device"
  shows "length u = 16 \<and> (u ! 6) AND 0xf0 = 0x40 \<and> (u ! 8) AND 0xc0 = 0x80"
proof -
  from assms obtain v where v: "uuid_read (at os 1 []) NODE_UUID_SIZE device = Inr v"
    and u: "u = (v[6 := (v ! 6 AND 0x0f) OR 0x40])[8 := (v ! 8 AND 0x3f) OR 0x80]"
    by (auto simp: node_generate_uuid_def split: option.splits sum.splits)
  from uuid_read_length [OF v] assms(2) have "length v = 16" by (simp add: NODE_UUID_SIZE_def)
  with u show ?thesis by (simp add: version_bits variant_bits)
qed

section \<open>Properties\<close>

text \<open>
\<open>node_id_compare\<close> orders identifiers as the 256-bit numbers they write in network
order, and two identifiers are equal for \<open>node_id_equal\<close> exactly when all their bytes are.
\<close>

theorem node_id_order:
  assumes "length l = ID_SIZE" "length r = ID_SIZE"
  shows "node_id_compare l r = (if id_val l < id_val r then -1 else if id_val r < id_val l then 1 else 0) \<and>
    (node_id_equal l r \<longleftrightarrow> l = r)"
  using node_id_compare_val [OF assms] node_id_equal_iff [OF assms] by blast

theorem node_id_order_witness:
  "node_id_compare (replicate 31 1 @ [1]) (replicate 31 1 @ [2]) = -1 \<and>
   \<not> node_id_equal (replicate 31 1 @ [1]) (replicate 31 1 @ [2])"
  using node_id_order [of "replicate 31 1 @ [1]" "replicate 31 1 @ [2]"] by (simp add: ID_SIZE_def id_val_append)

text \<open>
The hexadecimal text of an identifier has 64 digits and reads back as the identifier;
reading accepts exactly the texts of 64 hexadecimal digits, in either case.
\<close>

theorem node_id_hex_roundtrip:
  assumes "length i = ID_SIZE" "2 * ID_SIZE + 1 \<le> output_size"
  shows "(\<exists>s. node_id_to_hex i output_size = Inr s \<and> length s = 64 \<and> node_id_from_hex s = Inr i) \<and>
    ((\<exists>b. node_id_from_hex t = Inr b) \<longleftrightarrow> length t = 64 \<and> (\<forall>c \<in> set t. 0 \<le> hexadecimal_value c))"
proof -
  have len: "length (concat (map (\<lambda>b. [hexadecimal ! unat (drop_bit 4 b), hexadecimal ! unat (b AND 0x0f)]) i)) = 2 * length i"
    by (induction i) auto
  show ?thesis
    using assms len hex_pairs_of_bytes [of i] hex_pairs_ok [of t]
    by (auto simp: node_id_to_hex_def node_id_from_hex_def ID_SIZE_def split: if_splits)
qed

theorem node_id_hex_roundtrip_witness:
  "\<exists>s. node_id_to_hex (replicate 32 0xab) 65 = Inr s \<and> length s = 64 \<and> node_id_from_hex s = Inr (replicate 32 0xab)"
  using node_id_hex_roundtrip [of "replicate 32 0xab" 65 "[]"] by (simp add: ID_SIZE_def)

text \<open>
However the reads of the random device are interrupted or split, a generated UUID has 16
bytes, the version bits of a random UUID (4) and the variant bits of RFC 4122.
\<close>

theorem node_uuid_version_4:
  assumes "node_generate_uuid os device = Inr u" "16 \<le> length device"
  shows "length u = 16 \<and> (u ! 6) AND 0xf0 = 0x40 \<and> (u ! 8) AND 0xc0 = 0x80"
  by (rule uuid_generated [OF assms])

theorem node_uuid_version_4_witness:
  "length (projr (node_generate_uuid calm (replicate 16 255))) = 16"
  using node_uuid_version_4 [of calm "replicate 16 255" "projr (node_generate_uuid calm (replicate 16 255))"]
  by (simp add: node_generate_uuid_def NODE_UUID_SIZE_def numeral_eq_Suc)

text \<open>
A node that was initialised by a live process validates, and it is the only identifier
that does: with any other identifier of 32 bytes in its place, validation fails. The hash is
only required to yield 32 bytes.
\<close>

theorem node_identity_bound:
  assumes "node_init lib pid c = Inr n" "0 < pid" "\<And>x d. sha256 lib x = Some d \<Longrightarrow> length d = ID_SIZE" "length i = ID_SIZE"
  shows "node_validate lib (n\<lparr>id_of := i\<rparr>) \<longleftrightarrow> i = id_of n"
proof -
  from assms(1) obtain d where d: "node_compute_id lib c = Inr d" and n: "n = \<lparr>id_of = d, config = c, process_id = pid, role = NODE_ROLE_PEER\<rparr>"
    by (auto simp: node_init_def split: sum.splits)
  from d assms(3) have "length d = ID_SIZE"
    by (auto simp: node_compute_id_def split: sum.splits option.splits)
  with n d assms(2,4) show ?thesis by (simp add: node_validate_def)
qed

definition sample_lib :: lib where
  "sample_lib = \<lparr>inet_pton4 = (\<lambda>s. if length s = 4 then Some s else None), inet_pton6 = (\<lambda>s. None),
     inet_ntop4 = Some, inet_ntop6 = Some, sha256 = (\<lambda>s. Some (take ID_SIZE (s @ replicate ID_SIZE 0)))\<rparr>"

theorem node_identity_bound_witness:
  "\<not> node_validate sample_lib ((projr (node_init sample_lib 1
      \<lparr>ip = zero_padded 46 [127, 1, 1, 1], port = 80, uuid = replicate 16 5\<rparr>))\<lparr>id_of := replicate 32 9\<rparr>)"
proof -
  let ?c = "\<lparr>ip = zero_padded 46 [127, 1, 1, 1], port = 80, uuid = replicate 16 5\<rparr>"
  have z: "cstr (zero_padded 46 [127, 1, 1, 1 :: byte]) = [127, 1, 1, 1]" by (rule cstr_zero_padded) simp
  have i: "\<exists>n. node_init sample_lib 1 ?c = Inr n \<and> id_of n ! 0 = 127"
    by (simp add: node_init_def node_compute_id_def node_config_validate_def normalize_ip_def z sample_lib_def id_input_def
        ID_SIZE_def) (simp add: zero_padded_def)
  then obtain n where n: "node_init sample_lib 1 ?c = Inr n" "id_of n ! 0 = 127" by blast
  have "replicate 32 (9 :: byte) ! 0 = 9" by simp
  with n(2) have ne: "replicate 32 9 \<noteq> id_of n" by fastforce
  have law: "sha256 sample_lib x = Some d \<Longrightarrow> length d = ID_SIZE" for x d
    by (auto simp: sample_lib_def ID_SIZE_def)
  from node_identity_bound [OF n(1) _ law, where i = "replicate 32 9"] n(1) ne show ?thesis
    by (simp add: ID_SIZE_def)
qed

text \<open>
  A library whose digest repeats the last byte, so that a node is known by one byte, for the
  witnesses of the components.
\<close>

definition byte_lib :: lib where
  "byte_lib = \<lparr>inet_pton4 = Some, inet_pton6 = (\<lambda>s. None), inet_ntop4 = Some, inet_ntop6 = (\<lambda>s. None),
     sha256 = (\<lambda>s. Some (replicate 32 (last s)))\<rparr>"

lemma byte_lib_digest: "sha256 byte_lib x = Some d \<Longrightarrow> length d = ID_SIZE"
  by (auto simp: byte_lib_def ID_SIZE_def)

definition byte_config :: "byte \<Rightarrow> NodeConfig" where
  "byte_config b = \<lparr>ip = zero_padded 46 [49], port = 80, uuid = replicate 16 b\<rparr>"

lemma byte_config_valid:
  "node_config_validate byte_lib (byte_config b) = Inr (ip (byte_config b))" "node_compute_id byte_lib (byte_config b) = Inr (replicate 32 b)"
proof -
  have "cstr (zero_padded 46 [49 :: byte]) = [49]" by (rule cstr_zero_padded) simp
  moreover have "(0 :: byte) \<in> set (zero_padded 46 [49])" by (simp add: zero_padded_def)
  ultimately show "node_config_validate byte_lib (byte_config b) = Inr (ip (byte_config b))" "node_compute_id byte_lib (byte_config b) = Inr (replicate 32 b)"
    by (simp_all add: node_compute_id_def node_config_validate_def normalize_ip_def byte_lib_def byte_config_def id_input_def NODE_ADDRESS_SIZE_def)
qed

end
