(* ===== verification/Rpc.thy ===== *)
theory Rpc
  imports Protocol Node
begin

text \<open>
  Remote calls (\<^verbatim>\<open>rpc.c\<close>) with the identifiers of their transactions
  (\<open>transfer_fill_transaction_id\<close> of \<^verbatim>\<open>transfer_protocol.c\<close>) and the descriptor of a node that
  JOIN and the overlay put on the wire.

  The peer at the other end is a function from the bytes it receives to the bytes it sends back. A
  call that fails is \<open>None\<close>: which \<open>errno\<close> the network layer left is not modelled. The deadlines
  of \<open>rpc_call_deadline\<close> bound the waiting inside the network layer, whose timeouts are answers of
  the environment.
\<close>

section \<open>Node descriptors\<close>

definition JOIN_PAYLOAD_WIRE_SIZE :: nat where
  "JOIN_PAYLOAD_WIRE_SIZE = NODE_ADDRESS_SIZE + 2 + NODE_UUID_SIZE"

definition join_bytes :: "NodeConfig \<Rightarrow> byte list" where
  "join_bytes c = ip c @ wire_put_u16 (port c) @ uuid c"

definition rpc_encode_join_payload :: "lib \<Rightarrow> NodeConfig \<Rightarrow> byte list result" where
  "rpc_encode_join_payload lib c =
     (case node_config_validate lib c of Inl _ \<Rightarrow> Inl EINVAL | Inr _ \<Rightarrow> Inr (join_bytes c))"

definition rpc_decode_join_payload :: "lib \<Rightarrow> byte list \<Rightarrow> NodeConfig result" where
  "rpc_decode_join_payload lib payload =
     (if length payload \<noteq> JOIN_PAYLOAD_WIRE_SIZE then Inl EINVAL
      else
        let text = take NODE_ADDRESS_SIZE payload in
        if 0 \<notin> set text then Inl EINVAL
        else if list_ex (\<lambda>b. b \<noteq> 0) (dropWhile (\<lambda>b. b \<noteq> 0) text) then Inl EINVAL
        else node_config_init_with_uuid lib text (wire_get_u16 (drop NODE_ADDRESS_SIZE payload))
               (drop (NODE_ADDRESS_SIZE + 2) payload))"

section \<open>Transaction identifiers\<close>

text \<open>The two process-wide counters; the compare-and-swap loop ends with the larger of the clocks.\<close>

record id_state =
  transaction_clock :: u64
  transaction_sequence :: u32

definition transfer_fill_transaction_id :: "u64 \<Rightarrow> byte list option \<Rightarrow> id_state \<Rightarrow> byte list \<times> id_state" where
  "transfer_fill_transaction_id now source st =
     (let timestamp = (if now \<le> transaction_clock st then transaction_clock st + 1 else now);
          sequence = transaction_sequence st + 1 in
      (wire_put_u64 timestamp @ (case source of None \<Rightarrow> replicate 4 0 | Some s \<Rightarrow> take 4 s) @ wire_put_u32 sequence,
       \<lparr>transaction_clock = timestamp, transaction_sequence = sequence\<rparr>))"

section \<open>Calls\<close>

definition request_header ::
  "NodeID option \<Rightarrow> NodeID option \<Rightarrow> byte \<Rightarrow> byte list \<Rightarrow> u64 \<Rightarrow> u32 \<Rightarrow> header" where
  "request_header source destination type tid seconds n =
     (message_header message_init)\<lparr>message_type := type,
        source_node := (case source of None \<Rightarrow> replicate NODE_ID_SIZE 0 | Some s \<Rightarrow> s),
        destination_node := (case destination of None \<Rightarrow> replicate NODE_ID_SIZE 0 | Some d \<Rightarrow> d),
        header_transaction_id := tid, timestamp := seconds, header_payload_size := n\<rparr>"

text \<open>The call sites are \<open>connect\<close> (0), sending (1) and receiving (2).\<close>

definition rpc_call_with_transaction ::
  "zcrc \<Rightarrow> os \<Rightarrow> (byte list \<Rightarrow> byte list) \<Rightarrow> u64 \<Rightarrow> u64 \<Rightarrow> NodeID option \<Rightarrow> NodeID option \<Rightarrow> byte \<Rightarrow>
   byte list option \<Rightarrow> byte list option \<Rightarrow> u32 \<Rightarrow> id_state \<Rightarrow> message option \<times> id_state" where
  "rpc_call_with_transaction crc os peer now seconds source destination type tid data n st =
     (if MAX_PAYLOAD_SIZE < n \<or> (n \<noteq> 0 \<and> data = None) then (None, st)
      else case fault (at os 0) of
        Some _ \<Rightarrow> (None, st)
      | None \<Rightarrow>
          (let (transaction, st) = (case tid of
                   None \<Rightarrow> transfer_fill_transaction_id now
                     (Some (case source of None \<Rightarrow> replicate NODE_ID_SIZE 0 | Some s \<Rightarrow> s)) st
                 | Some t \<Rightarrow> (t, st));
               request = \<lparr>message_header = request_header source destination type transaction seconds n,
                          message_payload = data\<rparr> in
           case protocol_send_message crc (at os 1) request of
             (PROTOCOL_OK, sent) \<Rightarrow>
               (case protocol_receive_message crc (at os 2) (peer sent) message_init of
                  (PROTOCOL_OK, response, _) \<Rightarrow>
                    (let h = message_header response in
                     if header_transaction_id h \<noteq> transaction then (None, st)
                     else if (case source of None \<Rightarrow> False | Some s \<Rightarrow> destination_node h \<noteq> s) \<or>
                             (case destination of None \<Rightarrow> False | Some d \<Rightarrow> source_node h \<noteq> d)
                     then (None, st)
                     else (Some response, st))
                | _ \<Rightarrow> (None, st))
           | _ \<Rightarrow> (None, st)))"

definition rpc_call ::
  "zcrc \<Rightarrow> os \<Rightarrow> (byte list \<Rightarrow> byte list) \<Rightarrow> u64 \<Rightarrow> u64 \<Rightarrow> NodeID option \<Rightarrow> NodeID option \<Rightarrow> byte \<Rightarrow>
   byte list option \<Rightarrow> u32 \<Rightarrow> id_state \<Rightarrow> message option \<times> id_state" where
  "rpc_call crc os peer now seconds source destination type data n st =
     rpc_call_with_transaction crc os peer now seconds source destination type None data n st"

section \<open>Descriptors read back\<close>

text \<open>A configuration in the form that \<open>node_config_init_with_uuid\<close> gives it.\<close>

definition canonical_config :: "lib \<Rightarrow> NodeConfig \<Rightarrow> bool" where
  "canonical_config lib c \<longleftrightarrow> length (ip c) = NODE_ADDRESS_SIZE \<and> length (uuid c) = NODE_UUID_SIZE \<and> port c \<noteq> 0 \<and>
     0 \<in> set (ip c) \<and> zero_padded NODE_ADDRESS_SIZE (cstr (ip c)) = ip c \<and> normalize_ip lib (ip c) = Inr (ip c)"

lemma length_join_bytes: "canonical_config lib c \<Longrightarrow> length (join_bytes c) = JOIN_PAYLOAD_WIRE_SIZE"
  by (simp add: canonical_config_def join_bytes_def JOIN_PAYLOAD_WIRE_SIZE_def)

lemma dropWhile_padded: "dropWhile (\<lambda>b. b \<noteq> 0) (zero_padded n (cstr s)) = replicate (n - length (cstr s)) 0"
proof -
  have "\<forall>b \<in> set (cstr s). b \<noteq> 0" using cstr_no_zero [of s] by metis
  then have "dropWhile (\<lambda>b. b \<noteq> 0) (cstr s @ replicate (n - length (cstr s)) 0) = dropWhile (\<lambda>b. b \<noteq> 0) (replicate (n - length (cstr s)) (0 :: byte))"
    by (simp add: dropWhile_append2)
  then show ?thesis by (cases "n - length (cstr s)") (simp_all add: zero_padded_def)
qed

lemma encode_canonical: "canonical_config lib c \<Longrightarrow> rpc_encode_join_payload lib c = Inr (join_bytes c)"
  by (simp add: rpc_encode_join_payload_def node_config_validate_def canonical_config_def)

lemma decode_join_bytes:
  assumes "canonical_config lib c"
  shows "rpc_decode_join_payload lib (join_bytes c) = Inr c"
proof -
  have d: "dropWhile (\<lambda>b. b \<noteq> 0) (ip c) = replicate (NODE_ADDRESS_SIZE - length (cstr (ip c))) 0"
    using dropWhile_padded [of NODE_ADDRESS_SIZE "ip c"] assms by (simp add: canonical_config_def)
  show ?thesis
    using assms length_join_bytes [OF assms]
    by (simp add: rpc_decode_join_payload_def Let_def join_bytes_def canonical_config_def
        node_config_init_with_uuid_def d list_ex_iff)
qed

definition decode_join_prefix :: "lib \<Rightarrow> byte list \<Rightarrow> (NodeConfig \<times> byte list) option" where
  "decode_join_prefix lib bs =
     (case rpc_decode_join_payload lib (take JOIN_PAYLOAD_WIRE_SIZE bs) of
        Inl _ \<Rightarrow> None | Inr c \<Rightarrow> Some (c, drop JOIN_PAYLOAD_WIRE_SIZE bs))"

interpretation join: codec join_bytes "decode_join_prefix lib" "canonical_config lib" for lib
proof
  fix c rest assume c: "canonical_config lib c"
  then have "take JOIN_PAYLOAD_WIRE_SIZE (join_bytes c @ rest) = join_bytes c" "drop JOIN_PAYLOAD_WIRE_SIZE (join_bytes c @ rest) = rest"
    using length_join_bytes [OF c] by simp_all
  with decode_join_bytes [OF c] show "decode_join_prefix lib (join_bytes c @ rest) = Some (c, rest)"
    by (simp add: decode_join_prefix_def)
qed

lemma rpc_reply:
  assumes "rpc_call_with_transaction crc os peer now seconds source destination type tid data n st = (Some m, st')"
  shows "\<exists>sent rest. protocol_send_message crc (at os 1)
      \<lparr>message_header = request_header source destination type
         (case tid of None \<Rightarrow> fst (transfer_fill_transaction_id now
              (Some (case source of None \<Rightarrow> replicate NODE_ID_SIZE 0 | Some s \<Rightarrow> s)) st) | Some t \<Rightarrow> t) seconds n,
       message_payload = data\<rparr> = (PROTOCOL_OK, sent) \<and>
    peer sent = frame crc m @ rest \<and> message_wf m \<and>
    header_transaction_id (message_header m) =
      (case tid of None \<Rightarrow> fst (transfer_fill_transaction_id now
              (Some (case source of None \<Rightarrow> replicate NODE_ID_SIZE 0 | Some s \<Rightarrow> s)) st) | Some t \<Rightarrow> t) \<and>
    (\<forall>s. source = Some s \<longrightarrow> destination_node (message_header m) = s) \<and>
    (\<forall>d. destination = Some d \<longrightarrow> source_node (message_header m) = d)"
proof -
  define gen where "gen = (case tid of
       None \<Rightarrow> transfer_fill_transaction_id now (Some (case source of None \<Rightarrow> replicate NODE_ID_SIZE 0 | Some s \<Rightarrow> s)) st
     | Some t \<Rightarrow> (t, st))"
  have g: "fst gen = (case tid of None \<Rightarrow> fst (transfer_fill_transaction_id now
              (Some (case source of None \<Rightarrow> replicate NODE_ID_SIZE 0 | Some s \<Rightarrow> s)) st) | Some t \<Rightarrow> t)"
    by (simp add: gen_def split: option.split)
  from assms obtain sent rest where
    "protocol_send_message crc (at os 1)
      \<lparr>message_header = request_header source destination type (fst gen) seconds n, message_payload = data\<rparr> = (PROTOCOL_OK, sent)"
    "protocol_receive_message crc (at os 2) (peer sent) message_init = (PROTOCOL_OK, m, rest)"
    "header_transaction_id (message_header m) = fst gen"
    "\<not> ((case source of None \<Rightarrow> False | Some s \<Rightarrow> destination_node (message_header m) \<noteq> s) \<or>
        (case destination of None \<Rightarrow> False | Some d \<Rightarrow> source_node (message_header m) \<noteq> d))"
    unfolding rpc_call_with_transaction_def gen_def [symmetric]
    by (auto simp: Let_def split: if_split_asm option.split_asm prod.split_asm protocol_result.split_asm)
  with receive_sound [of crc "at os 2" "peer sent" message_init m rest] g show ?thesis
    by (intro exI [of _ sent] exI [of _ rest]) (auto split: option.splits)
qed

text \<open>Identifiers made one after the other.\<close>

fun fill_ids :: "(u64 \<times> byte list option) list \<Rightarrow> id_state \<Rightarrow> byte list list" where
  "fill_ids [] st = []"
| "fill_ids ((now, source) # rest) st =
     (let (i, st) = transfer_fill_transaction_id now source st in i # fill_ids rest st)"

definition clock_headroom :: "(u64 \<times> byte list option) list \<Rightarrow> id_state \<Rightarrow> bool" where
  "clock_headroom calls st \<longleftrightarrow>
     (\<forall>c \<in> set (transaction_clock st # map fst calls). unat c + length calls < 2 ^ 64)"

lemma fill_clock:
  assumes "unat (transaction_clock st) + 1 < 2 ^ 64"
  shows "wire_get_u64 (fst (transfer_fill_transaction_id now source st)) = transaction_clock (snd (transfer_fill_transaction_id now source st)) \<and>
    transaction_clock st < transaction_clock (snd (transfer_fill_transaction_id now source st)) \<and>
    transaction_clock (snd (transfer_fill_transaction_id now source st)) = max now (transaction_clock st + 1)"
proof -
  have "unat (transaction_clock st + 1) = unat (transaction_clock st) + 1"
    using assms by (simp add: unat_word_ariths)
  then have l: "transaction_clock st < transaction_clock st + 1" by (simp add: word_less_nat_alt)
  then show ?thesis
    by (auto simp: transfer_fill_transaction_id_def Let_def max_def not_le intro: order.antisym less_imp_le
        dest: inc_le)
qed

lemma headroom_step:
  assumes "clock_headroom ((now, source) # calls) st"
  shows "clock_headroom calls (snd (transfer_fill_transaction_id now source st))" "unat (transaction_clock st) + 1 < 2 ^ 64"
proof -
  have all: "unat c + Suc (length calls) < 2 ^ 64" if "c \<in> set (transaction_clock st # now # map fst calls)" for c
    using assms that by (auto simp: clock_headroom_def)
  show c: "unat (transaction_clock st) + 1 < 2 ^ 64" using all [of "transaction_clock st"] by simp
  then have "unat (transaction_clock st + 1) = unat (transaction_clock st) + 1" by (simp add: unat_word_ariths)
  then have "unat (max now (transaction_clock st + 1)) + length calls < 2 ^ 64"
    using all [of now] all [of "transaction_clock st"] by (auto simp: max_def)
  moreover have "unat c + length calls < 2 ^ 64" if "c \<in> fst ` set calls" for c using all [of c] that by simp
  ultimately show "clock_headroom calls (snd (transfer_fill_transaction_id now source st))"
    using fill_clock [OF c, of now source] by (simp add: clock_headroom_def)
qed

lemma fill_ids_increasing:
  "clock_headroom calls st \<Longrightarrow> i \<in> set (fill_ids calls st) \<Longrightarrow> transaction_clock st < wire_get_u64 i"
proof (induction calls st rule: fill_ids.induct)
  case (2 now source rest st)
  note h = headroom_step [OF "2.prems"(1)]
  obtain j st' where j: "transfer_fill_transaction_id now source st = (j, st')" by fastforce
  have c: "wire_get_u64 j = transaction_clock st'" "transaction_clock st < transaction_clock st'" "clock_headroom rest st'"
    using fill_clock [OF h(2), of now source] h(1) j by auto
  have "i = j \<or> i \<in> set (fill_ids rest st')" using "2.prems"(2) j by simp
  with c "2.IH" [OF j [symmetric] HOL.refl] show ?case by (metis order.strict_trans)
qed simp

lemma fill_ids_distinct: "clock_headroom calls st \<Longrightarrow> distinct (fill_ids calls st)"
proof (induction calls st rule: fill_ids.induct)
  case (2 now source rest st)
  note h = headroom_step [OF "2.prems"(1)]
  obtain j st' where j: "transfer_fill_transaction_id now source st = (j, st')" by fastforce
  have "wire_get_u64 j = transaction_clock st'" "clock_headroom rest st'"
    using fill_clock [OF h(2), of now source] h(1) j by auto
  with fill_ids_increasing [of rest st' j] "2.IH" [OF j [symmetric] HOL.refl] j show ?case by auto
qed simp

section \<open>Properties\<close>

text \<open>
The 64-byte descriptor of a node reads back: a configuration in the form the program keeps
it is encoded and decoded to itself, also as the beginning of a longer buffer, and a sequence of
descriptors is recovered one after the other.
\<close>

theorem join_descriptor_roundtrip:
  assumes "list_all (canonical_config lib) cs"
  shows "(\<forall>c \<in> set cs. rpc_encode_join_payload lib c = Inr (join_bytes c) \<and> rpc_decode_join_payload lib (join_bytes c) = Inr c) \<and>
    decode_seq (decode_join_prefix lib) (length cs) (concat (map join_bytes cs) @ rest) = Some (cs, rest)"
  using join.decode_seq_enc [OF assms] encode_canonical decode_join_bytes assms by (auto simp: list_all_iff)

definition sample_config :: NodeConfig where
  "sample_config = \<lparr>ip = zero_padded 46 [127, 1, 1, 1], port = 80, uuid = replicate 16 5\<rparr>"

lemma sample_config_canonical: "canonical_config sample_lib sample_config"
proof -
  have "cstr (zero_padded 46 [127, 1, 1, 1 :: byte]) = [127, 1, 1, 1]" by (rule cstr_zero_padded) simp
  then show ?thesis
    by (simp add: canonical_config_def sample_config_def NODE_ADDRESS_SIZE_def NODE_UUID_SIZE_def normalize_ip_def sample_lib_def)
      (simp add: zero_padded_def)
qed

theorem join_descriptor_roundtrip_witness:
  "decode_seq (decode_join_prefix sample_lib) 1 (concat (map join_bytes [sample_config]) @ [7]) = Some ([sample_config], [7])"
  using join_descriptor_roundtrip [of sample_lib "[sample_config]" "[7]"] sample_config_canonical by simp

text \<open>
C35: A reply is accepted only from the node that was called: when a call succeeds, the request
was sent as one frame, and what the peer sent in answer begins with a frame with a matching checksum that repeats the transaction identifier of the request, is
addressed to the caller and comes from the node that was called.
\<close>

theorem rpc_reply_authentic:
  assumes "rpc_call_with_transaction crc os peer now seconds (Some s) (Some d) type (Some t) data n st = (Some m, st')"
  shows "\<exists>sent rest. protocol_send_message crc (at os 1)
      \<lparr>message_header = request_header (Some s) (Some d) type t seconds n, message_payload = data\<rparr> = (PROTOCOL_OK, sent) \<and>
    peer sent = frame crc m @ rest \<and> message_wf m \<and> header_transaction_id (message_header m) = t \<and>
    destination_node (message_header m) = s \<and> source_node (message_header m) = d"
  using rpc_reply [OF assms] by auto

definition sample_reply :: message where
  "sample_reply = \<lparr>message_header = request_header (Some (replicate 32 2)) (Some (replicate 32 1)) (m_type M_PONG) (replicate 16 3) 0 0,
     message_payload = None\<rparr>"

lemma sample_reply_wf: "message_wf sample_reply"
  by (simp add: message_wf_def sample_reply_def header_wf_def request_header_def message_init_def zero_header_def
      protocol_validate_header_def PROTOCOL_VERSION_def MAX_PAYLOAD_SIZE_def NODE_ID_SIZE_def TRANSACTION_ID_SIZE_def)

definition sample_request :: message where
  "sample_request = \<lparr>message_header = request_header (Some (replicate 32 1)) (Some (replicate 32 2)) (m_type M_PING) (replicate 16 3) 0 0,
     message_payload = None\<rparr>"

lemma sample_request_wf: "message_wf sample_request"
  by (simp add: message_wf_def sample_request_def header_wf_def request_header_def message_init_def zero_header_def
      protocol_validate_header_def PROTOCOL_VERSION_def MAX_PAYLOAD_SIZE_def NODE_ID_SIZE_def TRANSACTION_ID_SIZE_def)

lemma sample_call:
  "rpc_call_with_transaction sum_crc calm (\<lambda>_. frame sum_crc sample_reply) 0 0 (Some (replicate 32 1)) (Some (replicate 32 2))
      (m_type M_PING) (Some (replicate 16 3)) None 0 \<lparr>transaction_clock = 0, transaction_sequence = 0\<rparr> =
    (Some (sealed sum_crc sample_reply), \<lparr>transaction_clock = 0, transaction_sequence = 0\<rparr>)"
proof -
  have h: "destination_node (message_header (sealed sum_crc sample_reply)) = replicate 32 1"
    "source_node (message_header (sealed sum_crc sample_reply)) = replicate 32 2"
    "header_transaction_id (message_header (sealed sum_crc sample_reply)) = replicate 16 3"
    by (simp_all add: sealed_def sample_reply_def request_header_def)
  show ?thesis
    using send_calm [OF sample_request_wf, of sum_crc] receive_frame [OF sample_reply_wf, of sum_crc "[]" message_init] h
    by (simp add: rpc_call_with_transaction_def Let_def sample_request_def)
qed

theorem rpc_reply_authentic_witness:
  "\<exists>sent rest. protocol_send_message sum_crc (at calm 1) sample_request = (PROTOCOL_OK, sent) \<and>
    frame sum_crc sample_reply = frame sum_crc (sealed sum_crc sample_reply) @ rest \<and>
    message_wf (sealed sum_crc sample_reply) \<and> header_transaction_id (message_header (sealed sum_crc sample_reply)) = replicate 16 3 \<and>
    destination_node (message_header (sealed sum_crc sample_reply)) = replicate 32 1 \<and>
    source_node (message_header (sealed sum_crc sample_reply)) = replicate 32 2"
  using rpc_reply_authentic [OF sample_call] unfolding sample_request_def .

text \<open>
Transaction identifiers made by one process are all different, whatever the clock shows,
also when it stands still or runs backwards, as long as the 64-bit clock value does not overflow.
\<close>

theorem transaction_ids_unique:
  assumes "clock_headroom calls st"
  shows "distinct (fill_ids calls st)"
  by (rule fill_ids_distinct [OF assms])

theorem transaction_ids_unique_witness:
  "distinct (fill_ids [(5, None), (5, None), (3, Some [1, 2, 3, 4])] \<lparr>transaction_clock = 9, transaction_sequence = 0\<rparr>)"
  by (rule transaction_ids_unique) (simp add: clock_headroom_def)

end
