(* ===== verification/Membership.thy ===== *)
theory Membership
  imports Rpc
begin

text \<open>
  The table of members of a Super Peer (\<^verbatim>\<open>membership.c\<close>, declared in \<^verbatim>\<open>superpeer.h\<close>) and the record
  of a member on the wire and on disk (\<^verbatim>\<open>gossip.c\<close>).

  The mutex makes every operation one step. \<open>member_count\<close> is the length of the list of members.
  Times are integers: \<open>clock\<close> is what the monotonic clock shows in milliseconds, \<open>wall\<close> what
  \<open>time\<close> returns. A state of a member is a datatype, so the tests that the value is one of the four
  have a counterpart only where bytes are decoded.
\<close>

section \<open>Data\<close>

datatype SuperPeerMemberState =
    SUPERPEER_MEMBER_ALIVE | SUPERPEER_MEMBER_SUSPECT | SUPERPEER_MEMBER_FAILED | SUPERPEER_MEMBER_REMOVED

fun state_code :: "SuperPeerMemberState \<Rightarrow> byte" where
  "state_code SUPERPEER_MEMBER_ALIVE = 0"
| "state_code SUPERPEER_MEMBER_SUSPECT = 1"
| "state_code SUPERPEER_MEMBER_FAILED = 2"
| "state_code SUPERPEER_MEMBER_REMOVED = 3"

lemma state_code_inj: "state_code x = state_code y \<Longrightarrow> x = y"
  by (cases x; cases y) simp_all

text \<open>The states are compared by their number.\<close>

instantiation SuperPeerMemberState :: linorder
begin

definition less_eq_SuperPeerMemberState :: "SuperPeerMemberState \<Rightarrow> SuperPeerMemberState \<Rightarrow> bool" where
  "less_eq_SuperPeerMemberState x y \<longleftrightarrow> state_code x \<le> state_code y"

definition less_SuperPeerMemberState :: "SuperPeerMemberState \<Rightarrow> SuperPeerMemberState \<Rightarrow> bool" where
  "less_SuperPeerMemberState x y \<longleftrightarrow> state_code x < state_code y"

instance
  by standard (auto simp: less_eq_SuperPeerMemberState_def less_SuperPeerMemberState_def intro: state_code_inj)

end

lemmas state_order = less_eq_SuperPeerMemberState_def less_SuperPeerMemberState_def

record SuperPeerMember =
  member_node :: Node
  member_state :: SuperPeerMemberState
  last_seen :: int
  home :: NodeID
  reporter :: NodeID
  incarnation :: u64
  member_sequence :: u64
  member_version :: u64
  observed_ms :: int
  probe_ms :: int
  failed_probes :: nat
  local_registration :: bool

record SuperPeerConfig =
  superpeer_node :: NodeConfig
  initial_member_capacity :: nat

record SuperPeer =
  local_node :: Node
  members :: "SuperPeerMember list"
  member_capacity :: nat

datatype SuperPeerRegistrationResult = SUPERPEER_MEMBER_UPDATED | SUPERPEER_MEMBER_ADDED

definition SUPERPEER_DEFAULT_MEMBER_CAPACITY :: nat where
  "SUPERPEER_DEFAULT_MEMBER_CAPACITY = 16"

text \<open>\<open>sizeof(SuperPeerMember)\<close> on the 64-bit target.\<close>

definition MEMBER_SLOT_SIZE :: nat where
  "MEMBER_SLOT_SIZE = 232"

definition member_id :: "SuperPeerMember \<Rightarrow> NodeID" where
  "member_id m = id_of (member_node m)"

definition local_id :: "SuperPeer \<Rightarrow> NodeID" where
  "local_id t = id_of (local_node t)"

section \<open>The array of members\<close>

definition find_member_index_locked :: "SuperPeer \<Rightarrow> NodeID \<Rightarrow> nat option" where
  "find_member_index_locked t i = find_index (\<lambda>m. node_id_equal (member_id m) i) (members t)"

definition grow_members_locked :: "os \<Rightarrow> SuperPeer \<Rightarrow> errno option \<times> SuperPeer" where
  "grow_members_locked os t =
     (if 65536 \<le> length (members t) then (Some ENOSPC, t)
      else if length (members t) < member_capacity t then (None, t)
      else if member_capacity t \<noteq> 0 \<and> SIZE_MAX div 2 < member_capacity t then (Some ENOMEM, t)
      else
        let new_capacity = (if member_capacity t = 0 then SUPERPEER_DEFAULT_MEMBER_CAPACITY else member_capacity t * 2) in
        if SIZE_MAX div MEMBER_SLOT_SIZE < new_capacity then (Some ENOMEM, t)
        else if fault os \<noteq> None then (Some ENOMEM, t)
        else (None, t\<lparr>member_capacity := new_capacity\<rparr>))"

definition set_member :: "int \<Rightarrow> int \<Rightarrow> Node \<Rightarrow> SuperPeerMember" where
  "set_member wall clock n =
     \<lparr>member_node = n, member_state = SUPERPEER_MEMBER_ALIVE, last_seen = wall, home = replicate ID_SIZE 0,
      reporter = replicate ID_SIZE 0, incarnation = 0, member_sequence = 0, member_version = 0, observed_ms = clock,
      probe_ms = 0, failed_probes = 0, local_registration = True\<rparr>"

definition superpeer_config_init_with_uuid :: "lib \<Rightarrow> byte list \<Rightarrow> u16 \<Rightarrow> byte list \<Rightarrow> SuperPeerConfig result" where
  "superpeer_config_init_with_uuid lib text p u =
     (case node_config_init_with_uuid lib text p u of Inl e \<Rightarrow> Inl e
      | Inr c \<Rightarrow> Inr \<lparr>superpeer_node = c, initial_member_capacity = SUPERPEER_DEFAULT_MEMBER_CAPACITY\<rparr>)"

definition superpeer_config_init :: "lib \<Rightarrow> os \<Rightarrow> byte list \<Rightarrow> byte list \<Rightarrow> u16 \<Rightarrow> SuperPeerConfig result" where
  "superpeer_config_init lib os device text p =
     (case node_config_init lib os device text p of Inl e \<Rightarrow> Inl e
      | Inr c \<Rightarrow> Inr \<lparr>superpeer_node = c, initial_member_capacity = SUPERPEER_DEFAULT_MEMBER_CAPACITY\<rparr>)"

text \<open>The call sites are the two allocations (0, 1) and the mutex (2).\<close>

definition superpeer_create :: "lib \<Rightarrow> os \<Rightarrow> int \<Rightarrow> int \<Rightarrow> int \<Rightarrow> SuperPeerConfig \<Rightarrow> SuperPeer result" where
  "superpeer_create lib os pid wall clock c =
     (case node_config_validate lib (superpeer_node c) of Inl e \<Rightarrow> Inl e
      | Inr _ \<Rightarrow>
          (case node_init lib pid (superpeer_node c) of Inl e \<Rightarrow> Inl e
           | Inr n \<Rightarrow>
               (let initial_capacity = (if initial_member_capacity c = 0 then SUPERPEER_DEFAULT_MEMBER_CAPACITY
                      else initial_member_capacity c);
                    n = n\<lparr>role := NODE_ROLE_SUPERPEER\<rparr> in
                if SIZE_MAX div MEMBER_SLOT_SIZE < initial_capacity then Inl ENOMEM
                else case List.find (\<lambda>k. fault (at os k) \<noteq> None) [0, 1, 2] of
                    Some k \<Rightarrow> Inl (the (fault (at os k)))
                  | None \<Rightarrow> Inr \<lparr>local_node = n, members = [set_member wall clock n], member_capacity = initial_capacity\<rparr>)))"

definition superpeer_get_node :: "SuperPeer \<Rightarrow> Node" where
  "superpeer_get_node t = local_node t"

section \<open>State changes\<close>

definition membership_state_name :: "SuperPeerMemberState \<Rightarrow> string" where
  "membership_state_name s =
     (case s of SUPERPEER_MEMBER_ALIVE \<Rightarrow> ''ALIVE'' | SUPERPEER_MEMBER_SUSPECT \<Rightarrow> ''SUSPECT''
      | SUPERPEER_MEMBER_FAILED \<Rightarrow> ''FAILED'' | SUPERPEER_MEMBER_REMOVED \<Rightarrow> ''REMOVED'')"

definition transition :: "SuperPeer \<Rightarrow> SuperPeerMember \<Rightarrow> SuperPeerMemberState \<Rightarrow> SuperPeerMember" where
  "transition t m s =
     (if member_state m = s then m
      else m\<lparr>member_state := s, reporter := local_id t, member_version := member_version m + 1\<rparr>)"

text \<open>The call sites are the lock (0) and the allocation (1).\<close>

definition membership_register ::
  "lib \<Rightarrow> os \<Rightarrow> int \<Rightarrow> int \<Rightarrow> SuperPeer \<Rightarrow> Node \<Rightarrow> NodeID \<Rightarrow> u64 \<Rightarrow> int \<Rightarrow> SuperPeerRegistrationResult result \<times> SuperPeer" where
  "membership_register lib os wall clock t n h inc now =
     (if \<not> node_validate lib n then (Inl EINVAL, t)
      else case fault (at os 0) of Some e \<Rightarrow> (Inl e, t)
      | None \<Rightarrow>
          (let found = find_member_index_locked t (id_of n);
               update = (\<lambda>m. (transition t (m\<lparr>member_node := n, home := h, incarnation := inc,
                     member_sequence := (if inc = incarnation m then member_sequence m else 0)\<rparr>) SUPERPEER_MEMBER_ALIVE)
                   \<lparr>reporter := local_id t, observed_ms := now, last_seen := wall, failed_probes := 0,
                    local_registration := role n = NODE_ROLE_SUPERPEER \<or> node_id_equal h (local_id t)\<rparr>) in
           case found of
             Some k \<Rightarrow>
               (let m = members t ! k in
                if inc < incarnation m \<or> (SUPERPEER_MEMBER_FAILED \<le> member_state m \<and> inc \<le> incarnation m) then (Inl ESTALE, t)
                else (Inr SUPERPEER_MEMBER_UPDATED, t\<lparr>members := (members t)[k := update m]\<rparr>))
           | None \<Rightarrow>
               (case grow_members_locked (at os 1) t of
                  (Some e, _) \<Rightarrow> (Inl e, t)
                | (None, t) \<Rightarrow>
                    (Inr SUPERPEER_MEMBER_ADDED, t\<lparr>members := members t @ [update (set_member wall clock n)]\<rparr>))))"

definition superpeer_register_node ::
  "lib \<Rightarrow> os \<Rightarrow> int \<Rightarrow> int \<Rightarrow> SuperPeer \<Rightarrow> Node \<Rightarrow> SuperPeerRegistrationResult result \<times> SuperPeer" where
  "superpeer_register_node lib os wall clock t n = membership_register lib os wall clock t n (local_id t) 0 clock"

text \<open>The call sites are the lock (0) and the unlock (1), whose failure is reported after the change.\<close>

definition superpeer_unregister_node :: "os \<Rightarrow> SuperPeer \<Rightarrow> NodeID \<Rightarrow> errno option \<times> SuperPeer" where
  "superpeer_unregister_node os t i =
     (if node_id_equal (local_id t) i then (Some EPERM, t)
      else case fault (at os 0) of Some e \<Rightarrow> (Some e, t)
      | None \<Rightarrow>
          (case find_member_index_locked t i of None \<Rightarrow> (Some ENOENT, t)
           | Some k \<Rightarrow>
               (let m = members t ! k in
                (fault (at os 1),
                 t\<lparr>members := (members t)[k := m\<lparr>member_state := SUPERPEER_MEMBER_REMOVED, reporter := local_id t,
                    member_version := member_version m + 1\<rparr>]\<rparr>))))"

definition superpeer_find_member :: "os \<Rightarrow> SuperPeer \<Rightarrow> NodeID \<Rightarrow> SuperPeerMember result" where
  "superpeer_find_member os t i =
     (case fault (at os 0) of Some e \<Rightarrow> Inl e
      | None \<Rightarrow>
          (case find_member_index_locked t i of None \<Rightarrow> Inl ENOENT
           | Some k \<Rightarrow>
               if member_state (members t ! k) = SUPERPEER_MEMBER_REMOVED then Inl ENOENT
               else (case fault (at os 1) of Some e \<Rightarrow> Inl e | None \<Rightarrow> Inr (members t ! k))))"

definition superpeer_member_count :: "os \<Rightarrow> SuperPeer \<Rightarrow> nat" where
  "superpeer_member_count os t =
     (if fault (at os 0) \<noteq> None then 0
      else length (filter (\<lambda>m. local_registration m \<and> member_state m < SUPERPEER_MEMBER_FAILED) (members t)))"

definition superpeer_is_registered :: "os \<Rightarrow> SuperPeer \<Rightarrow> NodeID \<Rightarrow> bool" where
  "superpeer_is_registered os t i \<longleftrightarrow>
     fault (at os 0) = None \<and>
     (case find_member_index_locked t i of None \<Rightarrow> False
      | Some k \<Rightarrow> local_registration (members t ! k) \<and> member_state (members t ! k) < SUPERPEER_MEMBER_FAILED)"

definition membership_heartbeat ::
  "lib \<Rightarrow> os \<Rightarrow> int \<Rightarrow> SuperPeer \<Rightarrow> SuperPeerMember \<Rightarrow> int \<Rightarrow> errno option \<times> SuperPeer" where
  "membership_heartbeat lib os wall t incoming now =
     (if \<not> node_validate lib (member_node incoming) \<or> member_state incoming \<noteq> SUPERPEER_MEMBER_ALIVE \<or> incarnation incoming = 0
      then (Some EINVAL, t)
      else case fault (at os 0) of Some e \<Rightarrow> (Some e, t)
      | None \<Rightarrow>
          (case find_member_index_locked t (member_id incoming) of None \<Rightarrow> (Some ENOENT, t)
           | Some k \<Rightarrow>
               (let m = members t ! k in
                if role (member_node incoming) \<noteq> role (member_node m) \<or> \<not> node_id_equal (home incoming) (home m) \<or>
                   incarnation incoming < incarnation m \<or>
                   (incarnation incoming = incarnation m \<and>
                      (member_sequence incoming \<le> member_sequence m \<or> SUPERPEER_MEMBER_FAILED \<le> member_state m))
                then (Some ESTALE, t)
                else (None, t\<lparr>members := (members t)[k :=
                    (transition t (m\<lparr>incarnation := incarnation incoming, member_sequence := member_sequence incoming\<rparr>) SUPERPEER_MEMBER_ALIVE)
                    \<lparr>observed_ms := now, last_seen := wall, failed_probes := 0\<rparr>]\<rparr>))))"

definition membership_snapshot :: "os \<Rightarrow> SuperPeer \<Rightarrow> SuperPeerMember list result" where
  "membership_snapshot os t =
     (case fault (at os 0) of Some e \<Rightarrow> Inl e
      | None \<Rightarrow> (case fault (at os 1) of Some e \<Rightarrow> Inl e | None \<Rightarrow> Inr (members t)))"

section \<open>Rumours\<close>

definition newer_record :: "SuperPeerMember \<Rightarrow> SuperPeerMember \<Rightarrow> bool" where
  "newer_record incoming old \<longleftrightarrow>
     incarnation old < incarnation incoming \<or>
     (incarnation incoming = incarnation old \<and>
        (member_sequence old < member_sequence incoming \<or>
         (member_sequence incoming = member_sequence old \<and>
            (member_state old < member_state incoming \<or>
             (member_state incoming = member_state old \<and>
                (member_version old < member_version incoming \<or>
                 (member_version incoming = member_version old \<and> 0 < node_id_compare (reporter incoming) (reporter old))))))))"

definition accepts_rumour :: "SuperPeer \<Rightarrow> SuperPeerMember \<Rightarrow> SuperPeerMember \<Rightarrow> bool" where
  "accepts_rumour t old incoming \<longleftrightarrow>
     newer_record incoming old \<and>
     \<not> (member_state old = SUPERPEER_MEMBER_REMOVED \<and> incarnation incoming \<le> incarnation old) \<and>
     \<not> (role (member_node old) = NODE_ROLE_PEER \<and> node_id_equal (home old) (local_id t))"

text \<open>The change that \<open>transition\<close> makes to the old record is overwritten by the copy that follows.\<close>

definition membership_merge :: "lib \<Rightarrow> os \<Rightarrow> int \<Rightarrow> SuperPeer \<Rightarrow> SuperPeerMember \<Rightarrow> errno option \<times> SuperPeer" where
  "membership_merge lib os clock t incoming =
     (if \<not> node_validate lib (member_node incoming) then (Some EINVAL, t)
      else if node_id_equal (member_id incoming) (local_id t) then (None, t)
      else if role (member_node incoming) = NODE_ROLE_PEER \<and> \<not> node_id_equal (home incoming) (reporter incoming)
      then (Some EACCES, t)
      else case fault (at os 0) of Some e \<Rightarrow> (Some e, t)
      | None \<Rightarrow>
          (case find_member_index_locked t (member_id incoming) of
             None \<Rightarrow>
               (case grow_members_locked (at os 1) t of
                  (Some e, _) \<Rightarrow> (Some e, t)
                | (None, t) \<Rightarrow>
                    (None, t\<lparr>members := members t @ [incoming\<lparr>observed_ms := clock,
                       local_registration := role (member_node incoming) = NODE_ROLE_SUPERPEER\<rparr>]\<rparr>))
           | Some k \<Rightarrow>
               (let old = members t ! k in
                (None,
                 if accepts_rumour t old incoming
                 then t\<lparr>members := (members t)[k := incoming\<lparr>observed_ms := observed_ms old,
                   last_seen := (if incarnation incoming = incarnation old \<and>
                        (member_state old = SUPERPEER_MEMBER_ALIVE \<or> member_state incoming \<noteq> SUPERPEER_MEMBER_ALIVE)
                      then last_seen old else 0),
                   local_registration := local_registration old\<rparr>]\<rparr>
                 else t))))"

section \<open>Failure detection\<close>

definition membership_probe :: "os \<Rightarrow> SuperPeer \<Rightarrow> NodeID \<Rightarrow> u64 \<Rightarrow> u64 \<Rightarrow> int \<Rightarrow> bool \<Rightarrow> errno option \<times> SuperPeer" where
  "membership_probe os t i inc sequence now success =
     (case fault (at os 0) of Some e \<Rightarrow> (Some e, t)
      | None \<Rightarrow>
          (case find_member_index_locked t i of None \<Rightarrow> (None, t)
           | Some k \<Rightarrow>
               (let m = members t ! k in
                if incarnation m = inc \<and> member_sequence m = sequence \<and> member_state m = SUPERPEER_MEMBER_SUSPECT \<and>
                   1000 \<le> now - probe_ms m
                then (None, t\<lparr>members := (members t)[k := m\<lparr>probe_ms := now,
                    failed_probes := (if success then 0 else if failed_probes m < 2 then failed_probes m + 1 else failed_probes m)\<rparr>]\<rparr>)
                else (None, t))))"

definition tick_member :: "SuperPeer \<Rightarrow> int \<Rightarrow> nat \<Rightarrow> nat \<Rightarrow> nat \<Rightarrow> SuperPeerMember \<Rightarrow> SuperPeerMember" where
  "tick_member t now suspect_ms failed_ms removed_ms m =
     (if node_id_equal (member_id m) (local_id t) \<or> \<not> local_registration m then m
      else
        let age = now - observed_ms m;
            m = (if member_state m = SUPERPEER_MEMBER_ALIVE \<and> int suspect_ms \<le> age then transition t m SUPERPEER_MEMBER_SUSPECT else m);
            m = (if member_state m = SUPERPEER_MEMBER_SUSPECT \<and> int failed_ms \<le> age \<and> 2 \<le> failed_probes m
                 then transition t m SUPERPEER_MEMBER_FAILED else m) in
        if member_state m = SUPERPEER_MEMBER_FAILED \<and> int removed_ms \<le> age then transition t m SUPERPEER_MEMBER_REMOVED else m)"

definition membership_tick :: "os \<Rightarrow> SuperPeer \<Rightarrow> int \<Rightarrow> nat \<Rightarrow> nat \<Rightarrow> nat \<Rightarrow> errno option \<times> SuperPeer" where
  "membership_tick os t now suspect_ms failed_ms removed_ms =
     (if suspect_ms = 0 \<or> failed_ms \<le> suspect_ms \<or> removed_ms \<le> failed_ms then (Some EINVAL, t)
      else case fault (at os 0) of Some e \<Rightarrow> (Some e, t)
      | None \<Rightarrow> (None, t\<lparr>members := map (tick_member t now suspect_ms failed_ms removed_ms) (members t)\<rparr>))"

definition membership_local :: "os \<Rightarrow> SuperPeer \<Rightarrow> Node \<Rightarrow> u64 \<Rightarrow> u64 \<Rightarrow> errno option \<times> SuperPeer" where
  "membership_local os t n inc sequence =
     (if \<not> node_id_equal (local_id t) (id_of n) then (Some EINVAL, t)
      else case fault (at os 0) of Some e \<Rightarrow> (Some e, t)
      | None \<Rightarrow>
          (None, t\<lparr>local_node := n,
             members := (members t)[0 := (members t ! 0)\<lparr>member_node := n, home := id_of n, reporter := id_of n,
               incarnation := inc, member_sequence := sequence, member_state := SUPERPEER_MEMBER_ALIVE\<rparr>]\<rparr>))"

section \<open>Records on the wire\<close>

definition MEMBERSHIP_WIRE_SIZE :: nat where
  "MEMBERSHIP_WIRE_SIZE = 186"

fun role_code :: "NodeRole \<Rightarrow> byte" where
  "role_code NODE_ROLE_PEER = 0"
| "role_code NODE_ROLE_SUPERPEER = 1"

definition record_of_member :: "SuperPeerMember \<Rightarrow> byte list" where
  "record_of_member m =
     member_id m @ ip (config (member_node m)) @ wire_put_u16 (port (config (member_node m))) @ uuid (config (member_node m)) @
     [role_code (role (member_node m))] @ home m @ wire_put_u64 (incarnation m) @ wire_put_u64 (member_sequence m) @
     wire_put_u64 (member_version m) @ [state_code (member_state m)] @ reporter m"

definition gossip_encode_record :: "lib \<Rightarrow> SuperPeerMember \<Rightarrow> byte list result" where
  "gossip_encode_record lib m = (if node_validate lib (member_node m) then Inr (record_of_member m) else Inl EINVAL)"

definition state_of_code :: "byte \<Rightarrow> SuperPeerMemberState" where
  "state_of_code b =
     (if b = 0 then SUPERPEER_MEMBER_ALIVE else if b = 1 then SUPERPEER_MEMBER_SUSPECT
      else if b = 2 then SUPERPEER_MEMBER_FAILED else SUPERPEER_MEMBER_REMOVED)"

definition gossip_decode_record :: "lib \<Rightarrow> int \<Rightarrow> byte list \<Rightarrow> SuperPeerMember result" where
  "gossip_decode_record lib pid input =
     (let text = take NODE_ADDRESS_SIZE (drop 32 input) in
      if 0 \<notin> set text \<or> 1 < input ! 96 \<or> 3 < input ! 153 then Inl EBADMSG
      else if list_ex (\<lambda>b. b \<noteq> 0) (dropWhile (\<lambda>b. b \<noteq> 0) text) then Inl EBADMSG
      else case node_config_init_with_uuid lib text (wire_get_u16 (drop 78 input)) (drop 80 input) of
        Inl _ \<Rightarrow> Inl EBADMSG
      | Inr c \<Rightarrow>
          (case node_init lib pid c of
             Inl _ \<Rightarrow> Inl EBADMSG
           | Inr n \<Rightarrow>
               if id_of n \<noteq> take 32 input then Inl EBADMSG
               else Inr \<lparr>member_node = n\<lparr>role := (if input ! 96 = 0 then NODE_ROLE_PEER else NODE_ROLE_SUPERPEER)\<rparr>,
                 member_state = state_of_code (input ! 153), last_seen = 0, home = take 32 (drop 97 input),
                 reporter = take 32 (drop 154 input), incarnation = wire_get_u64 (drop 129 input),
                 member_sequence = wire_get_u64 (drop 137 input), member_version = wire_get_u64 (drop 145 input),
                 observed_ms = 0, probe_ms = 0, failed_probes = 0, local_registration = False\<rparr>))"

section \<open>The ledger on disk\<close>

text \<open>\<open>exact_file\<close> in its two directions: a read returns what it read and what is left.\<close>

fun exact_write :: "answer list \<Rightarrow> byte list \<Rightarrow> errno option \<times> byte list" where
  "exact_write as [] = (None, [])"
| "exact_write [] data = (None, data)"
| "exact_write (Ret n # as) data =
     (if n = 0 then (Some EBADMSG, [])
      else let (r, written) = exact_write as (drop n data) in (r, take n data @ written))"
| "exact_write (Err e # as) data = (if e = EINTR then exact_write as data else (Some e, []))"

fun exact_read :: "answer list \<Rightarrow> nat \<Rightarrow> byte list \<Rightarrow> (byte list \<times> byte list) result" where
  "exact_read as 0 rest = Inr ([], rest)"
| "exact_read [] (Suc k) rest = (if length rest < Suc k then Inl EBADMSG else Inr (take (Suc k) rest, drop (Suc k) rest))"
| "exact_read (Ret n # as) (Suc k) rest =
     (let amount = min n (min (Suc k) (length rest)) in
      if amount = 0 then Inl EBADMSG
      else case exact_read as (Suc k - amount) (drop amount rest) of
             Inl e \<Rightarrow> Inl e
           | Inr (got, rest') \<Rightarrow> Inr (take amount rest @ got, rest'))"
| "exact_read (Err e # as) (Suc k) rest = (if e = EINTR then exact_read as (Suc k) rest else Inl e)"

definition ledger_header :: "nat \<Rightarrow> byte list" where
  "ledger_header count = [80, 68, 77, 69, 77, 66, 49, 0] @ wire_put_u32 (of_nat count)"

text \<open>The loop over the records; record \<open>k\<close> is written at call site \<open>k\<close> of the environment.\<close>

fun save_records :: "lib \<Rightarrow> os \<Rightarrow> nat \<Rightarrow> SuperPeerMember list \<Rightarrow> errno option \<times> byte list" where
  "save_records lib os k [] = (None, [])"
| "save_records lib os k (m # ms) =
     (case gossip_encode_record lib m of Inl e \<Rightarrow> (Some e, [])
      | Inr r \<Rightarrow>
          (case exact_write (at os k []) r of
             (Some e, w) \<Rightarrow> (Some e, w)
           | (None, w) \<Rightarrow> (let (r2, ws) = save_records lib os (Suc k) ms in (r2, w @ ws))))"

text \<open>
  The file at \<open>path\<close> is an option of its contents; \<open>path_length\<close> is the length of the path and
  \<open>PATH_MAX\<close> 4096. The call sites are the snapshot (0), \<open>open\<close> (1), the header (2), the records (3), \<open>fsync\<close> (4),
  \<open>close\<close> (5), \<open>rename\<close> (6), and \<open>open\<close> and \<open>fsync\<close> of the directory (7, 8). The file is written
  under another name and replaces the old one only when all of it is on disk.
\<close>

definition PATH_MAX :: nat where
  "PATH_MAX = 4096"

definition membership_save :: "lib \<Rightarrow> os \<Rightarrow> SuperPeer \<Rightarrow> nat \<Rightarrow> byte list option \<Rightarrow> errno option \<times> byte list option" where
  "membership_save lib os t path_length file =
     (case membership_snapshot (at os 0) t of Inl e \<Rightarrow> (Some e, file)
      | Inr ms \<Rightarrow>
          if 65536 < length ms \<or> PATH_MAX \<le> path_length + 4 then (Some EOVERFLOW, file)
          else case fault (at os 1) of Some e \<Rightarrow> (Some e, file)
          | None \<Rightarrow>
              (let (r1, w1) = exact_write (at os 2 []) (ledger_header (length ms));
                   (r2, w2) = (if r1 = None then save_records lib (at os 3) 0 ms else (r1, []));
                   r3 = (if r2 = None then fault (at os 4) else r2);
                   r4 = (if r3 = None then fault (at os 5) else r3);
                   r5 = (if r4 = None then fault (at os 6) else r4) in
               case r5 of Some e \<Rightarrow> (Some e, file)
               | None \<Rightarrow>
                   (case fault (at os 7) of Some e \<Rightarrow> (Some e, Some (w1 @ w2))
                    | None \<Rightarrow> (fault (at os 8), Some (w1 @ w2)))))"

fun load_records :: "lib \<Rightarrow> os \<Rightarrow> int \<Rightarrow> nat \<Rightarrow> nat \<Rightarrow> byte list \<Rightarrow> (SuperPeerMember list \<times> byte list) result" where
  "load_records lib os pid k 0 rest = Inr ([], rest)"
| "load_records lib os pid k (Suc n) rest =
     (case exact_read (at os k []) MEMBERSHIP_WIRE_SIZE rest of Inl e \<Rightarrow> Inl e
      | Inr (r, rest) \<Rightarrow>
          (case gossip_decode_record lib pid r of Inl e \<Rightarrow> Inl e
           | Inr m \<Rightarrow>
               (case load_records lib os pid (Suc k) n rest of Inl e \<Rightarrow> Inl e
                | Inr (ms, rest) \<Rightarrow> Inr (m # ms, rest))))"

text \<open>Entering the loaded members: on failure those before stay.\<close>

fun enter_members :: "os \<Rightarrow> int \<Rightarrow> nat \<Rightarrow> SuperPeerMember list \<Rightarrow> SuperPeer \<Rightarrow> errno option \<times> SuperPeer" where
  "enter_members os clock k [] t = (None, t)"
| "enter_members os clock k (m # ms) t =
     (if node_id_equal (member_id m) (local_id t) then enter_members os clock (Suc k) ms t
      else case grow_members_locked (at os k) t of
        (Some e, t) \<Rightarrow> (Some e, t)
      | (None, t) \<Rightarrow>
          enter_members os clock (Suc k) ms (t\<lparr>members := members t @ [m\<lparr>local_registration :=
             role (member_node m) = NODE_ROLE_SUPERPEER \<or> node_id_equal (home m) (local_id t), observed_ms := clock\<rparr>]\<rparr>))"

text \<open>The call sites are \<open>open\<close> (0), the header (1), the allocation (2), the records (3),
  the read past the last (4) and the entering (5).\<close>

definition membership_load :: "lib \<Rightarrow> os \<Rightarrow> int \<Rightarrow> int \<Rightarrow> SuperPeer \<Rightarrow> byte list option \<Rightarrow> errno option \<times> SuperPeer" where
  "membership_load lib os pid clock t file =
     (case file of None \<Rightarrow> (None, t)
      | Some bytes \<Rightarrow>
          (case fault (at os 0) of Some e \<Rightarrow> (if e = ENOENT then None else Some e, t)
           | None \<Rightarrow>
               (case exact_read (at os 1 []) 12 bytes of Inl _ \<Rightarrow> (Some EBADMSG, t)
                | Inr (header, rest) \<Rightarrow>
                    (let count = unat (wire_get_u32 (drop 8 header)) in
                     if take 8 header \<noteq> [80, 68, 77, 69, 77, 66, 49, 0] \<or> 65536 < count then (Some EBADMSG, t)
                     else case fault (at os 2) of Some e \<Rightarrow> (Some e, t)
                     | None \<Rightarrow>
                         (case load_records lib (at os 3) pid 0 count rest of Inl e \<Rightarrow> (Some e, t)
                          | Inr (ms, rest) \<Rightarrow>
                              if rest \<noteq> [] \<or> fault (at os 4) \<noteq> None then (Some EBADMSG, t)
                              else enter_members (at os 5) clock 0 ms t)))))"

section \<open>What one operation may do to the table\<close>

text \<open>A record of another node never goes back to an earlier incarnation, and a removed one returns only with a later one.\<close>

definition evolves :: "SuperPeerMember \<Rightarrow> SuperPeerMember \<Rightarrow> bool" where
  "evolves m m' \<longleftrightarrow> member_id m' = member_id m \<and> incarnation m \<le> incarnation m' \<and>
     (member_state m = SUPERPEER_MEMBER_REMOVED \<longrightarrow> incarnation m' = incarnation m \<longrightarrow> member_state m' = SUPERPEER_MEMBER_REMOVED)"

definition record_change :: "SuperPeer \<Rightarrow> SuperPeerMember \<Rightarrow> SuperPeerMember \<Rightarrow> bool" where
  "record_change t m m' \<longleftrightarrow>
     (if member_id m = local_id t then member_id m' = member_id m \<and>
        (member_state m = SUPERPEER_MEMBER_ALIVE \<longrightarrow> member_state m' = SUPERPEER_MEMBER_ALIVE)
      else evolves m m')"

definition table_change :: "SuperPeer \<Rightarrow> SuperPeer \<Rightarrow> bool" where
  "table_change t t' \<longleftrightarrow> local_id t' = local_id t \<and>
     (member_capacity t' = member_capacity t \<and> list_all2 (record_change t) (members t) (members t') \<or>
      (\<exists>m. members t' = members t @ [m] \<and> length (member_id m) = ID_SIZE \<and> member_id m \<notin> member_id ` set (members t) \<and>
         length (members t) < 65536 \<and> length (members t) < member_capacity t'))"

definition table_inv :: "SuperPeer \<Rightarrow> bool" where
  "table_inv t \<longleftrightarrow> members t \<noteq> [] \<and> member_id (members t ! 0) = local_id t \<and>
     member_state (members t ! 0) = SUPERPEER_MEMBER_ALIVE \<and> distinct (map member_id (members t)) \<and>
     (\<forall>m \<in> set (members t). length (member_id m) = ID_SIZE) \<and>
     length (members t) \<le> 65536 \<and> length (members t) \<le> member_capacity t"

lemma evolves_refl [simp]: "evolves m m"
  by (simp add: evolves_def)

lemma evolves_trans: "evolves a b \<Longrightarrow> evolves b c \<Longrightarrow> evolves a c"
  by (auto simp: evolves_def)

lemma record_change_refl [simp]: "record_change t m m"
  by (simp add: record_change_def)

lemma record_change_id: "record_change t m m' \<Longrightarrow> member_id m' = member_id m"
  by (auto simp: record_change_def evolves_def split: if_splits)

lemma change_refl [simp]: "table_change t t"
  by (simp add: table_change_def list.rel_refl)

lemma change_update:
  assumes "record_change t (members t ! k) m"
  shows "table_change t (t\<lparr>members := (members t)[k := m]\<rparr>)"
proof -
  have "record_change t (members t ! i) ((members t)[k := m] ! i)" if "i < length (members t)" for i
    using assms that by (cases "i = k") auto
  then show ?thesis by (simp add: table_change_def local_id_def list_all2_conv_all_nth)
qed

lemma change_map:
  "(\<And>m. record_change t m (f m)) \<Longrightarrow> table_change t (t\<lparr>members := map f (members t)\<rparr>)"
  by (auto simp: table_change_def local_id_def list_all2_conv_all_nth)

lemma grow_Some: "grow_members_locked os t = (Some e, t') \<Longrightarrow> t' = t"
  by (auto simp: grow_members_locked_def Let_def split: if_splits)

lemma grow_None:
  assumes "grow_members_locked os t = (None, t')" "length (members t) \<le> member_capacity t"
  shows "members t' = members t" "local_node t' = local_node t" "length (members t) < 65536" "length (members t) < member_capacity t'"
  using assms by (auto simp: grow_members_locked_def SUPERPEER_DEFAULT_MEMBER_CAPACITY_def Let_def split: if_splits)

lemma inv_capacity: "table_inv t \<Longrightarrow> length (members t) \<le> member_capacity t"
  by (simp add: table_inv_def)

lemma change_append:
  assumes "table_inv t" "grow_members_locked os t = (None, t1)" "find_member_index_locked t (member_id m) = None"
    "length (member_id m) = ID_SIZE"
  shows "table_change t (t1\<lparr>members := members t1 @ [m]\<rparr>)"
proof -
  note g = grow_None [OF assms(2) inv_capacity [OF assms(1)]]
  have "member_id m \<notin> member_id ` set (members t)"
    using assms(3) by (auto simp: find_member_index_locked_def find_index_None)
  then show ?thesis unfolding table_change_def using g assms(4) by (auto simp: local_id_def)
qed

section \<open>The invariant\<close>

lemma change_inv:
  assumes "table_inv t" "table_change t t'"
  shows "table_inv t'"
proof -
  have l: "local_id t' = local_id t" using assms(2) by (simp add: table_change_def)
  from assms(2) consider (upd) "member_capacity t' = member_capacity t" "list_all2 (record_change t) (members t) (members t')"
    | (app) m where "members t' = members t @ [m]" "length (member_id m) = ID_SIZE" "member_id m \<notin> member_id ` set (members t)"
        "length (members t) < 65536" "length (members t) < member_capacity t'"
    by (auto simp: table_change_def)
  then show ?thesis
  proof cases
    case upd
    have len: "length (members t') = length (members t)" using list_all2_lengthD [OF upd(2)] by simp
    have ids: "map member_id (members t') = map member_id (members t)"
      using upd(2) len record_change_id list_all2_nthD by (intro nth_equalityI) fastforce+
    have ne: "0 < length (members t)" using assms(1) by (simp add: table_inv_def)
    have r0: "record_change t (members t ! 0) (members t' ! 0)" by (rule list_all2_nthD [OF upd(2) ne])
    have "\<forall>x \<in> set (map member_id (members t')). length x = ID_SIZE" unfolding ids using assms(1) by (simp add: table_inv_def)
    then have "\<forall>m \<in> set (members t'). length (member_id m) = ID_SIZE" by simp
    with r0 ids len l upd(1) assms(1) show ?thesis by (auto simp: table_inv_def record_change_def)
  next
    case app
    with assms(1) l show ?thesis by (auto simp: table_inv_def nth_append)
  qed
qed

text \<open>The record of a node.\<close>

definition member_of :: "SuperPeer \<Rightarrow> NodeID \<Rightarrow> SuperPeerMember option" where
  "member_of t i = map_option (\<lambda>k. members t ! k) (find_member_index_locked t i)"

lemma find_member_Some:
  assumes "table_inv t" "length i = ID_SIZE" "find_member_index_locked t i = Some k"
  shows "k < length (members t)" "member_id (members t ! k) = i"
proof -
  note f = find_index_Some [OF assms(3) [unfolded find_member_index_locked_def]]
  show "k < length (members t)" using f by simp
  then have "length (member_id (members t ! k)) = ID_SIZE" using assms(1) by (simp add: table_inv_def)
  with f assms(2) show "member_id (members t ! k) = i" by simp
qed

lemma member_of_iff:
  assumes "table_inv t" "length i = ID_SIZE"
  shows "member_of t i = Some m \<longleftrightarrow> m \<in> set (members t) \<and> member_id m = i"
proof
  show "m \<in> set (members t) \<and> member_id m = i" if "member_of t i = Some m"
    using that find_member_Some [OF assms] by (auto simp: member_of_def)
  assume m: "m \<in> set (members t) \<and> member_id m = i"
  then obtain k where k: "k < length (members t)" "members t ! k = m" by (auto simp: in_set_conv_nth)
  have d: "distinct (map member_id (members t))" "\<forall>m \<in> set (members t). length (member_id m) = ID_SIZE"
    using assms(1) by (simp_all add: table_inv_def)
  have "find_member_index_locked t i = Some k" unfolding find_member_index_locked_def
    using k m d assms(2) distinct_map_nth [of member_id "members t"] by (intro find_index_unique) (auto dest: nth_mem)
  with k show "member_of t i = Some m" by (simp add: member_of_def)
qed

lemma change_evolves:
  assumes "table_inv t" "table_change t t'" "length i = ID_SIZE" "i \<noteq> local_id t" "member_of t i = Some m"
  shows "\<exists>m'. member_of t' i = Some m' \<and> evolves m m'"
proof -
  have inv': "table_inv t'" by (rule change_inv [OF assms(1,2)])
  have m: "m \<in> set (members t)" "member_id m = i" using assms(5) member_of_iff [OF assms(1,3)] by auto
  then obtain k where k: "k < length (members t)" "members t ! k = m" by (auto simp: in_set_conv_nth)
  show ?thesis
  proof (cases "list_all2 (record_change t) (members t) (members t')")
    case True
    then have "record_change t m (members t' ! k)" "k < length (members t')"
      using k list_all2_nthD [OF True k(1)] list_all2_lengthD [OF True] by auto
    with m assms(4) have "evolves m (members t' ! k)" "members t' ! k \<in> set (members t')" by (auto simp: record_change_def)
    with m show ?thesis using member_of_iff [OF inv' assms(3)] by (auto simp: evolves_def)
  next
    case False
    then have "set (members t) \<subseteq> set (members t')" using assms(2) by (auto simp: table_change_def)
    with m show ?thesis using member_of_iff [OF inv' assms(3)] by (intro exI [of _ m]) auto
  qed
qed

section \<open>Steps\<close>

text \<open>
  A run of the table: any operation, in any environment, with any arguments of the right sizes. The
  ledger is read once, before the table is used, and is treated apart.
\<close>

inductive membership_step :: "lib \<Rightarrow> SuperPeer \<Rightarrow> SuperPeer \<Rightarrow> bool" for lib where
  step_register: "length (id_of n) = ID_SIZE \<Longrightarrow> membership_step lib t (snd (membership_register lib os wall clock t n h inc now))"
| step_unregister: "length i = ID_SIZE \<Longrightarrow> membership_step lib t (snd (superpeer_unregister_node os t i))"
| step_heartbeat: "length (member_id m) = ID_SIZE \<Longrightarrow> membership_step lib t (snd (membership_heartbeat lib os wall t m now))"
| step_merge: "length (member_id m) = ID_SIZE \<Longrightarrow> membership_step lib t (snd (membership_merge lib os clock t m))"
| step_probe: "length i = ID_SIZE \<Longrightarrow> membership_step lib t (snd (membership_probe os t i inc sq now ok))"
| step_tick: "membership_step lib t (snd (membership_tick os t now s f r))"
| step_local: "length (id_of n) = ID_SIZE \<Longrightarrow> membership_step lib t (snd (membership_local os t n inc sq))"

lemma transition_fields [simp]:
  "member_node (transition t m s) = member_node m" "member_id (transition t m s) = member_id m"
  "incarnation (transition t m s) = incarnation m" "member_state (transition t m s) = s"
  "member_sequence (transition t m s) = member_sequence m" "observed_ms (transition t m s) = observed_ms m"
  "failed_probes (transition t m s) = failed_probes m" "probe_ms (transition t m s) = probe_ms m"
  "home (transition t m s) = home m" "local_registration (transition t m s) = local_registration m"
  by (simp_all add: transition_def member_id_def)

lemma member_id_node: "member_id m = id_of (member_node m)"
  by (simp add: member_id_def)

lemma removed_greatest: "SUPERPEER_MEMBER_FAILED \<le> SUPERPEER_MEMBER_REMOVED"
  by (simp add: state_order)

lemma register_change:
  assumes "table_inv t" "length (id_of n) = ID_SIZE"
  shows "table_change t (snd (membership_register lib os wall clock t n h inc now))"
proof (cases "find_member_index_locked t (id_of n)")
  case None
  have "table_change t (t1\<lparr>members := members t1 @ [m]\<rparr>)"
    if "grow_members_locked (at os 1) t = (None, t1)" "member_id m = id_of n" for t1 m
    using change_append [OF assms(1) that(1), of m] None that(2) assms(2) by simp
  then show ?thesis
    using None by (auto simp: membership_register_def Let_def member_id_node set_member_def split: option.split prod.split)
next
  case (Some k)
  note k = find_member_Some [OF assms Some]
  have "record_change t (members t ! k) m"
    if "member_id m = id_of n" "incarnation m = inc" "member_state m = SUPERPEER_MEMBER_ALIVE"
      "\<not> (inc < incarnation (members t ! k) \<or>
         (SUPERPEER_MEMBER_FAILED \<le> member_state (members t ! k) \<and> inc \<le> incarnation (members t ! k)))" for m
    using that k removed_greatest by (auto simp: record_change_def evolves_def not_less)
  then show ?thesis
    using Some by (auto simp: membership_register_def Let_def member_id_node not_less not_le intro!: change_update split: option.split)
qed

lemma unregister_change:
  assumes "table_inv t" "length i = ID_SIZE"
  shows "table_change t (snd (superpeer_unregister_node os t i))"
proof (cases "find_member_index_locked t i")
  case (Some k)
  note k = find_member_Some [OF assms Some]
  have "member_id (members t ! k) \<noteq> local_id t" if "\<not> node_id_equal (local_id t) i" using that k by auto
  then show ?thesis
    using Some by (auto simp: superpeer_unregister_node_def Let_def record_change_def evolves_def member_id_node
        intro!: change_update split: option.split)
qed (auto simp: superpeer_unregister_node_def split: option.split)

lemma heartbeat_change:
  assumes "table_inv t" "length (member_id m) = ID_SIZE"
  shows "table_change t (snd (membership_heartbeat lib os wall t m now))"
proof (cases "find_member_index_locked t (member_id m)")
  case (Some k)
  note k = find_member_Some [OF assms Some]
  have "record_change t (members t ! k) m'"
    if "member_id m' = member_id (members t ! k)" "incarnation m' = incarnation m" "member_state m' = SUPERPEER_MEMBER_ALIVE"
      "incarnation (members t ! k) \<le> incarnation m"
      "incarnation m = incarnation (members t ! k) \<Longrightarrow> \<not> SUPERPEER_MEMBER_FAILED \<le> member_state (members t ! k)" for m'
    using that removed_greatest by (auto simp: record_change_def evolves_def)
  then show ?thesis
    using Some by (auto simp: membership_heartbeat_def Let_def member_id_node not_less intro!: change_update split: option.split)
qed (auto simp: membership_heartbeat_def split: option.split)

lemma merge_change:
  assumes "table_inv t" "length (member_id m) = ID_SIZE"
  shows "table_change t (snd (membership_merge lib os clock t m))"
proof (cases "find_member_index_locked t (member_id m)")
  case None
  have "table_change t (t1\<lparr>members := members t1 @ [m']\<rparr>)"
    if "grow_members_locked (at os 1) t = (None, t1)" "member_id m' = member_id m" for t1 m'
    using change_append [OF assms(1) that(1), of m'] None that(2) assms(2) by simp
  then show ?thesis
    using None by (auto simp: membership_merge_def member_id_node split: option.split prod.split)
next
  case (Some k)
  note k = find_member_Some [OF assms Some]
  have "record_change t (members t ! k) m'"
    if "member_id m' = member_id m" "incarnation m' = incarnation m" "member_state m' = member_state m"
      "accepts_rumour t (members t ! k) m" "\<not> node_id_equal (member_id m) (local_id t)" for m'
    using that k(2) by (auto simp: record_change_def evolves_def accepts_rumour_def newer_record_def)
  then show ?thesis
    using Some by (auto simp: membership_merge_def Let_def member_id_node intro!: change_update split: option.split)
qed

lemma probe_change:
  assumes "table_inv t" "length i = ID_SIZE"
  shows "table_change t (snd (membership_probe os t i inc sq now ok))"
proof (cases "find_member_index_locked t i")
  case (Some k)
  have "record_change t m (m\<lparr>probe_ms := p, failed_probes := f\<rparr>)" "record_change t m (m\<lparr>probe_ms := p\<rparr>)" for m p f
    by (simp_all add: record_change_def evolves_def member_id_node)
  with Some show ?thesis by (auto simp: membership_probe_def Let_def intro!: change_update split: option.split)
qed (auto simp: membership_probe_def split: option.split)

lemma tick_member_fields:
  "member_id (tick_member t now s f r m) = member_id m" "incarnation (tick_member t now s f r m) = incarnation m"
  by (auto simp: tick_member_def Let_def)

lemma tick_change: "table_change t (snd (membership_tick os t now s f r))"
proof -
  have "record_change t m (tick_member t now s f r m)" for m
  proof -
    have "member_id m = local_id t \<Longrightarrow> tick_member t now s f r m = m" by (simp add: tick_member_def)
    moreover have "member_state m = SUPERPEER_MEMBER_REMOVED \<Longrightarrow> member_state (tick_member t now s f r m) = SUPERPEER_MEMBER_REMOVED"
      by (auto simp: tick_member_def Let_def)
    ultimately show ?thesis by (auto simp: record_change_def evolves_def tick_member_fields)
  qed
  then show ?thesis by (auto simp: membership_tick_def intro: change_map split: option.split)
qed

lemma local_id_length:
  assumes "table_inv t"
  shows "length (local_id t) = ID_SIZE"
proof -
  have "members t ! 0 \<in> set (members t)" using assms by (intro nth_mem) (simp add: table_inv_def)
  moreover have "\<forall>m \<in> set (members t). length (member_id m) = ID_SIZE" "member_id (members t ! 0) = local_id t"
    using assms by (simp_all add: table_inv_def)
  ultimately show ?thesis by force
qed

lemma local_change:
  assumes "table_inv t" "length (id_of n) = ID_SIZE"
  shows "table_change t (snd (membership_local os t n inc sq))"
proof -
  have l: "length (local_id t) = ID_SIZE" "member_id (members t ! 0) = local_id t"
    by (rule local_id_length [OF assms(1)], use assms(1) in \<open>simp add: table_inv_def\<close>)
  have "table_change t (t\<lparr>local_node := n, members := (members t)[0 := m]\<rparr>)"
    if "id_of n = local_id t" "record_change t (members t ! 0) m" for m
    using change_update [OF that(2)] that(1) by (simp add: table_change_def local_id_def)
  then show ?thesis
    using l assms(2) by (auto simp: membership_local_def record_change_def member_id_node split: option.split)
qed

lemmas operation_changes = register_change unregister_change heartbeat_change merge_change probe_change tick_change local_change

lemma step_change: "membership_step lib t t' \<Longrightarrow> table_inv t \<Longrightarrow> table_change t t'"
  by (induction rule: membership_step.induct) (rule operation_changes; assumption)+

lemma steps_inv: "(membership_step lib)\<^sup>*\<^sup>* t t' \<Longrightarrow> table_inv t \<Longrightarrow> table_inv t' \<and> local_id t' = local_id t"
  by (induction rule: rtranclp_induct) (auto dest: step_change change_inv simp: table_change_def)

lemma steps_evolve:
  assumes "(membership_step lib)\<^sup>*\<^sup>* t t'" "table_inv t" "length i = ID_SIZE" "i \<noteq> local_id t" "member_of t i = Some m"
  shows "\<exists>m'. member_of t' i = Some m' \<and> evolves m m'"
  using assms(1)
proof (induction rule: rtranclp_induct)
  case (step t1 t2)
  then obtain m1 where m1: "member_of t1 i = Some m1" "evolves m m1" by blast
  have "table_inv t1" "local_id t1 = local_id t" using steps_inv [OF step.hyps(1) assms(2)] by auto
  then have "\<exists>m'. member_of t2 i = Some m' \<and> evolves m1 m'"
    using change_evolves [OF _ step_change [OF step.hyps(2)] assms(3) _ m1(1)] assms(4) by simp
  with m1(2) show ?case using evolves_trans by blast
qed (use assms(5) in auto)

lemma created_table_inv:
  assumes "superpeer_create lib os pid wall clock c = Inr t" "\<And>x d. sha256 lib x = Some d \<Longrightarrow> length d = ID_SIZE"
  shows "table_inv t"
proof -
  obtain n where n: "node_init lib pid (superpeer_node c) = Inr n"
    and t: "members t = [set_member wall clock (n\<lparr>role := NODE_ROLE_SUPERPEER\<rparr>)]" "local_node t = n\<lparr>role := NODE_ROLE_SUPERPEER\<rparr>"
      "1 \<le> member_capacity t"
    using assms(1) by (auto simp: superpeer_create_def Let_def SUPERPEER_DEFAULT_MEMBER_CAPACITY_def Suc_le_eq
        split: sum.splits if_splits option.splits)
  have "length (id_of n) = ID_SIZE"
    using n assms(2) by (auto simp: node_init_def node_compute_id_def split: sum.splits option.splits)
  with t show ?thesis by (simp add: table_inv_def set_member_def member_id_def local_id_def)
qed

section \<open>Failure detection\<close>

text \<open>What a tick makes of a record that it looks at: the strongest verdict that age and probes allow, one level after the other.\<close>

definition verdict :: "int \<Rightarrow> nat \<Rightarrow> nat \<Rightarrow> nat \<Rightarrow> nat \<Rightarrow> SuperPeerMemberState \<Rightarrow> SuperPeerMemberState" where
  "verdict age s f r probes st =
     (if st = SUPERPEER_MEMBER_REMOVED then SUPERPEER_MEMBER_REMOVED
      else if st = SUPERPEER_MEMBER_FAILED then (if int r \<le> age then SUPERPEER_MEMBER_REMOVED else SUPERPEER_MEMBER_FAILED)
      else if int f \<le> age \<and> 2 \<le> probes then (if int r \<le> age then SUPERPEER_MEMBER_REMOVED else SUPERPEER_MEMBER_FAILED)
      else if int s \<le> age then SUPERPEER_MEMBER_SUSPECT
      else st)"

lemma tick_verdict:
  assumes "s < f" "f < r" "\<not> node_id_equal (member_id m) (local_id t)" "local_registration m"
  shows "member_state (tick_member t now s f r m) = verdict (now - observed_ms m) s f r (failed_probes m) (member_state m)"
  using assms by (cases "member_state m") (auto simp: tick_member_def verdict_def Let_def)

lemma tick_other: "node_id_equal (member_id m) (local_id t) \<or> \<not> local_registration m \<Longrightarrow> tick_member t now s f r m = m"
  by (auto simp: tick_member_def)

lemma tick_fields:
  "observed_ms (tick_member t now s f r m) = observed_ms m" "failed_probes (tick_member t now s f r m) = failed_probes m"
  "probe_ms (tick_member t now s f r m) = probe_ms m" "member_sequence (tick_member t now s f r m) = member_sequence m"
  "local_registration (tick_member t now s f r m) = local_registration m"
  by (auto simp: tick_member_def Let_def)

lemma tick_members:
  assumes "membership_tick os t now s f r = (None, t')"
  shows "members t' = map (tick_member t now s f r) (members t)" "local_id t' = local_id t" "s < f" "f < r" "0 < s"
  using assms by (auto simp: membership_tick_def local_id_def split: if_splits option.splits)

lemma member_of_map:
  assumes "members t' = map g (members t)" "\<And>m. member_id (g m) = member_id m"
  shows "member_of t' i = map_option g (member_of t i)"
proof -
  have "find_member_index_locked t' i = find_member_index_locked t i"
    using assms by (simp add: find_member_index_locked_def find_index_map)
  then show ?thesis
    using assms(1) find_index_Some
    by (fastforce simp: member_of_def find_member_index_locked_def option.map_comp intro!: option.map_cong0 split: option.split)
qed

lemma member_of_update:
  assumes "table_inv t" "length i = ID_SIZE" "find_member_index_locked t i = Some k" "member_id m = i"
  shows "member_of (t\<lparr>members := (members t)[k := m]\<rparr>) i = Some m"
proof -
  let ?t = "t\<lparr>members := (members t)[k := m]\<rparr>"
  note k = find_member_Some [OF assms(1-3)]
  note f = find_index_Some [OF assms(3) [unfolded find_member_index_locked_def]]
  have "find_member_index_locked ?t i = Some k"
    unfolding find_member_index_locked_def
  proof (rule find_index_unique)
    have d: "distinct (map member_id (members t))" "\<forall>m \<in> set (members t). length (member_id m) = ID_SIZE"
      using assms(1) by (simp_all add: table_inv_def)
    fix j assume "j < length (members ?t)" "node_id_equal (member_id (members ?t ! j)) i"
    then show "j = k" using d k assms(2) distinct_map_nth [OF d(1), of j k] by (cases "j = k") auto
  qed (use k assms(4) in auto)
  with k show ?thesis by (simp add: member_of_def)
qed

lemma probe_failed:
  assumes "table_inv t" "length i = ID_SIZE" "member_of t i = Some m" "member_state m = SUPERPEER_MEMBER_SUSPECT"
    "1000 \<le> now - probe_ms m"
  shows "\<exists>t' m'. membership_probe calm t i (incarnation m) (member_sequence m) now False = (None, t') \<and> member_of t' i = Some m' \<and>
    member_state m' = SUPERPEER_MEMBER_SUSPECT \<and> failed_probes m' = max (failed_probes m) (min 2 (failed_probes m + 1)) \<and>
    probe_ms m' = now \<and> incarnation m' = incarnation m \<and> member_sequence m' = member_sequence m \<and>
    observed_ms m' = observed_ms m \<and> local_registration m' = local_registration m \<and> table_inv t' \<and> local_id t' = local_id t"
proof -
  obtain k where k: "find_member_index_locked t i = Some k" "m = members t ! k"
    using assms(3) by (auto simp: member_of_def)
  let ?m = "m\<lparr>probe_ms := now, failed_probes := (if failed_probes m < 2 then failed_probes m + 1 else failed_probes m)\<rparr>"
  let ?t = "t\<lparr>members := (members t)[k := ?m]\<rparr>"
  have p: "membership_probe calm t i (incarnation m) (member_sequence m) now False = (None, ?t)"
    using k assms(4,5) by (simp add: membership_probe_def Let_def)
  have "member_of ?t i = Some ?m"
    using find_member_Some [OF assms(1,2) k(1)] k(2) by (intro member_of_update [OF assms(1,2) k(1)]) (simp add: member_id_node)
  moreover have "table_inv ?t"
    using change_inv [OF assms(1) probe_change [OF assms(1,2), of calm "incarnation m" "member_sequence m" now False]] p by simp
  ultimately show ?thesis
    using p assms(4) by (intro exI [of _ ?t] exI [of _ ?m]) (auto simp: local_id_def)
qed

text \<open>Members for the witnesses: the local Super Peer and another one.\<close>

definition sample_node :: "byte \<Rightarrow> Node" where
  "sample_node b = \<lparr>id_of = replicate 32 b, config = byte_config b,
     process_id = 1, role = NODE_ROLE_SUPERPEER\<rparr>"

definition sample_member :: "byte \<Rightarrow> SuperPeerMember" where
  "sample_member b = (set_member 0 0 (sample_node b))\<lparr>home := replicate 32 b, reporter := replicate 32 b\<rparr>"

definition sample_table :: SuperPeer where
  "sample_table = \<lparr>local_node = sample_node 1, members = [sample_member 1, sample_member 2], member_capacity = 16\<rparr>"

lemma sample_member_id [simp]: "member_id (sample_member b) = replicate 32 b"
  by (simp add: sample_member_def sample_node_def member_id_def set_member_def)

lemma sample_local_id [simp]: "local_id sample_table = replicate 32 1"
  by (simp add: sample_table_def sample_node_def local_id_def)

lemma replicate_eq_id [simp]: "replicate 32 (a :: byte) = replicate 32 b \<longleftrightarrow> a = b"
  by (simp add: replicate_eq_replicate)

lemma sample_table_inv: "table_inv sample_table"
  by (simp add: table_inv_def sample_table_def sample_member_def sample_node_def set_member_def local_id_def member_id_def ID_SIZE_def
      replicate_eq_replicate)

lemma sample_member_of: "member_of sample_table (replicate 32 2) = Some (sample_member 2)"
  using member_of_iff [OF sample_table_inv, of "replicate 32 2" "sample_member 2"]
  by (simp add: ID_SIZE_def) (simp add: sample_table_def)

text \<open>
C28: A silent member is found out. When nothing is heard of a member that is alive, a tick after the
first limit suspects it, and once two probes, a second apart, have failed, the next tick after the
second limit declares it failed, or removes it when the third limit has passed too.
\<close>
theorem membership_detects_silence:
  assumes "table_inv t" "length i = ID_SIZE" "i \<noteq> local_id t" "member_of t i = Some m" "local_registration m"
    "member_state m = SUPERPEER_MEMBER_ALIVE" "0 < s" "s < f" "f < r" "int s \<le> t1 - observed_ms m" "failed_probes m < 2"
    "1000 \<le> t2 - probe_ms m" "1000 \<le> t3 - t2" "int f \<le> t4 - observed_ms m"
  shows "\<exists>u1 u2 u3 u4 m'. membership_tick calm t t1 s f r = (None, u1) \<and>
    membership_probe calm u1 i (incarnation m) (member_sequence m) t2 False = (None, u2) \<and>
    membership_probe calm u2 i (incarnation m) (member_sequence m) t3 False = (None, u3) \<and>
    membership_tick calm u3 t4 s f r = (None, u4) \<and> member_of u4 i = Some m' \<and>
    member_state m' = (if int r \<le> t4 - observed_ms m then SUPERPEER_MEMBER_REMOVED else SUPERPEER_MEMBER_FAILED)"
proof -
  have id: "member_id m = i" using assms(4) member_of_iff [OF assms(1,2)] by simp
  have other: "\<not> node_id_equal i (local_id t)" using assms(2,3) local_id_length [OF assms(1)] by simp
  obtain u1 where u1: "membership_tick calm t t1 s f r = (None, u1)" using assms(7-9) by (simp add: membership_tick_def)
  note m1 = tick_members [OF u1]
  let ?m1 = "tick_member t t1 s f r m"
  have of1: "member_of u1 i = Some ?m1"
    using member_of_map [OF m1(1), of i] assms(4) by (simp add: tick_member_fields)
  have st1: "member_state ?m1 = SUPERPEER_MEMBER_SUSPECT"
    using tick_verdict [OF assms(8,9), of m t t1] other id assms(5,6,10,11) by (simp add: verdict_def)
  have inv1: "table_inv u1" using change_inv [OF assms(1) tick_change, of calm t1 s f r] u1 by simp
  obtain u2 m2 where u2: "membership_probe calm u1 i (incarnation m) (member_sequence m) t2 False = (None, u2)" "member_of u2 i = Some m2"
    "member_state m2 = SUPERPEER_MEMBER_SUSPECT" "1 \<le> failed_probes m2" "probe_ms m2 = t2" "incarnation m2 = incarnation m"
    "member_sequence m2 = member_sequence m" "observed_ms m2 = observed_ms m" "local_registration m2" "table_inv u2" "local_id u2 = local_id t"
    using probe_failed [OF inv1 assms(2) of1 st1, of t2] assms(5,12) m1(2) by (auto simp: tick_fields tick_member_fields)
  obtain u3 m3 where u3: "membership_probe calm u2 i (incarnation m) (member_sequence m) t3 False = (None, u3)" "member_of u3 i = Some m3"
    "member_state m3 = SUPERPEER_MEMBER_SUSPECT" "2 \<le> failed_probes m3" "observed_ms m3 = observed_ms m" "local_registration m3"
    "table_inv u3" "local_id u3 = local_id t"
    using probe_failed [OF u2(10) assms(2) u2(2,3), of t3] assms(13) u2(4-9,11) by auto
  obtain u4 where u4: "membership_tick calm u3 t4 s f r = (None, u4)" using assms(7-9) by (simp add: membership_tick_def)
  have "member_of u4 i = Some (tick_member u3 t4 s f r m3)"
    using member_of_map [OF tick_members(1) [OF u4], of i] u3(2) by (simp add: tick_member_fields)
  moreover have "member_id m3 = i" using u3(2) member_of_iff [OF u3(7) assms(2)] by simp
  then have "member_state (tick_member u3 t4 s f r m3) = verdict (t4 - observed_ms m) s f r (failed_probes m3) SUPERPEER_MEMBER_SUSPECT"
    using tick_verdict [OF assms(8,9), of m3 u3 t4] other u3(3,5,6,8) by simp
  ultimately show ?thesis using u1 u2(1) u3(1,4) u4 assms(14) by (auto simp: verdict_def)
qed

theorem membership_detects_silence_witness:
  "\<exists>u1 u2 u3 u4 m'. membership_tick calm sample_table 2000 1000 3000 9000 = (None, u1) \<and>
    membership_probe calm u1 (replicate 32 2) 0 0 2500 False = (None, u2) \<and>
    membership_probe calm u2 (replicate 32 2) 0 0 3500 False = (None, u3) \<and>
    membership_tick calm u3 4000 1000 3000 9000 = (None, u4) \<and> member_of u4 (replicate 32 2) = Some m' \<and>
    member_state m' = SUPERPEER_MEMBER_FAILED"
  using membership_detects_silence [OF sample_table_inv _ _ sample_member_of, of 1000 3000 9000 2000 2500 3500 4000]
  by (simp add: ID_SIZE_def) (simp add: sample_member_def set_member_def)

text \<open>
No member is declared failed without evidence. A tick leaves the local node and the members of
other domains as they are; to another member it gives the verdict that its silence allows: suspected
only after the first limit, failed only after the second and with two failed probes, removed only
from failed and after the third.
\<close>
theorem membership_tick_verdicts:
  assumes "table_inv t" "membership_tick os t now s f r = (None, t')" "length i = ID_SIZE" "member_of t i = Some m"
  shows "\<exists>m'. member_of t' i = Some m' \<and> member_state m' =
    (if i = local_id t \<or> \<not> local_registration m then member_state m
     else verdict (now - observed_ms m) s f r (failed_probes m) (member_state m))"
proof -
  note m = tick_members [OF assms(2)]
  have id: "member_id m = i" using assms(4) member_of_iff [OF assms(1,3)] by simp
  have e: "node_id_equal i (local_id t) \<longleftrightarrow> i = local_id t" using assms(3) local_id_length [OF assms(1)] by simp
  have "member_of t' i = Some (tick_member t now s f r m)"
    using member_of_map [OF m(1), of i] assms(4) by (simp add: tick_member_fields)
  moreover have "member_state (tick_member t now s f r m) = (if i = local_id t \<or> \<not> local_registration m then member_state m
     else verdict (now - observed_ms m) s f r (failed_probes m) (member_state m))"
    using tick_verdict [OF m(3,4), of m t now] tick_other [of m t now s f r] e id by auto
  ultimately show ?thesis by blast
qed

theorem membership_tick_verdicts_witness:
  "\<exists>m'. member_of (snd (membership_tick calm sample_table 2000 1000 3000 9000)) (replicate 32 2) = Some m' \<and>
     member_state m' = SUPERPEER_MEMBER_SUSPECT"
proof -
  have "membership_tick calm sample_table 2000 1000 3000 9000 = (None, snd (membership_tick calm sample_table 2000 1000 3000 9000))"
    by (simp add: membership_tick_def)
  from membership_tick_verdicts [OF sample_table_inv this _ sample_member_of] show ?thesis
    by (simp add: ID_SIZE_def) (simp add: sample_member_def set_member_def verdict_def)
qed

section \<open>Records read back\<close>

text \<open>What a record carries of a member: the rest is the business of the process that holds it.\<close>

definition published :: "int \<Rightarrow> SuperPeerMember \<Rightarrow> SuperPeerMember" where
  "published pid m = m\<lparr>member_node := (member_node m)\<lparr>process_id := pid\<rparr>, last_seen := 0, observed_ms := 0, probe_ms := 0,
     failed_probes := 0, local_registration := False\<rparr>"

definition record_wf :: "lib \<Rightarrow> SuperPeerMember \<Rightarrow> bool" where
  "record_wf lib m \<longleftrightarrow> canonical_config lib (config (member_node m)) \<and>
     node_compute_id lib (config (member_node m)) = Inr (member_id m) \<and> 0 < process_id (member_node m) \<and>
     length (member_id m) = ID_SIZE \<and> length (home m) = ID_SIZE \<and> length (reporter m) = ID_SIZE"

lemma record_fields:
  assumes "length i = 32" "length a = 46" "length u = 16" "length h = 32" "length r = 32"
    "rec = i @ a @ wire_put_u16 p @ u @ [rc] @ h @ wire_put_u64 x @ wire_put_u64 y @ wire_put_u64 z @ [sc] @ r"
  shows "length rec = 186" "take 32 rec = i" "take 46 (drop 32 rec) = a" "wire_get_u16 (drop 78 rec) = p" "take 16 (drop 80 rec) = u"
    "rec ! 96 = rc" "take 32 (drop 97 rec) = h" "wire_get_u64 (drop 129 rec) = x" "wire_get_u64 (drop 137 rec) = y"
    "wire_get_u64 (drop 145 rec) = z" "rec ! 153 = sc" "take 32 (drop 154 rec) = r"
  using assms(1-5) by (simp_all add: assms(6) nth_append)

lemma state_of_code_inverse [simp]: "state_of_code (state_code s) = s"
  by (cases s) (simp_all add: state_of_code_def)

lemma state_code_bound: "\<not> 3 < state_code s"
  by (cases s) simp_all

lemma role_code_bound: "\<not> 1 < role_code r"
  by (cases r) simp_all

lemma role_of_code: "(if role_code r = 0 then NODE_ROLE_PEER else NODE_ROLE_SUPERPEER) = r"
  by (cases r) simp_all

lemma decode_record:
  assumes "record_wf lib m"
  shows "gossip_decode_record lib pid (record_of_member m) = Inr (published pid m)" "length (record_of_member m) = MEMBERSHIP_WIRE_SIZE"
proof -
  let ?c = "config (member_node m)"
  have c: "canonical_config lib ?c" using assms by (simp add: record_wf_def)
  have len: "length (member_id m) = 32" "length (ip ?c) = 46" "length (uuid ?c) = 16" "length (home m) = 32" "length (reporter m) = 32"
    using assms c by (simp_all add: record_wf_def canonical_config_def ID_SIZE_def NODE_ADDRESS_SIZE_def NODE_UUID_SIZE_def)
  note f = record_fields [OF len record_of_member_def]
  show "length (record_of_member m) = MEMBERSHIP_WIRE_SIZE" using f(1) by (simp add: MEMBERSHIP_WIRE_SIZE_def)
  have d: "dropWhile (\<lambda>b. b \<noteq> 0) (ip ?c) = replicate (46 - length (cstr (ip ?c))) 0"
    using dropWhile_padded [of NODE_ADDRESS_SIZE "ip ?c"] c by (simp add: canonical_config_def NODE_ADDRESS_SIZE_def)
  have "node_config_init_with_uuid lib (ip ?c) (port ?c) (drop 80 (record_of_member m)) = Inr ?c"
    using c f(5) by (simp add: node_config_init_with_uuid_def canonical_config_def NODE_UUID_SIZE_def)
  moreover have "node_init lib pid ?c = Inr \<lparr>id_of = member_id m, config = ?c, process_id = pid, role = NODE_ROLE_PEER\<rparr>"
    using assms by (simp add: node_init_def record_wf_def)
  moreover have "0 \<in> set (ip ?c)" using c by (simp add: canonical_config_def)
  ultimately show "gossip_decode_record lib pid (record_of_member m) = Inr (published pid m)"
    by (simp add: gossip_decode_record_def NODE_ADDRESS_SIZE_def Let_def f d list_ex_iff state_code_bound role_code_bound role_of_code
        published_def member_id_def)
qed

lemma encode_record: "record_wf lib m \<Longrightarrow> gossip_encode_record lib m = Inr (record_of_member m)"
  by (simp add: gossip_encode_record_def node_validate_def record_wf_def member_id_def)

lemma record_published: "record_of_member (published pid m) = record_of_member m" "record_wf lib m \<Longrightarrow> 0 < pid \<Longrightarrow> record_wf lib (published pid m)"
  by (simp_all add: record_of_member_def published_def member_id_def record_wf_def)

text \<open>Records one after the other, as in a batch of rumours and in the ledger.\<close>

definition decode_member_prefix :: "lib \<Rightarrow> int \<Rightarrow> byte list \<Rightarrow> (SuperPeerMember \<times> byte list) option" where
  "decode_member_prefix lib pid bs =
     (case gossip_decode_record lib pid (take MEMBERSHIP_WIRE_SIZE bs) of
        Inl _ \<Rightarrow> None | Inr m \<Rightarrow> Some (m, drop MEMBERSHIP_WIRE_SIZE bs))"

interpretation rumour: codec record_of_member "decode_member_prefix lib pid" "\<lambda>m. record_wf lib m \<and> published pid m = m" for lib pid
proof
  fix m :: SuperPeerMember and rest
  assume m: "record_wf lib m \<and> published pid m = m"
  then have "take MEMBERSHIP_WIRE_SIZE (record_of_member m @ rest) = record_of_member m" "drop MEMBERSHIP_WIRE_SIZE (record_of_member m @ rest) = rest"
    using decode_record(2) [of lib m] by simp_all
  with m decode_record(1) [of lib m pid] show "decode_member_prefix lib pid (record_of_member m @ rest) = Some (m, rest)"
    by (simp add: decode_member_prefix_def)
qed

section \<open>The ledger reads back\<close>

definition ledger_bytes :: "SuperPeerMember list \<Rightarrow> byte list" where
  "ledger_bytes ms = ledger_header (length ms) @ concat (map record_of_member ms)"

lemma exact_write_complete: "exact_write as data = (None, w) \<Longrightarrow> w = data"
proof (induction as data arbitrary: w rule: exact_write.induct)
  case (3 n as v va)
  then show ?case by (auto simp: Let_def split: if_splits prod.splits)
qed (auto split: if_splits)

lemma save_records_complete: "save_records lib os k ms = (None, w) \<Longrightarrow> w = concat (map record_of_member ms)"
proof (induction ms arbitrary: k w)
  case (Cons m ms)
  then obtain w1 w2 where "gossip_encode_record lib m = Inr (record_of_member m)" "exact_write (at os k []) (record_of_member m) = (None, w1)"
    "save_records lib os (Suc k) ms = (None, w2)" "w = w1 @ w2"
    by (auto simp: gossip_encode_record_def Let_def split: sum.splits prod.splits option.splits if_splits)
  with Cons.IH exact_write_complete show ?case by simp
qed simp

text \<open>The ledger is replaced as a whole or not at all.\<close>

lemma save_atomic:
  assumes "membership_save lib os t pl file = (r, file')"
  shows "file' = file \<or> file' = Some (ledger_bytes (members t))" "r = None \<Longrightarrow> file' = Some (ledger_bytes (members t))"
proof -
  have s: "ms = members t" if "membership_snapshot (at os 0) t = Inr ms" for ms
    using that by (auto simp: membership_snapshot_def split: option.splits)
  have w: "w1 @ w2 = ledger_bytes ms"
    if "exact_write (at os 2 []) (ledger_header (length ms)) = (None, w1)" "save_records lib (at os 3) 0 ms = (None, w2)" for ms w1 w2
    using exact_write_complete [OF that(1)] save_records_complete [OF that(2)] by (simp add: ledger_bytes_def)
  show "file' = file \<or> file' = Some (ledger_bytes (members t))" "r = None \<Longrightarrow> file' = Some (ledger_bytes (members t))"
    using assms s w by (auto simp: membership_save_def Let_def split: sum.splits option.splits if_splits prod.splits)
qed

lemma exact_read_calm: "length bs = n \<Longrightarrow> exact_read [] n (bs @ rest) = Inr (bs, rest)"
  by (cases n) auto

lemma load_records_calm:
  "list_all (record_wf lib) ms \<Longrightarrow>
     load_records lib calm pid k (length ms) (concat (map record_of_member ms) @ rest) = Inr (map (published pid) ms, rest)"
proof (induction ms arbitrary: k)
  case (Cons m ms)
  then have m: "record_wf lib m" by simp
  note exact_read_calm [OF decode_record(2) [OF m]] decode_record(1) [OF m]
  with Cons show ?case by simp
qed simp

text \<open>The record under which a loaded member is entered.\<close>

definition entered :: "int \<Rightarrow> int \<Rightarrow> NodeID \<Rightarrow> SuperPeerMember \<Rightarrow> SuperPeerMember" where
  "entered pid clock i m = (published pid m)\<lparr>local_registration :=
     role (member_node m) = NODE_ROLE_SUPERPEER \<or> node_id_equal (home m) i, observed_ms := clock\<rparr>"

lemma published_fields [simp]:
  "member_id (published pid m) = member_id m" "role (member_node (published pid m)) = role (member_node m)" "home (published pid m) = home m"
  by (simp_all add: published_def member_id_def)

lemma local_id_update [simp]:
  "local_id (t\<lparr>member_capacity := c\<rparr>) = local_id t" "local_id (t\<lparr>members := ms\<rparr>) = local_id t"
  by (simp_all add: local_id_def)

lemma grow_calm:
  assumes "length (members t) < 65536" "length (members t) \<le> member_capacity t"
  shows "\<exists>c. grow_members_locked calm t = (None, t\<lparr>member_capacity := c\<rparr>) \<and> length (members t) < c"
proof (cases "length (members t) < member_capacity t")
  case True
  then show ?thesis using assms by (intro exI [of _ "member_capacity t"]) (simp add: grow_members_locked_def)
next
  case False
  then have "member_capacity t = length (members t)" using assms(2) by simp
  with assms(1) show ?thesis
    by (auto simp: grow_members_locked_def Let_def SIZE_MAX_def MEMBER_SLOT_SIZE_def SUPERPEER_DEFAULT_MEMBER_CAPACITY_def)
qed

lemma enter_calm:
  assumes "length (members t) + length (filter (\<lambda>m. \<not> node_id_equal (member_id m) (local_id t)) ms) \<le> 65536"
    "length (members t) \<le> member_capacity t"
  shows "\<exists>c. enter_members calm clock k (map (published pid) ms) t =
    (None, t\<lparr>members := members t @ map (entered pid clock (local_id t)) (filter (\<lambda>m. \<not> node_id_equal (member_id m) (local_id t)) ms),
       member_capacity := c\<rparr>)"
  using assms
proof (induction ms arbitrary: k t)
  case Nil
  then show ?case by (intro exI [of _ "member_capacity t"]) simp
next
  case (Cons m ms)
  show ?case
  proof (cases "node_id_equal (member_id m) (local_id t)")
    case True
    then show ?thesis using Cons.IH [of t "Suc k"] Cons.prems by simp
  next
    case False
    then obtain c where c: "grow_members_locked calm t = (None, t\<lparr>member_capacity := c\<rparr>)" "length (members t) < c"
      using grow_calm [of t] Cons.prems by auto
    let ?t = "t\<lparr>member_capacity := c, members := members t @ [entered pid clock (local_id t) m]\<rparr>"
    have "enter_members calm clock k (map (published pid) (m # ms)) t = enter_members calm clock (Suc k) (map (published pid) ms) ?t"
      using False c(1) by (simp add: entered_def)
    with Cons.IH [of ?t "Suc k"] Cons.prems False c(2) show ?thesis by simp
  qed
qed

lemma load_saved:
  assumes "list_all (record_wf lib) ms" "length ms \<le> 65536" "length (members t) \<le> member_capacity t"
    "length (members t) + length (filter (\<lambda>m. \<not> node_id_equal (member_id m) (local_id t)) ms) \<le> 65536"
  shows "\<exists>c. membership_load lib calm pid clock t (Some (ledger_bytes ms)) =
    (None, t\<lparr>members := members t @ map (entered pid clock (local_id t)) (filter (\<lambda>m. \<not> node_id_equal (member_id m) (local_id t)) ms),
       member_capacity := c\<rparr>)"
proof -
  have h: "length (ledger_header (length ms)) = 12" by (simp add: ledger_header_def)
  have n: "unat (wire_get_u32 (drop 8 (ledger_header (length ms)))) = length ms"
    using assms(2) by (simp add: ledger_header_def unat_of_nat take_bit_nat_eq_self)
  have m: "take 8 (ledger_header (length ms)) = [80, 68, 77, 69, 77, 66, 49, 0]" by (simp add: ledger_header_def)
  have l: "load_records lib calm pid 0 (length ms) (concat (map record_of_member ms)) = Inr (map (published pid) ms, [])"
    using load_records_calm [OF assms(1), where rest = "[]"] by simp
  show ?thesis
    using enter_calm [OF assms(4,3), of clock 0 pid] exact_read_calm [OF h] m n l assms(2)
    by (simp add: membership_load_def ledger_bytes_def Let_def)
qed

section \<open>Properties of the table\<close>

text \<open>
The table stays a table. From its creation on, whatever operations arrive, in whatever order and
with whatever failures of the allocator and the mutex, it has one record per node, the local node
first and alive, and never more than 65536 records nor more than fit in its array.
\<close>
theorem membership_table_consistent:
  assumes "superpeer_create lib os pid wall clock c = Inr t" "\<And>x d. sha256 lib x = Some d \<Longrightarrow> length d = ID_SIZE"
    "(membership_step lib)\<^sup>*\<^sup>* t t'"
  shows "distinct (map member_id (members t')) \<and> members t' \<noteq> [] \<and> member_id (hd (members t')) = local_id t \<and>
    member_state (hd (members t')) = SUPERPEER_MEMBER_ALIVE \<and>
    length (members t') \<le> 65536 \<and> length (members t') \<le> member_capacity t'"
  using steps_inv [OF assms(3) created_table_inv [OF assms(1,2)]] by (auto simp: table_inv_def hd_conv_nth)

theorem membership_table_consistent_witness:
  "distinct (map member_id (members (snd (superpeer_register_node byte_lib calm 0 0
     (projr (superpeer_create byte_lib calm 1 0 0 \<lparr>superpeer_node = byte_config 1, initial_member_capacity = 0\<rparr>)) (sample_node 2)))))"
proof -
  let ?c = "\<lparr>superpeer_node = byte_config 1, initial_member_capacity = 0\<rparr>"
  have c: "superpeer_create byte_lib calm 1 0 0 ?c = Inr (projr (superpeer_create byte_lib calm 1 0 0 ?c))"
    by (simp add: superpeer_create_def byte_config_valid node_init_def Let_def SUPERPEER_DEFAULT_MEMBER_CAPACITY_def SIZE_MAX_def MEMBER_SLOT_SIZE_def)
  have st: "membership_step byte_lib (projr (superpeer_create byte_lib calm 1 0 0 ?c))
      (snd (superpeer_register_node byte_lib calm 0 0 (projr (superpeer_create byte_lib calm 1 0 0 ?c)) (sample_node 2)))"
    unfolding superpeer_register_node_def by (rule step_register) (simp add: sample_node_def ID_SIZE_def)
  show ?thesis
    by (rule membership_table_consistent [THEN conjunct1, OF c byte_lib_digest r_into_rtranclp [of "membership_step byte_lib", OF st]])
qed

text \<open>
C27: Removed members do not come back. A record of another node is never lost and never returns to an
earlier incarnation, and a node that was removed stays removed, against delayed registrations,
heartbeats and rumours, until it is seen with a later incarnation.
\<close>
theorem membership_no_resurrection:
  assumes "table_inv t" "(membership_step lib)\<^sup>*\<^sup>* t t'" "length i = ID_SIZE" "i \<noteq> local_id t" "member_of t i = Some m"
  shows "\<exists>m'. member_of t' i = Some m' \<and> incarnation m \<le> incarnation m' \<and>
    (member_state m = SUPERPEER_MEMBER_REMOVED \<and> incarnation m' = incarnation m \<longrightarrow> member_state m' = SUPERPEER_MEMBER_REMOVED)"
  using steps_evolve [OF assms(2,1,3-5)] by (auto simp: evolves_def)

lemma sample_removed:
  "member_of (snd (superpeer_unregister_node calm sample_table (replicate 32 2))) (replicate 32 2) =
     Some ((sample_member 2)\<lparr>member_state := SUPERPEER_MEMBER_REMOVED, reporter := replicate 32 1, member_version := 1\<rparr>)"
proof -
  obtain k where k: "find_member_index_locked sample_table (replicate 32 2) = Some k" "members sample_table ! k = sample_member 2"
    using sample_member_of by (auto simp: member_of_def)
  have "\<not> node_id_equal (replicate 32 1) (replicate 32 (2 :: byte))" by (simp add: ID_SIZE_def)
  moreover have "member_version (sample_member 2) = 0" by (simp add: sample_member_def set_member_def)
  moreover have "member_id ((sample_member 2)\<lparr>member_state := s, reporter := r, member_version := v\<rparr>) = replicate 32 2" for s r v
    using sample_member_id [of 2] by (simp add: member_id_def)
  ultimately show ?thesis
    using k member_of_update [OF sample_table_inv _ k(1)] by (simp add: superpeer_unregister_node_def Let_def ID_SIZE_def)
qed

theorem membership_no_resurrection_witness:
  "\<exists>m'. member_of (snd (membership_register byte_lib calm 0 0 (snd (superpeer_unregister_node calm sample_table (replicate 32 2)))
      (sample_node 2) (replicate 32 2) 0 0)) (replicate 32 2) = Some m' \<and> (incarnation m' \<noteq> 0 \<or> member_state m' = SUPERPEER_MEMBER_REMOVED)"
proof -
  let ?t = "snd (superpeer_unregister_node calm sample_table (replicate 32 2))"
  have inv: "table_inv ?t" by (rule change_inv [OF sample_table_inv unregister_change [OF sample_table_inv]]) (simp add: ID_SIZE_def)
  have loc: "local_id ?t = replicate 32 1"
    using unregister_change [OF sample_table_inv, of "replicate 32 2" calm] by (simp add: ID_SIZE_def table_change_def)
  have st: "membership_step byte_lib ?t (snd (membership_register byte_lib calm 0 0 ?t (sample_node 2) (replicate 32 2) 0 0))"
    by (rule step_register) (simp add: sample_node_def ID_SIZE_def)
  have len: "length (replicate 32 (2 :: byte)) = ID_SIZE" "replicate 32 2 \<noteq> local_id ?t" by (simp_all add: ID_SIZE_def loc)
  have "incarnation (sample_member 2) = 0" by (simp add: sample_member_def set_member_def)
  then show ?thesis
    using membership_no_resurrection [OF inv r_into_rtranclp [of "membership_step byte_lib", OF st] len sample_removed] by auto
qed

section \<open>Properties of records and of the ledger\<close>

lemma sample_record_wf: "record_wf byte_lib (sample_member b)"
proof -
  have z: "cstr (zero_padded 46 [49 :: byte]) = [49]" by (rule cstr_zero_padded) simp
  have "canonical_config byte_lib (byte_config b)"
    using byte_config_valid(1) [of b]
    by (simp add: canonical_config_def node_config_validate_def byte_config_def NODE_ADDRESS_SIZE_def NODE_UUID_SIZE_def z split: if_splits)
  then show ?thesis
    using byte_config_valid(2) [of b] by (simp add: record_wf_def sample_member_def sample_node_def set_member_def member_id_def ID_SIZE_def)
qed

text \<open>
A member on the wire reads back. The record of a valid member has 186 bytes and is decoded, by
any process, to the member without what only the sending process knows (its process number and
clocks); a batch of records is recovered one after the other.
\<close>
theorem gossip_record_roundtrip:
  assumes "list_all (record_wf lib) ms" "0 < pid"
  shows "list_all (\<lambda>m. \<exists>r. gossip_encode_record lib m = Inr r \<and> length r = MEMBERSHIP_WIRE_SIZE \<and>
      gossip_decode_record lib pid r = Inr (published pid m)) ms \<and>
    decode_seq (decode_member_prefix lib pid) (length ms) (concat (map record_of_member ms) @ rest) = Some (map (published pid) ms, rest)"
proof -
  have p: "list_all (\<lambda>m. record_wf lib m \<and> published pid m = m) (map (published pid) ms)"
    using assms record_published(2) by (auto simp: list_all_iff) (simp add: published_def)
  have "map record_of_member (map (published pid) ms) = map record_of_member ms" by (simp add: record_published(1))
  with rumour.decode_seq_enc [OF p, of rest] assms(1) encode_record decode_record show ?thesis
    by (auto simp: list_all_iff simp del: map_map)
qed

theorem gossip_record_roundtrip_witness:
  "decode_seq (decode_member_prefix byte_lib 7) 2 (concat (map record_of_member [sample_member 1, sample_member 2]) @ [9]) =
     Some ([published 7 (sample_member 1), published 7 (sample_member 2)], [9])"
  using gossip_record_roundtrip [of byte_lib "[sample_member 1, sample_member 2]" 7 "[9]"] sample_record_wf by (simp add: numeral_2_eq_2)

lemma ledger_restores:
  assumes "membership_save lib os t pl file = (r, file')" "list_all (record_wf lib) (members t)" "table_inv t"
    "members t0 = [l]" "local_id t0 = local_id t" "1 \<le> member_capacity t0"
  shows "file' = file \<or> file' = Some (ledger_bytes (members t))" "r = None \<Longrightarrow> file' = Some (ledger_bytes (members t))"
    and "\<exists>c. membership_load lib calm pid clock t0 (Some (ledger_bytes (members t))) =
      (None, t0\<lparr>members := l # map (entered pid clock (local_id t)) (tl (members t)), member_capacity := c\<rparr>)"
proof -
  show "file' = file \<or> file' = Some (ledger_bytes (members t))" "r = None \<Longrightarrow> file' = Some (ledger_bytes (members t))"
    using save_atomic [OF assms(1)] by auto
  obtain l1 ms where ms: "members t = l1 # ms" "member_id l1 = local_id t" "local_id t \<notin> member_id ` set ms"
    "\<forall>m \<in> set ms. length (member_id m) = ID_SIZE" "length ms < 65536"
    using assms(3) by (cases "members t") (auto simp: table_inv_def)
  have ids: "member_id m \<noteq> local_id t" if "m \<in> set ms" for m using ms(3) that by (metis imageI)
  have f: "filter (\<lambda>m. \<not> node_id_equal (member_id m) (local_id t0)) (members t) = ms"
    using ms(1,2,4) ids local_id_length [OF assms(3)] assms(5) by (auto simp: filter_id_conv)
  show "\<exists>c. membership_load lib calm pid clock t0 (Some (ledger_bytes (members t))) =
      (None, t0\<lparr>members := l # map (entered pid clock (local_id t)) (tl (members t)), member_capacity := c\<rparr>)"
    using load_saved [OF assms(2), of t0 pid clock] ms f assms(4-6) by simp
qed

text \<open>
C29: The ledger survives. Saving in any environment leaves the old ledger or the complete new one,
the new one when it reports success; and a new table of the same node that loads the new one gets
back every other member with its identity, domain, incarnation, sequence, version, state and
reporter, removed members included.
\<close>
theorem membership_ledger_restores:
  assumes "membership_save lib os t pl file = (r, file')" "list_all (record_wf lib) (members t)" "table_inv t"
    "members t0 = [l]" "local_id t0 = local_id t" "1 \<le> member_capacity t0"
  shows "(file' = file \<or> file' = Some (ledger_bytes (members t))) \<and> (r = None \<longrightarrow> file' = Some (ledger_bytes (members t))) \<and>
    (\<exists>c. membership_load lib calm pid clock t0 (Some (ledger_bytes (members t))) =
      (None, t0\<lparr>members := l # map (entered pid clock (local_id t)) (tl (members t)), member_capacity := c\<rparr>))"
  by (intro conjI impI ledger_restores [OF assms])

theorem membership_ledger_restores_witness:
  "\<exists>c. membership_load byte_lib calm 9 55 (sample_table\<lparr>members := [sample_member 1]\<rparr>)
       (Some (ledger_bytes (members sample_table))) =
     (None, sample_table\<lparr>members := [sample_member 1, entered 9 55 (replicate 32 1) (sample_member 2)], member_capacity := c\<rparr>)"
proof -
  have m: "members sample_table = [sample_member 1, sample_member 2]" by (simp add: sample_table_def)
  have s: "membership_save byte_lib calm sample_table 5 None =
      (fst (membership_save byte_lib calm sample_table 5 None), snd (membership_save byte_lib calm sample_table 5 None))" by simp
  have w: "list_all (record_wf byte_lib) (members sample_table)" using sample_record_wf by (simp add: m)
  note r = membership_ledger_restores [OF s w sample_table_inv, where ?t0.0 = "sample_table\<lparr>members := [sample_member 1]\<rparr>" and
      l = "sample_member 1" and pid = 9 and clock = 55]
  have c: "1 \<le> member_capacity (sample_table\<lparr>members := [sample_member 1]\<rparr>)" by (simp add: sample_table_def)
  show ?thesis using r [OF _ _ c] by (simp add: m)
qed

section \<open>The order of rumours\<close>

lemma merge_new:
  assumes "table_inv t" "length (members t) < 65536" "node_validate lib (member_node m)" "role (member_node m) = NODE_ROLE_SUPERPEER"
    "length (member_id m) = ID_SIZE" "member_id m \<noteq> local_id t" "member_of t (member_id m) = None"
  shows "\<exists>t'. membership_merge lib calm clock t m = (None, t') \<and> table_inv t' \<and> local_id t' = local_id t \<and>
    member_of t' (member_id m) = Some (m\<lparr>observed_ms := clock, local_registration := True\<rparr>)"
proof -
  have n: "find_member_index_locked t (member_id m) = None" using assms(7) by (simp add: member_of_def)
  have l: "\<not> node_id_equal (member_id m) (local_id t)" using assms(5,6) local_id_length [OF assms(1)] by simp
  obtain c where g: "grow_members_locked calm t = (None, t\<lparr>member_capacity := c\<rparr>)" "length (members t) < c"
    using grow_calm [OF assms(2) inv_capacity [OF assms(1)]] by blast
  let ?m = "m\<lparr>observed_ms := clock, local_registration := True\<rparr>" let ?t = "t\<lparr>member_capacity := c, members := members t @ [?m]\<rparr>"
  have r: "membership_merge lib calm clock t m = (None, ?t)"
    using assms(3,4) l n g(1) by (simp add: membership_merge_def)
  have inv: "table_inv ?t" using change_inv [OF assms(1) merge_change [OF assms(1,5)], of lib calm clock] r by simp
  have "member_of ?t (member_id m) = Some ?m"
    unfolding member_of_iff [OF inv assms(5)] by (simp add: member_id_node)
  with r inv show ?thesis by (intro exI [of _ ?t]) simp
qed

lemma merge_refused:
  assumes "member_of t (member_id m) = Some old" "node_validate lib (member_node m)" "role (member_node m) = NODE_ROLE_SUPERPEER"
    "\<not> accepts_rumour t old m"
  shows "membership_merge lib calm clock t m = (None, t)"
  using assms by (auto simp: membership_merge_def member_of_def Let_def split: option.split)

text \<open>
The outcome of rumours depends on their order. Of two records of the same node and incarnation,
one with the higher sequence number and one that says the node was removed, the table keeps the one
that arrived first: two Super Peers that hear both in different orders disagree, and hearing them
again changes neither table.
\<close>
theorem membership_merge_order_matters:
  assumes "table_inv t" "length (members t) < 65536" "member_of t i = None" "length i = ID_SIZE" "i \<noteq> local_id t"
    "node_validate lib (member_node a)" "role (member_node a) = NODE_ROLE_SUPERPEER" "member_id a = i"
    "node_validate lib (member_node b)" "role (member_node b) = NODE_ROLE_SUPERPEER" "member_id b = i"
    "incarnation a = incarnation b" "member_sequence b < member_sequence a"
    "member_state a = SUPERPEER_MEMBER_ALIVE" "member_state b = SUPERPEER_MEMBER_REMOVED"
  shows "\<exists>ta tb. membership_merge lib calm clock t a = (None, ta) \<and> membership_merge lib calm clock ta b = (None, ta) \<and>
    membership_merge lib calm clock t b = (None, tb) \<and> membership_merge lib calm clock tb a = (None, tb) \<and>
    map_option member_state (member_of ta i) = Some SUPERPEER_MEMBER_ALIVE \<and>
    map_option member_state (member_of tb i) = Some SUPERPEER_MEMBER_REMOVED"
proof -
  obtain ta where ta: "membership_merge lib calm clock t a = (None, ta)"
    "member_of ta i = Some (a\<lparr>observed_ms := clock, local_registration := True\<rparr>)"
    using merge_new [OF assms(1,2,6,7)] assms(3-5,8) by auto
  obtain tb where tb: "membership_merge lib calm clock t b = (None, tb)"
    "member_of tb i = Some (b\<lparr>observed_ms := clock, local_registration := True\<rparr>)"
    using merge_new [OF assms(1,2,9,10)] assms(3-5,11) by auto
  have "membership_merge lib calm clock ta b = (None, ta)"
    by (rule merge_refused) (use ta(2) assms in \<open>auto simp: accepts_rumour_def newer_record_def\<close>)
  moreover have "membership_merge lib calm clock tb a = (None, tb)"
    by (rule merge_refused) (use tb(2) assms in \<open>auto simp: accepts_rumour_def\<close>)
  ultimately show ?thesis using ta tb assms(14,15) by auto
qed

theorem membership_merge_order_matters_witness:
  "\<exists>ta tb. membership_merge byte_lib calm 0 sample_table ((sample_member 3)\<lparr>member_sequence := 5\<rparr>) = (None, ta) \<and>
    membership_merge byte_lib calm 0 ta ((sample_member 3)\<lparr>member_sequence := 3, member_state := SUPERPEER_MEMBER_REMOVED\<rparr>) = (None, ta) \<and>
    membership_merge byte_lib calm 0 sample_table ((sample_member 3)\<lparr>member_sequence := 3, member_state := SUPERPEER_MEMBER_REMOVED\<rparr>) = (None, tb) \<and>
    membership_merge byte_lib calm 0 tb ((sample_member 3)\<lparr>member_sequence := 5\<rparr>) = (None, tb) \<and>
    map_option member_state (member_of ta (replicate 32 3)) = Some SUPERPEER_MEMBER_ALIVE \<and>
    map_option member_state (member_of tb (replicate 32 3)) = Some SUPERPEER_MEMBER_REMOVED"
proof (rule membership_merge_order_matters [OF sample_table_inv])
  have n: "find_member_index_locked sample_table (replicate 32 3) = None"
    by (simp add: find_member_index_locked_def sample_table_def ID_SIZE_def)
  then show "member_of sample_table (replicate 32 3) = None" by (simp add: member_of_def)
  have v: "node_validate byte_lib (member_node (sample_member 3))"
    using encode_record [OF sample_record_wf [of 3]] by (simp add: gossip_encode_record_def split: if_splits)
  show "node_validate byte_lib (member_node ((sample_member 3)\<lparr>member_sequence := 5\<rparr>))"
    "node_validate byte_lib (member_node ((sample_member 3)\<lparr>member_sequence := 3, member_state := SUPERPEER_MEMBER_REMOVED\<rparr>))"
    using v by simp_all
  show "length (members sample_table) < 65536" by (simp add: sample_table_def)
qed (simp_all add: sample_member_def sample_node_def set_member_def member_id_def ID_SIZE_def)

end
