(* ===== verification/C4_Cluster.thy ===== *)
theory C4_Cluster
  imports C4_Recovery Membership
begin

text \<open>
  The replication cluster of the Super Peers (\<^verbatim>\<open>c4_cluster.c\<close>): election of a coordinator, incremental
  transfer of log entries, and two-phase commit of submitted operations over the logs.

  A remote call takes the state of the world outside the node, of any type \<open>'w\<close>, and returns the
  reply, a message type with its payload, and the world after the call; the handler on the other side is
  an instance of such a call. The callback that applies entries is the argument \<open>apply\<close> on
  a context of any type \<open>'c\<close>; a missing callback is the one that does nothing. \<open>c4_cluster_submit\<close>
  and \<open>c4_cluster_tick\<close> report \<open>-1\<close> as false, without the value of \<open>errno\<close>; where the handler refuses a request without setting
  \<open>errno\<close> (a payload of the wrong size, a transaction other than that of the header) the model answers \<open>EINVAL\<close>. The mutex of
  the cluster protects single accesses to its fields; an operation is one step here, so two operations of the
  same node do not interleave.
\<close>

section \<open>Data\<close>

definition C4_ELECTION_PAYLOAD_SIZE :: nat where
  "C4_ELECTION_PAYLOAD_SIZE = 24"

definition C4_COORDINATOR_PAYLOAD_SIZE :: nat where
  "C4_COORDINATOR_PAYLOAD_SIZE = 16"

definition C4_FORWARD_OWNER_SIZE :: nat where
  "C4_FORWARD_OWNER_SIZE = 32"

definition C4_ELECTION_RETRY_MS :: int where
  "C4_ELECTION_RETRY_MS = 1500"

record 'c C4Cluster =
  cl_local :: Node
  cl_members :: SuperPeer
  cl_log :: C4Log
  cl_context :: 'c
  leader :: NodeID
  current_term :: u64
  election_requested :: bool
  election_waiting :: bool
  election_started_ms :: int

type_synonym 'c applier = "'c \<Rightarrow> C4LogEntry \<Rightarrow> errno option \<times> 'c"
type_synonym reply = "byte \<times> byte list"
type_synonym 'w remote = "'w \<Rightarrow> SuperPeerMember \<Rightarrow> byte \<Rightarrow> byte list option \<Rightarrow> byte list \<Rightarrow> reply result \<times> 'w"

definition self_id :: "'c C4Cluster \<Rightarrow> NodeID" where
  "self_id cl = id_of (cl_local cl)"

definition c4_id_is_zero :: "NodeID \<Rightarrow> bool" where
  "c4_id_is_zero i \<longleftrightarrow> memcmp i (replicate ID_SIZE 0) = 0"

definition c4_alive_superpeers :: "os \<Rightarrow> 'c C4Cluster \<Rightarrow> SuperPeerMember list result" where
  "c4_alive_superpeers os cl = membership_snapshot os (cl_members cl)"

text \<open>The condition under which the loops over a snapshot call a member.\<close>

definition live_superpeer :: "SuperPeerMember \<Rightarrow> bool" where
  "live_superpeer m \<longleftrightarrow> role (member_node m) = NODE_ROLE_SUPERPEER \<and> member_state m < SUPERPEER_MEMBER_FAILED"

definition replica :: "'c C4Cluster \<Rightarrow> SuperPeerMember \<Rightarrow> bool" where
  "replica cl m \<longleftrightarrow> live_superpeer m \<and> \<not> node_id_equal (member_id m) (self_id cl)"

definition c4_count_live_superpeers :: "'c C4Cluster \<Rightarrow> SuperPeerMember list \<Rightarrow> nat" where
  "c4_count_live_superpeers cl ms = 1 + length (filter (replica cl) ms)"

definition c4_member_is_live_superpeer :: "os \<Rightarrow> 'c C4Cluster \<Rightarrow> NodeID \<Rightarrow> SuperPeerMember result" where
  "c4_member_is_live_superpeer os cl i =
     (case superpeer_find_member os (cl_members cl) i of Inl _ \<Rightarrow> Inl EACCES
      | Inr m \<Rightarrow> if live_superpeer m then Inr m else Inl EACCES)"

definition c4_apply_new_entry :: "'c applier \<Rightarrow> 'c C4Cluster \<Rightarrow> C4LogEntry \<Rightarrow> errno option \<times> 'c C4Cluster" where
  "c4_apply_new_entry apply cl e =
     (let (r, c) = apply (cl_context cl) e in (r, cl\<lparr>cl_context := c\<rparr>))"

definition c4_source_is_active_leader :: "os \<Rightarrow> 'c C4Cluster \<Rightarrow> NodeID \<Rightarrow> errno option" where
  "c4_source_is_active_leader os cl source =
     (if c4_id_is_zero (leader cl) \<or> leader cl \<noteq> source then Some EACCES
      else case c4_member_is_live_superpeer os cl source of Inl e \<Rightarrow> Some e | Inr _ \<Rightarrow> None)"

section \<open>The identifiers seen in a batch\<close>

definition c4_transaction_hash :: "byte list \<Rightarrow> u64" where
  "c4_transaction_hash i = foldl (\<lambda>h b. (h XOR ucast b) * 1099511628211) 1469598103934665603 i"

type_synonym seen = "byte list option list"

function grow_capacity :: "nat \<Rightarrow> nat \<Rightarrow> nat" where
  "grow_capacity cap want = (if 0 < cap \<and> cap < want then grow_capacity (cap * 2) want else cap)"
  by pat_completeness auto
termination by (relation "measure (\<lambda>(cap, want). want - cap)") auto

declare grow_capacity.simps [simp del]

text \<open>
  The probing loop; \<open>Endless\<close> is a search of the whole table without a result. The capacity is a power of two, so
  the mask of the code is the remainder.
\<close>

datatype probe = Free nat | Duplicate | Endless

primrec seen_probe :: "nat \<Rightarrow> seen \<Rightarrow> byte list \<Rightarrow> nat \<Rightarrow> probe" where
  "seen_probe 0 table i k = Endless"
| "seen_probe (Suc fuel) table i k =
     (case table ! k of None \<Rightarrow> Free k
      | Some j \<Rightarrow> if j = i then Duplicate else seen_probe fuel table i ((k + 1) mod length table))"

definition seen_start :: "seen \<Rightarrow> byte list \<Rightarrow> nat" where
  "seen_start table i = unat (c4_transaction_hash i AND (of_nat (length table) - 1))"

section \<open>Incremental state transfer\<close>

text \<open>
  The checks of one batch: \<open>n\<close> entries remain from the offset \<open>cursor\<close> on. The call sites of entry
  \<open>k\<close> are its decoding (0) and the lookup of its transaction (1).
\<close>

primrec ist_entries ::
  "nat \<Rightarrow> zcrc \<Rightarrow> os \<Rightarrow> C4Log \<Rightarrow> nat \<Rightarrow> byte list \<Rightarrow> nat \<Rightarrow> u64 \<Rightarrow> u64 \<Rightarrow> seen \<Rightarrow> C4LogEntry list result" where
  "ist_entries 0 crc os log k bytes cursor index version table =
     (if cursor \<noteq> length bytes then Inl EBADMSG else Inr [])"
| "ist_entries (Suc n) crc os log k bytes cursor index version table =
     (if length bytes - 4 < cursor then Inl EBADMSG
      else
        let size = unat (wire_get_u32 (drop cursor bytes)); cursor = cursor + 4 in
        if length bytes - cursor < size then Inl EBADMSG
        else case c4_log_entry_decode crc (at (at os k) 0) (take size (drop cursor bytes)) of
          Inl _ \<Rightarrow> Inl EBADMSG
        | Inr e \<Rightarrow>
            if entry_index e \<noteq> index + 1 \<or> entry_version e \<noteq> version + 1 then Inl EBADMSG
            else case c4_log_get_transaction (at (at os k) 1) log (transaction_id e) of
              Inr _ \<Rightarrow> Inl EEXIST
            | Inl er \<Rightarrow>
                if er \<noteq> ENOENT then Inl er
                else case seen_probe (length table) table (transaction_id e) (seen_start table (transaction_id e)) of
                  Duplicate \<Rightarrow> Inl EEXIST
                | Endless \<Rightarrow> Inl ELOOP
                | Free j \<Rightarrow>
                    (case ist_entries n crc os log (Suc k) bytes (cursor + size) (entry_index e) (entry_version e)
                        (table[j := Some (transaction_id e)]) of
                       Inl er \<Rightarrow> Inl er
                     | Inr es \<Rightarrow> Inr (e # es)))"

text \<open>The entries of a checked batch are appended and applied one after the other.\<close>

fun ist_append :: "zcrc \<Rightarrow> os \<Rightarrow> 'c applier \<Rightarrow> nat \<Rightarrow> C4LogEntry list \<Rightarrow> 'c C4Cluster \<Rightarrow> errno option \<times> 'c C4Cluster" where
  "ist_append crc os apply k [] cl = (None, cl)"
| "ist_append crc os apply k (e # es) cl =
     (case c4_log_append_entry crc (at os k) (cl_log cl) e of
        (Some er, log) \<Rightarrow> (Some er, cl\<lparr>cl_log := log\<rparr>)
      | (None, log) \<Rightarrow>
          (case c4_apply_new_entry apply (cl\<lparr>cl_log := log\<rparr>) e of
             (Some er, cl) \<Rightarrow> (Some er, cl)
           | (None, cl) \<Rightarrow> ist_append crc os apply (Suc k) es cl))"

text \<open>The indices of a checked batch rise: the loop over batches ends.\<close>

lemma ist_entries_rise:
  "ist_entries n crc os log k bytes cursor index version table = Inr es \<Longrightarrow> n \<noteq> 0 \<Longrightarrow>
     es \<noteq> [] \<and> unat index < unat (entry_index (last es))"
proof (induction n arbitrary: k cursor index version table es)
  case (Suc n)
  then obtain e es' cursor' k' table' where e: "entry_index e = index + 1" "entry_index e \<noteq> 0" "es = e # es'"
    "ist_entries n crc os log k' bytes cursor' (entry_index e) (entry_version e) table' = Inr es'"
    by (auto simp: Let_def dest: decode_Inr(4) split: if_splits sum.splits probe.splits)
  then have lt: "unat index < unat (entry_index e)"
    by (metis Suc_eq_plus1 lessI unatSuc unat_word_ariths(1) add.commute)
  show ?case
  proof (cases "n = 0")
    case True
    then have "es' = []" using e(4) by (simp split: if_splits)
    then show ?thesis using lt e(3) by simp
  next
    case False
    then show ?thesis using Suc.IH [OF e(4)] lt e(3) by auto
  qed
qed simp

lemma recover_measure:
  assumes "n \<noteq> 0" "ist_entries n crc os log k bytes cursor index version table = Inr es"
  shows "2 ^ 64 - unat (entry_index (last es)) < 2 ^ 64 - unat index"
proof -
  have "unat index < unat (entry_index (last es))" using ist_entries_rise [OF assms(2,1)] by simp
  moreover have "unat (entry_index (last es)) < 2 ^ 64" using unsigned_less [of "entry_index (last es)", where 'a = nat] by simp
  ultimately show ?thesis by simp
qed

text \<open>
  The call sites of a round are the two allocations (0, 1), the checks (2) and the appending (3).
\<close>

function recover_loop ::
  "zcrc \<Rightarrow> os \<Rightarrow> 'c applier \<Rightarrow> 'w remote \<Rightarrow> SuperPeerMember \<Rightarrow> nat \<Rightarrow> u64 \<Rightarrow> u64 \<Rightarrow> 'c C4Cluster \<Rightarrow> 'w \<Rightarrow>
   errno option \<times> 'c C4Cluster \<times> 'w" where
  "recover_loop crc os apply rpc m k last_index last_version cl w =
     (case rpc w m (m_type M_IST_REQUEST) None (wire_put_u64 last_index @ wire_put_u64 last_version) of
        (Inl e, w) \<Rightarrow> (Some e, cl, w)
      | (Inr (type, bytes), w) \<Rightarrow>
          if type \<noteq> m_type M_IST_BATCH \<or> length bytes < 4
          then (Some (if type = m_type M_ERROR then remote_error_decode bytes else EBADMSG), cl, w)
          else
            let count = unat (wire_get_u32 bytes) in
            if count = 0 then (if length bytes \<noteq> 4 then Some EBADMSG else None, cl, w)
            else if (length bytes - 4) div 48 < count then (Some EBADMSG, cl, w)
            else case List.find (\<lambda>j. fault (at (at os k) j) \<noteq> None) [0, 1] of
              Some j \<Rightarrow> (fault (at (at os k) j), cl, w)
            | None \<Rightarrow>
                (case ist_entries count crc (at (at os k) 2) (cl_log cl) 0 bytes 4 last_index last_version
                    (replicate (grow_capacity 1 (count * 2)) None) of
                   Inl e \<Rightarrow> (Some e, cl, w)
                 | Inr es \<Rightarrow>
                     (case ist_append crc (at (at os k) 3) apply 0 es cl of
                        (Some e, cl) \<Rightarrow> (Some e, cl, w)
                      | (None, cl) \<Rightarrow>
                          recover_loop crc os apply rpc m (Suc k) (entry_index (last es)) (entry_version (last es)) cl w)))"
  by pat_completeness auto

termination
proof (relation "measure (\<lambda>(crc, os, apply, rpc, m, k, last_index, last_version, cl, w). 2 ^ 64 - unat last_index)", goal_cases)
  case 2
  show ?case unfolding in_measure split_conv by (rule recover_measure [OF 2(6,9)])
qed simp

declare recover_loop.simps [simp del]

definition c4_recover_from_member ::
  "zcrc \<Rightarrow> os \<Rightarrow> 'c applier \<Rightarrow> 'w remote \<Rightarrow> SuperPeerMember \<Rightarrow> 'c C4Cluster \<Rightarrow> 'w \<Rightarrow> errno option \<times> 'c C4Cluster \<times> 'w" where
  "c4_recover_from_member crc os apply rpc m cl w =
     recover_loop crc os apply rpc m 0 (c4_log_last_index (cl_log cl)) (c4_log_last_version (cl_log cl)) cl w"

section \<open>Election\<close>

definition c4_broadcast_coordinator :: "'w remote \<Rightarrow> 'c C4Cluster \<Rightarrow> SuperPeerMember list \<Rightarrow> u64 \<Rightarrow> 'w \<Rightarrow> 'w" where
  "c4_broadcast_coordinator rpc cl ms number w =
     fold (\<lambda>m w. if replica cl m
        then snd (rpc w m (m_type M_COORDINATOR) None (wire_put_u64 number @ wire_put_u64 (c4_log_last_index (cl_log cl)))) else w) ms w"

text \<open>All entries to one member, \<open>n\<close> of them from number \<open>i\<close> on.\<close>

primrec send_entries :: "nat \<Rightarrow> zcrc \<Rightarrow> os \<Rightarrow> 'w remote \<Rightarrow> C4Log \<Rightarrow> SuperPeerMember \<Rightarrow> u64 \<Rightarrow> 'w \<Rightarrow> bool \<times> 'w" where
  "send_entries 0 crc os rpc log m i w = (True, w)"
| "send_entries (Suc n) crc os rpc log m i w =
     (case c4_log_get (at (at os n) 0) log i of Inl _ \<Rightarrow> (False, w)
      | Inr e \<Rightarrow>
          (case c4_log_entry_encode crc (at (at os n) 1) e of Inl _ \<Rightarrow> (False, w)
           | Inr wire \<Rightarrow>
               (case rpc w m (m_type M_STATE_TRANSFER) None wire of
                  (Inr (type, _), w) \<Rightarrow> if type = m_type M_ACK then send_entries n crc os rpc log m (i + 1) w else (False, w)
                | (Inl _, w) \<Rightarrow> (False, w))))"

fun c4_broadcast_log :: "zcrc \<Rightarrow> os \<Rightarrow> 'w remote \<Rightarrow> 'c C4Cluster \<Rightarrow> SuperPeerMember list \<Rightarrow> 'w \<Rightarrow> bool \<times> 'w" where
  "c4_broadcast_log crc os rpc cl [] w = (True, w)"
| "c4_broadcast_log crc os rpc cl (m # ms) w =
     (if replica cl m then
        (case send_entries (length (entries (cl_log cl))) crc (at os (length ms)) rpc (cl_log cl) m 1 w of
           (False, w) \<Rightarrow> (False, w)
         | (True, w) \<Rightarrow> c4_broadcast_log crc os rpc cl ms w)
      else c4_broadcast_log crc os rpc cl ms w)"

text \<open>The entries of all replicas are fetched first; false where their logs contradict the local one.\<close>

fun recover_from_all ::
  "zcrc \<Rightarrow> os \<Rightarrow> 'c applier \<Rightarrow> 'w remote \<Rightarrow> SuperPeerMember list \<Rightarrow> 'c C4Cluster \<Rightarrow> 'w \<Rightarrow> bool \<times> 'c C4Cluster \<times> 'w" where
  "recover_from_all crc os apply rpc [] cl w = (True, cl, w)"
| "recover_from_all crc os apply rpc (m # ms) cl w =
     (if replica cl m then
        (case c4_recover_from_member crc (at os (length ms)) apply rpc m cl w of
           (r, cl, w) \<Rightarrow>
             if r = Some EBADMSG \<or> r = Some EEXIST \<or> r = Some ERANGE then (False, cl, w)
             else recover_from_all crc os apply rpc ms cl w)
      else recover_from_all crc os apply rpc ms cl w)"

definition c4_become_coordinator ::
  "zcrc \<Rightarrow> os \<Rightarrow> 'c applier \<Rightarrow> 'w remote \<Rightarrow> int \<Rightarrow> SuperPeerMember list \<Rightarrow> 'c C4Cluster \<Rightarrow> 'w \<Rightarrow> bool \<times> 'c C4Cluster \<times> 'w" where
  "c4_become_coordinator crc os apply rpc now ms cl w =
     (case recover_from_all crc (at os 0) apply rpc ms cl w of
        (False, cl, w) \<Rightarrow>
          (False, cl\<lparr>election_requested := True, election_waiting := True, election_started_ms := now\<rparr>, w)
      | (True, cl, w) \<Rightarrow>
          (let number = current_term cl + 1;
               cl = cl\<lparr>current_term := number, leader := self_id cl, election_waiting := False, election_requested := False\<rparr>;
               w = c4_broadcast_coordinator rpc cl ms number w;
               (_, w) = c4_broadcast_log crc (at os 1) rpc cl ms w in
           (True, cl, w)))"

section \<open>Creation\<close>

primrec apply_entries :: "nat \<Rightarrow> os \<Rightarrow> 'c applier \<Rightarrow> u64 \<Rightarrow> 'c C4Cluster \<Rightarrow> errno option \<times> 'c C4Cluster" where
  "apply_entries 0 os apply i cl = (None, cl)"
| "apply_entries (Suc n) os apply i cl =
     (case c4_log_get (at os n) (cl_log cl) i of Inl e \<Rightarrow> (Some e, cl)
      | Inr e \<Rightarrow>
          (case c4_apply_new_entry apply cl e of (Some er, cl) \<Rightarrow> (Some er, cl)
           | (None, cl) \<Rightarrow> apply_entries n os apply (i + 1) cl))"

text \<open>The call sites are the allocation (0), the mutex (1), the log (2) and the reading of its entries (3).\<close>

definition c4_cluster_create ::
  "zcrc \<Rightarrow> os \<Rightarrow> 'c applier \<Rightarrow> 'c \<Rightarrow> Node \<Rightarrow> SuperPeer \<Rightarrow> byte list \<Rightarrow> byte list \<Rightarrow> 'c C4Cluster result" where
  "c4_cluster_create crc os apply context n t log_bytes journal =
     (case List.find (\<lambda>k. fault (at os k) \<noteq> None) [0, 1] of Some k \<Rightarrow> Inl (the (fault (at os k)))
      | None \<Rightarrow>
          (case c4_log_open crc (at os 2) log_bytes journal of
             (Some e, _) \<Rightarrow> Inl e
           | (None, log) \<Rightarrow>
               (let cl = \<lparr>cl_local = n, cl_members = t, cl_log = log, cl_context = context, leader = replicate ID_SIZE 0,
                      current_term = 0, election_requested = False, election_waiting = False, election_started_ms = 0\<rparr> in
                case apply_entries (length (entries log)) (at os 3) apply 1 cl of
                  (Some e, _) \<Rightarrow> Inl e
                | (None, cl) \<Rightarrow> Inr (cl\<lparr>election_requested := True\<rparr>))))"

section \<open>Requests of other nodes\<close>

text \<open>
  Filling a batch: \<open>acc\<close> is what follows the first four bytes, so the cursor is the \<open>uint32_t\<close> value of
  \<open>4 + length acc\<close>; \<open>n\<close> entries remain from number \<open>i\<close> on. The buffer has \<open>MAX_PAYLOAD_SIZE\<close> bytes,
  which the list does not enforce.
\<close>

primrec ist_fill :: "nat \<Rightarrow> zcrc \<Rightarrow> os \<Rightarrow> C4Log \<Rightarrow> u64 \<Rightarrow> byte list \<Rightarrow> u32 \<Rightarrow> (byte list \<times> u32) result" where
  "ist_fill 0 crc os log i acc count = Inr (acc, count)"
| "ist_fill (Suc n) crc os log i acc count =
     (case c4_log_get (at (at os n) 0) log i of Inl er \<Rightarrow> Inl er
      | Inr e \<Rightarrow>
          (case c4_log_entry_encode crc (at (at os n) 1) e of Inl er \<Rightarrow> Inl er
           | Inr encoded \<Rightarrow>
               let cursor = of_nat (4 + length acc) :: u32; size = of_nat (length encoded) :: u32 in
               if MAX_PAYLOAD_SIZE - cursor - 4 < size
               then (if count = 0 then Inl EMSGSIZE else Inr (acc, count))
               else ist_fill n crc os log (i + 1) (acc @ wire_put_u32 size @ encoded) (count + 1)))"

definition serve_batch :: "zcrc \<Rightarrow> os \<Rightarrow> C4Log \<Rightarrow> u64 \<Rightarrow> u64 \<Rightarrow> reply result" where
  "serve_batch crc os log index version =
     (let last_index = c4_log_last_index log in
      if last_index < index then Inl ENOENT
      else if index = 0 \<and> version \<noteq> 0 then Inl ERANGE
      else
        case (if 0 < index then
                (case c4_log_get (at os 0) log index of Inl e \<Rightarrow> Some e
                 | Inr previous \<Rightarrow> if entry_version previous \<noteq> version then Some ERANGE else None)
              else None) of
          Some e \<Rightarrow> Inl e
        | None \<Rightarrow>
            (case fault (at os 1) of Some e \<Rightarrow> Inl e
             | None \<Rightarrow>
                 (case ist_fill (unat (last_index - index)) crc (at os 2) log (index + 1) [] 0 of
                    Inl e \<Rightarrow> Inl e
                  | Inr (acc, count) \<Rightarrow> Inr (m_type M_IST_BATCH, wire_put_u32 count @ acc))))"

text \<open>The call sites are the lookup of the source (0), then those of the operations in their order.\<close>

definition c4_cluster_handle ::
  "zcrc \<Rightarrow> os \<Rightarrow> 'c applier \<Rightarrow> 'w remote \<Rightarrow> 'c C4Cluster \<Rightarrow> message \<Rightarrow> 'w \<Rightarrow> reply result \<times> 'c C4Cluster \<times> 'w" where
  "c4_cluster_handle crc os apply rpc cl request w =
     (let h = message_header request; type = message_type h; source = source_node h; bytes = payload_bytes request;
          n = unat (header_payload_size h); tid = header_transaction_id h in
      if destination_node h \<noteq> self_id cl then (Inl EHOSTUNREACH, cl, w)
      else if type = m_type M_ELECTION then
        (if n \<noteq> C4_ELECTION_PAYLOAD_SIZE then (Inl EINVAL, cl, w)
         else case c4_member_is_live_superpeer (at os 0) cl source of Inl e \<Rightarrow> (Inl e, cl, w)
         | Inr _ \<Rightarrow>
             (Inr (m_type M_OK, []), if memcmp source (self_id cl) < 0 then cl\<lparr>election_requested := True\<rparr> else cl, w))
      else if type = m_type M_COORDINATOR then
        (if n \<noteq> C4_COORDINATOR_PAYLOAD_SIZE then (Inl EINVAL, cl, w)
         else case c4_member_is_live_superpeer (at os 0) cl source of Inl e \<Rightarrow> (Inl e, cl, w)
         | Inr m \<Rightarrow>
             (let number = wire_get_u64 bytes in
              if number < current_term cl \<or> memcmp source (self_id cl) < 0 then (Inl ESTALE, cl, w)
              else
                let cl = cl\<lparr>current_term := number, leader := source, election_requested := False, election_waiting := False\<rparr> in
                case c4_recover_from_member crc (at os 1) apply rpc m cl w of
                  (Some e, cl, w) \<Rightarrow> (Inl e, if leader cl = source then cl\<lparr>leader := replicate ID_SIZE 0\<rparr> else cl, w)
                | (None, cl, w) \<Rightarrow> (Inr (m_type M_ACK, []), cl, w)))
      else if type = m_type M_IST_REQUEST then
        (if n \<noteq> 16 then (Inl EINVAL, cl, w)
         else case c4_member_is_live_superpeer (at os 0) cl source of Inl e \<Rightarrow> (Inl e, cl, w)
         | Inr _ \<Rightarrow> (serve_batch crc (at os 1) (cl_log cl) (wire_get_u64 bytes) (wire_get_u64 (drop 8 bytes)), cl, w))
      else if type = m_type M_SNAPSHOT then
        (if n \<noteq> 8 then (Inl EINVAL, cl, w)
         else case c4_member_is_live_superpeer (at os 0) cl source of Inl e \<Rightarrow> (Inl e, cl, w)
         | Inr _ \<Rightarrow>
             (case c4_log_get (at os 1) (cl_log cl) (wire_get_u64 bytes) of
                Inr e \<Rightarrow>
                  (case c4_log_entry_encode crc (at os 2) e of Inl er \<Rightarrow> (Inl er, cl, w)
                   | Inr encoded \<Rightarrow> (Inr (m_type M_ACK, encoded), cl, w))
              | Inl er \<Rightarrow> if er = ENOENT then (Inr (m_type M_ACK, []), cl, w) else (Inl er, cl, w)))
      else if type = m_type M_STATE_TRANSFER then
        (case c4_source_is_active_leader (at os 0) cl source of Some e \<Rightarrow> (Inl e, cl, w)
         | None \<Rightarrow>
             (case c4_log_entry_decode crc (at os 1) bytes of Inl e \<Rightarrow> (Inl e, cl, w)
              | Inr e \<Rightarrow>
                  (case c4_log_append_entry crc (at os 2) (cl_log cl) e of
                     (Some er, log) \<Rightarrow> (Inl er, cl\<lparr>cl_log := log\<rparr>, w)
                   | (None, log) \<Rightarrow>
                       (case c4_apply_new_entry apply (cl\<lparr>cl_log := log\<rparr>) e of
                          (Some er, cl) \<Rightarrow> (Inl er, cl, w)
                        | (None, cl) \<Rightarrow> (Inr (m_type M_ACK, []), cl, w)))))
      else if type = m_type M_PREPARE then
        (case c4_source_is_active_leader (at os 0) cl source of Some e \<Rightarrow> (Inl e, cl, w)
         | None \<Rightarrow>
             (case c4_log_entry_decode crc (at os 1) bytes of Inl e \<Rightarrow> (Inl e, cl, w)
              | Inr e \<Rightarrow>
                  if transaction_id e \<noteq> tid then (Inl EINVAL, cl, w)
                  else case c4_log_prepare crc (at os 2) (cl_log cl) e of
                    (Some er, log) \<Rightarrow> (Inl er, cl\<lparr>cl_log := log\<rparr>, w)
                  | (None, log) \<Rightarrow> (Inr (m_type M_ACK, []), cl\<lparr>cl_log := log\<rparr>, w)))
      else if type = m_type M_COMMIT \<or> type = m_type M_ABORT then
        (if n \<noteq> 0 then (Inl EINVAL, cl, w)
         else case c4_source_is_active_leader (at os 0) cl source of Some e \<Rightarrow> (Inl e, cl, w)
         | None \<Rightarrow>
             if type = m_type M_ABORT then
               (case c4_log_abort crc (at os 1) (cl_log cl) tid of
                  (Some er, log) \<Rightarrow> (Inl er, cl\<lparr>cl_log := log\<rparr>, w)
                | (None, log) \<Rightarrow> (Inr (m_type M_ACK, []), cl\<lparr>cl_log := log\<rparr>, w))
             else
               (case c4_log_commit crc (at os 1) (cl_log cl) tid True of
                  (Inl er, log) \<Rightarrow> (Inl er, cl\<lparr>cl_log := log\<rparr>, w)
                | (Inr e, log) \<Rightarrow>
                    (case c4_apply_new_entry apply (cl\<lparr>cl_log := log\<rparr>) e of
                       (Some er, cl) \<Rightarrow> (Inl er, cl, w)
                     | (None, cl) \<Rightarrow> (Inr (m_type M_ACK, []), cl, w))))
      else (Inl ENOTSUP, cl, w))"

section \<open>The periodic step\<close>

text \<open>The part under the mutex: whether the leader is gone, outranked, or the wait for one is over.\<close>

definition tick_state :: "os \<Rightarrow> int \<Rightarrow> SuperPeerMember list \<Rightarrow> 'c C4Cluster \<Rightarrow> bool \<times> 'c C4Cluster" where
  "tick_state os now ms cl =
     (let cl = (if \<not> c4_id_is_zero (leader cl) \<and> \<not> node_id_equal (leader cl) (self_id cl) \<and>
                   (case superpeer_find_member os (cl_members cl) (leader cl) of Inl _ \<Rightarrow> True
                    | Inr m \<Rightarrow> SUPERPEER_MEMBER_FAILED \<le> member_state m)
                then cl\<lparr>leader := replicate ID_SIZE 0, election_requested := True\<rparr> else cl);
          outranked = (node_id_equal (leader cl) (self_id cl) \<and>
             list_ex (\<lambda>m. live_superpeer m \<and> 0 < memcmp (member_id m) (self_id cl)) ms);
          cl = (if outranked then cl\<lparr>election_requested := True\<rparr> else cl);
          expired = (election_waiting cl \<and> C4_ELECTION_RETRY_MS \<le> now - election_started_ms cl);
          request = (election_requested cl \<or> expired);
          cl = (if expired then cl\<lparr>election_waiting := False, election_requested := True\<rparr> else cl) in
      (request, cl))"

text \<open>The calls to the members of higher rank: whether one of them answered.\<close>

fun call_higher :: "'w remote \<Rightarrow> 'c C4Cluster \<Rightarrow> SuperPeerMember list \<Rightarrow> 'w \<Rightarrow> bool \<times> 'w" where
  "call_higher rpc cl [] w = (False, w)"
| "call_higher rpc cl (m # ms) w =
     (if live_superpeer m \<and> 0 < memcmp (member_id m) (self_id cl) then
        (case rpc w m (m_type M_ELECTION) None (wire_put_u64 (current_term cl) @
              wire_put_u64 (c4_log_last_index (cl_log cl)) @ wire_put_u64 (c4_log_last_version (cl_log cl))) of
           (r, w) \<Rightarrow>
             (let (answered, w) = call_higher rpc cl ms w in
              ((case r of Inr (type, _) \<Rightarrow> type = m_type M_OK | Inl _ \<Rightarrow> False) \<or> answered, w)))
      else call_higher rpc cl ms w)"

definition c4_cluster_tick ::
  "zcrc \<Rightarrow> os \<Rightarrow> 'c applier \<Rightarrow> 'w remote \<Rightarrow> int \<Rightarrow> 'c C4Cluster \<Rightarrow> 'w \<Rightarrow> bool \<times> 'c C4Cluster \<times> 'w" where
  "c4_cluster_tick crc os apply rpc now cl w =
     (case c4_alive_superpeers (at os 0) cl of Inl _ \<Rightarrow> (False, cl, w)
      | Inr ms \<Rightarrow>
          (let (request, cl) = tick_state (at os 1) now ms cl in
           if \<not> request then (True, cl, w)
           else case call_higher rpc cl ms w of
             (True, w) \<Rightarrow> (True, cl\<lparr>election_waiting := True, election_requested := False, election_started_ms := now\<rparr>, w)
           | (False, w) \<Rightarrow> (let (_, cl, w) = c4_become_coordinator crc (at os 2) apply rpc now ms cl w in (True, cl, w))))"

section \<open>Submitting an operation\<close>

definition c4_cluster_is_leader :: "'c C4Cluster \<Rightarrow> bool" where
  "c4_cluster_is_leader cl \<longleftrightarrow> node_id_equal (leader cl) (self_id cl)"

text \<open>One message of a transaction to every replica in turn: which of them acknowledged.\<close>

fun call_replicas :: "'w remote \<Rightarrow> byte \<Rightarrow> byte list \<Rightarrow> byte list \<Rightarrow> SuperPeerMember list \<Rightarrow> 'w \<Rightarrow> bool list \<times> 'w" where
  "call_replicas rpc type tid bytes [] w = ([], w)"
| "call_replicas rpc type tid bytes (m # ms) w =
     (case rpc w m type (Some tid) bytes of
        (r, w) \<Rightarrow>
          (let (rs, w) = call_replicas rpc type tid bytes ms w in
           ((case r of Inr (ty, _) \<Rightarrow> ty = m_type M_ACK | Inl _ \<Rightarrow> False) # rs, w)))"

text \<open>
  The two rounds of a transaction that the local log has prepared: one vote against it aborts it everywhere it was
  sent to, otherwise the local log commits before the replicas do.
\<close>

definition two_phase ::
  "zcrc \<Rightarrow> os \<Rightarrow> 'c applier \<Rightarrow> 'w remote \<Rightarrow> SuperPeerMember list \<Rightarrow> 'c C4Cluster \<Rightarrow> byte list \<Rightarrow> byte list \<Rightarrow> 'w \<Rightarrow>
   bool \<times> 'c C4Cluster \<times> 'w" where
  "two_phase crc os apply rpc ms cl tid wire w =
     (let replicas = filter (replica cl) ms;
          abort = (\<lambda>sent w.
            let (_, log) = c4_log_abort crc (at os 7) (cl_log cl) tid;
                (_, w) = call_replicas rpc (m_type M_ABORT) tid [] sent w in
            (False, cl\<lparr>cl_log := log\<rparr>, w)) in
      if fault (at os 5) \<noteq> None \<and> ms \<noteq> [] then abort [] w
      else
        let (acks, w) = call_replicas rpc (m_type M_PREPARE) tid wire replicas w in
        if \<not> list_all id acks \<or> length replicas + 1 \<noteq> c4_count_live_superpeers cl ms then abort replicas w
        else case c4_log_commit crc (at os 6) (cl_log cl) tid True of
          (Inl _, log) \<Rightarrow> (False, cl\<lparr>cl_log := log\<rparr>, w)
        | (Inr committed, log) \<Rightarrow>
            (case c4_apply_new_entry apply (cl\<lparr>cl_log := log\<rparr>) committed of
               (Some _, cl) \<Rightarrow> (False, cl, w)
             | (None, cl) \<Rightarrow>
                 (let (acks, w) = call_replicas rpc (m_type M_COMMIT) tid [] replicas w in
                  (list_all id acks, cl, w))))"

text \<open>
  The call sites are the snapshot (0), the allocations (1, 5), the lookup of the transaction (2), checksum, prepare and encoding (3,
  4, 8), commit (6) and abort (7). An allocation that fails after the preparation aborts.
\<close>

definition c4_cluster_submit ::
  "zcrc \<Rightarrow> os \<Rightarrow> 'c applier \<Rightarrow> 'w remote \<Rightarrow> 'c C4Cluster \<Rightarrow> byte list \<Rightarrow> NodeID \<Rightarrow> byte list \<Rightarrow> 'w \<Rightarrow>
   bool \<times> 'c C4Cluster \<times> 'w" where
  "c4_cluster_submit crc os apply rpc cl tid owner_id data w =
     (if data = [] \<or> unat MAX_PAYLOAD_SIZE - C4_FORWARD_OWNER_SIZE < length data then (False, cl, w)
      else if \<not> c4_cluster_is_leader cl then (False, cl, w)
      else case c4_alive_superpeers (at os 0) cl of Inl _ \<Rightarrow> (False, cl, w)
      | Inr ms \<Rightarrow>
          if fault (at os 1) \<noteq> None then (False, cl, w)
          else
            let operation = owner_id @ data; replicas = filter (replica cl) ms in
            case c4_log_get_transaction (at os 2) (cl_log cl) tid of
              Inr e \<Rightarrow>
                if payload_size e = of_nat (C4_FORWARD_OWNER_SIZE + length data) \<and> entry_payload e = operation then
                  (let (acks, w) = call_replicas rpc (m_type M_COMMIT) tid [] replicas w in
                   (1 + length (filter id acks) = c4_count_live_superpeers cl ms, cl, w))
                else (False, cl, w)
            | Inl er \<Rightarrow>
                if er \<noteq> ENOENT then (False, cl, w)
                else
                  let e = \<lparr>entry_index = c4_log_last_index (cl_log cl) + 1, entry_version = c4_log_last_version (cl_log cl) + 1,
                         transaction_id = tid, payload = Some operation, payload_size = of_nat (C4_FORWARD_OWNER_SIZE + length data),
                         checksum = 0\<rparr>;
                      e = e\<lparr>checksum := c4_log_entry_checksum crc (at os 3) e\<rparr> in
                  case c4_log_prepare crc (at os 4) (cl_log cl) e of
                    (Some _, log) \<Rightarrow> (False, cl\<lparr>cl_log := log\<rparr>, w)
                  | (None, log) \<Rightarrow>
                      (let cl = cl\<lparr>cl_log := log\<rparr> in
                       case c4_log_entry_encode crc (at os 8) e of
                         Inl _ \<Rightarrow> (False, cl, w)
                       | Inr wire \<Rightarrow> two_phase crc os apply rpc ms cl tid wire w))"

definition c4_cluster_get_leader :: "'c C4Cluster \<Rightarrow> NodeID option" where
  "c4_cluster_get_leader cl = (if c4_id_is_zero (leader cl) then None else Some (leader cl))"

definition c4_cluster_last_index :: "'c C4Cluster \<Rightarrow> u64" where
  "c4_cluster_last_index cl = c4_log_last_index (cl_log cl)"

section \<open>The table of seen identifiers is a set\<close>

definition seen_ids :: "seen \<Rightarrow> byte list set" where
  "seen_ids table = {i. Some i \<in> set table}"

text \<open>Every identifier lies at the end of a run of used slots that begins where its search begins.\<close>

definition seen_inv :: "seen \<Rightarrow> bool" where
  "seen_inv table \<longleftrightarrow> (\<forall>j < length table. \<forall>i. table ! j = Some i \<longrightarrow>
     (\<exists>d. j = (seen_start table i + d) mod length table \<and> (\<forall>d' < d. table ! ((seen_start table i + d') mod length table) \<noteq> None)))"

lemma seen_probe_Free:
  "seen_probe fuel table i k = Free j \<Longrightarrow> k < length table \<Longrightarrow>
     \<exists>d. j = (k + d) mod length table \<and> table ! j = None \<and>
       (\<forall>d' < d. table ! ((k + d') mod length table) \<noteq> None \<and> table ! ((k + d') mod length table) \<noteq> Some i)"
proof (induction fuel arbitrary: k)
  case (Suc fuel)
  show ?case
  proof (cases "table ! k")
    case None
    then show ?thesis using Suc.prems by (intro exI [of _ 0]) auto
  next
    case (Some x)
    then have x: "x \<noteq> i" and r: "seen_probe fuel table i ((k + 1) mod length table) = Free j"
      using Suc.prems by (auto split: if_splits)
    have "(k + 1) mod length table < length table" using Suc.prems(2) by (intro mod_less_divisor) linarith
    from Suc.IH [OF r this] obtain d where d: "j = ((k + 1) mod length table + d) mod length table" "table ! j = None"
      "\<forall>d' < d. table ! (((k + 1) mod length table + d') mod length table) \<noteq> None \<and>
         table ! (((k + 1) mod length table + d') mod length table) \<noteq> Some i" by blast
    have e: "((k + 1) mod length table + d') mod length table = (k + Suc d') mod length table" for d' by (simp add: mod_simps)
    have "table ! ((k + d') mod length table) \<noteq> None \<and> table ! ((k + d') mod length table) \<noteq> Some i" if "d' < Suc d" for d'
    proof (cases d')
      case 0
      then show ?thesis using Some x Suc.prems(2) by simp
    next
      case (Suc d'')
      then show ?thesis using that d(3) unfolding e by auto
    qed
    then show ?thesis using d(1,2) unfolding e by blast
  qed
qed simp

lemma seen_probe_Duplicate:
  "seen_probe fuel table i k = Duplicate \<Longrightarrow> k < length table \<Longrightarrow> i \<in> seen_ids table"
proof (induction fuel arbitrary: k)
  case (Suc fuel)
  show ?case
  proof (cases "table ! k = Some i")
    case True
    then show ?thesis using Suc.prems(2) nth_mem [of k table] by (auto simp: seen_ids_def)
  next
    case False
    have "(k + 1) mod length table < length table" using Suc.prems(2) by (intro mod_less_divisor) linarith
    with Suc False show ?thesis by (auto split: option.splits if_splits)
  qed
qed simp

lemma seen_probe_Endless:
  "seen_probe fuel table i k = Endless \<Longrightarrow> k < length table \<Longrightarrow> d < fuel \<Longrightarrow> table ! ((k + d) mod length table) \<noteq> None"
proof (induction fuel arbitrary: k d)
  case (Suc fuel)
  then have s: "table ! k \<noteq> None" "seen_probe fuel table i ((k + 1) mod length table) = Endless"
    by (auto split: option.splits if_splits)
  have l: "(k + 1) mod length table < length table" using Suc.prems(2) by (intro mod_less_divisor) linarith
  show ?case
  proof (cases d)
    case 0
    then show ?thesis using s(1) Suc.prems(2) by simp
  next
    case (Suc d')
    then have "table ! (((k + 1) mod length table + d') mod length table) \<noteq> None"
      using Suc.IH [OF s(2) l] Suc.prems(3) by simp
    then show ?thesis using Suc by (simp add: mod_simps)
  qed
qed simp

lemma mod_cover:
  assumes "(k :: nat) < n" "j < n"
  shows "\<exists>d < n. j = (k + d) mod n"
proof (cases "k \<le> j")
  case True
  then show ?thesis using assms by (intro exI [of _ "j - k"]) auto
next
  case False
  then have "(k + (n - k + j)) mod n = j" using assms by simp
  then show ?thesis using assms False by (intro exI [of _ "n - k + j"]) auto
qed

lemma seen_start_less:
  assumes "0 < length table" "length table \<le> 2 ^ 63"
  shows "seen_start table i < length table"
proof -
  have u: "unat (of_nat (length table) - 1 :: u64) = length table - 1"
  proof -
    obtain m where m: "length table = Suc m" using assms(1) by (cases table) auto
    then show ?thesis using assms(2) by (simp add: unat_of_nat take_bit_nat_eq_self)
  qed
  have "c4_transaction_hash i AND (of_nat (length table) - 1) \<le> of_nat (length table) - 1" by (rule word_and_le1)
  then have "unat (c4_transaction_hash i AND (of_nat (length table) - 1)) \<le> length table - 1"
    using u by (simp add: word_le_nat_alt)
  then show ?thesis unfolding seen_start_def using assms(1) by linarith
qed

text \<open>A search in a table with a free slot ends, and finds the identifier exactly when it is there.\<close>

lemma seen_probe_correct:
  assumes "seen_inv table" "None \<in> set table" "length table \<le> 2 ^ 63"
  shows "if i \<in> seen_ids table then seen_probe (length table) table i (seen_start table i) = Duplicate
    else \<exists>j < length table. seen_probe (length table) table i (seen_start table i) = Free j \<and> table ! j = None \<and>
      seen_inv (table[j := Some i]) \<and> seen_ids (table[j := Some i]) = insert i (seen_ids table)"
proof -
  let ?n = "length table" let ?s = "seen_start table i"
  have n: "0 < ?n" using assms(2) by auto
  have s: "?s < ?n" by (rule seen_start_less [OF n assms(3)])
  obtain j0 where j0: "j0 < ?n" "table ! j0 = None" using assms(2) by (auto simp: in_set_conv_nth)
  obtain d0 where "d0 < ?n" "j0 = (?s + d0) mod ?n" using mod_cover [OF s j0(1)] by blast
  then have "seen_probe ?n table i ?s \<noteq> Endless" using seen_probe_Endless [OF _ s] j0(2) by blast
  then consider "seen_probe ?n table i ?s = Duplicate" | j where "seen_probe ?n table i ?s = Free j"
    by (cases "seen_probe ?n table i ?s") auto
  then show ?thesis
  proof cases
    case 1
    then show ?thesis using seen_probe_Duplicate [OF 1 s] by simp
  next
    case (2 j)
    obtain d where d: "j = (?s + d) mod ?n" "table ! j = None"
      "\<forall>d' < d. table ! ((?s + d') mod ?n) \<noteq> None \<and> table ! ((?s + d') mod ?n) \<noteq> Some i"
      using seen_probe_Free [OF 2 s] by blast
    have j: "j < ?n" using d(1) n by simp
    have "i \<notin> seen_ids table"
    proof
      assume "i \<in> seen_ids table"
      then obtain j1 where "j1 < ?n" "table ! j1 = Some i" by (auto simp: seen_ids_def in_set_conv_nth)
      then obtain d1 where "table ! ((?s + d1) mod ?n) = Some i" "\<forall>d' < d1. table ! ((?s + d') mod ?n) \<noteq> None"
        using assms(1) unfolding seen_inv_def by metis
      with d show False by (metis linorder_neqE_nat option.distinct(1))
    qed
    moreover have "seen_ids (table[j := Some i]) = insert i (seen_ids table)"
    proof -
      have "Some x \<in> set (table[j := Some i]) \<longleftrightarrow> x = i \<or> Some x \<in> set table" for x
      proof
        show "Some x \<in> set (table[j := Some i]) \<Longrightarrow> x = i \<or> Some x \<in> set table"
          using set_update_subset_insert [of table j "Some i"] by auto
        assume "x = i \<or> Some x \<in> set table"
        then show "Some x \<in> set (table[j := Some i])"
        proof
          show "x = i \<Longrightarrow> Some x \<in> set (table[j := Some i])" using set_update_memI [OF j] by simp
          assume "Some x \<in> set table"
          then obtain p where p: "p < ?n" "table ! p = Some x" by (auto simp: in_set_conv_nth)
          then have "p \<noteq> j" using d(2) by auto
          then show "Some x \<in> set (table[j := Some i])" using p nth_mem [of p "table[j := Some i]"] by simp
        qed
      qed
      then show ?thesis by (auto simp: seen_ids_def)
    qed
    moreover have "seen_inv (table[j := Some i])"
      unfolding seen_inv_def length_list_update
    proof (intro allI impI)
      fix j1 i1 assume a: "j1 < ?n" "table[j := Some i] ! j1 = Some i1"
      have st: "seen_start (table[j := Some i]) x = seen_start table x" for x by (simp add: seen_start_def)
      have keep: "table[j := Some i] ! p \<noteq> None" if "table ! p \<noteq> None" for p using that j by (cases "p = j") auto
      show "\<exists>d. j1 = (seen_start (table[j := Some i]) i1 + d) mod ?n \<and>
          (\<forall>d' < d. table[j := Some i] ! ((seen_start (table[j := Some i]) i1 + d') mod ?n) \<noteq> None)"
      proof (cases "j1 = j")
        case True
        then have "i1 = i" using a j by simp
        then show ?thesis using True d(1,3) keep unfolding st by blast
      next
        case False
        then have "table ! j1 = Some i1" using a by simp
        then show ?thesis using assms(1) a(1) keep unfolding st seen_inv_def by blast
      qed
    qed
    ultimately show ?thesis using 2 j d(2) by auto
  qed
qed

section \<open>Batches\<close>

text \<open>The checks of a batch with a set in place of the table.\<close>

primrec batch_entries ::
  "nat \<Rightarrow> zcrc \<Rightarrow> os \<Rightarrow> C4Log \<Rightarrow> nat \<Rightarrow> byte list \<Rightarrow> nat \<Rightarrow> u64 \<Rightarrow> u64 \<Rightarrow> byte list set \<Rightarrow> C4LogEntry list result" where
  "batch_entries 0 crc os log k bytes cursor index version ids =
     (if cursor \<noteq> length bytes then Inl EBADMSG else Inr [])"
| "batch_entries (Suc n) crc os log k bytes cursor index version ids =
     (if length bytes - 4 < cursor then Inl EBADMSG
      else
        let size = unat (wire_get_u32 (drop cursor bytes)); cursor = cursor + 4 in
        if length bytes - cursor < size then Inl EBADMSG
        else case c4_log_entry_decode crc (at (at os k) 0) (take size (drop cursor bytes)) of
          Inl _ \<Rightarrow> Inl EBADMSG
        | Inr e \<Rightarrow>
            if entry_index e \<noteq> index + 1 \<or> entry_version e \<noteq> version + 1 then Inl EBADMSG
            else case c4_log_get_transaction (at (at os k) 1) log (transaction_id e) of
              Inr _ \<Rightarrow> Inl EEXIST
            | Inl er \<Rightarrow>
                if er \<noteq> ENOENT then Inl er
                else if transaction_id e \<in> ids then Inl EEXIST
                else
                  (case batch_entries n crc os log (Suc k) bytes (cursor + size) (entry_index e) (entry_version e)
                      (insert (transaction_id e) ids) of
                     Inl er \<Rightarrow> Inl er
                   | Inr es \<Rightarrow> Inr (e # es)))"

lemma count_None_update:
  "table ! j = None \<Longrightarrow> j < length table \<Longrightarrow> Suc (count_list (table[j := Some i]) None) = count_list table None"
  by (induction table arbitrary: j) (auto split: nat.splits simp: nth_Cons' list_update_code gr0_conv_Suc elim!: less_SucE)

lemma ist_entries_set:
  "seen_inv table \<Longrightarrow> n \<le> count_list table None \<Longrightarrow> length table \<le> 2 ^ 63 \<Longrightarrow>
     ist_entries n crc os log k bytes cursor index version table =
     batch_entries n crc os log k bytes cursor index version (seen_ids table)"
proof (induction n arbitrary: k cursor index version table)
  case (Suc n)
  have free: "None \<in> set table" using Suc.prems(2) by (metis Suc_le_D count_list_0_iff nat.distinct(1))
  have step: "(case seen_probe (length table) table i (seen_start table i) of
        Free j \<Rightarrow> (case ist_entries n crc os log k' bytes c' x v (table[j := Some i]) of Inl er \<Rightarrow> Inl er | Inr es \<Rightarrow> Inr (e # es))
      | Duplicate \<Rightarrow> Inl EEXIST | Endless \<Rightarrow> Inl ELOOP) =
      (if i \<in> seen_ids table then Inl EEXIST
       else case batch_entries n crc os log k' bytes c' x v (insert i (seen_ids table)) of Inl er \<Rightarrow> Inl er | Inr es \<Rightarrow> Inr (e # es))"
    for i k' c' x v e
  proof (cases "i \<in> seen_ids table")
    case True
    then show ?thesis using seen_probe_correct [OF Suc.prems(1) free Suc.prems(3), of i] by simp
  next
    case False
    then obtain j where j: "j < length table" "seen_probe (length table) table i (seen_start table i) = Free j" "table ! j = None"
      "seen_inv (table[j := Some i])" "seen_ids (table[j := Some i]) = insert i (seen_ids table)"
      using seen_probe_correct [OF Suc.prems(1) free Suc.prems(3), of i] by auto
    have "n \<le> count_list (table[j := Some i]) None" using count_None_update [OF j(3,1), of i] Suc.prems(2) by simp
    from Suc.IH [OF j(4) this] Suc.prems(3) j False show ?thesis by simp
  qed
  show ?case by (auto simp: Let_def step split: sum.split)
qed simp

lemma grow_capacity_bounds: "0 < cap \<Longrightarrow> want \<le> grow_capacity cap want \<and> grow_capacity cap want \<le> max cap (2 * want)"
  by (induction cap want rule: grow_capacity.induct) (subst (1 2) grow_capacity.simps, auto)

lemma empty_table:
  "seen_inv (replicate n None)" "seen_ids (replicate n None) = {}" "count_list (replicate n (None :: byte list option)) None = n"
  by (auto simp: seen_inv_def seen_ids_def) (induction n, auto)

lemma batch_table:
  assumes "count < 2 ^ 60"
  shows "ist_entries count crc os log k bytes cursor index version (replicate (grow_capacity 1 (count * 2)) None) =
    batch_entries count crc os log k bytes cursor index version {}"
proof -
  have g: "count * 2 \<le> grow_capacity 1 (count * 2)" "grow_capacity 1 (count * 2) \<le> max 1 (2 * (count * 2))"
    using grow_capacity_bounds [of 1 "count * 2"] by simp_all
  have "count \<le> count_list (replicate (grow_capacity 1 (count * 2)) (None :: byte list option)) None"
    unfolding empty_table(3) using g(1) by linarith
  moreover have "length (replicate (grow_capacity 1 (count * 2)) (None :: byte list option)) \<le> 2 ^ 63"
    using g(2) assms by simp
  ultimately show ?thesis using ist_entries_set [OF empty_table(1)] empty_table(2) by metis
qed

lemma batch_entries_distinct:
  "batch_entries n crc os log k bytes cursor index version ids = Inr es \<Longrightarrow>
     distinct (map transaction_id es) \<and> set (map transaction_id es) \<inter> ids = {} \<and> length es = n"
proof (induction n arbitrary: k cursor index version ids es)
  case (Suc n)
  then obtain e es' k' c' where "es = e # es'" "transaction_id e \<notin> ids"
    "batch_entries n crc os log k' bytes c' (entry_index e) (entry_version e) (insert (transaction_id e) ids) = Inr es'"
    by (auto simp: Let_def split: if_splits sum.splits)
  with Suc.IH show ?case by fastforce
qed (simp split: if_splits)

text \<open>
Duplicates in a batch are found by the hash table exactly as by a set of identifiers. The table that the code allocates for the announced
number of entries never fills up, so the probing always ends, at the identifier or at a free slot.\<close>

theorem ist_seen_table:
  "ist_entries (unat (n :: u32)) crc os log k bytes cursor index version (replicate (grow_capacity 1 (unat n * 2)) None) =
     batch_entries (unat n) crc os log k bytes cursor index version {}"
proof -
  have "unat n < 2 ^ 32" using unsigned_less [of n, where 'a = nat] by simp
  then show ?thesis by (intro batch_table) simp
qed

end
