(* ===== verification/C4_Durability.thy ===== *)
theory C4_Durability
  imports C4_Recovery
begin

text \<open>
  What survives a crash. The two files of a log that only saw committed transactions determine its
  state: opening them, with any whole or torn part of the log file missing at its end, gives the
  committed entries back, because the journal was written first. The operations keep the files in
  that form. The last section shows the journals that cannot be opened again.
\<close>

section \<open>What the files say\<close>

text \<open>The bytes of an entry in the log file, of a record in the journal, and of whole files.\<close>

definition entry_bytes :: "C4LogEntry \<Rightarrow> byte list" where
  "entry_bytes e = entry_header e (checksum e) @ entry_payload e"

definition log_bytes :: "C4LogEntry list \<Rightarrow> byte list" where
  "log_bytes es = concat (map entry_bytes es)"

definition record_bytes :: "zcrc \<Rightarrow> byte \<Rightarrow> byte list \<Rightarrow> byte list" where
  "record_bytes crc type data = journal_record_header crc type data @ data"

definition valid_entry :: "zcrc \<Rightarrow> C4LogEntry \<Rightarrow> bool" where
  "valid_entry crc e \<longleftrightarrow> stored_entry e \<and> entry_index e \<noteq> 0 \<and> entry_version e \<noteq> 0 \<and>
     checksum e = c4_log_entry_checksum crc calm e"

lemma length_entry_bytes: "stored_entry e \<Longrightarrow> length (entry_bytes e) = C4_LOG_HEADER_SIZE + unat (payload_size e)"
  by (simp add: entry_bytes_def length_entry_payload) (simp add: stored_entry_def)

lemma take_header: "stored_entry e \<Longrightarrow> take C4_LOG_HEADER_SIZE (entry_bytes e @ rest) = entry_header e (checksum e)"
  by (simp add: entry_bytes_def stored_entry_def)

lemma take_payload: "stored_entry e \<Longrightarrow> take (unat (payload_size e)) (entry_payload e @ rest) = entry_payload e"
  by (simp add: length_entry_payload)

lemma header_entry_entry_header:
  assumes "length (transaction_id e) = 16"
  shows "header_entry (entry_header e (checksum e)) = e\<lparr>payload := None\<rparr>"
  using entry_header_fields [OF assms, of "checksum e" "[]"] by (cases e) (simp add: header_entry_def)

lemma take_magic: "length (transaction_id e) = 16 \<Longrightarrow> take 4 (entry_header e c) = C4_LOG_MAGIC"
  using entry_header_fields(1) [of e c "[]"] by simp

lemma stored_payload:
  "stored_entry e \<Longrightarrow> 0 < payload_size e \<Longrightarrow> e\<lparr>payload := Some (entry_payload e)\<rparr> = e"
  "stored_entry e \<Longrightarrow> \<not> 0 < payload_size e \<Longrightarrow> e\<lparr>payload := None\<rparr> = e"
  by (cases e; auto simp: stored_entry_def entry_payload_def split: option.splits)+

text \<open>Memory that grows by doubling stays within bounds for any log that fits the disk.\<close>

definition tight :: "C4Log \<Rightarrow> bool" where
  "tight log \<longleftrightarrow> length (entries log) \<le> capacity log \<and> capacity log \<le> max 16 (2 * length (entries log))"

definition LOG_LIMIT :: nat where
  "LOG_LIMIT = 2 ^ 56"

lemma append_memory_calm:
  assumes "tight log" "length (entries log) < LOG_LIMIT" "stored_entry e"
  shows "\<exists>c. append_memory calm log e = (None, log\<lparr>capacity := c, entries := entries log @ [e]\<rparr>) \<and>
    tight (log\<lparr>capacity := c, entries := entries log @ [e]\<rparr>)"
proof (cases "length (entries log) = capacity log")
  case False
  with assms show ?thesis
    by (intro exI [of _ "capacity log"]) (auto simp: append_memory_def reserve_entry_def copy_stored tight_def)
next
  case True
  let ?c = "if capacity log = 0 then 16 else capacity log * 2"
  have "(if capacity log = 0 then 16 else (capacity log * 2) mod 2 ^ 64) = ?c"
    using assms(1,2) True by (auto simp: LOG_LIMIT_def)
  then show ?thesis using assms True
    by (intro exI [of _ ?c]) (auto simp: append_memory_def reserve_entry_def copy_stored tight_def Let_def
        SIZE_MAX_def LOG_SLOT_SIZE_def LOG_LIMIT_def)
qed

lemma append_file_calm [simp]: "append_file calm f h d = (None, f @ h @ d)"
  by (cases h; cases d) (auto simp: append_file_def)

lemma append_locked_calm:
  assumes "tight log" "length (entries log) < LOG_LIMIT" "valid_entry crc e" "fresh_at_end log e"
  shows "\<exists>c. append_locked crc calm log e persist =
      (None, log\<lparr>log_file := (if persist then log_file log @ entry_bytes e else log_file log),
                 capacity := c, entries := entries log @ [e]\<rparr>) \<and>
    tight (log\<lparr>log_file := (if persist then log_file log @ entry_bytes e else log_file log),
                 capacity := c, entries := entries log @ [e]\<rparr>)"
proof -
  let ?f = "if persist then log_file log @ entry_bytes e else log_file log"
  have e: "stored_entry e" using assms(3) by (simp add: valid_entry_def)
  have a: "append_locked crc calm log e persist = append_memory calm (log\<lparr>log_file := ?f\<rparr>) e"
  proof -
    have "find (\<lambda>old. transaction_id old = transaction_id e) (entries log) = None"
      using assms(4) unfolding find_entry_None fresh_at_end_def by blast
    with assms(3,4) show ?thesis
      by (auto simp: append_locked_def valid_entry_def fresh_at_end_def entry_bytes_def)
  qed
  from append_memory_calm [of "log\<lparr>log_file := ?f\<rparr>" e] assms(1,2) e a show ?thesis
    by (simp add: tight_def)
qed

lemma load_entries_step:
  assumes "stored_entry e"
  shows "load_entries crc calm k log (entry_bytes e @ rest) =
    (case append_locked crc calm log e False of (Some er, l) \<Rightarrow> (Some er, l)
     | (None, l) \<Rightarrow> load_entries crc calm (Suc k) l rest)"
proof -
  have id: "length (transaction_id e) = 16" and sz: "\<not> MAX_PAYLOAD_SIZE < payload_size e"
    using assms by (auto simp: stored_entry_def)
  have ne: "entry_bytes e \<noteq> []" using length_entry_bytes [OF assms] by (auto simp: C4_LOG_HEADER_SIZE_def)
  have d: "drop C4_LOG_HEADER_SIZE (entry_bytes e @ rest) = entry_payload e @ rest"
    using id by (simp add: entry_bytes_def)
  have d2: "drop (C4_LOG_HEADER_SIZE + unat (payload_size e)) (entry_bytes e @ rest) = rest"
    using length_entry_bytes [OF assms] by simp
  have d3: "\<not> 0 < payload_size e \<Longrightarrow> entry_payload e @ rest = rest"
    using length_entry_payload [OF assms] by (auto simp: word_greater_zero_iff)
  show ?thesis
  proof (cases "0 < payload_size e")
    case True
    with assms ne id sz d d2 show ?thesis
      unfolding load_entries.simps [of crc calm k log "entry_bytes e @ rest"]
      by (simp del: take_append drop_append add: take_header header_entry_entry_header take_magic take_payload length_entry_payload stored_payload
          split: option.split prod.split)
  next
    case False
    with assms ne id sz d d3 show ?thesis
      unfolding load_entries.simps [of crc calm k log "entry_bytes e @ rest"]
      by (simp del: take_append drop_append add: take_header header_entry_entry_header take_magic stored_payload
          split: option.split prod.split)
  qed
qed

lemma entries_inv_append_fresh:
  assumes "entries_inv (entries log @ e # es)" "valid_entry crc e"
  shows "fresh_at_end log e"
proof -
  have "entries_inv (entries log @ [e])"
    using assms(1) by (auto simp: entries_inv_def nth_append less_Suc_eq Ball_def split: if_splits)
  with assms(2) show ?thesis
    by (auto simp: entries_inv_snoc fresh_at_end_def next_version_inv valid_entry_def stored_entry_def
        word_greater_zero_iff split: option.splits)
qed

lemma load_entries_bytes:
  assumes "tight log" "entries_inv (entries log @ es)" "list_all (valid_entry crc) es"
    "length (entries log @ es) < LOG_LIMIT"
  shows "\<exists>c k'. load_entries crc calm k log (log_bytes es @ rest) =
      load_entries crc calm k' (log\<lparr>capacity := c, entries := entries log @ es\<rparr>) rest \<and>
    tight (log\<lparr>capacity := c, entries := entries log @ es\<rparr>)"
  using assms
proof (induction es arbitrary: k log)
  case Nil
  then show ?case by (intro exI [of _ "capacity log"] exI [of _ k]) (simp add: log_bytes_def)
next
  case (Cons e es)
  have v: "valid_entry crc e" and s: "stored_entry e" using Cons.prems(3) by (auto simp: valid_entry_def)
  have l: "length (entries log) < LOG_LIMIT" using Cons.prems(4) by simp
  from append_locked_calm [OF Cons.prems(1) l v entries_inv_append_fresh [OF Cons.prems(2) v], of False]
  obtain c where a: "append_locked crc calm log e False = (None, log\<lparr>capacity := c, entries := entries log @ [e]\<rparr>)"
    and t: "tight (log\<lparr>capacity := c, entries := entries log @ [e]\<rparr>)" by auto
  let ?l = "log\<lparr>capacity := c, entries := entries log @ [e]\<rparr>"
  from Cons.IH [OF t, of "Suc k"] Cons.prems(2,3,4)
  obtain c' k' where "load_entries crc calm (Suc k) ?l (log_bytes es @ rest) =
      load_entries crc calm k' (?l\<lparr>capacity := c', entries := entries ?l @ es\<rparr>) rest"
    "tight (?l\<lparr>capacity := c', entries := entries ?l @ es\<rparr>)" by auto
  moreover have "load_entries crc calm k log (log_bytes (e # es) @ rest) = load_entries crc calm (Suc k) ?l (log_bytes es @ rest)"
    using load_entries_step [OF s, of crc k log "log_bytes es @ rest"] a by (simp add: log_bytes_def)
  ultimately show ?case by auto
qed

text \<open>A torn tail, the beginning of an entry whose write did not finish, is cut off.\<close>

lemma load_entries_torn:
  assumes "stored_entry e" "n < length (entry_bytes e)" "log_file log = good @ take n (entry_bytes e)"
  shows "load_entries crc calm k log (take n (entry_bytes e)) = (None, log\<lparr>log_file := good\<rparr>)"
proof (cases "n = 0")
  case True
  with assms(3) show ?thesis by (subst load_entries.simps) simp
next
  case False
  let ?t = "take n (entry_bytes e)"
  have id: "length (transaction_id e) = 16" and sz: "\<not> MAX_PAYLOAD_SIZE < payload_size e"
    using assms by (auto simp: stored_entry_def)
  have len: "length ?t = n" using assms(2) by simp
  have ne: "?t \<noteq> []" using False len by (cases ?t) auto
  have tr: "truncate_tail calm log ?t = (None, log\<lparr>log_file := good\<rparr>)"
    using assms(3) len by (simp add: truncate_tail_def)
  show ?thesis
  proof (cases "n < C4_LOG_HEADER_SIZE")
    case True
    with ne len tr show ?thesis by (subst load_entries.simps) simp
  next
    case False
    have h: "take C4_LOG_HEADER_SIZE ?t = entry_header e (checksum e)"
      using take_header [OF assms(1), of "[]"] False by (simp add: min_def)
    have p: "length (drop C4_LOG_HEADER_SIZE ?t) < unat (payload_size e)"
      using assms(2) length_entry_bytes [OF assms(1)] len False by simp
    then have "0 < payload_size e" by (auto simp: word_greater_zero_iff)
    with ne tr h p id sz show ?thesis
      by (subst load_entries.simps) (simp add: header_entry_entry_header take_magic)
  qed
qed

section \<open>Histories of committed transactions\<close>

lemma journal_record_header_length [simp]: "length (journal_record_header crc ty data) = C4_TXN_HEADER_SIZE"
  by (simp add: journal_record_header_def C4_TXN_MAGIC_def C4_TXN_HEADER_SIZE_def)

lemma journal_record_header_fields:
  "take 4 (journal_record_header crc ty data) = C4_TXN_MAGIC"
  "journal_record_header crc ty data ! 4 = ty"
  "wire_get_u32 (drop 8 (journal_record_header crc ty data)) = of_nat (length data)"
  "wire_get_u32 (drop 12 (journal_record_header crc ty data)) = protocol_calculate_crc32 crc (journal_checked ty data)"
  by (simp_all add: journal_record_header_def C4_TXN_MAGIC_def)

lemma load_journal_step:
  assumes "length data \<le> unat MAX_PAYLOAD_SIZE"
  shows "load_journal crc calm k log (record_bytes crc ty data @ rest) =
    (case replay_record crc calm log ty data of (Some er, l) \<Rightarrow> (Some er, l)
     | (None, l) \<Rightarrow> load_journal crc calm (Suc k) l rest)"
proof -
  let ?b = "record_bytes crc ty data @ rest" and ?h = "journal_record_header crc ty data"
  have n: "unat (of_nat (length data) :: u32) = length data"
    using assms by (simp add: unat_of_nat take_bit_nat_eq_self MAX_PAYLOAD_SIZE_def)
  then have m: "\<not> MAX_PAYLOAD_SIZE < (of_nat (length data) :: u32)" using assms by (simp add: word_less_nat_alt)
  have h: "take C4_TXN_HEADER_SIZE ?b = ?h" "drop C4_TXN_HEADER_SIZE ?b = data @ rest"
    "drop (C4_TXN_HEADER_SIZE + length data) ?b = rest"
    by (simp_all add: record_bytes_def)
  have d: "take (length data) (data @ rest) = data" by simp
  have len: "\<not> length ?b < C4_TXN_HEADER_SIZE + length data" by (simp add: record_bytes_def)
  have "?h \<noteq> []" by (simp add: journal_record_header_def)
  then have "(?b = []) = False" by (simp add: record_bytes_def)
  then show ?thesis
    unfolding load_journal.simps [of crc calm k log ?b]
    using n m len
    by (simp del: take_append drop_append length_append append_is_Nil_conv
        add: h d journal_record_header_fields Let_def split: option.split prod.split)
qed

definition loggable :: "zcrc \<Rightarrow> C4LogEntry \<Rightarrow> bool" where
  "loggable crc e \<longleftrightarrow> valid_entry crc e \<and> payload_size e \<le> MAX_PAYLOAD_SIZE - of_nat C4_LOG_HEADER_SIZE"

lemma loggable_size:
  assumes "loggable crc e"
  shows "length (entry_bytes e) \<le> unat MAX_PAYLOAD_SIZE"
proof -
  have "unat (payload_size e) \<le> unat (MAX_PAYLOAD_SIZE - of_nat C4_LOG_HEADER_SIZE)"
    using assms by (simp add: loggable_def word_le_nat_alt)
  also have "\<dots> = unat MAX_PAYLOAD_SIZE - C4_LOG_HEADER_SIZE"
    by (simp add: MAX_PAYLOAD_SIZE_def C4_LOG_HEADER_SIZE_def)
  finally show ?thesis
    using assms length_entry_bytes [of e] by (simp add: loggable_def valid_entry_def MAX_PAYLOAD_SIZE_def C4_LOG_HEADER_SIZE_def)
qed

lemma decode_entry_bytes:
  assumes "valid_entry crc e"
  shows "c4_log_entry_decode crc calm (entry_bytes e) = Inr e"
proof -
  have s: "stored_entry e" and id: "length (transaction_id e) = 16"
    using assms by (auto simp: valid_entry_def stored_entry_def)
  note f = entry_header_fields [OF id, of "checksum e" "entry_payload e"]
  have p: "parse_entry (entry_bytes e) = e"
    using s id header_entry_entry_header [OF id] f stored_payload [OF s] length_entry_payload [OF s]
    unfolding parse_entry_def entry_bytes_def Let_def header_entry_def
    by (cases "0 < payload_size e") (simp_all del: take_append drop_append, (cases e; simp)+)
  show ?thesis
    using assms s length_entry_bytes [OF s] f p
    unfolding c4_log_entry_decode_def Let_def
    by (auto simp del: take_append drop_append simp: entry_bytes_def valid_entry_def stored_entry_def split: option.splits)
qed

definition tight_txns :: "C4Log \<Rightarrow> bool" where
  "tight_txns log \<longleftrightarrow> length (transactions log) \<le> transaction_capacity log \<and>
     transaction_capacity log \<le> max 16 (2 * length (transactions log))"

lemma reserve_transaction_calm:
  assumes "tight_txns log" "length (transactions log) < LOG_LIMIT"
  shows "\<exists>c. reserve_transaction calm log = Inr (log\<lparr>transaction_capacity := c\<rparr>) \<and>
    length (transactions log) < c \<and> c \<le> max 16 (2 * length (transactions log))"
proof (cases "length (transactions log) = transaction_capacity log")
  case False
  with assms show ?thesis
    by (intro exI [of _ "transaction_capacity log"]) (auto simp: reserve_transaction_def tight_txns_def)
next
  case True
  let ?c = "if transaction_capacity log = 0 then 16 else transaction_capacity log * 2"
  have "(if transaction_capacity log = 0 then 16 else (transaction_capacity log * 2) mod 2 ^ 64) = ?c"
    using assms True by (auto simp: LOG_LIMIT_def)
  then show ?thesis using assms True
    by (intro exI [of _ ?c]) (auto simp: reserve_transaction_def tight_txns_def Let_def
        SIZE_MAX_def TXN_SLOT_SIZE_def LOG_LIMIT_def)
qed

definition committed :: "C4LogEntry \<Rightarrow> C4Transaction" where
  "committed e = \<lparr>txn_entry = e, txn_state = C4_TXN_COMMITTED\<rparr>"

lemma expected_position_committed:
  "transactions log = map committed es \<Longrightarrow>
     expected_position log = (of_nat (length (entries log)) + 1, next_version log)"
proof -
  have "fold (\<lambda>t (i, v). if txn_state t = C4_TXN_PREPARED \<and> i \<le> entry_index (txn_entry t)
      then (entry_index (txn_entry t) + 1, entry_version (txn_entry t) + 1) else (i, v)) (map committed es) p = p" for p
    by (induction es) (auto simp: committed_def)
  then show "transactions log = map committed es \<Longrightarrow> ?thesis" by (simp add: expected_position_def)
qed

lemma find_transaction_committed:
  "transactions log = map committed es \<Longrightarrow>
     find_transaction log tid = None \<longleftrightarrow> tid \<notin> transaction_id ` set es"
  by (auto simp: find_transaction_None committed_def image_iff)

lemma find_transaction_last:
  assumes "transactions log = map committed es @ [\<lparr>txn_entry = e, txn_state = s\<rparr>]"
    "transaction_id e \<notin> transaction_id ` set es"
  shows "find_transaction log (transaction_id e) = Some (length es)"
proof -
  have "find_index (\<lambda>t. transaction_id (txn_entry t) = transaction_id e) (map committed es) = None"
    using assms(2) by (auto simp: find_index_None committed_def image_iff)
  from find_index_append_None [OF this] assms(1) show ?thesis by (simp add: find_transaction_def)
qed

lemma append_locked_known:
  assumes "e \<in> set (entries log)" "distinct (map transaction_id (entries log))" "valid_entry crc e"
  shows "append_locked crc calm log e persist = (None, log)"
proof -
  obtain old where old: "find (\<lambda>old. transaction_id old = transaction_id e) (entries log) = Some old"
    using assms(1) find_entry_None [of "transaction_id e" "entries log"]
    by (cases "find (\<lambda>old. transaction_id old = transaction_id e) (entries log)") auto
  then have "old \<in> set (entries log)" "transaction_id old = transaction_id e"
    by (auto simp: find_Some_iff)
  with assms(1,2) have "old = e" by (meson eq_key_imp_eq_value distinct_map inj_onD)
  with old assms(3) show ?thesis
    by (auto simp: append_locked_def valid_entry_def same_entry_def stored_entry_def split: option.splits)
qed

text \<open>The journal of a sequence of transactions, each prepared and then committed.\<close>

definition history :: "zcrc \<Rightarrow> C4LogEntry list \<Rightarrow> byte list" where
  "history crc es = concat (map (\<lambda>e. record_bytes crc C4_TXN_PREPARE (entry_bytes e) @
     record_bytes crc C4_TXN_COMMIT (transaction_id e)) es)"

definition proper :: "zcrc \<Rightarrow> C4LogEntry list \<Rightarrow> bool" where
  "proper crc es \<longleftrightarrow> entries_inv es \<and> list_all (loggable crc) es \<and> length es < LOG_LIMIT"

text \<open>The state in which the first \<open>n\<close> transactions of \<open>es\<close> are decided and the first \<open>m\<close> entries logged.\<close>

definition progress :: "C4LogEntry list \<Rightarrow> nat \<Rightarrow> nat \<Rightarrow> C4Log \<Rightarrow> bool" where
  "progress es n m log \<longleftrightarrow> entries log = take m es \<and> transactions log = map committed (take n es) \<and>
     log_file log = log_bytes (take m es) \<and> tight log \<and> tight_txns log"

definition enter :: "C4Log \<Rightarrow> nat \<Rightarrow> C4LogEntry \<Rightarrow> C4Log" where
  "enter log c e = add_transaction (log\<lparr>transaction_capacity := c\<rparr>) e C4_TXN_PREPARED"

lemma take_nth_snoc: "n < length es \<Longrightarrow> take (Suc n) es = take n es @ [es ! n]"
  by (rule take_Suc_conv_app_nth)

lemma entries_inv_take: "entries_inv es \<Longrightarrow> entries_inv (take n es)"
  by (auto simp: entries_inv_def list_all_length distinct_take simp flip: take_map)

lemma properD:
  assumes "proper crc es" "n < length es"
  shows "loggable crc (es ! n)" "valid_entry crc (es ! n)" "stored_entry (es ! n)" "length (transaction_id (es ! n)) = 16"
    "transaction_id (es ! n) \<notin> transaction_id ` set (take n es)"
    "entry_index (es ! n) = of_nat (Suc n)" "entry_version (es ! n) = of_nat (Suc n)"
proof -
  show l: "loggable crc (es ! n)" using assms by (simp add: proper_def list_all_length)
  then show "valid_entry crc (es ! n)" by (simp add: loggable_def)
  then show "stored_entry (es ! n)" by (simp add: valid_entry_def)
  then show "length (transaction_id (es ! n)) = 16" by (simp add: stored_entry_def)
  have "entries_inv (take n es @ [es ! n])"
    using entries_inv_take [of es "Suc n"] assms by (simp add: take_nth_snoc proper_def)
  then show "transaction_id (es ! n) \<notin> transaction_id ` set (take n es)"
    "entry_index (es ! n) = of_nat (Suc n)" "entry_version (es ! n) = of_nat (Suc n)"
    using assms(2) by (simp_all add: entries_inv_snoc)
qed

lemma progress_fresh:
  assumes "proper crc es" "n < length es" "progress es n n log"
  shows "fresh_at_end log (es ! n)"
proof -
  have "next_version log = of_nat (Suc n)"
    using assms next_version_inv [of log] entries_inv_take [of es n] by (simp add: progress_def proper_def)
  with properD [OF assms(1,2)] assms show ?thesis
    by (auto simp: fresh_at_end_def progress_def stored_entry_def split: option.splits)
qed

lemma progress_position:
  assumes "proper crc es" "n < length es" "progress es n n log"
  shows "expected_position log = (entry_index (es ! n), entry_version (es ! n))"
  using expected_position_committed [of log "take n es"] progress_fresh [OF assms] assms
  by (simp add: progress_def fresh_at_end_def add.commute)

lemma progress_enter:
  assumes "proper crc es" "n < length es" "progress es n m log"
  shows "\<exists>c. reserve_transaction calm log = Inr (log\<lparr>transaction_capacity := c\<rparr>) \<and> length (transactions log) < c \<and>
    c \<le> max 16 (2 * length (transactions log)) \<and> find_transaction log (transaction_id (es ! n)) = None"
  using reserve_transaction_calm [of log] assms properD(5) [OF assms(1,2)]
  by (auto simp: progress_def proper_def find_transaction_committed)

lemma get_transaction_known:
  assumes "progress es n m log" "proper crc es" "n < m" "m \<le> length es"
  shows "c4_log_get_transaction calm log (transaction_id (es ! n)) = Inr (es ! n)"
proof -
  let ?P = "\<lambda>e. transaction_id e = transaction_id (es ! n)"
  have d: "distinct (map transaction_id (take m es))"
    using assms(2) entries_inv_take [of es m] by (simp add: proper_def entries_inv_def)
  have mem: "es ! n \<in> set (take m es)" using assms by (auto simp: in_set_conv_nth intro!: exI [of _ n])
  obtain old where old: "find ?P (take m es) = Some old"
    using mem find_entry_None [of "transaction_id (es ! n)" "take m es"] by (cases "find ?P (take m es)") auto
  then have "old \<in> set (take m es)" "?P old" by (auto dest: find_SomeD)
  with d mem have "old = es ! n" by (meson distinct_map inj_onD)
  with old copy_stored properD(3) [OF assms(2)] assms show ?thesis
    by (simp add: c4_log_get_transaction_def progress_def)
qed

lemma get_transaction_unknown:
  assumes "progress es n n log" "proper crc es" "n < length es"
  shows "c4_log_get_transaction calm log (transaction_id (es ! n)) = Inl ENOENT"
proof -
  have "find (\<lambda>e. transaction_id e = transaction_id (es ! n)) (take n es) = None"
    unfolding find_entry_None using properD(5) [OF assms(2,3)] .
  with assms(1) show ?thesis by (simp add: c4_log_get_transaction_def progress_def)
qed

lemma replay_prepare_progress:
  assumes "proper crc es" "n < length es" "progress es n m log" "n \<le> m" "m \<le> length es"
  shows "\<exists>c. replay_record crc calm log C4_TXN_PREPARE (entry_bytes (es ! n)) = (None, enter log c (es ! n)) \<and>
     length (transactions log) < c \<and> c \<le> max 16 (2 * length (transactions log))"
proof -
  let ?e = "es ! n"
  obtain c where c: "reserve_transaction calm log = Inr (log\<lparr>transaction_capacity := c\<rparr>)"
      "length (transactions log) < c" "c \<le> max 16 (2 * length (transactions log))"
    and f: "find_transaction log (transaction_id ?e) = None"
    using progress_enter [OF assms(1-3)] by blast
  let ?l = "log\<lparr>transaction_capacity := c\<rparr>"
  have g: "c4_log_get_transaction calm ?l t = c4_log_get_transaction calm log t" for t
    by (simp add: c4_log_get_transaction_def)
  have x: "expected_position ?l = expected_position log" by (simp add: expected_position_def next_version_def)
  have d: "c4_log_entry_decode crc calm (entry_bytes ?e) = Inr ?e"
    by (rule decode_entry_bytes [OF properD(2) [OF assms(1,2)]])
  have "replay_prepare crc calm log (entry_bytes ?e) = (None, enter log c ?e)"
  proof (cases "n < m")
    case True
    with get_transaction_known [OF assms(3,1)] assms(5) c(1) f d g show ?thesis
      by (simp add: replay_prepare_def enter_def same_entry_def)
  next
    case False
    with assms(4) have "m = n" by simp
    with get_transaction_unknown [OF _ assms(1,2), of log] progress_position [OF assms(1,2), of log] assms(3) c(1) f d g x
    show ?thesis by (simp add: replay_prepare_def enter_def)
  qed
  with c show ?thesis by (auto simp: replay_record_def)
qed

text \<open>Committing the transaction just entered, live or by replay.\<close>

lemma commit_progress:
  assumes "proper crc es" "n < length es" "progress es n m log" "n \<le> m" "m \<le> length es"
    "length (transactions log) < c" "c \<le> max 16 (2 * length (transactions log))"
  defines "l \<equiv> set_state (enter log c (es ! n)) n C4_TXN_COMMITTED"
  shows "find_transaction (enter log c (es ! n)) (transaction_id (es ! n)) = Some n"
    "txn_state (transactions (enter log c (es ! n)) ! n) = C4_TXN_PREPARED"
    "txn_entry (transactions l ! n) = es ! n"
    "\<exists>l'. append_locked crc calm l (es ! n) True = (None, l') \<and> progress es (Suc n) (max m (Suc n)) l' \<and>
       journal_file l' = journal_file log"
proof -
  let ?e = "es ! n"
  have t: "transactions log = map committed (take n es)" and tl: "length (take n es) = n"
    using assms(2,3) by (auto simp: progress_def)
  have te: "transactions (enter log c ?e) = map committed (take n es) @ [\<lparr>txn_entry = ?e, txn_state = C4_TXN_PREPARED\<rparr>]"
    by (simp add: enter_def add_transaction_def t)
  show "find_transaction (enter log c ?e) (transaction_id ?e) = Some n"
    using find_transaction_last [OF te properD(5) [OF assms(1,2)]] tl by simp
  show "txn_state (transactions (enter log c ?e) ! n) = C4_TXN_PREPARED"
    using te tl by (simp add: nth_append)
  have tlc: "transactions l = map committed (take (Suc n) es)"
    using te tl assms(2) by (simp add: l_def set_state_def nth_append list_update_append take_nth_snoc committed_def)
  then show "txn_entry (transactions l ! n) = ?e" using assms(2) by (simp add: committed_def)
  have l: "entries l = take m es" "log_file l = log_bytes (take m es)" "tight l" "tight_txns l" "journal_file l = journal_file log"
    using assms(3,6,7) tlc assms(2) te tl t
    by (auto simp: progress_def tight_def tight_txns_def l_def enter_def add_transaction_def set_state_def)
  show "\<exists>l'. append_locked crc calm l ?e True = (None, l') \<and> progress es (Suc n) (max m (Suc n)) l' \<and>
       journal_file l' = journal_file log"
  proof (cases "n < m")
    case True
    have "?e \<in> set (entries l)" using True assms(5) l(1) by (auto simp: in_set_conv_nth intro!: exI [of _ n])
    moreover have "distinct (map transaction_id (entries l))"
      using assms(1) entries_inv_take [of es m] l(1) by (simp add: proper_def entries_inv_def)
    ultimately have "append_locked crc calm l ?e True = (None, l)"
      using properD(2) [OF assms(1,2)] by (rule append_locked_known)
    moreover have "max m (Suc n) = m" using True by simp
    ultimately show ?thesis using l tlc by (auto simp: progress_def)
  next
    case False
    with assms(4) have m: "m = n" by simp
    have nv: "next_version l = next_version log" using l(1) assms(3) m by (simp add: next_version_def progress_def)
    have fr: "fresh_at_end l ?e"
      using progress_fresh [OF assms(1,2), of log] assms(3) m l(1) nv by (simp add: fresh_at_end_def progress_def)
    have lim: "length (entries l) < LOG_LIMIT" using assms(1,2) l(1) by (auto simp: proper_def)
    from append_locked_calm [OF l(3) lim properD(2) [OF assms(1,2)] fr, of True]
    obtain k where a: "append_locked crc calm l ?e True =
        (None, l\<lparr>log_file := log_file l @ entry_bytes ?e, capacity := k, entries := entries l @ [?e]\<rparr>)"
      and tg: "tight (l\<lparr>log_file := log_file l @ entry_bytes ?e, capacity := k, entries := entries l @ [?e]\<rparr>)"
      by auto
    have "log_bytes (take (Suc n) es) = log_bytes (take n es) @ entry_bytes ?e"
      using assms(2) by (simp add: take_nth_snoc log_bytes_def)
    with a tg l tlc m assms(2) show ?thesis by (auto simp: progress_def take_nth_snoc tight_txns_def)
  qed
qed

lemma replay_pair:
  assumes "proper crc es" "n < length es" "progress es n m log" "n \<le> m" "m \<le> length es"
  shows "\<exists>l k'. load_journal crc calm k log (history crc [es ! n] @ rest) = load_journal crc calm k' l rest \<and>
     progress es (Suc n) (max m (Suc n)) l \<and> journal_file l = journal_file log"
proof -
  let ?e = "es ! n"
  obtain c where c: "replay_record crc calm log C4_TXN_PREPARE (entry_bytes ?e) = (None, enter log c ?e)"
    "length (transactions log) < c" "c \<le> max 16 (2 * length (transactions log))"
    using replay_prepare_progress [OF assms] by blast
  note cp = commit_progress [OF assms c(2,3)]
  obtain l where l: "append_locked crc calm (set_state (enter log c ?e) n C4_TXN_COMMITTED) ?e True = (None, l)"
    "progress es (Suc n) (max m (Suc n)) l" "journal_file l = journal_file log" using cp(4) by blast
  have i: "length (transaction_id ?e) = 16" by (rule properD(4) [OF assms(1,2)])
  then have il: "length (transaction_id ?e) \<le> unat MAX_PAYLOAD_SIZE" by (simp add: MAX_PAYLOAD_SIZE_def)
  have "replay_record crc calm (enter log c ?e) C4_TXN_COMMIT (transaction_id ?e) = (None, l)"
    using cp(1-3) l(1) i
    by (simp add: replay_record_def replay_decision_def C4_TXN_PREPARE_def C4_TXN_COMMIT_def C4_TXN_ABORT_def)
  then have "load_journal crc calm k log (history crc [?e] @ rest) = load_journal crc calm (Suc (Suc k)) l rest"
    using load_journal_step [OF loggable_size [OF properD(1) [OF assms(1,2)]], of crc k log C4_TXN_PREPARE
        "record_bytes crc C4_TXN_COMMIT (transaction_id ?e) @ rest"] c(1)
      load_journal_step [OF il, of crc "Suc k" "enter log c ?e" C4_TXN_COMMIT rest]
    by (simp add: history_def)
  with l show ?thesis by blast
qed

lemma replay_history:
  assumes "proper crc es" "progress es n m log" "n \<le> m" "m \<le> length es"
  shows "\<exists>l k'. load_journal crc calm k log (history crc (drop n es) @ rest) = load_journal crc calm k' l rest \<and>
     progress es (length es) (length es) l \<and> journal_file l = journal_file log"
  using assms(2-4)
proof (induction "length es - n" arbitrary: n m k log)
  case 0
  then have "n = length es" "m = length es" by simp_all
  with 0 show ?case by (intro exI [of _ log] exI [of _ k]) (simp add: history_def)
next
  case (Suc d)
  then have n: "n < length es" by simp
  obtain l k' where l: "load_journal crc calm k log (history crc [es ! n] @ history crc (drop (Suc n) es) @ rest) =
      load_journal crc calm k' l (history crc (drop (Suc n) es) @ rest)"
    "progress es (Suc n) (max m (Suc n)) l" "journal_file l = journal_file log"
    using replay_pair [OF assms(1) n Suc.prems] by blast
  have "history crc (drop n es) = history crc [es ! n] @ history crc (drop (Suc n) es)"
    using n by (simp add: history_def flip: Cons_nth_drop_Suc)
  with l(1,3) Suc.hyps(1) [of "Suc n" "max m (Suc n)" l k'] l(2) Suc.hyps(2) Suc.prems n show ?case
    by simp
qed

text \<open>A log at rest: every transaction decided, and both files say what the memory holds.\<close>

definition settled :: "zcrc \<Rightarrow> C4LogEntry list \<Rightarrow> C4Log \<Rightarrow> bool" where
  "settled crc es log \<longleftrightarrow> progress es (length es) (length es) log \<and> journal_file log = history crc es"

text \<open>
  The log file after a crash: \<open>m\<close> whole entries and the first \<open>t\<close> bytes of the next one.
\<close>

definition crashed_log :: "C4LogEntry list \<Rightarrow> nat \<Rightarrow> nat \<Rightarrow> byte list" where
  "crashed_log es m t = log_bytes (take m es) @ (if m < length es then take t (entry_bytes (es ! m)) else [])"

lemma load_crashed:
  fixes jf :: "byte list"
  assumes "proper crc es" "m \<le> length es" "m < length es \<Longrightarrow> t < length (entry_bytes (es ! m))"
  defines "object \<equiv> \<lparr>entries = [], capacity = 0, transactions = [], transaction_capacity = 0,
     log_file = crashed_log es m t, journal_file = jf\<rparr>"
  shows "\<exists>l. load_entries crc calm 0 object (crashed_log es m t) = (None, l) \<and> progress es 0 m l \<and> journal_file l = jf"
proof -
  let ?tail = "if m < length es then take t (entry_bytes (es ! m)) else []"
  have v: "entries_inv (entries object @ take m es)" "list_all (valid_entry crc) (take m es)"
    "length (entries object @ take m es) < LOG_LIMIT" "tight object"
    using assms(1,2) entries_inv_take [of es m]
    by (auto simp: object_def proper_def tight_def list_all_length loggable_def)
  obtain c k' where l: "load_entries crc calm 0 object (log_bytes (take m es) @ ?tail) =
      load_entries crc calm k' (object\<lparr>capacity := c, entries := entries object @ take m es\<rparr>) ?tail"
    and t: "tight (object\<lparr>capacity := c, entries := entries object @ take m es\<rparr>)"
    using load_entries_bytes [OF v(4,1,2,3)] by blast
  let ?l = "object\<lparr>capacity := c, entries := entries object @ take m es\<rparr>"
  have "load_entries crc calm k' ?l ?tail = (None, ?l\<lparr>log_file := log_bytes (take m es)\<rparr>)"
  proof (cases "m < length es")
    case True
    with load_entries_torn [OF properD(3) [OF assms(1) True] assms(3) [OF True], of ?l "log_bytes (take m es)" crc k']
    show ?thesis by (simp add: object_def crashed_log_def)
  next
    case False
    then show ?thesis by (subst load_entries.simps) (simp add: object_def crashed_log_def)
  qed
  with l t show ?thesis
    by (auto simp: crashed_log_def object_def progress_def tight_def tight_txns_def)
qed

lemma open_crashed:
  assumes "proper crc es" "m \<le> length es" "m < length es \<Longrightarrow> t < length (entry_bytes (es ! m))"
  shows "\<exists>k log. c4_log_open crc calm (crashed_log es m t) (history crc es @ rest) = load_journal crc calm k log rest \<and>
     progress es (length es) (length es) log \<and> journal_file log = history crc es @ rest"
proof -
  let ?j = "history crc es @ rest"
  let ?o = "\<lparr>entries = [], capacity = 0, transactions = [], transaction_capacity = 0,
     log_file = crashed_log es m t, journal_file = ?j\<rparr>"
  obtain l where l: "load_entries crc calm 0 ?o (crashed_log es m t) = (None, l)" "progress es 0 m l" "journal_file l = ?j"
    using load_crashed [OF assms, of ?j] by blast
  obtain l2 k where l2: "load_journal crc calm 0 l ?j = load_journal crc calm k l2 rest"
    "progress es (length es) (length es) l2" "journal_file l2 = ?j"
    using replay_history [OF assms(1) l(2) _ assms(2), of 0 rest] l(3) by auto
  have "c4_log_open crc calm (crashed_log es m t) ?j = load_journal crc calm 0 l ?j"
    using l(1) by (simp add: c4_log_open_def sync_parent_directory_def)
  with l2 show ?thesis by auto
qed

lemma prepare_settled:
  assumes "settled crc es log" "proper crc (es @ [e])"
  shows "\<exists>c. c4_log_prepare crc calm log e =
      (None, enter (log\<lparr>journal_file := journal_file log @ record_bytes crc C4_TXN_PREPARE (entry_bytes e)\<rparr>) c e) \<and>
    length es < c \<and> c \<le> max 16 (2 * length es)"
proof -
  let ?n = "length es" and ?es = "es @ [e]"
  have p: "progress ?es ?n ?n log" using assms(1) by (simp add: settled_def progress_def)
  have n: "?n < length ?es" and e: "?es ! ?n = e" by simp_all
  note d = properD [OF assms(2) n, unfolded e]
  obtain c where c: "reserve_transaction calm log = Inr (log\<lparr>transaction_capacity := c\<rparr>)" "length (transactions log) < c"
    "c \<le> max 16 (2 * length (transactions log))" "find_transaction log (transaction_id e) = None"
    using progress_enter [OF assms(2) n p] e by auto
  have tl: "length (transactions log) = ?n" using p by (simp add: progress_def)
  have pos: "expected_position log = (entry_index e, entry_version e)" using progress_position [OF assms(2) n p] e by simp
  have enc: "c4_log_entry_encode crc calm e = Inr (entry_bytes e)"
    using d(1) by (auto simp: c4_log_entry_encode_def loggable_def valid_entry_def entry_bytes_def not_less)
  have dec: "c4_log_entry_decode crc calm (entry_bytes e) = Inr e" by (rule decode_entry_bytes [OF d(2)])
  have "c4_log_prepare crc calm log e =
      (None, enter (log\<lparr>journal_file := journal_file log @ record_bytes crc C4_TXN_PREPARE (entry_bytes e)\<rparr>) c e)"
    using d(2) c(1,4) pos enc dec loggable_size [OF d(1)]
    by (simp add: c4_log_prepare_def valid_entry_def journal_record_def record_bytes_def enter_def add_transaction_def not_less)
  with c tl show ?thesis by auto
qed

lemma commit_settled:
  assumes "settled crc es log" "proper crc (es @ [e])" "length es < c" "c \<le> max 16 (2 * length es)"
  defines "l \<equiv> enter (log\<lparr>journal_file := journal_file log @ record_bytes crc C4_TXN_PREPARE (entry_bytes e)\<rparr>) c e"
  shows "\<exists>l'. c4_log_commit crc calm l (transaction_id e) out = (Inr e, l') \<and> settled crc (es @ [e]) l'"
proof -
  let ?n = "length es" and ?es = "es @ [e]"
  let ?j = "journal_file log @ record_bytes crc C4_TXN_PREPARE (entry_bytes e)"
  let ?j2 = "?j @ record_bytes crc C4_TXN_COMMIT (transaction_id e)"
  have n: "?n < length ?es" and e: "?es ! ?n = e" by simp_all
  note d = properD [OF assms(2) n, unfolded e]
  have p: "progress ?es ?n ?n (log\<lparr>journal_file := ?j2\<rparr>)"
    using assms(1) by (auto simp: settled_def progress_def tight_def tight_txns_def)
  have tl: "length (transactions (log\<lparr>journal_file := ?j2\<rparr>)) = ?n" using p by (simp add: progress_def)
  note cp = commit_progress [OF assms(2) n p order.refl _ assms(3) [folded tl] assms(4) [folded tl], unfolded e]
  have fr: "find_transaction l (transaction_id e) = Some ?n" "txn_state (transactions l ! ?n) = C4_TXN_PREPARED"
    using cp(1,2) by (simp_all add: l_def enter_def add_transaction_def find_transaction_def)
  have jr: "journal_record crc calm l C4_TXN_COMMIT (transaction_id e) = (None, enter (log\<lparr>journal_file := ?j2\<rparr>) c e)"
    using d(4) by (simp add: journal_record_def record_bytes_def l_def enter_def add_transaction_def MAX_PAYLOAD_SIZE_def)
  obtain l' where a: "append_locked crc calm (set_state (enter (log\<lparr>journal_file := ?j2\<rparr>) c e) ?n C4_TXN_COMMITTED) e True = (None, l')"
    and pl: "progress ?es (Suc ?n) (Suc ?n) l'" and jl: "journal_file l' = ?j2"
    using cp(4) by auto
  have "txn_entry (transactions l' ! ?n) = e" using pl by (simp add: progress_def committed_def nth_append)
  with fr jr a cp(3) d(3) have "c4_log_commit crc calm l (transaction_id e) out = (Inr e, l')"
    by (simp add: c4_log_commit_def copy_stored)
  moreover have "settled crc ?es l'"
    using pl jl assms(1) by (simp add: settled_def history_def)
  ultimately show ?thesis by blast
qed

section \<open>Journals that cannot be opened again\<close>

text \<open>A PREPARE record whose write did not finish: the code cuts a torn log, but not a torn journal.\<close>

lemma load_torn_journal:
  assumes "0 < t" "t < length (record_bytes crc ty data)" "length data \<le> unat MAX_PAYLOAD_SIZE"
  shows "load_journal crc calm k log (take t (record_bytes crc ty data)) = (Some EBADMSG, log)"
proof -
  let ?b = "take t (record_bytes crc ty data)" and ?h = "journal_record_header crc ty data"
  have len: "length ?b = t" using assms(2) by simp
  have ne: "?b \<noteq> []" using len assms(1) by auto
  show ?thesis
  proof (cases "t < C4_TXN_HEADER_SIZE")
    case True
    with ne len show ?thesis by (subst load_journal.simps) simp
  next
    case False
    have h: "take C4_TXN_HEADER_SIZE ?b = ?h" using False by (simp add: record_bytes_def min_def)
    have n: "unat (of_nat (length data) :: u32) = length data"
      using assms(3) by (simp add: unat_of_nat take_bit_nat_eq_self MAX_PAYLOAD_SIZE_def)
    have "length ?b < C4_TXN_HEADER_SIZE + length data" using len assms(2) by (simp add: record_bytes_def)
    with ne h n show ?thesis
      by (subst load_journal.simps) (simp del: take_append length_take add: journal_record_header_fields)
  qed
qed

definition empty_log :: C4Log where
  "empty_log = \<lparr>entries = [], capacity = 0, transactions = [], transaction_capacity = 0, log_file = [], journal_file = []\<rparr>"

lemma open_empty: "c4_log_open crc calm [] [] = (None, empty_log)"
  by (simp add: c4_log_open_def sync_parent_directory_def load_entries.simps load_journal.simps empty_log_def)

lemma loggable_calls:
  assumes "loggable crc e"
  shows "c4_log_entry_encode crc calm e = Inr (entry_bytes e)" "c4_log_entry_decode crc calm (entry_bytes e) = Inr e"
    "checksum e = c4_log_entry_checksum crc calm e" "entry_index e \<noteq> 0" "entry_version e \<noteq> 0" "stored_entry e"
    "length (entry_bytes e) \<le> unat MAX_PAYLOAD_SIZE" "length (transaction_id e) = 16"
    "payload_size e \<le> MAX_PAYLOAD_SIZE" "\<not> (0 < payload_size e \<and> payload e = None)" "copy_entry calm e = Inr e"
  using assms decode_entry_bytes loggable_size copy_stored
  by (auto simp: loggable_def valid_entry_def stored_entry_def c4_log_entry_encode_def entry_bytes_def not_less
      split: option.splits)

text \<open>The steps of a fresh log, symbolically.\<close>

lemma journal_record_calm:
  "length data \<le> unat MAX_PAYLOAD_SIZE \<Longrightarrow>
     journal_record crc calm log ty data = (None, log\<lparr>journal_file := journal_file log @ record_bytes crc ty data\<rparr>)"
  by (simp add: journal_record_def record_bytes_def)

lemma id_journal: "length tid = 16 \<Longrightarrow> length tid \<le> unat MAX_PAYLOAD_SIZE"
  by (simp add: MAX_PAYLOAD_SIZE_def)

lemmas journal_record_id = journal_record_calm [OF id_journal]

lemma prepare_calm:
  assumes "loggable crc e" "find_transaction log (transaction_id e) = None"
    "expected_position log = (entry_index e, entry_version e)" "length (transactions log) < transaction_capacity log"
  shows "c4_log_prepare crc calm log e = (None, add_transaction (log\<lparr>journal_file :=
      journal_file log @ record_bytes crc C4_TXN_PREPARE (entry_bytes e)\<rparr>) e C4_TXN_PREPARED)"
  using loggable_calls [OF assms(1)] assms(2-)
  by (simp add: c4_log_prepare_def reserve_transaction_def journal_record_calm)

lemma abort_calm:
  assumes "find_transaction log tid = Some i" "txn_state (transactions log ! i) = C4_TXN_PREPARED" "length tid = 16"
  shows "c4_log_abort crc calm log tid = (None, set_state (log\<lparr>journal_file :=
      journal_file log @ record_bytes crc C4_TXN_ABORT tid\<rparr>) i C4_TXN_ABORTED)"
  using assms by (simp add: c4_log_abort_def journal_record_id)

definition two_slots :: "C4Transaction list \<Rightarrow> byte list \<Rightarrow> C4Log" where
  "two_slots ts j = empty_log\<lparr>transactions := ts, transaction_capacity := 16, journal_file := j\<rparr>"

lemma prepare_first:
  assumes "loggable crc e" "entry_index e = 1" "entry_version e = 1"
  shows "c4_log_prepare crc calm empty_log e =
     (None, two_slots [\<lparr>txn_entry = e, txn_state = C4_TXN_PREPARED\<rparr>] (record_bytes crc C4_TXN_PREPARE (entry_bytes e)))"
  using loggable_calls [OF assms(1)] assms(2-)
  by (simp add: c4_log_prepare_def reserve_transaction_def journal_record_calm empty_log_def find_transaction_def
      expected_position_def next_version_def add_transaction_def two_slots_def SIZE_MAX_def TXN_SLOT_SIZE_def Let_def)

lemma prepare_two:
  assumes "loggable crc e" "expected_position (two_slots [t] j) = (entry_index e, entry_version e)"
    "transaction_id (txn_entry t) \<noteq> transaction_id e"
  shows "c4_log_prepare crc calm (two_slots [t] j) e =
     (None, two_slots [t, \<lparr>txn_entry = e, txn_state = C4_TXN_PREPARED\<rparr>] (j @ record_bytes crc C4_TXN_PREPARE (entry_bytes e)))"
  using prepare_calm [OF assms(1) _ assms(2)] assms(3)
  by (simp add: find_transaction_def two_slots_def add_transaction_def)

lemma commit_second:
  assumes "loggable crc e" "transaction_id (txn_entry t) \<noteq> transaction_id e"
  shows "c4_log_commit crc calm (two_slots [t, \<lparr>txn_entry = e, txn_state = C4_TXN_PREPARED\<rparr>] j) (transaction_id e) False =
     (if entry_index e = 1 \<and> entry_version e = 1
      then (Inr e, (two_slots [t, committed e] (j @ record_bytes crc C4_TXN_COMMIT (transaction_id e)))
              \<lparr>log_file := entry_bytes e, capacity := 16, entries := [e]\<rparr>)
      else (Inl ERANGE, two_slots [t, committed e] (j @ record_bytes crc C4_TXN_COMMIT (transaction_id e))))"
  using loggable_calls [OF assms(1)] assms(2)
  by (simp add: c4_log_commit_def two_slots_def find_transaction_def journal_record_id set_state_def
      committed_def append_locked_def empty_log_def next_version_def append_memory_def reserve_entry_def
      SIZE_MAX_def LOG_SLOT_SIZE_def Let_def entry_bytes_def) (auto dest: leD)

text \<open>
  An aborted transaction keeps its PREPARE record. When another transaction takes its position and
  commits, the replay checks the record against the log that already has the entry.
\<close>

lemma open_stale_prepare:
  assumes "loggable crc e" "loggable crc e2" "entry_index e = 1" "entries_inv [e2]"
    "transaction_id e2 \<noteq> transaction_id e"
  shows "fst (c4_log_open crc calm (entry_bytes e2) (record_bytes crc C4_TXN_PREPARE (entry_bytes e) @ rest)) = Some EBADMSG"
proof -
  let ?j = "record_bytes crc C4_TXN_PREPARE (entry_bytes e) @ rest"
  have pr: "proper crc [e2]" using assms by (simp add: proper_def LOG_LIMIT_def)
  obtain l where l: "load_entries crc calm 0 (empty_log\<lparr>log_file := entry_bytes e2, journal_file := ?j\<rparr>) (entry_bytes e2) = (None, l)"
    and p: "progress [e2] 0 1 l"
    using load_crashed [OF pr, of 1 0 ?j] by (auto simp: crashed_log_def log_bytes_def empty_log_def)
  note c = loggable_calls [OF assms(1)]
  from p have t: "transactions l = []" "entries l = [e2]" by (auto simp: progress_def)
  from p have "tight_txns l" "length (transactions l) < LOG_LIMIT" by (auto simp: progress_def LOG_LIMIT_def)
  from reserve_transaction_calm [OF this] obtain k
    where k: "reserve_transaction calm l = Inr (l\<lparr>transaction_capacity := k\<rparr>)" by blast
  have x: "expected_position (l\<lparr>transaction_capacity := k\<rparr>) \<noteq> (entry_index e, entry_version e)" for k
    using t assms(3) by (simp add: expected_position_def next_version_def)
  have "replay_record crc calm l C4_TXN_PREPARE (entry_bytes e) = (Some EBADMSG, snd (replay_record crc calm l C4_TXN_PREPARE (entry_bytes e)))"
    using c(2) t x [of k] k assms(5)
    by (auto simp: replay_record_def replay_prepare_def find_transaction_def c4_log_get_transaction_def)
  with load_journal_step [OF c(7), of crc 0 l C4_TXN_PREPARE rest]
  have "fst (load_journal crc calm 0 l ?j) = Some EBADMSG" by (simp split: prod.splits)
  moreover have "c4_log_open crc calm (entry_bytes e2) ?j = load_journal crc calm 0 l ?j"
    using l by (simp add: c4_log_open_def sync_parent_directory_def empty_log_def)
  ultimately show ?thesis by simp
qed

section \<open>Properties\<close>

text \<open>The states of a log that was opened on any two files and then used, in any environment.\<close>

definition c4_reachable :: "zcrc \<Rightarrow> C4Log \<Rightarrow> bool" where
  "c4_reachable crc log \<longleftrightarrow> (\<exists>os lf jf log0. c4_log_open crc os lf jf = (None, log0) \<and> c4_run crc log0 log)"

lemma c4_reachable_inv: "c4_reachable crc log \<Longrightarrow> log_inv log"
  using open_inv c4_run_inv by (auto simp: c4_reachable_def)

lemma c4_reachable_empty: "c4_reachable crc empty_log"
  unfolding c4_reachable_def using open_empty [of crc] run_start [of crc empty_log] by blast

text \<open>Entries for the examples: version and index \<open>i\<close>, transaction \<open>b\<close>, a payload of two bytes.\<close>

definition sample_entry :: "nat \<Rightarrow> byte \<Rightarrow> C4LogEntry" where
  "sample_entry i b = (let e = \<lparr>entry_index = of_nat i, entry_version = of_nat i, transaction_id = replicate 16 b,
     payload = Some [b, 1], payload_size = 2, checksum = 0\<rparr> in e\<lparr>checksum := c4_log_entry_checksum sum_crc calm e\<rparr>)"

lemma sample_fields [simp]:
  "entry_index (sample_entry i b) = of_nat i" "entry_version (sample_entry i b) = of_nat i"
  "transaction_id (sample_entry i b) = replicate 16 b"
  by (simp_all add: sample_entry_def Let_def)

lemma sample_loggable: "(of_nat i :: u64) \<noteq> 0 \<Longrightarrow> loggable sum_crc (sample_entry i b)"
  by (simp add: loggable_def valid_entry_def stored_entry_def sample_entry_def Let_def MAX_PAYLOAD_SIZE_def
      C4_LOG_HEADER_SIZE_def c4_log_entry_checksum_def entry_header_def entry_payload_def)

lemma sample_stored: "(of_nat i :: u64) \<noteq> 0 \<Longrightarrow> stored_entry (sample_entry i b)"
  using sample_loggable by (simp add: loggable_def valid_entry_def)

lemma sample_proper: "proper sum_crc [sample_entry 1 7]" "proper sum_crc [sample_entry 1 7, sample_entry 2 9]"
  using sample_loggable [of 1 7] sample_loggable [of 2 9] sample_stored [of 1 7] sample_stored [of 2 9]
  by (auto simp: proper_def entries_inv_def LOG_LIMIT_def less_Suc_eq)

lemma settled_empty: "settled crc [] empty_log"
  by (simp add: settled_def progress_def empty_log_def log_bytes_def history_def tight_def tight_txns_def)

text \<open>A log with one prepared transaction, and the steps that lead to it and to its commit.\<close>

definition sample_prepared :: C4Log where
  "sample_prepared = two_slots [\<lparr>txn_entry = sample_entry 1 7, txn_state = C4_TXN_PREPARED\<rparr>]
     (record_bytes sum_crc C4_TXN_PREPARE (entry_bytes (sample_entry 1 7)))"

lemma sample_prepare_step: "c4_step sum_crc empty_log sample_prepared"
  unfolding sample_prepared_def
  by (rule step_prepare [OF prepare_first stored_caller]) (simp_all add: sample_loggable sample_stored)

lemma sample_reachable: "c4_reachable sum_crc sample_prepared"
  using run_step [OF run_start sample_prepare_step] open_empty [of sum_crc] unfolding c4_reachable_def by blast

lemma sample_commit:
  "c4_log_commit sum_crc calm sample_prepared (replicate 16 7) False =
     (Inr (sample_entry 1 7), sample_prepared\<lparr>log_file := entry_bytes (sample_entry 1 7), capacity := 16,
        entries := [sample_entry 1 7], transactions := [committed (sample_entry 1 7)],
        journal_file := journal_file sample_prepared @ record_bytes sum_crc C4_TXN_COMMIT (replicate 16 7)\<rparr>)"
  using loggable_calls [OF sample_loggable [of 1 7]]
  by (simp add: c4_log_commit_def sample_prepared_def two_slots_def find_transaction_def journal_record_id set_state_def
      committed_def append_locked_def empty_log_def next_version_def append_memory_def reserve_entry_def
      SIZE_MAX_def LOG_SLOT_SIZE_def Let_def entry_bytes_def)

definition sample_committed :: C4Log where
  "sample_committed = snd (c4_log_commit sum_crc calm sample_prepared (replicate 16 7) False)"

lemma sample_committed_reachable: "c4_reachable sum_crc sample_committed" "c4_run sum_crc sample_prepared sample_committed"
proof -
  have s: "c4_step sum_crc sample_prepared sample_committed"
    by (rule step_commit [of _ calm _ "replicate 16 7" False]) (simp add: sample_committed_def sample_commit)
  then show "c4_run sum_crc sample_prepared sample_committed" by (rule run_step [OF run_start])
  from run_step [OF run_step [OF run_start sample_prepare_step] s]
  show "c4_reachable sum_crc sample_committed" using open_empty [of sum_crc] unfolding c4_reachable_def by blast
qed

text \<open>
C3: Whatever bytes the two files held and whatever the system calls answered, a log that
was opened and used holds consecutively numbered entries with versions equal to their indices, no
transaction twice, payloads of the recorded size, and both arrays, of entries and of transactions,
within their capacity, whose size in bytes does not overflow.
\<close>

theorem c4_log_consistent:
  assumes "c4_reachable crc log"
  shows "log_inv log"
  by (rule c4_reachable_inv [OF assms])

theorem c4_log_consistent_witness: "log_inv sample_committed"
  by (rule c4_log_consistent [OF sample_committed_reachable(1)])

text \<open>
C2: The log only grows at its end and decisions are final: along any further use, in any
environment, the entries keep their positions, a committed transaction stays committed and an
aborted one stays aborted.
\<close>

theorem c4_log_append_only:
  assumes "c4_reachable crc log" "c4_run crc log log'"
  shows "(\<exists>es. entries log' = entries log @ es) \<and>
    (\<forall>t. c4_log_transaction_state log t \<in> {C4_TXN_COMMITTED, C4_TXN_ABORTED} \<longrightarrow>
       c4_log_transaction_state log' t = c4_log_transaction_state log t)"
  using c4_run_inv [OF assms(2)] c4_run_decided [OF assms(2)] c4_reachable_inv [OF assms(1)] by blast

theorem c4_log_append_only_witness: "\<exists>es. entries sample_committed = entries sample_prepared @ es"
  using c4_log_append_only [OF sample_reachable sample_committed_reachable(2)] by blast

text \<open>
C4: Two-phase commit: one operation leaves the state of every transaction as it is or moves
it from unknown to prepared or aborted, or from prepared to committed or aborted.
\<close>

theorem c4_log_two_phase:
  assumes "c4_reachable crc log" "c4_step crc log log'"
  shows "c4_log_transaction_state log' t = c4_log_transaction_state log t \<or>
    (c4_log_transaction_state log t, c4_log_transaction_state log' t) \<in> txn_moves"
  using c4_step_state [OF assms(2) c4_reachable_inv [OF assms(1)], of t] by auto

theorem c4_log_two_phase_witness:
  "c4_log_transaction_state sample_prepared (replicate 16 7) = c4_log_transaction_state empty_log (replicate 16 7) \<or>
    (c4_log_transaction_state empty_log (replicate 16 7), c4_log_transaction_state sample_prepared (replicate 16 7)) \<in> txn_moves"
  by (rule c4_log_two_phase [OF c4_reachable_empty sample_prepare_step])

text \<open>
A commit that reports success concerned a transaction that was prepared (or committed
before); afterwards the transaction is committed and its entry, as returned, is in the log.
\<close>

theorem c4_log_commit_effect:
  assumes "c4_reachable crc log" "c4_log_commit crc os log tid out = (Inr e, log')"
  shows "c4_log_transaction_state log tid \<in> {C4_TXN_PREPARED, C4_TXN_COMMITTED} \<and>
    c4_log_transaction_state log' tid = C4_TXN_COMMITTED \<and>
    (\<exists>c \<in> set (entries log'). transaction_id c = tid \<and> same_entry c e)"
  by (rule commit_decided [OF assms(2) c4_reachable_inv [OF assms(1)]])

theorem c4_log_commit_effect_witness:
  "c4_log_transaction_state sample_prepared (replicate 16 7) \<in> {C4_TXN_PREPARED, C4_TXN_COMMITTED} \<and>
    c4_log_transaction_state sample_committed (replicate 16 7) = C4_TXN_COMMITTED \<and>
    (\<exists>c \<in> set (entries sample_committed). transaction_id c = replicate 16 7 \<and> same_entry c (sample_entry 1 7))"
  by (rule c4_log_commit_effect [OF sample_reachable, of calm _ False])
    (simp add: sample_committed_def sample_commit)

text \<open>
Every entry of the log is found by its index and by its transaction, with the payload
that was stored, whenever memory for the copy is available.
\<close>

theorem c4_log_lookup:
  assumes "c4_reachable crc log" "i < length (entries log)"
  shows "c4_log_get calm log (of_nat (Suc i)) = Inr (entries log ! i) \<and>
    c4_log_get_transaction calm log (transaction_id (entries log ! i)) = Inr (entries log ! i)"
  using get_committed [OF c4_reachable_inv [OF assms(1)] assms(2)] by blast

theorem c4_log_lookup_witness:
  "c4_log_get calm sample_committed (of_nat (Suc 0)) = Inr (entries sample_committed ! 0) \<and>
    c4_log_get_transaction calm sample_committed (transaction_id (entries sample_committed ! 0)) =
      Inr (entries sample_committed ! 0)"
  by (rule c4_log_lookup [OF sample_committed_reachable(1)]) (simp add: sample_committed_def sample_commit)

text \<open>
C1: Committed transactions survive a crash. When the journal says that the transactions of
\<open>es\<close> were prepared and committed, then however much of the log file was lost at its end, whole
entries and part of one, opening succeeds and gives exactly these entries, every transaction
committed, and a log file repaired to hold all of them.
\<close>

theorem c4_crash_recovery:
  assumes "proper crc es" "m \<le> length es" "m < length es \<Longrightarrow> t < length (entry_bytes (es ! m))"
  shows "\<exists>log. c4_log_open crc calm (crashed_log es m t) (history crc es) = (None, log) \<and> settled crc es log"
proof -
  from open_crashed [OF assms, of "[]"] obtain k log
    where o: "c4_log_open crc calm (crashed_log es m t) (history crc es) = load_journal crc calm k log []"
      and s: "settled crc es log" by (auto simp: settled_def)
  from o have "c4_log_open crc calm (crashed_log es m t) (history crc es) = (None, log)"
    by (simp add: load_journal.simps)
  with s show ?thesis by blast
qed

theorem c4_crash_recovery_witness:
  "\<exists>log. c4_log_open sum_crc calm (crashed_log [sample_entry 1 7] 0 45) (history sum_crc [sample_entry 1 7]) = (None, log) \<and>
     settled sum_crc [sample_entry 1 7] log"
  by (rule c4_crash_recovery [OF sample_proper(1)])
    (use length_entry_bytes [OF sample_stored [of 1 7]] in
      \<open>simp_all add: C4_LOG_HEADER_SIZE_def sample_entry_def Let_def\<close>)

text \<open>
Preparing and committing the next entry on a log at rest succeeds when the system
calls do, returns the entry, and leaves a log at rest with the entry added, in memory and on disk.
\<close>

theorem c4_prepare_commit:
  assumes "settled crc es log" "proper crc (es @ [e])"
  shows "\<exists>l l'. c4_log_prepare crc calm log e = (None, l) \<and>
    c4_log_commit crc calm l (transaction_id e) out = (Inr e, l') \<and> settled crc (es @ [e]) l'"
proof -
  from prepare_settled [OF assms] obtain c where
    "c4_log_prepare crc calm log e =
      (None, enter (log\<lparr>journal_file := journal_file log @ record_bytes crc C4_TXN_PREPARE (entry_bytes e)\<rparr>) c e)"
    "length es < c" "c \<le> max 16 (2 * length es)" by blast
  with commit_settled [OF assms] show ?thesis by blast
qed

theorem c4_prepare_commit_witness:
  "\<exists>l l'. c4_log_prepare sum_crc calm empty_log (sample_entry 1 7) = (None, l) \<and>
    c4_log_commit sum_crc calm l (transaction_id (sample_entry 1 7)) True = (Inr (sample_entry 1 7), l') \<and>
    settled sum_crc ([] @ [sample_entry 1 7]) l'"
  by (rule c4_prepare_commit [OF settled_empty]) (use sample_proper(1) in simp)

text \<open>
A transaction in doubt survives a crash: when the journal ends with its PREPARE
record, opening gives the committed entries and the transaction as prepared, with its entry kept.
\<close>

theorem c4_in_doubt_recovery:
  assumes "proper crc (es @ [e])" "m \<le> length es" "m < length es \<Longrightarrow> t < length (entry_bytes (es ! m))"
  shows "\<exists>log. c4_log_open crc calm (crashed_log es m t)
      (history crc es @ record_bytes crc C4_TXN_PREPARE (entry_bytes e)) = (None, log) \<and>
    entries log = es \<and> c4_log_transaction_state log (transaction_id e) = C4_TXN_PREPARED \<and>
    c4_log_get_prepared calm log (transaction_id e) = Inr e"
proof -
  let ?n = "length es" and ?r = "record_bytes crc C4_TXN_PREPARE (entry_bytes e)"
  have pes: "proper crc es" using entries_inv_take [of "es @ [e]" ?n] assms(1) by (simp add: proper_def)
  have n: "?n < length (es @ [e])" and e: "(es @ [e]) ! ?n = e" by simp_all
  note d = properD [OF assms(1) n, unfolded e]
  from open_crashed [OF pes assms(2,3), of ?r] obtain k log
    where o: "c4_log_open crc calm (crashed_log es m t) (history crc es @ ?r) = load_journal crc calm k log (?r @ [])"
      and p: "progress es ?n ?n log" by auto
  have pe: "progress (es @ [e]) ?n ?n log" using p by (simp add: progress_def)
  from replay_prepare_progress [OF assms(1) n pe] e obtain c
    where r: "replay_record crc calm log C4_TXN_PREPARE (entry_bytes e) = (None, enter log c e)"
      and c: "length (transactions log) < c" "c \<le> max 16 (2 * length (transactions log))" by auto
  have "load_journal crc calm k log (?r @ []) = (None, enter log c e)"
    unfolding load_journal_step [OF loggable_size [OF d(1)]] r by (simp add: load_journal.simps)
  moreover note commit_progress(1,2) [OF assms(1) n pe order.refl _ c, unfolded e]
  moreover have "entries (enter log c e) = es" using p by (simp add: enter_def progress_def)
  moreover have "txn_entry (transactions (enter log c e) ! ?n) = e"
    using p by (simp add: enter_def progress_def add_transaction_def nth_append)
  ultimately show ?thesis
    using o copy_stored [OF d(3)] by (simp add: c4_log_transaction_state_def c4_log_get_prepared_def)
qed

theorem c4_in_doubt_recovery_witness:
  "\<exists>log. c4_log_open sum_crc calm (crashed_log [sample_entry 1 7] 0 45)
      (history sum_crc [sample_entry 1 7] @ record_bytes sum_crc C4_TXN_PREPARE (entry_bytes (sample_entry 2 9))) = (None, log) \<and>
    entries log = [sample_entry 1 7] \<and>
    c4_log_transaction_state log (transaction_id (sample_entry 2 9)) = C4_TXN_PREPARED \<and>
    c4_log_get_prepared calm log (transaction_id (sample_entry 2 9)) = Inr (sample_entry 2 9)"
  by (rule c4_in_doubt_recovery)
    (use sample_proper(2) length_entry_bytes [OF sample_stored [of 1 7]] in
      \<open>simp_all add: C4_LOG_HEADER_SIZE_def, simp add: sample_entry_def Let_def\<close>)

text \<open>
A log whose journal ends in a partly written record, as a crash during
\<open>c4_log_prepare\<close> leaves it, cannot be opened again: unlike the tail of the log file, the tail of
the journal is not cut off.
\<close>

theorem c4_torn_journal_rejected:
  assumes "proper crc (es @ [e])" "0 < t" "t < length (record_bytes crc C4_TXN_PREPARE (entry_bytes e))"
  shows "fst (c4_log_open crc calm (log_bytes es) (history crc es @ take t (record_bytes crc C4_TXN_PREPARE (entry_bytes e)))) =
    Some EBADMSG"
proof -
  let ?n = "length es" and ?r = "take t (record_bytes crc C4_TXN_PREPARE (entry_bytes e))"
  have pes: "proper crc es" using entries_inv_take [of "es @ [e]" ?n] assms(1) by (simp add: proper_def)
  have l: "loggable crc e" using assms(1) by (simp add: proper_def)
  from open_crashed [OF pes order.refl, of 0 ?r] obtain k log
    where "c4_log_open crc calm (log_bytes es) (history crc es @ ?r) = load_journal crc calm k log ?r"
    by (auto simp: crashed_log_def)
  with load_torn_journal [OF assms(2,3) loggable_size [OF l], of k log] show ?thesis by simp
qed

theorem c4_torn_journal_rejected_witness:
  "fst (c4_log_open sum_crc calm (log_bytes []) (history sum_crc [] @
     take 5 (record_bytes sum_crc C4_TXN_PREPARE (entry_bytes (sample_entry 1 7))))) = Some EBADMSG"
  by (rule c4_torn_journal_rejected)
    (use sample_proper(1) in \<open>simp_all add: record_bytes_def C4_TXN_HEADER_SIZE_def\<close>)

text \<open>
C36: On a fresh log, aborting the first prepared transaction and committing another at the same
position, every call succeeding, leaves two files that cannot be opened again.
\<close>

theorem c4_abort_then_commit_unopenable:
  assumes "loggable crc a" "loggable crc b" "entry_index a = 1" "entry_version a = 1" "entry_index b = 1"
    "entry_version b = 1" "transaction_id a \<noteq> transaction_id b"
  shows "\<exists>l1 l2 l3 l4. c4_log_open crc calm [] [] = (None, empty_log) \<and>
    c4_log_prepare crc calm empty_log a = (None, l1) \<and> c4_log_abort crc calm l1 (transaction_id a) = (None, l2) \<and>
    c4_log_prepare crc calm l2 b = (None, l3) \<and> c4_log_commit crc calm l3 (transaction_id b) False = (Inr b, l4) \<and>
    entries l4 = [b] \<and> fst (c4_log_open crc calm (log_file l4) (journal_file l4)) = Some EBADMSG"
proof -
  let ?ab = "\<lparr>txn_entry = a, txn_state = C4_TXN_ABORTED\<rparr>"
  define j where "j = record_bytes crc C4_TXN_PREPARE (entry_bytes a)"
  note la = loggable_calls [OF assms(1)] and lb = loggable_calls [OF assms(2)]
  have a: "c4_log_abort crc calm (two_slots [\<lparr>txn_entry = a, txn_state = C4_TXN_PREPARED\<rparr>] j) (transaction_id a) =
      (None, two_slots [?ab] (j @ record_bytes crc C4_TXN_ABORT (transaction_id a)))"
    using abort_calm [of _ "transaction_id a" 0 crc] la(8) by (simp add: two_slots_def find_transaction_def set_state_def)
  have x: "expected_position (two_slots [?ab] q) = (entry_index b, entry_version b)" for q
    using assms(5,6) by (simp add: expected_position_def two_slots_def empty_log_def next_version_def)
  have i: "entries_inv [b]" using assms lb by (simp add: entries_inv_def)
  note p = prepare_two [OF assms(2) x] and c = commit_second [OF assms(2)]
  from p [of "j @ record_bytes crc C4_TXN_ABORT (transaction_id a)"] c [of ?ab] assms open_empty
    prepare_first [OF assms(1,3,4)] a
    open_stale_prepare [OF assms(1,2,3) i assms(7) [symmetric]] show ?thesis
    by (simp add: two_slots_def j_def)
qed

theorem c4_abort_then_commit_unopenable_witness:
  "\<exists>l1 l2 l3 l4. c4_log_open sum_crc calm [] [] = (None, empty_log) \<and>
    c4_log_prepare sum_crc calm empty_log (sample_entry 1 7) = (None, l1) \<and>
    c4_log_abort sum_crc calm l1 (transaction_id (sample_entry 1 7)) = (None, l2) \<and>
    c4_log_prepare sum_crc calm l2 (sample_entry 1 9) = (None, l3) \<and>
    c4_log_commit sum_crc calm l3 (transaction_id (sample_entry 1 9)) False = (Inr (sample_entry 1 9), l4) \<and>
    entries l4 = [sample_entry 1 9] \<and> fst (c4_log_open sum_crc calm (log_file l4) (journal_file l4)) = Some EBADMSG"
  by (rule c4_abort_then_commit_unopenable) (simp_all add: sample_loggable)

text \<open>
When two transactions are prepared one behind the other and the first is aborted, the
commit of the second is recorded and reported as failed: its state is committed and the journal
says so, but its entry, whose position is never filled, does not enter the log.
\<close>

theorem c4_commit_after_abort_stuck:
  assumes "loggable crc a" "loggable crc b" "entry_index a = 1" "entry_version a = 1" "entry_index b = 2"
    "entry_version b = 2" "transaction_id a \<noteq> transaction_id b"
  shows "\<exists>l1 l2 l3 l4. c4_log_prepare crc calm empty_log a = (None, l1) \<and> c4_log_prepare crc calm l1 b = (None, l2) \<and>
    c4_log_abort crc calm l2 (transaction_id a) = (None, l3) \<and>
    c4_log_commit crc calm l3 (transaction_id b) False = (Inl ERANGE, l4) \<and>
    c4_log_transaction_state l4 (transaction_id b) = C4_TXN_COMMITTED \<and> entries l4 = []"
proof -
  let ?pa = "\<lparr>txn_entry = a, txn_state = C4_TXN_PREPARED\<rparr>" and ?pb = "\<lparr>txn_entry = b, txn_state = C4_TXN_PREPARED\<rparr>"
  let ?ab = "\<lparr>txn_entry = a, txn_state = C4_TXN_ABORTED\<rparr>"
  note la = loggable_calls [OF assms(1)]
  have x: "expected_position (two_slots [?pa] q) = (entry_index b, entry_version b)" for q
    using assms(3-6) by (simp add: expected_position_def two_slots_def empty_log_def next_version_def)
  have a: "c4_log_abort crc calm (two_slots [?pa, ?pb] q) (transaction_id a) =
      (None, two_slots [?ab, ?pb] (q @ record_bytes crc C4_TXN_ABORT (transaction_id a)))" for q
    using abort_calm [of _ "transaction_id a" 0 crc] la(8) by (simp add: two_slots_def find_transaction_def set_state_def)
  note p = prepare_two [OF assms(2) x] and c = commit_second [OF assms(2)]
  have "c4_log_transaction_state (two_slots [?ab, committed b] q) (transaction_id b) = C4_TXN_COMMITTED" for q
    using assms(7) by (simp add: c4_log_transaction_state_def find_transaction_def two_slots_def committed_def)
  with prepare_first [OF assms(1,3,4)] p a c [of ?ab] assms(5-7) show ?thesis
    by (simp add: two_slots_def empty_log_def)
qed

theorem c4_commit_after_abort_stuck_witness:
  "\<exists>l1 l2 l3 l4. c4_log_prepare sum_crc calm empty_log (sample_entry 1 7) = (None, l1) \<and>
    c4_log_prepare sum_crc calm l1 (sample_entry 2 9) = (None, l2) \<and>
    c4_log_abort sum_crc calm l2 (transaction_id (sample_entry 1 7)) = (None, l3) \<and>
    c4_log_commit sum_crc calm l3 (transaction_id (sample_entry 2 9)) False = (Inl ERANGE, l4) \<and>
    c4_log_transaction_state l4 (transaction_id (sample_entry 2 9)) = C4_TXN_COMMITTED \<and> entries l4 = []"
  by (rule c4_commit_after_abort_stuck) (simp_all add: sample_loggable)

end
