(* ===== verification/C4_Agreement.thy ===== *)
theory C4_Agreement
  imports C4_Cluster C4_Durability
begin

text \<open>
  Agreement of the replicated logs: the calls of a leader are connected with the handlers of the other nodes, and the two
  rounds of a submission are followed on all logs at once.
\<close>

section \<open>A cluster of nodes\<close>

text \<open>
  The world of a submission: the other nodes, and the number of calls made so far. What becomes of
  call \<open>t\<close>, and how the system calls behave in the node that serves it, is \<open>env t\<close>: the request may be lost, or
  the reply, or both may arrive. The handlers of the messages of a submission make no calls themselves.
\<close>

type_synonym 'c nodes = "NodeID \<Rightarrow> 'c C4Cluster option"

datatype fate = Lost | Unanswered | Answered

definition transaction_request :: "byte \<Rightarrow> byte list option \<Rightarrow> NodeID \<Rightarrow> NodeID \<Rightarrow> byte list \<Rightarrow> message" where
  "transaction_request type tid source destination bytes =
     \<lparr>message_header = request_header (Some source) (Some destination) type (case tid of None \<Rightarrow> replicate 16 0 | Some i \<Rightarrow> i) 0
        (of_nat (length bytes)),
      message_payload = (if bytes = [] then None else Some bytes)\<rparr>"

definition serve ::
  "zcrc \<Rightarrow> os \<Rightarrow> 'c applier \<Rightarrow> 'c C4Cluster \<Rightarrow> message \<Rightarrow> reply result \<times> 'c C4Cluster" where
  "serve crc os apply cl request =
     (case c4_cluster_handle crc os apply (\<lambda>w _ _ _ _. (Inl EHOSTUNREACH, w)) cl request () of (r, cl, _) \<Rightarrow> (r, cl))"

definition deliver :: "zcrc \<Rightarrow> 'c applier \<Rightarrow> (nat \<Rightarrow> fate \<times> os) \<Rightarrow> NodeID \<Rightarrow> ('c nodes \<times> nat) remote" where
  "deliver crc apply env source w m type tid bytes =
     (let (nodes, t) = w; (fate, os) = env t in
      case nodes (member_id m) of
        None \<Rightarrow> (Inl EHOSTUNREACH, nodes, Suc t)
      | Some cl \<Rightarrow>
          if fate = Lost then (Inl ETIMEDOUT, nodes, Suc t)
          else
            let (r, cl) = serve crc os apply cl (transaction_request type tid source (member_id m) bytes) in
            (if fate = Unanswered then Inl ETIMEDOUT
             else Inr (case r of Inl e \<Rightarrow> (m_type M_ERROR, remote_error_encode e) | Inr reply \<Rightarrow> reply),
             nodes(member_id m \<mapsto> cl), Suc t))"

lemma transaction_request_fields [simp]:
  "message_type (message_header (transaction_request type tid s d bytes)) = type"
  "source_node (message_header (transaction_request type tid s d bytes)) = s"
  "destination_node (message_header (transaction_request type tid s d bytes)) = d"
  "header_transaction_id (message_header (transaction_request type (Some i) s d bytes)) = i"
  "header_payload_size (message_header (transaction_request type tid s d bytes)) = of_nat (length bytes)"
  "payload_bytes (transaction_request type tid s d bytes) = bytes"
  by (simp_all add: transaction_request_def request_header_def payload_bytes_def)

text \<open>What the handlers of the three messages of a transaction do to the log of their node.\<close>

lemma apply_log [simp]: "cl_log (snd (c4_apply_new_entry apply cl e)) = cl_log cl"
  by (simp add: c4_apply_new_entry_def case_prod_beta Let_def)

definition holds_prepared :: "C4Log \<Rightarrow> C4LogEntry \<Rightarrow> bool" where
  "holds_prepared log e \<longleftrightarrow> (\<exists>i. find_transaction log (transaction_id e) = Some i \<and> same_entry (txn_entry (transactions log ! i)) e)"

lemma prepare_holds:
  assumes "c4_log_prepare crc os log e = (None, log')" "length (transaction_id e) = 16"
  shows "holds_prepared log' e"
proof (cases "find_transaction log (transaction_id e)")
  case (Some i)
  then show ?thesis using assms(1) by (auto simp: c4_log_prepare_def Let_def holds_prepared_def split: if_splits)
next
  case None
  then obtain f k d where d: "same_entry d e" "log' = add_transaction (log\<lparr>transaction_capacity := k, journal_file := f\<rparr>) d C4_TXN_PREPARED"
    using prepare_cases [OF assms] by auto
  have "find_index (\<lambda>t. transaction_id (txn_entry t) = transaction_id e) (transactions log) = None"
    using None by (simp add: find_transaction_def)
  then have "find_transaction log' (transaction_id e) = Some (length (transactions log))"
    using d by (simp add: find_transaction_def add_transaction_def find_index_append_None same_entry_def)
  with d show ?thesis by (auto simp: holds_prepared_def add_transaction_def)
qed

lemma same_entry_sym: "same_entry a b \<Longrightarrow> same_entry b a"
  by (auto simp: same_entry_def)

lemma commit_holds:
  assumes "c4_log_commit crc os log (transaction_id e) out = (Inr c, log')" "log_inv log" "holds_prepared log e"
  shows "\<exists>x \<in> set (entries log'). same_entry x e"
proof -
  obtain i where i: "find_transaction log (transaction_id e) = Some i" "same_entry (txn_entry (transactions log ! i)) e"
    using assms(3) by (auto simp: holds_prepared_def)
  have "same_entry (txn_entry (transactions log ! i)) c" by (rule commit_result [OF assms(1) i(1) assms(2)])
  then have "same_entry c e" using i(2) same_entry_sym same_entry_trans by blast
  moreover obtain x where "x \<in> set (entries log')" "same_entry x c" using commit_decided [OF assms(1,2)] by blast
  ultimately show ?thesis using same_entry_trans by blast
qed

lemma serve_prepare:
  assumes "serve crc os apply cl (transaction_request (m_type M_PREPARE) (Some tid) s d bytes) = (r, cl')"
    "log_inv (cl_log cl)" "length tid = 16"
  shows "log_inv (cl_log cl') \<and> entries (cl_log cl') = entries (cl_log cl) \<and>
    (\<forall>b. r = Inr (m_type M_ACK, b) \<longrightarrow> (\<exists>os' e. c4_log_entry_decode crc os' bytes = Inr e \<and> transaction_id e = tid \<and> holds_prepared (cl_log cl') e))"
proof -
  define Q where "Q log' \<longleftrightarrow> (\<exists>os' e. c4_log_entry_decode crc os' bytes = Inr e \<and> transaction_id e = tid \<and> holds_prepared log' e)" for log'
  have p: "log_inv log' \<and> entries log' = entries (cl_log cl) \<and> (r' = None \<longrightarrow> Q log')"
    if "c4_log_entry_decode crc os2 bytes = Inr e" "c4_log_prepare crc os' (cl_log cl) e = (r', log')" "transaction_id e = tid" for os2 os' e r' log'
    using prepare_inv [OF that(2) _ assms(2)] prepare_holds [of crc os' "cl_log cl" e log'] that assms(3) by (auto simp: Q_def)
  have "log_inv (cl_log cl') \<and> entries (cl_log cl') = entries (cl_log cl) \<and> (\<forall>b. r = Inr (m_type M_ACK, b) \<longrightarrow> Q (cl_log cl'))"
    using assms(1,2) p
    by (auto simp: serve_def c4_cluster_handle_def Let_def split: if_splits option.splits sum.splits prod.splits)
  then show ?thesis by (simp add: Q_def)
qed

lemma serve_commit:
  assumes "serve crc os apply cl (transaction_request (m_type M_COMMIT) (Some tid) s d []) = (r, cl')" "log_inv (cl_log cl)"
  shows "log_inv (cl_log cl') \<and>
    (\<forall>b e. r = Inr (m_type M_ACK, b) \<longrightarrow> transaction_id e = tid \<longrightarrow> holds_prepared (cl_log cl) e \<longrightarrow>
       (\<exists>x \<in> set (entries (cl_log cl')). same_entry x e))"
proof -
  have c: "log_inv log' \<and> (\<forall>c e. r' = Inr c \<longrightarrow> transaction_id e = tid \<longrightarrow> holds_prepared (cl_log cl) e \<longrightarrow> (\<exists>x \<in> set (entries log'). same_entry x e))"
    if "c4_log_commit crc os' (cl_log cl) tid True = (r', log')" for os' r' log'
    using commit_inv [OF that assms(2)] commit_holds [OF _ assms(2), of crc os' _ True _ log'] that by auto
  have a: "cl_log cl2 = log'" if "c4_apply_new_entry apply (cl\<lparr>cl_log := log'\<rparr>) x = (q, cl2)" for log' x q cl2
    using apply_log [of "apply" "cl\<lparr>cl_log := log'\<rparr>" x] that by simp
  show ?thesis
    using assms c a
    by (auto simp: serve_def c4_cluster_handle_def Let_def split: if_splits option.splits sum.splits prod.splits)
qed

lemma serve_abort:
  assumes "serve crc os apply cl (transaction_request (m_type M_ABORT) (Some tid) s d []) = (r, cl')"
    "log_inv (cl_log cl)" "length tid = 16"
  shows "log_inv (cl_log cl') \<and> entries (cl_log cl') = entries (cl_log cl)"
  using assms(1,2) abort_inv [OF _ assms(2,3)]
  by (auto simp: serve_def c4_cluster_handle_def Let_def split: if_splits option.splits sum.splits prod.splits)

text \<open>One round of calls reaches every node at most once.\<close>

lemma call_replicas_nodes:
  assumes "call_replicas (deliver crc apply env s) type tid bytes ms (nodes, t) = (acks, nodes', t')" "distinct (map member_id ms)"
  shows "length acks = length ms \<and> (\<forall>n. n \<notin> member_id ` set ms \<longrightarrow> nodes' n = nodes n) \<and>
    (\<forall>k < length ms. (nodes' (member_id (ms ! k)) = nodes (member_id (ms ! k)) \<and> \<not> acks ! k) \<or>
       (\<exists>cl os r cl'. nodes (member_id (ms ! k)) = Some cl \<and> nodes' (member_id (ms ! k)) = Some cl' \<and>
          serve crc os apply cl (transaction_request type (Some tid) s (member_id (ms ! k)) bytes) = (r, cl') \<and>
          (acks ! k \<longrightarrow> (\<exists>b. r = Inr (m_type M_ACK, b)))))"
  using assms
proof (induction ms arbitrary: nodes t acks)
  case (Cons m ms)
  let ?d = "deliver crc apply env s (nodes, t) m type (Some tid) bytes"
  obtain r nodes1 t1 where d: "?d = (r, nodes1, t1)" by (cases ?d) auto
  obtain acks2 where a: "call_replicas (deliver crc apply env s) type tid bytes ms (nodes1, t1) = (acks2, nodes', t')"
    "acks = (case r of Inr (ty, _) \<Rightarrow> ty = m_type M_ACK | Inl _ \<Rightarrow> False) # acks2"
    using Cons.prems(1) d by (auto simp: Let_def split: prod.splits)
  note ih = Cons.IH [OF a(1)]
  have dist: "member_id m \<notin> member_id ` set ms" "distinct (map member_id ms)" using Cons.prems(2) by simp_all
  have one: "(\<forall>n. n \<noteq> member_id m \<longrightarrow> nodes1 n = nodes n) \<and>
    ((nodes1 (member_id m) = nodes (member_id m) \<and> \<not> acks ! 0) \<or>
       (\<exists>cl os r cl'. nodes (member_id m) = Some cl \<and> nodes1 (member_id m) = Some cl' \<and>
          serve crc os apply cl (transaction_request type (Some tid) s (member_id m) bytes) = (r, cl') \<and>
          (acks ! 0 \<longrightarrow> (\<exists>b. r = Inr (m_type M_ACK, b)))))"
  proof (cases "nodes (member_id m) = None \<or> fst (env t) = Lost")
    case True
    then show ?thesis using d a(2) by (cases "nodes (member_id m)") (auto simp: deliver_def Let_def case_prod_beta)
  next
    case False
    then obtain cl where cl: "nodes (member_id m) = Some cl" by auto
    obtain q cl' where q: "serve crc (snd (env t)) apply cl (transaction_request type (Some tid) s (member_id m) bytes) = (q, cl')"
      by (cases "serve crc (snd (env t)) apply cl (transaction_request type (Some tid) s (member_id m) bytes)")
    then have r: "nodes1 = nodes(member_id m \<mapsto> cl')"
      "r = (if fst (env t) = Unanswered then Inl ETIMEDOUT
         else Inr (case q of Inl e \<Rightarrow> (m_type M_ERROR, remote_error_encode e) | Inr reply \<Rightarrow> reply))"
      using d cl False by (auto simp: deliver_def Let_def case_prod_beta)
    have "\<exists>b. q = Inr (m_type M_ACK, b)" if "acks ! 0"
      using that a(2) r(2) by (cases q) (auto split: if_splits)
    then show ?thesis using cl q r(1) by auto
  qed
  have keep: "nodes1 (member_id (ms ! k)) = nodes (member_id (ms ! k))" if "k < length ms" for k
    using one dist(1) that by (metis imageI nth_mem)
  have behind: "nodes' (member_id m) = nodes1 (member_id m)" using ih [OF dist(2)] dist(1) by blast
  show ?case
  proof (intro conjI allI impI)
    show "length acks = length (m # ms)" using ih [OF dist(2)] a(2) by simp
    show "nodes' n = nodes n" if "n \<notin> member_id ` set (m # ms)" for n using ih [OF dist(2)] one that by auto
    fix k assume k: "k < length (m # ms)"
    show "(nodes' (member_id ((m # ms) ! k)) = nodes (member_id ((m # ms) ! k)) \<and> \<not> acks ! k) \<or>
       (\<exists>cl os r cl'. nodes (member_id ((m # ms) ! k)) = Some cl \<and> nodes' (member_id ((m # ms) ! k)) = Some cl' \<and>
          serve crc os apply cl (transaction_request type (Some tid) s (member_id ((m # ms) ! k)) bytes) = (r, cl') \<and>
          (acks ! k \<longrightarrow> (\<exists>b. r = Inr (m_type M_ACK, b))))"
    proof (cases k)
      case 0
      then show ?thesis using one behind by simp
    next
      case (Suc j)
      then have j: "j < length ms" using k by simp
      note ihj = ih [OF dist(2), THEN conjunct2, THEN conjunct2, THEN spec, THEN mp, OF j, unfolded keep [OF j]]
      show ?thesis using ihj a(2) Suc by simp
    qed
  qed
qed simp

section \<open>Submissions\<close>

definition submitted_entry :: "zcrc \<Rightarrow> os \<Rightarrow> C4Log \<Rightarrow> byte list \<Rightarrow> byte list \<Rightarrow> C4LogEntry" where
  "submitted_entry crc os log tid operation =
     (let e = \<lparr>entry_index = c4_log_last_index log + 1, entry_version = c4_log_last_version log + 1, transaction_id = tid,
            payload = Some operation, payload_size = of_nat (length operation), checksum = 0\<rparr> in
      e\<lparr>checksum := c4_log_entry_checksum crc os e\<rparr>)"

lemma submitted_fields:
  assumes "length operation \<le> unat MAX_PAYLOAD_SIZE"
  shows "transaction_id (submitted_entry crc os log tid operation) = tid"
    "entry_payload (submitted_entry crc os log tid operation) = operation"
    "length tid = 16 \<Longrightarrow> caller_entry (submitted_entry crc os log tid operation)"
    "operation \<noteq> [] \<Longrightarrow> payload_size (submitted_entry crc os log tid operation) \<noteq> 0"
proof -
  have u: "unat (of_nat (length operation) :: u32) = length operation"
    using assms by (simp add: MAX_PAYLOAD_SIZE_def unat_of_nat take_bit_nat_eq_self)
  show "transaction_id (submitted_entry crc os log tid operation) = tid"
    "entry_payload (submitted_entry crc os log tid operation) = operation"
    "length tid = 16 \<Longrightarrow> caller_entry (submitted_entry crc os log tid operation)"
    using u by (simp_all add: submitted_entry_def entry_payload_def caller_entry_def Let_def)
  show "payload_size (submitted_entry crc os log tid operation) \<noteq> 0" if "operation \<noteq> []"
  proof
    assume "payload_size (submitted_entry crc os log tid operation) = 0"
    then have "(of_nat (length operation) :: u32) = 0" by (simp add: submitted_entry_def Let_def)
    then show False using u that by simp
  qed
qed

lemma replica_log [simp]: "replica (cl\<lparr>cl_log := log\<rparr>) = replica cl"
  by (simp add: replica_def [abs_def] self_id_def)

text \<open>The ways the two rounds can go, and a submission.\<close>

lemma two_phase_cases:
  assumes "two_phase crc os apply rpc ms cl tid wire w = (b, cl', w')"
  obtains (aborted) sent acks acks' log' q w1 where "\<not> b"
        "sent = [] \<and> w1 = w \<or> sent = filter (replica cl) ms \<and> call_replicas rpc (m_type M_PREPARE) tid wire sent w = (acks, w1)"
        "c4_log_abort crc (at os 7) (cl_log cl) tid = (q, log')" "cl' = cl\<lparr>cl_log := log'\<rparr>"
        "call_replicas rpc (m_type M_ABORT) tid [] sent w1 = (acks', w')"
    | (uncommitted) acks log' r where "\<not> b"
        "call_replicas rpc (m_type M_PREPARE) tid wire (filter (replica cl) ms) w = (acks, w')" "list_all id acks"
        "c4_log_commit crc (at os 6) (cl_log cl) tid True = (r, log')" "cl_log cl' = log'"
    | (committed) acks acks' log' c w1 where
        "call_replicas rpc (m_type M_PREPARE) tid wire (filter (replica cl) ms) w = (acks, w1)" "list_all id acks"
        "c4_log_commit crc (at os 6) (cl_log cl) tid True = (Inr c, log')" "cl_log cl' = log'"
        "call_replicas rpc (m_type M_COMMIT) tid [] (filter (replica cl) ms) w1 = (acks', w')" "b \<longleftrightarrow> list_all id acks'"
proof -
  let ?rs = "filter (replica cl) ms"
  note two_phase_def [simp] c4_count_live_superpeers_def [simp]
  obtain q log' where q: "c4_log_abort crc (at os 7) (cl_log cl) tid = (q, log')" by fastforce
  obtain acks w1 where a: "call_replicas rpc (m_type M_PREPARE) tid wire ?rs w = (acks, w1)" by fastforce
  show ?thesis
  proof (cases "fault (at os 5) \<noteq> None \<and> ms \<noteq> []")
    case True
    then show ?thesis using assms q by (intro aborted [OF _ _ q, of "[]"]) (auto simp: Let_def)
  next
    case fault: False
    show ?thesis
    proof (cases "list_all id acks")
      case False
      obtain acks' w2 where a': "call_replicas rpc (m_type M_ABORT) tid [] ?rs w1 = (acks', w2)" by fastforce
      have "\<not> b" "cl' = cl\<lparr>cl_log := log'\<rparr>" "w' = w2" using assms q a a' False fault by (auto simp: Let_def)
      then show ?thesis using a a' by (intro aborted [OF _ _ q, where sent = ?rs and ?w1.0 = w1 and acks = acks]) simp_all
    next
      case ok: True
      obtain rc log2 where c: "c4_log_commit crc (at os 6) (cl_log cl) tid True = (rc, log2)" by fastforce
      show ?thesis
      proof (cases rc)
        case (Inl x)
        then show ?thesis using assms a ok fault c by (intro uncommitted [OF _ _ ok c]) (auto simp: Let_def)
      next
        case (Inr d)
        obtain ra cl2 where ap: "c4_apply_new_entry apply (cl\<lparr>cl_log := log2\<rparr>) d = (ra, cl2)" by fastforce
        have log2: "cl_log cl2 = log2" using apply_log [of "apply" "cl\<lparr>cl_log := log2\<rparr>" d] ap by simp
        obtain acks' w2 where a': "call_replicas rpc (m_type M_COMMIT) tid [] ?rs w1 = (acks', w2)" by fastforce
        show ?thesis
        proof (cases ra)
          case (Some x)
          then have "\<not> b" "cl' = cl2" "w' = w1" using assms Inr ap a ok fault c by (auto simp: Let_def)
          then show ?thesis using a c log2 ok by (intro uncommitted [OF _ _ _ c]) simp_all
        next
          case None
          then have "b = list_all id acks'" "cl' = cl2" "w' = w2" using assms Inr ap a ok fault c a' by (auto simp: Let_def)
          then show ?thesis using c Inr log2 a' by (intro committed [OF a ok]) simp_all
        qed
      qed
    qed
  qed
qed

lemma submit_cases:
  assumes "c4_cluster_submit crc os apply rpc cl tid owner_id data w = (b, cl', w')" "length owner_id = C4_FORWARD_OWNER_SIZE"
  obtains (rejected) "\<not> b" "cl' = cl" "w' = w"
    | (again) ms acks e where "membership_snapshot (at os 0) (cl_members cl) = Inr ms"
        "c4_log_get_transaction (at os 2) (cl_log cl) tid = Inr e" "entry_payload e = owner_id @ data" "cl' = cl"
        "call_replicas rpc (m_type M_COMMIT) tid [] (filter (replica cl) ms) w = (acks, w')"
        "b \<longleftrightarrow> length (filter id acks) = length (filter (replica cl) ms)"
    | (unprepared) r log where "\<not> b" "w' = w" "cl' = cl\<lparr>cl_log := log\<rparr>"
        "c4_log_prepare crc (at os 4) (cl_log cl) (submitted_entry crc (at os 3) (cl_log cl) tid (owner_id @ data)) = (r, log)"
    | (prepared) ms log wire where "membership_snapshot (at os 0) (cl_members cl) = Inr ms"
        "data \<noteq> []" "length (owner_id @ data) \<le> unat MAX_PAYLOAD_SIZE" "c4_log_get_transaction (at os 2) (cl_log cl) tid = Inl ENOENT"
        "c4_log_prepare crc (at os 4) (cl_log cl) (submitted_entry crc (at os 3) (cl_log cl) tid (owner_id @ data)) = (None, log)"
        "c4_log_entry_encode crc (at os 8) (submitted_entry crc (at os 3) (cl_log cl) tid (owner_id @ data)) = Inr wire"
        "two_phase crc os apply rpc ms (cl\<lparr>cl_log := log\<rparr>) tid wire w = (b, cl', w')"
proof -
  let ?e = "submitted_entry crc (at os 3) (cl_log cl) tid (owner_id @ data)"
  note c4_cluster_submit_def [simp] c4_alive_superpeers_def [simp]
  have len: "C4_FORWARD_OWNER_SIZE + length data = length (owner_id @ data)" using assms(2) by simp
  show ?thesis
  proof (cases "data = [] \<or> unat MAX_PAYLOAD_SIZE - C4_FORWARD_OWNER_SIZE < length data \<or> \<not> c4_cluster_is_leader cl \<or>
      fault (at os 1) \<noteq> None \<or> (\<forall>ms. membership_snapshot (at os 0) (cl_members cl) \<noteq> Inr ms)")
    case True
    then show ?thesis using assms(1) by (intro rejected) (auto split: sum.splits if_splits)
  next
    case False
    then obtain ms where ms: "membership_snapshot (at os 0) (cl_members cl) = Inr ms" by auto
    have data: "data \<noteq> []" "length (owner_id @ data) \<le> unat MAX_PAYLOAD_SIZE"
      using False assms(2) by (auto simp: C4_FORWARD_OWNER_SIZE_def MAX_PAYLOAD_SIZE_def)
    show ?thesis
    proof (cases "c4_log_get_transaction (at os 2) (cl_log cl) tid")
      case (Inr e)
      obtain acks w1 where a: "call_replicas rpc (m_type M_COMMIT) tid [] (filter (replica cl) ms) w = (acks, w1)" by fastforce
      show ?thesis
      proof (cases "payload_size e = of_nat (C4_FORWARD_OWNER_SIZE + length data) \<and> entry_payload e = owner_id @ data")
        case True
        then show ?thesis using assms(1) False ms Inr a
          by (intro again [OF ms Inr]) (auto simp: c4_count_live_superpeers_def Let_def)
      next
        case no: False
        then show ?thesis using assms(1) False ms Inr by (intro rejected) (auto simp: Let_def)
      qed
    next
      case (Inl er)
      obtain r log where p: "c4_log_prepare crc (at os 4) (cl_log cl) ?e = (r, log)" by fastforce
      show ?thesis
      proof (cases "er = ENOENT")
        case no: False
        then show ?thesis using assms(1) False ms Inl by (intro rejected) (auto simp: Let_def)
      next
        case er: True
        have u: "(b, cl', w') = (case (r, log) of (Some _, log) \<Rightarrow> (False, cl\<lparr>cl_log := log\<rparr>, w)
            | (None, log) \<Rightarrow>
               (case c4_log_entry_encode crc (at os 8) ?e of Inl _ \<Rightarrow> (False, cl\<lparr>cl_log := log\<rparr>, w)
                | Inr wire \<Rightarrow> two_phase crc os apply rpc ms (cl\<lparr>cl_log := log\<rparr>) tid wire w))"
          using assms False ms Inl p er by (cases r) (simp_all add: Let_def submitted_entry_def)
        show ?thesis
        proof (cases "r = None \<and> (\<exists>wire. c4_log_entry_encode crc (at os 8) ?e = Inr wire)")
          case True
          then show ?thesis using u er Inl p by (auto intro: prepared [OF ms data])
        next
          case False
          then show ?thesis using u er p by (intro unprepared [OF _ _ _ p]) (auto split: option.splits sum.splits)
        qed
      qed
    qed
  qed
qed

section \<open>The rounds of a transaction\<close>

definition nodes_inv :: "'c nodes \<Rightarrow> bool" where
  "nodes_inv nodes \<longleftrightarrow> (\<forall>n c. nodes n = Some c \<longrightarrow> log_inv (cl_log c))"

lemma nodes_invD: "nodes_inv nodes \<Longrightarrow> nodes n = Some c \<Longrightarrow> log_inv (cl_log c)"
  by (simp add: nodes_inv_def)

definition log_of :: "'c nodes \<Rightarrow> NodeID \<Rightarrow> C4LogEntry list option" where
  "log_of nodes n = map_option (\<lambda>c. entries (cl_log c)) (nodes n)"

text \<open>What one call does to the node it reaches, a round does to all of them.\<close>

lemma round_step:
  assumes "call_replicas (deliver crc apply env s) type tid bytes ms (nodes, t) = (acks, nodes', t')" "distinct (map member_id ms)"
    and step: "\<And>cl os m r cl'. \<lbrakk>nodes (member_id m) = Some cl;
      serve crc os apply cl (transaction_request type (Some tid) s (member_id m) bytes) = (r, cl')\<rbrakk> \<Longrightarrow> R cl cl'"
    and refl: "\<And>cl. nodes n = Some cl \<Longrightarrow> R cl cl"
  shows "(nodes n = None \<longleftrightarrow> nodes' n = None) \<and> (\<forall>cl cl'. nodes n = Some cl \<longrightarrow> nodes' n = Some cl' \<longrightarrow> R cl cl')"
proof (cases "n \<in> member_id ` set ms")
  case True
  then obtain k where k: "k < length ms" "n = member_id (ms ! k)" by (auto simp: in_set_conv_nth)
  have "(nodes' n = nodes n \<and> \<not> acks ! k) \<or> (\<exists>cl os r cl'. nodes n = Some cl \<and> nodes' n = Some cl' \<and>
          serve crc os apply cl (transaction_request type (Some tid) s n bytes) = (r, cl') \<and> (acks ! k \<longrightarrow> (\<exists>b. r = Inr (m_type M_ACK, b))))"
    using call_replicas_nodes [OF assms(1,2), THEN conjunct2, THEN conjunct2, THEN spec, THEN mp, OF k(1)] unfolding k(2) .
  then show ?thesis
  proof (elim disjE exE conjE)
    assume "nodes' n = nodes n"
    then show ?thesis using refl by auto
  next
    fix cl os r cl'
    assume "nodes n = Some cl" "nodes' n = Some cl'" "serve crc os apply cl (transaction_request type (Some tid) s n bytes) = (r, cl')"
    then show ?thesis using step k(2) by auto
  qed
next
  case False
  then have "nodes' n = nodes n" using call_replicas_nodes [OF assms(1,2)] by blast
  then show ?thesis using refl by auto
qed

lemma round_acks:
  assumes "call_replicas (deliver crc apply env s) type tid bytes ms (nodes, t) = (acks, nodes', t')" "distinct (map member_id ms)"
    "list_all id acks" "m \<in> set ms"
  shows "\<exists>cl os b cl'. nodes (member_id m) = Some cl \<and> nodes' (member_id m) = Some cl' \<and>
    serve crc os apply cl (transaction_request type (Some tid) s (member_id m) bytes) = (Inr (m_type M_ACK, b), cl')"
proof -
  obtain k where k: "k < length ms" "m = ms ! k" using assms(4) by (auto simp: in_set_conv_nth)
  have "length acks = length ms" using call_replicas_nodes [OF assms(1,2)] by blast
  then have "acks ! k" using assms(3) k(1) by (simp add: list_all_length)
  then show ?thesis
    using call_replicas_nodes [OF assms(1,2), THEN conjunct2, THEN conjunct2, THEN spec, THEN mp, OF k(1)] unfolding k(2) by blast
qed

lemma quiet_round:
  assumes "call_replicas (deliver crc apply env s) type tid bytes ms (nodes, t) = (acks, nodes', t')" "distinct (map member_id ms)"
    "nodes_inv nodes"
    and step: "\<And>cl os m r cl'. \<lbrakk>log_inv (cl_log cl);
      serve crc os apply cl (transaction_request type (Some tid) s (member_id m) bytes) = (r, cl')\<rbrakk> \<Longrightarrow>
        log_inv (cl_log cl') \<and> entries (cl_log cl') = entries (cl_log cl)"
  shows "nodes_inv nodes' \<and> log_of nodes' = log_of nodes"
proof -
  have r: "(nodes n = None \<longleftrightarrow> nodes' n = None) \<and> (\<forall>cl cl'. nodes n = Some cl \<longrightarrow> nodes' n = Some cl' \<longrightarrow>
      log_inv (cl_log cl') \<and> entries (cl_log cl') = entries (cl_log cl))" for n
  proof (rule round_step [OF assms(1,2)])
    show "log_inv (cl_log cl') \<and> entries (cl_log cl') = entries (cl_log cl)"
      if "nodes (member_id m) = Some cl" "serve crc os apply cl (transaction_request type (Some tid) s (member_id m) bytes) = (r, cl')"
      for cl os m r cl'
      by (rule step [OF nodes_invD [OF assms(3) that(1)] that(2)])
    show "log_inv (cl_log cl) \<and> entries (cl_log cl) = entries (cl_log cl)" if "nodes n = Some cl" for cl
      using nodes_invD [OF assms(3) that] by simp
  qed
  have "log_of nodes' n = log_of nodes n" for n
  proof (cases "nodes n")
    case None
    then show ?thesis using r [of n] by (simp add: log_of_def)
  next
    case (Some c)
    then obtain c' where c': "nodes' n = Some c'" using r [of n, THEN conjunct1] by auto
    from r [of n, THEN conjunct2, THEN spec, THEN spec, THEN mp, OF Some, THEN mp, OF c'] show ?thesis
      using Some c' by (simp add: log_of_def)
  qed
  moreover have "nodes_inv nodes'" unfolding nodes_inv_def
  proof (intro allI impI)
    fix n c assume "nodes' n = Some c"
    then show "log_inv (cl_log c)" using r [of n, THEN conjunct1] r [of n, THEN conjunct2] by (cases "nodes n") simp_all
  qed
  ultimately show ?thesis by blast
qed

lemmas prepare_round = quiet_round [where type = "m_type M_PREPARE"]
lemmas abort_round = quiet_round [where type = "m_type M_ABORT" and bytes = "[]"]

text \<open>Only the second round adds an entry, that of the transaction.\<close>

definition grown :: "byte list \<Rightarrow> 'c C4Cluster \<Rightarrow> 'c C4Cluster \<Rightarrow> bool" where
  "grown tid cl cl' \<longleftrightarrow> log_inv (cl_log cl') \<and> (entries (cl_log cl') = entries (cl_log cl) \<or>
     (\<exists>x. entries (cl_log cl') = entries (cl_log cl) @ [x] \<and> transaction_id x = tid))"

lemma serve_commit_grown:
  assumes "serve crc os apply cl (transaction_request (m_type M_COMMIT) (Some tid) s d []) = (r, cl')" "log_inv (cl_log cl)"
  shows "grown tid cl cl'"
proof -
  have a: "cl_log cl2 = log'" if "c4_apply_new_entry apply (cl\<lparr>cl_log := log'\<rparr>) x = (q, cl2)" for log' x q cl2
    using apply_log [of "apply" "cl\<lparr>cl_log := log'\<rparr>" x] that by simp
  define G where "G log' \<longleftrightarrow> log_inv log' \<and> (entries log' = entries (cl_log cl) \<or>
     (\<exists>x. entries log' = entries (cl_log cl) @ [x] \<and> transaction_id x = tid))" for log'
  have c: "G log'" if "c4_log_commit crc os' (cl_log cl) tid True = (r', log')" for os' r' log'
    using commit_inv [OF that assms(2)] by (simp add: G_def)
  have "G (cl_log cl)" using assms(2) by (simp add: G_def)
  then show ?thesis unfolding grown_def G_def [symmetric]
    using assms a c
    by (auto simp: serve_def c4_cluster_handle_def Let_def split: if_splits option.splits sum.splits prod.splits)
qed

lemma commit_round:
  assumes "call_replicas (deliver crc apply env s) (m_type M_COMMIT) tid [] ms (nodes, t) = (acks, nodes', t')"
    "distinct (map member_id ms)" "nodes_inv nodes"
  shows "(nodes n = None \<longleftrightarrow> nodes' n = None) \<and> (\<forall>cl cl'. nodes n = Some cl \<longrightarrow> nodes' n = Some cl' \<longrightarrow> grown tid cl cl')"
proof (rule round_step [OF assms(1,2)])
  show "grown tid cl cl'" if "nodes (member_id m) = Some cl"
    "serve crc os apply cl (transaction_request (m_type M_COMMIT) (Some tid) s (member_id m) []) = (r, cl')" for cl os m r cl'
    by (rule serve_commit_grown [OF that(2) nodes_invD [OF assms(3) that(1)]])
  show "grown tid cl cl" if "nodes n = Some cl" for cl using nodes_invD [OF assms(3) that] by (simp add: grown_def)
qed

lemma snapshot_members: "membership_snapshot os t = Inr ms \<Longrightarrow> ms = members t"
  by (auto simp: membership_snapshot_def split: option.splits)

lemma replicas_distinct: "table_inv t \<Longrightarrow> distinct (map member_id (filter (replica cl) (members t)))"
  by (auto simp: table_inv_def intro: distinct_map_filter)

lemma fresh_transaction:
  "tid \<notin> transaction_id ` set (entries log) \<Longrightarrow> c4_log_get_transaction os log tid = Inl ENOENT"
  by (subst c4_log_get_transaction_def, subst find_None_iff [THEN iffD2]) auto

lemma holds_same: "holds_prepared log d \<Longrightarrow> same_entry d e \<Longrightarrow> holds_prepared log e"
  unfolding holds_prepared_def by (metis same_entry_def same_entry_trans)

text \<open>A replica that has acknowledged both rounds has the entry.\<close>

lemma replica_agrees:
  assumes "call_replicas (deliver crc apply env s) (m_type M_PREPARE) (transaction_id e) wire ms (nodes, t) = (acks, nodes1, t1)"
    "call_replicas (deliver crc apply env s) (m_type M_COMMIT) (transaction_id e) [] ms (nodes1, t1) = (acks1, nodes2, t2)"
    "list_all id acks" "list_all id acks1" "distinct (map member_id ms)" "nodes_inv nodes" "length (transaction_id e) = 16"
    "c4_log_entry_encode crc os e = Inr wire" "m \<in> set ms"
  shows "\<exists>c x. nodes2 (member_id m) = Some c \<and> x \<in> set (entries (cl_log c)) \<and> same_entry x e"
proof -
  let ?r = "\<lambda>ty. transaction_request (m_type ty) (Some (transaction_id e)) s (member_id m)"
  obtain c0 os0 b0 c1 where p: "nodes (member_id m) = Some c0" "nodes1 (member_id m) = Some c1"
    "serve crc os0 apply c0 (?r M_PREPARE wire) = (Inr (m_type M_ACK, b0), c1)"
    using round_acks [OF assms(1,5,3,9)] by blast
  obtain c2 os2 b2 where c: "nodes2 (member_id m) = Some c2" "serve crc os2 apply c1 (?r M_COMMIT []) = (Inr (m_type M_ACK, b2), c2)"
    using round_acks [OF assms(2,5,4,9)] p(2) by auto
  note sp = serve_prepare [OF p(3) nodes_invD [OF assms(6) p(1)] assms(7)]
  obtain os' d where d: "c4_log_entry_decode crc os' wire = Inr d" "transaction_id d = transaction_id e" "holds_prepared (cl_log c1) d"
    using sp by blast
  have "same_entry d e" using decode_encode_same [OF assms(8) d(1) assms(7)] by simp
  then have "holds_prepared (cl_log c1) e" by (rule holds_same [OF d(3)])
  then show ?thesis using serve_commit [OF c(2)] sp c(1) by blast
qed

lemma two_phase_agrees:
  assumes "two_phase crc os apply (deliver crc apply env s) ms cl (transaction_id e) wire (nodes, t) = (True, cl', nodes', t')"
    "distinct (map member_id (filter (replica cl) ms))" "nodes_inv nodes" "log_inv (cl_log cl)" "length (transaction_id e) = 16"
    "c4_log_entry_encode crc os' e = Inr wire" "holds_prepared (cl_log cl) e"
  shows "\<exists>x \<in> set (entries (cl_log cl')). same_entry x e \<and>
    (\<forall>m \<in> set ms. replica cl m \<longrightarrow> (\<exists>c y. nodes' (member_id m) = Some c \<and> y \<in> set (entries (cl_log c)) \<and> same_entry y e))"
  using assms(1)
proof (cases rule: two_phase_cases)
  case (committed acks acks' log' c w1)
  obtain nodes1 t1 where w: "w1 = (nodes1, t1)" by (cases w1)
  have "\<exists>x \<in> set (entries (cl_log cl')). same_entry x e"
    unfolding committed(4) by (rule commit_holds [OF committed(3) assms(4,7)])
  moreover have "\<exists>c y. nodes' (member_id m) = Some c \<and> y \<in> set (entries (cl_log c)) \<and> same_entry y e" if "m \<in> set ms" "replica cl m" for m
    using replica_agrees [OF committed(1) [unfolded w] committed(5) [unfolded w] committed(2) _ assms(2,3,5,6)] committed(6) that by simp
  ultimately show ?thesis by blast
qed simp_all

section \<open>A submission when nothing fails\<close>

text \<open>The next entry of a log at rest.\<close>

lemma submitted_proper:
  assumes "entries log = es" "proper crc es" "Suc (length es) < LOG_LIMIT" "length tid = 16" "tid \<notin> transaction_id ` set es"
    "operation \<noteq> []" "length operation \<le> unat MAX_PAYLOAD_SIZE - C4_LOG_HEADER_SIZE"
  shows "proper crc (es @ [submitted_entry crc calm log tid operation])"
proof -
  let ?e = "submitted_entry crc calm log tid operation"
  have len: "length operation \<le> unat MAX_PAYLOAD_SIZE" using assms(7) by simp
  have u: "unat (payload_size ?e) = length operation"
    using len by (simp add: submitted_entry_def Let_def MAX_PAYLOAD_SIZE_def unat_of_nat take_bit_nat_eq_self)
  have ps: "payload_size ?e \<le> MAX_PAYLOAD_SIZE - of_nat C4_LOG_HEADER_SIZE" "payload_size ?e \<le> MAX_PAYLOAD_SIZE" "0 < payload_size ?e"
    using u assms(6,7) by (auto simp: word_le_nat_alt word_less_nat_alt MAX_PAYLOAD_SIZE_def C4_LOG_HEADER_SIZE_def)
  note es = assms(1)
  have inv: "entries_inv es" using assms(2) by (simp add: proper_def)
  have l1: "es \<noteq> [] \<Longrightarrow> 1 + of_nat (length es - Suc 0) = (of_nat (length es) :: u64)" by (cases es) simp_all
  have pos: "entry_index ?e = of_nat (Suc (length es))" "entry_version ?e = of_nat (Suc (length es))"
    using inv es l1
    by (auto simp: submitted_entry_def Let_def c4_log_last_index_def c4_log_last_version_def entries_inv_def last_conv_nth)
  have nz: "(of_nat (Suc (length es)) :: u64) \<noteq> 0"
    using assms(3) by (simp add: LOG_LIMIT_def word_of_nat_eq_0_iff nat_dvd_not_less del: of_nat_Suc)
  have st: "stored_entry ?e"
    using ps u assms(4) by (simp add: stored_entry_def) (simp add: submitted_entry_def Let_def)
  have cs: "checksum ?e = c4_log_entry_checksum crc calm ?e"
    by (simp add: submitted_entry_def Let_def c4_log_entry_checksum_def entry_payload_def entry_header_def)
  have "loggable crc ?e" using st nz pos cs ps(1) by (simp add: loggable_def valid_entry_def)
  moreover have "entries_inv (es @ [?e])"
    using inv pos st assms(5) by (auto simp: entries_inv_def nth_append less_Suc_eq submitted_entry_def Let_def)
  ultimately show ?thesis using assms(2,3) by (simp add: proper_def)
qed


text \<open>A round in which every call arrives and is answered.\<close>

lemma round_ok:
  assumes "env = (\<lambda>_. (Answered, calm))" "distinct (map member_id ms)"
    "\<forall>m \<in> set ms. \<exists>c b c'. nodes (member_id m) = Some c \<and>
       serve crc calm apply c (transaction_request type (Some tid) s (member_id m) bytes) = (Inr (m_type M_ACK, b), c') \<and> Q m c'"
  shows "\<exists>acks nodes' t'. call_replicas (deliver crc apply env s) type tid bytes ms (nodes, t) = (acks, nodes', t') \<and> list_all id acks \<and>
    length acks = length ms \<and> (\<forall>n. n \<notin> member_id ` set ms \<longrightarrow> nodes' n = nodes n) \<and>
    (\<forall>m \<in> set ms. \<exists>c'. nodes' (member_id m) = Some c' \<and> Q m c')"
  using assms(2,3)
proof (induction ms arbitrary: nodes t)
  case (Cons m ms)
  obtain c b c' where c: "nodes (member_id m) = Some c" "Q m c'"
    "serve crc calm apply c (transaction_request type (Some tid) s (member_id m) bytes) = (Inr (m_type M_ACK, b), c')"
    using Cons.prems(2) by auto
  let ?n = "nodes(member_id m \<mapsto> c')"
  have d: "deliver crc apply env s (nodes, t) m type (Some tid) bytes = (Inr (m_type M_ACK, b), ?n, Suc t)"
    using c assms(1) by (simp add: deliver_def Let_def)
  have m: "member_id m \<notin> member_id ` set ms" "distinct (map member_id ms)" using Cons.prems(1) by auto
  have up: "\<forall>m' \<in> set ms. \<exists>c b c'. ?n (member_id m') = Some c \<and>
      serve crc calm apply c (transaction_request type (Some tid) s (member_id m') bytes) = (Inr (m_type M_ACK, b), c') \<and> Q m' c'"
  proof
    fix m' assume m': "m' \<in> set ms"
    then have "member_id m' \<noteq> member_id m" using m(1) by (metis imageI)
    then show "\<exists>c b c'. ?n (member_id m') = Some c \<and>
      serve crc calm apply c (transaction_request type (Some tid) s (member_id m') bytes) = (Inr (m_type M_ACK, b), c') \<and> Q m' c'"
      using Cons.prems(2) m' by simp
  qed
  obtain acks nodes' t' where r:
    "call_replicas (deliver crc apply env s) type tid bytes ms (?n, Suc t) = (acks, nodes', t')" "list_all id acks" "length acks = length ms"
    "\<forall>n. n \<notin> member_id ` set ms \<longrightarrow> nodes' n = ?n n" "\<forall>m \<in> set ms. \<exists>c'. nodes' (member_id m) = Some c' \<and> Q m c'"
    using Cons.IH [OF m(2), of ?n "Suc t", OF up] by blast
  have "nodes' (member_id m) = Some c'" using r(4) m(1) by simp
  then show ?case using d r c(2) by (auto simp: Let_def id_def)
qed simp


text \<open>A replica at rest that knows the leader serves both rounds.\<close>

definition follows :: "zcrc \<Rightarrow> C4LogEntry list \<Rightarrow> NodeID \<Rightarrow> SuperPeerMember \<Rightarrow> 'c C4Cluster \<Rightarrow> bool" where
  "follows crc es s m c \<longleftrightarrow> self_id c = member_id m \<and> settled crc es (cl_log c) \<and> c4_source_is_active_leader calm c s = None"

text \<open>The log between the rounds.\<close>

definition voted :: "zcrc \<Rightarrow> C4LogEntry list \<Rightarrow> C4LogEntry \<Rightarrow> C4Log \<Rightarrow> bool" where
  "voted crc es e l \<longleftrightarrow> (\<forall>out. \<exists>l'. c4_log_commit crc calm l (transaction_id e) out = (Inr e, l') \<and> settled crc (es @ [e]) l')"

lemma prepare_voted:
  assumes "settled crc es log" "proper crc (es @ [e])"
  shows "\<exists>l. c4_log_prepare crc calm log e = (None, l) \<and> voted crc es e l"
  using prepare_settled [OF assms] commit_settled [OF assms] unfolding voted_def by blast

lemma leader_log [simp]: "c4_source_is_active_leader os (cl\<lparr>cl_log := log\<rparr>) s = c4_source_is_active_leader os cl s"
proof -
  have "leader (cl\<lparr>cl_log := log\<rparr>) = leader cl" "cl_members (cl\<lparr>cl_log := log\<rparr>) = cl_members cl" by simp_all
  then show ?thesis unfolding c4_source_is_active_leader_def c4_member_is_live_superpeer_def by (simp only:)
qed

lemma serve_vote:
  assumes "follows crc es s m c" "proper crc (es @ [e])"
  shows "\<exists>l. serve crc calm apply c (transaction_request (m_type M_PREPARE) (Some (transaction_id e)) s (member_id m) (entry_bytes e)) =
      (Inr (m_type M_ACK, []), c\<lparr>cl_log := l\<rparr>) \<and> voted crc es e l"
proof -
  have v: "valid_entry crc e" using properD(2) [OF assms(2), of "length es"] by simp
  obtain l where l: "c4_log_prepare crc calm (cl_log c) e = (None, l)" "voted crc es e l"
    using prepare_voted [OF _ assms(2)] assms(1) by (auto simp: follows_def)
  have "serve crc calm apply c (transaction_request (m_type M_PREPARE) (Some (transaction_id e)) s (member_id m) (entry_bytes e)) =
      (Inr (m_type M_ACK, []), c\<lparr>cl_log := l\<rparr>)"
    using assms(1) l(1) decode_entry_bytes [OF v] by (simp add: serve_def c4_cluster_handle_def Let_def follows_def)
  with l(2) show ?thesis by blast
qed

lemma serve_decision:
  assumes "self_id c = member_id m" "c4_source_is_active_leader calm c s = None" "voted crc es e (cl_log c)" "\<And>c e. fst (apply c e) = None"
  shows "\<exists>c'. serve crc calm apply c (transaction_request (m_type M_COMMIT) (Some (transaction_id e)) s (member_id m) []) =
      (Inr (m_type M_ACK, []), c') \<and> settled crc (es @ [e]) (cl_log c')"
proof -
  obtain l' where l: "c4_log_commit crc calm (cl_log c) (transaction_id e) True = (Inr e, l')" "settled crc (es @ [e]) l'"
    using assms(3) unfolding voted_def by blast
  obtain c' where a: "c4_apply_new_entry apply (c\<lparr>cl_log := l'\<rparr>) e = (None, c')"
    using assms(4) [of "cl_context c" e] by (auto simp: c4_apply_new_entry_def case_prod_beta Let_def)
  have "serve crc calm apply c (transaction_request (m_type M_COMMIT) (Some (transaction_id e)) s (member_id m) []) =
      (Inr (m_type M_ACK, []), c')"
    using assms(1,2) l(1) a by (simp add: serve_def c4_cluster_handle_def Let_def)
  moreover have "cl_log c' = l'" using apply_log [of "apply" "c\<lparr>cl_log := l'\<rparr>" e] a by simp
  ultimately show ?thesis using l(2) by auto
qed


lemma self_log [simp]: "self_id (cl\<lparr>cl_log := log\<rparr>) = self_id cl"
  by (simp add: self_id_def)

lemma two_phase_ok:
  assumes "voted crc es e (cl_log cl)" "proper crc (es @ [e])" "distinct (map member_id (filter (replica cl) ms))" "env = (\<lambda>_. (Answered, calm))"
    "\<And>m. m \<in> set ms \<Longrightarrow> replica cl m \<Longrightarrow> \<exists>c. nodes (member_id m) = Some c \<and> follows crc es s m c" "\<And>c e. fst (apply c e) = None"
  shows "\<exists>cl' nodes' t'. two_phase crc calm apply (deliver crc apply env s) ms cl (transaction_id e) (entry_bytes e) (nodes, t) =
      (True, cl', nodes', t') \<and> settled crc (es @ [e]) (cl_log cl') \<and>
    (\<forall>m \<in> set ms. replica cl m \<longrightarrow> (\<exists>c. nodes' (member_id m) = Some c \<and> settled crc (es @ [e]) (cl_log c)))"
proof -
  let ?rs = "filter (replica cl) ms" and ?tid = "transaction_id e"
  let ?call = "call_replicas (deliver crc apply env s)"
  define V where "V m c \<longleftrightarrow> self_id c = member_id m \<and> c4_source_is_active_leader calm c s = None \<and> voted crc es e (cl_log c)"
    for m and c :: "'a C4Cluster"
  have prep: "\<forall>m \<in> set ?rs. \<exists>c b c'. nodes (member_id m) = Some c \<and>
      serve crc calm apply c (transaction_request (m_type M_PREPARE) (Some ?tid) s (member_id m) (entry_bytes e)) =
        (Inr (m_type M_ACK, b), c') \<and> V m c'"
  proof
    fix m assume m: "m \<in> set ?rs"
    obtain c where c: "nodes (member_id m) = Some c" "follows crc es s m c" using assms(5) [of m] m by auto
    obtain l where l: "serve crc calm apply c (transaction_request (m_type M_PREPARE) (Some ?tid) s (member_id m) (entry_bytes e)) =
      (Inr (m_type M_ACK, []), c\<lparr>cl_log := l\<rparr>)" "voted crc es e l" using serve_vote [OF c(2) assms(2)] by blast
    have "V m (c\<lparr>cl_log := l\<rparr>)" using c(2) l(2) by (simp add: V_def follows_def)
    then show "\<exists>c b c'. nodes (member_id m) = Some c \<and>
      serve crc calm apply c (transaction_request (m_type M_PREPARE) (Some ?tid) s (member_id m) (entry_bytes e)) =
        (Inr (m_type M_ACK, b), c') \<and> V m c'" using c(1) l(1) by blast
  qed
  obtain acks nodes1 t1 where r1: "?call (m_type M_PREPARE) ?tid (entry_bytes e) ?rs (nodes, t) = (acks, nodes1, t1)" "list_all id acks"
    "\<forall>m \<in> set ?rs. \<exists>c'. nodes1 (member_id m) = Some c' \<and> V m c'"
    using round_ok [OF assms(4,3) prep] by blast
  have dec: "\<forall>m \<in> set ?rs. \<exists>c b c'. nodes1 (member_id m) = Some c \<and>
      serve crc calm apply c (transaction_request (m_type M_COMMIT) (Some ?tid) s (member_id m) []) = (Inr (m_type M_ACK, b), c') \<and>
      settled crc (es @ [e]) (cl_log c')"
  proof
    fix m assume "m \<in> set ?rs"
    then obtain c where "nodes1 (member_id m) = Some c" "V m c" using r1(3) by blast
    then show "\<exists>c b c'. nodes1 (member_id m) = Some c \<and>
      serve crc calm apply c (transaction_request (m_type M_COMMIT) (Some ?tid) s (member_id m) []) = (Inr (m_type M_ACK, b), c') \<and>
      settled crc (es @ [e]) (cl_log c')" using serve_decision [of c m s crc es e "apply"] assms(6) unfolding V_def by blast
  qed
  obtain acks2 nodes2 t2 where r2: "?call (m_type M_COMMIT) ?tid [] ?rs (nodes1, t1) = (acks2, nodes2, t2)" "list_all id acks2"
    "\<forall>m \<in> set ?rs. \<exists>c'. nodes2 (member_id m) = Some c' \<and> settled crc (es @ [e]) (cl_log c')"
    using round_ok [OF assms(4,3) dec] by blast
  obtain l' where l: "c4_log_commit crc calm (cl_log cl) ?tid True = (Inr e, l')" "settled crc (es @ [e]) l'"
    using assms(1) unfolding voted_def by blast
  obtain cl' where a: "c4_apply_new_entry apply (cl\<lparr>cl_log := l'\<rparr>) e = (None, cl')"
    using assms(6) [of "cl_context cl" e] by (auto simp: c4_apply_new_entry_def case_prod_beta Let_def)
  have "cl_log cl' = l'" using apply_log [of "apply" "cl\<lparr>cl_log := l'\<rparr>" e] a by simp
  moreover have "two_phase crc calm apply (deliver crc apply env s) ms cl ?tid (entry_bytes e) (nodes, t) = (True, cl', nodes2, t2)"
    using r1(1,2) r2(1,2) l(1) a by (simp add: two_phase_def c4_count_live_superpeers_def)
  ultimately show ?thesis using l(2) r2(3) by auto
qed

lemma submit_calm:
  assumes "c4_cluster_is_leader cl" "settled crc es (cl_log cl)" "proper crc es" "Suc (length es) < LOG_LIMIT" "table_inv (cl_members cl)"
    "length tid = 16" "tid \<notin> transaction_id ` set es" "length owner_id = ID_SIZE" "data \<noteq> []"
    "length data \<le> unat MAX_PAYLOAD_SIZE - C4_LOG_HEADER_SIZE - ID_SIZE" "env = (\<lambda>_. (Answered, calm))" "\<And>c e. fst (apply c e) = None"
    "\<And>m. m \<in> set (members (cl_members cl)) \<Longrightarrow> replica cl m \<Longrightarrow>
       \<exists>c. nodes (member_id m) = Some c \<and> follows crc es (self_id cl) m c"
  defines "e \<equiv> submitted_entry crc calm (cl_log cl) tid (owner_id @ data)"
  shows "\<exists>cl' nodes' t'. c4_cluster_submit crc calm apply (deliver crc apply env (self_id cl)) cl tid owner_id data (nodes, t) =
      (True, cl', nodes', t') \<and> settled crc (es @ [e]) (cl_log cl') \<and>
    (\<forall>m \<in> set (members (cl_members cl)). replica cl m \<longrightarrow>
       (\<exists>c. nodes' (member_id m) = Some c \<and> settled crc (es @ [e]) (cl_log c)))"
proof -
  have sz: "length (owner_id @ data) \<le> unat MAX_PAYLOAD_SIZE - C4_LOG_HEADER_SIZE" "\<not> unat MAX_PAYLOAD_SIZE - C4_FORWARD_OWNER_SIZE < length data"
    using assms(8,10) by (simp_all add: MAX_PAYLOAD_SIZE_def C4_LOG_HEADER_SIZE_def ID_SIZE_def C4_FORWARD_OWNER_SIZE_def)
  have es: "entries (cl_log cl) = es" using assms(2) by (simp add: settled_def progress_def)
  have p: "proper crc (es @ [e])" unfolding e_def by (rule submitted_proper [OF es assms(3,4,6,7) _ sz(1)]) (use assms(9) in simp)
  obtain l where l: "c4_log_prepare crc calm (cl_log cl) e = (None, l)" "voted crc es e l" using prepare_voted [OF assms(2) p] by blast
  have tid: "transaction_id e = tid" by (simp add: e_def submitted_entry_def Let_def)
  have g: "c4_log_get_transaction calm (cl_log cl) tid = Inl ENOENT" using fresh_transaction assms(7) es by simp
  have "loggable crc e" using properD(1) [OF p, of "length es"] by simp
  then have enc: "c4_log_entry_encode crc calm e = Inr (entry_bytes e)"
    by (auto simp: c4_log_entry_encode_def loggable_def valid_entry_def entry_bytes_def not_less)
  let ?r = "deliver crc apply env (self_id cl)" and ?ms = "members (cl_members cl)"
  have len: "C4_FORWARD_OWNER_SIZE + length data = length (owner_id @ data)" using assms(8) by (simp add: C4_FORWARD_OWNER_SIZE_def ID_SIZE_def)
  have "c4_cluster_submit crc calm apply ?r cl tid owner_id data (nodes, t) =
      two_phase crc calm apply ?r ?ms (cl\<lparr>cl_log := l\<rparr>) (transaction_id e) (entry_bytes e) (nodes, t)"
    using assms(1,9) sz(2) g l(1) enc
    by (simp add: c4_cluster_submit_def c4_alive_superpeers_def membership_snapshot_def len tid del: length_append)
      (simp add: e_def submitted_entry_def Let_def)
  moreover have "\<exists>cl' nodes' t'. two_phase crc calm apply ?r ?ms (cl\<lparr>cl_log := l\<rparr>) (transaction_id e) (entry_bytes e) (nodes, t) =
      (True, cl', nodes', t') \<and> settled crc (es @ [e]) (cl_log cl') \<and>
    (\<forall>m \<in> set ?ms. replica (cl\<lparr>cl_log := l\<rparr>) m \<longrightarrow> (\<exists>c. nodes' (member_id m) = Some c \<and> settled crc (es @ [e]) (cl_log c)))"
    by (rule two_phase_ok [OF _ p]) (use l(2) replicas_distinct [OF assms(5)] assms(11,12,13) in simp_all)
  ultimately show ?thesis by simp
qed

text \<open>Two Super Peers, of which the first leads.\<close>

definition sample_cluster :: "byte \<Rightarrow> byte \<Rightarrow> unit C4Cluster" where
  "sample_cluster a b = \<lparr>cl_local = sample_node a,
     cl_members = \<lparr>local_node = sample_node a, members = [sample_member a, sample_member b], member_capacity = 16\<rparr>,
     cl_log = empty_log, cl_context = (), leader = replicate 32 1, current_term = 1, election_requested = False,
     election_waiting = False, election_started_ms = 0\<rparr>"

definition sample_nodes :: "unit nodes" where
  "sample_nodes = [replicate 32 2 \<mapsto> sample_cluster 2 1]"

abbreviation (input) sample_rpc :: "(unit nodes \<times> nat) remote" where
  "sample_rpc \<equiv> deliver sum_crc (\<lambda>c e. (None, c)) (\<lambda>_. (Answered, calm)) (self_id (sample_cluster 1 2))"

lemma sample_cluster_facts:
  "c4_cluster_is_leader (sample_cluster 1 2)" "cl_log (sample_cluster a b) = empty_log" "table_inv (cl_members (sample_cluster 1 2))"
  "members (cl_members (sample_cluster a b)) = [sample_member a, sample_member b]" "self_id (sample_cluster a b) = replicate 32 a"
  "c4_source_is_active_leader calm (sample_cluster 2 1) (replicate 32 1) = None"
proof -
  show "c4_cluster_is_leader (sample_cluster 1 2)" "self_id (sample_cluster a b) = replicate 32 a"
    by (simp_all add: sample_cluster_def c4_cluster_is_leader_def self_id_def sample_node_def node_id_equal_def)
  show "table_inv (cl_members (sample_cluster 1 2))" using sample_table_inv by (simp add: sample_cluster_def sample_table_def)
  show "c4_source_is_active_leader calm (sample_cluster 2 1) (replicate 32 1) = None" by code_simp
qed (simp_all add: sample_cluster_def)


lemma sample_replicas:
  "m \<in> set (members (cl_members (sample_cluster 1 2))) \<Longrightarrow> replica (sample_cluster 1 2) m \<Longrightarrow>
     \<exists>c. sample_nodes (member_id m) = Some c \<and> follows sum_crc [] (self_id (sample_cluster 1 2)) m c"
  by (auto simp: sample_cluster_facts replica_def node_id_equal_def follows_def sample_nodes_def settled_empty)

abbreviation (input) sample_submission where
  "sample_submission \<equiv> c4_cluster_submit sum_crc calm (\<lambda>c e. (None, c)) sample_rpc (sample_cluster 1 2) (replicate 16 7)
     (replicate 32 5) [1, 2] (sample_nodes, 0)"

lemma sample_sizes: "Suc (length ([] :: C4LogEntry list)) < LOG_LIMIT" "length (replicate 16 (7 :: byte)) = 16"
  "length (replicate 32 (5 :: byte)) = ID_SIZE" "length [1, 2 :: byte] \<le> unat MAX_PAYLOAD_SIZE - C4_LOG_HEADER_SIZE - ID_SIZE"
  "proper sum_crc []"
  by (simp_all add: LOG_LIMIT_def ID_SIZE_def MAX_PAYLOAD_SIZE_def C4_LOG_HEADER_SIZE_def proper_def entries_inv_def)

lemmas sample_hypotheses = sample_cluster_facts(1) settled_empty [of sum_crc, folded sample_cluster_facts(2) [of 1 2]] sample_sizes(5,1)
  sample_cluster_facts(3) sample_sizes(2)

text \<open>
C10: A submission of a fresh transaction succeeds when every message arrives and no system call fails: if the logs of the leader and of every
other live Super Peer are at rest with the same entries, and these nodes know the leader, then the operation is reported as done and
all these logs are at rest with the entry of the operation added, in memory and on disk. The leader can submit the next one.\<close>

theorem submit_succeeds:
  assumes "c4_cluster_is_leader cl" "settled crc es (cl_log cl)" "proper crc es" "Suc (length es) < LOG_LIMIT" "table_inv (cl_members cl)"
    "length tid = 16" "tid \<notin> transaction_id ` set es" "length owner_id = ID_SIZE" "data \<noteq> []"
    "length data \<le> unat MAX_PAYLOAD_SIZE - C4_LOG_HEADER_SIZE - ID_SIZE" "env = (\<lambda>_. (Answered, calm))" "\<And>c e. fst (apply c e) = None"
    "\<And>m. m \<in> set (members (cl_members cl)) \<Longrightarrow> replica cl m \<Longrightarrow>
       \<exists>c. nodes (member_id m) = Some c \<and> follows crc es (self_id cl) m c"
  defines "e \<equiv> submitted_entry crc calm (cl_log cl) tid (owner_id @ data)"
  shows "\<exists>cl' nodes' t'. c4_cluster_submit crc calm apply (deliver crc apply env (self_id cl)) cl tid owner_id data (nodes, t) =
      (True, cl', nodes', t') \<and> settled crc (es @ [e]) (cl_log cl') \<and>
    (\<forall>m \<in> set (members (cl_members cl)). replica cl m \<longrightarrow>
       (\<exists>c. nodes' (member_id m) = Some c \<and> settled crc (es @ [e]) (cl_log c)))"
  unfolding e_def by (rule submit_calm [OF assms(1-13)])

theorem submit_succeeds_witness:
  "\<exists>cl' nodes' t'. sample_submission = (True, cl', nodes', t') \<and>
     settled sum_crc ([] @ [submitted_entry sum_crc calm empty_log (replicate 16 7) (replicate 32 5 @ [1, 2])]) (cl_log cl')"
  using submit_succeeds [OF sample_hypotheses _ sample_sizes(3) _ sample_sizes(4) refl _ sample_replicas, of "\<lambda>c e. (None, c)" 0]
  unfolding sample_cluster_facts(2) by fastforce

lemma sample_submitted: "\<exists>cl' nodes' t'. sample_submission = (True, cl', nodes', t')"
  using submit_calm [OF sample_hypotheses _ sample_sizes(3) _ sample_sizes(4) refl _ sample_replicas, of "\<lambda>c e. (None, c)" 0]
  by fastforce

text \<open>The changes of one submission to the logs of the other nodes.\<close>

definition logs_grow :: "byte list \<Rightarrow> C4Log \<Rightarrow> 'c nodes \<Rightarrow> 'c nodes \<Rightarrow> bool" where
  "logs_grow tid log nodes nodes' \<longleftrightarrow> (\<forall>n. log_of nodes' n = log_of nodes n \<or>
     (\<exists>es x. log_of nodes n = Some es \<and> log_of nodes' n = Some (es @ [x]) \<and> transaction_id x = tid \<and>
        tid \<in> transaction_id ` set (entries log)))"

lemma logs_grow_same: "log_of nodes' = log_of nodes \<Longrightarrow> logs_grow tid log nodes nodes'"
  by (simp add: logs_grow_def)

lemma commit_round_logs:
  assumes "call_replicas (deliver crc apply env s) (m_type M_COMMIT) tid [] ms (nodes, t) = (acks, nodes', t')"
    "distinct (map member_id ms)" "nodes_inv nodes" "tid \<in> transaction_id ` set (entries log)"
  shows "nodes_inv nodes' \<and> logs_grow tid log nodes nodes'"
proof -
  note r = commit_round [OF assms(1,2,3)]
  have "nodes_inv nodes'" unfolding nodes_inv_def
  proof (intro allI impI)
    fix n c assume c: "nodes' n = Some c"
    then obtain c0 where c0: "nodes n = Some c0" using r [of n] by (cases "nodes n") auto
    have "grown tid c0 c" using r [of n] c c0 by blast
    then show "log_inv (cl_log c)" by (simp add: grown_def)
  qed
  moreover have "log_of nodes' n = log_of nodes n \<or> (\<exists>es x. log_of nodes n = Some es \<and> log_of nodes' n = Some (es @ [x]) \<and> transaction_id x = tid)" for n
  proof (cases "nodes n")
    case None
    then have "nodes' n = None" using r [of n] by blast
    with None show ?thesis by (simp add: log_of_def)
  next
    case (Some c0)
    then obtain c where c: "nodes' n = Some c" using r [of n, THEN conjunct1] by auto
    have "grown tid c0 c" using r [of n] c Some by blast
    with Some c show ?thesis by (auto simp: grown_def log_of_def)
  qed
  ultimately show ?thesis using assms(4) by (auto simp: logs_grow_def)
qed

lemma prepare_round_logs:
  assumes "call_replicas (deliver crc apply env s) (m_type M_PREPARE) tid wire ms (nodes, t) = (acks, nodes', t')"
    "distinct (map member_id ms)" "nodes_inv nodes" "length tid = 16"
  shows "nodes_inv nodes' \<and> log_of nodes' = log_of nodes"
  by (rule prepare_round [OF assms(1,2,3)]) (use serve_prepare [OF _ _ assms(4)] in blast)

lemma abort_round_logs:
  assumes "call_replicas (deliver crc apply env s) (m_type M_ABORT) tid [] ms (nodes, t) = (acks, nodes', t')"
    "distinct (map member_id ms)" "nodes_inv nodes" "length tid = 16"
  shows "nodes_inv nodes' \<and> log_of nodes' = log_of nodes"
  by (rule abort_round [OF assms(1,2,3)]) (rule serve_abort [OF _ _ assms(4)])

lemma two_phase_logs:
  assumes "two_phase crc os apply (deliver crc apply env s) ms cl tid wire (nodes, t) = (b, cl', nodes', t')"
    "distinct (map member_id (filter (replica cl) ms))" "nodes_inv nodes" "log_inv (cl_log cl)" "length tid = 16"
  shows "grown tid cl cl' \<and> nodes_inv nodes' \<and> logs_grow tid (cl_log cl') nodes nodes'"
  using assms(1)
proof (cases rule: two_phase_cases)
  case (aborted sent acks acks' log' q w1)
  obtain nodes1 t1 where w: "w1 = (nodes1, t1)" by (cases w1)
  have n1: "nodes_inv nodes1 \<and> log_of nodes1 = log_of nodes"
    using aborted(2) w prepare_round_logs [OF _ assms(2,3,5), of crc "apply" env s wire t acks nodes1 t1] assms(3) by auto
  have d: "distinct (map member_id sent)" using aborted(2) assms(2) by auto
  have "nodes_inv nodes' \<and> log_of nodes' = log_of nodes1"
    by (rule abort_round_logs [OF aborted(5) [unfolded w] d _ assms(5)]) (use n1 in simp)
  then show ?thesis using n1 abort_inv [OF aborted(3) assms(4,5)] aborted(4) by (simp add: grown_def logs_grow_same)
next
  case (uncommitted acks log' r)
  then show ?thesis
    using prepare_round_logs [OF uncommitted(2) assms(2,3,5)] commit_inv [OF uncommitted(4) assms(4)] by (auto simp: grown_def logs_grow_same)
next
  case (committed acks acks' log' c w1)
  obtain nodes1 t1 where w: "w1 = (nodes1, t1)" by (cases w1)
  have n1: "nodes_inv nodes1 \<and> log_of nodes1 = log_of nodes" by (rule prepare_round_logs [OF committed(1) [unfolded w] assms(2,3,5)])
  have "\<exists>c \<in> set (entries log'). transaction_id c = tid" using commit_decided [OF committed(3) assms(4)] by blast
  then have "tid \<in> transaction_id ` set (entries log')" by auto
  from commit_round_logs [OF committed(5) [unfolded w] assms(2) _ this] n1
  have "nodes_inv nodes' \<and> logs_grow tid log' nodes1 nodes'" by blast
  then show ?thesis using n1 commit_inv [OF committed(3) assms(4)] committed(4) by (auto simp: grown_def logs_grow_def)
qed

text \<open>
C9: The commit of the leader decides. Whatever messages are lost and whatever fails, a submission leaves every log consistent and adds to it
nothing but at most one entry, which belongs to the submitted transaction; and no other node gets that entry unless the log of the leader has it.\<close>

theorem submit_commit_point:
  assumes "c4_cluster_submit crc os apply (deliver crc apply env (self_id cl)) cl tid owner_id data (nodes, t) = (b, cl', nodes', t')"
    "length owner_id = ID_SIZE" "length tid = 16" "table_inv (cl_members cl)" "log_inv (cl_log cl)" "nodes_inv nodes"
  shows "grown tid cl cl' \<and> nodes_inv nodes' \<and> logs_grow tid (cl_log cl') nodes nodes'"
proof -
  let ?e = "submitted_entry crc (at os 3) (cl_log cl) tid (owner_id @ data)"
  have tid: "length (transaction_id ?e) = 16" using assms(3) by (simp add: submitted_entry_def Let_def)
  have refl: "grown tid cl cl" "logs_grow tid log nodes nodes" for log using assms(5) by (simp_all add: grown_def logs_grow_def)
  have "length owner_id = C4_FORWARD_OWNER_SIZE" using assms(2) by (simp add: C4_FORWARD_OWNER_SIZE_def ID_SIZE_def)
  with assms(1) show ?thesis
  proof (cases rule: submit_cases)
    case rejected
    then show ?thesis using refl assms(6) by simp
  next
    case (again ms acks e)
    have "find (\<lambda>e. transaction_id e = tid) (entries (cl_log cl)) \<noteq> None"
      using again(2) by (auto simp: c4_log_get_transaction_def split: option.splits)
    then have "tid \<in> transaction_id ` set (entries (cl_log cl))" by (auto simp: find_None_iff)
    from commit_round_logs [OF again(5) [unfolded snapshot_members [OF again(1)]] replicas_distinct [OF assms(4)] assms(6) this]
    show ?thesis using refl(1) again(4) by simp
  next
    case (unprepared r log)
    then show ?thesis using prepare_inv [OF unprepared(4) tid assms(5)] assms(6) by (simp add: grown_def logs_grow_def)
  next
    case (prepared ms log wire)
    have p: "log_inv log \<and> entries log = entries (cl_log cl)" by (rule prepare_inv [OF prepared(5) tid assms(5)])
    have "grown tid (cl\<lparr>cl_log := log\<rparr>) cl' \<and> nodes_inv nodes' \<and> logs_grow tid (cl_log cl') nodes nodes'"
      by (rule two_phase_logs [OF prepared(7) _ assms(6) _ assms(3)])
        (use p replicas_distinct [OF assms(4)] snapshot_members [OF prepared(1)] in simp_all)
    then show ?thesis using p by (simp add: grown_def)
  qed
qed

lemma sample_invs: "log_inv (cl_log (sample_cluster a b))" "nodes_inv sample_nodes"
  using c4_reachable_inv [OF c4_reachable_empty] by (simp_all add: nodes_inv_def sample_nodes_def sample_cluster_facts)

theorem submit_commit_point_witness:
  "\<exists>b cl' nodes' t'. c4_cluster_submit sum_crc calm (\<lambda>c e. (None, c))
       (deliver sum_crc (\<lambda>c e. (None, c)) (\<lambda>_. (Unanswered, calm)) (self_id (sample_cluster 1 2)))
       (sample_cluster 1 2) (replicate 16 7) (replicate 32 5) [1, 2] (sample_nodes, 0) = (b, cl', nodes', t') \<and>
     grown (replicate 16 7) (sample_cluster 1 2) cl' \<and> nodes_inv nodes' \<and> logs_grow (replicate 16 7) (cl_log cl') sample_nodes nodes'"
  (is "\<exists>b cl' nodes' t'. ?s = _ \<and> _")
proof -
  obtain b cl' nodes' t' where s: "?s = (b, cl', nodes', t')" by (metis prod_cases4)
  from submit_commit_point [OF this sample_sizes(3,2) sample_cluster_facts(3) sample_invs] s show ?thesis by blast
qed

text \<open>
C8: Two-phase commit agrees. When the leader reports a submission of a fresh transaction as done, its log and the log of every other Super
Peer that its membership table holds alive contain the same entry of the transaction, with the owner and the operation
as payload, whatever messages were lost and whatever failed on the way.\<close>

theorem submit_agreement:
  assumes "c4_cluster_submit crc os apply (deliver crc apply env (self_id cl)) cl tid owner_id data (nodes, t) = (True, cl', nodes', t')"
    "length owner_id = ID_SIZE" "length tid = 16" "tid \<notin> transaction_id ` set (entries (cl_log cl))"
    "table_inv (cl_members cl)" "log_inv (cl_log cl)" "nodes_inv nodes"
  shows "\<exists>x \<in> set (entries (cl_log cl')). transaction_id x = tid \<and> entry_payload x = owner_id @ data \<and>
    (\<forall>m \<in> set (members (cl_members cl)). replica cl m \<longrightarrow>
       (\<exists>c y. nodes' (member_id m) = Some c \<and> y \<in> set (entries (cl_log c)) \<and> same_entry y x))"
proof -
  let ?e = "submitted_entry crc (at os 3) (cl_log cl) tid (owner_id @ data)"
  have "length owner_id = C4_FORWARD_OWNER_SIZE" using assms(2) by (simp add: C4_FORWARD_OWNER_SIZE_def ID_SIZE_def)
  with assms(1) show ?thesis
  proof (cases rule: submit_cases)
    case (again ms acks e)
    then show ?thesis using fresh_transaction [OF assms(4)] by simp
  next
    case (prepared ms log wire)
    note f = submitted_fields [OF prepared(3)]
    have l16: "length (transaction_id ?e) = 16" using f(1) assms(3) by simp
    have ms: "ms = members (cl_members cl)" by (rule snapshot_members [OF prepared(1)])
    obtain x where x: "x \<in> set (entries (cl_log cl'))" "same_entry x ?e"
      "\<forall>m \<in> set ms. replica cl m \<longrightarrow> (\<exists>c y. nodes' (member_id m) = Some c \<and> y \<in> set (entries (cl_log c)) \<and> same_entry y ?e)"
      using two_phase_agrees [of crc os "apply" env "self_id cl" ms "cl\<lparr>cl_log := log\<rparr>" ?e wire nodes t cl' nodes' t' "at os 8"]
        prepared(7,6) l16 replicas_distinct [OF assms(5)] prepare_inv [OF prepared(5) l16 assms(6)] prepare_holds [OF prepared(5) l16]
        assms(7) unfolding f(1) ms by auto
    have "payload_size ?e \<noteq> 0" using f(4) prepared(2) by simp
    then have "entry_payload x = owner_id @ data" "transaction_id x = tid" using x(2) f(1,2) by (auto simp: same_entry_def)
    moreover have "\<forall>m \<in> set ms. replica cl m \<longrightarrow> (\<exists>c y. nodes' (member_id m) = Some c \<and> y \<in> set (entries (cl_log c)) \<and> same_entry y x)"
      using x(3) same_entry_trans [OF _ same_entry_sym [OF x(2)]] by blast
    ultimately show ?thesis using x(1) ms by blast
  qed simp_all
qed

theorem submit_agreement_witness:
  "\<exists>cl' nodes' t' x c y. sample_submission = (True, cl', nodes', t') \<and> x \<in> set (entries (cl_log cl')) \<and>
     transaction_id x = replicate 16 7 \<and> entry_payload x = replicate 32 5 @ [1, 2] \<and>
     nodes' (replicate 32 2) = Some c \<and> y \<in> set (entries (cl_log c)) \<and> same_entry y x"
proof -
  obtain cl' nodes' t' where s: "sample_submission = (True, cl', nodes', t')" using sample_submitted by blast
  have fresh: "replicate 16 7 \<notin> transaction_id ` set (entries (cl_log (sample_cluster 1 2)))"
    by (simp add: sample_cluster_facts empty_log_def)
  have r: "sample_member 2 \<in> set (members (cl_members (sample_cluster 1 2)))" "replica (sample_cluster 1 2) (sample_member 2)"
    by (simp add: sample_cluster_facts) code_simp
  from submit_agreement [OF s sample_sizes(3,2) fresh sample_cluster_facts(3) sample_invs] r s show ?thesis
    by (metis sample_member_id)
qed

end
