(* ===== verification/C4_Catchup.thy ===== *)
theory C4_Catchup
  imports C4_Agreement
begin

text \<open>
  Incremental transfer of log entries between two nodes: the batches that \<open>serve_batch\<close> fills are the batches that
  \<open>c4_recover_from_member\<close> reads, until both logs are equal, whatever messages are lost and whichever of several nodes is asked; and the batch that
  runs over its buffer.
\<close>

section \<open>Batches\<close>

text \<open>An entry in a batch, and the entries of a batch one after the other.\<close>

definition batched :: "C4LogEntry \<Rightarrow> byte list" where
  "batched e = wire_put_u32 (of_nat (length (entry_bytes e))) @ entry_bytes e"

definition batch_bytes :: "C4LogEntry list \<Rightarrow> byte list" where
  "batch_bytes es = concat (map batched es)"

lemma batch_bytes_simps [simp]:
  "batch_bytes [] = []" "batch_bytes (e # es) = batched e @ batch_bytes es" "batch_bytes (es @ fs) = batch_bytes es @ batch_bytes fs"
  by (simp_all add: batch_bytes_def)

lemma length_batched: "length (batched e) = 4 + length (entry_bytes e)"
  by (simp add: batched_def)

lemma batch_bytes_length: "list_all stored_entry es \<Longrightarrow> 48 * length es \<le> length (batch_bytes es)"
  by (induction es) (simp_all add: length_batched length_entry_bytes C4_LOG_HEADER_SIZE_def)

lemma u32_length: "length bytes \<le> unat MAX_PAYLOAD_SIZE \<Longrightarrow> unat (of_nat (length bytes) :: u32) = length bytes"
  by (simp add: MAX_PAYLOAD_SIZE_def unat_of_nat take_bit_nat_eq_self)

text \<open>Filling: one step, and one batch.\<close>

lemma fill_step:
  assumes "c4_log_get calm log i = Inr e" "loggable crc e" "4 + length acc + 4 \<le> unat MAX_PAYLOAD_SIZE"
  shows "ist_fill (Suc n) crc calm log i acc count =
    (if unat MAX_PAYLOAD_SIZE < 4 + length acc + length (batched e) then (if count = 0 then Inl EMSGSIZE else Inr (acc, count))
     else ist_fill n crc calm log (i + 1) (acc @ batched e) (count + 1))"
proof -
  have enc: "c4_log_entry_encode crc calm e = Inr (entry_bytes e)"
    using assms(2) by (auto simp: c4_log_entry_encode_def loggable_def valid_entry_def entry_bytes_def not_less)
  have le: "length (entry_bytes e) \<le> unat MAX_PAYLOAD_SIZE" by (rule loggable_size [OF assms(2)])
  have c: "unat (of_nat (4 + length acc) :: u32) = 4 + length acc"
    using assms(3) by (simp add: MAX_PAYLOAD_SIZE_def unat_of_nat take_bit_nat_eq_self del: of_nat_add)
  have s1: "unat (MAX_PAYLOAD_SIZE - of_nat (4 + length acc)) = unat MAX_PAYLOAD_SIZE - (4 + length acc)"
    using c assms(3) by (subst unat_sub) (simp_all add: word_le_nat_alt del: of_nat_add)
  have s2: "unat (MAX_PAYLOAD_SIZE - of_nat (4 + length acc) - 4) = unat MAX_PAYLOAD_SIZE - (4 + length acc) - 4"
    using s1 assms(3) by (subst unat_sub) (simp_all add: word_le_nat_alt del: of_nat_add)
  have "MAX_PAYLOAD_SIZE - of_nat (4 + length acc) - 4 < of_nat (length (entry_bytes e)) \<longleftrightarrow>
      unat MAX_PAYLOAD_SIZE < 4 + length acc + length (batched e)"
    unfolding word_less_nat_alt s2 u32_length [OF le] using assms(3) by (simp add: length_batched) linarith
  with assms(1) enc show ?thesis by (simp add: batched_def Let_def del: of_nat_add)
qed

text \<open>No cursor ends in the last four bytes of the buffer, where the test for room wraps around.\<close>

definition no_wrap :: "C4LogEntry list \<Rightarrow> bool" where
  "no_wrap es \<longleftrightarrow> (\<forall>i j. 4 + length (batch_bytes (take j (drop i es))) + 4 \<le> unat MAX_PAYLOAD_SIZE \<or>
     unat MAX_PAYLOAD_SIZE < 4 + length (batch_bytes (take j (drop i es))))"

lemma no_wrap_drop: "no_wrap es \<Longrightarrow> no_wrap (drop k es)"
  by (simp add: no_wrap_def add.commute)

lemma fill_batch:
  assumes "log_inv log" "proper crc (entries log)" "i + n = length (entries log)" "no_wrap (entries log)"
    "4 + length (batch_bytes (take k (drop s (entries log)))) + 4 \<le> unat MAX_PAYLOAD_SIZE" "s + k = i"
    "\<And>e. e \<in> set (entries log) \<Longrightarrow> 4 + length (batched e) + 4 \<le> unat MAX_PAYLOAD_SIZE"
  shows "\<exists>l. k \<le> l \<and> s + l \<le> length (entries log) \<and> (0 < k + n \<longrightarrow> 0 < l) \<and> 4 + length (batch_bytes (take l (drop s (entries log)))) \<le> unat MAX_PAYLOAD_SIZE \<and>
    ist_fill n crc calm log (of_nat (Suc i)) (batch_bytes (take k (drop s (entries log)))) (of_nat k) =
      Inr (batch_bytes (take l (drop s (entries log))), of_nat l)"
  using assms(3,5,6)
proof (induction n arbitrary: i k)
  case 0
  then show ?case by (intro exI [of _ k]) simp
next
  case (Suc n)
  let ?es = "entries log" and ?acc = "batch_bytes (take k (drop s (entries log)))"
  have i: "i < length ?es" using Suc.prems(1) by simp
  have g: "c4_log_get calm log (of_nat (Suc i)) = Inr (?es ! i)" by (rule get_committed(1) [OF assms(1) i])
  have lg: "loggable crc (?es ! i)" by (rule properD(1) [OF assms(2) i])
  have tk: "take (Suc k) (drop s ?es) = take k (drop s ?es) @ [?es ! i]"
    using i Suc.prems(3) by (simp add: take_Suc_conv_app_nth)
  note st = fill_step [OF g lg Suc.prems(2), of n "of_nat k"]
  show ?case
  proof (cases "unat MAX_PAYLOAD_SIZE < 4 + length ?acc + length (batched (?es ! i))")
    case True
    have k: "0 < k"
    proof (rule ccontr)
      assume "\<not> 0 < k"
      then show False using True assms(7) [OF nth_mem [OF i]] by simp
    qed
    have "48 * length (take k (drop s ?es)) \<le> length ?acc"
      using assms(2) by (intro batch_bytes_length) (auto simp: proper_def entries_inv_def list_all_iff dest: in_set_takeD in_set_dropD)
    then have "48 * k \<le> unat MAX_PAYLOAD_SIZE" using Suc.prems(2,3) i by simp
    then have nz: "(of_nat k :: u32) \<noteq> 0" using k
      by (simp add: word_of_nat_eq_0_iff MAX_PAYLOAD_SIZE_def nat_dvd_not_less)
    show ?thesis unfolding st using True nz k Suc.prems by (intro exI [of _ k]) simp
  next
    case False
    have "4 + length (batch_bytes (take (Suc k) (drop s ?es))) + 4 \<le> unat MAX_PAYLOAD_SIZE"
      using assms(4) [unfolded no_wrap_def, THEN spec [of _ s], THEN spec [of _ "Suc k"]] False unfolding tk by simp
    from Suc.IH [OF _ this] Suc.prems(1,3) obtain l where l: "Suc k \<le> l" "s + l \<le> length ?es"
      "4 + length (batch_bytes (take l (drop s ?es))) \<le> unat MAX_PAYLOAD_SIZE"
      "ist_fill n crc calm log (of_nat (Suc (Suc i))) (batch_bytes (take (Suc k) (drop s ?es))) (of_nat (Suc k)) =
        Inr (batch_bytes (take l (drop s ?es)), of_nat l)" by auto
    have "ist_fill (Suc n) crc calm log (of_nat (Suc i)) ?acc (of_nat k) =
        Inr (batch_bytes (take l (drop s ?es)), of_nat l)"
      unfolding st using False l(4) tk by (simp add: add.commute)
    then show ?thesis using l(1-3) by (intro exI [of _ l]) simp
  qed
qed


text \<open>Reading: the checks of a batch accept it and return its entries.\<close>

lemma read_batch:
  assumes "proper crc es" "entries log = take s es" "s \<le> i" "i + n \<le> length es" "ids \<subseteq> transaction_id ` set (take i es)" "4 \<le> length pre"
  shows "batch_entries n crc calm log k (pre @ batch_bytes (take n (drop i es))) (length pre) (of_nat i) (of_nat i) ids =
    Inr (take n (drop i es))"
  using assms(3-6)
proof (induction n arbitrary: i k pre ids)
  case (Suc n)
  let ?e = "es ! i" and ?rest = "batch_bytes (take n (drop (Suc i) es))"
  have i: "i < length es" using Suc.prems(2) by simp
  note d = properD [OF assms(1) i]
  have tk: "take (Suc n) (drop i es) = ?e # take n (drop (Suc i) es)" using i by (simp add: Cons_nth_drop_Suc [symmetric])
  have sz: "unat (wire_get_u32 (drop (length pre) (pre @ batched ?e @ ?rest))) = length (entry_bytes ?e)"
    using u32_length [OF loggable_size [OF d(1)]] by (simp add: batched_def)
  have body: "take (length (entry_bytes ?e)) (drop (length pre + 4) (pre @ batched ?e @ ?rest)) = entry_bytes ?e"
    by (simp add: batched_def)
  have "set (take s es) \<subseteq> set (take i es)" using Suc.prems(1) by (rule set_take_subset_set_take)
  then have fresh: "transaction_id ?e \<notin> transaction_id ` set (entries log)" "transaction_id ?e \<notin> ids"
    using d(5) assms(2) Suc.prems(3) by auto
  have ids: "insert (transaction_id ?e) ids \<subseteq> transaction_id ` set (take (Suc i) es)"
    using Suc.prems(3) i by (auto simp: take_Suc_conv_app_nth)
  have ih: "batch_entries n crc calm log (Suc k) ((pre @ batched ?e) @ ?rest) (length (pre @ batched ?e)) (of_nat (Suc i)) (of_nat (Suc i))
      (insert (transaction_id ?e) ids) = Inr (take n (drop (Suc i) es))"
    by (rule Suc.IH) (use Suc.prems ids in simp_all)
  show ?case unfolding tk batch_bytes_simps(2)
    using ih d(2) sz body fresh_transaction [OF fresh(1), of calm] fresh(2) d(6,7) Suc.prems(4)
    by (simp add: decode_entry_bytes Let_def length_batched add.assoc add.commute [of 1])
qed simp

text \<open>Appending: the log at the end of a batch.\<close>

lemma append_batch:
  assumes "proper crc es" "\<And>c e. fst (apply c e) = None"
  shows "entries (cl_log cl) = take i es \<Longrightarrow> tight (cl_log cl) \<Longrightarrow> i + n \<le> length es \<Longrightarrow>
    \<exists>cl'. ist_append crc calm apply k (take n (drop i es)) cl = (None, cl') \<and> entries (cl_log cl') = take (i + n) es \<and>
      tight (cl_log cl') \<and> self_id cl' = self_id cl"
proof (induction n arbitrary: i k cl)
  case (Suc n)
  have i: "i < length es" using Suc.prems(3) by simp
  note d = properD [OF assms(1) i]
  have tk: "take (Suc n) (drop i es) = es ! i # take n (drop (Suc i) es)" using i by (simp add: Cons_nth_drop_Suc [symmetric])
  have inv: "entries_inv es" using assms(1) by (simp add: proper_def)
  have l1: "i \<noteq> 0 \<Longrightarrow> 1 + of_nat (i - Suc 0) = (of_nat i :: u64)" by (cases i) simp_all
  have nv: "next_version (cl_log cl) = of_nat (Suc i)"
    using inv i Suc.prems(1) l1 by (auto simp: next_version_def entries_inv_def last_conv_nth)
  have f: "fresh_at_end (cl_log cl) (es ! i)"
    using Suc.prems(1) i d(3,5,6,7) nv by (auto simp: fresh_at_end_def stored_entry_def split: option.splits)
  have "length (entries (cl_log cl)) < LOG_LIMIT" using Suc.prems(1) i assms(1) by (simp add: proper_def)
  then obtain log' where a: "append_locked crc calm (cl_log cl) (es ! i) True = (None, log')" "tight log'" "entries log' = take i es @ [es ! i]"
    using append_locked_calm [OF Suc.prems(2) _ d(2) f, of True] Suc.prems(1) by auto
  obtain c2 where c2: "c4_apply_new_entry apply (cl\<lparr>cl_log := log'\<rparr>) (es ! i) = (None, c2)" "cl_log c2 = log'" "self_id c2 = self_id cl"
    using assms(2) [of "cl_context cl" "es ! i"] by (auto simp: c4_apply_new_entry_def case_prod_beta Let_def self_id_def)
  have "\<exists>cl'. ist_append crc calm apply (Suc k) (take n (drop (Suc i) es)) c2 = (None, cl') \<and> entries (cl_log cl') = take (Suc i + n) es \<and>
      tight (cl_log cl') \<and> self_id cl' = self_id c2"
    by (rule Suc.IH) (use a c2(2) i Suc.prems(3) in \<open>simp_all add: take_Suc_conv_app_nth\<close>)
  then show ?case unfolding tk using a(1) c2 by (simp add: c4_log_append_entry_def)
qed simp

definition fit :: "C4LogEntry list \<Rightarrow> bool" where
  "fit es \<longleftrightarrow> no_wrap es \<and> (\<forall>e \<in> set es. 4 + length (batched e) + 4 \<le> unat MAX_PAYLOAD_SIZE)"

lemma serve_fill:
  assumes "log_inv log" "proper crc (entries log)" "fit (entries log)" "i \<le> length (entries log)"
  shows "\<exists>l. i + l \<le> length (entries log) \<and> (i < length (entries log) \<longrightarrow> 0 < l) \<and> l < 2 ^ 32 \<and>
    serve_batch crc calm log (of_nat i) (of_nat i) =
      Inr (m_type M_IST_BATCH, wire_put_u32 (of_nat l) @ batch_bytes (take l (drop i (entries log))))"
proof -
  let ?es = "entries log"
  have len: "length ?es < 2 ^ 64" using assms(2) by (simp add: proper_def LOG_LIMIT_def)
  have ui: "unat (of_nat i :: u64) = i" "unat (of_nat (length ?es) :: u64) = length ?es"
    using len assms(4) by (simp_all add: unat_of_nat take_bit_nat_eq_self)
  have le: "(of_nat i :: u64) \<le> of_nat (length ?es)" using ui assms(4) by (simp add: word_le_nat_alt)
  have diff: "unat (of_nat (length ?es) - of_nat i :: u64) = length ?es - i" using le ui by (simp add: unat_sub)
  have prev: "c4_log_get calm log (of_nat i) = Inr (?es ! (i - 1)) \<and> entry_version (?es ! (i - 1)) = of_nat i" if "0 < i"
  proof -
    have "i - 1 < length ?es" "Suc (i - 1) = i" using that assms(4) by simp_all
    then show ?thesis using get_committed(1) [OF assms(1), of "i - 1"] properD(7) [OF assms(2), of "i - 1"] by simp
  qed
  have z: "0 < (of_nat i :: u64) \<longleftrightarrow> 0 < i" using ui by (simp add: word_less_nat_alt)
  obtain l where l: "i + l \<le> length ?es" "0 < length ?es - i \<longrightarrow> 0 < l" "4 + length (batch_bytes (take l (drop i ?es))) \<le> unat MAX_PAYLOAD_SIZE"
    "ist_fill (length ?es - i) crc calm log (of_nat (Suc i)) [] 0 = Inr (batch_bytes (take l (drop i ?es)), of_nat l)"
    using fill_batch [OF assms(1,2), of i "length ?es - i" 0 i] assms(3,4) by (auto simp: fit_def MAX_PAYLOAD_SIZE_def)
  have "48 * length (take l (drop i ?es)) \<le> length (batch_bytes (take l (drop i ?es)))"
    using assms(2) by (intro batch_bytes_length) (auto simp: proper_def entries_inv_def list_all_iff dest: in_set_takeD in_set_dropD)
  then have "l < 2 ^ 32" using l(1,3) by (simp add: MAX_PAYLOAD_SIZE_def)
  moreover have "serve_batch crc calm log (of_nat i) (of_nat i) =
      Inr (m_type M_IST_BATCH, wire_put_u32 (of_nat l) @ batch_bytes (take l (drop i ?es)))"
  proof (cases "0 < i")
    case True
    then show ?thesis using prev le z diff l(4)
      by (simp add: serve_batch_def c4_log_last_index_def Let_def not_less add.commute)
  next
    case False
    then show ?thesis using diff l(4) by (simp add: serve_batch_def c4_log_last_index_def Let_def)
  qed
  ultimately show ?thesis using l(1,2) by (intro exI [of _ l]) simp
qed

lemma deliver_fill:
  assumes "nodes (member_id m) = Some srv" "self_id srv = member_id m" "c4_member_is_live_superpeer calm srv s = Inr x"
    "serve_batch crc calm (cl_log srv) index version = Inr r"
  shows "deliver crc apply (\<lambda>_. (Answered, calm)) s (nodes, t) m (m_type M_IST_REQUEST) None (wire_put_u64 index @ wire_put_u64 version) =
    (Inr r, nodes, Suc t)"
proof -
  have "nodes(member_id m \<mapsto> srv) = nodes" using assms(1) by (simp add: fun_upd_idem)
  then show ?thesis using assms
    by (simp add: deliver_def Let_def serve_def c4_cluster_handle_def)
qed

lemma recover_round:
  assumes "nodes (member_id m) = Some srv" "self_id srv = member_id m" "c4_member_is_live_superpeer calm srv (self_id cl) = Inr x"
    "log_inv (cl_log srv)" "proper crc (entries (cl_log srv))" "fit (entries (cl_log srv))" "\<And>c e. fst (apply c e) = None"
  defines "es \<equiv> entries (cl_log srv)"
  assumes rpc: "rpc (nodes, t) m (m_type M_IST_REQUEST) None = deliver crc apply (\<lambda>_. (Answered, calm)) (self_id cl) (nodes, t) m (m_type M_IST_REQUEST) None"
  assumes "entries (cl_log cl) = take i es" "tight (cl_log cl)" "i \<le> length es"
  shows "if i = length es then recover_loop crc calm apply rpc m k (of_nat i) (of_nat i) cl (nodes, t) = (None, cl, nodes, Suc t)
    else \<exists>l cl'. 0 < l \<and> i + l \<le> length es \<and> entries (cl_log cl') = take (i + l) es \<and> tight (cl_log cl') \<and> self_id cl' = self_id cl \<and>
      recover_loop crc calm apply rpc m k (of_nat i) (of_nat i) cl (nodes, t) =
      recover_loop crc calm apply rpc m (Suc k) (of_nat (i + l)) (of_nat (i + l)) cl' (nodes, Suc t)"
proof -
  obtain l where l: "i + l \<le> length es" "i < length es \<longrightarrow> 0 < l" "l < 2 ^ 32"
    "serve_batch crc calm (cl_log srv) (of_nat i) (of_nat i) = Inr (m_type M_IST_BATCH, wire_put_u32 (of_nat l) @ batch_bytes (take l (drop i es)))"
    using serve_fill [OF assms(4,5,6)] assms(12) unfolding es_def by blast
  let ?b = "batch_bytes (take l (drop i es))" and ?p = "wire_put_u32 (of_nat l)"
  have ul: "unat (of_nat l :: u32) = l" using l(3) by (simp add: unat_of_nat take_bit_nat_eq_self)
  have rp: "rpc (nodes, t) m (m_type M_IST_REQUEST) None (wire_put_u64 (of_nat i) @ wire_put_u64 (of_nat i)) =
      (Inr (m_type M_IST_BATCH, ?p @ ?b), nodes, Suc t)"
    unfolding rpc by (rule deliver_fill [where nodes = nodes, OF assms(1,2,3) l(4)])
  show ?thesis
  proof (cases "i = length es")
    case True
    then have "l = 0" using l(1) by simp
    then show ?thesis using rp True by (simp add: recover_loop.simps)
  next
    case False
    then have pos: "0 < l" using l(2) assms(12) by simp
    have "48 * length (take l (drop i es)) \<le> length ?b"
      using assms(5) unfolding es_def
      by (intro batch_bytes_length) (auto simp: proper_def entries_inv_def list_all_iff dest: in_set_takeD in_set_dropD)
    then have div: "l \<le> length ?b div 48" using l(1) by (simp add: less_eq_div_iff_mult_less_eq)
    have "batch_entries l crc calm (cl_log cl) 0 (?p @ batch_bytes (take l (drop i es))) (length ?p) (of_nat i) (of_nat i) {} = Inr (take l (drop i es))"
      by (rule read_batch [OF assms(5) [folded es_def] assms(10)]) (use l(1) in simp_all)
    then have rd: "ist_entries l crc calm (cl_log cl) 0 (?p @ ?b) 4 (of_nat i) (of_nat i) (replicate (grow_capacity 1 (l * 2)) None) =
        Inr (take l (drop i es))"
      using batch_table [of l] l(3) by simp
    obtain cl' where ap: "ist_append crc calm apply 0 (take l (drop i es)) cl = (None, cl')" "entries (cl_log cl') = take (i + l) es"
      "tight (cl_log cl')" "self_id cl' = self_id cl"
      using append_batch [where ?apply = "apply" and k = 0, OF assms(5) [folded es_def] assms(7) assms(10,11) l(1)] by blast
    have "last (take l (drop i es)) = es ! (i + l - 1)"
      using pos l(1) by (simp add: last_conv_nth)
    then have la: "entry_index (last (take l (drop i es))) = of_nat (i + l)" "entry_version (last (take l (drop i es))) = of_nat (i + l)"
      using properD(6,7) [OF assms(5) [folded es_def], of "i + l - 1"] pos l(1) by simp_all
    have "recover_loop crc calm apply rpc m k (of_nat i) (of_nat i) cl (nodes, t) =
      recover_loop crc calm apply rpc m (Suc k) (of_nat (i + l)) (of_nat (i + l)) cl' (nodes, Suc t)"
      using rp ul pos div rd ap(1) la by (subst recover_loop.simps) (simp add: Let_def not_less)
    then show ?thesis using False pos l(1) ap by auto
  qed
qed

lemma recover_all:
  assumes "nodes (member_id m) = Some srv" "self_id srv = member_id m" "c4_member_is_live_superpeer calm srv s = Inr x"
    "log_inv (cl_log srv)" "proper crc (entries (cl_log srv))" "fit (entries (cl_log srv))" "\<And>c e. fst (apply c e) = None"
  defines "es \<equiv> entries (cl_log srv)"
  shows "entries (cl_log cl) = take i es \<Longrightarrow> tight (cl_log cl) \<Longrightarrow> i \<le> length es \<Longrightarrow> self_id cl = s \<Longrightarrow>
    \<exists>cl' t'. recover_loop crc calm apply (deliver crc apply (\<lambda>_. (Answered, calm)) s) m k (of_nat i) (of_nat i) cl (nodes, t) =
      (None, cl', nodes, t') \<and> entries (cl_log cl') = es"
proof (induction "length es - i" arbitrary: i k cl t rule: less_induct)
  case less
  note r = recover_round [where nodes = nodes and ?apply = "apply" and cl = cl and k = k and t = t and rpc = "deliver crc apply (\<lambda>_. (Answered, calm)) s",
      OF assms(1,2) _ assms(4,5,6,7), unfolded less.prems(4), folded es_def, OF assms(3) refl less.prems(1,2,3)]
  show ?case
  proof (cases "i = length es")
    case True
    with r less.prems(1) show ?thesis by auto
  next
    case False
    then obtain l cl' where l: "0 < l" "i + l \<le> length es" "entries (cl_log cl') = take (i + l) es" "tight (cl_log cl')" "self_id cl' = s"
      "recover_loop crc calm apply (deliver crc apply (\<lambda>_. (Answered, calm)) s) m k (of_nat i) (of_nat i) cl (nodes, t) =
      recover_loop crc calm apply (deliver crc apply (\<lambda>_. (Answered, calm)) s) m (Suc k) (of_nat (i + l)) (of_nat (i + l)) cl' (nodes, Suc t)"
      using r by auto
    show ?thesis unfolding l(6) by (rule less.hyps [OF _ l(3,4,2,5)]) (use l(1,2) in simp)
  qed
qed

lemma last_position:
  assumes "proper crc es" "entries log = take i es" "i \<le> length es"
  shows "c4_log_last_index log = of_nat i" "c4_log_last_version log = of_nat i"
proof -
  have inv: "entries_inv es" using assms(1) by (simp add: proper_def)
  have l1: "i \<noteq> 0 \<Longrightarrow> 1 + of_nat (i - Suc 0) = (of_nat i :: u64)" by (cases i) simp_all
  show "c4_log_last_index log = of_nat i" "c4_log_last_version log = of_nat i"
    using assms(2,3) inv l1 by (auto simp: c4_log_last_index_def c4_log_last_version_def last_conv_nth entries_inv_def)
qed

section \<open>The entries of several nodes\<close>

lemma proper_take: "proper crc es \<Longrightarrow> proper crc (take n es)"
  by (auto simp: proper_def entries_inv_def list_all_iff take_map [symmetric] dest: in_set_takeD)

lemma fit_take: "fit es \<Longrightarrow> fit (take n es)"
  by (auto simp: fit_def no_wrap_def drop_take take_take min_def dest: in_set_takeD)

text \<open>Answers to a request for entries that are no reason to give up: the message or its answer is lost, the other node does not know the sender, or its log is shorter.\<close>

lemma ist_not_answered:
  assumes "nodes (member_id m) = None \<or> (\<exists>srv. nodes (member_id m) = Some srv \<and> snd (env t) = calm \<and> self_id srv = member_id m \<and>
      (fst (env t) \<noteq> Answered \<or> (\<forall>x. c4_member_is_live_superpeer calm srv s \<noteq> Inr x) \<or> c4_log_last_index (cl_log srv) < index))"
  shows "\<exists>e t'. recover_loop crc os apply (deliver crc apply env s) m k index version cl (nodes, t) = (Some e, cl, nodes, t') \<and> e \<in> {EHOSTUNREACH, ETIMEDOUT, EACCES, ENOENT}"
proof (cases "nodes (member_id m)")
  case None
  then show ?thesis by (simp add: recover_loop.simps deliver_def case_prod_beta Let_def)
next
  case (Some srv)
  have e: "snd (env t) = calm" "self_id srv = member_id m"
    "fst (env t) \<noteq> Answered \<or> (\<forall>x. c4_member_is_live_superpeer calm srv s \<noteq> Inr x) \<or> c4_log_last_index (cl_log srv) < index"
    using assms Some by auto
  obtain f where f: "env t = (f, calm)" using e(1) by (cases "env t") simp
  have same: "nodes(member_id m \<mapsto> srv) = nodes" using Some by (simp add: fun_upd_idem)
  let ?req = "transaction_request (m_type M_IST_REQUEST) None s (member_id m) (wire_put_u64 index @ wire_put_u64 version)"
  have sv: "serve crc calm apply srv ?req = ((case c4_member_is_live_superpeer calm srv s of Inl e \<Rightarrow> Inl e | Inr _ \<Rightarrow> serve_batch crc calm (cl_log srv) index version), srv)"
    using e(2) by (cases "c4_member_is_live_superpeer calm srv s") (simp_all add: serve_def c4_cluster_handle_def Let_def)
  have na: "c4_member_is_live_superpeer calm srv s = Inl q \<Longrightarrow> q = EACCES" for q
    by (auto simp: c4_member_is_live_superpeer_def split: sum.splits if_splits)
  show ?thesis
  proof (cases "f = Answered")
    case False
    then show ?thesis using Some f sv same by (cases f) (simp_all add: recover_loop.simps deliver_def Let_def)
  next
    case True
    have "\<exists>q \<in> {EACCES, ENOENT}. serve crc calm apply srv ?req = (Inl q, srv)"
      using e(3) True f sv na by (cases "c4_member_is_live_superpeer calm srv s") (auto simp: serve_batch_def Let_def)
    then obtain q where q: "q = EACCES \<or> q = ENOENT" "serve crc calm apply srv ?req = (Inl q, srv)" by auto
    have "deliver crc apply env s (nodes, t) m (m_type M_IST_REQUEST) None (wire_put_u64 index @ wire_put_u64 version) =
        (Inr (m_type M_ERROR, remote_error_encode q), nodes, Suc t)"
      using q(2) True f Some same by (simp add: deliver_def)
    then have "recover_loop crc os apply (deliver crc apply env s) m k index version cl (nodes, t) = (Some q, cl, nodes, Suc t)"
      using q(1) by (auto simp: recover_loop.simps remote_error_encode_def remote_error_decode_def)
    then show ?thesis using q(1) by auto
  qed
qed

text \<open>A node whose log is a part of the common log \<open>es\<close>, and what the fetching of its entries does to another such log.\<close>

definition holds_part :: "C4LogEntry list \<Rightarrow> 'c nodes \<Rightarrow> SuperPeerMember \<Rightarrow> bool" where
  "holds_part es nodes m \<longleftrightarrow> (case nodes (member_id m) of None \<Rightarrow> True
     | Some srv \<Rightarrow> self_id srv = member_id m \<and> log_inv (cl_log srv) \<and> entries (cl_log srv) = take (length (entries (cl_log srv))) es)"

definition answering :: "'c nodes \<Rightarrow> NodeID \<Rightarrow> SuperPeerMember \<Rightarrow> nat \<Rightarrow> bool" where
  "answering nodes s m n \<longleftrightarrow> (case nodes (member_id m) of None \<Rightarrow> False
     | Some srv \<Rightarrow> (case c4_member_is_live_superpeer calm srv s of Inl _ \<Rightarrow> False | Inr _ \<Rightarrow> n = length (entries (cl_log srv))))"

definition advanced :: "C4LogEntry list \<Rightarrow> nat \<Rightarrow> 'c C4Cluster \<Rightarrow> bool" where
  "advanced es j cl \<longleftrightarrow> j \<le> length es \<and> entries (cl_log cl) = take j es \<and> tight (cl_log cl)"

lemma fetch_entries:
  assumes "holds_part es nodes m" "proper crc es" "fit es" "\<And>c e. fst (apply c e) = None" "\<And>t. snd (env t) = calm"
  shows "advanced es i cl \<Longrightarrow> self_id cl = s \<Longrightarrow>
    \<exists>r cl' t' j. recover_loop crc calm apply (deliver crc apply env s) m k (of_nat i) (of_nat i) cl (nodes, t) = (r, cl', nodes, t') \<and>
      r \<notin> {Some EBADMSG, Some EEXIST, Some ERANGE} \<and> i \<le> j \<and> advanced es j cl' \<and> self_id cl' = s \<and>
      (\<forall>n. (\<forall>t. fst (env t) = Answered) \<and> answering nodes s m n \<longrightarrow> n \<le> j)"
proof (induction "length es - i" arbitrary: i k cl t rule: less_induct)
  case less
  note adv = less.prems(1) [unfolded advanced_def]
  let ?loop = "recover_loop crc calm apply (deliver crc apply env s) m k (of_nat i) (of_nat i) cl (nodes, t)"
  have stop: ?case if "\<exists>e t'. ?loop = (Some e, cl, nodes, t') \<and> e \<in> {EHOSTUNREACH, ETIMEDOUT, EACCES, ENOENT}"
    "\<And>n. (\<forall>t. fst (env t) = Answered) \<and> answering nodes s m n \<Longrightarrow> n \<le> i"
    using that less.prems by fastforce
  show ?case
  proof (cases "nodes (member_id m)")
    case None
    show ?thesis by (rule stop [OF ist_not_answered]) (use None in \<open>simp_all add: answering_def\<close>)
  next
    case (Some srv)
    let ?n = "length (entries (cl_log srv))"
    have srv: "self_id srv = member_id m" "log_inv (cl_log srv)" "entries (cl_log srv) = take ?n es" using assms(1) Some by (simp_all add: holds_part_def)
    have n: "?n \<le> length es" by (metis srv(3) length_take min.cobounded1)
    have small: "unat (of_nat q :: u64) = q" if "q \<le> length es" for q
      using that assms(2) by (simp add: proper_def LOG_LIMIT_def unat_of_nat take_bit_nat_eq_self)
    consider (lost) "fst (env t) \<noteq> Answered" | (unknown) "\<forall>x. c4_member_is_live_superpeer calm srv s \<noteq> Inr x" | (behind) "?n < i"
      | (served) x where "fst (env t) = Answered" "c4_member_is_live_superpeer calm srv s = Inr x" "i \<le> ?n" by force
    then show ?thesis
    proof cases
      case lost
      show ?thesis by (rule stop [OF ist_not_answered]) (use lost Some srv(1) assms(5) in auto)
    next
      case unknown
      have "c4_member_is_live_superpeer calm srv s = Inl EACCES"
        using unknown by (auto simp: c4_member_is_live_superpeer_def split: sum.splits if_splits)
      then show ?thesis by (intro stop [OF ist_not_answered]) (use unknown Some srv(1) assms(5) in \<open>auto simp: answering_def\<close>)
    next
      case behind
      have "c4_log_last_index (cl_log srv) < of_nat i"
        using behind adv n small by (simp add: c4_log_last_index_def word_less_nat_alt)
      then show ?thesis by (intro stop [OF ist_not_answered]) (use behind Some srv(1) assms(5) in \<open>auto simp: answering_def split: sum.splits\<close>)
    next
      case (served x)
      have et: "env t = (Answered, calm)" using served(1) assms(5) [of t] by (cases "env t") simp
      have pf: "proper crc (entries (cl_log srv))" "fit (entries (cl_log srv))"
        using proper_take [OF assms(2), of ?n] fit_take [OF assms(3), of ?n] srv(3) by simp_all
      have tk: "take q (entries (cl_log srv)) = take q es" if "q \<le> ?n" for q using that by (subst srv(3)) (simp add: min_def)
      have d: "deliver crc apply env s (nodes, t) m (m_type M_IST_REQUEST) None = deliver crc apply (\<lambda>_. (Answered, calm)) (self_id cl) (nodes, t) m (m_type M_IST_REQUEST) None"
        using et less.prems(2) by (auto simp: deliver_def Let_def fun_eq_iff)
      note r = recover_round [where nodes = nodes and ?apply = "apply" and cl = cl and k = k and t = t and i = i and rpc = "deliver crc apply env s",
          OF Some srv(1) _ srv(2) pf assms(4) d, unfolded less.prems(2), OF served(2)]
      have ent: "entries (cl_log cl) = take i (entries (cl_log srv))" using adv tk [OF served(3)] by simp
      show ?thesis
      proof (cases "i = ?n")
        case True
        then have "?loop = (None, cl, nodes, Suc t)" using r [OF ent] adv by simp
        then show ?thesis using less.prems True Some served(2) by (auto simp: answering_def)
      next
        case False
        then obtain l cl' where l: "0 < l" "i + l \<le> ?n" "entries (cl_log cl') = take (i + l) (entries (cl_log srv))" "tight (cl_log cl')" "self_id cl' = s"
          "?loop = recover_loop crc calm apply (deliver crc apply env s) m (Suc k) (of_nat (i + l)) (of_nat (i + l)) cl' (nodes, Suc t)"
          using r [OF ent] adv served(3) by auto
        have a: "advanced es (i + l) cl'" using l(2-4) n tk [OF l(2)] by (simp add: advanced_def)
        have "length es - (i + l) < length es - i" using l(1,2) n by simp
        from less.hyps [OF this a l(5), of "Suc k" "Suc t"] l(6) show ?thesis by (fastforce elim: order_trans [OF le_add1])
      qed
    qed
  qed
qed

lemma fetch_all:
  assumes "proper crc es" "fit es" "\<And>c e. fst (apply c e) = None" "\<And>t. snd (env t) = calm"
  shows "\<forall>m \<in> set ms. holds_part es nodes m \<Longrightarrow> advanced es i cl \<Longrightarrow> self_id cl = s \<Longrightarrow>
    \<exists>cl' t' j. recover_from_all crc calm apply (deliver crc apply env s) ms cl (nodes, t) = (True, cl', nodes, t') \<and> i \<le> j \<and> advanced es j cl' \<and> self_id cl' = s \<and>
      (\<forall>m \<in> set ms. \<forall>n. (\<forall>t. fst (env t) = Answered) \<and> replica cl m \<and> answering nodes s m n \<longrightarrow> n \<le> j)"
proof (induction ms arbitrary: cl t i)
  case (Cons m ms)
  have rep: "replica c = replica cl" if "self_id c = s" for c using that Cons.prems(3) by (simp add: replica_def fun_eq_iff)
  show ?case
  proof (cases "replica cl m")
    case False
    then show ?thesis using Cons.IH [OF _ Cons.prems(2,3), of t] Cons.prems(1) by auto
  next
    case True
    have hp: "holds_part es nodes m" using Cons.prems(1) by simp
    have pos: "c4_log_last_index (cl_log cl) = of_nat i" "c4_log_last_version (cl_log cl) = of_nat i"
      using last_position [OF assms(1)] Cons.prems(2) by (auto simp: advanced_def)
    obtain r c1 t1 j1 where f: "c4_recover_from_member crc calm apply (deliver crc apply env s) m cl (nodes, t) = (r, c1, nodes, t1)"
      "r \<notin> {Some EBADMSG, Some EEXIST, Some ERANGE}" "i \<le> j1" "advanced es j1 c1" "self_id c1 = s"
      "\<forall>n. (\<forall>t. fst (env t) = Answered) \<and> answering nodes s m n \<longrightarrow> n \<le> j1"
      using fetch_entries [where nodes = nodes and ?apply = "apply" and k = 0 and t = t and env = env, OF hp assms Cons.prems(2,3)]
      unfolding c4_recover_from_member_def pos by blast
    obtain cl' t' j where g: "recover_from_all crc calm apply (deliver crc apply env s) ms c1 (nodes, t1) = (True, cl', nodes, t')" "j1 \<le> j" "advanced es j cl'" "self_id cl' = s"
      "\<forall>m \<in> set ms. \<forall>n. (\<forall>t. fst (env t) = Answered) \<and> replica c1 m \<and> answering nodes s m n \<longrightarrow> n \<le> j"
      using Cons.IH [OF _ f(4,5), of t1] Cons.prems(1) by auto
    have "recover_from_all crc calm apply (deliver crc apply env s) (m # ms) cl (nodes, t) = (True, cl', nodes, t')"
      using True f(1,2) g(1) by simp
    moreover have "n \<le> j" if "m' \<in> set (m # ms)" "(\<forall>t. fst (env t) = Answered) \<and> replica cl m' \<and> answering nodes s m' n" for m' n
      using that f(6) g(2,5) rep [OF f(5)] by auto
    ultimately show ?thesis using f(3) g(2-4) by (intro exI [of _ cl'] exI [of _ t'] exI [of _ j]) auto
  qed
qed auto

section \<open>Properties of the transfer\<close>

text \<open>
C12: A Super Peer that has fallen behind catches up. When its log is a beginning of the log of the member it asks, the replies arrive and no system call
fails, \<open>c4_recover_from_member\<close> ends without an error, with exactly the entries of the other log, in as many batches as it takes. The
entries have to fit in a batch each, and no batch may end in the last four bytes of its buffer.\<close>

theorem recovery_catches_up:
  assumes "nodes (member_id m) = Some srv" "self_id srv = member_id m" "c4_member_is_live_superpeer calm srv (self_id cl) = Inr x"
    "log_inv (cl_log srv)" "proper crc (entries (cl_log srv))" "fit (entries (cl_log srv))" "\<And>c e. fst (apply c e) = None"
    "entries (cl_log cl) = take i (entries (cl_log srv))" "tight (cl_log cl)" "i \<le> length (entries (cl_log srv))"
  shows "\<exists>cl' t'. c4_recover_from_member crc calm apply (deliver crc apply (\<lambda>_. (Answered, calm)) (self_id cl)) m cl (nodes, t) =
      (None, cl', nodes, t') \<and> entries (cl_log cl') = entries (cl_log srv)"
  unfolding c4_recover_from_member_def last_position [OF assms(5,8,10)]
  by (rule recover_all [where ?apply = "apply" and nodes = nodes, OF assms(1-10) refl])

text \<open>
C37: The test for room in a batch wraps around. When the first entry leaves a batch full to its last byte, the remaining room less the four
bytes of a length is computed as almost \<open>2 ^ 32\<close>, and the next entry is copied behind the buffer of \<open>MAX_PAYLOAD_SIZE\<close> bytes.\<close>

theorem ist_batch_overflows:
  assumes "log_inv log" "entries log = [a, b]" "proper crc [a, b]" "length (entry_bytes a) = unat MAX_PAYLOAD_SIZE - 8"
  shows "serve_batch crc calm log 0 0 = Inr (m_type M_IST_BATCH, wire_put_u32 2 @ batched a @ batched b) \<and>
    unat MAX_PAYLOAD_SIZE < length (wire_put_u32 2 @ batched a @ batched b)"
proof -
  have p: "proper crc (entries log)" using assms(2,3) by simp
  have g: "c4_log_get calm log 1 = Inr a" "c4_log_get calm log 2 = Inr b"
    using get_committed(1) [OF assms(1), of 0] get_committed(1) [OF assms(1), of 1] assms(2) by (simp_all add: numeral_2_eq_2)
  have lg: "loggable crc a" "loggable crc b" using assms(3) by (simp_all add: proper_def)
  have la: "length (batched a) = unat MAX_PAYLOAD_SIZE - 4" using assms(4) by (simp add: length_batched MAX_PAYLOAD_SIZE_def)
  have enc: "c4_log_entry_encode crc calm b = Inr (entry_bytes b)"
    using lg(2) by (auto simp: c4_log_entry_encode_def loggable_def valid_entry_def entry_bytes_def not_less)
  have cur: "4 + length (batched a) = unat MAX_PAYLOAD_SIZE" using la by (simp add: MAX_PAYLOAD_SIZE_def)
  have w: "\<not> MAX_PAYLOAD_SIZE - of_nat (4 + length (batched a)) - 4 < of_nat (length (entry_bytes b))"
    using loggable_size [OF lg(2)] unfolding cur
    by (simp add: word_less_nat_alt u32_length MAX_PAYLOAD_SIZE_def)
  have room: "4 + length ([] :: byte list) + 4 \<le> unat MAX_PAYLOAD_SIZE" by (simp add: MAX_PAYLOAD_SIZE_def)
  have f1: "ist_fill (Suc (Suc 0)) crc calm log 1 [] 0 = ist_fill (Suc 0) crc calm log 2 (batched a) 1"
    using fill_step [OF g(1) lg(1) room, of "Suc 0" 0] cur by (simp del: ist_fill.simps)
  have f2: "ist_fill (Suc 0) crc calm log 2 (batched a) 1 = Inr (batched a @ batched b, 2)"
    using g(2) enc w by (simp add: batched_def Let_def del: of_nat_add)
  have "ist_fill 2 crc calm log 1 [] 0 = Inr (batched a @ batched b, 2)" using f1 f2 unfolding numeral_2_eq_2 by simp
  then show ?thesis using assms(2) la
    by (simp add: serve_batch_def c4_log_last_index_def Let_def length_batched MAX_PAYLOAD_SIZE_def)
qed


text \<open>A follower with an empty log, and a log of two entries of which the first fills a batch.\<close>

lemma sample_committed_entries: "entries sample_committed = [sample_entry 1 7]"
  by (simp add: sample_committed_def sample_commit)

lemma sample_fit: "fit [sample_entry 1 7]"
proof -
  have "length (batched (sample_entry 1 7)) \<le> 100"
    using sample_stored [of 1 7] by (simp add: length_batched length_entry_bytes C4_LOG_HEADER_SIZE_def sample_entry_def Let_def)
  then have b: "length (batch_bytes (take j (drop i [sample_entry 1 7]))) \<le> 100" "length (batched (sample_entry 1 7)) \<le> 100" for i j
    by (cases i; cases j; simp)+
  have "4 + length (batch_bytes (take j (drop i [sample_entry 1 7]))) + 4 \<le> unat MAX_PAYLOAD_SIZE" for i j
    by (rule order_trans [of _ 108]) (use b(1) [of j i] in \<open>simp_all add: MAX_PAYLOAD_SIZE_def\<close>)
  moreover have "4 + length (batched (sample_entry 1 7)) + 4 \<le> unat MAX_PAYLOAD_SIZE"
    by (rule order_trans [of _ 108]) (use b(2) in \<open>simp_all add: MAX_PAYLOAD_SIZE_def\<close>)
  ultimately show ?thesis by (simp add: fit_def no_wrap_def)
qed

theorem recovery_catches_up_witness:
  "\<exists>cl' t'. c4_recover_from_member sum_crc calm (\<lambda>c e. (None, c))
       (deliver sum_crc (\<lambda>c e. (None, c)) (\<lambda>_. (Answered, calm)) (self_id (sample_cluster 2 1))) (sample_member 1) (sample_cluster 2 1)
       ([replicate 32 1 \<mapsto> (sample_cluster 1 2)\<lparr>cl_log := sample_committed\<rparr>], 0) =
     (None, cl', [replicate 32 1 \<mapsto> (sample_cluster 1 2)\<lparr>cl_log := sample_committed\<rparr>], t') \<and> entries (cl_log cl') = [sample_entry 1 7]"
proof -
  let ?srv = "(sample_cluster 1 2)\<lparr>cl_log := sample_committed\<rparr>"
  have "c4_member_is_live_superpeer calm (sample_cluster 1 2) (replicate 32 2) = Inr (sample_member 2)" by code_simp
  then have l: "c4_member_is_live_superpeer calm ?srv (self_id (sample_cluster 2 1)) = Inr (sample_member 2)"
    by (simp add: c4_member_is_live_superpeer_def sample_cluster_facts)
  show ?thesis
    using recovery_catches_up [of "[replicate 32 1 \<mapsto> ?srv]" "sample_member 1" ?srv "sample_cluster 2 1" "sample_member 2" sum_crc
        "\<lambda>c e. (None, c)" 0 0, OF _ _ l] c4_reachable_inv [OF sample_committed_reachable(1)] sample_proper(1) sample_fit
    by (simp add: sample_committed_entries sample_cluster_facts empty_log_def tight_def)
qed

definition filling_entry :: C4LogEntry where
  "filling_entry = submitted_entry sum_crc calm empty_log (replicate 16 7) (replicate 5242828 0)"

definition full_log :: C4Log where
  "full_log = empty_log\<lparr>entries := [filling_entry, submitted_entry sum_crc calm (empty_log\<lparr>entries := [filling_entry]\<rparr>) (replicate 16 8) [1]],
     capacity := 16\<rparr>"

lemma full_log_facts:
  "proper sum_crc (entries full_log)" "log_inv full_log" "length (entry_bytes filling_entry) = unat MAX_PAYLOAD_SIZE - 8"
proof -
  have a: "proper sum_crc ([] @ [filling_entry])" unfolding filling_entry_def
    by (rule submitted_proper) (simp_all add: empty_log_def sample_sizes LOG_LIMIT_def MAX_PAYLOAD_SIZE_def C4_LOG_HEADER_SIZE_def)
  have "proper sum_crc ([filling_entry] @ [submitted_entry sum_crc calm (empty_log\<lparr>entries := [filling_entry]\<rparr>) (replicate 16 8) [1]])"
    by (rule submitted_proper)
      (use a in \<open>simp_all add: LOG_LIMIT_def MAX_PAYLOAD_SIZE_def C4_LOG_HEADER_SIZE_def filling_entry_def submitted_entry_def Let_def\<close>)
  then show p: "proper sum_crc (entries full_log)" by (simp add: full_log_def)
  then show "log_inv full_log"
    by (simp add: log_inv_def proper_def) (simp add: full_log_def empty_log_def room_def transactions_room_def SIZE_MAX_def LOG_SLOT_SIZE_def)
  have "stored_entry filling_entry" using properD(3) [OF a, of 0] by simp
  then show "length (entry_bytes filling_entry) = unat MAX_PAYLOAD_SIZE - 8"
    by (simp add: length_entry_bytes) (simp add: filling_entry_def submitted_entry_def Let_def MAX_PAYLOAD_SIZE_def C4_LOG_HEADER_SIZE_def)
qed

theorem ist_batch_overflows_witness:
  "\<exists>bytes. serve_batch sum_crc calm full_log 0 0 = Inr (m_type M_IST_BATCH, bytes) \<and> unat MAX_PAYLOAD_SIZE < length bytes"
  using ist_batch_overflows [OF full_log_facts(2) _ _ full_log_facts(3)] full_log_facts(1) by (fastforce simp: full_log_def)

end
