(* ===== verification/Concurrent_Server.thy ===== *)
theory Concurrent_Server
  imports Prelude "HOL-Library.Multiset" "HOL-Library.Sublist"
begin

text \<open>
  The server that hands connections to a pool of threads (\<^verbatim>\<open>concurrent_server.c\<close>).

  Every section between locking and unlocking the mutex is one step. Besides the fields of the C structure
  the state has where each worker thread is, whether \<open>concurrent_server_run\<close> is still in its loop,
  and three histories: the descriptors that \<open>accept\<close> returned, those handed to the handler and those
  closed. Shutting a socket down only wakes the thread that reads from it, which is left to the handler.
\<close>

section \<open>State\<close>

definition SERVER_WORKERS :: nat where
  "SERVER_WORKERS = 32"

definition SERVER_QUEUE :: nat where
  "SERVER_QUEUE = 64"

text \<open>A worker waits for a connection, is inside the handler with one, or has left its loop.\<close>

datatype worker_state = Waiting | Serving int | Exited

record ConcurrentServer =
  stopping :: bool
  queue :: "int list"
  head :: nat
  queued :: nat
  active :: "int list"
  workers :: "worker_state list"
  accepting :: bool
  accepted :: "int list"
  served :: "int list"
  closed :: "int list"

section \<open>The ring of waiting connections\<close>

text \<open>The ring is the client of an interface of bounded queues: what it holds, in order, and what the two operations do to that.\<close>

locale bounded_queue =
  fixes contents :: "'q \<Rightarrow> 'a list" and invar :: "'q \<Rightarrow> bool" and capacity :: nat
    and put :: "'a \<Rightarrow> 'q \<Rightarrow> 'q" and front :: "'q \<Rightarrow> 'a" and remove :: "'q \<Rightarrow> 'q"
  assumes put: "invar q \<Longrightarrow> length (contents q) < capacity \<Longrightarrow> invar (put x q) \<and> contents (put x q) = contents q @ [x]"
    and remove: "invar q \<Longrightarrow> contents q \<noteq> [] \<Longrightarrow> invar (remove q) \<and> contents q = front q # contents (remove q)"
    and bounded: "invar q \<Longrightarrow> length (contents q) \<le> capacity"
begin

lemma front_remove: "invar q \<Longrightarrow> contents q \<noteq> [] \<Longrightarrow> front q = hd (contents q) \<and> contents (remove q) = tl (contents q)"
  using remove [of q] by (metis list.sel(1,3))

text \<open>First in, first out: what is put behind others comes out behind them.\<close>

lemma put_remove: "invar q \<Longrightarrow> contents q \<noteq> [] \<Longrightarrow> length (contents q) < capacity \<Longrightarrow>
    front (put x q) = front q \<and> contents (remove (put x q)) = contents (remove q) @ [x]"
  using put [of q x] remove [of q] remove [of "put x q"] by auto

end

type_synonym ring = "int list \<times> nat \<times> nat"

fun ring_contents :: "ring \<Rightarrow> int list" where
  "ring_contents (q, h, n) = map (\<lambda>i. q ! ((h + i) mod SERVER_QUEUE)) [0..<n]"

fun ring_inv :: "ring \<Rightarrow> bool" where
  "ring_inv (q, h, n) \<longleftrightarrow> length q = SERVER_QUEUE \<and> h < SERVER_QUEUE \<and> n \<le> SERVER_QUEUE"

fun ring_put :: "int \<Rightarrow> ring \<Rightarrow> ring" where
  "ring_put fd (q, h, n) = (q[(h + n) mod SERVER_QUEUE := fd], h, n + 1)"

fun ring_front :: "ring \<Rightarrow> int" where
  "ring_front (q, h, n) = q ! h"

fun ring_remove :: "ring \<Rightarrow> ring" where
  "ring_remove (q, h, n) = (q, (h + 1) mod SERVER_QUEUE, n - 1)"

lemma ring_slots_differ:
  assumes "i < n" "n < SERVER_QUEUE"
  shows "(h + i) mod SERVER_QUEUE \<noteq> (h + n) mod SERVER_QUEUE"
proof
  assume "(h + i) mod SERVER_QUEUE = (h + n) mod SERVER_QUEUE"
  then have "SERVER_QUEUE dvd (h + n) - (h + i)" using assms by (subst mod_eq_dvd_iff_nat [symmetric]) auto
  then show False using assms by (auto dest: dvd_imp_le)
qed

interpretation ring: bounded_queue ring_contents ring_inv SERVER_QUEUE ring_put ring_front ring_remove
proof
  fix r :: ring and fd :: int
  obtain q h n where r: "r = (q, h, n)" by (cases r)
  show "length (ring_contents r) \<le> SERVER_QUEUE" if "ring_inv r" using that by (simp add: r)
  show "ring_inv (ring_put fd r) \<and> ring_contents (ring_put fd r) = ring_contents r @ [fd]"
    if "ring_inv r" "length (ring_contents r) < SERVER_QUEUE"
  proof -
    have "(h + n) mod SERVER_QUEUE < length q" using that by (simp add: r SERVER_QUEUE_def)
    moreover have "q[(h + n) mod SERVER_QUEUE := fd] ! ((h + i) mod SERVER_QUEUE) = q ! ((h + i) mod SERVER_QUEUE)" if "i < n" for i
      using ring_slots_differ [of i n h] that \<open>length (ring_contents r) < SERVER_QUEUE\<close> by (simp add: r nth_list_update_neq)
    ultimately show ?thesis using that by (auto simp: r)
  qed
  show "ring_inv (ring_remove r) \<and> ring_contents r = ring_front r # ring_contents (ring_remove r)"
    if inv: "ring_inv r" and ne: "ring_contents r \<noteq> []"
  proof -
    have h: "h mod SERVER_QUEUE = h" using inv by (simp add: r)
    obtain k where n: "n = Suc k" using ne by (cases n) (auto simp: r)
    have "((h + 1) mod SERVER_QUEUE + i) mod SERVER_QUEUE = (h + Suc i) mod SERVER_QUEUE" for i by (simp add: mod_add_left_eq)
    then show ?thesis using inv h by (simp add: r n SERVER_QUEUE_def map_upt_Suc del: upt_Suc)
  qed
qed

section \<open>Operations\<close>

definition ring_of :: "ConcurrentServer \<Rightarrow> ring" where
  "ring_of s = (queue s, head s, queued s)"

text \<open>The call sites are \<open>calloc\<close> (0), the mutex (1), the condition variable (2) and the threads (3), thread \<open>i\<close> at site \<open>i\<close>.\<close>

definition concurrent_server_create :: "os \<Rightarrow> int \<Rightarrow> ConcurrentServer result" where
  "concurrent_server_create os server_fd =
     (if server_fd < 0 then Inl EINVAL
      else case List.find (\<lambda>k. fault (at os k) \<noteq> None) [0, 1, 2] of
          Some k \<Rightarrow> Inl (the (fault (at os k)))
        | None \<Rightarrow>
            (case List.find (\<lambda>i. fault (at (at os 3) i) \<noteq> None) [0..<SERVER_WORKERS] of
               Some i \<Rightarrow> Inl (the (fault (at (at os 3) i)))
             | None \<Rightarrow>
                 Inr \<lparr>stopping = False, queue = replicate SERVER_QUEUE 0, head = 0, queued = 0, active = replicate SERVER_WORKERS (-1),
                   workers = replicate SERVER_WORKERS Waiting, accepting = True, accepted = [], served = [], closed = []\<rparr>))"

text \<open>The two locked sections of \<open>worker_run\<close>: leaving or taking the next connection, and closing it after the handler.\<close>

definition worker_wakes :: "nat \<Rightarrow> ConcurrentServer \<Rightarrow> ConcurrentServer" where
  "worker_wakes j s =
     (if queued s = 0 \<and> \<not> stopping s then s
      else if stopping s then s\<lparr>workers := (workers s)[j := Exited]\<rparr>
      else
        let fd = queue s ! head s;
            s = s\<lparr>head := (head s + 1) mod SERVER_QUEUE\<rparr>;
            s = s\<lparr>queued := queued s - 1\<rparr> in
        s\<lparr>active := (active s)[j := fd], workers := (workers s)[j := Serving fd], served := served s @ [fd]\<rparr>)"

definition worker_finishes :: "nat \<Rightarrow> int \<Rightarrow> ConcurrentServer \<Rightarrow> ConcurrentServer" where
  "worker_finishes j fd s = s\<lparr>active := (active s)[j := -1], closed := closed s @ [fd], workers := (workers s)[j := Waiting]\<rparr>"

fun drain :: "nat \<Rightarrow> ConcurrentServer \<Rightarrow> ConcurrentServer" where
  "drain 0 s = s"
| "drain (Suc n) s =
     drain n (s\<lparr>closed := closed s @ [queue s ! head s], head := (head s + 1) mod SERVER_QUEUE, queued := queued s - 1\<rparr>)"

definition concurrent_server_stop :: "ConcurrentServer \<Rightarrow> ConcurrentServer" where
  "concurrent_server_stop s = drain (queued s) (s\<lparr>stopping := True\<rparr>)"

text \<open>The locked section of \<open>concurrent_server_run\<close> for a connection, and what follows the loop.\<close>

definition enter_client :: "int \<Rightarrow> ConcurrentServer \<Rightarrow> ConcurrentServer" where
  "enter_client fd s =
     (if stopping s \<or> queued s = SERVER_QUEUE then s\<lparr>closed := closed s @ [fd]\<rparr>
      else s\<lparr>queue := (queue s)[(head s + queued s) mod SERVER_QUEUE := fd], queued := queued s + 1\<rparr>)"

definition accept_client :: "int \<Rightarrow> ConcurrentServer \<Rightarrow> ConcurrentServer" where
  "accept_client fd s =
     (let s = enter_client fd (s\<lparr>accepted := accepted s @ [fd]\<rparr>) in
      if stopping s then (concurrent_server_stop s)\<lparr>accepting := False\<rparr> else s)"

definition accept_fails :: "errno \<Rightarrow> ConcurrentServer \<Rightarrow> ConcurrentServer" where
  "accept_fails e s = (if e = EINTR then s else (concurrent_server_stop s)\<lparr>accepting := False\<rparr>)"

section \<open>Steps\<close>

fun handed :: "worker_state \<Rightarrow> int list" where
  "handed (Serving fd) = [fd]"
| "handed _ = []"

text \<open>The slot of a worker in the array of active connections.\<close>

fun slot_fd :: "worker_state \<Rightarrow> int" where
  "slot_fd (Serving fd) = fd"
| "slot_fd _ = -1"

definition serving :: "ConcurrentServer \<Rightarrow> int list" where
  "serving s = concat (map handed (workers s))"

definition waiting_clients :: "ConcurrentServer \<Rightarrow> int list" where
  "waiting_clients s = ring_contents (ring_of s)"

text \<open>The threads interleave in any order; \<open>accept\<close> returns a descriptor that is not open.\<close>

inductive server_step :: "ConcurrentServer \<Rightarrow> ConcurrentServer \<Rightarrow> bool" where
  wakes: "j < length (workers s) \<Longrightarrow> workers s ! j = Waiting \<Longrightarrow> server_step s (worker_wakes j s)"
| finishes: "j < length (workers s) \<Longrightarrow> workers s ! j = Serving fd \<Longrightarrow> server_step s (worker_finishes j fd s)"
| accepts: "accepting s \<Longrightarrow> 0 \<le> fd \<Longrightarrow> fd \<notin> set (waiting_clients s @ serving s) \<Longrightarrow> server_step s (accept_client fd s)"
| fails: "accepting s \<Longrightarrow> server_step s (accept_fails e s)"
| stops: "server_step s (concurrent_server_stop s)"

inductive_cases server_stepE: "server_step s s'"

section \<open>Every connection is in one place\<close>

definition server_inv :: "ConcurrentServer \<Rightarrow> bool" where
  "server_inv s \<longleftrightarrow> ring_inv (ring_of s) \<and> length (workers s) = SERVER_WORKERS \<and>
     active s = map slot_fd (workers s) \<and>
     mset (accepted s) = mset (waiting_clients s) + mset (serving s) + mset (closed s) \<and>
     distinct (waiting_clients s @ serving s) \<and> subseq (served s @ waiting_clients s) (accepted s) \<and>
     (stopping s \<longrightarrow> waiting_clients s = []) \<and> (accepting s \<or> stopping s) \<and> (Exited \<in> set (workers s) \<longrightarrow> stopping s)"

lemma handed_update:
  assumes "j < length ws"
  shows "mset (concat (map f (ws[j := w]))) + mset (f (ws ! j)) = mset (concat (map f ws)) + mset (f w)"
proof -
  have "ws = take j ws @ ws ! j # drop (Suc j) ws" by (rule id_take_nth_drop [OF assms])
  then have "mset (concat (map f ws)) = mset (concat (map f (take j ws @ ws ! j # drop (Suc j) ws)))" by simp
  then show ?thesis using assms by (simp add: upd_conv_take_nth_drop)
qed

lemma serving_update:
  assumes "j < length (workers s)"
  shows "mset (serving (s\<lparr>workers := (workers s)[j := w]\<rparr>)) + mset (handed (workers s ! j)) =
    mset (serving s) + mset (handed w)"
  using handed_update [OF assms, of handed w] by (simp add: serving_def)

lemma distinct_by_mset: "mset xs = mset ys \<Longrightarrow> distinct xs \<longleftrightarrow> distinct ys"
  by (rule mset_eq_imp_distinct_iff)

lemma waiting_unchanged:
  "queue s' = queue s \<Longrightarrow> head s' = head s \<Longrightarrow> queued s' = queued s \<Longrightarrow> waiting_clients s' = waiting_clients s \<and> ring_of s' = ring_of s"
  by (simp add: waiting_clients_def ring_of_def)

lemma waiting_Nil: "waiting_clients s = [] \<longleftrightarrow> queued s = 0"
  by (simp add: waiting_clients_def ring_of_def)

lemma waiting_take:
  assumes "ring_inv (ring_of s)" "queued s \<noteq> 0"
    "s' = s\<lparr>head := (head s + 1) mod SERVER_QUEUE, queued := queued s - 1\<rparr>"
  shows "waiting_clients s = queue s ! head s # waiting_clients s'" "ring_inv (ring_of s')"
  using ring.remove [OF assms(1)] assms(2) waiting_Nil [of s]
  by (simp_all add: assms(3) waiting_clients_def ring_of_def)

lemma waiting_put:
  assumes "ring_inv (ring_of s)" "queued s \<noteq> SERVER_QUEUE"
    "s' = s\<lparr>queue := (queue s)[(head s + queued s) mod SERVER_QUEUE := fd], queued := queued s + 1\<rparr>"
  shows "waiting_clients s' = waiting_clients s @ [fd]" "ring_inv (ring_of s')"
proof -
  have "length (ring_contents (ring_of s)) < SERVER_QUEUE" using assms(1,2) by (simp add: ring_of_def)
  from ring.put [OF assms(1) this, of fd]
  show "waiting_clients s' = waiting_clients s @ [fd]" "ring_inv (ring_of s')"
    by (simp_all add: assms(3) waiting_clients_def ring_of_def)
qed

definition same_threads :: "ConcurrentServer \<Rightarrow> ConcurrentServer \<Rightarrow> bool" where
  "same_threads s s' \<longleftrightarrow> workers s' = workers s \<and> active s' = active s \<and> served s' = served s \<and> accepted s' = accepted s \<and> accepting s' = accepting s"

lemma drain_effect:
  "ring_inv (ring_of s) \<Longrightarrow> n = queued s \<Longrightarrow>
     ring_inv (ring_of (drain n s)) \<and> queued (drain n s) = 0 \<and> closed (drain n s) = closed s @ waiting_clients s \<and>
     stopping (drain n s) = stopping s \<and> same_threads s (drain n s)"
proof (induction n arbitrary: s)
  case 0
  then show ?case using waiting_Nil [of s] by (simp add: same_threads_def)
next
  case (Suc n)
  let ?t = "s\<lparr>head := (head s + 1) mod SERVER_QUEUE, queued := queued s - 1\<rparr>"
  let ?u = "s\<lparr>closed := closed s @ [queue s ! head s], head := (head s + 1) mod SERVER_QUEUE, queued := queued s - 1\<rparr>"
  have w: "waiting_clients ?u = waiting_clients ?t \<and> ring_of ?u = ring_of ?t" by (rule waiting_unchanged) simp_all
  have "queued s \<noteq> 0" using Suc.prems(2) by simp
  note t = waiting_take [OF Suc.prems(1) this refl]
  have "ring_inv (ring_of ?u)" "n = queued ?u" using t(2) w Suc.prems(2) by simp_all
  from Suc.IH [OF this] t(1) w show ?case by (simp add: same_threads_def)
qed

lemma stop_effect:
  assumes "ring_inv (ring_of s)"
  shows "ring_inv (ring_of (concurrent_server_stop s))" "waiting_clients (concurrent_server_stop s) = []"
    "closed (concurrent_server_stop s) = closed s @ waiting_clients s" "stopping (concurrent_server_stop s)"
    "same_threads s (concurrent_server_stop s)"
proof -
  let ?t = "s\<lparr>stopping := True\<rparr>"
  have w: "waiting_clients ?t = waiting_clients s \<and> ring_of ?t = ring_of s" by (rule waiting_unchanged) simp_all
  note d = drain_effect [of ?t "queued s"]
  show "ring_inv (ring_of (concurrent_server_stop s))" "waiting_clients (concurrent_server_stop s) = []"
    "closed (concurrent_server_stop s) = closed s @ waiting_clients s" "stopping (concurrent_server_stop s)"
    "same_threads s (concurrent_server_stop s)"
    using d w assms waiting_Nil by (simp_all add: concurrent_server_stop_def same_threads_def)
qed

lemma same_threads_serving: "same_threads s s' \<Longrightarrow> serving s' = serving s"
  by (simp add: same_threads_def serving_def)

lemma stop_inv:
  assumes "server_inv s"
  shows "server_inv (concurrent_server_stop s)" "server_inv ((concurrent_server_stop s)\<lparr>accepting := False\<rparr>)"
proof -
  let ?t = "concurrent_server_stop s"
  have r: "ring_inv (ring_of s)" using assms by (simp add: server_inv_def)
  note e = stop_effect [OF r]
  note sv = same_threads_serving [OF e(5)]
  have sub: "subseq (served s) (accepted s)"
    using assms unfolding server_inv_def by (meson prefix_imp_subseq prefixI subseq_order.trans)
  show i: "server_inv ?t" using assms e sv sub by (simp add: server_inv_def same_threads_def ac_simps)
  have "waiting_clients (?t\<lparr>accepting := False\<rparr>) = waiting_clients ?t \<and> ring_of (?t\<lparr>accepting := False\<rparr>) = ring_of ?t"
    by (rule waiting_unchanged) simp_all
  then show "server_inv (?t\<lparr>accepting := False\<rparr>)" using i e(2,4) by (simp add: server_inv_def serving_def)
qed

lemma enter_accept:
  assumes "server_inv s" "fd \<notin> set (waiting_clients s @ serving s)"
  shows "server_inv (enter_client fd (s\<lparr>accepted := accepted s @ [fd]\<rparr>))"
proof -
  let ?t = "s\<lparr>accepted := accepted s @ [fd]\<rparr>"
  have w: "waiting_clients ?t = waiting_clients s \<and> ring_of ?t = ring_of s" by (rule waiting_unchanged) simp_all
  have sv: "serving ?t = serving s" by (simp add: serving_def)
  have base: "subseq (served s @ waiting_clients s) (accepted s)" using assms(1) by (simp add: server_inv_def)
  have sub: "subseq (served s @ waiting_clients s) (accepted s @ [fd])" "subseq (served s @ waiting_clients s @ [fd]) (accepted s @ [fd])"
    using list_emb_append_mono [OF base, of "[]" "[fd]"] list_emb_append_mono [OF base, of "[fd]" "[fd]"] by simp_all
  show ?thesis
  proof (cases "stopping s \<or> queued s = SERVER_QUEUE")
    case True
    let ?u = "?t\<lparr>closed := closed s @ [fd]\<rparr>"
    have "waiting_clients ?u = waiting_clients s \<and> ring_of ?u = ring_of s" by (rule waiting_unchanged) simp_all
    then have "server_inv ?u" using assms(1) sub(1) by (simp add: server_inv_def serving_def)
    then show ?thesis using True by (simp add: enter_client_def)
  next
    case False
    let ?u = "?t\<lparr>queue := (queue ?t)[(head ?t + queued ?t) mod SERVER_QUEUE := fd], queued := queued ?t + 1\<rparr>"
    have "ring_inv (ring_of ?t)" "queued ?t \<noteq> SERVER_QUEUE" using assms(1) w False by (simp_all add: server_inv_def)
    note p = waiting_put [OF this refl, of fd]
    have "server_inv ?u" using assms sub(2) p w sv False by (simp add: server_inv_def serving_def)
    then show ?thesis using False by (simp add: enter_client_def)
  qed
qed

lemma accept_inv:
  assumes "server_inv s" "fd \<notin> set (waiting_clients s @ serving s)"
  shows "server_inv (accept_client fd s)"
  using enter_accept [OF assms] stop_inv(2) by (simp add: accept_client_def Let_def)

lemma wakes_inv:
  assumes "server_inv s" "j < length (workers s)" "workers s ! j = Waiting"
  shows "server_inv (worker_wakes j s)"
proof -
  have act: "active s = map slot_fd (workers s)" using assms(1) by (simp add: server_inv_def)
  consider "queued s = 0" "\<not> stopping s" | (exit) "stopping s" | (take) "queued s \<noteq> 0" "\<not> stopping s" by blast
  then show ?thesis
  proof cases
    case 1
    then show ?thesis using assms(1) by (simp add: worker_wakes_def)
  next
    case exit
    let ?t = "s\<lparr>workers := (workers s)[j := Exited]\<rparr>"
    have w: "waiting_clients ?t = waiting_clients s \<and> ring_of ?t = ring_of s" by (rule waiting_unchanged) simp_all
    have sv: "mset (serving ?t) = mset (serving s)" using serving_update [OF assms(2), of Exited] assms(3) by simp
    have d: "distinct (waiting_clients s @ serving ?t)"
      using assms(1) sv distinct_by_mset [of "waiting_clients s @ serving ?t" "waiting_clients s @ serving s"] by (simp add: server_inv_def)
    have "active ?t = map slot_fd (workers ?t)"
      using act assms(2,3) by (simp add: map_update list_update_same_conv [THEN iffD2])
    then show ?thesis using assms(1) exit w sv d by (auto simp: worker_wakes_def server_inv_def)
  next
    case take
    let ?fd = "queue s ! head s"
    let ?h = "s\<lparr>head := (head s + 1) mod SERVER_QUEUE, queued := queued s - 1\<rparr>"
    let ?t = "?h\<lparr>active := (active s)[j := ?fd], workers := (workers s)[j := Serving ?fd], served := served s @ [?fd]\<rparr>"
    have r: "ring_inv (ring_of s)" using assms(1) by (simp add: server_inv_def)
    note t = waiting_take [OF r take(1) refl]
    have w: "waiting_clients ?t = waiting_clients ?h \<and> ring_of ?t = ring_of ?h" by (rule waiting_unchanged) simp_all
    have "serving ?t = serving (s\<lparr>workers := (workers s)[j := Serving ?fd]\<rparr>)" by (simp add: serving_def)
    then have sv: "mset (serving ?t) = add_mset ?fd (mset (serving s))"
      using serving_update [OF assms(2), of "Serving ?fd"] assms(3) by simp
    have m: "mset (waiting_clients ?t @ serving ?t) = mset (waiting_clients s @ serving s)" using w t(1) sv by simp
    have d: "distinct (waiting_clients ?t @ serving ?t)"
      using assms(1) distinct_by_mset [OF m] by (simp add: server_inv_def del: distinct_append)
    have "active ?t = map slot_fd (workers ?t)" using act by (simp add: map_update)
    moreover have "mset (accepted s) = mset (waiting_clients ?t) + mset (serving ?t) + mset (closed s)"
      using assms(1) m by (simp add: server_inv_def)
    moreover have "subseq ((served s @ [?fd]) @ waiting_clients ?t) (accepted s)" using assms(1) t(1) w by (simp add: server_inv_def)
    moreover have "set (workers ?t) \<subseteq> insert (Serving ?fd) (set (workers s))" by (simp add: set_update_subset_insert)
    ultimately have "server_inv ?t" using assms(1) take(2) w t(2) d by (auto simp: server_inv_def)
    then show ?thesis using take by (simp add: worker_wakes_def Let_def)
  qed
qed

lemma finishes_inv:
  assumes "server_inv s" "j < length (workers s)" "workers s ! j = Serving fd"
  shows "server_inv (worker_finishes j fd s)"
proof -
  let ?t = "worker_finishes j fd s"
  have w: "waiting_clients ?t = waiting_clients s \<and> ring_of ?t = ring_of s" by (rule waiting_unchanged) (simp_all add: worker_finishes_def)
  have "serving ?t = serving (s\<lparr>workers := (workers s)[j := Waiting]\<rparr>)" by (simp add: serving_def worker_finishes_def)
  then have sv: "add_mset fd (mset (serving ?t)) = mset (serving s)" using serving_update [OF assms(2), of Waiting] assms(3) by simp
  then have "mset (fd # waiting_clients s @ serving ?t) = mset (waiting_clients s @ serving s)" by (simp flip: sv)
  then have d: "distinct (waiting_clients s @ serving ?t)" using assms(1) distinct_by_mset by (fastforce simp: server_inv_def)
  have "active ?t = map slot_fd (workers ?t)"
    using assms(1) by (simp add: server_inv_def worker_finishes_def map_update)
  moreover have "mset (accepted s) = mset (waiting_clients s) + mset (serving ?t) + mset (closed s @ [fd])"
    using assms(1) by (simp add: server_inv_def flip: sv)
  moreover have "Exited \<in> set (workers ?t) \<Longrightarrow> Exited \<in> set (workers s)"
    using set_update_subset_insert [of "workers s" j Waiting] by (auto simp: worker_finishes_def)
  ultimately show ?thesis using assms(1) w d by (auto simp: server_inv_def worker_finishes_def)
qed

lemma step_inv: "server_step s s' \<Longrightarrow> server_inv s \<Longrightarrow> server_inv s'"
  by (erule server_stepE) (simp_all add: wakes_inv finishes_inv accept_inv accept_fails_def stop_inv)

lemma created_server:
  assumes "concurrent_server_create os fd = Inr s"
  shows "server_inv s" "accepted s = []" "\<not> stopping s"
  using assms by (auto simp: concurrent_server_create_def server_inv_def waiting_clients_def ring_of_def serving_def SERVER_QUEUE_def
      split: if_splits option.splits)

lemma reachable_server_inv: "server_step\<^sup>*\<^sup>* s s' \<Longrightarrow> server_inv s \<Longrightarrow> server_inv s'"
  by (induction rule: rtranclp_induct) (auto intro: step_inv)

section \<open>Winding down\<close>

text \<open>Once the server is stopping, no connection is handed to a worker any more.\<close>

lemma enter_client_frame [simp]:
  "served (enter_client fd s) = served s" "stopping (enter_client fd s) = stopping s" "accepting (enter_client fd s) = accepting s"
  by (simp_all add: enter_client_def)

lemma stop_frame:
  assumes "server_inv s"
  shows "served (concurrent_server_stop s) = served s" "stopping (concurrent_server_stop s)" "workers (concurrent_server_stop s) = workers s"
    "accepted (concurrent_server_stop s) = accepted s"
  using stop_effect(4,5) [of s] assms by (simp_all add: server_inv_def same_threads_def)

lemma stopping_accept:
  assumes "server_inv s" "stopping s" "fd \<notin> set (waiting_clients s @ serving s)"
  shows "stopping (accept_client fd s) \<and> served (accept_client fd s) = served s"
  using stop_frame [OF enter_accept [OF assms(1,3)]] assms(2) by (simp add: accept_client_def Let_def)

lemma stopping_step: "server_step s s' \<Longrightarrow> server_inv s \<Longrightarrow> stopping s \<Longrightarrow> stopping s' \<and> served s' = served s"
  by (erule server_stepE) (simp_all add: stopping_accept worker_wakes_def worker_finishes_def accept_fails_def stop_frame)

lemma stopping_steps: "server_step\<^sup>*\<^sup>* s s' \<Longrightarrow> server_inv s \<Longrightarrow> stopping s \<Longrightarrow> stopping s' \<and> served s' = served s"
proof (induction rule: rtranclp_induct)
  case (step t u)
  then show ?case using stopping_step [OF step.hyps(2)] reachable_server_inv [OF step.hyps(1)] by simp
qed simp

text \<open>One worker after the other finishes and leaves.\<close>

lemma worker_leaves:
  assumes "stopping s" "j < length (workers s)"
  shows "\<exists>s'. server_step\<^sup>*\<^sup>* s s' \<and> workers s' = (workers s)[j := Exited] \<and> stopping s' \<and> accepting s' = accepting s"
proof (cases "workers s ! j")
  case Waiting
  then have "server_step s (worker_wakes j s)" using assms(2) by (intro server_step.wakes)
  then show ?thesis using assms(1) by (intro exI [of _ "worker_wakes j s"]) (auto simp: worker_wakes_def)
next
  case (Serving fd)
  let ?t = "worker_finishes j fd s"
  have t: "workers ?t = (workers s)[j := Waiting]" "stopping ?t" "accepting ?t = accepting s" using assms(1) by (simp_all add: worker_finishes_def)
  have "server_step s ?t" using Serving assms(2) by (intro server_step.finishes)
  moreover have "server_step ?t (worker_wakes j ?t)" using t(1) assms(2) by (intro server_step.wakes) simp_all
  ultimately have "server_step\<^sup>*\<^sup>* s (worker_wakes j ?t)" by (meson r_into_rtranclp rtranclp.rtrancl_into_rtrancl)
  then show ?thesis using t by (intro exI [of _ "worker_wakes j ?t"]) (simp add: worker_wakes_def)
next
  case Exited
  then show ?thesis using assms(1) by (metis list_update_id rtranclp.rtrancl_refl)
qed

lemma workers_leave:
  assumes "stopping s" "n \<le> length (workers s)"
  shows "\<exists>s'. server_step\<^sup>*\<^sup>* s s' \<and> length (workers s') = length (workers s) \<and> (\<forall>j < n. workers s' ! j = Exited) \<and> stopping s' \<and> accepting s' = accepting s"
  using assms(2)
proof (induction n)
  case 0
  then show ?case using assms(1) by blast
next
  case (Suc n)
  then obtain t where t: "server_step\<^sup>*\<^sup>* s t" "length (workers t) = length (workers s)" "\<forall>j < n. workers t ! j = Exited" "stopping t" "accepting t = accepting s"
    by auto
  moreover obtain u where u: "server_step\<^sup>*\<^sup>* t u" "workers u = (workers t)[n := Exited]" "stopping u" "accepting u = accepting t"
    using worker_leaves [of t n] t(2,4) Suc.prems by auto
  ultimately have "server_step\<^sup>*\<^sup>* s u" "\<forall>j < Suc n. workers u ! j = Exited"
    using Suc.prems by (auto simp: less_Suc_eq nth_list_update)
  then show ?case using u t by (intro exI [of _ u]) simp
qed

lemma all_left:
  assumes "server_inv s" "stopping s"
  shows "\<exists>s'. server_step\<^sup>*\<^sup>* s s' \<and> (\<forall>w \<in> set (workers s'). w = Exited) \<and> \<not> accepting s'"
proof -
  obtain t where t: "server_step\<^sup>*\<^sup>* s t" "length (workers t) = length (workers s)" "\<forall>j < length (workers s). workers t ! j = Exited"
    using workers_leave [OF assms(2) order.refl] by blast
  then have e: "\<forall>w \<in> set (workers t). w = Exited" by (auto simp: in_set_conv_nth)
  show ?thesis
  proof (cases "accepting t")
    case True
    then have "server_step t (accept_fails EIO t)" by (rule server_step.fails)
    then have "server_step\<^sup>*\<^sup>* s (accept_fails EIO t)" using t(1) by simp
    then show ?thesis using e stop_frame(3) [OF reachable_server_inv [OF t(1) assms(1)]]
      by (intro exI [of _ "accept_fails EIO t"]) (simp add: accept_fails_def)
  next
    case False
    then show ?thesis using t(1) e by blast
  qed
qed

section \<open>Properties\<close>

lemma left_closed:
  assumes "server_inv s" "\<forall>w \<in> set (workers s). w = Exited"
  shows "mset (closed s) = mset (accepted s)"
proof -
  have "serving s = []" using assms(2) by (auto simp: serving_def)
  moreover have "stopping s" using assms by (cases "workers s") (auto simp: server_inv_def SERVER_WORKERS_def)
  ultimately show ?thesis using assms(1) by (simp add: server_inv_def)
qed

text \<open>
C32: Every accepted connection is in exactly one place: waiting in the queue, with one worker, or closed, and closed once. No two workers have the same connection, the
table of active connections shows which worker has which, at most 64 wait, and connections reach the workers in the order in which they were accepted.\<close>

theorem server_connections:
  assumes "concurrent_server_create os fd = Inr s0" "server_step\<^sup>*\<^sup>* s0 s"
  shows "mset (accepted s) = mset (waiting_clients s) + mset (serving s) + mset (closed s) \<and> distinct (waiting_clients s @ serving s) \<and>
    active s = map slot_fd (workers s) \<and> length (waiting_clients s) \<le> SERVER_QUEUE \<and> subseq (served s @ waiting_clients s) (accepted s)"
proof -
  have "server_inv s" by (rule reachable_server_inv [OF assms(2) created_server(1) [OF assms(1)]])
  then show ?thesis using ring.bounded [of "ring_of s"] by (simp add: server_inv_def waiting_clients_def)
qed

text \<open>
Stopping closes everything. From the moment the server is told to stop no connection is given to a worker any more, every waiting connection has been closed,
the workers can all leave, and when they have, every connection that was ever accepted has been closed exactly once.\<close>

theorem server_stops:
  assumes "concurrent_server_create os fd = Inr s0" "server_step\<^sup>*\<^sup>* s0 s" "t = concurrent_server_stop s"
  shows "waiting_clients t = [] \<and> (\<forall>u. server_step\<^sup>*\<^sup>* t u \<longrightarrow> served u = served s \<and>
      ((\<forall>w \<in> set (workers u). w = Exited) \<longrightarrow> mset (closed u) = mset (accepted u))) \<and>
    (\<exists>u. server_step\<^sup>*\<^sup>* t u \<and> (\<forall>w \<in> set (workers u). w = Exited) \<and> \<not> accepting u)"
proof -
  have i: "server_inv s" by (rule reachable_server_inv [OF assms(2) created_server(1) [OF assms(1)]])
  have t: "server_inv t" "stopping t" "served t = served s" "waiting_clients t = []"
    unfolding assms(3) using stop_inv(1) [OF i] stop_frame [OF i] stop_effect(2) [of s] i [unfolded server_inv_def] by simp_all
  have u: "served u = served s \<and> ((\<forall>w \<in> set (workers u). w = Exited) \<longrightarrow> mset (closed u) = mset (accepted u))" if "server_step\<^sup>*\<^sup>* t u" for u
    using stopping_steps [OF that t(1,2)] t(3) left_closed [OF reachable_server_inv [OF that t(1)]] by simp
  show ?thesis using t(4) u all_left [OF t(1,2)] by blast
qed

text \<open>A server with one connection accepted and given to the first worker.\<close>

definition sample_server :: ConcurrentServer where
  "sample_server = \<lparr>stopping = False, queue = replicate SERVER_QUEUE 0, head = 0, queued = 0, active = replicate SERVER_WORKERS (-1),
     workers = replicate SERVER_WORKERS Waiting, accepting = True, accepted = [], served = [], closed = []\<rparr>"

lemma sample_server_created: "concurrent_server_create calm 3 = Inr sample_server"
proof -
  have "List.find (\<lambda>i. fault (at (at calm 3) i) \<noteq> None) [0..<SERVER_WORKERS] = None" by (simp add: find_None_iff)
  then show ?thesis by (simp add: concurrent_server_create_def sample_server_def)
qed

lemma sample_server_run: "server_step\<^sup>*\<^sup>* sample_server (worker_wakes 0 (accept_client 7 sample_server))"
proof -
  let ?s = "accept_client 7 sample_server"
  have "server_step sample_server ?s"
    by (rule server_step.accepts) (auto simp: sample_server_def waiting_clients_def ring_of_def serving_def)
  moreover have "server_step ?s (worker_wakes 0 ?s)"
    by (rule server_step.wakes) (simp_all add: accept_client_def enter_client_def sample_server_def SERVER_WORKERS_def SERVER_QUEUE_def Let_def)
  ultimately show ?thesis by simp
qed

theorem server_connections_witness:
  "active (worker_wakes 0 (accept_client 7 sample_server)) = map slot_fd (workers (worker_wakes 0 (accept_client 7 sample_server)))"
  using server_connections [OF sample_server_created sample_server_run] by blast

theorem server_stops_witness:
  "waiting_clients (concurrent_server_stop (worker_wakes 0 (accept_client 7 sample_server))) = [] \<and>
     (\<exists>u. server_step\<^sup>*\<^sup>* (concurrent_server_stop (worker_wakes 0 (accept_client 7 sample_server))) u \<and> \<not> accepting u)"
  using server_stops [OF sample_server_created sample_server_run refl] by blast

end
