(* ===== verification/C_Text.thy ===== *)
theory C_Text
  imports Prelude
begin

text \<open>
  What the programs use of the C library to read text: \<open>isspace\<close> and \<open>strtoul\<close> in base ten, and the way in which numbers
  in a range are read from settings, options and files. A string is its bytes without the terminator.
\<close>

definition isspace :: "byte \<Rightarrow> bool" where
  "isspace b \<longleftrightarrow> b = 0x20 \<or> (0x09 \<le> b \<and> b \<le> 0x0d)"

definition isdigit :: "byte \<Rightarrow> bool" where
  "isdigit b \<longleftrightarrow> 0x30 \<le> b \<and> b \<le> 0x39"

definition ULONG_MAX :: nat where
  "ULONG_MAX = 2 ^ 64 - 1"

definition digits_value :: "byte list \<Rightarrow> nat" where
  "digits_value ds = foldl (\<lambda>v b. v * 10 + (unat b - 0x30)) 0 ds"

text \<open>
  \<open>None\<close> where there is no number and the end pointer stays at the start; otherwise the value, what follows the number and
  whether the value is out of range. A minus sign negates the value in unsigned arithmetic.
\<close>

definition strtoul :: "byte list \<Rightarrow> (nat \<times> byte list \<times> bool) option" where
  "strtoul text =
     (let body = dropWhile isspace text;
          negative = (body \<noteq> [] \<and> hd body = 0x2d);
          body = (if body \<noteq> [] \<and> (hd body = 0x2d \<or> hd body = 0x2b) then tl body else body);
          ds = takeWhile isdigit body; v = digits_value ds in
      if ds = [] then None
      else if ULONG_MAX < v then Some (ULONG_MAX, dropWhile isdigit body, True)
      else Some (if negative \<and> v \<noteq> 0 then ULONG_MAX + 1 - v else v, dropWhile isdigit body, False))"

text \<open>The test that the whole text is a number from \<open>lo\<close> to \<open>hi\<close>.\<close>

definition number_in :: "nat \<Rightarrow> nat \<Rightarrow> byte list \<Rightarrow> nat option" where
  "number_in lo hi text =
     (case strtoul text of None \<Rightarrow> None
      | Some (v, rest, too_large) \<Rightarrow> if too_large \<or> rest \<noteq> [] \<or> v < lo \<or> hi < v then None else Some v)"

section \<open>Decimal text\<close>

text \<open>The decimal digits of a number, as \<open>printf\<close> writes them.\<close>

fun decimal :: "nat \<Rightarrow> byte list" where
  "decimal n = (if n < 10 then [of_nat n + 0x30] else decimal (n div 10) @ [of_nat (n mod 10) + 0x30])"

declare decimal.simps [simp del]

lemma digit_byte:
  assumes "d < 10"
  shows "unat (of_nat d + 0x30 :: byte) = d + 0x30" "isdigit (of_nat d + 0x30)" "\<not> isspace (of_nat d + 0x30)"
proof -
  have u: "unat (of_nat d :: byte) = d" using assms by (simp add: unat_of_nat)
  show v: "unat (of_nat d + 0x30 :: byte) = d + 0x30" using assms u by (subst unat_add_lem [THEN iffD1]) simp_all
  show "isdigit (of_nat d + 0x30)" "\<not> isspace (of_nat d + 0x30)"
    using assms v by (auto simp: isdigit_def isspace_def word_le_nat_alt word_unat_eq_iff)
qed

lemma decimal_digits: "decimal n \<noteq> []" "list_all isdigit (decimal n)" "list_all (\<lambda>b. \<not> isspace b) (decimal n)"
  by (induction n rule: decimal.induct; subst decimal.simps; simp add: digit_byte)+

lemma digits_value_decimal: "digits_value (decimal n) = n"
proof (induction n rule: decimal.induct)
  case (1 n)
  then show ?case by (subst decimal.simps) (simp add: digits_value_def digit_byte)
qed

lemma strtoul_decimal:
  assumes "n \<le> ULONG_MAX"
  shows "strtoul (decimal n) = Some (n, [], False)"
proof -
  note d = decimal_digits [of n]
  obtain b bs where b: "decimal n = b # bs" using d(1) by (cases "decimal n") auto
  have "isdigit b" "\<not> isspace b" using d(2,3) b by simp_all
  then have s: "dropWhile isspace (decimal n) = decimal n" "hd (decimal n) \<noteq> 0x2d" "hd (decimal n) \<noteq> 0x2b"
    using b by (auto simp: isdigit_def)
  have t: "takeWhile isdigit (decimal n) = decimal n" "dropWhile isdigit (decimal n) = []"
    using d(2) by (auto simp: list_all_iff takeWhile_eq_all_conv)
  have b2: "(if decimal n \<noteq> [] \<and> (hd (decimal n) = 0x2d \<or> hd (decimal n) = 0x2b) then tl (decimal n) else decimal n) = decimal n"
    using s(2,3) by simp
  show ?thesis unfolding strtoul_def Let_def s(1) b2 t digits_value_decimal using s(2) d(1) assms by auto
qed

lemma number_in_decimal: "lo \<le> n \<Longrightarrow> n \<le> hi \<Longrightarrow> hi \<le> ULONG_MAX \<Longrightarrow> number_in lo hi (decimal n) = Some n"
  using strtoul_decimal [of n] by (simp add: number_in_def)

lemma number_in_bounds: "number_in lo hi text = Some n \<Longrightarrow> lo \<le> n \<and> n \<le> hi"
  by (auto simp: number_in_def split: option.splits if_splits)

end
