(* ===== verification/Heartbeat.thy ===== *)
theory Heartbeat
  imports Membership C_Text
begin

text \<open>
  The failure detector of a node (\<^verbatim>\<open>heartbeat.c\<close>): the epoch file, the packets that nodes exchange, the
  handler of requests, the queue of the worker threads and the rounds of the scheduler.

  The gate makes every operation on the table one step. The state has the table of members, which a
  Super Peer shares with it, and the two files, \<open>epoch_file\<close> and \<open>ledger_file\<close>. \<open>tm k\<close> and \<open>wall k\<close> are what the
  monotonic and the wall clock show at the \<open>k\<close>-th reading of an operation.
\<close>

section \<open>Data\<close>

definition HEARTBEAT_WIRE_SIZE :: nat where
  "HEARTBEAT_WIRE_SIZE = 187"

definition GOSSIP_BATCH_MAX :: nat where
  "GOSSIP_BATCH_MAX = 64"

definition CONTROL_WORKERS :: nat where
  "CONTROL_WORKERS = 4"

definition CONTROL_QUEUE :: nat where
  "CONTROL_QUEUE = 64"

record ControlJob =
  job_target :: SuperPeerMember
  job_gossip :: bool

text \<open>A slot of the active jobs is \<open>None\<close> while its worker waits.\<close>

record Heartbeat =
  hb_local :: Node
  hb_members :: SuperPeer
  hb_incarnation :: u64
  hb_sequence :: u64
  hb_home :: NodeID
  can_reconnect :: bool
  hb_interval :: nat
  hb_suspect :: nat
  hb_failed :: nat
  hb_removed :: nat
  hb_budget :: nat
  cursor :: nat
  neighbor_cursor :: nat
  hb_stop :: bool
  needs_reconnect :: bool
  jobs :: "ControlJob list"
  active_jobs :: "ControlJob option list"
  epoch_file :: "byte list option"
  ledger_file :: "byte list option"
  ledger_path_length :: nat

section \<open>The epoch of a node\<close>

text \<open>
  One \<open>read\<close> of \<open>n\<close> bytes and one \<open>write\<close>, which may transfer less than asked for. Where a call transfers less,
  \<open>errno\<close> keeps the value of an earlier call, shown as \<open>EOTHER 0\<close>.
\<close>

definition read_once :: "os \<Rightarrow> nat \<Rightarrow> byte list \<Rightarrow> byte list option" where
  "read_once os n bytes = (case os [] of [] \<Rightarrow> Some (take n bytes) | Ret k # _ \<Rightarrow> Some (take (min n k) bytes) | Err e # _ \<Rightarrow> None)"

definition write_once :: "os \<Rightarrow> nat \<Rightarrow> errno option" where
  "write_once os n = (case os [] of [] \<Rightarrow> None | Ret k # _ \<Rightarrow> if k < n then Some (EOTHER 0) else None | Err e # _ \<Rightarrow> Some e)"

text \<open>
  The call sites are the lock file (0, 1), the epoch file (2), its two reads (3, 4), the temporary file (5), its \<open>write\<close> (6),
  \<open>fsync\<close> (7) and \<open>close\<close> (8), \<open>rename\<close> (9) and the directory (10, 11). The paths fit in their buffers, and opening a file that
  is there does not fail with \<open>ENOENT\<close>.
\<close>

definition read_epoch :: "os \<Rightarrow> u64 \<Rightarrow> byte list option \<Rightarrow> u64 result" where
  "read_epoch os old f =
     (case f of
        None \<Rightarrow> (case fault (at os 2) of None \<Rightarrow> Inr old | Some e \<Rightarrow> if e = ENOENT then Inr old else Inl e)
      | Some bytes \<Rightarrow>
          (case fault (at os 2) of Some e \<Rightarrow> Inl e
           | None \<Rightarrow>
               (case read_once (at os 3) 8 bytes of
                  None \<Rightarrow> Inl EBADMSG
                | Some got \<Rightarrow>
                    if length got \<noteq> 8 \<or> read_once (at os 4) 1 (drop 8 bytes) \<noteq> Some [] then Inl EBADMSG
                    else Inr (max old (wire_get_u64 got)))))"

definition save_epoch :: "os \<Rightarrow> byte list \<Rightarrow> byte list option \<Rightarrow> errno option \<times> byte list option" where
  "save_epoch os bytes f =
     (case fault (at os 5) of Some e \<Rightarrow> (Some e, f)
      | None \<Rightarrow>
          (let r = (case write_once (at os 6) 8 of Some e \<Rightarrow> Some e | None \<Rightarrow> fault (at os 7));
               r = (case fault (at os 8) of Some e \<Rightarrow> Some e | None \<Rightarrow> r) in
           case r of Some e \<Rightarrow> (Some e, f)
           | None \<Rightarrow>
               (case fault (at os 9) of Some e \<Rightarrow> (Some e, f)
                | None \<Rightarrow>
                    (case fault (at os 10) of Some e \<Rightarrow> (Some e, Some bytes) | None \<Rightarrow> (fault (at os 11), Some bytes)))))"

definition advance_epoch :: "os \<Rightarrow> Heartbeat \<Rightarrow> errno option \<times> Heartbeat" where
  "advance_epoch os h =
     (case fault (at os 0) of Some e \<Rightarrow> (Some e, h)
      | None \<Rightarrow>
          (case fault (at os 1) of Some e \<Rightarrow> (Some e, h)
           | None \<Rightarrow>
               (case read_epoch os (hb_incarnation h) (epoch_file h) of Inl e \<Rightarrow> (Some e, h)
                | Inr old \<Rightarrow>
                    if old = - 1 then (Some EOVERFLOW, h)
                    else
                      let (r, f) = save_epoch os (wire_put_u64 (old + 1)) (epoch_file h);
                          h = h\<lparr>epoch_file := f\<rparr> in
                      (r, if r = None then h\<lparr>hb_incarnation := old + 1, hb_sequence := 0\<rparr> else h))))"

definition heartbeat_incarnation :: "Heartbeat \<Rightarrow> u64" where
  "heartbeat_incarnation h = hb_incarnation h"

definition heartbeat_budget :: "Heartbeat option \<Rightarrow> nat" where
  "heartbeat_budget h = (case h of None \<Rightarrow> 1000 | Some h \<Rightarrow> hb_budget h)"

definition heartbeat_checkpoint :: "lib \<Rightarrow> os \<Rightarrow> Heartbeat \<Rightarrow> errno option \<times> Heartbeat" where
  "heartbeat_checkpoint lib os h =
     (let (r, f) = membership_save lib os (hb_members h) (ledger_path_length h) (ledger_file h) in (r, h\<lparr>ledger_file := f\<rparr>))"

section \<open>Packets\<close>

text \<open>The call sites are the epoch (0) and the table (1).\<close>

definition self_record :: "Heartbeat \<Rightarrow> SuperPeerMember" where
  "self_record h =
     \<lparr>member_node = hb_local h, member_state = SUPERPEER_MEMBER_ALIVE, last_seen = 0, home = hb_home h, reporter = hb_home h,
      incarnation = hb_incarnation h, member_sequence = hb_sequence h, member_version = 0, observed_ms = 0, probe_ms = 0,
      failed_probes = 0, local_registration = False\<rparr>"

definition local_record :: "os \<Rightarrow> Heartbeat \<Rightarrow> SuperPeerMember result \<times> Heartbeat" where
  "local_record os h =
     (let (r, h) = (if hb_sequence h = - 1 then advance_epoch (at os 0) h else (None, h)) in
      case r of Some e \<Rightarrow> (Inl e, h)
      | None \<Rightarrow>
          (let h = h\<lparr>hb_sequence := hb_sequence h + 1\<rparr>;
               (r, t) = membership_local (at os 1) (hb_members h) (hb_local h) (hb_incarnation h) (hb_sequence h);
               h = h\<lparr>hb_members := t\<rparr> in
           (case r of Some e \<Rightarrow> Inl e | None \<Rightarrow> Inr (self_record h), h)))"

fun encode_records :: "lib \<Rightarrow> SuperPeerMember list \<Rightarrow> byte list result" where
  "encode_records lib [] = Inr []"
| "encode_records lib (m # ms) =
     (case gossip_encode_record lib m of Inl e \<Rightarrow> Inl e
      | Inr r \<Rightarrow> (case encode_records lib ms of Inl e \<Rightarrow> Inl e | Inr rs \<Rightarrow> Inr (r @ rs)))"

text \<open>What is written to the buffer: a version, the record of the node, and for gossip the number of records and the records.\<close>

definition packet_bytes :: "lib \<Rightarrow> bool \<Rightarrow> SuperPeerMember \<Rightarrow> SuperPeerMember list \<Rightarrow> byte list result" where
  "packet_bytes lib gossip self chosen =
     (case gossip_encode_record lib self of Inl e \<Rightarrow> Inl e
      | Inr r \<Rightarrow>
          if gossip then (case encode_records lib chosen of Inl e \<Rightarrow> Inl e | Inr rs \<Rightarrow> Inr (1 # r @ wire_put_u16 (of_nat (length chosen)) @ rs))
          else Inr (1 # r))"

text \<open>The records of a batch: those with an incarnation, in turn from the cursor on.\<close>

definition choose_rumours :: "Heartbeat \<Rightarrow> SuperPeerMember list \<Rightarrow> SuperPeerMember list \<times> Heartbeat" where
  "choose_rumours h ms =
     (let ms = filter (\<lambda>m. 0 < incarnation m) ms; total = length ms; n = (if total < GOSSIP_BATCH_MAX then total else GOSSIP_BATCH_MAX) in
      (map (\<lambda>i. ms ! ((cursor h + i) mod total)) [0..<n], if total \<noteq> 0 then h\<lparr>cursor := (cursor h + n) mod total\<rparr> else h))"

text \<open>The call sites are the record of the node (0), the snapshot (1) and the buffer (2).\<close>

definition encode_packet :: "lib \<Rightarrow> os \<Rightarrow> Heartbeat \<Rightarrow> bool \<Rightarrow> byte list result \<times> Heartbeat" where
  "encode_packet lib os h gossip =
     (case local_record (at os 0) h of (Inl e, h) \<Rightarrow> (Inl e, h)
      | (Inr self, h) \<Rightarrow>
          (case (if gossip then membership_snapshot (at os 1) (hb_members h) else Inr []) of Inl e \<Rightarrow> (Inl e, h)
           | Inr ms \<Rightarrow>
               (case fault (at os 2) of Some e \<Rightarrow> (Inl e, h)
                | None \<Rightarrow>
                    (let (chosen, h) = (if gossip then choose_rumours h ms else ([], h)) in (packet_bytes lib gossip self chosen, h)))))"

text \<open>The conditions on the record of the sender.\<close>

definition sender_ok :: "Heartbeat \<Rightarrow> NodeID \<Rightarrow> bool \<Rightarrow> SuperPeerMember \<Rightarrow> bool" where
  "sender_ok h source gossip sender \<longleftrightarrow>
     node_id_equal source (member_id sender) \<and> member_state sender = SUPERPEER_MEMBER_ALIVE \<and> incarnation sender \<noteq> 0 \<and>
     member_sequence sender \<noteq> 0 \<and> \<not> node_id_equal source (id_of (hb_local h)) \<and>
     \<not> (gossip \<and> role (member_node sender) \<noteq> NODE_ROLE_SUPERPEER) \<and>
     \<not> (role (member_node sender) = NODE_ROLE_SUPERPEER \<and> \<not> node_id_equal (home sender) source)"

definition rumour_ok :: "SuperPeerMember \<Rightarrow> bool" where
  "rumour_ok m \<longleftrightarrow> incarnation m \<noteq> 0 \<and> \<not> (role (member_node m) = NODE_ROLE_PEER \<and> \<not> node_id_equal (home m) (reporter m))"

primrec decode_batch :: "nat \<Rightarrow> lib \<Rightarrow> int \<Rightarrow> byte list \<Rightarrow> SuperPeerMember list option" where
  "decode_batch 0 lib pid bytes = Some []"
| "decode_batch (Suc n) lib pid bytes =
     (case gossip_decode_record lib pid (take MEMBERSHIP_WIRE_SIZE bytes) of Inl _ \<Rightarrow> None
      | Inr m \<Rightarrow>
          if \<not> rumour_ok m then None
          else (case decode_batch n lib pid (drop MEMBERSHIP_WIRE_SIZE bytes) of None \<Rightarrow> None | Some ms \<Rightarrow> Some (m # ms)))"

text \<open>The checks of a packet before anything changes: the sender and the batch of rumours.\<close>

definition check_packet :: "lib \<Rightarrow> int \<Rightarrow> Heartbeat \<Rightarrow> byte list \<Rightarrow> NodeID \<Rightarrow> bool \<Rightarrow> (SuperPeerMember \<times> SuperPeerMember list) result" where
  "check_packet lib pid h bytes source gossip =
     (if length bytes < HEARTBEAT_WIRE_SIZE \<or> bytes ! 0 \<noteq> 1 then Inl EBADMSG
      else if gossip \<and> length bytes < HEARTBEAT_WIRE_SIZE + 2 then Inl EBADMSG
      else
        let n = (if gossip then unat (wire_get_u16 (drop HEARTBEAT_WIRE_SIZE bytes)) else 0) in
        if GOSSIP_BATCH_MAX < n \<or> length bytes \<noteq> HEARTBEAT_WIRE_SIZE + (if gossip then 2 + n * MEMBERSHIP_WIRE_SIZE else 0) then Inl EBADMSG
        else case gossip_decode_record lib pid (take MEMBERSHIP_WIRE_SIZE (drop 1 bytes)) of
          Inl _ \<Rightarrow> Inl EACCES
        | Inr sender \<Rightarrow>
            if \<not> sender_ok h source gossip sender then Inl EACCES
            else (case decode_batch n lib pid (drop (HEARTBEAT_WIRE_SIZE + 2) bytes) of None \<Rightarrow> Inl EBADMSG | Some batch \<Rightarrow> Inr (sender, batch)))"

text \<open>
  A sender that the table does not show: only a Super Peer may enter by itself, and a failed or removed one only with a later
  incarnation. The call sites are the snapshot (0) and the registration (1).
\<close>

definition admit_sender :: "lib \<Rightarrow> os \<Rightarrow> (nat \<Rightarrow> int) \<Rightarrow> (nat \<Rightarrow> int) \<Rightarrow> SuperPeer \<Rightarrow> NodeID \<Rightarrow> SuperPeerMember \<Rightarrow> errno option \<times> SuperPeer" where
  "admit_sender lib os wall tm t source sender =
     (if role (member_node sender) \<noteq> NODE_ROLE_SUPERPEER then (Some ENOENT, t)
      else case membership_snapshot (at os 0) t of Inl e \<Rightarrow> (Some e, t)
      | Inr all \<Rightarrow>
          if list_ex (\<lambda>m. node_id_equal (member_id m) source \<and> incarnation sender \<le> incarnation m \<and> SUPERPEER_MEMBER_FAILED \<le> member_state m) all
          then (Some ESTALE, t)
          else (case membership_register lib (at os 1) (wall 0) (tm 1) t (member_node sender) (home sender) (incarnation sender) (tm 0) of
                  (Inl _, t) \<Rightarrow> (Some ESTALE, t)
                | (Inr _, t) \<Rightarrow> (None, t)))"

text \<open>The rumours of a batch: one that doubts this node makes it take a later incarnation, the others are merged.\<close>

fun apply_rumours :: "lib \<Rightarrow> os \<Rightarrow> (nat \<Rightarrow> int) \<Rightarrow> nat \<Rightarrow> SuperPeerMember list \<Rightarrow> Heartbeat \<Rightarrow> errno option \<times> Heartbeat" where
  "apply_rumours lib os tm k [] h = (None, h)"
| "apply_rumours lib os tm k (m # ms) h =
     (let (r, h) =
        (if node_id_equal (member_id m) (id_of (hb_local h)) \<and> member_state m \<noteq> SUPERPEER_MEMBER_ALIVE \<and> hb_incarnation h \<le> incarnation m
         then advance_epoch (at os k) (h\<lparr>hb_incarnation := incarnation m\<rparr>)
         else (let (r, t) = membership_merge lib (at os k) (tm k) (hb_members h) m in (r, h\<lparr>hb_members := t\<rparr>))) in
      case r of Some e \<Rightarrow> (Some e, h) | None \<Rightarrow> apply_rumours lib os tm (Suc k) ms h)"

text \<open>The sender is direct evidence, the copies in the batch are not. The call sites are the heartbeat (2), the rumours (3) and the ledger (4).\<close>

definition apply_evidence ::
  "lib \<Rightarrow> os \<Rightarrow> (nat \<Rightarrow> int) \<Rightarrow> (nat \<Rightarrow> int) \<Rightarrow> SuperPeerMember \<Rightarrow> SuperPeerMember list \<Rightarrow> Heartbeat \<Rightarrow> errno option \<times> Heartbeat" where
  "apply_evidence lib os wall tm sender batch h =
     (case membership_heartbeat lib (at os 2) (wall 1) (hb_members h) sender (tm 2) of
        (Some e, t) \<Rightarrow> (Some e, h\<lparr>hb_members := t\<rparr>)
      | (None, t) \<Rightarrow>
          (case apply_rumours lib (at os 3) (\<lambda>k. tm (3 + k)) 0 batch (h\<lparr>hb_members := t\<rparr>) of
             (Some e, h) \<Rightarrow> (Some e, h)
           | (None, h) \<Rightarrow> heartbeat_checkpoint lib (at os 4) h))"

text \<open>A peer whose Super Peer is unknown to it or has a later incarnation has to join again.\<close>

definition note_reconnect :: "NodeID \<Rightarrow> SuperPeerMember \<Rightarrow> SuperPeerMember result \<Rightarrow> Heartbeat \<Rightarrow> Heartbeat" where
  "note_reconnect source sender known h =
     (if role (hb_local h) = NODE_ROLE_PEER \<and> role (member_node sender) = NODE_ROLE_SUPERPEER \<and> node_id_equal source (hb_home h) \<and>
         (case known of Inl _ \<Rightarrow> True | Inr m \<Rightarrow> incarnation m < incarnation sender)
      then h\<lparr>needs_reconnect := True\<rparr> else h)"

text \<open>The call sites are the search (0), a new sender (1) and those of the evidence.\<close>

definition apply_packet ::
  "lib \<Rightarrow> os \<Rightarrow> int \<Rightarrow> (nat \<Rightarrow> int) \<Rightarrow> (nat \<Rightarrow> int) \<Rightarrow> Heartbeat \<Rightarrow> byte list \<Rightarrow> NodeID \<Rightarrow> bool \<Rightarrow> errno option \<times> Heartbeat" where
  "apply_packet lib os pid wall tm h bytes source gossip =
     (case check_packet lib pid h bytes source gossip of Inl e \<Rightarrow> (Some e, h)
      | Inr (sender, batch) \<Rightarrow>
          (let known = superpeer_find_member (at os 0) (hb_members h) source;
               h = note_reconnect source sender known h in
           case (case known of Inl _ \<Rightarrow> admit_sender lib (at os 1) wall tm (hb_members h) source sender | Inr _ \<Rightarrow> (None, hb_members h)) of
             (Some e, t) \<Rightarrow> (Some e, h\<lparr>hb_members := t\<rparr>)
           | (None, t) \<Rightarrow> apply_evidence lib os wall tm sender batch (h\<lparr>hb_members := t\<rparr>)))"

text \<open>The bytes of a request; where the header says that there are none the pointer is null.\<close>

definition heartbeat_handle ::
  "lib \<Rightarrow> os \<Rightarrow> int \<Rightarrow> (nat \<Rightarrow> int) \<Rightarrow> (nat \<Rightarrow> int) \<Rightarrow> Heartbeat \<Rightarrow> message \<Rightarrow> (byte \<times> byte list) result \<times> Heartbeat" where
  "heartbeat_handle lib os pid wall tm h request =
     (let hd = message_header request; type = message_type hd; gossip = (type = m_type M_GOSSIP) in
      if destination_node hd \<noteq> id_of (hb_local h) \<or> (type \<noteq> m_type M_HEARTBEAT \<and> type \<noteq> m_type M_GOSSIP) then (Inl EACCES, h)
      else if gossip \<and> role (hb_local h) \<noteq> NODE_ROLE_SUPERPEER then (Inl ENOTSUP, h)
      else case apply_packet lib (at os 0) pid wall tm h (payload_bytes request) (source_node hd) gossip of
          (Some e, h) \<Rightarrow> (Inl e, h)
        | (None, h) \<Rightarrow>
            (let (r, h) = encode_packet lib (at os 1) h gossip in
             (case r of Inl e \<Rightarrow> Inl e | Inr bytes \<Rightarrow> Inr (type, bytes), h)))"

section \<open>Members that join and neighbours that are found\<close>

text \<open>The call sites are the registration (0) and the ledger (1).\<close>

definition heartbeat_register :: "lib \<Rightarrow> os \<Rightarrow> (nat \<Rightarrow> int) \<Rightarrow> (nat \<Rightarrow> int) \<Rightarrow> Heartbeat \<Rightarrow> Node \<Rightarrow> u64 \<Rightarrow> errno option \<times> Heartbeat" where
  "heartbeat_register lib os wall tm h n inc =
     (case membership_register lib (at os 0) (wall 0) (tm 1) (hb_members h) n (id_of (hb_local h)) inc (tm 0) of
        (Inl e, t) \<Rightarrow> (Some e, h\<lparr>hb_members := t\<rparr>)
      | (Inr _, t) \<Rightarrow> heartbeat_checkpoint lib (at os 1) (h\<lparr>hb_members := t\<rparr>))"

text \<open>The call sites are the snapshot (0) and the registration (1).\<close>

definition heartbeat_discover :: "lib \<Rightarrow> os \<Rightarrow> int \<Rightarrow> (nat \<Rightarrow> int) \<Rightarrow> (nat \<Rightarrow> int) \<Rightarrow> Heartbeat \<Rightarrow> NodeConfig \<Rightarrow> errno option \<times> Heartbeat" where
  "heartbeat_discover lib os pid wall tm h c =
     (case node_init lib pid c of Inl _ \<Rightarrow> (Some EINVAL, h)
      | Inr n \<Rightarrow>
          (let n = n\<lparr>role := NODE_ROLE_SUPERPEER\<rparr> in
           if node_id_equal (id_of n) (id_of (hb_local h)) then (None, h)
           else case membership_snapshot (at os 0) (hb_members h) of Inl e \<Rightarrow> (Some e, h)
           | Inr all \<Rightarrow>
               if list_ex (\<lambda>m. node_id_equal (member_id m) (id_of n)) all then (None, h)
               else (case membership_register lib (at os 1) (wall 0) (tm 1) (hb_members h) n (id_of n) 0 (tm 0) of
                       (Inl e, t) \<Rightarrow> (Some e, h\<lparr>hb_members := t\<rparr>)
                     | (Inr _, t) \<Rightarrow> (None, h\<lparr>hb_members := t\<rparr>))))"

definition heartbeat_peer_target :: "lib \<Rightarrow> os \<Rightarrow> int \<Rightarrow> (nat \<Rightarrow> int) \<Rightarrow> (nat \<Rightarrow> int) \<Rightarrow> Heartbeat \<Rightarrow> NodeConfig \<Rightarrow> errno option \<times> Heartbeat" where
  "heartbeat_peer_target lib os pid wall tm h c =
     (case heartbeat_discover lib os pid wall tm h c of (Some e, h) \<Rightarrow> (Some e, h)
      | (None, h) \<Rightarrow>
          (case node_compute_id lib c of Inl e \<Rightarrow> (Some e, h\<lparr>can_reconnect := True\<rparr>)
           | Inr i \<Rightarrow> (None, h\<lparr>hb_home := i, can_reconnect := True\<rparr>)))"

section \<open>The queue of control jobs\<close>

definition enqueue :: "Heartbeat \<Rightarrow> SuperPeerMember \<Rightarrow> bool \<Rightarrow> Heartbeat" where
  "enqueue h target gossip =
     (let same = (\<lambda>job. node_id_equal (member_id (job_target job)) (member_id target));
          duplicate = (list_ex same (jobs h) \<or> list_ex (\<lambda>a. case a of None \<Rightarrow> False | Some job \<Rightarrow> same job) (active_jobs h)) in
      if \<not> hb_stop h \<and> \<not> duplicate \<and> length (jobs h) < CONTROL_QUEUE
      then h\<lparr>jobs := jobs h @ [\<lparr>job_target = target, job_gossip = gossip\<rparr>]\<rparr> else h)"

text \<open>The two locked sections of a worker in slot \<open>j\<close>: taking the first job, and being done with it.\<close>

definition take_job :: "nat \<Rightarrow> Heartbeat \<Rightarrow> ControlJob option \<times> Heartbeat" where
  "take_job j h =
     (if hb_stop h \<or> jobs h = [] then (None, h)
      else (Some (hd (jobs h)), h\<lparr>jobs := tl (jobs h), active_jobs := (active_jobs h)[j := Some (hd (jobs h))]\<rparr>))"

definition end_job :: "nat \<Rightarrow> Heartbeat \<Rightarrow> Heartbeat" where
  "end_job j h = h\<lparr>active_jobs := (active_jobs h)[j := None]\<rparr>"

definition heartbeat_stop :: "Heartbeat \<Rightarrow> Heartbeat" where
  "heartbeat_stop h = h\<lparr>hb_stop := True, jobs := []\<rparr>"

text \<open>
  A job, section by section. \<open>rpc\<close> is the remote call, given the type and the bytes of the request; \<open>reconnect\<close> is the call back of a
  peer, which joins its Super Peer again. The second component of \<open>job_answer\<close> is whether the remote node refused.
\<close>

definition job_answer ::
  "lib \<Rightarrow> os \<Rightarrow> int \<Rightarrow> (nat \<Rightarrow> int) \<Rightarrow> (nat \<Rightarrow> int) \<Rightarrow> Heartbeat \<Rightarrow> ControlJob \<Rightarrow> message \<Rightarrow> bool \<times> bool \<times> Heartbeat" where
  "job_answer lib os pid wall tm h job response =
     (let type = message_type (message_header response); rejected = (type = m_type M_ERROR);
          (r, h) = (if type = m_type (if job_gossip job then M_GOSSIP else M_HEARTBEAT)
             then apply_packet lib (at os 0) pid wall tm h (payload_bytes response) (member_id (job_target job)) (job_gossip job)
             else (Some (EOTHER 0), h));
          h = (if rejected then snd (advance_epoch (at os 1) h) else h) in
      (r = None, rejected, h))"

definition job_reconnects :: "os \<Rightarrow> (Heartbeat \<Rightarrow> bool \<times> Heartbeat) \<Rightarrow> bool \<Rightarrow> bool \<Rightarrow> Heartbeat \<Rightarrow> Heartbeat" where
  "job_reconnects os reconnect ok rejected h =
     (let (ok, h) = (if \<not> ok \<and> \<not> rejected then (case advance_epoch os h of (r, h) \<Rightarrow> (r = None, h)) else (ok, h)) in
      if rejected \<or> ok then (let (done, h) = reconnect h in h\<lparr>needs_reconnect := \<not> done\<rparr>) else h)"

definition execute_job ::
  "lib \<Rightarrow> os \<Rightarrow> int \<Rightarrow> (nat \<Rightarrow> int) \<Rightarrow> (nat \<Rightarrow> int) \<Rightarrow> (byte \<Rightarrow> byte list \<Rightarrow> message option) \<Rightarrow> (Heartbeat \<Rightarrow> bool \<times> Heartbeat) \<Rightarrow>
   Heartbeat \<Rightarrow> ControlJob \<Rightarrow> Heartbeat" where
  "execute_job lib os pid wall tm rpc reconnect h job =
     (let (r, h) = encode_packet lib (at os 0) h (job_gossip job);
          response = (case r of Inl _ \<Rightarrow> None | Inr bytes \<Rightarrow> rpc (m_type (if job_gossip job then M_GOSSIP else M_HEARTBEAT)) bytes);
          (ok, rejected, h) = (case response of None \<Rightarrow> (False, False, h) | Some m \<Rightarrow> job_answer lib (at os 1) pid wall tm h job m);
          m = job_target job;
          h = (if \<not> ok then h\<lparr>hb_members := snd (membership_probe (at os 2) (hb_members h) (member_id m) (incarnation m) (member_sequence m) (tm 100) False)\<rparr>
               else h) in
      if (\<not> ok \<or> needs_reconnect h) \<and> can_reconnect h \<and> role (hb_local h) = NODE_ROLE_PEER \<and> \<not> job_gossip job
      then job_reconnects (at os 3) reconnect ok rejected h else h)"

section \<open>The scheduler\<close>

text \<open>
  The members that have failed since the last look, for each of which the failure call back is made, and the state after it. The call
  sites are the snapshots (0, 2), the tick (1) and the ledger (3).
\<close>

definition newly_failed :: "SuperPeerMember list \<Rightarrow> SuperPeerMember list \<Rightarrow> SuperPeerMember list" where
  "newly_failed before after =
     filter (\<lambda>m. SUPERPEER_MEMBER_FAILED \<le> member_state m \<and>
       \<not> list_ex (\<lambda>b. node_id_equal (member_id b) (member_id m) \<and> SUPERPEER_MEMBER_FAILED \<le> member_state b) before) after"

definition evaluate :: "lib \<Rightarrow> os \<Rightarrow> int \<Rightarrow> Heartbeat \<Rightarrow> SuperPeerMember list \<times> Heartbeat" where
  "evaluate lib os now h =
     (case membership_snapshot (at os 0) (hb_members h) of Inl _ \<Rightarrow> ([], h)
      | Inr before \<Rightarrow>
          (case membership_tick (at os 1) (hb_members h) now (hb_suspect h) (hb_failed h) (hb_removed h) of
             (Some _, t) \<Rightarrow> ([], h\<lparr>hb_members := t\<rparr>)
           | (None, t) \<Rightarrow>
               (let h = h\<lparr>hb_members := t\<rparr> in
                case membership_snapshot (at os 2) t of Inl _ \<Rightarrow> ([], h)
                | Inr after \<Rightarrow> (newly_failed before after, snd (heartbeat_checkpoint lib (at os 3) h)))))"

text \<open>The loop over the members, in the order in which it visits them; \<open>fanout\<close> counts the gossip requests.\<close>

fun schedule_members :: "int \<Rightarrow> bool \<Rightarrow> nat \<Rightarrow> SuperPeerMember list \<Rightarrow> Heartbeat \<Rightarrow> Heartbeat" where
  "schedule_members now periodic fanout [] h = h"
| "schedule_members now periodic fanout (m # ms) h =
     (if node_id_equal (member_id m) (id_of (hb_local h)) then schedule_members now periodic fanout ms h
      else if role (hb_local h) = NODE_ROLE_PEER
      then schedule_members now periodic fanout ms (if node_id_equal (member_id m) (hb_home h) \<and> periodic then enqueue h m False else h)
      else
        let neighbour = role (member_node m) = NODE_ROLE_SUPERPEER;
            (h, fanout) =
              (if local_registration m \<and> member_state m = SUPERPEER_MEMBER_SUSPECT \<and> 1000 \<le> now - probe_ms m then (enqueue h m False, fanout)
               else if periodic \<and> neighbour \<and> member_state m < SUPERPEER_MEMBER_FAILED
               then (enqueue h m (fanout < 3), if fanout < 3 then fanout + 1 else fanout)
               else (h, fanout));
            h = (if periodic \<and> neighbour \<and> SUPERPEER_MEMBER_FAILED \<le> member_state m then enqueue h m False else h) in
        schedule_members now periodic fanout ms h)"

text \<open>One round of the loop: who has failed, when the next period starts, and the state with the jobs that were queued.\<close>

definition schedule_round :: "lib \<Rightarrow> os \<Rightarrow> (nat \<Rightarrow> int) \<Rightarrow> int \<Rightarrow> Heartbeat \<Rightarrow> SuperPeerMember list \<times> int \<times> Heartbeat" where
  "schedule_round lib os tm next_period h =
     (let (reported, h) = evaluate lib (at os 0) (tm 0) h;
          now = tm 1; periodic = (next_period \<le> now);
          h = (case membership_snapshot (at os 1) (hb_members h) of Inl _ \<Rightarrow> h
             | Inr ms \<Rightarrow>
                 (let total = length ms;
                      h = schedule_members now periodic 0 (map (\<lambda>k. ms ! ((neighbor_cursor h + k) mod total)) [0..<total]) h in
                  if total \<noteq> 0 \<and> periodic then h\<lparr>neighbor_cursor := (neighbor_cursor h + 3) mod total\<rparr> else h)) in
      (reported, if periodic then now + int (hb_interval h) else next_period, h))"

section \<open>Creation\<close>

definition setting :: "byte list option \<Rightarrow> nat \<Rightarrow> nat result" where
  "setting text fallback = (case text of None \<Rightarrow> Inr fallback | Some v \<Rightarrow> (case number_in 100 3600000 v of None \<Rightarrow> Inl EINVAL | Some n \<Rightarrow> Inr n))"

record control_settings =
  set_interval :: nat
  set_suspect :: nat
  set_failed :: nat
  set_removed :: nat
  set_budget :: nat

text \<open>The five variables of the environment and the conditions on their values.\<close>

definition read_settings :: "(string \<Rightarrow> byte list option) \<Rightarrow> control_settings option" where
  "read_settings getenv =
     (case (setting (getenv ''C3_HEARTBEAT_MS'') 5000, setting (getenv ''C3_SUSPECT_MS'') 15000, setting (getenv ''C3_FAILED_MS'') 20000,
            setting (getenv ''C3_REMOVED_MS'') 30000, setting (getenv ''C3_RPC_MS'') 1000) of
        (Inr i, Inr s, Inr f, Inr r, Inr b) \<Rightarrow>
          if s \<le> i \<or> f \<le> s \<or> r \<le> f \<or> s \<le> b then None
          else Some \<lparr>set_interval = i, set_suspect = s, set_failed = f, set_removed = r, set_budget = b\<rparr>
      | _ \<Rightarrow> None)"

text \<open>
  The table is that of the Super Peer, or a new one with only the local node. The result comes with the epoch file. The call
  sites are the allocation (0), the table (1), the two mutexes and the condition variable (2 to 4), the epoch (5), the ledger (6) and the
  record of the node (7).
\<close>

definition heartbeat_create ::
  "lib \<Rightarrow> os \<Rightarrow> int \<Rightarrow> int \<Rightarrow> int \<Rightarrow> (string \<Rightarrow> byte list option) \<Rightarrow> Node \<Rightarrow> SuperPeer option \<Rightarrow> nat \<Rightarrow> byte list option \<Rightarrow> byte list option \<Rightarrow>
   Heartbeat result \<times> byte list option" where
  "heartbeat_create lib os pid wall clock getenv n shared directory_length epoch ledger =
     (case fault (at os 0) of Some e \<Rightarrow> (Inl e, epoch)
      | None \<Rightarrow>
          (case read_settings getenv of
             None \<Rightarrow> (Inl EINVAL, epoch)
           | Some cs \<Rightarrow>
               if 600 \<le> directory_length + 15 \<or> 600 \<le> directory_length + 17 then (Inl EINVAL, epoch)
               else case (case shared of Some t \<Rightarrow> Inr t
                   | None \<Rightarrow> superpeer_create lib (at os 1) pid wall clock \<lparr>superpeer_node = config n, initial_member_capacity = 0\<rparr>) of
                 Inl e \<Rightarrow> (Inl e, epoch)
               | Inr t \<Rightarrow>
                   (case List.find (\<lambda>k. fault (at os k) \<noteq> None) [2, 3, 4] of
                      Some k \<Rightarrow> (Inl (the (fault (at os k))), epoch)
                    | None \<Rightarrow>
                        (let h = \<lparr>hb_local = n, hb_members = t, hb_incarnation = 0, hb_sequence = 0, hb_home = id_of n, can_reconnect = False,
                               hb_interval = set_interval cs, hb_suspect = set_suspect cs, hb_failed = set_failed cs, hb_removed = set_removed cs,
                               hb_budget = set_budget cs, cursor = 0, neighbor_cursor = 0, hb_stop = False, needs_reconnect = False, jobs = [],
                               active_jobs = replicate CONTROL_WORKERS None, epoch_file = epoch, ledger_file = ledger,
                               ledger_path_length = directory_length + 15\<rparr> in
                         case advance_epoch (at os 5) h of (Some e, h) \<Rightarrow> (Inl e, epoch_file h)
                         | (None, h) \<Rightarrow>
                             (case membership_load lib (at os 6) pid clock (hb_members h) ledger of
                                (Some e, t) \<Rightarrow> (Inl e, epoch_file h)
                              | (None, t) \<Rightarrow>
                                  (case membership_local (at os 7) t n (hb_incarnation h) 0 of
                                     (Some e, t) \<Rightarrow> (Inl e, epoch_file h)
                                   | (None, t) \<Rightarrow> (Inr (h\<lparr>hb_members := t\<rparr>), epoch_file h)))))))"

end
