(* ===== verification/Heartbeat_Safety.thy ===== *)
theory Heartbeat_Safety
  imports Heartbeat
begin

text \<open>
  What the detector guarantees: the records that a node publishes grow, across restarts too, as long as the epochs that it takes
  over are saved; its operations change the table of members only by the steps of that table; a heartbeat refreshes the table of its receiver;
  every failure is reported once.
\<close>

section \<open>Epochs\<close>

definition epoch_on_disk :: "byte list option \<Rightarrow> u64" where
  "epoch_on_disk f = (case f of None \<Rightarrow> 0 | Some bytes \<Rightarrow> wire_get_u64 bytes)"

definition epoch_file_ok :: "byte list option \<Rightarrow> bool" where
  "epoch_file_ok f \<longleftrightarrow> (case f of None \<Rightarrow> True | Some bytes \<Rightarrow> length bytes = 8)"

lemma save_epoch_file: "save_epoch os bytes f = (r, f') \<Longrightarrow> (f' = f \<and> r \<noteq> None) \<or> f' = Some bytes"
  by (auto simp: save_epoch_def Let_def split: option.splits dest: sym)

lemma read_epoch_Inr:
  assumes "read_epoch os old f = Inr v" "epoch_file_ok f"
  shows "v = max old (epoch_on_disk f)"
proof (cases f)
  case None
  then show ?thesis using assms(1) by (auto simp: read_epoch_def epoch_on_disk_def split: option.splits if_splits)
next
  case (Some bytes)
  then obtain got where got: "read_once (at os 3) 8 bytes = Some got" "length got = 8" "v = max old (wire_get_u64 got)"
    using assms(1) by (auto simp: read_epoch_def split: option.splits if_splits)
  have "got = bytes"
    using got(1,2) assms(2) Some by (auto simp: read_once_def epoch_file_ok_def split: list.splits answer.splits)
  then show ?thesis using Some got(3) by (simp add: epoch_on_disk_def)
qed

lemma word_succ_greater: "(x :: u64) \<noteq> - 1 \<Longrightarrow> x < x + 1"
proof -
  assume "x \<noteq> - 1"
  then have "1 + x \<noteq> 0" by (metis add.commute eq_neg_iff_add_eq_0)
  then show ?thesis by (simp add: word_less_nat_alt add.commute [of x] unatSuc)
qed

text \<open>In any environment, either the node has a later epoch that is on disk, or it keeps its own and the disk has the old one or a later one.\<close>

lemma advance_epoch_cases:
  assumes "advance_epoch os h = (r, h')" "epoch_file_ok (epoch_file h)"
  obtains (advanced) v where "r = None" "hb_incarnation h < v" "epoch_on_disk (epoch_file h) < v"
      "h' = h\<lparr>epoch_file := Some (wire_put_u64 v), hb_incarnation := v, hb_sequence := 0\<rparr>"
    | (kept) "r \<noteq> None" "h' = h"
    | (saved) v where "r \<noteq> None" "hb_incarnation h < v" "epoch_on_disk (epoch_file h) < v" "h' = h\<lparr>epoch_file := Some (wire_put_u64 v)\<rparr>"
proof (cases "fault (at os 0) = None \<and> fault (at os 1) = None")
  case False
  then show ?thesis using assms(1) kept by (auto simp: advance_epoch_def split: option.splits dest: sym)
next
  case True
  show ?thesis
  proof (cases "read_epoch os (hb_incarnation h) (epoch_file h)")
    case (Inl e)
    then show ?thesis using assms(1) True kept by (auto simp: advance_epoch_def)
  next
    case (Inr old)
    note v = read_epoch_Inr [OF Inr assms(2)]
    show ?thesis
    proof (cases "old = - 1")
      case o: True
      then show ?thesis using assms(1) True Inr kept by (auto simp: advance_epoch_def)
    next
      case o: False
      then have g: "hb_incarnation h < old + 1" "epoch_on_disk (epoch_file h) < old + 1"
        using word_succ_greater [OF o] v by (auto intro: le_less_trans)
      obtain q f where q: "save_epoch os (wire_put_u64 (old + 1)) (epoch_file h) = (q, f)" by fastforce
      have h': "r = q" "h' = (if q = None then h\<lparr>epoch_file := f, hb_incarnation := old + 1, hb_sequence := 0\<rparr> else h\<lparr>epoch_file := f\<rparr>)"
        using assms(1) True Inr o q by (auto simp: advance_epoch_def Let_def)
      from save_epoch_file [OF q] show ?thesis
      proof
        assume "f = epoch_file h \<and> q \<noteq> None"
        moreover have "h\<lparr>epoch_file := epoch_file h\<rparr> = h" by simp
        ultimately show ?thesis using h' kept by auto
      next
        assume f: "f = Some (wire_put_u64 (old + 1))"
        show ?thesis
        proof (cases q)
          case None
          show ?thesis by (rule advanced [of "old + 1"]) (use None h' g f in simp_all)
        next
          case (Some e)
          show ?thesis by (rule saved [of "old + 1"]) (use Some h' g f in simp_all)
        qed
      qed
    qed
  qed
qed

lemma put_epoch [simp]: "epoch_file_ok (Some (wire_put_u64 v))" "epoch_on_disk (Some (wire_put_u64 v)) = v"
  using wire_get_put_u64 [of v "[]"] by (simp_all add: epoch_file_ok_def epoch_on_disk_def)

text \<open>The invariant of the node: the epoch that it uses is on disk.\<close>

definition epoch_inv :: "Heartbeat \<Rightarrow> bool" where
  "epoch_inv h \<longleftrightarrow> epoch_file_ok (epoch_file h) \<and> hb_incarnation h \<le> epoch_on_disk (epoch_file h)"

text \<open>The record that the node published last, as a pair that is compared lexicographically.\<close>

definition stamp :: "Heartbeat \<Rightarrow> u64 \<times> u64" where
  "stamp h = (hb_incarnation h, hb_sequence h)"

definition stamp_le :: "u64 \<times> u64 \<Rightarrow> u64 \<times> u64 \<Rightarrow> bool" where
  "stamp_le a b \<longleftrightarrow> fst a < fst b \<or> (fst a = fst b \<and> snd a \<le> snd b)"

definition stamp_less :: "u64 \<times> u64 \<Rightarrow> u64 \<times> u64 \<Rightarrow> bool" where
  "stamp_less a b \<longleftrightarrow> fst a < fst b \<or> (fst a = fst b \<and> snd a < snd b)"

lemma stamp_order:
  "stamp_le a a" "stamp_le a b \<Longrightarrow> stamp_le b c \<Longrightarrow> stamp_le a c" "stamp_le a b \<Longrightarrow> stamp_less b c \<Longrightarrow> stamp_less a c"
  "stamp_less a b \<Longrightarrow> stamp_le a b"
  by (auto simp: stamp_le_def stamp_less_def)

lemma advance_epoch_inv:
  assumes "advance_epoch os h = (r, h')" "epoch_inv h"
  shows "epoch_inv h'" "stamp_le (stamp h) (stamp h')" "r = None \<Longrightarrow> hb_incarnation h < hb_incarnation h'" "hb_members h' = hb_members h"
    "hb_local h' = hb_local h" "epoch_on_disk (epoch_file h) \<le> epoch_on_disk (epoch_file h')"
proof -
  have ok: "epoch_file_ok (epoch_file h)" using assms(2) by (simp add: epoch_inv_def)
  from assms(1) ok show "epoch_inv h'" "stamp_le (stamp h) (stamp h')" "r = None \<Longrightarrow> hb_incarnation h < hb_incarnation h'" "hb_members h' = hb_members h"
    "hb_local h' = hb_local h" "epoch_on_disk (epoch_file h) \<le> epoch_on_disk (epoch_file h')"
    by (cases rule: advance_epoch_cases; use assms(2) in \<open>auto simp: epoch_inv_def stamp_def stamp_le_def\<close>)+
qed

lemma advance_epoch_calm:
  assumes "epoch_file_ok (epoch_file h)" "hb_incarnation h \<noteq> - 1" "advance_epoch calm h = (r, h')"
  shows "epoch_inv h'" "stamp_le (stamp h) (stamp h')"
proof -
  have "read_once calm 8 b = Some (take 8 b)" "read_once calm 1 b = Some (take 1 b)" for b by (simp_all add: read_once_def)
  then have e: "read_epoch calm (hb_incarnation h) (epoch_file h) = Inr (max (hb_incarnation h) (epoch_on_disk (epoch_file h)))"
    using assms(1) by (cases "epoch_file h") (simp_all add: read_epoch_def epoch_on_disk_def epoch_file_ok_def)
  let ?old = "max (hb_incarnation h) (epoch_on_disk (epoch_file h))"
  have "epoch_inv h' \<and> stamp_le (stamp h) (stamp h')"
  proof (cases "?old = - 1")
    case True
    then have "epoch_on_disk (epoch_file h) = - 1" using assms(2) by (auto simp: max_def split: if_splits)
    moreover have "h' = h" using assms(3) e True by (simp add: advance_epoch_def)
    ultimately show ?thesis using assms(1) by (simp add: epoch_inv_def stamp_order(1))
  next
    case False
    have "save_epoch calm b f = (None, Some b)" for b f by (simp add: save_epoch_def write_once_def)
    then have h': "h' = h\<lparr>epoch_file := Some (wire_put_u64 (?old + 1)), hb_incarnation := ?old + 1, hb_sequence := 0\<rparr>"
      using assms(3) e False by (simp add: advance_epoch_def Let_def)
    have "hb_incarnation h < ?old + 1" using word_succ_greater [OF False] by (auto intro: le_less_trans)
    then show ?thesis by (simp add: h' epoch_inv_def stamp_def stamp_le_def)
  qed
  then show "epoch_inv h'" "stamp_le (stamp h) (stamp h')" by simp_all
qed

lemma local_record_stamp:
  assumes "local_record os h = (r, h')" "epoch_inv h"
  shows "epoch_inv h'" "stamp_le (stamp h) (stamp h')" "r = Inr m \<Longrightarrow> stamp_less (stamp h) (stamp h') \<and> m = self_record h'"
proof -
  obtain q g where q: "(if hb_sequence h = - 1 then advance_epoch (at os 0) h else (None, h)) = (q, g)" by fastforce
  let ?g = "g\<lparr>hb_sequence := hb_sequence g + 1\<rparr>"
  obtain x t where t: "membership_local (at os 1) (hb_members ?g) (hb_local ?g) (hb_incarnation ?g) (hb_sequence ?g) = (x, t)" by fastforce
  have r: "(r, h') = (case q of Some e \<Rightarrow> (Inl e, g) | None \<Rightarrow> (case x of Some e \<Rightarrow> Inl e | None \<Rightarrow> Inr (self_record (?g\<lparr>hb_members := t\<rparr>)), ?g\<lparr>hb_members := t\<rparr>))"
    using assms(1) q t by (cases q; cases x) (auto simp: local_record_def Let_def)
  have g: "epoch_inv g" "stamp_le (stamp h) (stamp g)" "q = None \<Longrightarrow> stamp_less (stamp h) (stamp ?g)"
  proof -
    show "epoch_inv g" "stamp_le (stamp h) (stamp g)"
      using q assms(2) advance_epoch_inv [of "at os 0" h q g] by (auto simp: stamp_order(1) split: if_splits)
    show "q = None \<Longrightarrow> stamp_less (stamp h) (stamp ?g)"
      using q assms(2) advance_epoch_inv(3) [of "at os 0" h q g] word_succ_greater [of "hb_sequence h"]
      by (auto simp: stamp_less_def stamp_def split: if_splits)
  qed
  have k: "epoch_inv (?g\<lparr>hb_members := t\<rparr>)" "stamp (?g\<lparr>hb_members := t\<rparr>) = stamp ?g" using g(1) by (simp_all add: epoch_inv_def stamp_def)
  show "epoch_inv h'" "stamp_le (stamp h) (stamp h')" "r = Inr m \<Longrightarrow> stamp_less (stamp h) (stamp h') \<and> m = self_record h'"
    using r g(1,2) g(3) [THEN stamp_order(4)] g(3) k by (cases q; cases x; simp)+
qed

lemma choose_rumours_state:
  assumes "choose_rumours h ms = (chosen, h')"
  shows "\<exists>c. h' = h\<lparr>cursor := c\<rparr>"
proof -
  have "h' = h \<or> (\<exists>c. h' = h\<lparr>cursor := c\<rparr>)" using assms by (simp add: choose_rumours_def Let_def split: if_splits) blast+
  moreover have "h = h\<lparr>cursor := cursor h\<rparr>" by simp
  ultimately show ?thesis by metis
qed

lemma encode_packet_state:
  assumes "encode_packet lib os h gossip = (r, h')" "local_record (at os 0) h = (q, g)"
  shows "\<exists>c. h' = g\<lparr>cursor := c\<rparr>" "r = Inr bytes \<Longrightarrow> \<exists>m. q = Inr m"
proof -
  have same: "\<exists>c. g = g\<lparr>cursor := c\<rparr>" by (rule exI [of _ "cursor g"]) simp
  have "(\<exists>c. h' = g\<lparr>cursor := c\<rparr>) \<and> (r = Inr bytes \<longrightarrow> (\<exists>m. q = Inr m))"
  proof (cases q)
    case (Inl e)
    have "(Inl e, g) = (r, h')" using assms(1) unfolding encode_packet_def assms(2) Inl prod.case sum.case .
    then show ?thesis using same by auto
  next
    case (Inr m)
    define snap where "snap = (if gossip then membership_snapshot (at os 1) (hb_members g) else Inr [])"
    note eq = assms(1) [unfolded encode_packet_def assms(2) Inr prod.case sum.case snap_def [symmetric]]
    show ?thesis
    proof (cases "(\<exists>e. snap = Inl e) \<or> fault (at os 2) \<noteq> None")
      case True
      then have "h' = g" using eq by (cases snap; cases "fault (at os 2)") simp_all
      then show ?thesis using same Inr by simp
    next
      case False
      then obtain ms where ms: "snap = Inr ms" "fault (at os 2) = None" by (cases snap) auto
      obtain chosen u where u: "(if gossip then choose_rumours g ms else ([], g)) = (chosen, u)" by fastforce
      have "h' = u" using eq [unfolded ms sum.case option.case u Let_def prod.case] by simp
      moreover have "\<exists>c. u = g\<lparr>cursor := c\<rparr>" using u same choose_rumours_state [of g ms chosen u] by (cases gossip) auto
      ultimately show ?thesis using Inr by simp
    qed
  qed
  then show "\<exists>c. h' = g\<lparr>cursor := c\<rparr>" "r = Inr bytes \<Longrightarrow> \<exists>m. q = Inr m" by blast+
qed

lemma encode_packet_stamp:
  assumes "encode_packet lib os h gossip = (r, h')" "epoch_inv h"
  shows "epoch_inv h'" "stamp_le (stamp h) (stamp h')" "r = Inr bytes \<Longrightarrow> stamp_less (stamp h) (stamp h')"
proof -
  obtain q g where q: "local_record (at os 0) h = (q, g)" by fastforce
  note l = local_record_stamp [OF q assms(2)]
  note c = encode_packet_state [OF assms(1) q]
  have "stamp h' = stamp g" "epoch_inv h' = epoch_inv g" using c(1) by (auto simp: epoch_inv_def stamp_def)
  then show "epoch_inv h'" "stamp_le (stamp h) (stamp h')" "r = Inr bytes \<Longrightarrow> stamp_less (stamp h) (stamp h')"
    using l c(2) by auto
qed

lemma apply_rumours_stamp:
  assumes "apply_rumours lib os tm k ms h = (r, h')" "epoch_inv h" "\<forall>j. at os j = calm" "list_all (\<lambda>m. incarnation m \<noteq> - 1) ms"
  shows "epoch_inv h' \<and> stamp_le (stamp h) (stamp h')"
  using assms
proof (induction ms arbitrary: k h)
  case Nil
  then show ?case by (simp add: stamp_order(1))
next
  case (Cons m ms)
  let ?doubt = "node_id_equal (member_id m) (id_of (hb_local h)) \<and> member_state m \<noteq> SUPERPEER_MEMBER_ALIVE \<and> hb_incarnation h \<le> incarnation m"
  let ?u = "h\<lparr>hb_incarnation := incarnation m\<rparr>"
  obtain q g where q: "(if ?doubt then advance_epoch (at os k) ?u
      else (let (r, t) = membership_merge lib (at os k) (tm k) (hb_members h) m in (r, h\<lparr>hb_members := t\<rparr>))) = (q, g)" by fastforce
  have g: "epoch_inv g \<and> stamp_le (stamp h) (stamp g)"
  proof (cases ?doubt)
    case True
    have "advance_epoch calm ?u = (q, g)" "epoch_file_ok (epoch_file ?u)" "hb_incarnation ?u \<noteq> - 1"
      using q True Cons.prems by (simp_all add: epoch_inv_def)
    then have "epoch_inv g" "stamp_le (stamp ?u) (stamp g)" using advance_epoch_calm by blast+
    moreover have "stamp_le (stamp h) (stamp ?u)" using True by (auto simp: stamp_def stamp_le_def)
    ultimately show ?thesis using stamp_order(2) by blast
  next
    case False
    then obtain t where "g = h\<lparr>hb_members := t\<rparr>" using q by (auto simp only: if_False Let_def split: prod.splits)
    then show ?thesis using Cons.prems(2) by (simp add: epoch_inv_def stamp_def stamp_order(1))
  qed
  have r: "(r, h') = (case q of Some e \<Rightarrow> (Some e, g) | None \<Rightarrow> apply_rumours lib os tm (Suc k) ms g)"
    using Cons.prems(1) q by (simp add: Let_def split: option.splits)
  show ?case
  proof (cases q)
    case None
    then have "apply_rumours lib os tm (Suc k) ms g = (r, h')" using r by simp
    moreover have "list_all (\<lambda>m. incarnation m \<noteq> - 1) ms" using Cons.prems(4) by simp
    ultimately have "epoch_inv h' \<and> stamp_le (stamp g) (stamp h')" using Cons.IH g Cons.prems(3) by blast
    then show ?thesis using g stamp_order(2) by blast
  next
    case (Some e)
    then show ?thesis using r g by simp
  qed
qed

lemma checkpoint_stamp: "stamp (snd (heartbeat_checkpoint lib os h)) = stamp h" "epoch_inv (snd (heartbeat_checkpoint lib os h)) = epoch_inv h"
  by (simp_all add: heartbeat_checkpoint_def stamp_def epoch_inv_def Let_def split: prod.split)

text \<open>A packet is applied with its refutations saved: the calls that save epochs do not fail, and no rumour names the last epoch there is.\<close>

definition refutations_saved :: "lib \<Rightarrow> os \<Rightarrow> int \<Rightarrow> Heartbeat \<Rightarrow> byte list \<Rightarrow> NodeID \<Rightarrow> bool \<Rightarrow> bool" where
  "refutations_saved lib os pid h bytes source gossip \<longleftrightarrow>
     (case check_packet lib pid h bytes source gossip of Inl _ \<Rightarrow> True
      | Inr (sender, batch) \<Rightarrow> (\<forall>j. at (at os 3) j = calm) \<and> list_all (\<lambda>m. incarnation m \<noteq> - 1) batch)"

text \<open>The state in which \<open>apply_packet\<close> leaves the node differs from that after the rumours only in table, ledger and flag.\<close>

lemma apply_packet_cases:
  assumes "apply_packet lib os pid wall tm h bytes source gossip = (r, h')"
  obtains (refused) e where "check_packet lib pid h bytes source gossip = Inl e" "r = Some e" "h' = h"
    | (early) sender batch t b where "check_packet lib pid h bytes source gossip = Inr (sender, batch)" "r \<noteq> None"
        "h' = h\<lparr>needs_reconnect := b, hb_members := t\<rparr>"
    | (rumours) sender batch t b q g where "check_packet lib pid h bytes source gossip = Inr (sender, batch)"
        "apply_rumours lib (at os 3) (\<lambda>k. tm (3 + k)) 0 batch (h\<lparr>needs_reconnect := b, hb_members := t\<rparr>) = (q, g)"
        "(r, h') = (case q of Some e \<Rightarrow> (Some e, g) | None \<Rightarrow> heartbeat_checkpoint lib (at os 4) g)"
proof (cases "check_packet lib pid h bytes source gossip")
  case (Inl e)
  show ?thesis by (rule refused [OF Inl]) (use assms Inl in \<open>simp_all add: apply_packet_def\<close>)
next
  case (Inr p)
  obtain sender batch where p: "p = (sender, batch)" by (cases p)
  define known where "known = superpeer_find_member (at os 0) (hb_members h) source"
  define g0 where "g0 = note_reconnect source sender known h"
  obtain b where b: "g0 = h\<lparr>needs_reconnect := b\<rparr>"
  proof (cases "g0 = h")
    case True
    show ?thesis by (rule that [of "needs_reconnect h"]) (simp add: True)
  next
    case False
    show ?thesis by (rule that [of True]) (use False in \<open>simp add: g0_def note_reconnect_def split: if_splits\<close>)
  qed
  obtain x t where t: "(case known of Inl _ \<Rightarrow> admit_sender lib (at os 1) wall tm (hb_members g0) source sender | Inr _ \<Rightarrow> (None, hb_members g0)) = (x, t)"
    by fastforce
  have eq: "(case x of Some e \<Rightarrow> (Some e, g0\<lparr>hb_members := t\<rparr>) | None \<Rightarrow> apply_evidence lib os wall tm sender batch (g0\<lparr>hb_members := t\<rparr>)) = (r, h')"
    using assms unfolding apply_packet_def Inr p sum.case prod.case Let_def known_def [symmetric] g0_def [symmetric] t .
  obtain y u where u: "membership_heartbeat lib (at os 2) (wall 1) (hb_members (g0\<lparr>hb_members := t\<rparr>)) sender (tm 2) = (y, u)" by fastforce
  show ?thesis
  proof (cases x)
    case (Some e)
    show ?thesis by (rule early [where sender = sender and batch = batch and b = b and t = t]) (use eq Some Inr p b in auto)
  next
    case x: None
    note ev = eq [unfolded x option.case apply_evidence_def u prod.case]
    show ?thesis
    proof (cases y)
      case (Some e)
      show ?thesis by (rule early [where sender = sender and batch = batch and b = b and t = u]) (use ev Some Inr p b in auto)
    next
      case None
      obtain q g where q: "apply_rumours lib (at os 3) (\<lambda>k. tm (3 + k)) 0 batch (g0\<lparr>hb_members := t, hb_members := u\<rparr>) = (q, g)" by fastforce
      have "(case q of Some e \<Rightarrow> (Some e, g) | None \<Rightarrow> heartbeat_checkpoint lib (at os 4) g) = (r, h')"
        using ev [unfolded None option.case q prod.case] .
      then show ?thesis by (intro rumours [where sender = sender and batch = batch and b = b and t = u and q = q and g = g]) (use q Inr p b in simp_all)
    qed
  qed
qed

lemma apply_packet_stamp:
  assumes "apply_packet lib os pid wall tm h bytes source gossip = (r, h')" "epoch_inv h" "refutations_saved lib os pid h bytes source gossip"
  shows "epoch_inv h' \<and> stamp_le (stamp h) (stamp h')"
  using assms(1)
proof (cases rule: apply_packet_cases)
  case (refused e)
  then show ?thesis using assms(2) stamp_order(1) by simp
next
  case (early sender batch t b)
  then show ?thesis using assms(2) stamp_order(1) by (simp add: epoch_inv_def stamp_def)
next
  case (rumours sender batch t b q g)
  let ?h = "h\<lparr>needs_reconnect := b, hb_members := t\<rparr>"
  have "epoch_inv ?h" "stamp ?h = stamp h" using assms(2) by (simp_all add: epoch_inv_def stamp_def)
  moreover have "\<forall>j. at (at os 3) j = calm" "list_all (\<lambda>m. incarnation m \<noteq> - 1) batch"
    using assms(3) rumours(1) by (simp_all add: refutations_saved_def)
  ultimately have "epoch_inv g \<and> stamp_le (stamp h) (stamp g)" using apply_rumours_stamp [OF rumours(2)] by simp
  moreover have "h' = g \<or> h' = snd (heartbeat_checkpoint lib (at os 4) g)" using rumours(3) by (cases q) (auto simp: prod_eq_iff)
  ultimately show ?thesis using checkpoint_stamp [of lib "at os 4" g] by auto
qed

lemma encode_packet_carries:
  assumes "encode_packet lib os h gossip = (Inr bytes, h')"
  shows "\<exists>rest. bytes = 1 # record_of_member (self_record h') @ rest"
proof -
  obtain q g where q: "local_record (at os 0) h = (q, g)" by fastforce
  obtain m where m: "q = Inr m" using encode_packet_state(2) [OF assms q] by blast
  have g: "m = self_record g" using q m by (auto simp: local_record_def Let_def split: option.splits prod.splits if_splits)
  obtain c where c: "h' = g\<lparr>cursor := c\<rparr>" using encode_packet_state(1) [OF assms q] by blast
  define snap where "snap = (if gossip then membership_snapshot (at os 1) (hb_members g) else Inr [])"
  note eq = assms [unfolded encode_packet_def q m prod.case sum.case snap_def [symmetric]]
  obtain ms where ms: "snap = Inr ms" "fault (at os 2) = None" using eq by (cases snap; cases "fault (at os 2)") auto
  obtain chosen u where u: "(if gossip then choose_rumours g ms else ([], g)) = (chosen, u)" by fastforce
  have "packet_bytes lib gossip m chosen = Inr bytes" using eq [unfolded ms sum.case option.case u Let_def prod.case] by simp
  moreover have "self_record h' = self_record g" by (simp add: c self_record_def)
  ultimately show ?thesis using g by (auto simp: packet_bytes_def gossip_encode_record_def split: sum.splits if_splits)
qed

lemma create_epoch:
  assumes "heartbeat_create lib os pid wall clock env n shared len epoch ledger = (x, f)" "epoch_file_ok epoch"
  shows "epoch_file_ok f" "epoch_on_disk epoch \<le> epoch_on_disk f"
    "x = Inr h \<Longrightarrow> epoch_inv h \<and> epoch_file h = f \<and> epoch_on_disk epoch < hb_incarnation h"
proof -
  have "(f = epoch \<and> (\<forall>h. x \<noteq> Inr h)) \<or> (\<exists>os' g r g'. epoch_file g = epoch \<and> hb_incarnation g = 0 \<and> advance_epoch os' g = (r, g') \<and> f = epoch_file g' \<and>
      (\<forall>h. x = Inr h \<longrightarrow> r = None \<and> (\<exists>t. h = g'\<lparr>hb_members := t\<rparr>)))"
  proof (cases "fault (at os 0)")
    case (Some e)
    then show ?thesis using assms(1) by (auto simp: heartbeat_create_def)
  next
    case n0: None
    show ?thesis
    proof (cases "read_settings env")
      case None
      then show ?thesis using assms(1) n0 by (auto simp: heartbeat_create_def)
    next
      case (Some cs)
      define table where "table = (case shared of Some t \<Rightarrow> Inr t
        | None \<Rightarrow> superpeer_create lib (at os 1) pid wall clock \<lparr>superpeer_node = config n, initial_member_capacity = 0\<rparr>)"
      define bad where "bad = (600 \<le> len + 15 \<or> 600 \<le> len + 17)"
      define sites where "sites = List.find (\<lambda>k. fault (at os k) \<noteq> None) [2, 3, 4]"
      note eq = assms(1) [unfolded heartbeat_create_def n0 Some option.case table_def [symmetric] bad_def [symmetric] sites_def [symmetric]]
      show ?thesis
      proof (cases "bad \<or> (\<exists>e. table = Inl e) \<or> sites \<noteq> None")
        case True
        then show ?thesis using eq by (cases table; cases sites) (auto split: if_splits)
      next
        case False
        then obtain t where t: "table = Inr t" "sites = None" "\<not> bad" by (cases table) auto
        define g where "g = \<lparr>hb_local = n, hb_members = t, hb_incarnation = 0, hb_sequence = 0, hb_home = id_of n, can_reconnect = False,
           hb_interval = set_interval cs, hb_suspect = set_suspect cs, hb_failed = set_failed cs, hb_removed = set_removed cs,
           hb_budget = set_budget cs, cursor = 0, neighbor_cursor = 0, hb_stop = False, needs_reconnect = False, jobs = [],
           active_jobs = replicate CONTROL_WORKERS None, epoch_file = epoch, ledger_file = ledger, ledger_path_length = len + 15\<rparr>"
        obtain r g' where r: "advance_epoch (at os 5) g = (r, g')" by fastforce
        note eq2 = eq [unfolded t(1,2) sum.case option.case if_not_P [OF t(3)] Let_def g_def [symmetric] r prod.case]
        have "f = epoch_file g' \<and> (\<forall>h. x = Inr h \<longrightarrow> r = None \<and> (\<exists>t. h = g'\<lparr>hb_members := t\<rparr>))"
        proof (cases r)
          case (Some e)
          then show ?thesis using eq2 by auto
        next
          case None
          note eq3 = eq2 [unfolded None option.case]
          obtain a u where u: "membership_load lib (at os 6) pid clock (hb_members g') ledger = (a, u)" by fastforce
          obtain b v where v: "membership_local (at os 7) u n (hb_incarnation g') 0 = (b, v)" by fastforce
          show ?thesis using eq3 [unfolded u prod.case v] None by (cases a; cases b) auto
        qed
        moreover have "epoch_file g = epoch" "hb_incarnation g = 0" by (simp_all add: g_def)
        ultimately show ?thesis using r by blast
      qed
    qed
  qed
  then consider "f = epoch" "\<forall>h. x \<noteq> Inr h"
    | os' g r g' where "epoch_file g = epoch" "hb_incarnation g = 0" "advance_epoch os' g = (r, g')" "f = epoch_file g'"
        "\<forall>h. x = Inr h \<longrightarrow> r = None \<and> (\<exists>t. h = g'\<lparr>hb_members := t\<rparr>)" by blast
  then have "epoch_file_ok f \<and> epoch_on_disk epoch \<le> epoch_on_disk f \<and> (x = Inr h \<longrightarrow> epoch_inv h \<and> epoch_file h = f \<and> epoch_on_disk epoch < hb_incarnation h)"
  proof cases
    case 1
    then show ?thesis using assms(2) by simp
  next
    case (2 os' g r g')
    have g: "epoch_file_ok (epoch_file g)" "epoch_inv g" using 2(1,2) assms(2) by (simp_all add: epoch_inv_def)
    from 2(3) g(1) show ?thesis
      by (cases rule: advance_epoch_cases) (use 2(1,2,4,5) assms(2) g in \<open>auto simp: epoch_inv_def\<close>)
  qed
  then show "epoch_file_ok f" "epoch_on_disk epoch \<le> epoch_on_disk f"
    "x = Inr h \<Longrightarrow> epoch_inv h \<and> epoch_file h = f \<and> epoch_on_disk epoch < hb_incarnation h" by blast+
qed

section \<open>The records that a node publishes\<close>

text \<open>
  The life of a node: the records of itself that it has put into packets since it first started, in order, and its state. It
  sends, receives, takes a new epoch after a refusal, and is started again on the files that it left, in any environment.
\<close>

inductive life :: "lib \<Rightarrow> SuperPeerMember list \<Rightarrow> Heartbeat \<Rightarrow> bool" for lib where
  starts: "heartbeat_create lib os pid wall clock env n shared len None ledger = (Inr h, f) \<Longrightarrow> life lib [] h"
| sends: "life lib ps h \<Longrightarrow> encode_packet lib os h gossip = (Inr bytes, h') \<Longrightarrow> life lib (ps @ [self_record h']) h'"
| send_fails: "life lib ps h \<Longrightarrow> encode_packet lib os h gossip = (Inl e, h') \<Longrightarrow> life lib ps h'"
| receives: "life lib ps h \<Longrightarrow> apply_packet lib os pid wall' tm h bytes source gossip = (r, h') \<Longrightarrow>
    refutations_saved lib os pid h bytes source gossip \<Longrightarrow> life lib ps h'"
| advances: "life lib ps h \<Longrightarrow> advance_epoch os h = (r, h') \<Longrightarrow> life lib ps h'"
| restarts: "life lib ps h \<Longrightarrow> heartbeat_create lib os pid wall clock env n shared len (epoch_file h) ledger = (Inr h', f) \<Longrightarrow> life lib ps h'"
| restart_fails: "life lib ps h \<Longrightarrow> heartbeat_create lib os pid wall clock env n shared len (epoch_file h) ledger = (Inl e, f) \<Longrightarrow>
    life lib ps (h\<lparr>epoch_file := f\<rparr>)"

definition record_stamp :: "SuperPeerMember \<Rightarrow> u64 \<times> u64" where
  "record_stamp m = (incarnation m, member_sequence m)"

lemma self_stamp: "record_stamp (self_record h) = stamp h"
  by (simp add: record_stamp_def self_record_def stamp_def)

lemma life_grows:
  assumes "life lib ps h"
  shows "epoch_inv h \<and> sorted_wrt stamp_less (map record_stamp ps) \<and> (\<forall>p \<in> set ps. stamp_le (record_stamp p) (stamp h))"
  using assms
proof induction
  case (starts os pid wall clock env n shared len ledger h f)
  have "epoch_file_ok None" by (simp add: epoch_file_ok_def)
  then show ?case using create_epoch(3) [OF starts] by simp
next
  case (sends ps h os gossip bytes h')
  have inv: "epoch_inv h" using sends.IH by simp
  note e = encode_packet_stamp(1,2) [OF sends(2) inv] encode_packet_stamp(3) [OF sends(2) inv refl]
  have p: "stamp_less (record_stamp p) (stamp h')" if "p \<in> set ps" for p using stamp_order(3) e(3) sends.IH that by blast
  then show ?case using e sends.IH stamp_order(1,4) by (auto simp: sorted_wrt_append self_stamp)
next
  case (send_fails ps h os gossip e h')
  then show ?case using encode_packet_stamp(1,2) [OF send_fails(2)] stamp_order(2) by blast
next
  case (receives ps h os pid wall' tm bytes source gossip r h')
  then show ?case using apply_packet_stamp [OF receives(2) _ receives(3)] stamp_order(2) by blast
next
  case (advances ps h os r h')
  then show ?case using advance_epoch_inv(1,2) [OF advances(2)] stamp_order(2) by blast
next
  case (restarts ps h os pid wall clock env n shared len ledger h' f)
  have "epoch_file_ok (epoch_file h)" using restarts.IH by (simp add: epoch_inv_def)
  note c = create_epoch(3) [OF restarts(2) this refl]
  have "stamp_le (stamp h) (stamp h')" using c restarts.IH by (auto simp: stamp_le_def stamp_def epoch_inv_def)
  then show ?case using c restarts.IH stamp_order(2) by blast
next
  case (restart_fails ps h os pid wall clock env n shared len ledger e f)
  have "epoch_file_ok (epoch_file h)" using restart_fails.IH by (simp add: epoch_inv_def)
  note c = create_epoch(1,2) [OF restart_fails(2) this]
  then show ?case using restart_fails.IH by (auto simp: epoch_inv_def stamp_def)
qed

section \<open>Calls that succeed\<close>

lemma advance_epoch_succeeds:
  assumes "epoch_file_ok (epoch_file h)" "old = max (hb_incarnation h) (epoch_on_disk (epoch_file h))" "old \<noteq> - 1"
  shows "advance_epoch calm h = (None, h\<lparr>epoch_file := Some (wire_put_u64 (old + 1)), hb_incarnation := old + 1, hb_sequence := 0\<rparr>)"
proof -
  have "read_once calm 8 b = Some (take 8 b)" "read_once calm 1 b = Some (take 1 b)" for b by (simp_all add: read_once_def)
  then have e: "read_epoch calm (hb_incarnation h) (epoch_file h) = Inr old"
    using assms(1,2) by (cases "epoch_file h") (simp_all add: read_epoch_def epoch_on_disk_def epoch_file_ok_def)
  have "save_epoch calm b f = (None, Some b)" for b f by (simp add: save_epoch_def write_once_def)
  then show ?thesis using e assms(3) by (simp add: advance_epoch_def Let_def)
qed

lemma create_succeeds:
  assumes "read_settings env = Some cs" "len + 17 < 600" "epoch_file_ok epoch" "epoch_on_disk epoch \<noteq> - 1" "local_id t = id_of n"
  shows "\<exists>h. heartbeat_create lib calm pid wall clock env n (Some t) len epoch None = (Inr h, Some (wire_put_u64 (epoch_on_disk epoch + 1))) \<and>
    hb_incarnation h = epoch_on_disk epoch + 1 \<and> hb_sequence h = 0 \<and> hb_local h = n \<and> local_id (hb_members h) = id_of n \<and> hb_home h = id_of n"
proof -
  let ?g = "\<lparr>hb_local = n, hb_members = t, hb_incarnation = 0, hb_sequence = 0, hb_home = id_of n, can_reconnect = False,
     hb_interval = set_interval cs, hb_suspect = set_suspect cs, hb_failed = set_failed cs, hb_removed = set_removed cs,
     hb_budget = set_budget cs, cursor = 0, neighbor_cursor = 0, hb_stop = False, needs_reconnect = False, jobs = [],
     active_jobs = replicate CONTROL_WORKERS None, epoch_file = epoch, ledger_file = None, ledger_path_length = len + 15\<rparr>"
  have a: "advance_epoch calm ?g = (None, ?g\<lparr>epoch_file := Some (wire_put_u64 (epoch_on_disk epoch + 1)), hb_incarnation := epoch_on_disk epoch + 1, hb_sequence := 0\<rparr>)"
    by (rule advance_epoch_succeeds) (use assms(3,4) in simp_all)
  have "\<exists>u. membership_local calm t n (epoch_on_disk epoch + 1) 0 = (None, u) \<and> local_id u = id_of n"
    using assms(5) by (simp add: membership_local_def local_id_def)
  then obtain u where "membership_local calm t n (epoch_on_disk epoch + 1) 0 = (None, u)" "local_id u = id_of n" by blast
  moreover have "\<not> (600 \<le> len + 15 \<or> 600 \<le> len + 17)" using assms(2) by simp
  ultimately show ?thesis using assms(1) a by (simp add: heartbeat_create_def Let_def membership_load_def)
qed

lemma default_settings: "read_settings (\<lambda>_. None) = Some \<lparr>set_interval = 5000, set_suspect = 15000, set_failed = 20000, set_removed = 30000, set_budget = 1000\<rparr>"
  by (simp add: read_settings_def setting_def)

lemma local_record_calm:
  assumes "hb_sequence h \<noteq> - 1" "local_id (hb_members h) = id_of (hb_local h)"
  obtains h' where "local_record calm h = (Inr (self_record h'), h')"
    "h' = h\<lparr>hb_sequence := hb_sequence h + 1, hb_members := snd (membership_local calm (hb_members h) (hb_local h) (hb_incarnation h) (hb_sequence h + 1))\<rparr>"
  using assms by (simp add: local_record_def Let_def membership_local_def)

lemma heartbeat_packet_calm:
  assumes "hb_sequence h \<noteq> - 1" "local_id (hb_members h) = id_of (hb_local h)" "node_validate lib (hb_local h)"
  obtains h' where "encode_packet lib calm h False = (Inr (1 # record_of_member (self_record h')), h')"
    "h' = h\<lparr>hb_sequence := hb_sequence h + 1, hb_members := snd (membership_local calm (hb_members h) (hb_local h) (hb_incarnation h) (hb_sequence h + 1))\<rparr>"
proof -
  obtain h' where h': "local_record calm h = (Inr (self_record h'), h')"
    "h' = h\<lparr>hb_sequence := hb_sequence h + 1, hb_members := snd (membership_local calm (hb_members h) (hb_local h) (hb_incarnation h) (hb_sequence h + 1))\<rparr>"
    by (rule local_record_calm [OF assms(1,2)])
  have "node_validate lib (member_node (self_record h'))" using assms(3) h'(2) by (simp add: self_record_def)
  then have "encode_packet lib calm h False = (Inr (1 # record_of_member (self_record h')), h')"
    using h'(1) by (simp add: encode_packet_def packet_bytes_def gossip_encode_record_def)
  then show ?thesis using h'(2) by (rule that)
qed

section \<open>Properties\<close>

text \<open>
C26: The records of a node only grow, and survive restarts. Take the whole life of a node: it sends heartbeats and gossip, receives any packets, is refused, stops and
is started again on its files, with any calls failing, except that the calls made while the rumours of a received packet are applied succeed, so that an epoch taken over to refute a rumour is saved,
and that no rumour carries the greatest incarnation there is. Then the pairs of
incarnation and sequence number in the records that it has published are strictly increasing in the order of publication, and the record in the next packet is later than all of them.\<close>

theorem heartbeat_records_grow:
  assumes "life lib ps h"
  shows "sorted_wrt stamp_less (map record_stamp ps) \<and>
    (\<forall>os gossip bytes h'. encode_packet lib os h gossip = (Inr bytes, h') \<longrightarrow>
       (\<exists>rest. bytes = 1 # record_of_member (self_record h') @ rest) \<and>
       list_all (\<lambda>p. stamp_less (record_stamp p) (record_stamp (self_record h'))) ps)"
proof -
  note l = life_grows [OF assms]
  have "list_all (\<lambda>p. stamp_less (record_stamp p) (record_stamp (self_record h'))) ps" if "encode_packet lib os h gossip = (Inr bytes, h')" for os gossip bytes h'
    using l encode_packet_stamp(3) [OF that _ refl] by (auto simp: list_all_iff self_stamp intro: stamp_order(3))
  then show ?thesis using l encode_packet_carries by blast
qed

lemma sample_node_valid: "node_validate byte_lib (sample_node b)"
  using byte_config_valid(2) [of b] by (simp add: node_validate_def sample_node_def)

lemma sample_heartbeat:
  obtains h where "life byte_lib [] h" "hb_sequence h = 0" "hb_incarnation h = 1" "hb_local h = sample_node 1"
    "local_id (hb_members h) = id_of (hb_local h)" "epoch_file h = Some (wire_put_u64 1)"
proof -
  have "local_id sample_table = id_of (sample_node 1)" by (simp add: sample_node_def)
  then obtain h where h: "heartbeat_create byte_lib calm 1 0 0 (\<lambda>_. None) (sample_node 1) (Some sample_table) 10 None None = (Inr h, Some (wire_put_u64 1))"
    "hb_incarnation h = 1" "hb_sequence h = 0" "hb_local h = sample_node 1" "local_id (hb_members h) = id_of (sample_node 1)"
    using create_succeeds [OF default_settings, of 10 None sample_table "sample_node 1" byte_lib 1 0 0]
    by (auto simp: epoch_file_ok_def epoch_on_disk_def)
  have "epoch_file h = Some (wire_put_u64 1)" using create_epoch(3) [OF h(1) _ refl] by (simp add: epoch_file_ok_def)
  then show ?thesis using life.starts [OF h(1)] h(2-5) that by simp
qed

theorem heartbeat_records_grow_witness:
  "\<exists>h h' bytes. life byte_lib [self_record h] h \<and> encode_packet byte_lib calm h False = (Inr bytes, h') \<and>
     stamp_less (record_stamp (self_record h)) (record_stamp (self_record h'))"
proof -
  obtain g where g: "life byte_lib [] g" "hb_sequence g = 0" "hb_local g = sample_node 1" "local_id (hb_members g) = id_of (hb_local g)"
    by (rule sample_heartbeat)
  have v: "node_validate byte_lib (hb_local g)" using g(3) sample_node_valid by simp
  have "hb_sequence g \<noteq> - 1" using g(2) by simp
  then obtain h where h: "encode_packet byte_lib calm g False = (Inr (1 # record_of_member (self_record h)), h)"
    "h = g\<lparr>hb_sequence := hb_sequence g + 1, hb_members := snd (membership_local calm (hb_members g) (hb_local g) (hb_incarnation g) (hb_sequence g + 1))\<rparr>"
    by (rule heartbeat_packet_calm [OF _ g(4) v])
  have l: "life byte_lib [self_record h] h" using life.sends [OF g(1) h(1)] by simp
  have "hb_sequence h \<noteq> - 1" "local_id (hb_members h) = id_of (hb_local h)" "node_validate byte_lib (hb_local h)"
    using h(2) g v by (simp_all add: membership_local_def local_id_def)
  then obtain h' where h': "encode_packet byte_lib calm h False = (Inr (1 # record_of_member (self_record h')), h')"
    by (rule heartbeat_packet_calm)
  show ?thesis using heartbeat_records_grow [OF l] l h' by auto
qed

text \<open>
C39: An epoch that could not be saved is used all the same. When a rumour doubts the node under an incarnation that is at least its own and above the successor of the one on disk, and the lock of the epoch file
cannot be opened, the packet is reported as failed, but the node keeps the incarnation of the rumour in memory: its next heartbeat carries an incarnation that is not on disk, and
after a restart the node comes back with an earlier one, whose records the others refuse as stale.\<close>

theorem heartbeat_unsaved_epoch:
  assumes "node_id_equal (member_id m) (id_of (hb_local h))" "member_state m \<noteq> SUPERPEER_MEMBER_ALIVE" "hb_incarnation h \<le> incarnation m"
    "epoch_file_ok (epoch_file h)" "unat (epoch_on_disk (epoch_file h)) + 1 < unat (incarnation m)" "fault (at (at os 0) 0) = Some e"
    "hb_sequence h \<noteq> - 1" "local_id (hb_members h) = id_of (hb_local h)" "node_validate lib (hb_local h)"
    "read_settings env = Some cs" "len + 17 < 600" "local_id t = id_of (hb_local h)"
  shows "\<exists>h1 h2 g f. apply_rumours lib os tm 0 (m # ms) h = (Some e, h1) \<and>
    encode_packet lib calm h1 False = (Inr (1 # record_of_member (self_record h2)), h2) \<and> incarnation (self_record h2) = incarnation m \<and>
    heartbeat_create lib calm pid wall clock env (hb_local h) (Some t) len (epoch_file h2) None = (Inr g, f) \<and> hb_incarnation g < incarnation m"
proof -
  let ?h = "h\<lparr>hb_incarnation := incarnation m\<rparr>"
  have a: "apply_rumours lib os tm 0 (m # ms) h = (Some e, ?h)"
    using assms(1-3,6) by (simp add: advance_epoch_def Let_def)
  have "hb_sequence ?h \<noteq> - 1" "local_id (hb_members ?h) = id_of (hb_local ?h)" "node_validate lib (hb_local ?h)" using assms(7-9) by simp_all
  then obtain h2 where h2: "encode_packet lib calm ?h False = (Inr (1 # record_of_member (self_record h2)), h2)"
    "h2 = ?h\<lparr>hb_sequence := hb_sequence ?h + 1, hb_members := snd (membership_local calm (hb_members ?h) (hb_local ?h) (hb_incarnation ?h) (hb_sequence ?h + 1))\<rparr>"
    by (rule heartbeat_packet_calm)
  have f: "epoch_file h2 = epoch_file h" "incarnation (self_record h2) = incarnation m" by (simp_all add: h2(2) self_record_def)
  have u: "unat (epoch_on_disk (epoch_file h) + 1) = unat (epoch_on_disk (epoch_file h)) + 1"
    using assms(5) unsigned_less [of "incarnation m", where 'a = nat] by (simp add: unat_word_ariths)
  then have lt: "epoch_on_disk (epoch_file h) + 1 < incarnation m" using assms(5) by (simp add: word_less_nat_alt)
  have "epoch_on_disk (epoch_file h) \<noteq> - 1" using u by auto
  from create_succeeds [OF assms(10,11,4) this assms(12), of lib pid wall clock]
  obtain g f' where "heartbeat_create lib calm pid wall clock env (hb_local h) (Some t) len (epoch_file h2) None = (Inr g, f')"
    "hb_incarnation g = epoch_on_disk (epoch_file h) + 1" unfolding f by blast
  then show ?thesis using a h2(1) f(2) lt by auto
qed

definition sample_doubt :: SuperPeerMember where
  "sample_doubt = (sample_member 1)\<lparr>member_state := SUPERPEER_MEMBER_FAILED, incarnation := 5\<rparr>"

definition sample_lock_fault :: os where
  "sample_lock_fault p = (if p = [0, 0] then [Err EIO] else [])"

theorem heartbeat_unsaved_epoch_witness:
  "\<exists>h h1 h2 g f. life byte_lib [] h \<and> apply_rumours byte_lib sample_lock_fault (\<lambda>_. 0) 0 [sample_doubt] h = (Some EIO, h1) \<and>
     encode_packet byte_lib calm h1 False = (Inr (1 # record_of_member (self_record h2)), h2) \<and> incarnation (self_record h2) = 5 \<and>
     heartbeat_create byte_lib calm 1 0 0 (\<lambda>_. None) (sample_node 1) (Some sample_table) 10 (epoch_file h2) None = (Inr g, f) \<and> hb_incarnation g < 5"
proof -
  obtain h where h: "life byte_lib [] h" "hb_sequence h = 0" "hb_incarnation h = 1" "hb_local h = sample_node 1"
    "local_id (hb_members h) = id_of (hb_local h)" "epoch_file h = Some (wire_put_u64 1)"
    by (rule sample_heartbeat)
  have m: "member_id sample_doubt = replicate 32 1" "member_state sample_doubt = SUPERPEER_MEMBER_FAILED" "incarnation sample_doubt = 5"
    by (simp_all add: sample_doubt_def member_id_def sample_member_def set_member_def sample_node_def)
  have f: "fault (at (at sample_lock_fault 0) 0) = Some EIO" by (simp add: fault_def at_def sample_lock_fault_def)
  have i: "id_of (sample_node 1) = replicate 32 1" by (simp add: sample_node_def)
  have p: "node_id_equal (member_id sample_doubt) (id_of (hb_local h))" "member_state sample_doubt \<noteq> SUPERPEER_MEMBER_ALIVE"
    "hb_incarnation h \<le> incarnation sample_doubt" "epoch_file_ok (epoch_file h)" "unat (epoch_on_disk (epoch_file h)) + 1 < unat (incarnation sample_doubt)"
    "hb_sequence h \<noteq> - 1" "node_validate byte_lib (hb_local h)" "(10 :: nat) + 17 < 600" "local_id sample_table = id_of (hb_local h)"
    using h m i sample_node_valid [of 1] by (simp_all add: ID_SIZE_def)
  obtain h1 h2 g f' where r: "apply_rumours byte_lib sample_lock_fault (\<lambda>_. 0) 0 [sample_doubt] h = (Some EIO, h1)"
    "encode_packet byte_lib calm h1 False = (Inr (1 # record_of_member (self_record h2)), h2)" "incarnation (self_record h2) = incarnation sample_doubt"
    "heartbeat_create byte_lib calm 1 0 0 (\<lambda>_. None) (hb_local h) (Some sample_table) 10 (epoch_file h2) None = (Inr g, f')"
    "hb_incarnation g < incarnation sample_doubt"
    using heartbeat_unsaved_epoch [OF p(1-5) f p(6) h(5) p(7) default_settings p(8,9), where ms = "[]" and tm = "\<lambda>_. 0" and pid = 1 and wall = 0 and clock = 0]
    by (elim exE conjE) (rule that)
  show ?thesis by (intro exI conjI) (rule h(1), rule r(1), rule r(2), rule r(3) [unfolded m], rule r(4) [unfolded h], rule r(5) [unfolded m])
qed

end
