(* ===== verification/Metadata.thy ===== *)
theory Metadata
  imports Node
begin

text \<open>
  The index of documents and of the peers that hold their chunks (\<^verbatim>\<open>metadata.c\<close>, \<^verbatim>\<open>metadata.h\<close>).

  The store is the array of hash buckets, each a list of entries in the order of the chain. The
  mutex makes every operation one step. A pointer to a slot, as \<open>find_entry\<close> returns it, is the
  position of the entry in its bucket, or none where the chain ends. Arrays that the source reads
  with a length stored elsewhere (the chunks of a document) are lists of that length. A table of
  hashes, where there is one, has all its entries: the absence of single hashes is not represented.
\<close>

section \<open>Data\<close>

type_synonym ObjectID = "byte list"

definition BUCKET_COUNT :: nat where
  "BUCKET_COUNT = 257"

definition OBJECT_ID_SIZE :: nat where
  "OBJECT_ID_SIZE = 32"

definition METADATA_NAME_SIZE :: nat where
  "METADATA_NAME_SIZE = 256"

definition METADATA_CHUNK_SIZE :: u64 where
  "METADATA_CHUNK_SIZE = 4194304"

record FileMetadata =
  object_id :: ObjectID
  filename :: "byte list"
  doc_size :: u64
  chunk_count :: u32
  chunk_hashes :: "byte list list option"
  doc_version :: u32
  doc_owner :: u32

record MetadataChunk =
  chunk_index :: u64
  chunk_offset :: u64
  raw_size :: u32
  compressed_size :: u32
  chunk_hash :: "byte list"

record Availability =
  avail_index :: u64
  avail_peer :: NodeID

record Entry =
  document :: FileMetadata
  available :: "Availability list"
  chunks :: "MetadataChunk list option"

type_synonym MetadataStore = "Entry list list"

section \<open>Buckets\<close>

definition bucket :: "ObjectID \<Rightarrow> nat" where
  "bucket i = foldl (\<lambda>value b. (value * 33 + unat b) mod BUCKET_COUNT) 0 i"

definition find_entry :: "MetadataStore \<Rightarrow> ObjectID \<Rightarrow> nat option" where
  "find_entry store i = find_index (\<lambda>e. object_id (document e) = i) (store ! bucket i)"

definition lookup_entry :: "MetadataStore \<Rightarrow> ObjectID \<Rightarrow> Entry option" where
  "lookup_entry store i = map_option (\<lambda>k. store ! bucket i ! k) (find_entry store i)"

text \<open>Storing through the slot: at the end of the chain, or over the entry that is there.\<close>

definition put_entry :: "MetadataStore \<Rightarrow> ObjectID \<Rightarrow> Entry \<Rightarrow> MetadataStore" where
  "put_entry store i e =
     store[bucket i := (case find_entry store i of
        None \<Rightarrow> store ! bucket i @ [e] | Some k \<Rightarrow> (store ! bucket i)[k := e])]"

definition drop_entry :: "MetadataStore \<Rightarrow> ObjectID \<Rightarrow> MetadataStore" where
  "drop_entry store i =
     (case find_entry store i of None \<Rightarrow> store
      | Some k \<Rightarrow> store[bucket i := take k (store ! bucket i) @ drop (Suc k) (store ! bucket i)])"

section \<open>Operations\<close>

definition chunks_of_size :: "u64 \<Rightarrow> u64" where
  "chunks_of_size n = n div METADATA_CHUNK_SIZE + (if n mod METADATA_CHUNK_SIZE \<noteq> 0 then 1 else 0)"

text \<open>The call sites are \<open>calloc\<close> (0) and the mutex (1).\<close>

definition metadata_create :: "os \<Rightarrow> MetadataStore result" where
  "metadata_create os =
     (case fault (at os 0) of Some e \<Rightarrow> Inl e
      | None \<Rightarrow> (case fault (at os 1) of Some e \<Rightarrow> Inl e | None \<Rightarrow> Inr (replicate BUCKET_COUNT [])))"

text \<open>The name is a C string: \<open>name\<close> is its bytes without the terminator. Sites: lock (0), \<open>calloc\<close> (1).\<close>

definition new_entry :: "ObjectID \<Rightarrow> byte list \<Rightarrow> u64 \<Rightarrow> Entry" where
  "new_entry i name n =
     \<lparr>document = \<lparr>object_id = i, filename = zero_padded METADATA_NAME_SIZE name, doc_size = n,
        chunk_count = ucast (chunks_of_size n), chunk_hashes = None, doc_version = 1, doc_owner = 0\<rparr>,
      available = [], chunks = None\<rparr>"

definition metadata_register_document ::
  "os \<Rightarrow> MetadataStore \<Rightarrow> ObjectID \<Rightarrow> byte list \<Rightarrow> u64 \<Rightarrow> errno option \<times> MetadataStore" where
  "metadata_register_document os store i name n =
     (if name = [] \<or> METADATA_NAME_SIZE \<le> length name then (Some EINVAL, store)
      else if 2 ^ 32 \<le> unat (chunks_of_size n) then (Some EOVERFLOW, store)
      else case fault (at os 0) of Some e \<Rightarrow> (Some e, store)
      | None \<Rightarrow>
          (case lookup_entry store i of
             Some e \<Rightarrow> (if doc_size (document e) \<noteq> n then Some EEXIST else None, store)
           | None \<Rightarrow>
               if fault (at os 1) \<noteq> None then (Some ENOMEM, store)
               else (None, put_entry store i (new_entry i name n))))"

definition metadata_find_document :: "os \<Rightarrow> MetadataStore \<Rightarrow> ObjectID \<Rightarrow> FileMetadata result" where
  "metadata_find_document os store i =
     (case fault (at os 0) of Some e \<Rightarrow> Inl e
      | None \<Rightarrow>
          (case lookup_entry store i of
             None \<Rightarrow> Inl ENOENT
           | Some e \<Rightarrow>
               (case chunk_hashes (document e) of
                  None \<Rightarrow> Inr (document e)
                | Some hs \<Rightarrow>
                    if fault (at os 1) \<noteq> None then Inl ENOMEM
                    else Inr ((document e)\<lparr>chunk_hashes := Some (take (unat (chunk_count (document e))) hs)\<rparr>))))"

definition metadata_remove_document :: "os \<Rightarrow> MetadataStore \<Rightarrow> ObjectID \<Rightarrow> errno option \<times> MetadataStore" where
  "metadata_remove_document os store i =
     (case fault (at os 0) of Some e \<Rightarrow> (Some e, store)
      | None \<Rightarrow>
          (case lookup_entry store i of None \<Rightarrow> (Some ENOENT, store) | Some _ \<Rightarrow> (None, drop_entry store i)))"

text \<open>The search for the record of a peer and chunk, and the change at the slot that was found.\<close>

definition change_available ::
  "os \<Rightarrow> Availability list \<Rightarrow> u64 \<Rightarrow> NodeID \<Rightarrow> bool \<Rightarrow> errno option \<times> Availability list" where
  "change_available os items k peer remove =
     (case find_index (\<lambda>a. avail_index a = k \<and> avail_peer a = peer) items of
        None \<Rightarrow>
          if remove then (Some ENOENT, items)
          else if fault (at os 1) \<noteq> None then (Some ENOMEM, items)
          else (None, items @ [\<lparr>avail_index = k, avail_peer = peer\<rparr>])
      | Some j \<Rightarrow> (None, if remove then take j items @ drop (Suc j) items else items))"

definition change_chunk ::
  "os \<Rightarrow> MetadataStore \<Rightarrow> ObjectID \<Rightarrow> u64 \<Rightarrow> NodeID \<Rightarrow> bool \<Rightarrow> errno option \<times> MetadataStore" where
  "change_chunk os store i k peer remove =
     (case fault (at os 0) of Some e \<Rightarrow> (Some e, store)
      | None \<Rightarrow>
          (case lookup_entry store i of
             None \<Rightarrow> (Some ENOENT, store)
           | Some e \<Rightarrow>
               if ucast (chunk_count (document e)) \<le> k then (Some EINVAL, store)
               else
                 let (r, items) = change_available os (available e) k peer remove in
                 (r, put_entry store i (e\<lparr>available := items\<rparr>))))"

definition metadata_register_chunk ::
  "os \<Rightarrow> MetadataStore \<Rightarrow> ObjectID \<Rightarrow> u64 \<Rightarrow> NodeID \<Rightarrow> errno option \<times> MetadataStore" where
  "metadata_register_chunk os store i k peer = change_chunk os store i k peer False"

definition metadata_unregister_chunk ::
  "os \<Rightarrow> MetadataStore \<Rightarrow> ObjectID \<Rightarrow> u64 \<Rightarrow> NodeID \<Rightarrow> errno option \<times> MetadataStore" where
  "metadata_unregister_chunk os store i k peer = change_chunk os store i k peer True"

definition metadata_chunk_peers :: "os \<Rightarrow> MetadataStore \<Rightarrow> ObjectID \<Rightarrow> u64 \<Rightarrow> NodeID list result" where
  "metadata_chunk_peers os store i k =
     (case fault (at os 0) of Some e \<Rightarrow> Inl e
      | None \<Rightarrow>
          (case lookup_entry store i of
             None \<Rightarrow> Inl ENOENT
           | Some e \<Rightarrow>
               if ucast (chunk_count (document e)) \<le> k then Inl EINVAL
               else
                 let peers = map avail_peer (filter (\<lambda>a. avail_index a = k) (available e)) in
                 if SIZE_MAX div 32 < length peers then Inl EOVERFLOW
                 else if peers \<noteq> [] \<and> fault (at os 1) \<noteq> None then Inl ENOMEM
                 else Inr peers))"

section \<open>Announcing a document\<close>

text \<open>The conditions on chunk \<open>i\<close> of an announced document.\<close>

definition chunk_consistent :: "FileMetadata \<Rightarrow> MetadataChunk list \<Rightarrow> nat \<Rightarrow> bool" where
  "chunk_consistent doc cs i \<longleftrightarrow>
     (let c = cs ! i; offset = of_nat i * METADATA_CHUNK_SIZE; remaining = doc_size doc - offset in
      chunk_index c = of_nat i \<and> chunk_offset c = offset \<and>
      ucast (raw_size c) = (if METADATA_CHUNK_SIZE < remaining then METADATA_CHUNK_SIZE else remaining) \<and>
      compressed_size c \<noteq> 0 \<and>
      (case chunk_hashes doc of None \<Rightarrow> True | Some hs \<Rightarrow> hs ! i = chunk_hash c))"

text \<open>The loop over the chunks: \<open>n\<close> rounds remain, \<open>i\<close> is the next chunk.\<close>

primrec announce_items ::
  "nat \<Rightarrow> os \<Rightarrow> FileMetadata \<Rightarrow> MetadataChunk list \<Rightarrow> NodeID \<Rightarrow> nat \<Rightarrow> Availability list \<Rightarrow> Availability list result" where
  "announce_items 0 os doc cs peer i items = Inr items"
| "announce_items (Suc n) os doc cs peer i items =
     (if \<not> chunk_consistent doc cs i then Inl EINVAL
      else case fault (at os i) of Some e \<Rightarrow> Inl e
        | None \<Rightarrow> announce_items n os doc cs peer (Suc i) (\<lparr>avail_index = of_nat i, avail_peer = peer\<rparr> # items))"

text \<open>The records of the other peers are copied in front of the new ones, one \<open>malloc\<close> each.\<close>

fun copy_others :: "os \<Rightarrow> NodeID \<Rightarrow> nat \<Rightarrow> Availability list \<Rightarrow> Availability list \<Rightarrow> Availability list result" where
  "copy_others os peer k [] items = Inr items"
| "copy_others os peer k (a # old) items =
     (if avail_peer a = peer then copy_others os peer k old items
      else if fault (at os k) \<noteq> None then Inl ENOMEM
      else copy_others os peer (Suc k) old (a # items))"

text \<open>Copying a C string over an array leaves what follows the terminator.\<close>

definition strcpy :: "byte list \<Rightarrow> byte list \<Rightarrow> byte list" where
  "strcpy dst src = cstr src @ 0 # drop (Suc (length (cstr src))) dst"

text \<open>What replaces an entry that is already there.\<close>

definition merge_announced ::
  "os \<Rightarrow> Entry \<Rightarrow> Entry \<Rightarrow> FileMetadata \<Rightarrow> MetadataChunk list \<Rightarrow> NodeID \<Rightarrow> Entry result" where
  "merge_announced os old candidate doc cs peer =
     (if doc_size (document old) \<noteq> doc_size doc \<or> chunk_count (document old) \<noteq> chunk_count doc \<or>
         (case chunks old of None \<Rightarrow> False
          | Some ocs \<Rightarrow> list_ex (\<lambda>i. raw_size (ocs ! i) \<noteq> raw_size (cs ! i) \<or> chunk_hash (ocs ! i) \<noteq> chunk_hash (cs ! i))
              [0..<unat (chunk_count doc)])
      then Inl EEXIST
      else case copy_others os peer 0 (available old) (available candidate) of
          Inl e \<Rightarrow> Inl e
        | Inr items \<Rightarrow>
            Inr (candidate\<lparr>available := items,
              document := (if chunks old \<noteq> None then document old
                   else (document candidate)\<lparr>filename := strcpy (filename (document candidate)) (filename (document old))\<rparr>)
                \<lparr>chunk_hashes := chunk_hashes (document candidate)\<rparr>\<rparr>))"

text \<open>The call sites are the three allocations (0 to 2), those of the loop (3), the lock (4), the copies (5).\<close>

definition metadata_announce ::
  "os \<Rightarrow> MetadataStore \<Rightarrow> FileMetadata \<Rightarrow> MetadataChunk list \<Rightarrow> NodeID \<Rightarrow> errno option \<times> MetadataStore" where
  "metadata_announce os store doc cs peer =
     (if chunk_count doc = 0 \<or> ucast (chunk_count doc) \<noteq> chunks_of_size (doc_size doc) \<or>
         cstr (filename doc) = [] \<or> METADATA_NAME_SIZE \<le> length (cstr (filename doc))
      then (Some EINVAL, store)
      else
        case List.find (\<lambda>k. fault (at os k) \<noteq> None) [0, 1, 2] of
          Some k \<Rightarrow> (fault (at os k), store)
        | None \<Rightarrow>
            (let n = unat (chunk_count doc) in
             case announce_items n (at os 3) doc cs peer 0 [] of
               Inl e \<Rightarrow> (Some e, store)
             | Inr items \<Rightarrow>
                 (case fault (at os 4) of Some e \<Rightarrow> (Some e, store)
                  | None \<Rightarrow>
                      (let candidate = \<lparr>document = doc\<lparr>chunk_hashes := Some (map chunk_hash (take n cs)), doc_version := 1\<rparr>,
                                 available = items, chunks = Some (take n cs)\<rparr> in
                       case lookup_entry store (object_id doc) of
                         None \<Rightarrow> (None, put_entry store (object_id doc) candidate)
                       | Some old \<Rightarrow>
                           (case merge_announced (at os 5) old candidate doc cs peer of
                              Inl e \<Rightarrow> (Some e, store)
                            | Inr merged \<Rightarrow> (None, put_entry store (object_id doc) merged))))))"

section \<open>Queries and peers that leave\<close>

definition metadata_find_name :: "os \<Rightarrow> MetadataStore \<Rightarrow> byte list \<Rightarrow> ObjectID result" where
  "metadata_find_name os store name =
     (case fault (at os 0) of Some e \<Rightarrow> Inl e
      | None \<Rightarrow>
          (case filter (\<lambda>e. cstr (filename (document e)) = name) (concat store) of
             [] \<Rightarrow> Inl ENOENT
           | [e] \<Rightarrow> Inr (object_id (document e))
           | _ \<Rightarrow> Inl ENOTUNIQ))"

definition metadata_chunk_descriptor :: "os \<Rightarrow> MetadataStore \<Rightarrow> ObjectID \<Rightarrow> u64 \<Rightarrow> MetadataChunk result" where
  "metadata_chunk_descriptor os store i k =
     (case fault (at os 0) of Some e \<Rightarrow> Inl e
      | None \<Rightarrow>
          (case lookup_entry store i of
             Some e \<Rightarrow>
               (case chunks e of
                  Some cs \<Rightarrow> if k < ucast (chunk_count (document e)) then Inr (cs ! unat k) else Inl ENOENT
                | None \<Rightarrow> Inl ENOENT)
           | None \<Rightarrow> Inl ENOENT))"

definition metadata_remove_peer :: "os \<Rightarrow> MetadataStore \<Rightarrow> NodeID \<Rightarrow> errno option \<times> MetadataStore" where
  "metadata_remove_peer os store peer =
     (case fault (at os 0) of Some e \<Rightarrow> (Some e, store)
      | None \<Rightarrow> (None, map (map (\<lambda>e. e\<lparr>available := filter (\<lambda>a. avail_peer a \<noteq> peer) (available e)\<rparr>)) store))"

definition object_id_to_hex :: "ObjectID \<Rightarrow> nat \<Rightarrow> string result" where
  "object_id_to_hex i capacity =
     (if capacity < 65 then Inl EINVAL
      else Inr (concat (map (\<lambda>b. [hexadecimal ! unat (drop_bit 4 b), hexadecimal ! unat (b AND 15)]) i)))"

section \<open>The buckets are a map\<close>

text \<open>
  The contract between the index and its table: \<open>put\<close> and \<open>delete\<close> change what is found under one
  key and keep the invariant of the representation.
\<close>

locale keyed_store =
  fixes lookup :: "'s \<Rightarrow> 'k \<Rightarrow> 'e option" and put :: "'s \<Rightarrow> 'k \<Rightarrow> 'e \<Rightarrow> 's" and delete :: "'s \<Rightarrow> 'k \<Rightarrow> 's"
    and key :: "'e \<Rightarrow> 'k" and invar :: "'s \<Rightarrow> bool"
  assumes lookup_key: "invar s \<Longrightarrow> lookup s k = Some e \<Longrightarrow> key e = k"
    and lookup_put: "invar s \<Longrightarrow> key e = k \<Longrightarrow> lookup (put s k e) = (lookup s)(k \<mapsto> e)"
    and invar_put: "invar s \<Longrightarrow> key e = k \<Longrightarrow> invar (put s k e)"
    and lookup_delete: "invar s \<Longrightarrow> lookup (delete s k) = (lookup s)(k := None)"
    and invar_delete: "invar s \<Longrightarrow> invar (delete s k)"
begin

text \<open>Replacing an entry by one with the same key.\<close>

lemma modify:
  assumes "invar s" "lookup s k = Some e" "key e' = key e"
  shows "lookup (put s k e') = (lookup s)(k \<mapsto> e')" "invar (put s k e')"
  using assms lookup_key [OF assms(1,2)] lookup_put invar_put by auto

lemma put_same: "invar s \<Longrightarrow> lookup s k = Some e \<Longrightarrow> lookup (put s k e) = lookup s"
  using modify(1) [of s k e e] by auto

lemma entries_put:
  "invar s \<Longrightarrow> key e = k \<Longrightarrow> ran (lookup (put s k e)) \<subseteq> insert e (ran (lookup s))"
  by (auto simp: lookup_put ran_def)

lemma entries_delete: "invar s \<Longrightarrow> ran (lookup (delete s k)) \<subseteq> ran (lookup s)"
  by (auto simp: lookup_delete ran_def split: if_splits)

end

definition entry_key :: "Entry \<Rightarrow> ObjectID" where
  "entry_key e = object_id (document e)"

definition store_inv :: "MetadataStore \<Rightarrow> bool" where
  "store_inv s \<longleftrightarrow> length s = BUCKET_COUNT \<and>
     (\<forall>b < BUCKET_COUNT. distinct (map entry_key (s ! b)) \<and> (\<forall>e \<in> set (s ! b). bucket (entry_key e) = b))"

lemma bucket_less: "bucket i < BUCKET_COUNT"
  unfolding bucket_def by (induction i rule: rev_induct) (auto simp: BUCKET_COUNT_def)

lemma find_entry_key: "find_entry s i = find_index (\<lambda>e. entry_key e = i) (s ! bucket i)"
  by (simp add: find_entry_def entry_key_def)

lemma find_entry_Some:
  "find_entry s i = Some k \<Longrightarrow> k < length (s ! bucket i) \<and> entry_key (s ! bucket i ! k) = i"
  unfolding find_entry_key by (drule find_index_Some) simp

lemma lookup_entry_iff:
  assumes "store_inv s"
  shows "lookup_entry s i = Some e \<longleftrightarrow> e \<in> set (s ! bucket i) \<and> entry_key e = i"
proof
  show "e \<in> set (s ! bucket i) \<and> entry_key e = i" if "lookup_entry s i = Some e"
    using that find_entry_Some [of s i] by (auto simp: lookup_entry_def)
  assume e: "e \<in> set (s ! bucket i) \<and> entry_key e = i"
  then obtain k where k: "k < length (s ! bucket i)" "s ! bucket i ! k = e" by (auto simp: in_set_conv_nth)
  have "distinct (map entry_key (s ! bucket i))" using assms bucket_less [of i] by (simp add: store_inv_def)
  then have "find_entry s i = Some k" unfolding find_entry_key
    using k e distinct_map_nth [of entry_key "s ! bucket i"] by (intro find_index_unique) auto
  with k show "lookup_entry s i = Some e" by (simp add: lookup_entry_def)
qed

lemma lookup_entry_None:
  "lookup_entry s i = None \<longleftrightarrow> (\<forall>e \<in> set (s ! bucket i). entry_key e \<noteq> i)"
  by (simp add: lookup_entry_def find_entry_key find_index_None)

lemma put_entry_set:
  assumes "store_inv s" "entry_key e = i" "b < BUCKET_COUNT"
  shows "distinct (map entry_key (put_entry s i e ! b)) \<and>
    set (put_entry s i e ! b) = (if b = bucket i then insert e {x \<in> set (s ! b). entry_key x \<noteq> i} else set (s ! b))"
proof (cases "b = bucket i")
  case False
  then show ?thesis using assms by (simp add: put_entry_def store_inv_def)
next
  case True
  have len: "bucket i < length s" using assms(1) bucket_less [of i] by (simp add: store_inv_def)
  have d: "distinct (map entry_key (s ! b))" using assms(1,3) by (simp add: store_inv_def)
  show ?thesis
  proof (cases "find_entry s i")
    case None
    then have "\<forall>x \<in> set (s ! b). entry_key x \<noteq> i" unfolding find_entry_key True find_index_None by simp
    with None True len d assms(2) show ?thesis by (auto simp: put_entry_def)
  next
    case (Some k)
    note k = find_entry_Some [OF Some]
    have "map entry_key ((s ! b)[k := e]) = map entry_key (s ! b)"
      using k assms(2) True by (intro map_update_same) auto
    moreover have "set ((s ! b)[k := e]) = insert e {x \<in> set (s ! b). entry_key x \<noteq> i}"
    proof -
      have "x \<in> set (s ! b) \<Longrightarrow> entry_key x = i \<longleftrightarrow> x = s ! b ! k" for x
        using d k True by (metis distinct_map inj_onD nth_mem)
      then have "{x \<in> set (s ! b). entry_key x \<noteq> i} = set (s ! b) - {s ! b ! k}" by auto
      moreover have "distinct (s ! b)" using d by (simp add: distinct_map)
      ultimately show ?thesis using k True by (simp add: set_update_distinct)
    qed
    ultimately show ?thesis using Some True len d by (simp add: put_entry_def)
  qed
qed

lemma drop_entry_set:
  assumes "store_inv s" "b < BUCKET_COUNT"
  shows "distinct (map entry_key (drop_entry s i ! b)) \<and>
    set (drop_entry s i ! b) = (if b = bucket i then {x \<in> set (s ! b). entry_key x \<noteq> i} else set (s ! b))"
proof (cases "find_entry s i")
  case None
  then have "\<forall>x \<in> set (s ! bucket i). entry_key x \<noteq> i" unfolding find_entry_key find_index_None by simp
  with None assms show ?thesis by (auto simp: drop_entry_def store_inv_def)
next
  case (Some k)
  note k = find_entry_Some [OF Some]
  have len: "bucket i < length s" using assms(1) bucket_less [of i] by (simp add: store_inv_def)
  let ?b = "s ! bucket i"
  have d: "distinct (map entry_key ?b)" using assms(1) bucket_less [of i] by (simp add: store_inv_def)
  have split: "?b = take k ?b @ ?b ! k # drop (Suc k) ?b" using k by (intro id_take_nth_drop) simp
  have d2: "distinct (map entry_key (take k ?b @ drop (Suc k) ?b))"
    and ne: "\<forall>x \<in> set (take k ?b @ drop (Suc k) ?b). entry_key x \<noteq> i"
    using d k by (subst (asm) split, auto)+
  have "set ?b = insert (?b ! k) (set (take k ?b @ drop (Suc k) ?b))" by (subst split) auto
  then have "set (take k ?b @ drop (Suc k) ?b) = {x \<in> set ?b. entry_key x \<noteq> i}" using ne k by auto
  with d2 Some len assms show ?thesis by (cases "b = bucket i") (simp_all add: drop_entry_def store_inv_def)
qed

lemma length_put [simp]: "length (put_entry s i e) = length s"
  by (simp add: put_entry_def)

lemma length_drop [simp]: "length (drop_entry s i) = length s"
  by (simp add: drop_entry_def split: option.split)

interpretation index: keyed_store lookup_entry put_entry drop_entry entry_key store_inv
proof
  fix s :: MetadataStore and k :: ObjectID and e :: Entry
  assume s: "store_inv s"
  show "entry_key e = k" if "lookup_entry s k = Some e" using that lookup_entry_iff [OF s] by simp
  have b: "bucket j < BUCKET_COUNT" for j by (rule bucket_less)
  show p: "store_inv (put_entry s k e)" if "entry_key e = k"
    using s put_entry_set [OF s that] that by (auto simp: store_inv_def split: if_splits)
  show "lookup_entry (put_entry s k e) = (lookup_entry s)(k \<mapsto> e)" if "entry_key e = k"
  proof
    fix j
    have "lookup_entry (put_entry s k e) j = Some x \<longleftrightarrow> ((lookup_entry s)(k \<mapsto> e)) j = Some x" for x
      using lookup_entry_iff [OF p [OF that], of j x] lookup_entry_iff [OF s, of j x] put_entry_set [OF s that b, of j] that
      by auto
    then show "lookup_entry (put_entry s k e) j = ((lookup_entry s)(k \<mapsto> e)) j" by (metis not_Some_eq)
  qed
  show d: "store_inv (drop_entry s k)"
    using s drop_entry_set [OF s] by (auto simp: store_inv_def split: if_splits)
  show "lookup_entry (drop_entry s k) = (lookup_entry s)(k := None)"
  proof
    fix j
    have "lookup_entry (drop_entry s k) j = Some x \<longleftrightarrow> ((lookup_entry s)(k := None)) j = Some x" for x
      using lookup_entry_iff [OF d, of j x] lookup_entry_iff [OF s, of j x] drop_entry_set [OF s b [of j], where i = k] by auto
    then show "lookup_entry (drop_entry s k) j = ((lookup_entry s)(k := None)) j" by (metis not_Some_eq)
  qed
qed

section \<open>Refinement of a map of entries\<close>

text \<open>
  The operations that change the index, and what each does to the map from identifiers to entries.
  The abstract operations know nothing of buckets and chains.
\<close>

datatype metadata_op =
    Register ObjectID "byte list" u64
  | Remove ObjectID
  | Change ObjectID u64 NodeID bool
  | Announce FileMetadata "MetadataChunk list" NodeID
  | RemovePeer NodeID

fun metadata_step :: "os \<Rightarrow> metadata_op \<Rightarrow> MetadataStore \<Rightarrow> errno option \<times> MetadataStore" where
  "metadata_step os (Register i name n) s = metadata_register_document os s i name n"
| "metadata_step os (Remove i) s = metadata_remove_document os s i"
| "metadata_step os (Change i k peer remove) s =
     (if remove then metadata_unregister_chunk os s i k peer else metadata_register_chunk os s i k peer)"
| "metadata_step os (Announce doc cs peer) s = metadata_announce os s doc cs peer"
| "metadata_step os (RemovePeer peer) s = metadata_remove_peer os s peer"

type_synonym index_map = "ObjectID \<Rightarrow> Entry option"

definition forget_peer :: "NodeID \<Rightarrow> Entry \<Rightarrow> Entry" where
  "forget_peer peer e = e\<lparr>available := filter (\<lambda>a. avail_peer a \<noteq> peer) (available e)\<rparr>"

definition announced_entry :: "FileMetadata \<Rightarrow> MetadataChunk list \<Rightarrow> Availability list \<Rightarrow> Entry" where
  "announced_entry doc cs items =
     \<lparr>document = doc\<lparr>chunk_hashes := Some (map chunk_hash (take (unat (chunk_count doc)) cs)), doc_version := 1\<rparr>,
      available = items, chunks = Some (take (unat (chunk_count doc)) cs)\<rparr>"

definition announce_checks :: "os \<Rightarrow> FileMetadata \<Rightarrow> MetadataChunk list \<Rightarrow> NodeID \<Rightarrow> Availability list result" where
  "announce_checks os doc cs peer =
     (if chunk_count doc = 0 \<or> ucast (chunk_count doc) \<noteq> chunks_of_size (doc_size doc) \<or>
         cstr (filename doc) = [] \<or> METADATA_NAME_SIZE \<le> length (cstr (filename doc))
      then Inl EINVAL
      else case List.find (\<lambda>k. fault (at os k) \<noteq> None) [0, 1, 2] of
          Some k \<Rightarrow> Inl (the (fault (at os k)))
        | None \<Rightarrow>
            (case announce_items (unat (chunk_count doc)) (at os 3) doc cs peer 0 [] of
               Inl e \<Rightarrow> Inl e
             | Inr items \<Rightarrow> (case fault (at os 4) of Some e \<Rightarrow> Inl e | None \<Rightarrow> Inr items)))"

fun index_step :: "os \<Rightarrow> metadata_op \<Rightarrow> index_map \<Rightarrow> errno option \<times> index_map" where
  "index_step os (Register i name n) m =
     (if name = [] \<or> METADATA_NAME_SIZE \<le> length name then (Some EINVAL, m)
      else if 2 ^ 32 \<le> unat (chunks_of_size n) then (Some EOVERFLOW, m)
      else case fault (at os 0) of Some e \<Rightarrow> (Some e, m)
      | None \<Rightarrow>
          (case m i of
             Some e \<Rightarrow> (if doc_size (document e) \<noteq> n then Some EEXIST else None, m)
           | None \<Rightarrow> if fault (at os 1) \<noteq> None then (Some ENOMEM, m) else (None, m(i \<mapsto> new_entry i name n))))"
| "index_step os (Remove i) m =
     (case fault (at os 0) of Some e \<Rightarrow> (Some e, m)
      | None \<Rightarrow> (case m i of None \<Rightarrow> (Some ENOENT, m) | Some _ \<Rightarrow> (None, m(i := None))))"
| "index_step os (Change i k peer remove) m =
     (case fault (at os 0) of Some e \<Rightarrow> (Some e, m)
      | None \<Rightarrow>
          (case m i of None \<Rightarrow> (Some ENOENT, m)
           | Some e \<Rightarrow>
               if ucast (chunk_count (document e)) \<le> k then (Some EINVAL, m)
               else let (r, items) = change_available os (available e) k peer remove in
                 (r, m(i \<mapsto> e\<lparr>available := items\<rparr>))))"
| "index_step os (Announce doc cs peer) m =
     (case announce_checks os doc cs peer of
        Inl e \<Rightarrow> (Some e, m)
      | Inr items \<Rightarrow>
          (case m (object_id doc) of
             None \<Rightarrow> (None, m(object_id doc \<mapsto> announced_entry doc cs items))
           | Some old \<Rightarrow>
               (case merge_announced (at os 5) old (announced_entry doc cs items) doc cs peer of
                  Inl e \<Rightarrow> (Some e, m)
                | Inr merged \<Rightarrow> (None, m(object_id doc \<mapsto> merged)))))"
| "index_step os (RemovePeer peer) m =
     (case fault (at os 0) of Some e \<Rightarrow> (Some e, m) | None \<Rightarrow> (None, \<lambda>i. map_option (forget_peer peer) (m i)))"

lemma announce_unfold:
  "metadata_announce os s doc cs peer =
     (case announce_checks os doc cs peer of
        Inl e \<Rightarrow> (Some e, s)
      | Inr items \<Rightarrow>
          (case lookup_entry s (object_id doc) of
             None \<Rightarrow> (None, put_entry s (object_id doc) (announced_entry doc cs items))
           | Some old \<Rightarrow>
               (case merge_announced (at os 5) old (announced_entry doc cs items) doc cs peer of
                  Inl e \<Rightarrow> (Some e, s)
                | Inr merged \<Rightarrow> (None, put_entry s (object_id doc) merged))))"
  by (auto simp: metadata_announce_def announce_checks_def announced_entry_def Let_def split: option.split sum.split)

lemma entry_keys:
  "entry_key (new_entry i name n) = i" "entry_key (announced_entry doc cs items) = object_id doc"
  "entry_key (e\<lparr>available := items\<rparr>) = entry_key e" "entry_key (forget_peer peer e) = entry_key e"
  by (simp_all add: entry_key_def new_entry_def announced_entry_def forget_peer_def)

lemma merge_key:
  "merge_announced os old (announced_entry doc cs items) doc cs peer = Inr merged \<Longrightarrow> entry_key old = object_id doc \<Longrightarrow>
     entry_key merged = object_id doc"
  by (auto simp: merge_announced_def entry_key_def announced_entry_def split: if_splits sum.splits option.splits)

lemma remove_peer_lookup:
  assumes "store_inv s"
  shows "lookup_entry (map (map (forget_peer peer)) s) = (\<lambda>i. map_option (forget_peer peer) (lookup_entry s i)) \<and>
    store_inv (map (map (forget_peer peer)) s)"
proof
  have len: "bucket i < length s" for i using assms bucket_less [of i] by (simp add: store_inv_def)
  have "find_entry (map (map (forget_peer peer)) s) i = find_entry s i" for i
    using len [of i] by (simp add: find_entry_key find_index_map entry_keys)
  then show "lookup_entry (map (map (forget_peer peer)) s) = (\<lambda>i. map_option (forget_peer peer) (lookup_entry s i))"
    using len find_entry_Some [of s] by (fastforce simp: lookup_entry_def option.map_comp o_def intro!: ext map_option_cong)
  have "map entry_key (map (forget_peer peer) b) = map entry_key b" for b by (simp add: entry_keys)
  then show "store_inv (map (map (forget_peer peer)) s)"
    using assms by (auto simp: store_inv_def entry_keys o_def)
qed

lemma metadata_step_refines:
  assumes "store_inv s"
  shows "(case metadata_step os op s of (r, s') \<Rightarrow> (r, lookup_entry s')) = index_step os op (lookup_entry s) \<and>
    store_inv (snd (metadata_step os op s))"
proof (cases op)
  case (Register i name n)
  then show ?thesis
    using assms index.lookup_put [OF assms, of "new_entry i name n" i] index.invar_put [OF assms, of "new_entry i name n" i]
    by (auto simp: metadata_register_document_def entry_keys split: option.split)
next
  case (Remove i)
  then show ?thesis
    using assms index.lookup_delete [OF assms] index.invar_delete [OF assms]
    by (auto simp: metadata_remove_document_def split: option.split)
next
  case (Change i k peer remove)
  have "metadata_step os op s = change_chunk os s i k peer remove"
    using Change by (simp add: metadata_register_chunk_def metadata_unregister_chunk_def)
  then show ?thesis
    using assms Change index.modify [OF assms, of i] entry_keys(3)
    by (auto simp: change_chunk_def Let_def split: option.split prod.split)
next
  case (Announce doc cs peer)
  have new: "lookup_entry (put_entry s (object_id doc) (announced_entry doc cs items)) =
      (lookup_entry s)(object_id doc \<mapsto> announced_entry doc cs items)"
    "store_inv (put_entry s (object_id doc) (announced_entry doc cs items))" for items
    by (rule index.lookup_put [OF assms entry_keys(2)], rule index.invar_put [OF assms entry_keys(2)])
  have old: "lookup_entry (put_entry s (object_id doc) e) = (lookup_entry s)(object_id doc \<mapsto> e)"
    "store_inv (put_entry s (object_id doc) e)"
    if "merge_announced (at os 5) o1 (announced_entry doc cs items) doc cs peer = Inr e" "lookup_entry s (object_id doc) = Some o1" for e o1 items
    by (rule index.lookup_put [OF assms merge_key [OF that(1) index.lookup_key [OF assms that(2)]]],
        rule index.invar_put [OF assms merge_key [OF that(1) index.lookup_key [OF assms that(2)]]])
  show ?thesis
    using assms Announce new old
    by (auto simp: announce_unfold split: option.split sum.split)
next
  case (RemovePeer peer)
  have "metadata_remove_peer os s peer = (case fault (at os 0) of Some e \<Rightarrow> (Some e, s) | None \<Rightarrow> (None, map (map (forget_peer peer)) s))"
    unfolding metadata_remove_peer_def forget_peer_def [abs_def] by (rule HOL.refl)
  with RemovePeer assms remove_peer_lookup [OF assms, of peer] show ?thesis
    by (auto split: option.split)
qed

section \<open>What the entries satisfy\<close>

definition entry_inv :: "Entry \<Rightarrow> bool" where
  "entry_inv e \<longleftrightarrow>
     ucast (chunk_count (document e)) = chunks_of_size (doc_size (document e)) \<and>
     distinct (available e) \<and> (\<forall>a \<in> set (available e). unat (avail_index a) < unat (chunk_count (document e))) \<and>
     (case chunks e of None \<Rightarrow> chunk_hashes (document e) = None
      | Some cs \<Rightarrow> length cs = unat (chunk_count (document e)) \<and> chunk_hashes (document e) = Some (map chunk_hash cs) \<and>
          (\<forall>i < length cs. chunk_consistent (document e) cs i))"

lemma announce_items_Inr:
  "announce_items n os doc cs peer i items = Inr items' \<Longrightarrow>
     items' = rev (map (\<lambda>k. \<lparr>avail_index = of_nat k, avail_peer = peer\<rparr>) [i..<i + n]) @ items \<and>
     (\<forall>k. i \<le> k \<longrightarrow> k < i + n \<longrightarrow> chunk_consistent doc cs k)"
proof (induction n arbitrary: i items)
  case (Suc n)
  then have c: "chunk_consistent doc cs i"
    and r: "announce_items n os doc cs peer (Suc i) (\<lparr>avail_index = of_nat i, avail_peer = peer\<rparr> # items) = Inr items'"
    by (auto split: if_splits option.splits)
  have "[i..<i + Suc n] = i # [Suc i..<Suc i + n]" by (simp add: upt_rec)
  moreover have "chunk_consistent doc cs k" if "i \<le> k" "k < i + Suc n" for k
    using that Suc.IH [OF r] c by (cases "k = i") auto
  ultimately show ?case using Suc.IH [OF r] by simp
qed simp

lemma copy_others_Inr:
  "copy_others os peer k old items = Inr items' \<Longrightarrow>
     items' = rev (filter (\<lambda>a. avail_peer a \<noteq> peer) old) @ items"
  by (induction os peer k old items rule: copy_others.induct) (auto split: if_splits)

lemma chunk_numbers_distinct:
  assumes "n \<le> 2 ^ 32"
  shows "distinct (map (\<lambda>k. \<lparr>avail_index = (of_nat k :: u64), avail_peer = peer\<rparr>) [0..<n])"
proof -
  have "inj_on (\<lambda>k. \<lparr>avail_index = (of_nat k :: u64), avail_peer = peer\<rparr>) {0..<n}"
  proof (rule inj_onI)
    fix j k assume "j \<in> {0..<n}" "k \<in> {0..<n}"
      "\<lparr>avail_index = (of_nat j :: u64), avail_peer = peer\<rparr> = \<lparr>avail_index = of_nat k, avail_peer = peer\<rparr>"
    then have "unat (of_nat j :: u64) = unat (of_nat k :: u64)" "j < 2 ^ 32" "k < 2 ^ 32" using assms by auto
    then show "j = k" by (simp add: unat_of_nat)
  qed
  then show ?thesis by (simp add: distinct_map)
qed

definition announced_items :: "nat \<Rightarrow> NodeID \<Rightarrow> Availability list" where
  "announced_items n peer = rev (map (\<lambda>k. \<lparr>avail_index = of_nat k, avail_peer = peer\<rparr>) [0..<n])"

lemma announced_items_props:
  assumes "n \<le> 2 ^ 32"
  shows "distinct (announced_items n peer)"
    and "a \<in> set (announced_items n peer) \<longleftrightarrow> avail_peer a = peer \<and> unat (avail_index a) < n"
proof -
  show "distinct (announced_items n peer)" using chunk_numbers_distinct [OF assms] by (simp add: announced_items_def)
  have "unat (of_nat k :: u64) = k" if "k < n" for k using that assms by (simp add: unat_of_nat)
  then show "a \<in> set (announced_items n peer) \<longleftrightarrow> avail_peer a = peer \<and> unat (avail_index a) < n"
    by (auto simp: announced_items_def image_iff intro!: bexI [of _ "unat (avail_index a)"])
qed

lemma announce_checks_Inr:
  assumes "announce_checks os doc cs peer = Inr items"
  shows "chunk_count doc \<noteq> 0" "ucast (chunk_count doc) = chunks_of_size (doc_size doc)"
    "items = announced_items (unat (chunk_count doc)) peer" "\<And>i. i < unat (chunk_count doc) \<Longrightarrow> chunk_consistent doc cs i"
  using assms announce_items_Inr [of "unat (chunk_count doc)" "at os 3" doc cs peer 0 "[]" items]
  by (auto simp: announce_checks_def announced_items_def split: if_splits option.splits sum.splits)

lemma count_bound: "unat (n :: u32) \<le> 2 ^ 32"
  using unsigned_less [of n, where 'a = nat] by simp

lemma unat_count_less: "(k :: u64) < ucast (n :: u32) \<longleftrightarrow> unat k < unat n"
proof -
  have "unat n < 2 ^ 64" using unsigned_less [of n, where 'a = nat] by simp
  then show ?thesis by (simp add: word_less_nat_alt unsigned_ucast_eq take_bit_nat_eq_self)
qed

lemma chunk_consistent_cong:
  assumes "doc_size doc' = doc_size doc" "chunk_hashes doc' = Some hs" "hs ! i = chunk_hash (cs ! i)" "cs' ! i = cs ! i"
    "chunk_consistent doc cs i"
  shows "chunk_consistent doc' cs' i"
  using assms by (auto simp: chunk_consistent_def Let_def)

lemma announced_entry_inv:
  assumes "announce_checks os doc cs peer = Inr items" "unat (chunk_count doc) \<le> length cs"
  shows "entry_inv (announced_entry doc cs items)"
proof -
  note c = announce_checks_Inr [OF assms(1)]
  have "chunk_consistent (document (announced_entry doc cs items)) (take (unat (chunk_count doc)) cs) i"
    if "i < unat (chunk_count doc)" for i
    by (rule chunk_consistent_cong [OF _ _ _ _ c(4) [OF that]]) (use that assms(2) in \<open>auto simp: announced_entry_def\<close>)
  then show ?thesis
    using c assms(2) announced_items_props [OF count_bound, where n1 = "chunk_count doc" and peer = peer]
    by (auto simp: entry_inv_def announced_entry_def)
qed

lemma merge_entry_inv:
  assumes "announce_checks os doc cs peer = Inr items" "unat (chunk_count doc) \<le> length cs" "entry_inv old"
    "merge_announced os' old (announced_entry doc cs items) doc cs peer = Inr e"
  shows "entry_inv e"
    and "set (available e) = {a. avail_peer a = peer \<and> unat (avail_index a) < unat (chunk_count doc)} \<union>
      {a \<in> set (available old). avail_peer a \<noteq> peer}"
    and "chunk_count (document e) = chunk_count doc" "doc_size (document e) = doc_size doc"
    "chunks e = Some (take (unat (chunk_count doc)) cs)" "chunk_hashes (document e) = Some (map chunk_hash (take (unat (chunk_count doc)) cs))"
proof -
  note c = announce_checks_Inr [OF assms(1)]
  note i = announced_items_props [OF count_bound, where n1 = "chunk_count doc" and peer = peer]
  have same: "doc_size (document old) = doc_size doc" "chunk_count (document old) = chunk_count doc"
    and av: "available e = rev (filter (\<lambda>a. avail_peer a \<noteq> peer) (available old)) @ items"
    using assms(4) by (auto simp: merge_announced_def announced_entry_def dest!: copy_others_Inr split: if_splits sum.splits)
  have doc: "chunk_count (document e) = chunk_count doc" "doc_size (document e) = doc_size doc"
    "chunks e = Some (take (unat (chunk_count doc)) cs)" "chunk_hashes (document e) = Some (map chunk_hash (take (unat (chunk_count doc)) cs))"
    using assms(4) same by (auto simp: merge_announced_def announced_entry_def split: if_splits sum.splits)
  show "chunk_count (document e) = chunk_count doc" "doc_size (document e) = doc_size doc"
    "chunks e = Some (take (unat (chunk_count doc)) cs)" "chunk_hashes (document e) = Some (map chunk_hash (take (unat (chunk_count doc)) cs))"
    by (rule doc)+
  show "set (available e) = {a. avail_peer a = peer \<and> unat (avail_index a) < unat (chunk_count doc)} \<union>
      {a \<in> set (available old). avail_peer a \<noteq> peer}"
    using av i(2) c(3) by auto
  have "chunk_consistent (document e) (take (unat (chunk_count doc)) cs) k" if "k < unat (chunk_count doc)" for k
    by (rule chunk_consistent_cong [OF doc(2,4) _ _ c(4) [OF that]]) (use that assms(2) in auto)
  moreover have "distinct (available e)" using assms(3) av c(3) i by (auto simp: entry_inv_def)
  moreover have "\<forall>a \<in> set (available e). unat (avail_index a) < unat (chunk_count doc)"
    using assms(3) av c(3) i(2) same by (auto simp: entry_inv_def)
  ultimately show "entry_inv e" using doc c(2) assms(2) by (simp add: entry_inv_def)
qed

lemma entry_inv_available:
  "entry_inv e \<Longrightarrow> distinct items \<Longrightarrow> \<forall>a \<in> set items. unat (avail_index a) < unat (chunk_count (document e)) \<Longrightarrow>
     entry_inv (e\<lparr>available := items\<rparr>)"
  by (cases "chunks e") (auto simp: entry_inv_def)

lemma change_available_inv:
  assumes "distinct items" "\<forall>a \<in> set items. unat (avail_index a) < n" "unat k < n"
  shows "distinct (snd (change_available os items k peer remove)) \<and>
    (\<forall>a \<in> set (snd (change_available os items k peer remove)). unat (avail_index a) < n)"
proof (cases "find_index (\<lambda>a. avail_index a = k \<and> avail_peer a = peer) items")
  case None
  then have "\<lparr>avail_index = k, avail_peer = peer\<rparr> \<notin> set items" unfolding find_index_None by auto
  with None assms show ?thesis by (auto simp: change_available_def)
next
  case (Some j)
  have "distinct (take j items @ drop (Suc j) items)"
    using assms(1) by (simp add: set_take_disj_set_drop_if_distinct)
  moreover have "set (take j items @ drop (Suc j) items) \<subseteq> set items"
    by (auto dest: in_set_takeD in_set_dropD)
  ultimately show ?thesis using Some assms by (auto simp: change_available_def)
qed

definition index_inv :: "index_map \<Rightarrow> bool" where
  "index_inv m \<longleftrightarrow> (\<forall>i e. m i = Some e \<longrightarrow> entry_inv e)"

text \<open>The array of an announcement holds as many descriptors as the document has chunks.\<close>

fun op_ok :: "metadata_op \<Rightarrow> bool" where
  "op_ok (Announce doc cs peer) \<longleftrightarrow> unat (chunk_count doc) \<le> length cs"
| "op_ok _ \<longleftrightarrow> True"

lemma index_inv_upd: "index_inv m \<Longrightarrow> entry_inv e \<Longrightarrow> index_inv (m(i \<mapsto> e))"
  by (simp add: index_inv_def)

lemma new_entry_inv:
  assumes "unat (chunks_of_size n) < 2 ^ 32"
  shows "entry_inv (new_entry i name n)"
proof -
  have "(ucast (ucast (chunks_of_size n) :: u32) :: u64) = chunks_of_size n"
    using assms by (intro word_unat_eq_iff [THEN iffD2]) (simp add: unsigned_ucast_eq unsigned_take_bit_eq take_bit_nat_eq_self)
  then show ?thesis by (simp add: entry_inv_def new_entry_def)
qed

lemma index_step_inv:
  assumes "index_inv m" "op_ok op"
  shows "index_inv (snd (index_step os op m))"
proof (cases op)
  case (Register i name n)
  then show ?thesis using assms index_inv_upd new_entry_inv by (auto split: option.split)
next
  case (Remove i)
  then show ?thesis using assms by (auto simp: index_inv_def split: option.split)
next
  case (Change i k peer remove)
  have "entry_inv (e\<lparr>available := snd (change_available os (available e) k peer remove)\<rparr>)"
    if "m i = Some e" "\<not> ucast (chunk_count (document e)) \<le> k" for e
  proof -
    have e: "entry_inv e" using assms(1) that(1) by (simp add: index_inv_def)
    have "unat k < unat (chunk_count (document e))" using that(2) by (simp add: not_le unat_count_less)
    then have "distinct (snd (change_available os (available e) k peer remove)) \<and>
        (\<forall>a \<in> set (snd (change_available os (available e) k peer remove)). unat (avail_index a) < unat (chunk_count (document e)))"
      using e by (intro change_available_inv) (simp_all add: entry_inv_def)
    then show ?thesis using entry_inv_available [OF e] by blast
  qed
  then show ?thesis using assms(1) Change index_inv_upd by (auto simp: Let_def case_prod_beta split: option.split)
next
  case (Announce doc cs peer)
  then have len: "unat (chunk_count doc) \<le> length cs" using assms(2) by simp
  have "entry_inv (announced_entry doc cs items)" if "announce_checks os doc cs peer = Inr items" for items
    by (rule announced_entry_inv [OF that len])
  moreover have "entry_inv e" if "announce_checks os doc cs peer = Inr items" "m (object_id doc) = Some old"
    "merge_announced (at os 5) old (announced_entry doc cs items) doc cs peer = Inr e" for items old e
    using assms(1) that(2) by (intro merge_entry_inv(1) [OF that(1) len _ that(3)]) (simp add: index_inv_def)
  ultimately show ?thesis
    using Announce assms(1) index_inv_upd [OF assms(1)] by (simp split: option.split sum.split)
next
  case (RemovePeer peer)
  have "entry_inv (forget_peer peer e)" if "entry_inv e" for e
    using that unfolding forget_peer_def by (intro entry_inv_available) (auto simp: entry_inv_def)
  then show ?thesis using assms(1) RemovePeer by (auto simp: index_inv_def split: option.split)
qed

text \<open>The sizes of consistent chunks add up to the size of the document.\<close>

lemma ceiling_div:
  fixes n c :: nat
  assumes "0 < c"
  shows "k < n div c + (if n mod c \<noteq> 0 then 1 else 0) \<Longrightarrow> k * c < n"
    and "n \<le> (n div c + (if n mod c \<noteq> 0 then 1 else 0)) * c"
proof -
  have n: "n = n div c * c + n mod c" "n mod c < c" using assms by simp_all
  have "n \<le> n div c * c + c" "n mod c = 0 \<Longrightarrow> n \<le> n div c * c" using n by linarith+
  then show "n \<le> (n div c + (if n mod c \<noteq> 0 then 1 else 0)) * c" by (simp add: distrib_right)
  assume "k < n div c + (if n mod c \<noteq> 0 then 1 else 0)"
  then consider "k < n div c" | "k = n div c" "0 < n mod c" by (auto simp: less_Suc_eq split: if_splits)
  then show "k * c < n"
  proof cases
    case 1
    then have "k * c < n div c * c" using assms by simp
    then show ?thesis using n(1) by linarith
  next
    case 2
    then have "k * c = n div c * c" by simp
    then show ?thesis using n(1) 2(2) by linarith
  qed
qed

lemma chunks_of_size_nat:
  "unat (chunks_of_size n) = unat n div 4194304 + (if unat n mod 4194304 \<noteq> 0 then 1 else 0)"
proof -
  have "unat n div 4194304 < 2 ^ 64 - 1" using unsigned_less [of n, where 'a = nat] by (simp add: div_less_dividend less_mult_imp_div_less)
  moreover have "n mod 4194304 = 0 \<longleftrightarrow> unat n mod 4194304 = 0" by (simp add: unat_eq_zero [symmetric] unat_mod_distrib)
  ultimately show ?thesis
    by (simp add: chunks_of_size_def METADATA_CHUNK_SIZE_def unat_word_ariths(1) unat_div_distrib)
qed

lemma consistent_raw_size:
  assumes "chunk_consistent doc cs i" "i * 4194304 < unat (doc_size doc)"
  shows "unat (raw_size (cs ! i)) = min 4194304 (unat (doc_size doc) - i * 4194304)"
proof -
  have lt: "i * 4194304 < 2 ^ 64" using assms(2) unsigned_less [of "doc_size doc", where 'a = nat] by simp
  have off: "unat (of_nat i * METADATA_CHUNK_SIZE) = i * 4194304"
    using lt by (simp add: METADATA_CHUNK_SIZE_def unat_word_ariths(2) unat_of_nat take_bit_nat_eq_self)
  have "unat (doc_size doc - of_nat i * METADATA_CHUNK_SIZE) = unat (doc_size doc) - i * 4194304"
    using off assms(2) by (simp add: unat_sub word_le_nat_alt)
  moreover have "unat (ucast (raw_size (cs ! i)) :: u64) = unat (raw_size (cs ! i))"
    using count_bound [of "raw_size (cs ! i)"] by (simp add: unsigned_ucast_eq take_bit_nat_eq_self)
  ultimately show ?thesis
    using assms(1) by (auto simp: chunk_consistent_def Let_def METADATA_CHUNK_SIZE_def word_less_nat_alt min_def split: if_splits)
qed

lemma raw_sizes_sum:
  assumes "n = unat (chunks_of_size (doc_size doc))" "\<And>i. i < n \<Longrightarrow> chunk_consistent doc cs i" "k \<le> n"
  shows "(\<Sum>i < k. unat (raw_size (cs ! i))) = min (k * 4194304) (unat (doc_size doc))"
  using assms(3)
proof (induction k)
  case (Suc k)
  have "k * 4194304 < unat (doc_size doc)"
    using Suc.prems assms(1) unfolding chunks_of_size_nat by (intro ceiling_div(1)) simp_all
  with Suc consistent_raw_size [OF assms(2), of k] show ?case by auto
qed simp

lemma entry_sizes:
  assumes "entry_inv e" "chunks e = Some cs"
  shows "(\<Sum>c \<leftarrow> cs. unat (raw_size c)) = unat (doc_size (document e))"
proof -
  let ?n = "unat (chunks_of_size (doc_size (document e)))"
  have "unat (ucast (chunk_count (document e)) :: u64) = unat (chunk_count (document e))"
    using count_bound [of "chunk_count (document e)"] by (simp add: unsigned_ucast_eq take_bit_nat_eq_self)
  then have n: "length cs = ?n" and c: "\<And>i. i < ?n \<Longrightarrow> chunk_consistent (document e) cs i"
    using assms by (auto simp: entry_inv_def)
  have "unat (doc_size (document e)) \<le> ?n * 4194304" unfolding chunks_of_size_nat by (rule ceiling_div(2)) simp
  then show ?thesis
    using raw_sizes_sum [OF HOL.refl c order.refl] n by (simp add: sum_list_sum_nth atLeast0LessThan)
qed

section \<open>Runs of the index\<close>

fun metadata_run :: "(os \<times> metadata_op) list \<Rightarrow> MetadataStore \<Rightarrow> errno option list \<times> MetadataStore" where
  "metadata_run [] s = ([], s)"
| "metadata_run ((os, op) # ops) s =
     (let (r, s1) = metadata_step os op s; (rs, s2) = metadata_run ops s1 in (r # rs, s2))"

fun index_run :: "(os \<times> metadata_op) list \<Rightarrow> index_map \<Rightarrow> errno option list \<times> index_map" where
  "index_run [] m = ([], m)"
| "index_run ((os, op) # ops) m =
     (let (r, m1) = index_step os op m; (rs, m2) = index_run ops m1 in (r # rs, m2))"

lemma run_refines:
  "store_inv s \<Longrightarrow> metadata_run ops s = (rs, s') \<Longrightarrow> index_run ops (lookup_entry s) = (rs, lookup_entry s') \<and> store_inv s'"
proof (induction ops arbitrary: s rs)
  case (Cons x ops)
  obtain os op where x: "x = (os, op)" by (cases x)
  obtain r s1 where s1: "metadata_step os op s = (r, s1)" by (cases "metadata_step os op s")
  obtain rs2 where r2: "metadata_run ops s1 = (rs2, s')" "rs = r # rs2"
    using Cons.prems(2) x s1 by (auto simp: Let_def split: prod.splits)
  have "index_step os op (lookup_entry s) = (r, lookup_entry s1)" "store_inv s1"
    using metadata_step_refines [OF Cons.prems(1), of os op] s1 by auto
  with Cons.IH [OF _ r2(1)] x r2(2) show ?case by simp
qed simp

lemma index_run_inv:
  "index_inv m \<Longrightarrow> list_all (\<lambda>x. op_ok (snd x)) ops \<Longrightarrow> index_inv (snd (index_run ops m))"
proof (induction ops arbitrary: m)
  case (Cons x ops)
  then show ?case using index_step_inv [of m "snd x" "fst x"] by (cases x) (auto simp: Let_def case_prod_beta)
qed simp

lemma created_store:
  assumes "metadata_create os = Inr s"
  shows "store_inv s" "lookup_entry s = Map.empty"
proof -
  have "s = replicate BUCKET_COUNT []" using assms by (auto simp: metadata_create_def split: option.splits)
  then show "store_inv s" "lookup_entry s = Map.empty"
    by (auto simp: store_inv_def lookup_entry_None bucket_less)
qed

section \<open>Properties\<close>

text \<open>A document of one chunk, for the witnesses.\<close>

definition sample_chunk :: MetadataChunk where
  "sample_chunk = \<lparr>chunk_index = 0, chunk_offset = 0, raw_size = 5, compressed_size = 7, chunk_hash = [9]\<rparr>"

definition sample_document :: FileMetadata where
  "sample_document = \<lparr>object_id = [1, 2], filename = [97, 0], doc_size = 5, chunk_count = 1, chunk_hashes = None,
     doc_version = 0, doc_owner = 4\<rparr>"

definition sample_ops :: "(os \<times> metadata_op) list" where
  "sample_ops = [(calm, Register [1, 2] [97] 5), (calm, Change [1, 2] 0 [7] False),
     (calm, Announce sample_document [sample_chunk] [8]), (calm, RemovePeer [7])]"

lemma index_refines_run:
  assumes "metadata_create os = Inr s" "metadata_run ops s = (rs, s')"
  shows "index_run ops Map.empty = (rs, lookup_entry s')" "store_inv s'"
  using run_refines [OF created_store(1) [OF assms(1)] assms(2)] created_store(2) [OF assms(1)] by simp_all

text \<open>
C21: The index is a map of documents. Every sequence of operations on a created store, each under
its own faults, returns the results, and leaves under every identifier the entry, that the
operations return and leave on a plain map from identifiers to entries.
\<close>
theorem metadata_refines_map:
  assumes "metadata_create os = Inr s" "metadata_run ops s = (rs, s')"
  shows "index_run ops Map.empty = (rs, lookup_entry s')"
  by (rule index_refines_run(1) [OF assms])

theorem metadata_refines_map_witness:
  "index_run sample_ops Map.empty = (fst (metadata_run sample_ops (replicate BUCKET_COUNT [])),
     lookup_entry (snd (metadata_run sample_ops (replicate BUCKET_COUNT []))))"
  by (rule metadata_refines_map [of calm]) (simp_all add: metadata_create_def)

lemma reachable_entry_inv:
  assumes "metadata_create os = Inr s" "metadata_run ops s = (rs, s')" "list_all (\<lambda>x. op_ok (snd x)) ops"
    "lookup_entry s' i = Some e"
  shows "entry_inv e"
proof -
  have "index_inv (snd (index_run ops Map.empty))" by (rule index_run_inv [OF _ assms(3)]) (simp add: index_inv_def)
  then show ?thesis using index_refines_run(1) [OF assms(1,2)] assms(4) by (simp add: index_inv_def)
qed

lemma entries_consistent:
  assumes "metadata_create os = Inr s" "metadata_run ops s = (rs, s')" "list_all (\<lambda>x. op_ok (snd x)) ops"
    "lookup_entry s' i = Some e"
  shows "ucast (chunk_count (document e)) = chunks_of_size (doc_size (document e))"
    and "distinct (available e)" "list_all (\<lambda>a. unat (avail_index a) < unat (chunk_count (document e))) (available e)"
    and "case chunks e of None \<Rightarrow> chunk_hashes (document e) = None
      | Some cs \<Rightarrow> length cs = unat (chunk_count (document e)) \<and> chunk_hashes (document e) = Some (map chunk_hash cs) \<and>
          (\<Sum>c \<leftarrow> cs. unat (raw_size c)) = unat (doc_size (document e))"
proof -
  have e: "entry_inv e" by (rule reachable_entry_inv [OF assms])
  then show "ucast (chunk_count (document e)) = chunks_of_size (doc_size (document e))" "distinct (available e)"
    "list_all (\<lambda>a. unat (avail_index a) < unat (chunk_count (document e))) (available e)"
    by (simp_all add: entry_inv_def list_all_iff)
  show "case chunks e of None \<Rightarrow> chunk_hashes (document e) = None
      | Some cs \<Rightarrow> length cs = unat (chunk_count (document e)) \<and> chunk_hashes (document e) = Some (map chunk_hash cs) \<and>
          (\<Sum>c \<leftarrow> cs. unat (raw_size c)) = unat (doc_size (document e))"
    using e entry_sizes [OF e] by (auto simp: entry_inv_def split: option.split)
qed

text \<open>
C30: Every entry of the index is consistent. After any sequence of operations and faults, a document
has the number of chunks its size asks for, each peer is recorded at most once for a chunk and
only for chunks the document has, and where the chunks were announced there is one descriptor for
each, their hashes are those of the document and their sizes add up to the size of the document.
\<close>
theorem metadata_entries_consistent:
  assumes "metadata_create os = Inr s" "metadata_run ops s = (rs, s')" "list_all (\<lambda>x. op_ok (snd x)) ops"
    "lookup_entry s' i = Some e"
  shows "ucast (chunk_count (document e)) = chunks_of_size (doc_size (document e)) \<and> distinct (available e) \<and>
    list_all (\<lambda>a. unat (avail_index a) < unat (chunk_count (document e))) (available e) \<and>
    (case chunks e of None \<Rightarrow> chunk_hashes (document e) = None
      | Some cs \<Rightarrow> length cs = unat (chunk_count (document e)) \<and> chunk_hashes (document e) = Some (map chunk_hash cs) \<and>
          (\<Sum>c \<leftarrow> cs. unat (raw_size c)) = unat (doc_size (document e)))"
  by (intro conjI entries_consistent [OF assms])

lemma sample_facts:
  "cstr [97, 0] = [97]" "chunk_consistent sample_document [sample_chunk] 0" "object_id sample_document = [1, 2]"
  "chunk_count sample_document = 1" "chunks_of_size 5 = 1" "doc_size sample_document = 5"
  "filename sample_document = [97, 0]" "chunk_hash sample_chunk = [9]"
  by (simp_all add: sample_document_def sample_chunk_def cstr_def chunk_consistent_def chunks_of_size_def METADATA_CHUNK_SIZE_def Let_def)

lemma sample_announce:
  "announce_checks calm sample_document [sample_chunk] peer = Inr [\<lparr>avail_index = 0, avail_peer = peer\<rparr>]"
  by (simp add: announce_checks_def sample_facts METADATA_NAME_SIZE_def)

lemma sample_index:
  "snd (index_run sample_ops Map.empty) [1, 2] =
     Some \<lparr>document = sample_document\<lparr>filename := [97, 0], chunk_hashes := Some [[9]], doc_version := 1\<rparr>,
       available = [\<lparr>avail_index = 0, avail_peer = [8]\<rparr>], chunks = Some [sample_chunk]\<rparr>"
  by (simp add: sample_ops_def sample_facts sample_announce announced_entry_def merge_announced_def new_entry_def
      change_available_def forget_peer_def cstr_zero_padded METADATA_NAME_SIZE_def Let_def strcpy_def)

theorem metadata_entries_consistent_witness:
  "distinct [\<lparr>avail_index = (0 :: u64), avail_peer = [8 :: byte]\<rparr>] \<and> (\<Sum>c \<leftarrow> [sample_chunk]. unat (raw_size c)) = 5"
proof -
  let ?run = "metadata_run sample_ops (replicate BUCKET_COUNT [])"
  have c: "metadata_create calm = Inr (replicate BUCKET_COUNT [])" by (simp add: metadata_create_def)
  have ok: "list_all (\<lambda>x. op_ok (snd x)) sample_ops" by (simp add: sample_ops_def sample_facts)
  note r = surjective_pairing [of ?run]
  note l = sample_index [unfolded index_refines_run(1) [OF c r], unfolded snd_conv]
  show ?thesis
    using metadata_entries_consistent [OF c r ok l] by (simp add: sample_facts)
qed

section \<open>Announcements and failures\<close>

definition holders :: "MetadataStore \<Rightarrow> ObjectID \<Rightarrow> u64 \<Rightarrow> NodeID set" where
  "holders s i k = (case lookup_entry s i of None \<Rightarrow> {}
     | Some e \<Rightarrow> avail_peer ` {a \<in> set (available e). avail_index a = k})"

lemma chunk_peers_holders: "metadata_chunk_peers os s i k = Inr ps \<Longrightarrow> set ps = holders s i k"
  by (auto simp: metadata_chunk_peers_def holders_def Let_def filter_empty_conv split: option.splits if_splits)

lemma in_holders:
  "q \<in> holders s i k \<longleftrightarrow> (\<exists>e. lookup_entry s i = Some e \<and> \<lparr>avail_index = k, avail_peer = q\<rparr> \<in> set (available e))"
proof -
  have "(\<exists>a. a \<in> set items \<and> avail_index a = k \<and> q = avail_peer a) \<longleftrightarrow> \<lparr>avail_index = k, avail_peer = q\<rparr> \<in> set items" for items
    by (metis (full_types) Availability.select_convs Availability.surjective old.unit.exhaust)
  then show ?thesis by (auto simp: holders_def image_iff split: option.split)
qed

lemma announce_entry:
  assumes "store_inv s" "metadata_announce os s doc cs peer = (None, s')" "unat (chunk_count doc) \<le> length cs"
    "\<And>old. lookup_entry s (object_id doc) = Some old \<Longrightarrow> entry_inv old"
  obtains e where "lookup_entry s' = (lookup_entry s)(object_id doc \<mapsto> e)" "chunk_count (document e) = chunk_count doc"
    "chunks e = Some (take (unat (chunk_count doc)) cs)"
    "set (available e) = {a. avail_peer a = peer \<and> unat (avail_index a) < unat (chunk_count doc)} \<union>
       (case lookup_entry s (object_id doc) of None \<Rightarrow> {} | Some old \<Rightarrow> {a \<in> set (available old). avail_peer a \<noteq> peer})"
proof -
  obtain items where items: "announce_checks os doc cs peer = Inr items"
    using assms(2) by (auto simp: announce_unfold split: sum.splits)
  note i = announce_checks_Inr(3) [OF items] announced_items_props(2) [OF count_bound, where n1 = "chunk_count doc" and peer = peer]
  show ?thesis
  proof (cases "lookup_entry s (object_id doc)")
    case None
    then have "s' = put_entry s (object_id doc) (announced_entry doc cs items)"
      using assms(2) items by (simp add: announce_unfold)
    then have "lookup_entry s' = (lookup_entry s)(object_id doc \<mapsto> announced_entry doc cs items)"
      using index.lookup_put [OF assms(1) entry_keys(2)] by simp
    then show ?thesis by (rule that) (use i None in \<open>auto simp: announced_entry_def\<close>)
  next
    case (Some old)
    then obtain e where e: "merge_announced (at os 5) old (announced_entry doc cs items) doc cs peer = Inr e"
      and s': "s' = put_entry s (object_id doc) e"
      using assms(2) items by (auto simp: announce_unfold split: sum.splits)
    note m = merge_entry_inv [OF items assms(3) assms(4) [OF Some] e]
    have "lookup_entry s' = (lookup_entry s)(object_id doc \<mapsto> e)"
      unfolding s' by (rule index.lookup_put [OF assms(1) merge_key [OF e index.lookup_key [OF assms(1) Some]]])
    then show ?thesis by (rule that) (use m Some in auto)
  qed
qed

lemma announce_effect:
  assumes "metadata_create os0 = Inr s0" "metadata_run ops s0 = (rs, s)" "list_all (\<lambda>x. op_ok (snd x)) ops"
    "metadata_announce os s doc cs peer = (None, s')" "unat (chunk_count doc) \<le> length cs" "unat k < unat (chunk_count doc)"
  shows "holders s' (object_id doc) k = insert peer (holders s (object_id doc) k)"
    and "metadata_chunk_peers os1 s' (object_id doc) k = Inr ps \<Longrightarrow> set ps = insert peer (holders s (object_id doc) k)"
    and "metadata_chunk_descriptor calm s' (object_id doc) k = Inr (cs ! unat k)"
    and "i \<noteq> object_id doc \<Longrightarrow> lookup_entry s' i = lookup_entry s i"
proof -
  obtain e where e: "lookup_entry s' = (lookup_entry s)(object_id doc \<mapsto> e)" "chunk_count (document e) = chunk_count doc"
    "chunks e = Some (take (unat (chunk_count doc)) cs)"
    "set (available e) = {a. avail_peer a = peer \<and> unat (avail_index a) < unat (chunk_count doc)} \<union>
       (case lookup_entry s (object_id doc) of None \<Rightarrow> {} | Some old \<Rightarrow> {a \<in> set (available old). avail_peer a \<noteq> peer})"
    by (rule announce_entry [OF index_refines_run(2) [OF assms(1,2)] assms(4,5) reachable_entry_inv [OF assms(1-3)]])
  have "\<lparr>avail_index = k, avail_peer = peer\<rparr> \<in> set (available e)" using e(4) assms(6) by simp
  then have p: "peer \<in> holders s' (object_id doc) k" using e(1) by (simp add: in_holders)
  have q: "q \<in> holders s' (object_id doc) k \<longleftrightarrow> q \<in> holders s (object_id doc) k" if "q \<noteq> peer" for q
    using that e(1,4) by (cases "lookup_entry s (object_id doc)") (simp_all add: in_holders)
  show h: "holders s' (object_id doc) k = insert peer (holders s (object_id doc) k)"
  proof (rule set_eqI)
    show "x \<in> holders s' (object_id doc) k \<longleftrightarrow> x \<in> insert peer (holders s (object_id doc) k)" for x
      using p q [of x] by (cases "x = peer") simp_all
  qed
  show "set ps = insert peer (holders s (object_id doc) k)" if "metadata_chunk_peers os1 s' (object_id doc) k = Inr ps"
    using chunk_peers_holders [OF that] h by simp
  show "metadata_chunk_descriptor calm s' (object_id doc) k = Inr (cs ! unat k)"
    using e(1-3) assms(6) by (simp add: metadata_chunk_descriptor_def unat_count_less)
  show "lookup_entry s' i = lookup_entry s i" if "i \<noteq> object_id doc" using e(1) that by simp
qed

text \<open>
A successful announcement makes its peer a holder of every chunk of the document, keeps the other
holders, stores the announced descriptors, and changes no other document.
\<close>
theorem metadata_announce_effect:
  assumes "metadata_create os0 = Inr s0" "metadata_run ops s0 = (rs, s)" "list_all (\<lambda>x. op_ok (snd x)) ops"
    "metadata_announce os s doc cs peer = (None, s')" "unat (chunk_count doc) \<le> length cs" "unat k < unat (chunk_count doc)"
  shows "holders s' (object_id doc) k = insert peer (holders s (object_id doc) k) \<and>
    (\<forall>os1 ps. metadata_chunk_peers os1 s' (object_id doc) k = Inr ps \<longrightarrow> set ps = insert peer (holders s (object_id doc) k)) \<and>
    metadata_chunk_descriptor calm s' (object_id doc) k = Inr (cs ! unat k) \<and>
    (\<forall>i. i \<noteq> object_id doc \<longrightarrow> lookup_entry s' i = lookup_entry s i)"
  by (intro conjI allI impI announce_effect [OF assms])

theorem metadata_announce_effect_witness:
  "holders (snd (metadata_announce calm (replicate BUCKET_COUNT []) sample_document [sample_chunk] [8])) [1, 2] 0 = {[8]}"
proof -
  let ?s = "replicate BUCKET_COUNT []"
  have c: "metadata_create calm = Inr ?s" by (simp add: metadata_create_def)
  have l: "lookup_entry ?s = Map.empty" by (rule created_store(2) [OF c])
  have "metadata_announce calm ?s sample_document [sample_chunk] [8] =
      (None, snd (metadata_announce calm ?s sample_document [sample_chunk] [8]))"
    by (simp add: announce_unfold sample_announce l)
  from metadata_announce_effect [OF c metadata_run.simps(1) _ this, of 0] show ?thesis
    by (simp add: sample_facts holders_def [of ?s] l)
qed

text \<open>
A failing operation changes nothing: whatever it was and whichever call failed, every lookup
answers after it as it did before.
\<close>
theorem metadata_failure_keeps:
  assumes "metadata_create os0 = Inr s0" "metadata_run ops s0 = (rs, s)" "metadata_step os op s = (Some e, s')"
  shows "lookup_entry s' = lookup_entry s"
proof -
  have "index_step os op (lookup_entry s) = (Some e, lookup_entry s')"
    using metadata_step_refines [OF index_refines_run(2) [OF assms(1,2)], of os op] assms(3) by simp
  then show ?thesis
    by (cases op) (auto simp: change_available_def Let_def fun_upd_idem split: if_splits option.splits sum.splits)
qed

theorem metadata_failure_keeps_witness:
  "lookup_entry (snd (metadata_step calm (Remove [3]) (replicate BUCKET_COUNT []))) = lookup_entry (replicate BUCKET_COUNT [])"
proof -
  have c: "metadata_create calm = Inr (replicate BUCKET_COUNT [])" by (simp add: metadata_create_def)
  have "metadata_step calm (Remove [3]) (replicate BUCKET_COUNT []) = (Some ENOENT, snd (metadata_step calm (Remove [3]) (replicate BUCKET_COUNT [])))"
    using created_store(2) [OF c] by (simp add: metadata_remove_document_def)
  then show ?thesis by (rule metadata_failure_keeps [OF c metadata_run.simps(1)])
qed

end
