(* ===== verification/Transfer_Format.thy ===== *)
theory Transfer_Format
  imports Metadata Rpc
begin

text \<open>
  The payloads of transfers (\<^verbatim>\<open>transfer_protocol.c\<close>, \<^verbatim>\<open>transfer_types.h\<close>): documents, chunks, lookups with the
  locations of chunks, announcements.

  Names and addresses are the arrays that hold them. An encoder returns the buffer with its length, a decoder what it stores
  through its pointers. Where the code counts elements beside an array, the list has these elements. The call sites are the
  allocations; \<open>decode_locations\<close> numbers them by the chunks that remain. Transaction identifiers are in \<open>Rpc\<close>.
\<close>

section \<open>Data\<close>

definition DOCUMENT_FIXED_SIZE :: nat where
  "DOCUMENT_FIXED_SIZE = OBJECT_ID_SIZE + 8 + 8 + 1 + 2"

definition CHUNK_FIXED_SIZE :: u32 where
  "CHUNK_FIXED_SIZE = 1 + of_nat OBJECT_ID_SIZE + 8 + 8 + 4 + 4 + of_nat OBJECT_ID_SIZE"

definition ENDPOINT_FIXED_SIZE :: nat where
  "ENDPOINT_FIXED_SIZE = NODE_ID_SIZE + 1 + 2"

definition DESCRIPTOR_SIZE :: nat where
  "DESCRIPTOR_SIZE = 56"

definition COMPRESSION_LZ4 :: byte where
  "COMPRESSION_LZ4 = 1"

datatype TransferStoreOperation = TRANSFER_STORE_BEGIN | TRANSFER_STORE_CHUNK | TRANSFER_STORE_COMMIT | TRANSFER_STORE_ANNOUNCE

primrec store_code :: "TransferStoreOperation \<Rightarrow> byte" where
  "store_code TRANSFER_STORE_BEGIN = 1"
| "store_code TRANSFER_STORE_CHUNK = 2"
| "store_code TRANSFER_STORE_COMMIT = 3"
| "store_code TRANSFER_STORE_ANNOUNCE = 5"

datatype TransferDownloadOperation = TRANSFER_DOWNLOAD_METADATA | TRANSFER_DOWNLOAD_CHUNK

primrec download_code :: "TransferDownloadOperation \<Rightarrow> byte" where
  "download_code TRANSFER_DOWNLOAD_METADATA = 3"
| "download_code TRANSFER_DOWNLOAD_CHUNK = 2"

datatype TransferSelectorType = TRANSFER_SELECTOR_OBJECT_ID | TRANSFER_SELECTOR_NAME

primrec selector_code :: "TransferSelectorType \<Rightarrow> byte" where
  "selector_code TRANSFER_SELECTOR_OBJECT_ID = 1"
| "selector_code TRANSFER_SELECTOR_NAME = 2"

record TransferDocument =
  transfer_id :: ObjectID
  transfer_name :: "byte list"
  file_size :: u64
  transfer_chunk_count :: u64
  compression :: byte

record TransferChunk =
  tc_id :: ObjectID
  tc_index :: u64
  tc_offset :: u64
  tc_raw_size :: u32
  tc_compressed_size :: u32
  tc_hash :: "byte list"
  tc_data :: "byte list"

record TransferEndpoint =
  endpoint_node :: NodeID
  endpoint_ip :: "byte list"
  endpoint_port :: u16

record TransferChunkLocations =
  descriptor :: MetadataChunk
  peers :: "TransferEndpoint list"

record TransferLookupResult =
  lookup_document :: TransferDocument
  lookup_chunks :: "TransferChunkLocations list"

text \<open>\<open>sizeof(TransferChunkLocations)\<close> and \<open>sizeof(MetadataChunk)\<close> on the 64-bit target.\<close>

definition LOCATIONS_SLOT_SIZE :: nat where
  "LOCATIONS_SLOT_SIZE = 72"

definition DESCRIPTOR_SLOT_SIZE :: nat where
  "DESCRIPTOR_SLOT_SIZE = 56"

section \<open>Documents\<close>

definition bounded_string_length :: "byte list \<Rightarrow> nat \<Rightarrow> nat" where
  "bounded_string_length text capacity = length (cstr (take capacity text))"

definition object_id_from_hex :: "byte list \<Rightarrow> ObjectID option" where
  "object_id_from_hex text =
     (if length (cstr text) \<noteq> OBJECT_ID_SIZE * 2 then None
      else case hex_pairs (map (\<lambda>b. char_of (unat b)) (cstr text)) of Inl _ \<Rightarrow> None | Inr i \<Rightarrow> Some i)"

definition document_wire_size :: "TransferDocument \<Rightarrow> nat" where
  "document_wire_size d = 1 + DOCUMENT_FIXED_SIZE + bounded_string_length (transfer_name d) METADATA_NAME_SIZE"

definition encode_document_at :: "TransferDocument \<Rightarrow> byte \<Rightarrow> nat \<Rightarrow> byte list result" where
  "encode_document_at d operation capacity =
     (let name_size = bounded_string_length (transfer_name d) METADATA_NAME_SIZE in
      if name_size = 0 \<or> METADATA_NAME_SIZE \<le> name_size \<or> compression d \<noteq> COMPRESSION_LZ4 \<or>
         transfer_chunk_count d \<noteq> chunks_of_size (file_size d) \<or> capacity < 1 + DOCUMENT_FIXED_SIZE + name_size
      then Inl EINVAL
      else Inr ([operation] @ transfer_id d @ wire_put_u64 (file_size d) @ wire_put_u64 (transfer_chunk_count d) @
        [compression d] @ wire_put_u16 (of_nat name_size) @ take name_size (transfer_name d)))"

definition decode_document_at :: "byte list \<Rightarrow> byte \<Rightarrow> (TransferDocument \<times> nat) result" where
  "decode_document_at bytes expected =
     (if length bytes < 1 + DOCUMENT_FIXED_SIZE \<or> bytes ! 0 \<noteq> expected then Inl EBADMSG
      else
        let name_size = unat (wire_get_u16 (drop 50 bytes));
            name = take name_size (drop 52 bytes);
            d = \<lparr>transfer_id = take OBJECT_ID_SIZE (drop 1 bytes), transfer_name = zero_padded METADATA_NAME_SIZE name,
                 file_size = wire_get_u64 (drop 33 bytes), transfer_chunk_count = wire_get_u64 (drop 41 bytes),
                 compression = bytes ! 49\<rparr> in
        if name_size = 0 \<or> METADATA_NAME_SIZE \<le> name_size \<or> length bytes < 52 + name_size \<or> 0 \<in> set name \<or> 0x2f \<in> set name \<or>
           compression d \<noteq> COMPRESSION_LZ4 \<or> transfer_chunk_count d \<noteq> chunks_of_size (file_size d)
        then Inl EBADMSG
        else Inr (d, 52 + name_size))"

definition transfer_encode_document :: "os \<Rightarrow> TransferDocument \<Rightarrow> byte \<Rightarrow> byte list result" where
  "transfer_encode_document os d operation =
     (let n = document_wire_size d in
      if unat MAX_PAYLOAD_SIZE < n \<or> UINT_MAX < n then Inl EOVERFLOW
      else case fault (at os 0) of Some e \<Rightarrow> Inl e | None \<Rightarrow> encode_document_at d operation n)"

definition transfer_decode_document :: "byte list \<Rightarrow> byte \<Rightarrow> TransferDocument result" where
  "transfer_decode_document bytes expected =
     (case decode_document_at bytes expected of Inl _ \<Rightarrow> Inl EBADMSG
      | Inr (d, used) \<Rightarrow> if used \<noteq> length bytes then Inl EBADMSG else Inr d)"

section \<open>Chunks and objects\<close>

text \<open>The sum of the sizes is of type \<open>unsigned int\<close> before it is stored in a \<open>size_t\<close>.\<close>

definition transfer_encode_chunk :: "os \<Rightarrow> TransferChunk \<Rightarrow> byte \<Rightarrow> byte list result" where
  "transfer_encode_chunk os c operation =
     (if tc_raw_size c = 0 \<or> tc_compressed_size c = 0 then Inl EINVAL
      else
        let n = unat (CHUNK_FIXED_SIZE + tc_compressed_size c) in
        if unat MAX_PAYLOAD_SIZE < n \<or> UINT_MAX < n then Inl EOVERFLOW
        else case fault (at os 0) of Some e \<Rightarrow> Inl e
        | None \<Rightarrow> Inr ([operation] @ tc_id c @ wire_put_u64 (tc_index c) @ wire_put_u64 (tc_offset c) @ wire_put_u32 (tc_raw_size c) @
            wire_put_u32 (tc_compressed_size c) @ tc_hash c @ take (unat (tc_compressed_size c)) (tc_data c)))"

definition transfer_decode_chunk :: "byte list \<Rightarrow> byte \<Rightarrow> TransferChunk result" where
  "transfer_decode_chunk bytes expected =
     (if length bytes < unat CHUNK_FIXED_SIZE \<or> bytes ! 0 \<noteq> expected then Inl EBADMSG
      else
        let c = \<lparr>tc_id = take OBJECT_ID_SIZE (drop 1 bytes), tc_index = wire_get_u64 (drop 33 bytes),
              tc_offset = wire_get_u64 (drop 41 bytes), tc_raw_size = wire_get_u32 (drop 49 bytes),
              tc_compressed_size = wire_get_u32 (drop 53 bytes), tc_hash = take OBJECT_ID_SIZE (drop 57 bytes),
              tc_data = drop 89 bytes\<rparr> in
        if tc_raw_size c = 0 \<or> unat METADATA_CHUNK_SIZE < unat (tc_raw_size c) \<or> tc_compressed_size c = 0 \<or>
           89 + unat (tc_compressed_size c) \<noteq> length bytes
        then Inl EBADMSG
        else Inr c)"

definition transfer_encode_object_operation :: "os \<Rightarrow> byte \<Rightarrow> ObjectID \<Rightarrow> byte list result" where
  "transfer_encode_object_operation os operation i =
     (case fault (at os 0) of Some e \<Rightarrow> Inl e | None \<Rightarrow> Inr ([operation] @ i))"

definition transfer_decode_object_operation :: "byte list \<Rightarrow> byte \<Rightarrow> ObjectID result" where
  "transfer_decode_object_operation bytes expected =
     (if length bytes \<noteq> 1 + OBJECT_ID_SIZE \<or> bytes ! 0 \<noteq> expected then Inl EBADMSG else Inr (take OBJECT_ID_SIZE (drop 1 bytes)))"

definition transfer_encode_chunk_request :: "os \<Rightarrow> ObjectID \<Rightarrow> u64 \<Rightarrow> byte list result" where
  "transfer_encode_chunk_request os i index =
     (case fault (at os 0) of Some e \<Rightarrow> Inl e
      | None \<Rightarrow> Inr ([download_code TRANSFER_DOWNLOAD_CHUNK] @ i @ wire_put_u64 index))"

definition transfer_decode_chunk_request :: "byte list \<Rightarrow> (ObjectID \<times> u64) result" where
  "transfer_decode_chunk_request bytes =
     (if length bytes \<noteq> 1 + OBJECT_ID_SIZE + 8 \<or> bytes ! 0 \<noteq> download_code TRANSFER_DOWNLOAD_CHUNK then Inl EBADMSG
      else Inr (take OBJECT_ID_SIZE (drop 1 bytes), wire_get_u64 (drop (1 + OBJECT_ID_SIZE) bytes)))"

section \<open>Lookups\<close>

definition transfer_encode_lookup_request :: "os \<Rightarrow> byte list \<Rightarrow> byte list result" where
  "transfer_encode_lookup_request os selector =
     (case object_id_from_hex selector of
        Some i \<Rightarrow>
          (case fault (at os 0) of Some e \<Rightarrow> Inl e
           | None \<Rightarrow> Inr ([selector_code TRANSFER_SELECTOR_OBJECT_ID] @ wire_put_u16 (of_nat OBJECT_ID_SIZE) @ i))
      | None \<Rightarrow>
          (let n = length (cstr selector) in
           if n = 0 \<or> METADATA_NAME_SIZE \<le> n then Inl EINVAL
           else case fault (at os 0) of Some e \<Rightarrow> Inl e
           | None \<Rightarrow> Inr ([selector_code TRANSFER_SELECTOR_NAME] @ wire_put_u16 (of_nat n) @ cstr selector)))"

text \<open>The identifier and the name array that the caller gets; the one that the type does not select is zeroed.\<close>

definition transfer_decode_lookup_request :: "byte list \<Rightarrow> (TransferSelectorType \<times> ObjectID \<times> byte list) result" where
  "transfer_decode_lookup_request bytes =
     (if length bytes < 3 then Inl EBADMSG
      else
        let n = unat (wire_get_u16 (drop 1 bytes)); text = take n (drop 3 bytes) in
        if bytes ! 0 \<notin> {selector_code TRANSFER_SELECTOR_OBJECT_ID, selector_code TRANSFER_SELECTOR_NAME} \<or> 3 + n \<noteq> length bytes
        then Inl EBADMSG
        else if bytes ! 0 = selector_code TRANSFER_SELECTOR_OBJECT_ID then
          (if n \<noteq> OBJECT_ID_SIZE then Inl EBADMSG
           else Inr (TRANSFER_SELECTOR_OBJECT_ID, text, replicate METADATA_NAME_SIZE 0))
        else if n = 0 \<or> METADATA_NAME_SIZE \<le> n \<or> 0 \<in> set text \<or> 0x2f \<in> set text then Inl EBADMSG
        else Inr (TRANSFER_SELECTOR_NAME, replicate OBJECT_ID_SIZE 0, zero_padded METADATA_NAME_SIZE text))"

definition encode_descriptor :: "MetadataChunk \<Rightarrow> byte list" where
  "encode_descriptor c = wire_put_u64 (chunk_index c) @ wire_put_u64 (chunk_offset c) @ wire_put_u32 (raw_size c) @
     wire_put_u32 (compressed_size c) @ chunk_hash c"

definition decode_descriptor :: "byte list \<Rightarrow> MetadataChunk" where
  "decode_descriptor bytes =
     \<lparr>chunk_index = wire_get_u64 bytes, chunk_offset = wire_get_u64 (drop 8 bytes), raw_size = wire_get_u32 (drop 16 bytes),
      compressed_size = wire_get_u32 (drop 20 bytes), chunk_hash = take OBJECT_ID_SIZE (drop 24 bytes)\<rparr>"

text \<open>The sizes of the endpoints of a chunk and of all chunks, added to \<open>n\<close>.\<close>

fun endpoints_size :: "nat \<Rightarrow> TransferEndpoint list \<Rightarrow> nat result" where
  "endpoints_size n [] = Inr n"
| "endpoints_size n (e # es) =
     (let ip_size = bounded_string_length (endpoint_ip e) NODE_ADDRESS_SIZE in
      if ip_size = 0 \<or> NODE_ADDRESS_SIZE \<le> ip_size \<or> SIZE_MAX - ENDPOINT_FIXED_SIZE - ip_size < n then Inl EINVAL
      else endpoints_size (n + ENDPOINT_FIXED_SIZE + ip_size) es)"

fun locations_size :: "nat \<Rightarrow> TransferChunkLocations list \<Rightarrow> nat result" where
  "locations_size n [] = Inr n"
| "locations_size n (l # ls) =
     (if 65535 < length (peers l) \<or> SIZE_MAX - 2 - DESCRIPTOR_SIZE < n then Inl EOVERFLOW
      else case endpoints_size (n + 2 + DESCRIPTOR_SIZE) (peers l) of Inl e \<Rightarrow> Inl e | Inr n \<Rightarrow> locations_size n ls)"

definition encode_endpoint :: "TransferEndpoint \<Rightarrow> byte list" where
  "encode_endpoint e = endpoint_node e @ [of_nat (length (cstr (endpoint_ip e)))] @ cstr (endpoint_ip e) @ wire_put_u16 (endpoint_port e)"

definition encode_locations :: "TransferChunkLocations \<Rightarrow> byte list" where
  "encode_locations l = encode_descriptor (descriptor l) @ wire_put_u16 (of_nat (length (peers l))) @ concat (map encode_endpoint (peers l))"

definition transfer_encode_lookup_result :: "os \<Rightarrow> TransferLookupResult \<Rightarrow> byte list result" where
  "transfer_encode_lookup_result os r =
     (let d = lookup_document r; ls = take (unat (transfer_chunk_count d)) (lookup_chunks r) in
      case locations_size (document_wire_size d) ls of Inl e \<Rightarrow> Inl e
      | Inr n \<Rightarrow>
          if unat MAX_PAYLOAD_SIZE < n \<or> UINT_MAX < n then Inl EOVERFLOW
          else case fault (at os 0) of Some e \<Rightarrow> Inl e
          | None \<Rightarrow>
              (case encode_document_at d (download_code TRANSFER_DOWNLOAD_METADATA) n of Inl e \<Rightarrow> Inl e
               | Inr bytes \<Rightarrow> Inr (bytes @ concat (map encode_locations ls))))"

text \<open>\<open>n\<close> endpoints from an offset on, and the offset behind them.\<close>

primrec decode_endpoints :: "nat \<Rightarrow> byte list \<Rightarrow> nat \<Rightarrow> (TransferEndpoint list \<times> nat) result" where
  "decode_endpoints 0 bytes offset = Inr ([], offset)"
| "decode_endpoints (Suc n) bytes offset =
     (if length bytes < offset + ENDPOINT_FIXED_SIZE then Inl EBADMSG
      else
        let ip_size = unat (bytes ! (offset + NODE_ID_SIZE)); ip_offset = offset + NODE_ID_SIZE + 1 in
        if ip_size = 0 \<or> NODE_ADDRESS_SIZE \<le> ip_size \<or> length bytes < ip_offset + ip_size + 2 then Inl EBADMSG
        else
          let e = \<lparr>endpoint_node = take NODE_ID_SIZE (drop offset bytes),
                endpoint_ip = zero_padded NODE_ADDRESS_SIZE (take ip_size (drop ip_offset bytes)),
                endpoint_port = wire_get_u16 (drop (ip_offset + ip_size) bytes)\<rparr> in
          if endpoint_port e = 0 then Inl EBADMSG
          else case decode_endpoints n bytes (ip_offset + ip_size + 2) of Inl er \<Rightarrow> Inl er
          | Inr (es, offset) \<Rightarrow> Inr (e # es, offset))"

text \<open>\<open>n\<close> chunks from number \<open>k\<close> on.\<close>

primrec decode_locations :: "nat \<Rightarrow> os \<Rightarrow> u64 \<Rightarrow> byte list \<Rightarrow> nat \<Rightarrow> TransferChunkLocations list result" where
  "decode_locations 0 os k bytes offset = (if offset \<noteq> length bytes then Inl EBADMSG else Inr [])"
| "decode_locations (Suc n) os k bytes offset =
     (if length bytes < offset + DESCRIPTOR_SIZE + 2 then Inl EBADMSG
      else
        let c = decode_descriptor (drop offset bytes); count = unat (wire_get_u16 (drop (offset + DESCRIPTOR_SIZE) bytes)) in
        if chunk_index c \<noteq> k then Inl EBADMSG
        else case (if count \<noteq> 0 then fault (at os n) else None) of Some e \<Rightarrow> Inl e
        | None \<Rightarrow>
            (case decode_endpoints count bytes (offset + DESCRIPTOR_SIZE + 2) of Inl e \<Rightarrow> Inl e
             | Inr (es, offset) \<Rightarrow>
                 (case decode_locations n os (k + 1) bytes offset of Inl e \<Rightarrow> Inl e
                  | Inr ls \<Rightarrow> Inr (\<lparr>descriptor = c, peers = es\<rparr> # ls))))"

text \<open>Where the count is beyond the size of an array \<open>errno\<close> is not set; the model answers \<open>EBADMSG\<close>.\<close>

definition transfer_decode_lookup_result :: "os \<Rightarrow> byte list \<Rightarrow> TransferLookupResult result" where
  "transfer_decode_lookup_result os bytes =
     (case decode_document_at bytes (download_code TRANSFER_DOWNLOAD_METADATA) of Inl e \<Rightarrow> Inl e
      | Inr (d, offset) \<Rightarrow>
          let n = unat (transfer_chunk_count d) in
          if SIZE_MAX div LOCATIONS_SLOT_SIZE < n then Inl EBADMSG
          else if (length bytes - offset) div (DESCRIPTOR_SIZE + 2) < n then Inl EBADMSG
          else case (if n \<noteq> 0 then fault (at os 0) else None) of Some e \<Rightarrow> Inl e
          | None \<Rightarrow>
              (case decode_locations n (at os 1) 0 bytes offset of Inl e \<Rightarrow> Inl e
               | Inr ls \<Rightarrow> Inr \<lparr>lookup_document = d, lookup_chunks = ls\<rparr>))"

section \<open>Announcements\<close>

definition transfer_encode_announcement :: "os \<Rightarrow> TransferDocument \<Rightarrow> MetadataChunk list \<Rightarrow> byte list result" where
  "transfer_encode_announcement os d cs =
     (let base = document_wire_size d; n = unat (transfer_chunk_count d) in
      if unat MAX_PAYLOAD_SIZE < base \<or> (unat MAX_PAYLOAD_SIZE - base) div DESCRIPTOR_SIZE < n then Inl EMSGSIZE
      else case fault (at os 0) of Some e \<Rightarrow> Inl e
      | None \<Rightarrow>
          (case encode_document_at d (store_code TRANSFER_STORE_ANNOUNCE) (base + n * DESCRIPTOR_SIZE) of Inl e \<Rightarrow> Inl e
           | Inr bytes \<Rightarrow> Inr (bytes @ concat (map encode_descriptor (take n cs)))))"

definition transfer_decode_announcement :: "os \<Rightarrow> byte list \<Rightarrow> (TransferDocument \<times> MetadataChunk list) result" where
  "transfer_decode_announcement os bytes =
     (case decode_document_at bytes (store_code TRANSFER_STORE_ANNOUNCE) of Inl e \<Rightarrow> Inl e
      | Inr (d, used) \<Rightarrow>
          let n = unat (transfer_chunk_count d); rest = length bytes - used in
          if n = 0 \<or> rest div DESCRIPTOR_SIZE < n \<or> rest \<noteq> n * DESCRIPTOR_SIZE \<or> SIZE_MAX div DESCRIPTOR_SLOT_SIZE < n then Inl EBADMSG
          else case fault (at os 0) of Some e \<Rightarrow> Inl e
          | None \<Rightarrow> Inr (d, map (\<lambda>i. decode_descriptor (drop (used + i * DESCRIPTOR_SIZE) bytes)) [0..<n]))"

section \<open>Documents\<close>

definition document_wf :: "TransferDocument \<Rightarrow> bool" where
  "document_wf d \<longleftrightarrow> length (transfer_id d) = OBJECT_ID_SIZE \<and> transfer_name d = zero_padded METADATA_NAME_SIZE (cstr (transfer_name d)) \<and>
     cstr (transfer_name d) \<noteq> [] \<and> length (cstr (transfer_name d)) < METADATA_NAME_SIZE \<and> 0x2f \<notin> set (cstr (transfer_name d)) \<and>
     compression d = COMPRESSION_LZ4 \<and> transfer_chunk_count d = chunks_of_size (file_size d)"

definition document_bytes :: "byte \<Rightarrow> TransferDocument \<Rightarrow> byte list" where
  "document_bytes operation d = [operation] @ transfer_id d @ wire_put_u64 (file_size d) @ wire_put_u64 (transfer_chunk_count d) @
     [compression d] @ wire_put_u16 (of_nat (length (cstr (transfer_name d)))) @ cstr (transfer_name d)"

lemma bounded_name: "document_wf d \<Longrightarrow> bounded_string_length (transfer_name d) METADATA_NAME_SIZE = length (cstr (transfer_name d))"
proof -
  assume "document_wf d"
  then have "length (transfer_name d) = METADATA_NAME_SIZE"
    unfolding document_wf_def by (metis length_zero_padded less_or_eq_imp_le)
  then show ?thesis by (simp add: bounded_string_length_def)
qed

lemma take_drop_join: "take n (drop a xs) @ drop (a + n) xs = drop a xs"
  by (metis append_take_drop_id drop_drop add.commute)

lemma take_cstr: "take (length (cstr bs)) bs = cstr bs"
  by (simp add: cstr_def takeWhile_eq_take [symmetric])

lemma length_document_bytes: "document_wf d \<Longrightarrow> length (document_bytes op d) = 52 + length (cstr (transfer_name d))"
  by (simp add: document_bytes_def document_wf_def OBJECT_ID_SIZE_def)

lemma wire_size: "document_wf d \<Longrightarrow> document_wire_size d = length (document_bytes op d)"
  by (simp add: document_wire_size_def bounded_name length_document_bytes DOCUMENT_FIXED_SIZE_def OBJECT_ID_SIZE_def)

lemma encode_document:
  "document_wf d \<Longrightarrow> length (document_bytes op d) \<le> capacity \<Longrightarrow> encode_document_at d op capacity = Inr (document_bytes op d)"
  using bounded_name [of d] length_document_bytes [of d op] take_cstr [of "transfer_name d"]
  by (simp add: encode_document_at_def document_bytes_def Let_def DOCUMENT_FIXED_SIZE_def) (simp add: document_wf_def OBJECT_ID_SIZE_def)

lemma decode_document:
  assumes "document_wf d"
  shows "decode_document_at (document_bytes op d @ rest) op = Inr (d, length (document_bytes op d))"
proof -
  let ?n = "cstr (transfer_name d)" and ?b = "document_bytes op d @ rest"
  have w: "length (transfer_id d) = 32" "length ?n < 256" "?n \<noteq> []" "0x2f \<notin> set ?n" "compression d = COMPRESSION_LZ4"
    "transfer_chunk_count d = chunks_of_size (file_size d)" "zero_padded METADATA_NAME_SIZE ?n = transfer_name d"
    using assms by (auto simp: document_wf_def OBJECT_ID_SIZE_def METADATA_NAME_SIZE_def)
  have f: "?b ! 0 = op" "take OBJECT_ID_SIZE (drop 1 ?b) = transfer_id d" "wire_get_u64 (drop 33 ?b) = file_size d"
    "wire_get_u64 (drop 41 ?b) = transfer_chunk_count d" "?b ! 49 = compression d" "wire_get_u16 (drop 50 ?b) = of_nat (length ?n)"
    "drop 52 ?b = ?n @ rest"
    using w(1) by (simp_all add: document_bytes_def OBJECT_ID_SIZE_def nth_append)
  have u: "unat (of_nat (length ?n) :: u16) = length ?n" using w(2) by (simp add: unat_of_nat take_bit_nat_eq_self)
  have len: "length ?b = 52 + length ?n + length rest" using length_document_bytes [OF assms] by simp
  show ?thesis unfolding decode_document_at_def Let_def f u len using w
    by (simp add: DOCUMENT_FIXED_SIZE_def OBJECT_ID_SIZE_def METADATA_NAME_SIZE_def length_document_bytes [OF assms])
qed

lemma decode_document_Inr:
  assumes "decode_document_at bytes op = Inr (d, used)"
  shows "document_wf d \<and> used \<le> length bytes \<and> take used bytes = document_bytes op d \<and> used = length (document_bytes op d)"
proof -
  let ?s = "unat (wire_get_u16 (drop 50 bytes))"
  let ?n = "take ?s (drop 52 bytes)"
  have g: "52 \<le> length bytes" "bytes ! 0 = op" "?s \<noteq> 0" "?s < 256" "52 + ?s \<le> length bytes" "0 \<notin> set ?n" "0x2f \<notin> set ?n"
    "used = 52 + ?s" "transfer_id d = take 32 (drop 1 bytes)" "transfer_name d = zero_padded 256 ?n" "file_size d = wire_get_u64 (drop 33 bytes)"
    "transfer_chunk_count d = wire_get_u64 (drop 41 bytes)" "compression d = bytes ! 49" "compression d = COMPRESSION_LZ4"
    "transfer_chunk_count d = chunks_of_size (file_size d)"
    using assms unfolding decode_document_at_def Let_def DOCUMENT_FIXED_SIZE_def OBJECT_ID_SIZE_def METADATA_NAME_SIZE_def
    by (auto simp: not_less not_le split: if_splits)
  have n: "cstr (transfer_name d) = ?n" "length ?n = ?s" using g(6,10) cstr_zero_padded g(5) by simp_all
  have "document_wf d"
    using g n by (auto simp: document_wf_def OBJECT_ID_SIZE_def METADATA_NAME_SIZE_def)
  moreover have "take used bytes = document_bytes op d"
  proof -
    have "used = 1 + (32 + (8 + (8 + (1 + (2 + ?s)))))" using g(8) by simp
    then have "take used bytes = take 1 bytes @ take 32 (drop 1 bytes) @ take 8 (drop 33 bytes) @ take 8 (drop 41 bytes) @ take 1 (drop 49 bytes) @
        take 2 (drop 50 bytes) @ ?n"
      by (simp only: take_add drop_drop) simp
    also have "\<dots> = document_bytes op d"
    proof -
      have "take 1 bytes = [op]" using g(1,2) by (cases bytes) simp_all
      moreover have "take 1 (drop 49 bytes) = [bytes ! 49]" using g(1) by (simp add: take_Suc hd_drop_conv_nth)
      moreover have "of_nat ?s = wire_get_u16 (drop 50 bytes)" by simp
      ultimately show ?thesis unfolding document_bytes_def n g(9,11,12,13) using g(1,5)
        by (simp add: wire_put_get_u64 wire_put_get_u16)
    qed
    finally show ?thesis .
  qed
  ultimately show ?thesis using g(5,8) n length_document_bytes [of d op] by simp
qed


text \<open>
The decoder of documents accepts exactly what the encoder produces: a payload of the given operation decodes to a document if and only if
the document is well formed (an identifier of 32 bytes, a name of 1 to 255 bytes without a slash, zero padded, LZ4, and the number of chunks that its
size asks for) and encodes to that payload.\<close>

theorem transfer_document_codec:
  "transfer_decode_document bytes op = Inr d \<longleftrightarrow> document_wf d \<and> transfer_encode_document calm d op = Inr bytes"
proof
  assume "transfer_decode_document bytes op = Inr d"
  then have "decode_document_at bytes op = Inr (d, length bytes)"
    by (auto simp: transfer_decode_document_def split: sum.splits if_splits)
  from decode_document_Inr [OF this] have w: "document_wf d" "bytes = document_bytes op d" by auto
  have "length bytes < 52 + 256" using w length_document_bytes [OF w(1), of op] by (simp add: document_wf_def METADATA_NAME_SIZE_def)
  then show "document_wf d \<and> transfer_encode_document calm d op = Inr bytes"
    using w encode_document [OF w(1), of op] wire_size [OF w(1), of op]
    by (simp add: transfer_encode_document_def Let_def MAX_PAYLOAD_SIZE_def UINT_MAX_def)
next
  assume a: "document_wf d \<and> transfer_encode_document calm d op = Inr bytes"
  then have "bytes = document_bytes op d"
    using encode_document [of d op] wire_size [of d op] by (auto simp: transfer_encode_document_def Let_def split: if_splits)
  then show "transfer_decode_document bytes op = Inr d"
    using decode_document [of d op "[]"] a by (simp add: transfer_decode_document_def)
qed

section \<open>Chunks\<close>

definition chunk_wf :: "TransferChunk \<Rightarrow> bool" where
  "chunk_wf c \<longleftrightarrow> length (tc_id c) = OBJECT_ID_SIZE \<and> length (tc_hash c) = OBJECT_ID_SIZE \<and> tc_raw_size c \<noteq> 0 \<and>
     unat (tc_raw_size c) \<le> unat METADATA_CHUNK_SIZE \<and> tc_compressed_size c \<noteq> 0 \<and> length (tc_data c) = unat (tc_compressed_size c)"

definition chunk_bytes :: "byte \<Rightarrow> TransferChunk \<Rightarrow> byte list" where
  "chunk_bytes op c = [op] @ tc_id c @ wire_put_u64 (tc_index c) @ wire_put_u64 (tc_offset c) @ wire_put_u32 (tc_raw_size c) @
     wire_put_u32 (tc_compressed_size c) @ tc_hash c @ tc_data c"

lemma length_chunk_bytes: "chunk_wf c \<Longrightarrow> length (chunk_bytes op c) = 89 + unat (tc_compressed_size c)"
  by (simp add: chunk_bytes_def chunk_wf_def OBJECT_ID_SIZE_def)

lemma decode_chunk:
  assumes "chunk_wf c"
  shows "transfer_decode_chunk (chunk_bytes op c) op = Inr c"
proof -
  let ?b = "chunk_bytes op c"
  have w: "length (tc_id c) = 32" "length (tc_hash c) = 32" using assms by (simp_all add: chunk_wf_def OBJECT_ID_SIZE_def)
  have f: "?b ! 0 = op" "take OBJECT_ID_SIZE (drop 1 ?b) = tc_id c" "wire_get_u64 (drop 33 ?b) = tc_index c"
    "wire_get_u64 (drop 41 ?b) = tc_offset c" "wire_get_u32 (drop 49 ?b) = tc_raw_size c" "wire_get_u32 (drop 53 ?b) = tc_compressed_size c"
    "take OBJECT_ID_SIZE (drop 57 ?b) = tc_hash c" "drop 89 ?b = tc_data c"
    using w by (simp_all add: chunk_bytes_def OBJECT_ID_SIZE_def)
  show ?thesis unfolding transfer_decode_chunk_def Let_def f length_chunk_bytes [OF assms]
    using assms by (simp add: chunk_wf_def CHUNK_FIXED_SIZE_def OBJECT_ID_SIZE_def)
qed

lemma decode_chunk_Inr:
  assumes "transfer_decode_chunk bytes op = Inr c"
  shows "chunk_wf c \<and> bytes = chunk_bytes op c"
proof -
  have g: "89 \<le> length bytes" "bytes ! 0 = op" "tc_id c = take 32 (drop 1 bytes)" "tc_index c = wire_get_u64 (drop 33 bytes)"
    "tc_offset c = wire_get_u64 (drop 41 bytes)" "tc_raw_size c = wire_get_u32 (drop 49 bytes)" "tc_compressed_size c = wire_get_u32 (drop 53 bytes)"
    "tc_hash c = take 32 (drop 57 bytes)" "tc_data c = drop 89 bytes" "tc_raw_size c \<noteq> 0" "unat (tc_raw_size c) \<le> unat METADATA_CHUNK_SIZE"
    "tc_compressed_size c \<noteq> 0" "89 + unat (tc_compressed_size c) = length bytes"
    using assms unfolding transfer_decode_chunk_def Let_def CHUNK_FIXED_SIZE_def OBJECT_ID_SIZE_def
    by (auto simp: not_less split: if_splits)
  have w: "chunk_wf c" using g by (simp add: chunk_wf_def OBJECT_ID_SIZE_def)
  have "bytes = take 1 bytes @ drop 1 bytes" by simp
  also have "take 1 bytes = [op]" using g(1,2) by (cases bytes) simp_all
  also have "drop 1 bytes = take 32 (drop 1 bytes) @ take 8 (drop 33 bytes) @ take 8 (drop 41 bytes) @ take 4 (drop 49 bytes) @ take 4 (drop 53 bytes) @
      take 32 (drop 57 bytes) @ drop 89 bytes"
    using take_drop_join [of 32 57 bytes] take_drop_join [of 4 53 bytes] take_drop_join [of 4 49 bytes] take_drop_join [of 8 41 bytes]
      take_drop_join [of 8 33 bytes] take_drop_join [of 32 1 bytes] by simp
  also have "[op] @ \<dots> = chunk_bytes op c"
    unfolding chunk_bytes_def g(3-9) using g(1) by (simp add: wire_put_get_u64 wire_put_get_u32)
  finally show ?thesis using w by simp
qed


text \<open>
The decoder of chunks accepts exactly the encodings of well-formed chunks: for every payload that a message can carry, it decodes to a
chunk if and only if the chunk has a size of 1 byte to 4 MiB, its data have the recorded length, and it encodes to that payload.\<close>

theorem transfer_chunk_codec:
  assumes "length bytes \<le> unat MAX_PAYLOAD_SIZE"
  shows "transfer_decode_chunk bytes op = Inr c \<longleftrightarrow> chunk_wf c \<and> transfer_encode_chunk calm c op = Inr bytes"
proof -
  have sz: "unat (CHUNK_FIXED_SIZE + tc_compressed_size c) = 89 + unat (tc_compressed_size c)"
    if "89 + unat (tc_compressed_size c) \<le> unat MAX_PAYLOAD_SIZE"
  proof -
    have "unat CHUNK_FIXED_SIZE = 89" by (simp add: CHUNK_FIXED_SIZE_def OBJECT_ID_SIZE_def)
    moreover have "89 + unat (tc_compressed_size c) < 2 ^ 32" using that by (simp add: MAX_PAYLOAD_SIZE_def)
    ultimately show ?thesis by (simp add: unat_word_ariths)
  qed
  show ?thesis
  proof
    assume "transfer_decode_chunk bytes op = Inr c"
    then have w: "chunk_wf c" "bytes = chunk_bytes op c" using decode_chunk_Inr by blast+
    have l: "89 + unat (tc_compressed_size c) \<le> unat MAX_PAYLOAD_SIZE" using assms w length_chunk_bytes by simp
    have "take (unat (tc_compressed_size c)) (tc_data c) = tc_data c" using w(1) by (simp add: chunk_wf_def)
    then have "transfer_encode_chunk calm c op = Inr bytes" unfolding w(2) using sz [OF l] l w(1)
      by (simp add: transfer_encode_chunk_def chunk_bytes_def Let_def chunk_wf_def UINT_MAX_def MAX_PAYLOAD_SIZE_def)
    with w show "chunk_wf c \<and> transfer_encode_chunk calm c op = Inr bytes" by blast
  next
    assume a: "chunk_wf c \<and> transfer_encode_chunk calm c op = Inr bytes"
    then have "take (unat (tc_compressed_size c)) (tc_data c) = tc_data c" by (simp add: chunk_wf_def)
    then have "bytes = chunk_bytes op c"
      using a by (auto simp: transfer_encode_chunk_def chunk_bytes_def Let_def split: if_splits)
    then show "transfer_decode_chunk bytes op = Inr c" using decode_chunk a by simp
  qed
qed

definition sample_transfer :: TransferChunk where
  "sample_transfer = \<lparr>tc_id = replicate 32 7, tc_index = 1, tc_offset = 4194304, tc_raw_size = 5, tc_compressed_size = 3, tc_hash = replicate 32 9,
     tc_data = [1, 2, 3]\<rparr>"

lemma sample_transfer_wf: "chunk_wf sample_transfer"
  by (simp add: chunk_wf_def sample_transfer_def OBJECT_ID_SIZE_def METADATA_CHUNK_SIZE_def)

theorem transfer_chunk_codec_witness:
  "length (chunk_bytes 2 sample_transfer) \<le> unat MAX_PAYLOAD_SIZE \<and> transfer_encode_chunk calm sample_transfer 2 = Inr (chunk_bytes 2 sample_transfer)"
proof -
  have l: "length (chunk_bytes 2 sample_transfer) \<le> unat MAX_PAYLOAD_SIZE"
    using length_chunk_bytes [OF sample_transfer_wf, of 2] by (simp add: MAX_PAYLOAD_SIZE_def sample_transfer_def)
  then show ?thesis using transfer_chunk_codec [OF l, of 2 sample_transfer] decode_chunk [OF sample_transfer_wf] by blast
qed

text \<open>
The size of an encoded chunk is added up in 32 bits. For a recorded size of compressed data in the last 89 values of its type the sum wraps around
and passes the test against \<open>MAX_PAYLOAD_SIZE\<close>: the buffer has fewer than 89 bytes, and the data are copied behind it.\<close>

theorem transfer_chunk_size_wraps:
  assumes "2 ^ 32 - 89 \<le> unat (tc_compressed_size c)" "tc_raw_size c \<noteq> 0" "length (tc_data c) = unat (tc_compressed_size c)"
  shows "\<exists>bytes. transfer_encode_chunk calm c op = Inr bytes \<and> unat (CHUNK_FIXED_SIZE + tc_compressed_size c) < 89 \<and>
    unat (tc_compressed_size c) \<le> length bytes"
proof -
  have f: "unat CHUNK_FIXED_SIZE = 89" by (simp add: CHUNK_FIXED_SIZE_def OBJECT_ID_SIZE_def)
  have lt: "unat (tc_compressed_size c) < 2 ^ 32" using unsigned_less [of "tc_compressed_size c", where 'a = nat] by simp
  have "(89 + unat (tc_compressed_size c)) mod 2 ^ 32 = 89 + unat (tc_compressed_size c) - 2 ^ 32"
    using assms(1) lt by (subst mod_if) simp
  then have w: "unat (CHUNK_FIXED_SIZE + tc_compressed_size c) < 89" using f lt assms(1) by (simp add: unat_word_ariths)
  have "tc_compressed_size c \<noteq> 0" using assms(1) by auto
  then have "\<exists>bytes. transfer_encode_chunk calm c op = Inr bytes \<and> unat (tc_compressed_size c) \<le> length bytes"
    using assms(2,3) w by (simp add: transfer_encode_chunk_def Let_def UINT_MAX_def MAX_PAYLOAD_SIZE_def)
  with w show ?thesis by blast
qed

theorem transfer_chunk_size_wraps_witness:
  "\<exists>bytes. transfer_encode_chunk calm (sample_transfer\<lparr>tc_compressed_size := -1, tc_data := replicate 4294967295 0\<rparr>) 2 = Inr bytes \<and>
     unat (CHUNK_FIXED_SIZE + (-1)) < 89 \<and> 4294967295 \<le> length bytes"
proof -
  let ?c = "sample_transfer\<lparr>tc_compressed_size := -1, tc_data := replicate 4294967295 0\<rparr>"
  have u: "unat (- 1 :: u32) = 4294967295" by (simp add: unsigned_minus_1_eq_mask mask_eq_exp_minus_1)
  have l: "length (tc_data ?c) = 4294967295" by (simp only: sample_transfer_def TransferChunk.update_convs TransferChunk.select_convs length_replicate)
  have s: "tc_compressed_size ?c = -1" by (simp only: sample_transfer_def TransferChunk.update_convs TransferChunk.select_convs)
  have "tc_raw_size ?c = 5" by (simp only: sample_transfer_def TransferChunk.update_convs TransferChunk.select_convs)
  then have r: "tc_raw_size ?c \<noteq> 0" by (simp only:) simp
  have "2 ^ 32 - 89 \<le> unat (tc_compressed_size ?c)" unfolding s u by simp
  from transfer_chunk_size_wraps [OF this r, of 2] show ?thesis unfolding l s u by blast
qed

section \<open>Descriptors and announcements\<close>

lemma length_descriptor [simp]: "length (chunk_hash c) = 32 \<Longrightarrow> length (encode_descriptor c) = 56"
  by (simp add: encode_descriptor_def)

lemma decode_encode_descriptor [simp]: "length (chunk_hash c) = 32 \<Longrightarrow> decode_descriptor (encode_descriptor c @ rest) = c"
  by (simp add: encode_descriptor_def decode_descriptor_def OBJECT_ID_SIZE_def)

lemma encode_decode_descriptor:
  assumes "56 \<le> length bytes"
  shows "encode_descriptor (decode_descriptor bytes) = take 56 bytes" "length (chunk_hash (decode_descriptor bytes)) = 32"
proof -
  have "take (8 + (8 + (4 + (4 + 32)))) bytes = take 8 bytes @ take 8 (drop 8 bytes) @ take 4 (drop 16 bytes) @ take 4 (drop 20 bytes) @
      take 32 (drop 24 bytes)"
    by (simp only: take_add drop_drop) simp
  then show "encode_descriptor (decode_descriptor bytes) = take 56 bytes"
    using assms by (simp add: encode_descriptor_def decode_descriptor_def OBJECT_ID_SIZE_def wire_put_get_u64 wire_put_get_u32)
  show "length (chunk_hash (decode_descriptor bytes)) = 32" using assms by (simp add: decode_descriptor_def OBJECT_ID_SIZE_def)
qed

lemma concat_slices: "length xs = n * m \<Longrightarrow> concat (map (\<lambda>i. take m (drop (i * m) xs)) [0..<n]) = xs"
proof (induction n arbitrary: xs)
  case (Suc n)
  have "concat (map (\<lambda>i. take m (drop (i * m) (take (n * m) xs))) [0..<n]) = take (n * m) xs" by (rule Suc.IH) (use Suc.prems in simp)
  moreover have "take m (drop (i * m) (take (n * m) xs)) = take m (drop (i * m) xs)" if "i < n" for i
  proof -
    have "Suc i * m \<le> n * m" using that by (intro mult_right_mono) simp_all
    then have "min m (n * m - i * m) = m" by (simp add: min_def)
    then show ?thesis by (simp add: drop_take)
  qed
  then have "map (\<lambda>i. take m (drop (i * m) (take (n * m) xs))) [0..<n] = map (\<lambda>i. take m (drop (i * m) xs)) [0..<n]" by simp
  ultimately have "concat (map (\<lambda>i. take m (drop (i * m) xs)) [0..<n]) = take (n * m) xs" by metis
  then show ?case using Suc.prems by simp
qed simp

lemma slices_concat:
  "list_all (\<lambda>c. length (chunk_hash c) = 32) cs \<Longrightarrow> i < length cs \<Longrightarrow>
     \<exists>rest. drop (i * 56) (concat (map encode_descriptor cs)) = encode_descriptor (cs ! i) @ rest"
proof (induction cs arbitrary: i)
  case (Cons c cs)
  then show ?case by (cases i) (auto simp: add.commute)
qed simp

lemma length_descriptors: "list_all (\<lambda>c. length (chunk_hash c) = 32) cs \<Longrightarrow> length (concat (map encode_descriptor cs)) = length cs * 56"
  by (induction cs) simp_all

definition announcement_wf :: "TransferDocument \<Rightarrow> MetadataChunk list \<Rightarrow> bool" where
  "announcement_wf d cs \<longleftrightarrow> document_wf d \<and> cs \<noteq> [] \<and> length cs = unat (transfer_chunk_count d) \<and>
     list_all (\<lambda>c. length (chunk_hash c) = OBJECT_ID_SIZE) cs"

text \<open>
The decoder of announcements accepts exactly the encodings of announcements of non-empty documents: every payload that a message can
carry decodes to a document and descriptors if and only if the document is well formed, it has as many descriptors as chunks, at least one, and
both encode to that payload. The announcement of an empty document can be encoded, but is refused.\<close>

theorem transfer_announcement_codec:
  assumes "length bytes \<le> unat MAX_PAYLOAD_SIZE"
  shows "transfer_decode_announcement calm bytes = Inr (d, cs) \<longleftrightarrow> announcement_wf d cs \<and> transfer_encode_announcement calm d cs = Inr bytes"
proof
  let ?op = "store_code TRANSFER_STORE_ANNOUNCE" and ?n = "unat (transfer_chunk_count d)"
  assume a: "transfer_decode_announcement calm bytes = Inr (d, cs)"
  then obtain used where u: "decode_document_at bytes ?op = Inr (d, used)" "?n \<noteq> 0" "length bytes - used = ?n * 56"
    "cs = map (\<lambda>i. decode_descriptor (drop (used + i * 56) bytes)) [0..<?n]"
    by (auto simp: transfer_decode_announcement_def Let_def DESCRIPTOR_SIZE_def split: sum.splits if_splits)
  have w: "document_wf d" "used \<le> length bytes" "take used bytes = document_bytes ?op d" "used = length (document_bytes ?op d)"
    using decode_document_Inr [OF u(1)] by blast+
  have long: "56 \<le> length (drop (used + i * 56) bytes)" if "i < ?n" for i
  proof -
    have "Suc i * 56 \<le> ?n * 56" using that by (intro mult_right_mono) simp_all
    then show ?thesis using u(3) by simp
  qed
  have e: "map encode_descriptor cs = map (\<lambda>i. take 56 (drop (i * 56) (drop used bytes))) [0..<?n]"
    unfolding u(4) using encode_decode_descriptor(1) [OF long] by (simp add: add.commute)
  have rest: "concat (map encode_descriptor cs) = drop used bytes" unfolding e by (rule concat_slices) (use u(3) in simp)
  have hs: "list_all (\<lambda>c. length (chunk_hash c) = OBJECT_ID_SIZE) cs"
    unfolding u(4) using encode_decode_descriptor(2) [OF long] by (simp add: list_all_iff OBJECT_ID_SIZE_def)
  have b: "bytes = document_bytes ?op d @ concat (map encode_descriptor cs)" unfolding rest w(3) [symmetric] by simp
  have fit: "?n \<le> (unat MAX_PAYLOAD_SIZE - used) div 56" using u(3) w(2) assms by (simp add: less_eq_div_iff_mult_less_eq)
  have len: "length cs = ?n" unfolding u(4) by simp
  have "used \<le> unat MAX_PAYLOAD_SIZE" using w(2) assms by simp
  then have "transfer_encode_announcement calm d cs = Inr bytes"
    using w(1,4) fit len encode_document [OF w(1), of ?op] wire_size [OF w(1), of ?op] b [symmetric]
    by (simp add: transfer_encode_announcement_def Let_def DESCRIPTOR_SIZE_def not_less)
  then show "announcement_wf d cs \<and> transfer_encode_announcement calm d cs = Inr bytes"
    using w(1) u(2,4) hs by (simp add: announcement_wf_def)
next
  let ?op = "store_code TRANSFER_STORE_ANNOUNCE" and ?n = "unat (transfer_chunk_count d)"
  assume "announcement_wf d cs \<and> transfer_encode_announcement calm d cs = Inr bytes"
  then have w: "document_wf d" "cs \<noteq> []" "length cs = ?n" "list_all (\<lambda>c. length (chunk_hash c) = 32) cs"
    and a: "transfer_encode_announcement calm d cs = Inr bytes" by (simp_all add: announcement_wf_def OBJECT_ID_SIZE_def)
  let ?db = "document_bytes ?op d" and ?cb = "concat (map encode_descriptor cs)"
  have b: "bytes = ?db @ ?cb"
    using a w encode_document [OF w(1), of ?op] wire_size [OF w(1), of ?op]
    by (auto simp: transfer_encode_announcement_def Let_def split: if_splits)
  have "map (\<lambda>i. decode_descriptor (drop (length ?db + i * 56) bytes)) [0..<?n] = cs"
  proof (rule nth_equalityI)
    fix i assume "i < length (map (\<lambda>i. decode_descriptor (drop (length ?db + i * 56) bytes)) [0..<?n])"
    then have i: "i < ?n" by simp
    then obtain rest where "drop (i * 56) ?cb = encode_descriptor (cs ! i) @ rest" using slices_concat [OF w(4)] w(3) by metis
    then show "map (\<lambda>i. decode_descriptor (drop (length ?db + i * 56) bytes)) [0..<?n] ! i = cs ! i"
      using i w(3,4) by (simp add: b list_all_length)
  qed (use w(3) in simp)
  moreover have "0 < ?n" using w(2,3) by (metis length_greater_0_conv)
  moreover have "?n * 56 \<le> unat MAX_PAYLOAD_SIZE" using assms b length_descriptors [OF w(4)] w(3) by simp
  ultimately show "transfer_decode_announcement calm bytes = Inr (d, cs)"
    using decode_document [OF w(1), of ?op ?cb] w(2,3) length_descriptors [OF w(4)]
    by (simp add: transfer_decode_announcement_def Let_def DESCRIPTOR_SIZE_def DESCRIPTOR_SLOT_SIZE_def SIZE_MAX_def b MAX_PAYLOAD_SIZE_def)
qed

definition sample_transfer_document :: TransferDocument where
  "sample_transfer_document = \<lparr>transfer_id = replicate 32 7, transfer_name = zero_padded 256 [0x61, 0x2e, 0x63], file_size = 5000000, transfer_chunk_count = 2,
     compression = 1\<rparr>"

definition sample_descriptor :: "u64 \<Rightarrow> MetadataChunk" where
  "sample_descriptor k = \<lparr>chunk_index = k, chunk_offset = k * 4194304, raw_size = 805696, compressed_size = 400, chunk_hash = replicate 32 3\<rparr>"

lemma sample_transfer_document_wf: "document_wf sample_transfer_document"
proof -
  have "cstr (zero_padded 256 [0x61, 0x2e, 0x63]) = [0x61, 0x2e, 0x63 :: byte]" by (rule cstr_zero_padded) simp
  moreover have "chunks_of_size 5000000 = 2" by (simp add: chunks_of_size_def METADATA_CHUNK_SIZE_def)
  ultimately show ?thesis by (simp add: document_wf_def sample_transfer_document_def OBJECT_ID_SIZE_def METADATA_NAME_SIZE_def COMPRESSION_LZ4_def)
qed

theorem transfer_announcement_codec_witness:
  "\<exists>bytes. length bytes \<le> unat MAX_PAYLOAD_SIZE \<and>
     transfer_encode_announcement calm sample_transfer_document [sample_descriptor 0, sample_descriptor 1] = Inr bytes \<and>
     transfer_decode_announcement calm bytes = Inr (sample_transfer_document, [sample_descriptor 0, sample_descriptor 1])"
proof -
  let ?op = "store_code TRANSFER_STORE_ANNOUNCE" and ?cs = "[sample_descriptor 0, sample_descriptor 1]"
  let ?db = "document_bytes ?op sample_transfer_document"
  have h: "length (chunk_hash (sample_descriptor k)) = 32" for k by (simp add: sample_descriptor_def)
  have n: "length ?db = 55"
    using length_document_bytes [OF sample_transfer_document_wf, of ?op] cstr_zero_padded [of "[0x61, 0x2e, 0x63]" 256] by (simp add: sample_transfer_document_def)
  have c: "transfer_chunk_count sample_transfer_document = 2" by (simp add: sample_transfer_document_def)
  have l: "length (?db @ concat (map encode_descriptor ?cs)) \<le> unat MAX_PAYLOAD_SIZE" using n h by (simp add: MAX_PAYLOAD_SIZE_def)
  have e: "transfer_encode_announcement calm sample_transfer_document ?cs = Inr (?db @ concat (map encode_descriptor ?cs))"
    using n c encode_document [OF sample_transfer_document_wf, of ?op 167] wire_size [OF sample_transfer_document_wf, of ?op]
    by (simp add: transfer_encode_announcement_def Let_def DESCRIPTOR_SIZE_def MAX_PAYLOAD_SIZE_def)
  have "announcement_wf sample_transfer_document ?cs" using sample_transfer_document_wf c h by (simp add: announcement_wf_def OBJECT_ID_SIZE_def)
  then show ?thesis using transfer_announcement_codec [OF l, of sample_transfer_document ?cs] e l by blast
qed

section \<open>Lookups\<close>

definition endpoint_wf :: "TransferEndpoint \<Rightarrow> bool" where
  "endpoint_wf e \<longleftrightarrow> length (endpoint_node e) = NODE_ID_SIZE \<and> endpoint_ip e = zero_padded NODE_ADDRESS_SIZE (cstr (endpoint_ip e)) \<and>
     cstr (endpoint_ip e) \<noteq> [] \<and> length (cstr (endpoint_ip e)) < NODE_ADDRESS_SIZE \<and> endpoint_port e \<noteq> 0"

definition locations_wf :: "u64 \<Rightarrow> TransferChunkLocations \<Rightarrow> bool" where
  "locations_wf k l \<longleftrightarrow> chunk_index (descriptor l) = k \<and> length (chunk_hash (descriptor l)) = OBJECT_ID_SIZE \<and>
     length (peers l) \<le> 65535 \<and> list_all endpoint_wf (peers l)"

definition lookup_wf :: "TransferLookupResult \<Rightarrow> bool" where
  "lookup_wf r \<longleftrightarrow> document_wf (lookup_document r) \<and> length (lookup_chunks r) = unat (transfer_chunk_count (lookup_document r)) \<and>
     (\<forall>i < length (lookup_chunks r). locations_wf (of_nat i) (lookup_chunks r ! i))"

definition lookup_bytes :: "TransferLookupResult \<Rightarrow> byte list" where
  "lookup_bytes r = document_bytes (download_code TRANSFER_DOWNLOAD_METADATA) (lookup_document r) @ concat (map encode_locations (lookup_chunks r))"

lemma bounded_ip: "endpoint_wf e \<Longrightarrow> bounded_string_length (endpoint_ip e) NODE_ADDRESS_SIZE = length (cstr (endpoint_ip e))"
proof -
  assume "endpoint_wf e"
  then have "length (endpoint_ip e) = NODE_ADDRESS_SIZE"
    unfolding endpoint_wf_def by (metis length_zero_padded less_or_eq_imp_le)
  then show ?thesis by (simp add: bounded_string_length_def)
qed

lemma length_endpoint: "endpoint_wf e \<Longrightarrow> length (encode_endpoint e) = 35 + length (cstr (endpoint_ip e))"
  by (simp add: encode_endpoint_def endpoint_wf_def NODE_ID_SIZE_def)

lemma endpoints_size_ok:
  "list_all endpoint_wf es \<Longrightarrow> n + length (concat (map encode_endpoint es)) \<le> unat MAX_PAYLOAD_SIZE \<Longrightarrow>
     endpoints_size n es = Inr (n + length (concat (map encode_endpoint es)))"
proof (induction es arbitrary: n)
  case (Cons e es)
  then have w: "endpoint_wf e" by simp
  then have p: "0 < length (cstr (endpoint_ip e))" "length (cstr (endpoint_ip e)) < 46" by (simp_all add: endpoint_wf_def NODE_ADDRESS_SIZE_def)
  show ?case using Cons bounded_ip [OF w] length_endpoint [OF w] p
    by (simp add: Let_def ENDPOINT_FIXED_SIZE_def NODE_ID_SIZE_def NODE_ADDRESS_SIZE_def SIZE_MAX_def MAX_PAYLOAD_SIZE_def)
qed simp

lemma length_locations: "locations_wf k l \<Longrightarrow> length (encode_locations l) = 58 + length (concat (map encode_endpoint (peers l)))"
  by (simp add: encode_locations_def locations_wf_def OBJECT_ID_SIZE_def)

lemma locations_size_ok:
  "list_all (\<lambda>l. \<exists>k. locations_wf k l) ls \<Longrightarrow> n + length (concat (map encode_locations ls)) \<le> unat MAX_PAYLOAD_SIZE \<Longrightarrow>
     locations_size n ls = Inr (n + length (concat (map encode_locations ls)))"
proof (induction ls arbitrary: n)
  case (Cons l ls)
  then obtain k where w: "locations_wf k l" by auto
  then have p: "list_all endpoint_wf (peers l)" "length (peers l) \<le> 65535" by (simp_all add: locations_wf_def)
  have "endpoints_size (n + 58) (peers l) = Inr (n + length (encode_locations l))"
    using endpoints_size_ok [OF p(1), of "n + 58"] Cons.prems(2) length_locations [OF w] by simp
  moreover have "n \<le> SIZE_MAX - 2 - DESCRIPTOR_SIZE" using Cons.prems(2) by (simp add: SIZE_MAX_def DESCRIPTOR_SIZE_def MAX_PAYLOAD_SIZE_def)
  moreover have "n + 2 + DESCRIPTOR_SIZE = n + 58" by (simp add: DESCRIPTOR_SIZE_def)
  moreover have "locations_size (n + length (encode_locations l)) ls = Inr (n + length (encode_locations l) + length (concat (map encode_locations ls)))"
    by (rule Cons.IH) (use Cons.prems in simp_all)
  ultimately show ?case using p(2) by (simp only: locations_size.simps not_less simp_thms if_False sum.case) simp
qed simp

lemma decode_endpoints_ok:
  "list_all endpoint_wf es \<Longrightarrow>
     decode_endpoints (length es) (pre @ concat (map encode_endpoint es) @ rest) (length pre) = Inr (es, length pre + length (concat (map encode_endpoint es)))"
proof (induction es arbitrary: pre)
  case (Cons e es)
  let ?ip = "cstr (endpoint_ip e)" and ?tail = "concat (map encode_endpoint es) @ rest"
  let ?b = "pre @ encode_endpoint e @ ?tail"
  have w: "length (endpoint_node e) = 32" "?ip \<noteq> []" "length ?ip < 46" "endpoint_port e \<noteq> 0" "zero_padded NODE_ADDRESS_SIZE ?ip = endpoint_ip e"
    using Cons.prems by (auto simp: endpoint_wf_def NODE_ID_SIZE_def NODE_ADDRESS_SIZE_def)
  have f: "drop (length pre) ?b = encode_endpoint e @ ?tail" "?b ! (length pre + 32) = of_nat (length ?ip)"
    "drop (length pre + 33) ?b = ?ip @ wire_put_u16 (endpoint_port e) @ ?tail"
    "drop (length pre + 33 + length ?ip) ?b = wire_put_u16 (endpoint_port e) @ ?tail"
    using w(1) by (simp_all add: encode_endpoint_def nth_append)
  have u: "unat (of_nat (length ?ip) :: byte) = length ?ip" using w(3) by (simp add: unat_of_nat take_bit_nat_eq_self)
  have "decode_endpoints (length es) ((pre @ encode_endpoint e) @ ?tail) (length (pre @ encode_endpoint e)) =
      Inr (es, length (pre @ encode_endpoint e) + length (concat (map encode_endpoint es)))"
    by (rule Cons.IH) (use Cons.prems in simp)
  then have ih: "decode_endpoints (length es) ?b (length pre + 35 + length ?ip) = Inr (es, length pre + length (concat (map encode_endpoint (e # es))))"
    using w(1) by (simp add: encode_endpoint_def add.assoc)
  have len: "length ?b = length pre + 35 + length ?ip + length ?tail" using w(1) by (simp add: encode_endpoint_def)
  have node: "take 32 (encode_endpoint e @ ?tail) = endpoint_node e" using w(1) by (simp add: encode_endpoint_def)
  have b: "pre @ concat (map encode_endpoint (e # es)) @ rest = ?b" "length (e # es) = Suc (length es)" by simp_all
  have o: "length pre + 32 + 1 = length pre + 33" "length pre + 33 + length ?ip + 2 = length pre + 35 + length ?ip" by simp_all
  have ip: "take (length ?ip) (?ip @ wire_put_u16 (endpoint_port e) @ ?tail) = ?ip" "wire_get_u16 (wire_put_u16 (endpoint_port e) @ ?tail) = endpoint_port e"
    by simp_all
  have ok: "\<not> length ?b < length pre + ENDPOINT_FIXED_SIZE" "length ?ip \<noteq> 0" "\<not> NODE_ADDRESS_SIZE \<le> length ?ip"
    "\<not> length ?b < length pre + 35 + length ?ip"
    using len w by (simp_all add: ENDPOINT_FIXED_SIZE_def NODE_ID_SIZE_def NODE_ADDRESS_SIZE_def)
  show ?case
    unfolding b decode_endpoints.simps Let_def
    unfolding NODE_ID_SIZE_def o f u o ih node ip w(5)
    using ok w(4) unfolding o by simp
qed simp

lemma calm_allocation: "(if c then fault (at calm n) else None) = None"
  by simp

lemma decode_locations_ok:
  "\<forall>i < length ls. locations_wf (k + of_nat i) (ls ! i) \<Longrightarrow>
     decode_locations (length ls) calm k (pre @ concat (map encode_locations ls)) (length pre) = Inr ls"
proof (induction ls arbitrary: k pre)
  case (Cons l ls)
  let ?tail = "concat (map encode_locations ls)" and ?es = "concat (map encode_endpoint (peers l))" and ?d = "descriptor l"
  let ?b = "pre @ encode_locations l @ ?tail" and ?o = "length pre + 58"
  have w: "chunk_index ?d = k" "length (chunk_hash ?d) = 32" "length (peers l) \<le> 65535" "list_all endpoint_wf (peers l)"
    using Cons.prems [rule_format, of 0] by (simp_all add: locations_wf_def OBJECT_ID_SIZE_def)
  have ld: "length (encode_descriptor ?d) = 56" using w(2) by simp
  have f: "drop (length pre) ?b = encode_descriptor ?d @ wire_put_u16 (of_nat (length (peers l))) @ ?es @ ?tail"
    "drop (length pre + 56) ?b = wire_put_u16 (of_nat (length (peers l))) @ ?es @ ?tail"
    using ld by (simp_all add: encode_locations_def)
  have u: "unat (of_nat (length (peers l)) :: u16) = length (peers l)" using w(3) by (simp add: unat_of_nat take_bit_nat_eq_self)
  have d: "decode_descriptor (encode_descriptor ?d @ wire_put_u16 (of_nat (length (peers l))) @ ?es @ ?tail) = ?d"
    "wire_get_u16 (wire_put_u16 (of_nat (length (peers l))) @ ?es @ ?tail) = of_nat (length (peers l))" using w(2) by simp_all
  let ?pre = "pre @ encode_descriptor ?d @ wire_put_u16 (of_nat (length (peers l)))"
  have "decode_endpoints (length (peers l)) (?pre @ ?es @ ?tail) (length ?pre) = Inr (peers l, length ?pre + length ?es)"
    by (rule decode_endpoints_ok [OF w(4)])
  moreover have "?pre @ ?es @ ?tail = ?b" "length ?pre = ?o" using ld by (simp_all add: encode_locations_def)
  ultimately have e: "decode_endpoints (length (peers l)) ?b ?o = Inr (peers l, ?o + length ?es)" by metis
  have "decode_locations (length ls) calm (k + 1) ((pre @ encode_locations l) @ ?tail) (length (pre @ encode_locations l)) = Inr ls"
  proof (rule Cons.IH, intro allI impI)
    fix i assume "i < length ls"
    then show "locations_wf (k + 1 + of_nat i) (ls ! i)" using Cons.prems [rule_format, of "Suc i"] by (simp add: ac_simps)
  qed
  moreover have "length (pre @ encode_locations l) = ?o + length ?es" using ld by (simp add: encode_locations_def)
  ultimately have ih: "decode_locations (length ls) calm (k + 1) ?b (?o + length ?es) = Inr ls" by (metis append_assoc)
  have b: "pre @ concat (map encode_locations (l # ls)) = ?b" "length (l # ls) = Suc (length ls)" by simp_all
  have o: "length pre + 56 + 2 = ?o" by simp
  have ok: "\<not> length ?b < ?o" using ld by (simp add: encode_locations_def)
  show ?case
    unfolding b decode_locations.simps Let_def
    unfolding DESCRIPTOR_SIZE_def o f d u w(1) calm_allocation
    using ok e ih by simp
qed simp

lemma lookup_encodes:
  assumes "lookup_wf r" "length (lookup_bytes r) \<le> unat MAX_PAYLOAD_SIZE"
  shows "transfer_encode_lookup_result calm r = Inr (lookup_bytes r)"
proof -
  let ?d = "lookup_document r" and ?op = "download_code TRANSFER_DOWNLOAD_METADATA" and ?ls = "lookup_chunks r"
  have w: "document_wf ?d" "length ?ls = unat (transfer_chunk_count ?d)" "\<forall>i < length ?ls. locations_wf (of_nat i) (?ls ! i)"
    using assms(1) by (simp_all add: lookup_wf_def)
  have "list_all (\<lambda>l. \<exists>k. locations_wf k l) ?ls" using w(3) by (auto simp: list_all_length)
  moreover have s: "document_wire_size ?d = length (document_bytes ?op ?d)" by (rule wire_size [OF w(1)])
  ultimately have n: "locations_size (document_wire_size ?d) ?ls = Inr (length (lookup_bytes r))"
    using locations_size_ok [of ?ls "document_wire_size ?d"] assms(2) by (simp add: lookup_bytes_def)
  have e: "encode_document_at ?d ?op (length (lookup_bytes r)) = Inr (document_bytes ?op ?d)"
    by (rule encode_document [OF w(1)]) (simp add: lookup_bytes_def)
  have t: "take (unat (transfer_chunk_count ?d)) ?ls = ?ls" using w(2) by simp
  have c: "\<not> unat MAX_PAYLOAD_SIZE < length (lookup_bytes r)" "\<not> UINT_MAX < length (lookup_bytes r)"
    using assms(2) by (simp_all add: MAX_PAYLOAD_SIZE_def UINT_MAX_def)
  show ?thesis unfolding transfer_encode_lookup_result_def Let_def t n using c e by (simp add: lookup_bytes_def)
qed

lemma locations_bytes_long:
  "list_all (\<lambda>l. \<exists>k. locations_wf k l) ls \<Longrightarrow> length ls * 58 \<le> length (concat (map encode_locations ls))"
  by (induction ls) (auto simp: length_locations)

lemma lookup_decodes:
  assumes "lookup_wf r" "length (lookup_bytes r) \<le> unat MAX_PAYLOAD_SIZE"
  shows "transfer_decode_lookup_result calm (lookup_bytes r) = Inr r"
proof -
  let ?d = "lookup_document r" and ?op = "download_code TRANSFER_DOWNLOAD_METADATA" and ?ls = "lookup_chunks r"
  let ?db = "document_bytes ?op ?d" and ?n = "unat (transfer_chunk_count ?d)"
  have w: "document_wf ?d" "length ?ls = ?n" "\<forall>i < length ?ls. locations_wf (of_nat i) (?ls ! i)"
    using assms(1) by (simp_all add: lookup_wf_def)
  have "list_all (\<lambda>l. \<exists>k. locations_wf k l) ?ls" using w(3) by (auto simp: list_all_length)
  then have long: "?n * 58 \<le> length (lookup_bytes r) - length ?db" using locations_bytes_long [of ?ls] w(2) by (simp add: lookup_bytes_def)
  then have fit: "\<not> (length (lookup_bytes r) - length ?db) div (DESCRIPTOR_SIZE + 2) < ?n"
    by (simp add: DESCRIPTOR_SIZE_def not_less less_eq_div_iff_mult_less_eq)
  have max: "\<not> SIZE_MAX div LOCATIONS_SLOT_SIZE < ?n"
    using long assms(2) by (simp add: SIZE_MAX_def LOCATIONS_SLOT_SIZE_def MAX_PAYLOAD_SIZE_def)
  have d: "decode_document_at (lookup_bytes r) ?op = Inr (?d, length ?db)" unfolding lookup_bytes_def by (rule decode_document [OF w(1)])
  have l: "decode_locations ?n calm 0 (lookup_bytes r) (length ?db) = Inr ?ls"
    using decode_locations_ok [of ?ls 0 ?db] w(2,3) unfolding lookup_bytes_def by simp
  have at: "at calm k = calm" for k by simp
  show ?thesis unfolding transfer_decode_lookup_result_def Let_def d sum.case prod.case calm_allocation at l
    using fit max by simp
qed

text \<open>
C38: The answer to a lookup arrives as it was sent: every well-formed result (its document, then each chunk in order with its descriptor and at most 65535 peers
with an address and a port) whose encoding fits in a message is encoded, and the encoding decodes to the same result.\<close>

theorem transfer_lookup_roundtrip:
  assumes "lookup_wf r" "length (lookup_bytes r) \<le> unat MAX_PAYLOAD_SIZE"
  shows "\<exists>bytes. transfer_encode_lookup_result calm r = Inr bytes \<and> transfer_decode_lookup_result calm bytes = Inr r"
  using lookup_encodes [OF assms] lookup_decodes [OF assms] by blast

lemma all_less_two: "(\<forall>i < Suc (Suc 0). P i) \<longleftrightarrow> P 0 \<and> P 1"
  by (auto simp: less_Suc_eq)

definition sample_lookup :: TransferLookupResult where
  "sample_lookup = \<lparr>lookup_document = sample_transfer_document, lookup_chunks =
     [\<lparr>descriptor = sample_descriptor 0, peers = [\<lparr>endpoint_node = replicate 32 5, endpoint_ip = zero_padded 46 [0x3a, 0x3a, 0x31], endpoint_port = 9000\<rparr>]\<rparr>,
      \<lparr>descriptor = sample_descriptor 1, peers = []\<rparr>]\<rparr>"

theorem transfer_lookup_roundtrip_witness:
  "\<exists>bytes. transfer_encode_lookup_result calm sample_lookup = Inr bytes \<and> transfer_decode_lookup_result calm bytes = Inr sample_lookup"
proof -
  have h: "length (chunk_hash (sample_descriptor k)) = 32" "chunk_index (sample_descriptor k) = k" for k by (simp_all add: sample_descriptor_def)
  have c: "transfer_chunk_count sample_transfer_document = 2" by (simp add: sample_transfer_document_def)
  have ip: "cstr (zero_padded 46 [0x3a, 0x3a, 0x31]) = [0x3a, 0x3a, 0x31 :: byte]" by (rule cstr_zero_padded) simp
  have w: "lookup_wf sample_lookup"
    using sample_transfer_document_wf h c ip
    by (simp add: lookup_wf_def sample_lookup_def locations_wf_def endpoint_wf_def OBJECT_ID_SIZE_def NODE_ID_SIZE_def NODE_ADDRESS_SIZE_def
      all_less_two)
  have n: "length (document_bytes op sample_transfer_document) = 55" for op
    using length_document_bytes [OF sample_transfer_document_wf, of op] cstr_zero_padded [of "[0x61, 0x2e, 0x63]" 256] by (simp add: sample_transfer_document_def)
  have "length (lookup_bytes sample_lookup) \<le> unat MAX_PAYLOAD_SIZE"
    using h ip n by (simp add: lookup_bytes_def sample_lookup_def encode_locations_def encode_endpoint_def MAX_PAYLOAD_SIZE_def)
  from transfer_lookup_roundtrip [OF w this] show ?thesis .
qed

end
