(* ===== verification/Content.thy ===== *)
theory Content
  imports Transfer_Format
begin

text \<open>
  Contents of documents (\<^verbatim>\<open>content.c\<close>) and their compression (\<^verbatim>\<open>compression.c\<close>).

  The functions of liblz4 are fields of \<open>storage_lib\<close>, beside SHA-256 of \<open>lib\<close>: \<open>LZ4_compressBound\<close> with its result of type
  \<open>int\<close>; \<open>LZ4_compress_default\<close> of an input for a buffer of a capacity, \<open>None\<close> for a result of 0 or less; \<open>LZ4_decompress_safe\<close> of
  an input for a buffer of a capacity, \<open>None\<close> for a negative result. \<open>pid_text\<close> is the number of the process in decimal,
  which is part of the names of temporary files.
\<close>

record storage_lib = lib +
  LZ4_compressBound :: "nat \<Rightarrow> int"
  LZ4_compress_default :: "byte list \<Rightarrow> nat \<Rightarrow> byte list option"
  LZ4_decompress_safe :: "byte list \<Rightarrow> nat \<Rightarrow> byte list option"
  pid_text :: "byte list"

definition INT_MAX :: nat where
  "INT_MAX = 2 ^ 31 - 1"

section \<open>Names and hashes\<close>

definition content_sha256 :: "('a lib_scheme) \<Rightarrow> byte list \<Rightarrow> byte list result" where
  "content_sha256 lib bytes = (case sha256 lib bytes of None \<Rightarrow> Inl EIO | Some digest \<Rightarrow> Inr digest)"

text \<open>A path is given as the bytes of its string. \<open>tolower\<close> is that of the C locale.\<close>

definition tolower :: "byte \<Rightarrow> byte" where
  "tolower b = (if 0x41 \<le> b \<and> b \<le> 0x5a then b + 0x20 else b)"

definition content_pdf_name :: "byte list \<Rightarrow> bool" where
  "content_pdf_name path =
     (let n = length path in
      4 \<le> n \<and> path ! (n - 4) = 0x2e \<and> tolower (path ! (n - 3)) = 0x70 \<and> tolower (path ! (n - 2)) = 0x64 \<and> tolower (path ! (n - 1)) = 0x66)"

text \<open>The call sites are \<open>fopen\<close> (0) and \<open>fclose\<close> (1).\<close>

definition content_validate_pdf :: "os \<Rightarrow> byte list \<Rightarrow> errno option" where
  "content_validate_pdf os path =
     (if \<not> content_pdf_name path then Some EINVAL
      else case fault (at os 0) of Some e \<Rightarrow> Some e | None \<Rightarrow> fault (at os 1))"

definition after_last_slash :: "byte list \<Rightarrow> byte list" where
  "after_last_slash path = rev (takeWhile (\<lambda>b. b \<noteq> 0x2f) (rev path))"

definition content_basename :: "byte list \<Rightarrow> byte list result" where
  "content_basename path =
     (let name = after_last_slash path in
      if name = [] \<or> METADATA_NAME_SIZE \<le> length name then Inl EINVAL else Inr name)"

text \<open>
  A rename lasts once the directory of the name is synchronised. The call sites are \<open>open\<close> (0) and \<open>fsync\<close> (1) of the directory;
  the result of \<open>close\<close> is not looked at. \<open>n\<close> is the length of the path.
\<close>

definition content_sync_parent :: "os \<Rightarrow> nat \<Rightarrow> errno option" where
  "content_sync_parent os n =
     (if 4096 \<le> n then Some ENAMETOOLONG
      else case fault (at os 0) of Some e \<Rightarrow> Some e | None \<Rightarrow> fault (at os 1))"

section \<open>Compression\<close>

definition compression_lz4_bound :: "storage_lib \<Rightarrow> nat \<Rightarrow> nat result" where
  "compression_lz4_bound lib n =
     (if INT_MAX < n then Inl EINVAL
      else let r = LZ4_compressBound lib n in if r \<le> 0 then Inl EOVERFLOW else Inr (nat r))"

definition compression_lz4_compress :: "storage_lib \<Rightarrow> os \<Rightarrow> byte list \<Rightarrow> byte list result" where
  "compression_lz4_compress lib os input =
     (if input = [] then Inl EINVAL
      else case compression_lz4_bound lib (length input) of Inl e \<Rightarrow> Inl e
      | Inr capacity \<Rightarrow>
          (case fault (at os 0) of Some e \<Rightarrow> Inl e
           | None \<Rightarrow> (case LZ4_compress_default lib input capacity of None \<Rightarrow> Inl EIO | Some output \<Rightarrow> Inr output)))"

definition compression_lz4_decompress :: "storage_lib \<Rightarrow> os \<Rightarrow> byte list \<Rightarrow> nat \<Rightarrow> byte list result" where
  "compression_lz4_decompress lib os input expected_size =
     (if input = [] \<or> INT_MAX < length input \<or> expected_size = 0 \<or> INT_MAX < expected_size then Inl EINVAL
      else case fault (at os 0) of Some e \<Rightarrow> Inl e
      | None \<Rightarrow>
          (case LZ4_decompress_safe lib input expected_size of None \<Rightarrow> Inl EBADMSG
           | Some output \<Rightarrow> if length output \<noteq> expected_size then Inl EBADMSG else Inr output))"

section \<open>Properties\<close>

lemma decompress_Inr:
  "compression_lz4_decompress lib os input n = Inr raw \<Longrightarrow>
     LZ4_decompress_safe lib input n = Some raw \<and> length raw = n \<and> input \<noteq> [] \<and> length input \<le> INT_MAX \<and> n \<noteq> 0 \<and> n \<le> INT_MAX"
  by (auto simp: compression_lz4_decompress_def not_less split: if_splits option.splits)

lemma decompress_calm:
  "LZ4_decompress_safe lib input n = Some raw \<Longrightarrow> length raw = n \<Longrightarrow> input \<noteq> [] \<Longrightarrow> length input \<le> INT_MAX \<Longrightarrow> n \<noteq> 0 \<Longrightarrow> n \<le> INT_MAX \<Longrightarrow>
     compression_lz4_decompress lib calm input n = Inr raw"
  by (auto simp: compression_lz4_decompress_def)

lemma after_last_slash: "0x2f \<notin> set (after_last_slash path)" "\<exists>front. path = front @ after_last_slash path"
proof -
  show "0x2f \<notin> set (after_last_slash path)" by (auto simp: after_last_slash_def dest: set_takeWhileD)
  have "rev path = takeWhile (\<lambda>b. b \<noteq> 0x2f) (rev path) @ dropWhile (\<lambda>b. b \<noteq> 0x2f) (rev path)" by simp
  then have "path = rev (dropWhile (\<lambda>b. b \<noteq> 0x2f) (rev path)) @ after_last_slash path"
    unfolding after_last_slash_def by (metis rev_append rev_rev_ident)
  then show "\<exists>front. path = front @ after_last_slash path" by blast
qed

end
