(* ===== verification/Directory.thy ===== *)
theory Directory
  imports Membership Content
begin

text \<open>
  The directory of a Super Peer (\<^verbatim>\<open>directory.c\<close>): announcements enter the metadata index, lookups join the
  index with the table of members. A directory is the pair of an index and a table that \<open>directory_create\<close>
  is given; it has no state of its own, so its operations take both.
\<close>

section \<open>Operations\<close>

text \<open>\<open>strcasecmp\<close> in the C locale, where only its being zero is used.\<close>

definition strcasecmp_equal :: "byte list \<Rightarrow> byte list \<Rightarrow> bool" where
  "strcasecmp_equal x y \<longleftrightarrow> map tolower x = map tolower y"

text \<open>The first four bytes of an identifier as a number.\<close>

definition owner_number :: "NodeID \<Rightarrow> u32" where
  "owner_number i = push_bit 24 (ucast (i ! 0)) OR push_bit 16 (ucast (i ! 1)) OR push_bit 8 (ucast (i ! 2)) OR ucast (i ! 3)"

definition announced_metadata :: "TransferDocument \<Rightarrow> NodeID \<Rightarrow> FileMetadata" where
  "announced_metadata d owner =
     \<lparr>object_id = transfer_id d, filename = transfer_name d, doc_size = file_size d, chunk_count = ucast (transfer_chunk_count d),
      chunk_hashes = None, doc_version = 1, doc_owner = owner_number owner\<rparr>"

definition directory_announce ::
  "os \<Rightarrow> MetadataStore \<Rightarrow> TransferDocument \<Rightarrow> MetadataChunk list \<Rightarrow> NodeID \<Rightarrow> errno option \<times> MetadataStore" where
  "directory_announce os store d cs owner =
     (if compression d \<noteq> COMPRESSION_LZ4 then (Some EINVAL, store)
      else
        let name = cstr (transfer_name d); n = length name in
        if n < 4 \<or> \<not> strcasecmp_equal (drop (n - 4) name) [0x2e, 0x70, 0x64, 0x66] then (Some EINVAL, store)
        else if 2 ^ 32 \<le> unat (transfer_chunk_count d) then (Some EOVERFLOW, store)
        else metadata_announce os store (announced_metadata d owner) cs owner)"

text \<open>The addresses of the owners that the table has as live members of this Super Peer; owner \<open>j\<close> is looked up at call site \<open>j\<close>.\<close>

definition reachable_member :: "os \<Rightarrow> SuperPeer \<Rightarrow> NodeID \<Rightarrow> SuperPeerMember option" where
  "reachable_member os t i =
     (case superpeer_find_member os t i of Inl _ \<Rightarrow> None
      | Inr m \<Rightarrow> if local_registration m \<and> member_state m < SUPERPEER_MEMBER_FAILED then Some m else None)"

definition endpoint_of :: "NodeID \<Rightarrow> SuperPeerMember \<Rightarrow> TransferEndpoint" where
  "endpoint_of i m =
     \<lparr>endpoint_node = i, endpoint_ip = zero_padded NODE_ADDRESS_SIZE (cstr (ip (config (member_node m)))),
      endpoint_port = port (config (member_node m))\<rparr>"

fun valid_endpoints :: "os \<Rightarrow> SuperPeer \<Rightarrow> nat \<Rightarrow> NodeID list \<Rightarrow> TransferEndpoint list" where
  "valid_endpoints os t j [] = []"
| "valid_endpoints os t j (i # owners) =
     (case reachable_member (at os j) t i of None \<Rightarrow> [] | Some m \<Rightarrow> [endpoint_of i m]) @ valid_endpoints os t (Suc j) owners"

text \<open>One round of the loop over the chunks. The call sites are the descriptor (0), the peers (1), the endpoints (2) and the members (3).\<close>

definition lookup_chunk :: "os \<Rightarrow> MetadataStore \<Rightarrow> SuperPeer \<Rightarrow> ObjectID \<Rightarrow> u64 \<Rightarrow> TransferChunkLocations result" where
  "lookup_chunk os store t i k =
     (case metadata_chunk_descriptor (at os 0) store i k of Inl e \<Rightarrow> Inl e
      | Inr c \<Rightarrow>
          (case metadata_chunk_peers (at os 1) store i k of Inl e \<Rightarrow> Inl e
           | Inr owners \<Rightarrow>
               (case (if owners = [] then None else fault (at os 2)) of Some e \<Rightarrow> Inl e
                | None \<Rightarrow>
                    (let endpoints = valid_endpoints (at os 3) t 0 owners in
                     if endpoints = [] then Inl ENODATA else Inr \<lparr>descriptor = c, peers = endpoints\<rparr>))))"

primrec lookup_locations :: "nat \<Rightarrow> os \<Rightarrow> MetadataStore \<Rightarrow> SuperPeer \<Rightarrow> ObjectID \<Rightarrow> nat \<Rightarrow> TransferChunkLocations list result" where
  "lookup_locations 0 os store t i k = Inr []"
| "lookup_locations (Suc n) os store t i k =
     (case lookup_chunk (at os k) store t i (of_nat k) of Inl e \<Rightarrow> Inl e
      | Inr l \<Rightarrow> (case lookup_locations n os store t i (Suc k) of Inl e \<Rightarrow> Inl e | Inr ls \<Rightarrow> Inr (l # ls)))"

definition lookup_header :: "FileMetadata \<Rightarrow> TransferDocument" where
  "lookup_header doc =
     \<lparr>transfer_id = object_id doc, transfer_name = zero_padded METADATA_NAME_SIZE (cstr (filename doc)), file_size = doc_size doc,
      transfer_chunk_count = ucast (chunk_count doc), compression = COMPRESSION_LZ4\<rparr>"

text \<open>The call sites are the search for the name (0), the document (1), the allocation (2) and the loop (3).\<close>

definition lookup_selected :: "os \<Rightarrow> MetadataStore \<Rightarrow> SuperPeer \<Rightarrow> ObjectID \<Rightarrow> TransferLookupResult result" where
  "lookup_selected os store t selected =
     (case metadata_find_document (at os 1) store selected of Inl e \<Rightarrow> Inl e
      | Inr doc \<Rightarrow>
          (case (if chunk_count doc \<noteq> 0 then fault (at os 2) else None) of Some e \<Rightarrow> Inl e
           | None \<Rightarrow>
               (case lookup_locations (unat (chunk_count doc)) (at os 3) store t selected 0 of Inl e \<Rightarrow> Inl e
                | Inr ls \<Rightarrow> Inr \<lparr>lookup_document = lookup_header doc, lookup_chunks = ls\<rparr>)))"

definition directory_lookup ::
  "os \<Rightarrow> MetadataStore \<Rightarrow> SuperPeer \<Rightarrow> TransferSelectorType \<Rightarrow> ObjectID \<Rightarrow> byte list \<Rightarrow> TransferLookupResult result" where
  "directory_lookup os store t type i name =
     (case type of
        TRANSFER_SELECTOR_OBJECT_ID \<Rightarrow> lookup_selected os store t i
      | TRANSFER_SELECTOR_NAME \<Rightarrow>
          (case metadata_find_name (at os 0) store name of Inl e \<Rightarrow> Inl e | Inr selected \<Rightarrow> lookup_selected os store t selected))"

section \<open>What the directory keeps of announcements\<close>

text \<open>The index of a Super Peer changes only by announcements in the form the decoder gives them, and by peers that leave.\<close>

datatype directory_op = AnnounceOp TransferDocument "MetadataChunk list" NodeID | LeaveOp NodeID

fun directory_step :: "os \<Rightarrow> directory_op \<Rightarrow> MetadataStore \<Rightarrow> errno option \<times> MetadataStore" where
  "directory_step os (AnnounceOp d cs owner) s = directory_announce os s d cs owner"
| "directory_step os (LeaveOp peer) s = metadata_remove_peer os s peer"

fun directory_op_ok :: "directory_op \<Rightarrow> bool" where
  "directory_op_ok (AnnounceOp d cs owner) \<longleftrightarrow> announcement_wf d cs \<and> length owner = ID_SIZE"
| "directory_op_ok (LeaveOp peer) \<longleftrightarrow> True"

fun directory_run :: "(os \<times> directory_op) list \<Rightarrow> MetadataStore \<Rightarrow> MetadataStore" where
  "directory_run [] s = s"
| "directory_run ((os, op) # ops) s = directory_run ops (snd (directory_step os op s))"

definition directory_entry_ok :: "ObjectID \<Rightarrow> Entry \<Rightarrow> bool" where
  "directory_entry_ok i e \<longleftrightarrow> entry_inv e \<and> object_id (document e) = i \<and> document_wf (lookup_header (document e)) \<and>
     (\<exists>cs. chunks e = Some cs \<and> list_all (\<lambda>c. length (chunk_hash c) = OBJECT_ID_SIZE) cs) \<and>
     list_all (\<lambda>a. length (avail_peer a) = ID_SIZE) (available e)"

definition directory_inv :: "MetadataStore \<Rightarrow> bool" where
  "directory_inv s \<longleftrightarrow> store_inv s \<and> (\<forall>i e. lookup_entry s i = Some e \<longrightarrow> directory_entry_ok i e)"

lemma small_count: "unat (n :: u64) < 2 ^ 32 \<Longrightarrow> (ucast (ucast n :: u32) :: u64) = n"
  by (intro word_unat_eq_iff [THEN iffD2]) (simp add: unsigned_ucast_eq unsigned_take_bit_eq take_bit_nat_eq_self)

lemma lookup_header_announced:
  assumes "document_wf d" "unat (transfer_chunk_count d) < 2 ^ 32"
  shows "lookup_header (announced_metadata d owner) = d"
  using assms small_count [OF assms(2)] by (simp add: lookup_header_def announced_metadata_def document_wf_def)

lemma lookup_header_cong:
  "lookup_header (doc\<lparr>chunk_hashes := h\<rparr>) = lookup_header doc" "lookup_header (doc\<lparr>doc_version := v\<rparr>) = lookup_header doc"
  by (simp_all add: lookup_header_def)

lemma directory_announce_None:
  assumes "directory_announce os s d cs owner = (None, s')"
  shows "metadata_announce os s (announced_metadata d owner) cs owner = (None, s')" "unat (transfer_chunk_count d) < 2 ^ 32"
  using assms by (auto simp: directory_announce_def Let_def not_le split: if_splits)

text \<open>The entry after a successful announcement: a document announced before keeps its header.\<close>

lemma directory_announce_entry:
  assumes "directory_inv s" "announcement_wf d cs" "directory_announce os s d cs owner = (None, s')"
  obtains e where "lookup_entry s' = (lookup_entry s)(transfer_id d \<mapsto> e)" "store_inv s'" "entry_inv e"
    "object_id (document e) = transfer_id d"
    "chunks e = Some cs" "chunk_count (document e) = ucast (transfer_chunk_count d)"
    "set (available e) = {a. avail_peer a = owner \<and> unat (avail_index a) < length cs} \<union>
       (case lookup_entry s (transfer_id d) of None \<Rightarrow> {} | Some old \<Rightarrow> {a \<in> set (available old). avail_peer a \<noteq> owner})"
    "lookup_header (document e) = (case lookup_entry s (transfer_id d) of None \<Rightarrow> d | Some old \<Rightarrow> lookup_header (document old))"
proof -
  let ?doc = "announced_metadata d owner"
  note a = directory_announce_None [OF assms(3)]
  have wf: "document_wf d" "length cs = unat (transfer_chunk_count d)" using assms(2) by (simp_all add: announcement_wf_def)
  have id: "object_id ?doc = transfer_id d" and cc: "chunk_count ?doc = ucast (transfer_chunk_count d)"
    by (simp_all add: announced_metadata_def)
  have n: "unat (chunk_count ?doc) = length cs"
    using a(2) wf(2) by (simp add: cc unsigned_ucast_eq take_bit_nat_eq_self)
  have inv: "store_inv s" using assms(1) by (simp add: directory_inv_def)
  have inv': "store_inv s'" using metadata_step_refines [OF inv, of os "Announce ?doc cs owner"] a(1) by simp
  obtain items where items: "announce_checks os ?doc cs owner = Inr items"
    using a(1) by (auto simp: announce_unfold split: sum.splits)
  note i = announce_checks_Inr(3) [OF items] announced_items_props(2) [OF count_bound, where n1 = "chunk_count ?doc" and peer = owner]
  show ?thesis
  proof (cases "lookup_entry s (transfer_id d)")
    case None
    let ?e = "announced_entry ?doc cs items"
    have s': "s' = put_entry s (transfer_id d) ?e" using a(1) items None by (simp add: announce_unfold id)
    have l: "lookup_entry s' = (lookup_entry s)(transfer_id d \<mapsto> ?e)"
      unfolding s' using index.lookup_put [OF inv entry_keys(2) [of ?doc cs items]] id by simp
    have "entry_inv ?e" by (rule announced_entry_inv [OF items]) (simp add: n)
    with l inv' show ?thesis
      by (rule that) (use i n None id cc lookup_header_announced [OF wf(1) a(2), of owner] in
        \<open>auto simp: announced_entry_def lookup_header_cong\<close>)
  next
    case (Some old)
    then have old: "directory_entry_ok (transfer_id d) old" using assms(1) by (simp add: directory_inv_def)
    obtain e where e: "merge_announced (at os 5) old (announced_entry ?doc cs items) ?doc cs owner = Inr e"
      and s': "s' = put_entry s (transfer_id d) e"
      using a(1) items Some by (auto simp: announce_unfold id split: sum.splits)
    have oi: "entry_inv old" using old by (simp add: directory_entry_ok_def)
    note m = merge_entry_inv [OF items _ oi e, unfolded n, OF order.refl]
    have k: "entry_key e = transfer_id d"
      using merge_key [OF e] index.lookup_key [OF inv Some] id by simp
    have l: "lookup_entry s' = (lookup_entry s)(transfer_id d \<mapsto> e)" unfolding s' by (rule index.lookup_put [OF inv k])
    have h: "lookup_header (document e) = lookup_header (document old)"
      using e old by (auto simp: merge_announced_def directory_entry_ok_def lookup_header_cong split: if_splits sum.splits)
    show ?thesis using l inv' m(1) k [unfolded entry_key_def]
      by (rule that) (use m Some h cc in auto)
  qed
qed

lemma directory_announce_inv:
  assumes "directory_inv s" "announcement_wf d cs" "length owner = ID_SIZE" "directory_announce os s d cs owner = (None, s')"
  shows "directory_inv s'"
proof -
  obtain e where e: "lookup_entry s' = (lookup_entry s)(transfer_id d \<mapsto> e)" "store_inv s'" "entry_inv e"
    "object_id (document e) = transfer_id d" "chunks e = Some cs"
    "set (available e) = {a. avail_peer a = owner \<and> unat (avail_index a) < length cs} \<union>
       (case lookup_entry s (transfer_id d) of None \<Rightarrow> {} | Some old \<Rightarrow> {a \<in> set (available old). avail_peer a \<noteq> owner})"
    "lookup_header (document e) = (case lookup_entry s (transfer_id d) of None \<Rightarrow> d | Some old \<Rightarrow> lookup_header (document old))"
    by (rule directory_announce_entry [OF assms(1,2,4)])
  have ok: "directory_entry_ok i x" if "lookup_entry s i = Some x" for i x using assms(1) that by (simp add: directory_inv_def)
  have wf: "document_wf d" "list_all (\<lambda>c. length (chunk_hash c) = OBJECT_ID_SIZE) cs" using assms(2) by (simp_all add: announcement_wf_def)
  have "document_wf (lookup_header (document e))"
    using e(7) wf(1) ok by (cases "lookup_entry s (transfer_id d)") (auto simp: directory_entry_ok_def)
  moreover have "list_all (\<lambda>a. length (avail_peer a) = ID_SIZE) (available e)"
    using e(6) assms(3) ok by (cases "lookup_entry s (transfer_id d)") (auto simp: directory_entry_ok_def list_all_iff)
  ultimately have "directory_entry_ok (transfer_id d) e" using e(3-5) wf(2) by (simp add: directory_entry_ok_def)
  with e(1,2) ok show ?thesis by (auto simp: directory_inv_def)
qed

lemma directory_announce_Some: "directory_announce os s d cs owner = (Some e, s') \<Longrightarrow> s' = s"
  by (auto simp: directory_announce_def announce_unfold Let_def split: if_splits sum.splits option.splits)

lemma remove_peer_inv:
  assumes "directory_inv s"
  shows "directory_inv (snd (metadata_remove_peer os s peer))"
    and "fst (metadata_remove_peer os s peer) = None \<Longrightarrow>
      lookup_entry (snd (metadata_remove_peer os s peer)) i = map_option (forget_peer peer) (lookup_entry s i)"
proof -
  have inv: "store_inv s" using assms by (simp add: directory_inv_def)
  note r = metadata_step_refines [OF inv, of os "RemovePeer peer"]
  have f: "directory_entry_ok i e \<Longrightarrow> directory_entry_ok i (forget_peer peer e)" for i e
    using entry_inv_available [of e "filter (\<lambda>a. avail_peer a \<noteq> peer) (available e)"]
    by (auto simp: directory_entry_ok_def forget_peer_def entry_inv_def [of e] list_all_iff)
  obtain x s' where x: "metadata_remove_peer os s peer = (x, s')" by (cases "metadata_remove_peer os s peer")
  have l: "lookup_entry s' = (if x = None then (\<lambda>i. map_option (forget_peer peer) (lookup_entry s i)) else lookup_entry s)"
    and s': "store_inv s'"
    using r x by (auto split: option.splits)
  show "directory_inv (snd (metadata_remove_peer os s peer))"
    using assms f l s' x by (auto simp: directory_inv_def split: if_splits)
  show "lookup_entry (snd (metadata_remove_peer os s peer)) i = map_option (forget_peer peer) (lookup_entry s i)"
    if "fst (metadata_remove_peer os s peer) = None"
    using that l x by simp
qed

lemma directory_step_inv:
  assumes "directory_inv s" "directory_op_ok op"
  shows "directory_inv (snd (directory_step os op s))"
proof (cases op)
  case (AnnounceOp d cs owner)
  then show ?thesis
    using assms directory_announce_inv [OF assms(1)]
    by (cases "directory_announce os s d cs owner"; cases "fst (directory_announce os s d cs owner)")
      (auto dest: directory_announce_Some)
next
  case (LeaveOp peer)
  then show ?thesis using remove_peer_inv(1) [OF assms(1)] by simp
qed

lemma directory_run_inv:
  assumes "metadata_create os = Inr s" "list_all (\<lambda>x. directory_op_ok (snd x)) ops"
  shows "directory_inv (directory_run ops s)"
proof -
  have "directory_inv s" using created_store [OF assms(1)] by (simp add: directory_inv_def)
  then show ?thesis using assms(2)
    by (induction ops s rule: directory_run.induct) (simp_all add: directory_step_inv)
qed

section \<open>What a lookup finds\<close>

text \<open>The endpoints of the holders that are live members, as the environment lets the table see them.\<close>

lemma reachable_member_Some:
  assumes "table_inv t" "length i = ID_SIZE" "reachable_member os t i = Some m"
  shows "member_of t i = Some m" "local_registration m" "member_state m < SUPERPEER_MEMBER_FAILED"
  using assms(3) by (auto simp: reachable_member_def superpeer_find_member_def member_of_def split: sum.splits option.splits if_splits)

lemma reachable_member_calm:
  assumes "member_of t i = Some m" "local_registration m" "member_state m < SUPERPEER_MEMBER_FAILED"
  shows "reachable_member calm t i = Some m"
proof -
  have "member_state m \<noteq> SUPERPEER_MEMBER_REMOVED" using assms(3) by (auto simp: state_order)
  then show ?thesis using assms by (auto simp: reachable_member_def superpeer_find_member_def member_of_def)
qed

lemma valid_endpoints_sound:
  assumes "e \<in> set (valid_endpoints os t j owners)"
  shows "\<exists>i m k. i \<in> set owners \<and> reachable_member (at os k) t i = Some m \<and> e = endpoint_of i m"
  using assms
proof (induction os t j owners rule: valid_endpoints.induct)
  case (2 os t j i owners)
  show ?case
  proof (cases "e \<in> set (valid_endpoints os t (Suc j) owners)")
    case True
    then obtain x m k where "x \<in> set owners" "reachable_member (at os k) t x = Some m" "e = endpoint_of x m" using "2.IH" by blast
    then show ?thesis by (intro exI [of _ x] exI [of _ m] exI [of _ k]) simp
  next
    case False
    then obtain m where "reachable_member (at os j) t i = Some m" "e = endpoint_of i m" using "2.prems" by (cases "reachable_member (at os j) t i") auto
    then show ?thesis by (intro exI [of _ i] exI [of _ m] exI [of _ j]) simp
  qed
qed simp

lemma valid_endpoints_calm:
  "i \<in> set owners \<Longrightarrow> reachable_member calm t i = Some m \<Longrightarrow> endpoint_of i m \<in> set (valid_endpoints calm t j owners)"
  by (induction owners arbitrary: j) auto

lemma length_valid_endpoints: "length (valid_endpoints os t j owners) \<le> length owners"
  by (induction os t j owners rule: valid_endpoints.induct) (auto split: option.split)

definition live_holder :: "MetadataStore \<Rightarrow> SuperPeer \<Rightarrow> ObjectID \<Rightarrow> u64 \<Rightarrow> TransferEndpoint \<Rightarrow> bool" where
  "live_holder s t i k e \<longleftrightarrow> (\<exists>m. endpoint_node e \<in> holders s i k \<and> member_of t (endpoint_node e) = Some m \<and> local_registration m \<and>
     member_state m < SUPERPEER_MEMBER_FAILED \<and> e = endpoint_of (endpoint_node e) m)"

lemma lookup_chunk_Inr:
  assumes "directory_inv s" "table_inv t" "lookup_chunk os s t i k = Inr l"
  shows "metadata_chunk_descriptor calm s i k = Inr (descriptor l)" "peers l \<noteq> []" "list_all (live_holder s t i k) (peers l)"
    "\<exists>owners. metadata_chunk_peers (at os 1) s i k = Inr owners \<and> length (peers l) \<le> length owners"
proof -
  obtain owners where o: "metadata_chunk_peers (at os 1) s i k = Inr owners" "peers l = valid_endpoints (at os 3) t 0 owners"
    "peers l \<noteq> []" "metadata_chunk_descriptor (at os 0) s i k = Inr (descriptor l)"
    using assms(3) by (auto simp: lookup_chunk_def Let_def split: sum.splits option.splits if_splits)
  show "metadata_chunk_descriptor calm s i k = Inr (descriptor l)"
    using o(4) by (auto simp: metadata_chunk_descriptor_def split: option.splits if_splits)
  show "peers l \<noteq> []" by (rule o(3))
  show "\<exists>owners. metadata_chunk_peers (at os 1) s i k = Inr owners \<and> length (peers l) \<le> length owners"
    using o(1,2) length_valid_endpoints by auto
  have h: "set owners = holders s i k" by (rule chunk_peers_holders [OF o(1)])
  have len: "length x = ID_SIZE" if x: "x \<in> holders s i k" for x
    using x assms(1) by (fastforce simp: in_holders directory_inv_def directory_entry_ok_def list_all_iff)
  have "live_holder s t i k e" if e: "e \<in> set (peers l)" for e
  proof -
    obtain x m n where x: "x \<in> set owners" "reachable_member (at (at os 3) n) t x = Some m" "e = endpoint_of x m"
      using valid_endpoints_sound [OF e [unfolded o(2)]] by blast
    have n: "endpoint_node e = x" using x(3) by (simp add: endpoint_of_def)
    show ?thesis unfolding live_holder_def n
      using reachable_member_Some [OF assms(2) len x(2)] x(1,3) h by auto
  qed
  then show "list_all (live_holder s t i k) (peers l)" by (simp add: list_all_iff)
qed

lemma lookup_locations_Inr:
  "lookup_locations n os s t i k = Inr ls \<Longrightarrow>
     length ls = n \<and> (\<forall>j < n. lookup_chunk (at os (k + j)) s t i (of_nat (k + j)) = Inr (ls ! j))"
proof (induction n arbitrary: k ls)
  case (Suc n)
  then obtain l ls' where l: "lookup_chunk (at os k) s t i (of_nat k) = Inr l" "lookup_locations n os s t i (Suc k) = Inr ls'" "ls = l # ls'"
    by (auto split: sum.splits)
  have "lookup_chunk (at os (k + j)) s t i (of_nat (k + j)) = Inr (ls ! j)" if "j < Suc n" for j
    using Suc.IH [OF l(2)] l(1,3) that by (cases j) auto
  with Suc.IH [OF l(2)] l(3) show ?case by simp
qed simp

lemma lookup_locations_calm:
  "(\<And>j. k \<le> j \<Longrightarrow> j < k + n \<Longrightarrow> \<exists>l. lookup_chunk calm s t i (of_nat j) = Inr l) \<Longrightarrow> \<exists>ls. lookup_locations n calm s t i k = Inr ls"
proof (induction n arbitrary: k)
  case (Suc n)
  obtain l where "lookup_chunk calm s t i (of_nat k) = Inr l" using Suc.prems [of k] by auto
  moreover obtain ls where "lookup_locations n calm s t i (Suc k) = Inr ls" using Suc.IH [of "Suc k"] Suc.prems by auto
  ultimately show ?case by simp
qed simp

lemma lookup_selected_Inr:
  assumes "directory_inv s" "lookup_selected os s t i = Inr r"
  obtains e where "lookup_entry s i = Some e" "lookup_document r = lookup_header (document e)"
    "lookup_locations (unat (chunk_count (document e))) (at os 3) s t i 0 = Inr (lookup_chunks r)"
proof -
  obtain doc where d: "metadata_find_document (at os 1) s i = Inr doc" "lookup_document r = lookup_header doc"
    "lookup_locations (unat (chunk_count doc)) (at os 3) s t i 0 = Inr (lookup_chunks r)"
    using assms(2) by (auto simp: lookup_selected_def split: sum.splits option.splits if_splits)
  then obtain e where e: "lookup_entry s i = Some e" "chunk_count doc = chunk_count (document e)" "lookup_header doc = lookup_header (document e)"
    by (auto simp: metadata_find_document_def lookup_header_cong split: option.splits if_splits)
  with d show ?thesis by (auto intro: that)
qed

lemma chunk_peers_calm:
  assumes "lookup_entry s i = Some e" "entry_inv e" "unat k < unat (chunk_count (document e))" "card (holders s i k) \<le> 65535"
  shows "\<exists>ps. metadata_chunk_peers calm s i k = Inr ps"
proof -
  let ?as = "filter (\<lambda>a. avail_index a = k) (available e)"
  have "inj_on avail_peer (set ?as)" by (rule inj_onI) (auto intro: Availability.equality)
  moreover have "distinct ?as" using assms(2) by (simp add: entry_inv_def)
  ultimately have "length (map avail_peer ?as) = card (avail_peer ` set ?as)"
    by (metis card_image distinct_card length_map)
  also have "avail_peer ` set ?as = holders s i k" using assms(1) by (auto simp: holders_def)
  finally have "length (map avail_peer ?as) \<le> 65535" using assms(4) by simp
  moreover have "(65535 :: nat) \<le> SIZE_MAX div 32" by (simp add: SIZE_MAX_def)
  ultimately have "\<not> SIZE_MAX div 32 < length (map avail_peer ?as)" by linarith
  moreover have "\<not> ucast (chunk_count (document e)) \<le> k" using assms(3) by (simp add: not_le unat_count_less)
  ultimately show ?thesis using assms(1) by (simp add: metadata_chunk_peers_def Let_def)
qed

lemma length_chunk_peers:
  assumes "directory_inv s" "metadata_chunk_peers os s i k = Inr ps"
  shows "length ps = card (holders s i k)"
proof -
  obtain e where e: "lookup_entry s i = Some e" "ps = map avail_peer (filter (\<lambda>a. avail_index a = k) (available e))"
    using assms(2) by (auto simp: metadata_chunk_peers_def Let_def split: option.splits if_splits)
  let ?as = "filter (\<lambda>a. avail_index a = k) (available e)"
  have "inj_on avail_peer (set ?as)" by (rule inj_onI) (auto intro: Availability.equality)
  moreover have "distinct ?as" using assms(1) e(1) by (auto simp: directory_inv_def directory_entry_ok_def entry_inv_def)
  ultimately have "length ps = card (set ps)" unfolding e(2) by (metis distinct_card distinct_map)
  then show ?thesis using chunk_peers_holders [OF assms(2)] by simp
qed

text \<open>What the table holds of an address: it was validated when the member entered.\<close>

definition addressable :: "lib \<Rightarrow> SuperPeerMember \<Rightarrow> bool" where
  "addressable lib m \<longleftrightarrow> node_validate lib (member_node m) \<and> length (ip (config (member_node m))) = NODE_ADDRESS_SIZE"

lemma cstr_shorter: "0 \<in> set bs \<Longrightarrow> length (cstr bs) < length bs"
  by (induction bs) (auto simp: cstr_def)

lemma endpoint_of_wf:
  assumes "addressable lib m" "length i = ID_SIZE"
  shows "endpoint_wf (endpoint_of i m)"
proof -
  let ?ip = "ip (config (member_node m))"
  have c: "port (config (member_node m)) \<noteq> 0" "0 \<in> set ?ip" "cstr ?ip \<noteq> []"
    using assms(1) by (auto simp: addressable_def node_validate_def node_compute_id_def node_config_validate_def normalize_ip_def
        split: sum.splits if_splits)
  have "length (cstr ?ip) < length ?ip" using c(2) by (rule cstr_shorter)
  then have l: "length (cstr ?ip) < NODE_ADDRESS_SIZE" using assms(1) by (simp add: addressable_def)
  have "cstr (zero_padded NODE_ADDRESS_SIZE (cstr ?ip)) = cstr ?ip" by (rule cstr_zero_padded) (use cstr_no_zero l in auto)
  then show ?thesis using c l assms(2) by (simp add: endpoint_wf_def endpoint_of_def ID_SIZE_def NODE_ID_SIZE_def)
qed

lemma chunk_index_descriptor:
  assumes "directory_inv s" "lookup_entry s i = Some e" "j < unat (chunk_count (document e))"
    "metadata_chunk_descriptor calm s i (of_nat j) = Inr c"
  shows "c = the (chunks e) ! j" "chunk_index c = of_nat j" "length (chunk_hash c) = OBJECT_ID_SIZE"
proof -
  obtain cs where cs: "chunks e = Some cs" "list_all (\<lambda>c. length (chunk_hash c) = OBJECT_ID_SIZE) cs" "entry_inv e"
    using assms(1,2) by (auto simp: directory_inv_def directory_entry_ok_def)
  have j: "unat (of_nat j :: u64) = j" using assms(3) count_bound [of "chunk_count (document e)"] by (simp add: unat_of_nat)
  show c: "c = the (chunks e) ! j" using assms(2,4) cs(1) j by (auto simp: metadata_chunk_descriptor_def split: if_splits)
  have "j < length cs" "chunk_consistent (document e) cs j" using cs assms(3) by (simp_all add: entry_inv_def)
  then show "chunk_index c = of_nat j" "length (chunk_hash c) = OBJECT_ID_SIZE"
    using c cs(1,2) by (auto simp: chunk_consistent_def Let_def list_all_length)
qed

lemma holder_length:
  assumes "directory_inv s" "x \<in> holders s i k"
  shows "length x = ID_SIZE"
  using assms by (fastforce simp: in_holders directory_inv_def directory_entry_ok_def list_all_iff)

lemma lookup_selected_sound:
  assumes "directory_inv s" "table_inv t" "lookup_selected os s t i = Inr r"
  shows "transfer_id (lookup_document r) = i" "document_wf (lookup_document r)"
    "length (lookup_chunks r) = unat (transfer_chunk_count (lookup_document r))"
    "j < length (lookup_chunks r) \<Longrightarrow> peers (lookup_chunks r ! j) \<noteq> [] \<and> list_all (live_holder s t i (of_nat j)) (peers (lookup_chunks r ! j))"
    "\<exists>e. lookup_entry s i = Some e \<and> chunks e = Some (map descriptor (lookup_chunks r))"
    "list_all (addressable lib) (members t) \<Longrightarrow> \<forall>k. card (holders s i k) \<le> 65535 \<Longrightarrow> lookup_wf r"
proof -
  obtain e where e: "lookup_entry s i = Some e" "lookup_document r = lookup_header (document e)"
    "lookup_locations (unat (chunk_count (document e))) (at os 3) s t i 0 = Inr (lookup_chunks r)"
    by (rule lookup_selected_Inr [OF assms(1,3)])
  obtain cs where ok: "entry_inv e" "object_id (document e) = i" "document_wf (lookup_header (document e))" "chunks e = Some cs"
    using assms(1) e(1) by (auto simp: directory_inv_def directory_entry_ok_def)
  show "transfer_id (lookup_document r) = i" "document_wf (lookup_document r)" using e(2) ok by (simp_all add: lookup_header_def)
  note l = lookup_locations_Inr [OF e(3)]
  show n: "length (lookup_chunks r) = unat (transfer_chunk_count (lookup_document r))"
    using l e(2) count_bound [of "chunk_count (document e)"] by (simp add: lookup_header_def unsigned_ucast_eq take_bit_nat_eq_self)
  have c: "\<exists>os'. lookup_chunk os' s t i (of_nat j) = Inr (lookup_chunks r ! j)" if "j < length (lookup_chunks r)" for j
    using l that by auto
  have p: "peers (lookup_chunks r ! j) \<noteq> []" "list_all (live_holder s t i (of_nat j)) (peers (lookup_chunks r ! j))"
    "metadata_chunk_descriptor calm s i (of_nat j) = Inr (descriptor (lookup_chunks r ! j))"
    "length (peers (lookup_chunks r ! j)) \<le> card (holders s i (of_nat j))"
    if "j < length (lookup_chunks r)" for j
    using c [OF that] lookup_chunk_Inr [OF assms(1,2)] length_chunk_peers [OF assms(1)] by metis+
  show "j < length (lookup_chunks r) \<Longrightarrow> peers (lookup_chunks r ! j) \<noteq> [] \<and> list_all (live_holder s t i (of_nat j)) (peers (lookup_chunks r ! j))"
    using p(1,2) by blast
  have len: "length (lookup_chunks r) = unat (chunk_count (document e))" using l by simp
  note d = chunk_index_descriptor [OF assms(1) e(1) _ p(3), folded len]
  have "cs = map descriptor (lookup_chunks r)"
    by (rule nth_equalityI) (use ok(1,4) len d(1) in \<open>auto simp: entry_inv_def\<close>)
  then show "\<exists>e. lookup_entry s i = Some e \<and> chunks e = Some (map descriptor (lookup_chunks r))" using e(1) ok(4) by blast
  assume a: "list_all (addressable lib) (members t)" and b: "\<forall>k. card (holders s i k) \<le> 65535"
  have "list_all endpoint_wf (peers (lookup_chunks r ! j))" if j: "j < length (lookup_chunks r)" for j
  proof -
    have "endpoint_wf x" if x: "live_holder s t i (of_nat j) x" for x
    proof -
      obtain m where m: "endpoint_node x \<in> holders s i (of_nat j)" "member_of t (endpoint_node x) = Some m" "x = endpoint_of (endpoint_node x) m"
        using x unfolding live_holder_def by blast
      note h = holder_length [OF assms(1) m(1)]
      have "addressable lib m" using a m(2) member_of_iff [OF assms(2) h] by (simp add: list_all_iff)
      then show ?thesis using endpoint_of_wf [OF _ h] m(3) by metis
    qed
    then show ?thesis using p(2) [OF j] by (auto simp: list_all_iff)
  qed
  moreover have "length (peers (lookup_chunks r ! j)) \<le> 65535" if "j < length (lookup_chunks r)" for j
    using p(4) [OF that] b le_trans by blast
  ultimately have "locations_wf (of_nat j) (lookup_chunks r ! j)" if "j < length (lookup_chunks r)" for j
    using d(2,3) that by (simp add: locations_wf_def)
  then show "lookup_wf r" using n e(2) ok(3) by (simp add: lookup_wf_def)
qed

section \<open>Properties\<close>

lemma find_name_unique:
  assumes "directory_inv s" "metadata_find_name os s name = Inr i"
  shows "\<exists>e. lookup_entry s i = Some e \<and> cstr (filename (document e)) = name"
proof -
  obtain e where e: "filter (\<lambda>e. cstr (filename (document e)) = name) (concat s) = [e]" "i = object_id (document e)"
    using assms(2) by (auto simp: metadata_find_name_def split: option.splits list.splits)
  have "e \<in> set (filter (\<lambda>e. cstr (filename (document e)) = name) (concat s))" unfolding e(1) by simp
  then obtain b where b: "b < length s" "e \<in> set (s ! b)" and n: "cstr (filename (document e)) = name"
    by (auto simp: in_set_conv_nth [of _ s])
  have inv: "store_inv s" using assms(1) by (simp add: directory_inv_def)
  then have "bucket i = b" using b e(2) by (auto simp: store_inv_def entry_key_def)
  then have "lookup_entry s i = Some e" using b e(2) by (simp add: lookup_entry_iff [OF inv] entry_key_def)
  with n show ?thesis by blast
qed

lemma directory_lookup_selected:
  assumes "directory_lookup os s t type i name = Inr r"
  obtains j where "lookup_selected os s t j = Inr r" "type = TRANSFER_SELECTOR_OBJECT_ID \<longrightarrow> j = i"
    "type = TRANSFER_SELECTOR_NAME \<longrightarrow> metadata_find_name (at os 0) s name = Inr j"
  using assms by (cases type) (auto simp: directory_lookup_def split: sum.splits)

text \<open>
C23: A lookup never sends a client to the wrong place. Whatever the sequence of announcements and departures before it and whichever calls fail, an answer
is about the document that was asked for, by identifier or by name; it carries the announced descriptor of every chunk, in order; every chunk has at least one
peer, and each peer listed has announced that chunk, is registered with this Super Peer, is not failed, and is listed with the address it registered. Where
the members of the table are valid and no chunk has more than 65535 holders, the answer is well formed, so it can be sent.\<close>

theorem directory_lookup_sound:
  assumes "metadata_create os0 = Inr s0" "list_all (\<lambda>x. directory_op_ok (snd x)) ops" "s = directory_run ops s0" "table_inv t"
    "directory_lookup os s t type i name = Inr r"
  shows "(type = TRANSFER_SELECTOR_OBJECT_ID \<longrightarrow> transfer_id (lookup_document r) = i) \<and>
    (type = TRANSFER_SELECTOR_NAME \<longrightarrow> cstr (transfer_name (lookup_document r)) = name) \<and>
    (\<exists>e. lookup_entry s (transfer_id (lookup_document r)) = Some e \<and> chunks e = Some (map descriptor (lookup_chunks r))) \<and>
    (\<forall>j < length (lookup_chunks r). peers (lookup_chunks r ! j) \<noteq> [] \<and>
       list_all (live_holder s t (transfer_id (lookup_document r)) (of_nat j)) (peers (lookup_chunks r ! j))) \<and>
    (list_all (addressable lib) (members t) \<longrightarrow> (\<forall>k. card (holders s (transfer_id (lookup_document r)) k) \<le> 65535) \<longrightarrow> lookup_wf r)"
proof -
  have inv: "directory_inv s" unfolding assms(3) by (rule directory_run_inv [OF assms(1,2)])
  obtain j where j: "lookup_selected os s t j = Inr r" "type = TRANSFER_SELECTOR_OBJECT_ID \<longrightarrow> j = i"
    "type = TRANSFER_SELECTOR_NAME \<longrightarrow> metadata_find_name (at os 0) s name = Inr j"
    by (rule directory_lookup_selected [OF assms(5)])
  note l = lookup_selected_sound [OF inv assms(4) j(1)]
  have "cstr (transfer_name (lookup_document r)) = name" if n: "type = TRANSFER_SELECTOR_NAME"
  proof -
    obtain e where e: "lookup_entry s j = Some e" "cstr (filename (document e)) = name"
      using find_name_unique [OF inv] j(3) n by blast
    have "lookup_document r = lookup_header (document e)" by (rule lookup_selected_Inr [OF inv j(1)]) (use e(1) in simp)
    then show ?thesis using e(2) cstr_zero_padded [OF cstr_no_zero, of METADATA_NAME_SIZE "filename (document e)"] by (simp add: lookup_header_def)
  qed
  then show ?thesis using l j(2) by simp
qed

text \<open>What makes a document found through a peer: the index has its descriptors and the peer for every chunk.\<close>

definition same_chunks :: "MetadataChunk list \<Rightarrow> MetadataChunk list \<Rightarrow> bool" where
  "same_chunks cs cs' \<longleftrightarrow> map (\<lambda>c. c\<lparr>compressed_size := 0\<rparr>) cs = map (\<lambda>c. c\<lparr>compressed_size := 0\<rparr>) cs'"

definition offers :: "MetadataStore \<Rightarrow> ObjectID \<Rightarrow> MetadataChunk list \<Rightarrow> NodeID \<Rightarrow> bool" where
  "offers s i cs owner \<longleftrightarrow> (\<exists>e. lookup_entry s i = Some e \<and> chunks e = Some cs \<and>
     {a. avail_peer a = owner \<and> unat (avail_index a) < length cs} \<subseteq> set (available e))"

lemma offers_found:
  assumes "directory_inv s" "table_inv t" "offers s i cs owner" "member_of t owner = Some m" "local_registration m"
    "member_state m < SUPERPEER_MEMBER_FAILED" "\<forall>k. card (holders s i k) \<le> 65535"
  shows "\<exists>r. lookup_selected calm s t i = Inr r \<and> (\<forall>e. lookup_entry s i = Some e \<longrightarrow> lookup_document r = lookup_header (document e)) \<and>
    map descriptor (lookup_chunks r) = cs \<and> list_all (\<lambda>l. endpoint_of owner m \<in> set (peers l)) (lookup_chunks r)"
proof -
  obtain e where le: "lookup_entry s i = Some e" and cs: "chunks e = Some cs"
    and av: "{a. avail_peer a = owner \<and> unat (avail_index a) < length cs} \<subseteq> set (available e)"
    using assms(3) by (auto simp: offers_def)
  have ei: "entry_inv e" using assms(1) le by (auto simp: directory_inv_def directory_entry_ok_def)
  have n: "unat (chunk_count (document e)) = length cs" using ei cs by (simp add: entry_inv_def)
  have small: "unat (of_nat j :: u64) = j" if "j < length cs" for j
    using that n count_bound [of "chunk_count (document e)"] by (simp add: unat_of_nat)
  have r: "reachable_member calm t owner = Some m" by (rule reachable_member_calm [OF assms(4-6)])
  have c: "\<exists>l. lookup_chunk calm s t i (of_nat j) = Inr l \<and> endpoint_of owner m \<in> set (peers l)" if j: "j < length cs" for j
  proof -
    obtain ps where ps: "metadata_chunk_peers calm s i (of_nat j) = Inr ps"
      using chunk_peers_calm [OF le ei, of "of_nat j"] small [OF j] n j assms(7) by auto
    have "\<lparr>avail_index = of_nat j, avail_peer = owner\<rparr> \<in> set (available e)" by (rule subsetD [OF av]) (simp add: small [OF j] j)
    then have "owner \<in> set ps" using chunk_peers_holders [OF ps] le by (auto simp: in_holders)
    then have v: "endpoint_of owner m \<in> set (valid_endpoints calm t 0 ps)" by (rule valid_endpoints_calm [OF _ r])
    have "metadata_chunk_descriptor calm s i (of_nat j) = Inr (cs ! j)"
      using le cs n j small [OF j] by (simp add: metadata_chunk_descriptor_def unat_count_less)
    then show ?thesis using ps v by (auto simp: lookup_chunk_def Let_def)
  qed
  have "\<exists>l. lookup_chunk calm s t i (of_nat j) = Inr l" if "j < 0 + length cs" for j using c [of j] that by auto
  then obtain ls where ls: "lookup_locations (length cs) calm s t i 0 = Inr ls" using lookup_locations_calm [of 0 "length cs" s t i] by blast
  obtain doc where doc: "metadata_find_document calm s i = Inr doc" "chunk_count doc = chunk_count (document e)"
    "lookup_header doc = lookup_header (document e)"
    using le by (cases "chunk_hashes (document e)") (simp_all add: metadata_find_document_def lookup_header_cong)
  define r where "r = \<lparr>lookup_document = lookup_header doc, lookup_chunks = ls\<rparr>"
  have sel: "lookup_selected calm s t i = Inr r"
    using doc ls n by (cases "chunk_count (document e) = 0") (auto simp: lookup_selected_def r_def)
  note lo = lookup_locations_Inr [OF ls]
  have "endpoint_of owner m \<in> set (peers (ls ! j))" if "j < length ls" for j using lo c [of j] that by auto
  then have "list_all (\<lambda>l. endpoint_of owner m \<in> set (peers l)) (lookup_chunks r)" by (simp add: list_all_length r_def)
  moreover have "map descriptor (lookup_chunks r) = cs" using lookup_selected_sound(5) [OF assms(1,2) sel] le cs by simp
  ultimately show ?thesis using sel doc(3) le by (auto simp: r_def)
qed

lemma announced_offers:
  assumes "directory_inv s" "announcement_wf d cs" "directory_announce os s d cs owner = (None, s')"
  shows "offers s' (transfer_id d) cs owner"
  by (rule directory_announce_entry [OF assms]) (auto simp: offers_def)

lemma announced_found:
  assumes "directory_inv s" "table_inv t"
    "announcement_wf d cs" "length owner = ID_SIZE" "member_of t owner = Some m" "local_registration m"
    "member_state m < SUPERPEER_MEMBER_FAILED" "directory_announce os s d cs owner = (None, s')"
    "\<forall>k. card (holders s' (transfer_id d) k) \<le> 65535"
  shows "\<exists>r. directory_lookup calm s' t TRANSFER_SELECTOR_OBJECT_ID (transfer_id d) name = Inr r \<and>
    lookup_document r = (case lookup_entry s (transfer_id d) of None \<Rightarrow> d | Some old \<Rightarrow> lookup_header (document old)) \<and>
    map descriptor (lookup_chunks r) = cs \<and> list_all (\<lambda>l. endpoint_of owner m \<in> set (peers l)) (lookup_chunks r)"
proof -
  have inv': "directory_inv s'" by (rule directory_announce_inv [OF assms(1,3,4,8)])
  obtain e where e: "lookup_entry s' = (lookup_entry s)(transfer_id d \<mapsto> e)"
    "lookup_header (document e) = (case lookup_entry s (transfer_id d) of None \<Rightarrow> d | Some old \<Rightarrow> lookup_header (document old))"
    by (rule directory_announce_entry [OF assms(1,3,8)])
  obtain r where "lookup_selected calm s' t (transfer_id d) = Inr r" "\<forall>e. lookup_entry s' (transfer_id d) = Some e \<longrightarrow> lookup_document r = lookup_header (document e)"
    "map descriptor (lookup_chunks r) = cs" "list_all (\<lambda>l. endpoint_of owner m \<in> set (peers l)) (lookup_chunks r)"
    using offers_found [OF inv' assms(2) announced_offers [OF assms(1,3,8)] assms(5-7,9)] by blast
  then show ?thesis using e by (simp add: directory_lookup_def)
qed

text \<open>An offer lasts until the peer leaves; another announcement of the document can change only the compressed sizes.\<close>

lemma same_chunks_nth:
  assumes "length cs = length cs'" "\<And>k. k < length cs \<Longrightarrow> raw_size (cs ! k) = raw_size (cs' ! k) \<and> chunk_hash (cs ! k) = chunk_hash (cs' ! k)"
    "\<And>k. k < length cs \<Longrightarrow> chunk_consistent doc cs k" "\<And>k. k < length cs \<Longrightarrow> chunk_consistent doc' cs' k"
  shows "same_chunks cs cs'"
  unfolding same_chunks_def
proof (rule nth_equalityI)
  fix k assume "k < length (map (\<lambda>c. c\<lparr>compressed_size := 0\<rparr>) cs)"
  then have k: "k < length cs" by simp
  have "chunk_index (cs ! k) = chunk_index (cs' ! k)" "chunk_offset (cs ! k) = chunk_offset (cs' ! k)"
    using assms(3,4) [OF k] by (simp_all add: chunk_consistent_def Let_def)
  then show "map (\<lambda>c. c\<lparr>compressed_size := 0\<rparr>) cs ! k = map (\<lambda>c. c\<lparr>compressed_size := 0\<rparr>) cs' ! k"
    using k assms(1) assms(2) [OF k] by (cases "cs ! k"; cases "cs' ! k") simp
qed (simp add: assms(1))

lemma same_chunks_trans: "same_chunks a b \<Longrightarrow> same_chunks b c \<Longrightarrow> same_chunks a c"
  by (simp add: same_chunks_def)

lemma same_chunks_length: "same_chunks a b \<Longrightarrow> length a = length b"
  by (metis length_map same_chunks_def)

lemma announce_same_chunks:
  assumes "directory_inv s" "announcement_wf d cs" "directory_announce os s d cs owner = (None, s')"
    "lookup_entry s (transfer_id d) = Some old" "chunks old = Some ocs"
  shows "same_chunks cs ocs"
proof -
  let ?doc = "announced_metadata d owner"
  note a = directory_announce_None [OF assms(3)]
  have oi: "entry_inv old" using assms(1,4) by (auto simp: directory_inv_def directory_entry_ok_def)
  obtain items where items: "announce_checks os ?doc cs owner = Inr items" using a(1) by (auto simp: announce_unfold split: sum.splits)
  have id: "object_id ?doc = transfer_id d" by (simp add: announced_metadata_def)
  have n: "length cs = unat (chunk_count ?doc)"
    using a(2) assms(2) by (simp add: announcement_wf_def announced_metadata_def unsigned_ucast_eq take_bit_nat_eq_self)
  obtain e where e: "merge_announced (at os 5) old (announced_entry ?doc cs items) ?doc cs owner = Inr e"
    using a(1) items assms(4) id by (auto simp: announce_unfold split: sum.splits)
  have m: "chunk_count (document old) = chunk_count ?doc" "list_all (\<lambda>k. raw_size (ocs ! k) = raw_size (cs ! k) \<and> chunk_hash (ocs ! k) = chunk_hash (cs ! k)) [0..<length cs]"
    using e assms(5) n by (auto simp: merge_announced_def list_ex_iff list_all_iff split: if_splits)
  have o: "length ocs = length cs" "\<And>k. k < length ocs \<Longrightarrow> chunk_consistent (document old) ocs k"
    using oi assms(5) m(1) n by (auto simp: entry_inv_def)
  show ?thesis
    by (rule same_chunks_nth [where doc = ?doc and doc' = "document old"])
      (use o m(2) announce_checks_Inr [OF items] n in \<open>auto simp: list_all_iff\<close>)
qed

lemma offers_step:
  assumes "directory_inv s" "directory_op_ok op" "op \<noteq> LeaveOp owner" "offers s i cs owner" "lookup_entry s i = Some e"
  shows "\<exists>cs' e'. same_chunks cs' cs \<and> offers (snd (directory_step os op s)) i cs' owner \<and>
    lookup_entry (snd (directory_step os op s)) i = Some e' \<and> lookup_header (document e') = lookup_header (document e)"
proof (cases op)
  case (AnnounceOp d cs2 o2)
  obtain x s' where x: "directory_announce os s d cs2 o2 = (x, s')" by (cases "directory_announce os s d cs2 o2")
  show ?thesis
  proof (cases x)
    case (Some y)
    then have "s' = s" using x directory_announce_Some by blast
    then show ?thesis using assms(4,5) x AnnounceOp by (auto simp: same_chunks_def)
  next
    case None
    have wf: "announcement_wf d cs2" using assms(2) AnnounceOp by simp
    obtain e' where e': "lookup_entry s' = (lookup_entry s)(transfer_id d \<mapsto> e')" "chunks e' = Some cs2"
      "set (available e') = {a. avail_peer a = o2 \<and> unat (avail_index a) < length cs2} \<union>
         (case lookup_entry s (transfer_id d) of None \<Rightarrow> {} | Some old \<Rightarrow> {a \<in> set (available old). avail_peer a \<noteq> o2})"
      "lookup_header (document e') = (case lookup_entry s (transfer_id d) of None \<Rightarrow> d | Some old \<Rightarrow> lookup_header (document old))"
      by (rule directory_announce_entry [OF assms(1) wf x [unfolded None]])
    have o: "chunks e = Some cs" "{a. avail_peer a = owner \<and> unat (avail_index a) < length cs} \<subseteq> set (available e)"
      using assms(4,5) by (auto simp: offers_def)
    show ?thesis
    proof (cases "transfer_id d = i")
      case False
      then have "lookup_entry s' i = lookup_entry s i" using e'(1) by simp
      then show ?thesis using assms(4,5) x AnnounceOp by (auto simp: same_chunks_def offers_def)
    next
      case True
      have s: "same_chunks cs2 cs" by (rule announce_same_chunks [OF assms(1) wf x [unfolded None] assms(5) [folded True] o(1)])
      have "offers s' i cs2 owner" using e'(1-3) o(2) assms(5) True same_chunks_length [OF s] by (auto simp: offers_def)
      then show ?thesis using s e'(1,4) True assms(5) x AnnounceOp by auto
    qed
  qed
next
  case (LeaveOp peer)
  note r = remove_peer_inv [OF assms(1), of os peer]
  show ?thesis
  proof (cases "fst (metadata_remove_peer os s peer)")
    case None
    then have "lookup_entry (snd (metadata_remove_peer os s peer)) i = Some (forget_peer peer e)" using r(2) [of i] assms(5) by simp
    then show ?thesis using assms(3-5) LeaveOp by (auto simp: offers_def forget_peer_def same_chunks_def)
  next
    case (Some y)
    then have "snd (metadata_remove_peer os s peer) = s" by (auto simp: metadata_remove_peer_def split: option.splits)
    then show ?thesis using assms(4,5) LeaveOp by (auto simp: same_chunks_def)
  qed
qed

lemma offers_run:
  assumes "directory_inv s" "list_all (\<lambda>x. directory_op_ok (snd x) \<and> snd x \<noteq> LeaveOp owner) ops" "offers s i cs owner" "lookup_entry s i = Some e"
  shows "\<exists>cs' e'. same_chunks cs' cs \<and> directory_inv (directory_run ops s) \<and> offers (directory_run ops s) i cs' owner \<and>
    lookup_entry (directory_run ops s) i = Some e' \<and> lookup_header (document e') = lookup_header (document e)"
  using assms
proof (induction ops s arbitrary: cs e rule: directory_run.induct)
  case (1 s)
  then show ?case by (auto simp: same_chunks_def)
next
  case (2 os op ops s)
  have ok: "directory_op_ok op" "op \<noteq> LeaveOp owner" "list_all (\<lambda>x. directory_op_ok (snd x) \<and> snd x \<noteq> LeaveOp owner) ops" using 2(3) by simp_all
  obtain cs1 e1 where s1: "same_chunks cs1 cs" "offers (snd (directory_step os op s)) i cs1 owner" "lookup_entry (snd (directory_step os op s)) i = Some e1"
    "lookup_header (document e1) = lookup_header (document e)"
    using offers_step [OF 2(2) ok(1,2) 2(4,5), of os] by blast
  show ?case using 2(1) [OF directory_step_inv [OF 2(2) ok(1)] ok(3) s1(2,3)] s1(1,4) same_chunks_trans by fastforce
qed

text \<open>A selector that means one document: its identifier, or a name that no other document of the index has.\<close>

definition selects :: "MetadataStore \<Rightarrow> TransferSelectorType \<Rightarrow> ObjectID \<Rightarrow> byte list \<Rightarrow> ObjectID \<Rightarrow> bool" where
  "selects s type j name i \<longleftrightarrow> (case type of TRANSFER_SELECTOR_OBJECT_ID \<Rightarrow> j = i
     | TRANSFER_SELECTOR_NAME \<Rightarrow> {k. \<exists>e. lookup_entry s k = Some e \<and> cstr (filename (document e)) = name} = {i})"

lemma index_keys_distinct:
  assumes "store_inv s"
  shows "distinct (map entry_key (concat s))"
proof -
  have d: "distinct (map entry_key (s ! b))" "\<And>e. e \<in> set (s ! b) \<Longrightarrow> bucket (entry_key e) = b" if "b < length s" for b
    using assms that by (auto simp: store_inv_def)
  have "distinct (map entry_key (concat (map ((!) s) bs)))" if "distinct bs" "\<forall>b \<in> set bs. b < length s" for bs
    using that
  proof (induction bs)
    case (Cons b bs)
    have "entry_key x \<noteq> entry_key y" if "x \<in> set (s ! b)" "y \<in> set (s ! c)" "c \<in> set bs" for x y c
      using d(2) [of b x] d(2) [of c y] that Cons.prems by auto
    then have "set (map entry_key (s ! b)) \<inter> set (map entry_key (concat (map ((!) s) bs))) = {}" by fastforce
    then show ?case using Cons d(1) [of b] by simp
  qed simp
  from this [of "[0..<length s]"] show ?thesis by (simp add: map_nth)
qed

lemma distinct_singleton: "distinct xs \<Longrightarrow> set xs = {x} \<Longrightarrow> xs = [x]"
  by (cases xs) (auto simp: subset_singleton_iff)

lemma find_name_found:
  assumes "store_inv s" "{k. \<exists>e. lookup_entry s k = Some e \<and> cstr (filename (document e)) = name} = {i}"
  shows "metadata_find_name calm s name = Inr i"
proof -
  let ?P = "\<lambda>e. cstr (filename (document e)) = name"
  have at: "lookup_entry s (entry_key e) = Some e" if c: "e \<in> set (concat s)" for e
  proof -
    obtain es where es: "es \<in> set s" "e \<in> set es" using c by auto
    then obtain b where "b < length s" "e \<in> set (s ! b)" by (metis in_set_conv_nth)
    moreover from this have "bucket (entry_key e) = b" using assms(1) by (auto simp: store_inv_def)
    ultimately show ?thesis by (simp add: lookup_entry_iff [OF assms(1)])
  qed
  have k: "entry_key e = i" if "e \<in> set (concat s)" "?P e" for e using at [OF that(1)] that(2) assms(2) by blast
  obtain e where e: "lookup_entry s i = Some e" "?P e" using assms(2) by blast
  have eb: "e \<in> set (s ! bucket i)" "entry_key e = i" using e(1) by (simp_all add: lookup_entry_iff [OF assms(1)])
  have len: "bucket i < length s" using assms(1) bucket_less [of i] by (simp add: store_inv_def)
  have "distinct (map entry_key (filter ?P (concat s)))" using index_keys_distinct [OF assms(1)] by (rule distinct_map_filter)
  moreover have "set (filter ?P (concat s)) = {e}"
  proof -
    have "x = e" if "x \<in> set (concat s)" "?P x" for x using at [OF that(1)] k [OF that] e(1) by simp
    moreover have "e \<in> set (concat s)" using eb(1) len by auto
    ultimately show ?thesis unfolding set_filter using e(2) by blast
  qed
  ultimately have "filter ?P (concat s) = [e]" by (intro distinct_singleton) (simp_all only: distinct_map)
  then show ?thesis using eb(2) by (simp add: metadata_find_name_def entry_key_def)
qed

lemma selected_lookup:
  assumes "directory_inv s" "selects s type j name i"
  shows "directory_lookup calm s t type j name = lookup_selected calm s t i"
  using assms find_name_found by (cases type) (auto simp: selects_def directory_lookup_def directory_inv_def)

text \<open>
C22: What is announced can be found. When a live peer registered with this Super Peer announces a document successfully, the next lookup of that document succeeds:
it returns the document as it was first announced, the descriptors of this announcement, and the address of the announcing peer for every chunk.\<close>

theorem directory_announce_lookup:
  assumes "metadata_create os0 = Inr s0" "list_all (\<lambda>x. directory_op_ok (snd x)) ops" "s = directory_run ops s0" "table_inv t"
    "announcement_wf d cs" "length owner = ID_SIZE" "member_of t owner = Some m" "local_registration m"
    "member_state m < SUPERPEER_MEMBER_FAILED" "directory_announce os s d cs owner = (None, s')"
    "\<forall>k. card (holders s' (transfer_id d) k) \<le> 65535"
  shows "\<exists>r. directory_lookup calm s' t TRANSFER_SELECTOR_OBJECT_ID (transfer_id d) name = Inr r \<and>
    lookup_document r = (case lookup_entry s (transfer_id d) of None \<Rightarrow> d | Some old \<Rightarrow> lookup_header (document old)) \<and>
    map descriptor (lookup_chunks r) = cs \<and> list_all (\<lambda>l. endpoint_of owner m \<in> set (peers l)) (lookup_chunks r)"
  by (rule announced_found [OF directory_run_inv [OF assms(1,2), folded assms(3)] assms(4-11)])

text \<open>A document announced by the second member of the sample table.\<close>

definition sample_paper :: TransferDocument where
  "sample_paper = \<lparr>transfer_id = replicate 32 7, transfer_name = zero_padded 256 [0x61, 0x2e, 0x50, 0x44, 0x46], file_size = 5,
     transfer_chunk_count = 1, compression = 1\<rparr>"

definition sample_part :: MetadataChunk where
  "sample_part = \<lparr>chunk_index = 0, chunk_offset = 0, raw_size = 5, compressed_size = 3, chunk_hash = replicate 32 3\<rparr>"

lemma sample_paper_name: "cstr (zero_padded 256 [0x61, 0x2e, 0x50, 0x44, 0x46]) = [0x61, 0x2e, 0x50, 0x44, 0x46 :: byte]"
  by (rule cstr_zero_padded) simp

lemma sample_paper_wf: "announcement_wf sample_paper [sample_part]"
proof -
  have "chunks_of_size 5 = 1" by (simp add: chunks_of_size_def METADATA_CHUNK_SIZE_def)
  then show ?thesis
    by (simp add: announcement_wf_def document_wf_def sample_paper_def sample_part_def sample_paper_name OBJECT_ID_SIZE_def
        METADATA_NAME_SIZE_def COMPRESSION_LZ4_def)
qed

lemma sample_paper_announced:
  assumes "metadata_create calm = Inr s"
  shows "directory_announce calm s sample_paper [sample_part] owner =
    (None, put_entry s (replicate 32 7) (announced_entry (announced_metadata sample_paper owner) [sample_part] [\<lparr>avail_index = 0, avail_peer = owner\<rparr>]))"
proof -
  let ?doc = "announced_metadata sample_paper owner"
  have cs: "chunks_of_size 5 = 1" by (simp add: chunks_of_size_def METADATA_CHUNK_SIZE_def)
  have f: "chunk_count ?doc = 1" "doc_size ?doc = 5" "filename ?doc = zero_padded 256 [0x61, 0x2e, 0x50, 0x44, 0x46]" "object_id ?doc = replicate 32 7"
    by (simp_all add: announced_metadata_def sample_paper_def)
  have "chunk_consistent ?doc [sample_part] 0"
    by (simp add: chunk_consistent_def announced_metadata_def sample_paper_def sample_part_def METADATA_CHUNK_SIZE_def Let_def)
  then have "announce_checks calm ?doc [sample_part] owner = Inr [\<lparr>avail_index = 0, avail_peer = owner\<rparr>]"
    by (simp add: announce_checks_def f cs sample_paper_name METADATA_NAME_SIZE_def)
  then have "metadata_announce calm s ?doc [sample_part] owner = (None, put_entry s (replicate 32 7) (announced_entry ?doc [sample_part] [\<lparr>avail_index = 0, avail_peer = owner\<rparr>]))"
    using created_store(2) [OF assms] by (simp add: announce_unfold f)
  then show ?thesis
    by (simp add: directory_announce_def sample_paper_def sample_paper_name COMPRESSION_LZ4_def strcasecmp_equal_def tolower_def Let_def)
qed

lemma sample_paper_holders:
  assumes "metadata_create calm = Inr s"
  shows "card (holders (snd (directory_announce calm s sample_paper [sample_part] owner)) (replicate 32 7) k) \<le> 65535"
proof -
  have "lookup_entry (snd (directory_announce calm s sample_paper [sample_part] owner)) (replicate 32 7) =
      Some (announced_entry (announced_metadata sample_paper owner) [sample_part] [\<lparr>avail_index = 0, avail_peer = owner\<rparr>])"
    unfolding sample_paper_announced [OF assms] snd_conv
    by (subst index.lookup_put [OF created_store(1) [OF assms]]) (simp_all add: entry_keys announced_metadata_def sample_paper_def)
  then have "holders (snd (directory_announce calm s sample_paper [sample_part] owner)) (replicate 32 7) k \<subseteq> {owner}"
    by (auto simp: holders_def announced_entry_def)
  then have "card (holders (snd (directory_announce calm s sample_paper [sample_part] owner)) (replicate 32 7) k) \<le> card {owner}"
    by (intro card_mono) simp_all
  then show ?thesis by simp
qed

lemma sample_live_member: "local_registration (sample_member b)" "member_state (sample_member b) < SUPERPEER_MEMBER_FAILED"
  by (simp_all add: sample_member_def set_member_def state_order)

lemma sample_announce_done:
  "directory_announce calm (replicate BUCKET_COUNT []) sample_paper [sample_part] (replicate 32 2) =
     (None, snd (directory_announce calm (replicate BUCKET_COUNT []) sample_paper [sample_part] (replicate 32 2)))"
  "\<forall>k. card (holders (snd (directory_announce calm (replicate BUCKET_COUNT []) sample_paper [sample_part] (replicate 32 2)))
     (transfer_id sample_paper) k) \<le> 65535"
proof -
  have c: "metadata_create calm = Inr (replicate BUCKET_COUNT [])" by (simp add: metadata_create_def)
  show "directory_announce calm (replicate BUCKET_COUNT []) sample_paper [sample_part] (replicate 32 2) =
     (None, snd (directory_announce calm (replicate BUCKET_COUNT []) sample_paper [sample_part] (replicate 32 2)))"
    by (simp add: sample_paper_announced [OF c])
  have "transfer_id sample_paper = replicate 32 7" by (simp add: sample_paper_def)
  then show "\<forall>k. card (holders (snd (directory_announce calm (replicate BUCKET_COUNT []) sample_paper [sample_part] (replicate 32 2)))
     (transfer_id sample_paper) k) \<le> 65535"
    using sample_paper_holders [OF c, of "replicate 32 2"] by (simp only:) blast
qed

lemma sample_start_directory:
  "metadata_create calm = Inr (replicate BUCKET_COUNT [])" "list_all (\<lambda>x. directory_op_ok (snd x)) []"
  "replicate BUCKET_COUNT [] = directory_run [] (replicate BUCKET_COUNT [])" "length (replicate 32 (2 :: byte)) = ID_SIZE"
  by (simp_all add: metadata_create_def ID_SIZE_def)

lemma sample_found:
  "\<exists>r. directory_lookup calm (snd (directory_announce calm (replicate BUCKET_COUNT []) sample_paper [sample_part] (replicate 32 2))) sample_table
        TRANSFER_SELECTOR_OBJECT_ID (transfer_id sample_paper) [] = Inr r \<and> map descriptor (lookup_chunks r) = [sample_part]"
  using announced_found [OF directory_run_inv [OF sample_start_directory(1,2), folded sample_start_directory(3)] sample_table_inv sample_paper_wf sample_start_directory(4) sample_member_of
      sample_live_member sample_announce_done, of "[]"] by (elim ex_forward conjE) (intro conjI)

theorem directory_announce_lookup_witness:
  "\<exists>r. directory_lookup calm (snd (directory_announce calm (replicate BUCKET_COUNT []) sample_paper [sample_part] (replicate 32 2))) sample_table
        TRANSFER_SELECTOR_OBJECT_ID (transfer_id sample_paper) [] = Inr r \<and>
     lookup_document r = sample_paper \<and> map descriptor (lookup_chunks r) = [sample_part]"
  using directory_announce_lookup [OF sample_start_directory(1-3) sample_table_inv sample_paper_wf sample_start_directory(4) sample_member_of
      sample_live_member sample_announce_done, of "[]", unfolded created_store(2) [OF sample_start_directory(1)] option.case]
  by (elim ex_forward conjE) (intro conjI)

theorem directory_lookup_sound_witness:
  "\<exists>s r. directory_lookup calm s sample_table TRANSFER_SELECTOR_OBJECT_ID (transfer_id sample_paper) [] = Inr r \<and> lookup_chunks r \<noteq> [] \<and>
     list_all (live_holder s sample_table (transfer_id sample_paper) 0) (peers (lookup_chunks r ! 0))"
proof -
  let ?ops = "[(calm, AnnounceOp sample_paper [sample_part] (replicate 32 2))]"
  let ?s = "directory_run ?ops (replicate BUCKET_COUNT [])"
  have ok: "list_all (\<lambda>x. directory_op_ok (snd x)) ?ops" using sample_paper_wf by (simp add: ID_SIZE_def)
  obtain r where r: "directory_lookup calm ?s sample_table TRANSFER_SELECTOR_OBJECT_ID (transfer_id sample_paper) [] = Inr r"
    "map descriptor (lookup_chunks r) = [sample_part]"
    using sample_found by auto
  have n: "length (lookup_chunks r) = 1" using arg_cong [OF r(2), of length] by simp
  note d = directory_lookup_sound [OF sample_start_directory(1) ok refl sample_table_inv r(1), of byte_lib]
  have i: "transfer_id (lookup_document r) = transfer_id sample_paper" using d [THEN conjunct1] by simp
  have "\<forall>j < length (lookup_chunks r). peers (lookup_chunks r ! j) \<noteq> [] \<and>
      list_all (live_holder ?s sample_table (transfer_id (lookup_document r)) (of_nat j)) (peers (lookup_chunks r ! j))"
    using d by (elim conjE)
  then have "list_all (live_holder ?s sample_table (transfer_id sample_paper) (of_nat 0)) (peers (lookup_chunks r ! 0))"
    unfolding i by (rule allE [where x = 0]) (use n in simp)
  moreover have "lookup_chunks r \<noteq> []" using n by auto
  ultimately show ?thesis using r(1) by (intro exI [of _ ?s] exI [of _ r]) simp
qed

end
