(* ===== verification/Chord.thy ===== *)
theory Chord
  imports Node
begin

text \<open>
  The Chord overlay of one node (\<^verbatim>\<open>chord.c\<close>, \<^verbatim>\<open>chord.h\<close>): arithmetic and intervals on the ring of
  256-bit identifiers, the record of neighbours and fingers, routing, and the repair of the
  successor after failures. The mutex serialises the operations, so each is one step on the record;
  the linked list of unavailable nodes is the list of their identifiers, the newest first.
\<close>

section \<open>Data\<close>

definition CHORD_FINGER_COUNT :: nat where
  "CHORD_FINGER_COUNT = 256"

record ChordPeer =
  peer_id :: NodeID
  peer_config :: NodeConfig

record Chord =
  local_peer :: ChordPeer
  successor :: ChordPeer
  predecessor :: ChordPeer
  fingers :: "ChordPeer list"
  has_predecessor :: bool
  unavailable :: "NodeID list"

definition zero_peer :: ChordPeer where
  "zero_peer = \<lparr>peer_id = replicate ID_SIZE 0,
     peer_config = \<lparr>ip = replicate NODE_ADDRESS_SIZE 0, port = 0, uuid = replicate NODE_UUID_SIZE 0\<rparr>\<rparr>"

section \<open>Arithmetic and intervals on the ring\<close>

text \<open>The loop of \<open>chord_id_add_power\<close>: add the carry at byte \<open>i\<close> and go left while one remains.\<close>

fun add_carry :: "byte list \<Rightarrow> nat \<Rightarrow> nat \<Rightarrow> byte list" where
  "add_carry bs i carry =
     (let sum = unat (bs ! i) + carry; bs = bs[i := of_nat sum]; carry = drop_bit 8 sum in
      if carry = 0 then bs else case i of 0 \<Rightarrow> bs | Suc j \<Rightarrow> add_carry bs j carry)"

declare add_carry.simps [simp del]

definition chord_id_add_power :: "NodeID \<Rightarrow> nat \<Rightarrow> NodeID \<Rightarrow> NodeID" where
  "chord_id_add_power base k result =
     (if CHORD_FINGER_COUNT \<le> k then result else add_carry base (31 - k div 8) (push_bit (k mod 8) 1))"

definition chord_interval_open_closed :: "NodeID \<Rightarrow> NodeID \<Rightarrow> NodeID \<Rightarrow> bool" where
  "chord_interval_open_closed start end value =
     (let order = node_id_compare start end in
      if order = 0 then True
      else if order < 0 then node_id_compare start value < 0 \<and> node_id_compare value end \<le> 0
      else node_id_compare start value < 0 \<or> node_id_compare value end \<le> 0)"

definition chord_interval_open_open :: "NodeID \<Rightarrow> NodeID \<Rightarrow> NodeID \<Rightarrow> bool" where
  "chord_interval_open_open start end value =
     (let order = node_id_compare start end in
      if order = 0 then \<not> node_id_equal start value
      else if order < 0 then node_id_compare start value < 0 \<and> node_id_compare value end < 0
      else node_id_compare start value < 0 \<or> node_id_compare value end < 0)"

section \<open>Operations\<close>

text \<open>The call sites of \<open>chord_create\<close> are \<open>calloc\<close> (0) and the mutex (1).\<close>

definition chord_create :: "os \<Rightarrow> Node \<Rightarrow> Chord result" where
  "chord_create os n =
     (let self = \<lparr>peer_id = id_of n, peer_config = config n\<rparr> in
      case fault (at os 0) of Some e \<Rightarrow> Inl e
      | None \<Rightarrow>
          (case fault (at os 1) of Some e \<Rightarrow> Inl e
           | None \<Rightarrow> Inr \<lparr>local_peer = self, successor = self, predecessor = zero_peer,
                fingers = replicate CHORD_FINGER_COUNT self, has_predecessor = False, unavailable = []\<rparr>))"

definition valid_peer :: "lib \<Rightarrow> ChordPeer \<Rightarrow> bool" where
  "valid_peer lib p =
     (case node_compute_id lib (peer_config p) of Inl e \<Rightarrow> False | Inr calculated \<Rightarrow> node_id_equal calculated (peer_id p))"

definition unavailable_locked :: "Chord \<Rightarrow> NodeID \<Rightarrow> bool" where
  "unavailable_locked chord i = list_ex (\<lambda>u. node_id_equal u i) (unavailable chord)"

definition chord_local :: "Chord \<Rightarrow> ChordPeer" where
  "chord_local chord = local_peer chord"

definition chord_get_successor :: "Chord \<Rightarrow> ChordPeer" where
  "chord_get_successor chord = successor chord"

definition chord_get_predecessor :: "Chord \<Rightarrow> ChordPeer option" where
  "chord_get_predecessor chord = (if has_predecessor chord then Some (predecessor chord) else None)"

definition chord_get_finger :: "Chord \<Rightarrow> nat \<Rightarrow> ChordPeer result" where
  "chord_get_finger chord index =
     (if CHORD_FINGER_COUNT \<le> index then Inl EINVAL else Inr (fingers chord ! index))"

definition chord_set_successor :: "lib \<Rightarrow> Chord \<Rightarrow> ChordPeer \<Rightarrow> errno option \<times> Chord" where
  "chord_set_successor lib chord peer =
     (if \<not> valid_peer lib peer then (Some EINVAL, chord)
      else if unavailable_locked chord (peer_id peer) then (Some EHOSTUNREACH, chord)
      else (None, chord\<lparr>successor := peer, fingers := (fingers chord)[0 := peer]\<rparr>))"

definition chord_notify :: "lib \<Rightarrow> Chord \<Rightarrow> ChordPeer \<Rightarrow> errno option \<times> Chord" where
  "chord_notify lib chord peer =
     (if \<not> valid_peer lib peer then (Some EINVAL, chord)
      else if unavailable_locked chord (peer_id peer) then (Some EHOSTUNREACH, chord)
      else if \<not> node_id_equal (peer_id peer) (peer_id (local_peer chord)) \<and>
          (\<not> has_predecessor chord \<or>
           chord_interval_open_open (peer_id (predecessor chord)) (peer_id (local_peer chord)) (peer_id peer))
      then (None, chord\<lparr>predecessor := peer, has_predecessor := True\<rparr>)
      else (None, chord))"

definition chord_consider_predecessor :: "lib \<Rightarrow> Chord \<Rightarrow> ChordPeer \<Rightarrow> errno option \<times> Chord" where
  "chord_consider_predecessor lib chord candidate =
     (if \<not> valid_peer lib candidate then (Some EINVAL, chord)
      else if unavailable_locked chord (peer_id candidate) then (Some EHOSTUNREACH, chord)
      else if \<not> node_id_equal (peer_id candidate) (peer_id (local_peer chord)) \<and>
          (node_id_equal (peer_id (successor chord)) (peer_id (local_peer chord)) \<or>
           chord_interval_open_open (peer_id (local_peer chord)) (peer_id (successor chord)) (peer_id candidate))
      then (None, chord\<lparr>successor := candidate, fingers := (fingers chord)[0 := candidate]\<rparr>)
      else (None, chord))"

definition chord_set_finger :: "lib \<Rightarrow> Chord \<Rightarrow> nat \<Rightarrow> ChordPeer \<Rightarrow> errno option \<times> Chord" where
  "chord_set_finger lib chord index peer =
     (if CHORD_FINGER_COUNT \<le> index \<or> \<not> valid_peer lib peer then (Some EINVAL, chord)
      else if index = 0 then chord_set_successor lib chord peer
      else if unavailable_locked chord (peer_id peer) then (Some EHOSTUNREACH, chord)
      else (None, chord\<lparr>fingers := (fingers chord)[index := peer]\<rparr>))"

text \<open>The next hop and whether it is the answer; fingers are tried from the farthest down.\<close>

definition chord_route :: "Chord \<Rightarrow> NodeID \<Rightarrow> ChordPeer \<times> bool" where
  "chord_route chord key =
     (let self = peer_id (local_peer chord); succ = peer_id (successor chord) in
      if node_id_equal key self then (local_peer chord, True)
      else if node_id_equal succ self \<or> chord_interval_open_closed self succ key then (successor chord, True)
      else case find (\<lambda>f. \<not> node_id_equal (peer_id f) self \<and> chord_interval_open_open self key (peer_id f))
               (rev (fingers chord)) of
          None \<Rightarrow> (successor chord, False)
        | Some f \<Rightarrow> (f, False))"

text \<open>The call site is the \<open>malloc\<close> of the list cell.\<close>

definition chord_forget :: "os \<Rightarrow> Chord \<Rightarrow> NodeID \<Rightarrow> errno option \<times> Chord" where
  "chord_forget os chord i =
     (if node_id_equal i (peer_id (local_peer chord)) then (Some EPERM, chord)
      else if \<not> unavailable_locked chord i \<and> fault (at os 0) \<noteq> None then (fault (at os 0), chord)
      else
        let replace = (\<lambda>p. if node_id_equal (peer_id p) i then local_peer chord else p) in
        (None, chord\<lparr>successor := replace (successor chord), fingers := map replace (fingers chord),
           has_predecessor := (if node_id_equal (peer_id (predecessor chord)) i then False else has_predecessor chord),
           unavailable := (if unavailable_locked chord i then unavailable chord else i # unavailable chord)\<rparr>))"

fun remove_first :: "('a \<Rightarrow> bool) \<Rightarrow> 'a list \<Rightarrow> 'a list" where
  "remove_first P [] = []"
| "remove_first P (x # xs) = (if P x then xs else x # remove_first P xs)"

definition chord_allow :: "Chord \<Rightarrow> NodeID \<Rightarrow> Chord" where
  "chord_allow chord i = chord\<lparr>unavailable := remove_first (\<lambda>u. node_id_equal u i) (unavailable chord)\<rparr>"

text \<open>One round of the selection in \<open>chord_repair\<close>, on the choice so far and whether there is one.\<close>

definition repair_choice :: "Chord \<Rightarrow> ChordPeer \<Rightarrow> ChordPeer \<times> bool \<Rightarrow> ChordPeer \<times> bool" where
  "repair_choice chord p = (\<lambda>(best, selected).
     let self = peer_id (local_peer chord) in
     if node_id_equal (peer_id p) self \<or> unavailable_locked chord (peer_id p) then (best, selected)
     else
       let after = (0 < node_id_compare (peer_id p) self); selected_after = (0 < node_id_compare (peer_id best) self) in
       if \<not> selected \<or> (after \<and> \<not> selected_after) \<or>
          (after = selected_after \<and> node_id_compare (peer_id p) (peer_id best) < 0)
       then (p, True) else (best, selected))"

definition chord_repair :: "lib \<Rightarrow> Chord \<Rightarrow> ChordPeer list \<Rightarrow> errno option \<times> Chord" where
  "chord_repair lib chord alive =
     (if \<not> list_all (valid_peer lib) alive then (Some EINVAL, chord)
      else
        let (best, _) = fold (repair_choice chord) alive (local_peer chord, False) in
        (None, chord\<lparr>successor := best, fingers := (fingers chord)[0 := best]\<rparr>))"

section \<open>Distances on the ring\<close>

text \<open>
  Positions on a ring of \<open>n\<close> points: \<open>dist a b\<close> is the way from \<open>a\<close> forward to \<open>b\<close>. The intervals
  of the source are comparisons of such distances.
\<close>

locale ring_position =
  fixes pos :: "'a \<Rightarrow> nat" and n :: nat and ok :: "'a \<Rightarrow> bool" and dist :: "'a \<Rightarrow> 'a \<Rightarrow> nat"
  assumes dist_def: "dist a b = (if pos a \<le> pos b then pos b - pos a else n + pos b - pos a)"
    and pos_less: "ok a \<Longrightarrow> pos a < n"
    and pos_inj: "ok a \<Longrightarrow> ok b \<Longrightarrow> pos a = pos b \<Longrightarrow> a = b"
begin

lemma dist_self [simp]: "dist a a = 0"
  by (simp add: dist_def)

lemma dist_less: "ok a \<Longrightarrow> ok b \<Longrightarrow> dist a b < n"
  using pos_less [of a] pos_less [of b] by (auto simp: dist_def)

lemma dist_eq_0:
  assumes "ok a" "ok b"
  shows "dist a b = 0 \<longleftrightarrow> a = b"
proof -
  have "dist a b = 0 \<longleftrightarrow> pos a = pos b"
    using pos_less [OF assms(1)] pos_less [OF assms(2)] unfolding dist_def by (auto split: if_splits)
  with assms pos_inj [of a b] show ?thesis by auto
qed

lemma dist_inj:
  assumes "ok a" "ok b" "ok c" "dist a b = dist a c"
  shows "b = c"
proof -
  have "pos b = pos c"
    using assms(4) pos_less [OF assms(1)] pos_less [OF assms(2)] pos_less [OF assms(3)] unfolding dist_def
    by (simp split: if_splits)
  with assms pos_inj show ?thesis by blast
qed

lemma dist_split: "ok a \<Longrightarrow> ok b \<Longrightarrow> ok c \<Longrightarrow> dist a b \<le> dist a c \<Longrightarrow> dist a c = dist a b + dist b c"
  using pos_less [of a] pos_less [of b] pos_less [of c] by (auto simp: dist_def split: if_splits)

lemma dist_back: "ok a \<Longrightarrow> ok b \<Longrightarrow> a \<noteq> b \<Longrightarrow> dist a b + dist b a = n"
  using dist_eq_0 [of a b] pos_less [of a] pos_less [of b] unfolding dist_def by (simp split: if_splits)

lemma dist_mod: "ok a \<Longrightarrow> ok b \<Longrightarrow> pos b = (pos a + k) mod n \<Longrightarrow> k < n \<Longrightarrow> dist a b = k"
  using pos_less [of a] by (cases "pos a + k < n") (auto simp: dist_def mod_if)

end

definition proper_id :: "NodeID \<Rightarrow> bool" where
  "proper_id i \<longleftrightarrow> length i = ID_SIZE"

definition RING_SIZE :: nat where
  "RING_SIZE = 2 ^ 256"

definition ring_dist :: "NodeID \<Rightarrow> NodeID \<Rightarrow> nat" where
  "ring_dist a b = (if id_val a \<le> id_val b then id_val b - id_val a else RING_SIZE + id_val b - id_val a)"

interpretation ring: ring_position id_val RING_SIZE proper_id ring_dist
proof
  show "ring_dist a b = (if id_val a \<le> id_val b then id_val b - id_val a else RING_SIZE + id_val b - id_val a)" for a b
    by (rule ring_dist_def)
  show "id_val a < RING_SIZE" if "proper_id a" for a
    using that id_val_less [of a] by (simp add: proper_id_def ID_SIZE_def RING_SIZE_def)
  show "a = b" if "proper_id a" "proper_id b" "id_val a = id_val b" for a b
    using that id_val_inj by (simp add: proper_id_def)
qed

lemma id_equal_iff [simp]: "proper_id a \<Longrightarrow> proper_id b \<Longrightarrow> node_id_equal a b \<longleftrightarrow> a = b"
  by (simp add: proper_id_def)

lemma compare_val:
  "proper_id a \<Longrightarrow> proper_id b \<Longrightarrow>
     node_id_compare a b = (if id_val a < id_val b then -1 else if id_val b < id_val a then 1 else 0)"
  by (simp add: proper_id_def node_id_compare_val)

lemma open_closed_dist:
  assumes "proper_id a" "proper_id b" "proper_id v"
  shows "chord_interval_open_closed a b v \<longleftrightarrow> a = b \<or> 0 < ring_dist a v \<and> ring_dist a v \<le> ring_dist a b"
  using assms ring.pos_less [OF assms(1)] ring.pos_less [OF assms(2)] ring.pos_less [OF assms(3)] ring.pos_inj [of a b]
  by (auto simp: chord_interval_open_closed_def compare_val ring_dist_def Let_def split: if_splits)

lemma open_open_dist:
  assumes "proper_id a" "proper_id b" "proper_id v"
  shows "chord_interval_open_open a b v \<longleftrightarrow> 0 < ring_dist a v \<and> (a = b \<or> ring_dist a v < ring_dist a b)"
  using assms ring.pos_less [OF assms(1)] ring.pos_less [OF assms(2)] ring.pos_less [OF assms(3)] ring.pos_inj [of a b]
    ring.pos_inj [of a v]
  by (auto simp: chord_interval_open_open_def compare_val ring_dist_def Let_def split: if_splits)

section \<open>Adding a power of two\<close>

lemma id_val_update:
  assumes "i < length bs"
  shows "id_val (bs[i := v]) + unat (bs ! i) * 256 ^ (length bs - 1 - i) =
    id_val bs + unat v * 256 ^ (length bs - 1 - i)"
proof -
  let ?p = "take i bs" and ?q = "drop (Suc i) bs"
  have b: "bs = ?p @ bs ! i # ?q" using assms by (rule id_take_nth_drop)
  have u: "bs[i := v] = ?p @ v # ?q" using assms by (rule upd_conv_take_nth_drop)
  have q: "length ?q = length bs - 1 - i" by simp
  have "id_val bs = id_val (?p @ bs ! i # ?q)" using b by simp
  then show ?thesis unfolding u id_val_append id_val_Cons q by simp
qed

lemma unat_of_nat_byte: "unat (of_nat s :: byte) = s mod 256"
  by (simp add: unat_of_nat take_bit_eq_mod)

lemma carry_split: "s * p = (s mod 256) * p + (s div 256) * (256 * p)" for s p :: nat
proof -
  have "s * p = (s mod 256 + 256 * (s div 256)) * p" by (simp only: mod_mult_div_eq)
  then show ?thesis by (simp only: add_mult_distrib mult.assoc mult.left_commute)
qed

lemma add_carry_val:
  assumes "i < length bs"
  shows "id_val (add_carry bs i c) = (id_val bs + c * 256 ^ (length bs - 1 - i)) mod 256 ^ length bs \<and>
    length (add_carry bs i c) = length bs"
  using assms
proof (induction i arbitrary: bs c)
  case (0 bs c)
  let ?s = "unat (bs ! 0) + c" and ?k = "length bs - 1"
  let ?b = "bs[0 := of_nat ?s]"
  have "unat (of_nat ?s :: byte) = ?s mod 256" by (rule unat_of_nat_byte)
  with id_val_update [OF 0, of "of_nat ?s"]
  have "id_val ?b + unat (bs ! 0) * 256 ^ ?k = id_val bs + (?s mod 256) * 256 ^ ?k" by simp
  moreover have "?s * 256 ^ ?k = (?s mod 256) * 256 ^ ?k + (?s div 256) * 256 ^ length bs"
  proof -
    have "(256 :: nat) ^ length bs = 256 * 256 ^ ?k" using 0 by (cases bs) auto
    then show ?thesis using carry_split [of ?s "256 ^ ?k"] by (simp only:)
  qed
  ultimately have "id_val bs + c * 256 ^ ?k = id_val ?b + (?s div 256) * 256 ^ length bs"
    by (simp add: algebra_simps)
  moreover have "id_val ?b < 256 ^ length bs" using id_val_less [of ?b] by simp
  ultimately have "(id_val bs + c * 256 ^ ?k) mod 256 ^ length bs = id_val ?b" by simp
  then show ?case by (simp add: add_carry.simps [of bs 0 c] Let_def)
next
  case (Suc i bs c)
  let ?s = "unat (bs ! Suc i) + c" and ?k = "length bs - 1 - Suc i"
  let ?b = "bs[Suc i := of_nat ?s]"
  have u: "unat (of_nat ?s :: byte) = ?s mod 256" by (rule unat_of_nat_byte)
  have "id_val ?b + unat (bs ! Suc i) * 256 ^ ?k = id_val bs + (?s mod 256) * 256 ^ ?k"
    using id_val_update [OF Suc.prems, of "of_nat ?s"] u by simp
  moreover have k: "length bs - 1 - i = Suc ?k" using Suc.prems by simp
  moreover have "?s * 256 ^ ?k = (?s mod 256) * 256 ^ ?k + (?s div 256) * 256 ^ Suc ?k"
    using carry_split [of ?s "256 ^ ?k"] by (simp only: power_Suc)
  ultimately have eq: "id_val bs + c * 256 ^ ?k = id_val ?b + (?s div 256) * 256 ^ (length bs - 1 - i)"
    by (simp add: algebra_simps)
  show ?case
  proof (cases "drop_bit 8 ?s = 0")
    case True
    then have "?s div 256 = 0" by (simp add: drop_bit_eq_div)
    with eq have "id_val bs + c * 256 ^ ?k = id_val ?b" by simp
    moreover have "id_val ?b < 256 ^ length bs" using id_val_less [of ?b] by simp
    ultimately show ?thesis using True by (simp add: add_carry.simps [of bs "Suc i" c] Let_def)
  next
    case False
    have "i < length ?b" using Suc.prems by simp
    from Suc.IH [OF this, of "drop_bit 8 ?s"] eq False show ?thesis
      by (simp add: add_carry.simps [of bs "Suc i" c] Let_def drop_bit_eq_div)
  qed
qed

lemma id_add_power:
  assumes "proper_id base" "k < 256"
  shows "id_val (chord_id_add_power base k r) = (id_val base + 2 ^ k) mod RING_SIZE \<and> proper_id (chord_id_add_power base k r)"
proof -
  have l: "length base = 32" using assms(1) by (simp add: proper_id_def ID_SIZE_def)
  have i: "31 - k div 8 < length base" "32 - 1 - (31 - k div 8) = k div 8" using l assms(2) by auto
  have "push_bit (k mod 8) 1 * 256 ^ (k div 8) = (2 :: nat) ^ k"
  proof -
    have "(2 :: nat) ^ k = 2 ^ (k mod 8) * (2 ^ 8) ^ (k div 8)"
      by (metis mod_mult_div_eq power_add power_mult)
    then show ?thesis by (simp add: push_bit_eq_mult)
  qed
  moreover have "(256 :: nat) ^ 32 = RING_SIZE" by (simp add: RING_SIZE_def)
  ultimately show ?thesis
    using add_carry_val [OF i(1), of "push_bit (k mod 8) 1"] l i(2) assms(2)
    by (simp add: chord_id_add_power_def CHORD_FINGER_COUNT_def proper_id_def ID_SIZE_def)
qed

section \<open>Invariant\<close>

definition known_peers :: "Chord \<Rightarrow> ChordPeer list" where
  "known_peers chord =
     local_peer chord # successor chord # fingers chord @ (if has_predecessor chord then [predecessor chord] else [])"

text \<open>
  Finger 0 is the successor; no reference leads to a node recorded as unavailable; whatever is not
  the node itself was validated; the predecessor is another node.
\<close>

definition chord_inv :: "lib \<Rightarrow> Chord \<Rightarrow> bool" where
  "chord_inv lib chord \<longleftrightarrow>
     length (fingers chord) = CHORD_FINGER_COUNT \<and> fingers chord ! 0 = successor chord \<and>
     distinct (unavailable chord) \<and> list_all proper_id (unavailable chord) \<and> proper_id (peer_id (predecessor chord)) \<and>
     list_all (\<lambda>p. proper_id (peer_id p) \<and> peer_id p \<notin> set (unavailable chord) \<and>
        (p = local_peer chord \<or> valid_peer lib p)) (known_peers chord) \<and>
     (has_predecessor chord \<longrightarrow> peer_id (predecessor chord) \<noteq> peer_id (local_peer chord))"

lemma unavailable_iff:
  "list_all proper_id (unavailable chord) \<Longrightarrow> proper_id i \<Longrightarrow> unavailable_locked chord i \<longleftrightarrow> i \<in> set (unavailable chord)"
  by (auto simp: unavailable_locked_def list_ex_iff list_all_iff)

lemma create_inv: "chord_create os n = Inr chord \<Longrightarrow> proper_id (id_of n) \<Longrightarrow> chord_inv lib chord"
  by (auto simp: chord_create_def chord_inv_def known_peers_def zero_peer_def proper_id_def ID_SIZE_def
      CHORD_FINGER_COUNT_def Let_def list_all_iff split: option.splits)

lemma set_head_inv:
  assumes "chord_inv lib chord" "p = local_peer chord \<or> valid_peer lib p" "proper_id (peer_id p)"
    "peer_id p \<notin> set (unavailable chord)"
  shows "chord_inv lib (chord\<lparr>successor := p, fingers := (fingers chord)[0 := p]\<rparr>)"
  using assms
  by (auto simp: chord_inv_def known_peers_def list_all_iff CHORD_FINGER_COUNT_def dest!: set_update_subset_insert [THEN subsetD])

lemma set_successor_inv:
  assumes "chord_set_successor lib chord p = (r, chord')" "chord_inv lib chord" "proper_id (peer_id p)"
  shows "chord_inv lib chord'"
  using assms set_head_inv [of lib chord p] unavailable_iff [of chord "peer_id p"]
  by (auto simp: chord_set_successor_def chord_inv_def split: if_splits)

lemma notify_inv:
  assumes "chord_notify lib chord p = (r, chord')" "chord_inv lib chord" "proper_id (peer_id p)"
  shows "chord_inv lib chord'"
proof -
  have pr: "proper_id (peer_id (local_peer chord))" using assms(2) by (simp add: chord_inv_def known_peers_def)
  show ?thesis
    using assms unavailable_iff [of chord "peer_id p"] pr
    by (auto simp: chord_notify_def chord_inv_def known_peers_def split: if_splits)
qed

lemma consider_inv:
  assumes "chord_consider_predecessor lib chord p = (r, chord')" "chord_inv lib chord" "proper_id (peer_id p)"
  shows "chord_inv lib chord'"
  using assms set_head_inv [of lib chord p] unavailable_iff [of chord "peer_id p"]
  by (auto simp: chord_consider_predecessor_def chord_inv_def split: if_splits)

lemma set_finger_inv:
  assumes "chord_set_finger lib chord k p = (r, chord')" "chord_inv lib chord" "proper_id (peer_id p)"
  shows "chord_inv lib chord'"
proof (cases "k = 0 \<or> chord' = chord")
  case True
  with assms set_successor_inv [of lib chord p r chord'] show ?thesis
    by (auto simp: chord_set_finger_def split: if_splits)
next
  case False
  with assms have "valid_peer lib p" "\<not> unavailable_locked chord (peer_id p)" "chord' = chord\<lparr>fingers := (fingers chord)[k := p]\<rparr>"
    by (auto simp: chord_set_finger_def split: if_splits)
  with False assms unavailable_iff [of chord "peer_id p"] show ?thesis
    by (auto simp: chord_inv_def known_peers_def list_all_iff nth_list_update
        dest!: set_update_subset_insert [THEN subsetD])
qed

lemma forget_inv:
  assumes "chord_forget os chord i = (r, chord')" "chord_inv lib chord" "proper_id i"
  shows "chord_inv lib chord' \<and> (r = None \<longrightarrow> i \<in> set (unavailable chord'))"
proof -
  have pr: "proper_id (peer_id (local_peer chord))" "list_all proper_id (unavailable chord)"
    using assms(2) by (auto simp: chord_inv_def known_peers_def)
  note u = unavailable_iff [OF pr(2) assms(3)]
  show ?thesis
  proof (cases "r = None \<and> i \<noteq> peer_id (local_peer chord)")
    case False
    with assms pr show ?thesis by (auto simp: chord_forget_def Let_def split: if_splits)
  next
    case True
    define rep where "rep p = (if peer_id p = i then local_peer chord else p)" for p
    have c: "chord' = chord\<lparr>successor := (if node_id_equal (peer_id (successor chord)) i then local_peer chord else successor chord),
        fingers := map (\<lambda>p. if node_id_equal (peer_id p) i then local_peer chord else p) (fingers chord),
        has_predecessor := (if node_id_equal (peer_id (predecessor chord)) i then False else has_predecessor chord),
        unavailable := (if unavailable_locked chord i then unavailable chord else i # unavailable chord)\<rparr>"
      using assms(1) True by (auto simp: chord_forget_def Let_def split: if_splits)
    have old: "proper_id (peer_id p) \<and> peer_id p \<notin> set (unavailable chord) \<and> (p = local_peer chord \<or> valid_peer lib p)"
      if "p \<in> set (known_peers chord)" for p
      using that assms(2) by (simp add: chord_inv_def list_all_iff)
    have rep: "(if node_id_equal (peer_id p) i then local_peer chord else p) = rep p" if "p \<in> set (known_peers chord)" for p
      using old [OF that] assms(3) by (simp add: rep_def)
    have f: "map (\<lambda>p. if node_id_equal (peer_id p) i then local_peer chord else p) (fingers chord) = map rep (fingers chord)"
      by (rule map_cong [OF HOL.refl rep]) (simp add: known_peers_def)
    have pe: "node_id_equal (peer_id (predecessor chord)) i \<longleftrightarrow> peer_id (predecessor chord) = i"
      using assms(2,3) by (simp add: chord_inv_def)
    have c': "chord' = chord\<lparr>successor := rep (successor chord), fingers := map rep (fingers chord),
        has_predecessor := (has_predecessor chord \<and> peer_id (predecessor chord) \<noteq> i),
        unavailable := (if i \<in> set (unavailable chord) then unavailable chord else i # unavailable chord)\<rparr>"
      unfolding c f pe u using rep [of "successor chord"] by (simp add: known_peers_def)
    have new: "proper_id (peer_id (rep p)) \<and> peer_id (rep p) \<notin> insert i (set (unavailable chord)) \<and>
        (rep p = local_peer chord \<or> valid_peer lib (rep p))" if "p \<in> set (known_peers chord)" for p
      using old [OF that] old [of "local_peer chord"] True by (auto simp: rep_def known_peers_def)
    have "list_all (\<lambda>p. proper_id (peer_id p) \<and> peer_id p \<notin> set (unavailable chord') \<and> (p = local_peer chord \<or> valid_peer lib p))
        (known_peers chord')"
      unfolding list_all_iff
    proof
      have l: "local_peer chord = rep (local_peer chord)" using True by (simp add: rep_def)
      have pd: "peer_id (predecessor chord) \<noteq> i \<Longrightarrow> predecessor chord = rep (predecessor chord)" by (simp add: rep_def)
      fix p assume p: "p \<in> set (known_peers chord')"
      then consider "p = local_peer chord" | "p = rep (successor chord)" | "p \<in> rep ` set (fingers chord)"
        | "p = predecessor chord" "has_predecessor chord" "peer_id (predecessor chord) \<noteq> i"
        by (auto simp: c' known_peers_def split: if_splits)
      then have "p \<in> rep ` set (known_peers chord)"
        by cases (use l pd in \<open>auto simp: known_peers_def\<close>)
      then obtain q where "q \<in> set (known_peers chord)" "p = rep q" by blast
      with new [of q] show "proper_id (peer_id p) \<and> peer_id p \<notin> set (unavailable chord') \<and> (p = local_peer chord \<or> valid_peer lib p)"
        by (auto simp: c')
    qed
    with assms(2,3) show ?thesis
      by (auto simp: c' chord_inv_def CHORD_FINGER_COUNT_def)
  qed
qed

lemma remove_first_set: "set (remove_first P xs) \<subseteq> set xs"
  by (induction xs) auto

lemma remove_first_distinct: "distinct xs \<Longrightarrow> distinct (remove_first P xs)"
  using remove_first_set by (induction xs) fastforce+

lemma allow_inv: "chord_inv lib chord \<Longrightarrow> chord_inv lib (chord_allow chord i)"
  using remove_first_set [of "\<lambda>u. node_id_equal u i" "unavailable chord"]
  by (auto simp: chord_inv_def chord_allow_def known_peers_def list_all_iff remove_first_distinct)

section \<open>Repair chooses the next node on the ring\<close>

definition eligible :: "Chord \<Rightarrow> ChordPeer \<Rightarrow> bool" where
  "eligible chord p \<longleftrightarrow> peer_id p \<noteq> peer_id (local_peer chord) \<and> peer_id p \<notin> set (unavailable chord)"

lemma nearer_iff:
  assumes "proper_id s" "proper_id p" "proper_id b" "p \<noteq> s" "b \<noteq> s"
  shows "(0 < node_id_compare p s \<and> \<not> 0 < node_id_compare b s \<or>
      (0 < node_id_compare p s) = (0 < node_id_compare b s) \<and> node_id_compare p b < 0) \<longleftrightarrow>
    ring_dist s p < ring_dist s b"
proof -
  have "id_val p \<noteq> id_val s" "id_val b \<noteq> id_val s" using assms ring.pos_inj by blast+
  with ring.pos_less [OF assms(1)] ring.pos_less [OF assms(2)] ring.pos_less [OF assms(3)] show ?thesis
    by (simp add: compare_val assms ring_dist_def split: if_splits) linarith
qed

definition best_of :: "Chord \<Rightarrow> ChordPeer list \<Rightarrow> ChordPeer \<times> bool \<Rightarrow> bool" where
  "best_of chord seen c \<longleftrightarrow> (case c of
     (b, False) \<Rightarrow> b = local_peer chord \<and> list_all (\<lambda>p. \<not> eligible chord p) seen
   | (b, True) \<Rightarrow> b \<in> set seen \<and> eligible chord b \<and>
       list_all (\<lambda>p. eligible chord p \<longrightarrow>
         ring_dist (peer_id (local_peer chord)) (peer_id b) \<le> ring_dist (peer_id (local_peer chord)) (peer_id p)) seen)"

lemma repair_choice_best:
  assumes "best_of chord seen c" "chord_inv lib chord" "list_all (\<lambda>p. proper_id (peer_id p)) seen" "proper_id (peer_id p)"
  shows "best_of chord (seen @ [p]) (repair_choice chord p c)"
proof -
  obtain b sel where c: "c = (b, sel)" by fastforce
  let ?s = "peer_id (local_peer chord)"
  have pr: "proper_id ?s" "list_all proper_id (unavailable chord)" using assms(2) by (auto simp: chord_inv_def known_peers_def)
  have skip: "node_id_equal (peer_id p) ?s \<or> unavailable_locked chord (peer_id p) \<longleftrightarrow> \<not> eligible chord p"
    using pr assms(4) unavailable_iff [OF pr(2) assms(4)] by (simp add: eligible_def)
  show ?thesis
  proof (cases "eligible chord p")
    case False
    with skip assms(1) c show ?thesis
      by (cases sel) (simp_all add: repair_choice_def best_of_def Let_def)
  next
    case True
    show ?thesis
    proof (cases sel)
      case False
      with True skip assms(1) c show ?thesis
        by (auto simp: repair_choice_def best_of_def Let_def list_all_iff)
    next
      case sel: True
      with assms(1,3) c have b: "b \<in> set seen" "eligible chord b" "proper_id (peer_id b)"
        by (auto simp: best_of_def list_all_iff)
      have "peer_id p \<noteq> ?s" "peer_id b \<noteq> ?s" using True b(2) by (auto simp: eligible_def)
      note n = nearer_iff [OF pr(1) assms(4) b(3) this]
      have r: "repair_choice chord p c = (if ring_dist ?s (peer_id p) < ring_dist ?s (peer_id b) then (p, True) else (b, True))"
        using True skip sel c n by (simp add: repair_choice_def Let_def)
      from assms(1) c sel b True show ?thesis
        unfolding r by (auto simp: best_of_def list_all_iff not_less intro: order.trans less_imp_le)
    qed
  qed
qed

lemma repair_fold_best:
  assumes "chord_inv lib chord" "list_all (\<lambda>p. proper_id (peer_id p)) alive"
  shows "best_of chord alive (fold (repair_choice chord) alive (local_peer chord, False))"
  using assms(2)
proof (induction alive rule: rev_induct)
  case Nil
  show ?case by (simp add: best_of_def)
next
  case (snoc p alive)
  with repair_choice_best [OF _ assms(1), of alive _ p] show ?case by simp
qed

lemma repair_effect:
  assumes "chord_repair lib chord alive = (None, chord')" "chord_inv lib chord" "list_all (\<lambda>p. proper_id (peer_id p)) alive"
  shows "(if \<exists>p \<in> set alive. eligible chord p
     then successor chord' \<in> set alive \<and> eligible chord (successor chord') \<and>
       (\<forall>p \<in> set alive. eligible chord p \<longrightarrow>
          ring_dist (peer_id (local_peer chord)) (peer_id (successor chord')) \<le> ring_dist (peer_id (local_peer chord)) (peer_id p))
     else successor chord' = local_peer chord) \<and>
   chord' = chord\<lparr>successor := successor chord', fingers := (fingers chord)[0 := successor chord']\<rparr> \<and> list_all (valid_peer lib) alive"
proof -
  obtain b sel where c: "fold (repair_choice chord) alive (local_peer chord, False) = (b, sel)" by fastforce
  with assms(1) have s: "chord' = chord\<lparr>successor := b, fingers := (fingers chord)[0 := b]\<rparr>" "list_all (valid_peer lib) alive"
    by (auto simp: chord_repair_def split: if_splits)
  with repair_fold_best [OF assms(2,3), unfolded c] show ?thesis
    by (cases sel) (auto simp: best_of_def list_all_iff)
qed

lemma repair_inv:
  assumes "chord_repair lib chord alive = (r, chord')" "chord_inv lib chord" "list_all (\<lambda>p. proper_id (peer_id p)) alive"
  shows "chord_inv lib chord'"
proof (cases r)
  case None
  let ?n = "successor chord'"
  note e = repair_effect [OF assms(1) [unfolded None] assms(2,3)]
  have "?n = local_peer chord \<or> valid_peer lib ?n" "proper_id (peer_id ?n)" "peer_id ?n \<notin> set (unavailable chord)"
    using e assms(2,3) by (auto simp: list_all_iff eligible_def chord_inv_def known_peers_def split: if_splits)
  with set_head_inv [OF assms(2)] e show ?thesis by metis
next
  case (Some x)
  with assms show ?thesis by (auto simp: chord_repair_def split: if_splits prod.splits)
qed

section \<open>Routing\<close>

lemma route_complete:
  assumes "chord_route chord key = (next, True)" "chord_inv lib chord" "proper_id key"
  shows "next = local_peer chord \<and> key = peer_id (local_peer chord) \<or>
    next = successor chord \<and> (peer_id (successor chord) = peer_id (local_peer chord) \<or>
       0 < ring_dist (peer_id (local_peer chord)) key \<and>
       ring_dist (peer_id (local_peer chord)) key \<le> ring_dist (peer_id (local_peer chord)) (peer_id (successor chord)))"
proof -
  have pr: "proper_id (peer_id (local_peer chord))" "proper_id (peer_id (successor chord))"
    using assms(2) by (auto simp: chord_inv_def known_peers_def)
  show ?thesis
    using assms(1,3) pr
    by (auto simp: chord_route_def Let_def open_closed_dist split: if_splits option.splits)
qed

text \<open>A hop that is not the answer is a finger strictly between the node and the key.\<close>

lemma route_finger:
  assumes "chord_route chord key = (next, False)" "chord_inv lib chord" "proper_id key"
  defines "self \<equiv> peer_id (local_peer chord)"
  shows "find (\<lambda>f. \<not> node_id_equal (peer_id f) self \<and> chord_interval_open_open self key (peer_id f)) (rev (fingers chord)) = Some next"
    "next \<in> set (fingers chord)" "key \<noteq> self" "0 < ring_dist self (peer_id next)" "ring_dist self (peer_id next) < ring_dist self key"
    "ring_dist self (peer_id (successor chord)) < ring_dist self key" "peer_id (successor chord) \<noteq> self"
proof -
  let ?P = "\<lambda>f. \<not> node_id_equal (peer_id f) self \<and> chord_interval_open_open self key (peer_id f)"
  let ?s = "peer_id (successor chord)"
  have pr: "proper_id self" "proper_id ?s" using assms(2) by (auto simp: chord_inv_def known_peers_def self_def)
  have key: "key \<noteq> self" "?s \<noteq> self" "\<not> chord_interval_open_closed self ?s key"
    using assms(1,3) pr by (auto simp: chord_route_def Let_def self_def split: if_splits)
  then show "key \<noteq> self" "?s \<noteq> self" by auto
  have d0: "0 < ring_dist self ?s" "0 < ring_dist self key"
    using ring.dist_eq_0 [OF pr(1)] pr(2) assms(3) key(1,2) by (metis neq0_conv)+
  then show d: "ring_dist self ?s < ring_dist self key"
    using key open_closed_dist [OF pr assms(3)] by auto
  have first: "successor chord \<in> set (fingers chord)"
    using assms(2) nth_mem [of 0 "fingers chord"] by (simp add: chord_inv_def CHORD_FINGER_COUNT_def)
  have fs: "?P (successor chord)" using open_open_dist [OF pr(1) assms(3) pr(2)] d d0 pr key by simp
  then have "find ?P (rev (fingers chord)) \<noteq> None" using first by (auto simp: find_None_iff)
  then show f: "find ?P (rev (fingers chord)) = Some next"
    using assms(1,3) key pr by (auto simp: chord_route_def Let_def self_def split: if_splits option.splits)
  show n: "next \<in> set (fingers chord)" using find_SomeD [OF f] by simp
  then have "proper_id (peer_id next)" using assms(2) by (auto simp: chord_inv_def known_peers_def list_all_iff)
  from open_open_dist [OF pr(1) assms(3) this] find_SomeD [OF f] key
  show "0 < ring_dist self (peer_id next)" "ring_dist self (peer_id next) < ring_dist self key" by auto
qed

lemma chord_inv_ids:
  assumes "chord_inv lib chord"
  shows "proper_id (peer_id (local_peer chord))" "proper_id (peer_id (successor chord))"
    "f \<in> set (fingers chord) \<Longrightarrow> proper_id (peer_id f)"
  using assms by (auto simp: chord_inv_def known_peers_def list_all_iff)

section \<open>Runs\<close>

inductive chord_step :: "lib \<Rightarrow> Chord \<Rightarrow> Chord \<Rightarrow> bool" for lib where
  step_set_successor: "chord_set_successor lib chord p = (r, chord') \<Longrightarrow> proper_id (peer_id p) \<Longrightarrow> chord_step lib chord chord'"
| step_notify: "chord_notify lib chord p = (r, chord') \<Longrightarrow> proper_id (peer_id p) \<Longrightarrow> chord_step lib chord chord'"
| step_consider: "chord_consider_predecessor lib chord p = (r, chord') \<Longrightarrow> proper_id (peer_id p) \<Longrightarrow> chord_step lib chord chord'"
| step_set_finger: "chord_set_finger lib chord k p = (r, chord') \<Longrightarrow> proper_id (peer_id p) \<Longrightarrow> chord_step lib chord chord'"
| step_forget: "chord_forget os chord i = (r, chord') \<Longrightarrow> proper_id i \<Longrightarrow> chord_step lib chord chord'"
| step_allow: "chord_step lib chord (chord_allow chord i)"
| step_repair: "chord_repair lib chord alive = (r, chord') \<Longrightarrow> list_all (\<lambda>p. proper_id (peer_id p)) alive \<Longrightarrow> chord_step lib chord chord'"

inductive chord_reachable :: "lib \<Rightarrow> Chord \<Rightarrow> bool" for lib where
  chord_start: "chord_create os n = Inr chord \<Longrightarrow> proper_id (id_of n) \<Longrightarrow> chord_reachable lib chord"
| chord_next: "chord_reachable lib chord \<Longrightarrow> chord_step lib chord chord' \<Longrightarrow> chord_reachable lib chord'"

lemma chord_step_inv: "chord_step lib chord chord' \<Longrightarrow> chord_inv lib chord \<Longrightarrow> chord_inv lib chord'"
  by (induction rule: chord_step.induct)
    (auto intro: set_successor_inv notify_inv consider_inv set_finger_inv allow_inv repair_inv dest: forget_inv)

lemma chord_reachable_inv: "chord_reachable lib chord \<Longrightarrow> chord_inv lib chord"
  by (induction rule: chord_reachable.induct) (auto intro: create_inv chord_step_inv)

text \<open>Nodes for the examples: identifier \<open>b\<close> repeated, as the hash of \<open>byte_lib\<close> computes it.\<close>

definition sample_peer :: "byte \<Rightarrow> ChordPeer" where
  "sample_peer b = \<lparr>peer_id = replicate 32 b,
     peer_config = \<lparr>ip = zero_padded 46 [49], port = 80, uuid = replicate 16 b\<rparr>\<rparr>"

lemma sample_peer_valid: "valid_peer byte_lib (sample_peer b)" "proper_id (peer_id (sample_peer b))"
proof -
  have "cstr (zero_padded 46 [49 :: byte]) = [49]" by (rule cstr_zero_padded) simp
  moreover have "(0 :: byte) \<in> set (zero_padded 46 [49])" by (simp add: zero_padded_def)
  ultimately show "valid_peer byte_lib (sample_peer b)"
    by (simp add: valid_peer_def sample_peer_def node_compute_id_def node_config_validate_def normalize_ip_def
        byte_lib_def id_input_def proper_id_def ID_SIZE_def)
qed (simp add: sample_peer_def proper_id_def ID_SIZE_def)

definition sample_chord :: "byte \<Rightarrow> Chord" where
  "sample_chord b = \<lparr>local_peer = sample_peer b, successor = sample_peer b, predecessor = zero_peer,
     fingers = replicate CHORD_FINGER_COUNT (sample_peer b), has_predecessor = False, unavailable = []\<rparr>"

lemma sample_chord_reachable: "chord_reachable lib (sample_chord b)"
proof (rule chord_start)
  let ?n = "\<lparr>id_of = replicate 32 b, config = peer_config (sample_peer b), process_id = 1, role = NODE_ROLE_SUPERPEER\<rparr>"
  show "chord_create calm ?n = Inr (sample_chord b)"
    by (simp add: chord_create_def sample_chord_def sample_peer_def Let_def)
  show "proper_id (id_of ?n)" by (simp add: proper_id_def ID_SIZE_def)
qed

lemma sample_chord_inv: "chord_inv lib (sample_chord b)"
  by (rule chord_reachable_inv [OF sample_chord_reachable])

section \<open>Properties\<close>

text \<open>
The ring arithmetic of the finger table: \<open>chord_id_add_power\<close> adds \<open>2 ^ k\<close> to the
256-bit identifier, modulo \<open>2 ^ 256\<close>, for every bit, carrying across bytes.
\<close>

theorem chord_finger_start:
  assumes "proper_id base" "k < CHORD_FINGER_COUNT"
  shows "id_val (chord_id_add_power base k result) = (id_val base + 2 ^ k) mod 2 ^ 256 \<and>
    proper_id (chord_id_add_power base k result)"
  using id_add_power [OF assms(1), of k result] assms(2) by (simp only: CHORD_FINGER_COUNT_def RING_SIZE_def)

theorem chord_finger_start_witness:
  "id_val (chord_id_add_power (replicate 32 255) 0 []) = (id_val (replicate 32 255) + 2 ^ 0) mod 2 ^ 256 \<and>
    proper_id (chord_id_add_power (replicate 32 255) 0 [])"
  by (rule chord_finger_start) (simp_all add: proper_id_def ID_SIZE_def CHORD_FINGER_COUNT_def)

text \<open>
The interval tests are those of the ring: a value lies in \<open>(start, end]\<close> when the way
forward from \<open>start\<close> reaches it not later than \<open>end\<close>, with the whole ring where both coincide, and in
\<open>(start, end)\<close> when it is reached strictly in between.
\<close>

theorem chord_intervals:
  assumes "proper_id a" "proper_id b" "proper_id v"
  shows "(chord_interval_open_closed a b v \<longleftrightarrow> a = b \<or> 0 < ring_dist a v \<and> ring_dist a v \<le> ring_dist a b) \<and>
    (chord_interval_open_open a b v \<longleftrightarrow> 0 < ring_dist a v \<and> (a = b \<or> ring_dist a v < ring_dist a b))"
  using open_closed_dist [OF assms] open_open_dist [OF assms] by blast

theorem chord_intervals_witness:
  "chord_interval_open_closed (replicate 32 9) (replicate 32 3) (replicate 32 3)"
  using chord_intervals [of "replicate 32 9" "replicate 32 3" "replicate 32 3"] ring.dist_eq_0 [of "replicate 32 9" "replicate 32 3"]
  by (auto simp: proper_id_def ID_SIZE_def)

text \<open>
Whatever sequence of operations a node performs, finger 0 is its successor, every peer it
refers to was validated (or is itself), none of them is recorded as unavailable, and its
predecessor, if any, is another node.
\<close>

theorem chord_references_valid:
  assumes "chord_reachable lib chord"
  shows "chord_inv lib chord"
  by (rule chord_reachable_inv [OF assms])

theorem chord_references_valid_witness: "chord_inv byte_lib (sample_chord 5)"
  by (rule chord_references_valid [OF sample_chord_reachable])

text \<open>
A routing step answers or makes progress: when it is final, the key is the node's own or
lies between the node and its successor (or the node is alone); otherwise the next hop is one of its
fingers, lies strictly between the node and the key, and is strictly nearer to the key.
\<close>

theorem chord_route_progress:
  assumes "chord_reachable lib chord" "proper_id key" "chord_route chord key = (next, complete)"
  defines "self \<equiv> peer_id (local_peer chord)"
  shows "if complete
    then next = local_peer chord \<and> key = self \<or>
      next = successor chord \<and> (peer_id (successor chord) = self \<or>
        0 < ring_dist self key \<and> ring_dist self key \<le> ring_dist self (peer_id (successor chord)))
    else next \<in> set (fingers chord) \<and> 0 < ring_dist self (peer_id next) \<and> ring_dist self (peer_id next) < ring_dist self key \<and>
      ring_dist (peer_id next) key < ring_dist self key"
proof (cases complete)
  case True
  with route_complete [of chord key "next" lib] chord_reachable_inv [OF assms(1)] assms(2,3) show ?thesis
    by (simp add: self_def)
next
  case False
  have inv: "chord_inv lib chord" by (rule chord_reachable_inv [OF assms(1)])
  from False assms(3) have c: "chord_route chord key = (next, False)" by simp
  note r = route_finger [OF c inv assms(2), folded self_def]
  have "proper_id self" "proper_id (peer_id next)" using chord_inv_ids [OF inv] r(2) by (auto simp: self_def)
  with ring.dist_split [OF this assms(2)] r False show ?thesis by auto
qed

theorem chord_route_progress_witness:
  "chord_route (sample_chord 5) (replicate 32 7) = (sample_peer 5, True) \<and>
     (sample_peer 5 = local_peer (sample_chord 5) \<and> replicate 32 7 = peer_id (local_peer (sample_chord 5)) \<or>
      sample_peer 5 = successor (sample_chord 5))"
proof -
  have c: "chord_route (sample_chord 5) (replicate 32 7) = (sample_peer 5, True)"
    by (simp add: chord_route_def sample_chord_def Let_def)
  from chord_route_progress [OF sample_chord_reachable [of byte_lib] _ c] c show ?thesis
    by (auto simp: proper_id_def ID_SIZE_def)
qed

text \<open>
A confirmed failure is forgotten everywhere: afterwards the node is recorded as
unavailable, no successor, finger or predecessor refers to it, and no later notification, finger
or successor update brings it back until it is allowed again.
\<close>

theorem chord_forget_effect:
  assumes "chord_reachable lib chord" "proper_id i" "chord_forget os chord i = (None, chord')"
  shows "i \<in> set (unavailable chord') \<and> list_all (\<lambda>p. peer_id p \<noteq> i) (known_peers chord') \<and>
    (\<forall>p. peer_id p = i \<longrightarrow> valid_peer lib p \<longrightarrow>
       chord_notify lib chord' p = (Some EHOSTUNREACH, chord') \<and> chord_set_successor lib chord' p = (Some EHOSTUNREACH, chord') \<and>
       chord_consider_predecessor lib chord' p = (Some EHOSTUNREACH, chord'))"
proof -
  from forget_inv [OF assms(3) chord_reachable_inv [OF assms(1)] assms(2)]
  have inv: "chord_inv lib chord'" and i: "i \<in> set (unavailable chord')" by auto
  have "unavailable_locked chord' i" using unavailable_iff inv assms(2) i by (simp add: chord_inv_def)
  then show ?thesis using inv i
    by (auto simp: chord_inv_def list_all_iff chord_notify_def chord_set_successor_def chord_consider_predecessor_def)
qed

theorem chord_forget_effect_witness:
  "replicate 32 7 \<in> set (unavailable (snd (chord_forget calm (sample_chord 5) (replicate 32 7))))"
proof -
  have "chord_forget calm (sample_chord 5) (replicate 32 7) = (None, snd (chord_forget calm (sample_chord 5) (replicate 32 7)))"
    by (simp add: chord_forget_def Let_def sample_chord_def sample_peer_def proper_id_def ID_SIZE_def)
  from chord_forget_effect [OF sample_chord_reachable [of byte_lib] _ this] show ?thesis
    by (simp add: proper_id_def ID_SIZE_def)
qed

text \<open>
Repair picks the next live node: after a successful repair the successor is, among the
live peers that are not the node itself and not recorded as unavailable, the first one clockwise
from the node, around the end of the ring where necessary, and the node itself when there is none.
\<close>

theorem chord_repair_nearest:
  assumes "chord_reachable lib chord" "list_all (\<lambda>p. proper_id (peer_id p)) alive" "chord_repair lib chord alive = (None, chord')"
  shows "if \<exists>p \<in> set alive. eligible chord p
    then successor chord' \<in> set alive \<and> eligible chord (successor chord') \<and>
      (\<forall>p \<in> set alive. eligible chord p \<longrightarrow>
        ring_dist (peer_id (local_peer chord)) (peer_id (successor chord')) \<le> ring_dist (peer_id (local_peer chord)) (peer_id p))
    else successor chord' = local_peer chord"
  using repair_effect [OF assms(3) chord_reachable_inv [OF assms(1)] assms(2)] by blast

theorem chord_repair_nearest_witness:
  "successor (snd (chord_repair byte_lib (sample_chord 5) [sample_peer 7])) = sample_peer 7"
proof -
  have c: "chord_repair byte_lib (sample_chord 5) [sample_peer 7] = (None, snd (chord_repair byte_lib (sample_chord 5) [sample_peer 7]))"
    using sample_peer_valid by (auto simp: chord_repair_def split: prod.splits)
  have "eligible (sample_chord 5) (sample_peer 7)"
    by (simp add: eligible_def sample_chord_def sample_peer_def)
  with chord_repair_nearest [OF sample_chord_reachable _ c] sample_peer_valid(2) show ?thesis by auto
qed

end
