(* ===== verification/Chord_Network.thy ===== *)
theory Chord_Network
  imports Chord Rpc
begin

text \<open>
  The overlay between nodes (\<^verbatim>\<open>chord_network.c\<close>): lookups that follow the routing steps of the
  nodes on the way, joining, the periodic maintenance, and the handler of overlay requests.

  \<open>rpc t ip port destination type payload\<close> is the reply to the call number \<open>t\<close> that an operation
  makes, \<open>None\<close> where it fails. A lookup reads the routing state of its own node as it is when the
  lookup starts. The private time budget of a call, read from the environment, is part of \<open>rpc\<close>.
\<close>

section \<open>Peers on the wire\<close>

type_synonym rpc = "nat \<Rightarrow> byte list \<Rightarrow> u16 \<Rightarrow> NodeID option \<Rightarrow> byte \<Rightarrow> byte list \<Rightarrow> message option"

definition CHORD_PEER_WIRE_SIZE :: nat where
  "CHORD_PEER_WIRE_SIZE = JOIN_PAYLOAD_WIRE_SIZE"

definition CHORD_ROUTE_WIRE_SIZE :: nat where
  "CHORD_ROUTE_WIRE_SIZE = 1 + CHORD_PEER_WIRE_SIZE"

text \<open>The process identifier that \<open>node_init\<close> also records is dropped with the \<open>Node\<close>.\<close>

definition decode_peer :: "lib \<Rightarrow> byte list \<Rightarrow> ChordPeer result" where
  "decode_peer lib payload =
     (case rpc_decode_join_payload lib payload of Inl e \<Rightarrow> Inl e
      | Inr c \<Rightarrow> (case node_init lib 1 c of Inl e \<Rightarrow> Inl e
          | Inr n \<Rightarrow> Inr \<lparr>peer_id = id_of n, peer_config = c\<rparr>))"

definition encode_peer :: "lib \<Rightarrow> ChordPeer \<Rightarrow> byte list result" where
  "encode_peer lib p = rpc_encode_join_payload lib (peer_config p)"

definition call_peer :: "rpc \<Rightarrow> nat \<Rightarrow> ChordPeer \<Rightarrow> byte \<Rightarrow> byte list \<Rightarrow> message option" where
  "call_peer rpc t target type payload =
     rpc t (ip (peer_config target)) (port (peer_config target)) (Some (peer_id target)) type payload"

section \<open>Lookup\<close>

text \<open>What a hop says: the route of the local state, or the decoded reply of a remote node.\<close>

definition route_reply :: "lib \<Rightarrow> message \<Rightarrow> (ChordPeer \<times> bool) option" where
  "route_reply lib m =
     (let bytes = payload_bytes m in
      if message_type (message_header m) \<noteq> m_type M_CHORD_ROUTE \<or>
         unat (header_payload_size (message_header m)) \<noteq> CHORD_ROUTE_WIRE_SIZE \<or> 1 < bytes ! 0
      then None
      else case decode_peer lib (take CHORD_PEER_WIRE_SIZE (drop 1 bytes)) of
          Inl _ \<Rightarrow> None
        | Inr next \<Rightarrow> Some (next, bytes ! 0 \<noteq> 0))"

definition owner_confirms :: "lib \<Rightarrow> message \<Rightarrow> ChordPeer \<Rightarrow> bool" where
  "owner_confirms lib m next \<longleftrightarrow>
     message_type (message_header m) = m_type M_CHORD_INFO \<and>
     (case decode_peer lib (payload_bytes m) of Inl _ \<Rightarrow> False
      | Inr confirmed \<Rightarrow> node_id_equal (peer_id confirmed) (peer_id next))"

text \<open>The loop of \<open>find_from\<close>: \<open>hops\<close> rounds remain, \<open>t\<close> calls were made.\<close>

primrec find_loop ::
  "nat \<Rightarrow> lib \<Rightarrow> rpc \<Rightarrow> Chord \<Rightarrow> NodeID \<Rightarrow> NodeID list \<Rightarrow> ChordPeer \<Rightarrow> nat \<Rightarrow> ChordPeer result" where
  "find_loop 0 lib rpc chord key visited current t = Inl ELOOP"
| "find_loop (Suc hops) lib rpc chord key visited current t =
     (let self = peer_id (local_peer chord) in
      if list_ex (\<lambda>v. node_id_equal (peer_id current) v) visited then Inl ELOOP
      else
        let visited = visited @ [peer_id current];
            arrive = (\<lambda>next complete t.
              if complete then
                (if \<not> node_id_equal (peer_id next) self then
                   (case call_peer rpc t next (m_type M_CHORD_INFO) [] of
                      None \<Rightarrow> find_loop hops lib rpc chord key visited next (Suc t)
                    | Some check \<Rightarrow> if owner_confirms lib check next then Inr next else Inl EBADMSG)
                 else Inr next)
              else if node_id_equal (peer_id next) (peer_id current) then Inl ELOOP
              else find_loop hops lib rpc chord key visited next t) in
        if node_id_equal (peer_id current) self then
          (case chord_route chord key of (next, complete) \<Rightarrow> arrive next complete t)
        else case call_peer rpc t current (m_type M_CHORD_ROUTE) key of
            None \<Rightarrow>
              (case find (\<lambda>f. \<not> node_id_equal (peer_id f) self \<and>
                         \<not> list_ex (\<lambda>v. node_id_equal (peer_id f) v) visited) (rev (fingers chord)) of
                 None \<Rightarrow> Inl EHOSTUNREACH
               | Some alternative \<Rightarrow> find_loop hops lib rpc chord key visited alternative (Suc t))
          | Some response \<Rightarrow>
              (case route_reply lib response of
                 None \<Rightarrow> Inl EBADMSG
               | Some (next, complete) \<Rightarrow> arrive next complete (Suc t)))"

declare find_loop.simps(2) [simp del]

definition find_from :: "lib \<Rightarrow> rpc \<Rightarrow> Chord \<Rightarrow> ChordPeer \<Rightarrow> NodeID \<Rightarrow> nat \<Rightarrow> ChordPeer result" where
  "find_from lib rpc chord first key t = find_loop (CHORD_FINGER_COUNT + 1) lib rpc chord key [] first t"

definition chord_network_find :: "lib \<Rightarrow> rpc \<Rightarrow> Chord \<Rightarrow> NodeID \<Rightarrow> nat \<Rightarrow> ChordPeer result" where
  "chord_network_find lib rpc chord key t = find_from lib rpc chord (chord_local chord) key t"

section \<open>Joining and maintenance\<close>

definition chord_network_join :: "lib \<Rightarrow> rpc \<Rightarrow> Chord \<Rightarrow> byte list \<Rightarrow> u16 \<Rightarrow> errno option \<times> Chord" where
  "chord_network_join lib rpc chord host p =
     (case rpc 0 host p None (m_type M_CHORD_INFO) [] of
        None \<Rightarrow> (Some EIO, chord)
      | Some response \<Rightarrow>
          if message_type (message_header response) \<noteq> m_type M_CHORD_INFO \<or>
             unat (header_payload_size (message_header response)) \<noteq> CHORD_PEER_WIRE_SIZE
          then (Some EBADMSG, chord)
          else case decode_peer lib (take CHORD_PEER_WIRE_SIZE (payload_bytes response)) of
              Inl _ \<Rightarrow> (Some EBADMSG, chord)
            | Inr bootstrap \<Rightarrow>
                if peer_id bootstrap \<noteq> source_node (message_header response) then (Some EBADMSG, chord)
                else if node_id_equal (peer_id (chord_local chord)) (peer_id bootstrap) then (Some EEXIST, chord)
                else case find_from lib rpc chord bootstrap (peer_id (chord_local chord)) 1 of
                    Inl e \<Rightarrow> (Some e, chord)
                  | Inr succ \<Rightarrow> chord_set_successor lib chord succ)"

text \<open>Stabilisation: ask the successor for its predecessor, then notify the successor.\<close>

definition stabilize :: "lib \<Rightarrow> rpc \<Rightarrow> Chord \<Rightarrow> errno option \<times> Chord" where
  "stabilize lib rpc chord =
     (let self = chord_local chord; succ = chord_get_successor chord in
      if \<not> node_id_equal (peer_id succ) (peer_id self) then
        (case call_peer rpc 0 succ (m_type M_CHORD_PREDECESSOR) [] of
           None \<Rightarrow> (Some EIO, chord)
         | Some response \<Rightarrow>
             let h = message_header response; n = unat (header_payload_size h) in
             if message_type h \<noteq> m_type M_CHORD_PREDECESSOR \<or> (n \<noteq> 0 \<and> n \<noteq> CHORD_PEER_WIRE_SIZE)
             then (Some EBADMSG, chord)
             else
               case (if n = CHORD_PEER_WIRE_SIZE then
                       (case decode_peer lib (take CHORD_PEER_WIRE_SIZE (payload_bytes response)) of
                          Inl e \<Rightarrow> Inl e
                        | Inr candidate \<Rightarrow> Inr (snd (chord_consider_predecessor lib chord candidate)))
                     else Inr chord) of
                 Inl e \<Rightarrow> (Some e, chord)
               | Inr chord \<Rightarrow>
                   (case encode_peer lib self of
                      Inl e \<Rightarrow> (Some e, chord)
                    | Inr payload \<Rightarrow>
                        (case call_peer rpc 1 (chord_get_successor chord) (m_type M_CHORD_NOTIFY) payload of
                           None \<Rightarrow> (Some EIO, chord)
                         | Some response \<Rightarrow>
                             if message_type (message_header response) = m_type M_ACK \<and>
                                header_payload_size (message_header response) = 0
                             then (None, chord) else (Some EBADMSG, chord))))
      else (None, case chord_get_predecessor chord of
              None \<Rightarrow> chord
            | Some candidate \<Rightarrow> snd (chord_consider_predecessor lib chord candidate)))"

definition chord_network_maintain :: "lib \<Rightarrow> rpc \<Rightarrow> Chord \<Rightarrow> nat \<Rightarrow> errno option \<times> Chord" where
  "chord_network_maintain lib rpc chord finger_index =
     (if CHORD_FINGER_COUNT \<le> finger_index then (Some EINVAL, chord)
      else case stabilize lib rpc chord of
          (Some e, chord) \<Rightarrow> (Some e, chord)
        | (None, chord) \<Rightarrow>
            let start = chord_id_add_power (peer_id (chord_local chord)) finger_index [] in
            (case chord_network_find lib rpc chord start 2 of
               Inl e \<Rightarrow> (Some e, chord)
             | Inr found \<Rightarrow> chord_set_finger lib chord finger_index found))"

section \<open>Requests of other nodes\<close>

definition chord_network_handle :: "lib \<Rightarrow> Chord \<Rightarrow> message \<Rightarrow> (byte \<times> byte list) result \<times> Chord" where
  "chord_network_handle lib chord request =
     (let h = message_header request; type = message_type h; n = unat (header_payload_size h); bytes = payload_bytes request;
          answer = (\<lambda>ty r. case r of Inl e \<Rightarrow> Inl e | Inr b \<Rightarrow> Inr (m_type ty, b)) in
      if type = m_type M_CHORD_INFO \<and> n = 0 then (answer M_CHORD_INFO (encode_peer lib (chord_local chord)), chord)
      else if type = m_type M_CHORD_ROUTE \<and> n = NODE_ID_SIZE then
        (let (peer, complete) = chord_route chord (take NODE_ID_SIZE bytes) in
         (answer M_CHORD_ROUTE (case encode_peer lib peer of Inl e \<Rightarrow> Inl e
            | Inr b \<Rightarrow> Inr ((if complete then 1 else 0) # b)), chord))
      else if type = m_type M_CHORD_PREDECESSOR \<and> n = 0 then
        (answer M_CHORD_PREDECESSOR (case chord_get_predecessor chord of None \<Rightarrow> Inr [] | Some p \<Rightarrow> encode_peer lib p), chord)
      else if type = m_type M_CHORD_NOTIFY \<and> n = CHORD_PEER_WIRE_SIZE then
        (case decode_peer lib (take CHORD_PEER_WIRE_SIZE bytes) of
           Inl _ \<Rightarrow> (Inl EACCES, chord)
         | Inr peer \<Rightarrow>
             if peer_id peer \<noteq> source_node h then (Inl EACCES, chord)
             else case chord_notify lib chord peer of
                 (Some _, chord) \<Rightarrow> (Inl EACCES, chord)
               | (None, chord) \<Rightarrow> (Inr (m_type M_ACK, []), chord))
      else if type = m_type M_CHORD_FINGER \<and> n = 1 then
        (answer M_CHORD_FINGER (case chord_get_finger chord (unat (bytes ! 0)) of Inl e \<Rightarrow> Inl e
           | Inr p \<Rightarrow> encode_peer lib p), chord)
      else (Inl EINVAL, chord))"

section \<open>Lookups in a stable ring\<close>

text \<open>Peers as the program keeps them: descriptors that survive the wire.\<close>

definition canonical_peer :: "lib \<Rightarrow> ChordPeer \<Rightarrow> bool" where
  "canonical_peer lib p \<longleftrightarrow> canonical_config lib (peer_config p) \<and> node_compute_id lib (peer_config p) = Inr (peer_id p)"

lemma decode_peer_bytes:
  "canonical_peer lib p \<Longrightarrow> decode_peer lib (join_bytes (peer_config p)) = Inr p"
  by (cases p) (simp add: canonical_peer_def decode_peer_def decode_join_bytes node_init_def)

lemma encode_peer_bytes: "canonical_peer lib p \<Longrightarrow> encode_peer lib p = Inr (join_bytes (peer_config p))"
  by (simp add: canonical_peer_def encode_peer_def encode_canonical)

lemma peer_bytes_length: "canonical_peer lib p \<Longrightarrow> length (join_bytes (peer_config p)) = CHORD_PEER_WIRE_SIZE"
  using length_join_bytes by (auto simp: canonical_peer_def CHORD_PEER_WIRE_SIZE_def)

text \<open>
  The replies of a network without faults in which every node of \<open>nodes\<close> serves requests with its
  own state, and there are no other nodes.
\<close>

definition request_message :: "byte \<Rightarrow> byte list \<Rightarrow> message" where
  "request_message type payload =
     \<lparr>message_header = (message_header message_init)\<lparr>message_type := type, header_payload_size := of_nat (length payload)\<rparr>,
      message_payload = (if payload = [] then None else Some payload)\<rparr>"

definition ring_rpc :: "lib \<Rightarrow> Chord list \<Rightarrow> rpc" where
  "ring_rpc lib nodes t host p destination type payload =
     (case destination of None \<Rightarrow> None
      | Some d \<Rightarrow>
          (case find (\<lambda>c. peer_id (local_peer c) = d) nodes of None \<Rightarrow> None
           | Some c \<Rightarrow>
               (case fst (chord_network_handle lib c (request_message type payload)) of Inl _ \<Rightarrow> None
                | Inr (ty, bytes) \<Rightarrow> Some (request_message ty bytes))))"

definition owner :: "Chord list \<Rightarrow> NodeID \<Rightarrow> ChordPeer \<Rightarrow> bool" where
  "owner nodes key p \<longleftrightarrow> p \<in> local_peer ` set nodes \<and>
     (\<forall>c \<in> set nodes. ring_dist key (peer_id p) \<le> ring_dist key (peer_id (local_peer c)))"

text \<open>A stable ring: every finger of every node is the owner of its start.\<close>

definition stable_ring :: "lib \<Rightarrow> Chord list \<Rightarrow> bool" where
  "stable_ring lib nodes \<longleftrightarrow> distinct (map (\<lambda>c. peer_id (local_peer c)) nodes) \<and>
     (\<forall>c \<in> set nodes. chord_inv lib c \<and> canonical_peer lib (local_peer c) \<and>
        (\<forall>k < CHORD_FINGER_COUNT. owner nodes (chord_id_add_power (peer_id (local_peer c)) k []) (fingers c ! k)))"

lemma length_request [simp]: "payload_bytes (request_message ty b) = b"
  by (simp add: request_message_def payload_bytes_def)

lemma request_fields [simp]:
  "message_type (message_header (request_message ty b)) = ty"
  "header_payload_size (message_header (request_message ty b)) = of_nat (length b)"
  by (simp_all add: request_message_def)

lemma find_distinct:
  assumes "distinct (map f xs)" "x \<in> set xs"
  shows "find (\<lambda>y. f y = f x) xs = Some x"
  using assms by (induction xs) auto

lemma call_ring:
  assumes "stable_ring lib nodes" "c \<in> set nodes"
  shows "call_peer (ring_rpc lib nodes) t (local_peer c) ty b =
    (case fst (chord_network_handle lib c (request_message ty b)) of Inl _ \<Rightarrow> None
     | Inr (ty, bytes) \<Rightarrow> Some (request_message ty bytes))"
  using find_distinct [of "\<lambda>c. peer_id (local_peer c)" nodes c] assms
  by (simp add: call_peer_def ring_rpc_def stable_ring_def)

lemma stableD:
  assumes "stable_ring lib nodes" "c \<in> set nodes"
  shows "chord_inv lib c" "canonical_peer lib (local_peer c)" "proper_id (peer_id (local_peer c))"
    "k < 256 \<Longrightarrow> owner nodes (chord_id_add_power (peer_id (local_peer c)) k []) (fingers c ! k)"
    "length (fingers c) = 256" "fingers c ! 0 = successor c"
  using assms chord_inv_ids(1) [of lib c] by (auto simp: stable_ring_def CHORD_FINGER_COUNT_def chord_inv_def)

lemma finger_node:
  assumes "stable_ring lib nodes" "c \<in> set nodes" "f \<in> set (fingers c)"
  shows "\<exists>d \<in> set nodes. f = local_peer d"
proof -
  from assms(3) obtain k where "k < 256" "f = fingers c ! k"
    using stableD(5) [OF assms(1,2)] by (auto simp: in_set_conv_nth)
  with stableD(4) [OF assms(1,2)] show ?thesis by (auto simp: owner_def)
qed

lemma route_node:
  assumes "stable_ring lib nodes" "c \<in> set nodes" "proper_id key" "chord_route c key = (next, complete)"
  shows "\<exists>d \<in> set nodes. next = local_peer d"
proof -
  have s: "successor c \<in> set (fingers c)" using stableD(5,6) [OF assms(1,2)] nth_mem [of 0 "fingers c"] by simp
  show ?thesis
  proof (cases complete)
    case True
    with route_complete [of c key "next"] stableD(1) [OF assms(1,2)] assms(3,4)
    have "next = local_peer c \<or> next = successor c" by auto
    with s finger_node [OF assms(1,2)] assms(2) show ?thesis by blast
  next
    case False
    with route_finger(2) [of c key "next"] stableD(1) [OF assms(1,2)] assms(3,4) finger_node [OF assms(1,2)]
    show ?thesis by simp
  qed
qed

text \<open>A remote routing step is the routing step of the remote node.\<close>

lemma remote_route:
  assumes "stable_ring lib nodes" "c \<in> set nodes" "proper_id key" "chord_route c key = (next, complete)"
  shows "\<exists>m. call_peer (ring_rpc lib nodes) t (local_peer c) (m_type M_CHORD_ROUTE) key = Some m \<and>
    route_reply lib m = Some (next, complete)"
proof -
  from route_node [OF assms] obtain d where d: "d \<in> set nodes" "next = local_peer d" by blast
  have cp: "canonical_peer lib next" using stableD(2) [OF assms(1) d(1)] d(2) by simp
  have l: "length key = 32" using assms(3) by (simp add: proper_id_def ID_SIZE_def)
  let ?b = "(if complete then 1 else 0) # join_bytes (peer_config next)"
  have "call_peer (ring_rpc lib nodes) t (local_peer c) (m_type M_CHORD_ROUTE) key = Some (request_message (m_type M_CHORD_ROUTE) ?b)"
    unfolding call_ring [OF assms(1,2)]
    using assms(4) l encode_peer_bytes [OF cp]
    by (simp add: chord_network_handle_def NODE_ID_SIZE_def Let_def)
  moreover have "route_reply lib (request_message (m_type M_CHORD_ROUTE) ?b) = Some (next, complete)"
    using decode_peer_bytes [OF cp] peer_bytes_length [OF cp]
    by (simp add: route_reply_def Let_def CHORD_ROUTE_WIRE_SIZE_def CHORD_PEER_WIRE_SIZE_def JOIN_PAYLOAD_WIRE_SIZE_def
        NODE_ADDRESS_SIZE_def NODE_UUID_SIZE_def)
  ultimately show ?thesis by blast
qed

lemma owner_answers:
  assumes "stable_ring lib nodes" "c \<in> set nodes"
  shows "\<exists>m. call_peer (ring_rpc lib nodes) t (local_peer c) (m_type M_CHORD_INFO) [] = Some m \<and> owner_confirms lib m (local_peer c)"
proof -
  note cp = stableD(2) [OF assms]
  have "call_peer (ring_rpc lib nodes) t (local_peer c) (m_type M_CHORD_INFO) [] =
      Some (request_message (m_type M_CHORD_INFO) (join_bytes (peer_config (local_peer c))))"
    unfolding call_ring [OF assms]
    using encode_peer_bytes [OF cp] by (simp add: chord_network_handle_def Let_def chord_local_def)
  with decode_peer_bytes [OF cp] show ?thesis by (simp add: owner_confirms_def)
qed

text \<open>The last node before a key, from which no other node lies strictly between it and the key.\<close>

definition last_before :: "Chord list \<Rightarrow> NodeID \<Rightarrow> Chord \<Rightarrow> bool" where
  "last_before nodes key p \<longleftrightarrow> p \<in> set nodes \<and>
     (\<forall>c \<in> set nodes. ring_dist key (peer_id (local_peer c)) \<le> ring_dist key (peer_id (local_peer p)))"

lemma last_before_exists:
  assumes "nodes \<noteq> []"
  shows "\<exists>p. last_before nodes key p"
proof -
  let ?d = "\<lambda>c. ring_dist key (peer_id (local_peer c))"
  have "Max (?d ` set nodes) \<in> ?d ` set nodes" using assms by (intro Max_in) auto
  then obtain p where "p \<in> set nodes" "?d p = Max (?d ` set nodes)" by auto
  then show ?thesis by (auto simp: last_before_def)
qed

text \<open>Between two nodes: \<open>c\<close>, the last node \<open>p\<close> before the key, and the key, in this order.\<close>

lemma last_before_order:
  assumes "stable_ring lib nodes" "c \<in> set nodes" "proper_id key" "last_before nodes key p" "peer_id (local_peer c) \<noteq> key"
  shows "ring_dist (peer_id (local_peer c)) (peer_id (local_peer p)) < ring_dist (peer_id (local_peer c)) key"
proof -
  let ?c = "peer_id (local_peer c)" and ?p = "peer_id (local_peer p)"
  have pr: "proper_id ?c" "proper_id ?p" using stableD(3) [OF assms(1)] assms(2,4) by (auto simp: last_before_def)
  have le: "ring_dist key ?c \<le> ring_dist key ?p" using assms(2,4) by (simp add: last_before_def)
  have "ring_dist key ?p = ring_dist key ?c + ring_dist ?c ?p" by (rule ring.dist_split [OF assms(3) pr le])
  moreover have "ring_dist key ?p < RING_SIZE" by (rule ring.dist_less [OF assms(3) pr(2)])
  moreover have "ring_dist key ?c + ring_dist ?c key = RING_SIZE"
    using ring.dist_back [OF assms(3) pr(1)] assms(5) by simp
  ultimately show ?thesis by simp
qed

lemma no_node_between:
  assumes "stable_ring lib nodes" "c \<in> set nodes" "proper_id key" "last_before nodes key p" "peer_id (local_peer c) \<noteq> key"
    "d \<in> set nodes" "ring_dist (peer_id (local_peer c)) (peer_id (local_peer d)) < ring_dist (peer_id (local_peer c)) key"
  shows "ring_dist (peer_id (local_peer c)) (peer_id (local_peer d)) \<le> ring_dist (peer_id (local_peer c)) (peer_id (local_peer p))"
proof -
  let ?c = "peer_id (local_peer c)" and ?p = "peer_id (local_peer p)" and ?d = "peer_id (local_peer d)"
  have pr: "proper_id ?c" "proper_id ?p" "proper_id ?d"
    using stableD(3) [OF assms(1)] assms(2,4,6) by (auto simp: last_before_def)
  have split: "ring_dist key q = ring_dist key ?c + ring_dist ?c q" if "proper_id q" "ring_dist key ?c \<le> ring_dist key q" for q
    using ring.dist_split [OF assms(3) pr(1)] that by blast
  have ge: "ring_dist key ?c \<le> ring_dist key ?d"
  proof (rule ccontr)
    assume lt: "\<not> ring_dist key ?c \<le> ring_dist key ?d"
    then have "ring_dist key ?c = ring_dist key ?d + ring_dist ?d ?c" using ring.dist_split [OF assms(3) pr(3,1)] by simp
    moreover have dc: "?d \<noteq> ?c" using lt by auto
    moreover have "ring_dist key ?c + ring_dist ?c key = RING_SIZE" using ring.dist_back [OF assms(3) pr(1)] assms(5) by simp
    moreover have "ring_dist ?c ?d + ring_dist ?d ?c = RING_SIZE" using ring.dist_back [OF pr(1,3)] dc by simp
    ultimately show False using assms(7) by simp
  qed
  have "ring_dist key ?d \<le> ring_dist key ?p" "ring_dist key ?c \<le> ring_dist key ?p"
    using assms(2,4,6) by (auto simp: last_before_def)
  with split [OF pr(3) ge] split [OF pr(2)] show ?thesis by simp
qed

lemma power_less_ring: "k < 256 \<Longrightarrow> (2 :: nat) ^ k < RING_SIZE"
  unfolding RING_SIZE_def by (rule power_strict_increasing) auto

text \<open>The finger whose power of two does not overshoot the last node reaches at least as far.\<close>

lemma finger_reach:
  assumes "stable_ring lib nodes" "c \<in> set nodes" "d \<in> set nodes" "k < 256"
    "2 ^ k \<le> ring_dist (peer_id (local_peer c)) (peer_id (local_peer d))"
  shows "2 ^ k \<le> ring_dist (peer_id (local_peer c)) (peer_id (fingers c ! k)) \<and>
    ring_dist (peer_id (local_peer c)) (peer_id (fingers c ! k)) \<le> ring_dist (peer_id (local_peer c)) (peer_id (local_peer d))"
proof -
  let ?c = "peer_id (local_peer c)" and ?d = "peer_id (local_peer d)" and ?f = "peer_id (fingers c ! k)"
  let ?s = "chord_id_add_power ?c k []"
  have "fingers c ! k \<in> set (fingers c)" using assms(4) stableD(5) [OF assms(1,2)] by simp
  then obtain e where e: "e \<in> set nodes" "?f = peer_id (local_peer e)" using finger_node [OF assms(1,2)] by metis
  have pr: "proper_id ?c" "proper_id ?d" "proper_id ?f" using stableD(3) [OF assms(1)] assms(2,3) e by auto
  have ps: "proper_id ?s" "id_val ?s = (id_val ?c + 2 ^ k) mod RING_SIZE" using id_add_power [OF pr(1) assms(4)] by auto
  have k: "(2 :: nat) ^ k < RING_SIZE" by (rule power_less_ring [OF assms(4)])
  have cs: "ring_dist ?c ?s = 2 ^ k" by (rule ring.dist_mod [OF pr(1) ps k])
  have o: "owner nodes ?s (fingers c ! k)" by (rule stableD(4) [OF assms(1,2,4)])
  have fd: "ring_dist ?s ?f \<le> ring_dist ?s ?d" "ring_dist ?s ?f \<le> ring_dist ?s ?c"
    using o assms(2,3) by (auto simp: owner_def)
  have d: "ring_dist ?c ?d = 2 ^ k + ring_dist ?s ?d" using ring.dist_split [OF pr(1) ps(1) pr(2)] cs assms(5) by simp
  have f: "ring_dist ?c ?f = 2 ^ k + ring_dist ?s ?f"
  proof -
    have "ring_dist ?s ?f + ring_dist ?f ?d = ring_dist ?s ?d" using ring.dist_split [OF ps(1) pr(3,2) fd(1)] by simp
    have "ring_dist ?c ?s \<le> ring_dist ?c ?f"
    proof (rule ccontr)
      assume a: "\<not> ?thesis"
      then have 1: "ring_dist ?c ?s = ring_dist ?c ?f + ring_dist ?f ?s" using ring.dist_split [OF pr(1,3) ps(1)] by simp
      have "?f \<noteq> ?s" using a by auto
      then have 2: "ring_dist ?s ?f + ring_dist ?f ?s = RING_SIZE" using ring.dist_back [OF ps(1) pr(3)] by metis
      have "ring_dist ?c ?d < RING_SIZE" by (rule ring.dist_less [OF pr(1,2)])
      with 1 2 d fd(1) cs show False by linarith
    qed
    with ring.dist_split [OF pr(1) ps(1) pr(3)] cs show ?thesis by simp
  qed
  with d fd(1) show ?thesis by simp
qed

text \<open>A finger whose power of two overshoots the node it names has gone around to the node itself or beyond.\<close>

lemma finger_overshoot:
  assumes "stable_ring lib nodes" "c \<in> set nodes" "k < 256" "0 < ring_dist (peer_id (local_peer c)) (peer_id (fingers c ! k))"
  shows "2 ^ k \<le> ring_dist (peer_id (local_peer c)) (peer_id (fingers c ! k))"
proof (rule ccontr)
  let ?c = "peer_id (local_peer c)" and ?f = "peer_id (fingers c ! k)"
  let ?s = "chord_id_add_power ?c k []"
  assume a: "\<not> ?thesis"
  have pr: "proper_id ?c" "proper_id ?f"
    using stableD(3) [OF assms(1,2)] chord_inv_ids(3) [OF stableD(1) [OF assms(1,2)]] assms(3) stableD(5) [OF assms(1,2)] by auto
  have ps: "proper_id ?s" "id_val ?s = (id_val ?c + 2 ^ k) mod RING_SIZE" using id_add_power [OF pr(1) assms(3)] by auto
  have k: "(2 :: nat) ^ k < RING_SIZE" by (rule power_less_ring [OF assms(3)])
  have cs: "ring_dist ?c ?s = 2 ^ k" by (rule ring.dist_mod [OF pr(1) ps k])
  have "ring_dist ?c ?s = ring_dist ?c ?f + ring_dist ?f ?s" using ring.dist_split [OF pr ps(1)] a cs by simp
  moreover have "?f \<noteq> ?s" using a cs by auto
  then have "ring_dist ?s ?f + ring_dist ?f ?s = RING_SIZE" using ring.dist_back [OF ps(1) pr(2)] by metis
  moreover have "ring_dist ?c ?s + ring_dist ?s ?c = RING_SIZE" using ring.dist_back [OF pr(1) ps(1)] cs
    by (metis ring.dist_eq_0 power_not_zero pr(1) ps(1) zero_neq_numeral)
  moreover have "ring_dist ?s ?f \<le> ring_dist ?s ?c" using stableD(4) [OF assms(1-3)] assms(2) by (auto simp: owner_def)
  ultimately show False using assms(4) by simp
qed

lemma find_rev_last:
  assumes "i < length xs" "P (xs ! i)" "\<And>j. i < j \<Longrightarrow> j < length xs \<Longrightarrow> \<not> P (xs ! j)"
  shows "find P (rev xs) = Some (xs ! i)"
proof -
  have split: "xs = take i xs @ xs ! i # drop (Suc i) xs" using assms(1) by (rule id_take_nth_drop)
  have "\<forall>x \<in> set (rev (drop (Suc i) xs)). \<not> P x"
    using assms(3) by (auto simp: in_set_conv_nth)
  then have n: "find P (rev (drop (Suc i) xs)) = None" by (simp add: find_None_iff)
  have app: "find P (as @ bs) = (case find P as of None \<Rightarrow> find P bs | Some y \<Rightarrow> Some y)" for as bs
    by (induction as) auto
  have "rev xs = rev (drop (Suc i) xs) @ xs ! i # rev (take i xs)" by (subst split) simp
  with n assms(2) show ?thesis by (simp add: app)
qed

text \<open>One hop halves the way to the last node before the key.\<close>

lemma hop_halves:
  assumes "stable_ring lib nodes" "c \<in> set nodes" "proper_id key" "last_before nodes key p"
    "chord_route c key = (next, False)" "ring_dist (peer_id (local_peer c)) (peer_id (local_peer p)) < 2 ^ Suc m"
  shows "ring_dist (peer_id next) (peer_id (local_peer p)) < 2 ^ m \<and>
    ring_dist (peer_id next) (peer_id (local_peer p)) < ring_dist (peer_id (local_peer c)) (peer_id (local_peer p))"
proof -
  let ?c = "peer_id (local_peer c)" and ?p = "peer_id (local_peer p)" and ?s = "peer_id (successor c)"
  let ?P = "\<lambda>f. \<not> node_id_equal (peer_id f) ?c \<and> chord_interval_open_open ?c key (peer_id f)"
  note inv = stableD(1) [OF assms(1,2)] and len = stableD(5) [OF assms(1,2)]
  note r = route_finger [OF assms(5) inv assms(3)]
  have pn: "p \<in> set nodes" using assms(4) by (simp add: last_before_def)
  have pr: "proper_id ?c" "proper_id ?p" "proper_id ?s"
    using stableD(3) [OF assms(1)] assms(2) pn chord_inv_ids(2) [OF inv] by auto
  have fp: "proper_id (peer_id (fingers c ! k))" if "k < 256" for k
    using chord_inv_ids(3) [OF inv] that len by simp
  have P: "?P (fingers c ! k) \<longleftrightarrow> 0 < ring_dist ?c (peer_id (fingers c ! k)) \<and> ring_dist ?c (peer_id (fingers c ! k)) < ring_dist ?c key"
    if "k < 256" for k
  proof -
    let ?f = "peer_id (fingers c ! k)"
    have "chord_interval_open_open ?c key ?f \<longleftrightarrow> 0 < ring_dist ?c ?f \<and> ring_dist ?c ?f < ring_dist ?c key"
      using open_open_dist [OF pr(1) assms(3) fp [OF that]] r(3) by metis
    moreover have "0 < ring_dist ?c ?f \<Longrightarrow> \<not> node_id_equal ?f ?c"
      using id_equal_iff [OF fp [OF that] pr(1)] ring.dist_self [of ?c] by (metis less_irrefl)
    ultimately show ?thesis by blast
  qed
  obtain s where s: "s \<in> set nodes" "successor c = local_peer s"
    using finger_node [OF assms(1,2), of "successor c"] nth_mem [of 0 "fingers c"] len stableD(6) [OF assms(1,2)] by auto
  have cp: "ring_dist ?c ?s \<le> ring_dist ?c ?p"
    using no_node_between [OF assms(1-4) _ s(1)] r(3,6) s(2) by metis
  moreover have "0 < ring_dist ?c ?s" using ring.dist_eq_0 [OF pr(1,3)] r(7) by (metis neq0_conv)
  ultimately have pos: "0 < ring_dist ?c ?p" by simp
  define i where "i = (GREATEST j. 2 ^ j \<le> ring_dist ?c ?p)"
  have ex: "(2 :: nat) ^ 0 \<le> ring_dist ?c ?p" using pos by simp
  have bound: "\<And>j. 2 ^ j \<le> ring_dist ?c ?p \<Longrightarrow> j \<le> ring_dist ?c ?p" by (meson le_trans less_exp less_imp_le)
  have i1: "2 ^ i \<le> ring_dist ?c ?p" unfolding i_def by (rule GreatestI_nat [where P = "\<lambda>j. 2 ^ j \<le> ring_dist ?c ?p", OF ex bound])
  have i2: "ring_dist ?c ?p < 2 ^ Suc i"
  proof (rule ccontr)
    assume "\<not> ?thesis"
    then have "2 ^ Suc i \<le> ring_dist ?c ?p" by simp
    from Greatest_le_nat [where P = "\<lambda>j. 2 ^ j \<le> ring_dist ?c ?p", OF this bound] show False by (simp add: i_def)
  qed
  have "(2 :: nat) ^ i < 2 ^ 256" using i1 ring.dist_less [OF pr(1,2)] unfolding RING_SIZE_def by (rule le_less_trans)
  then have ib: "i < 256" by (rule power_less_imp_less_exp [rotated]) simp
  have "(2 :: nat) ^ i < 2 ^ Suc m" using i1 assms(6) by (rule le_less_trans)
  then have im: "i \<le> m" using power_less_imp_less_exp [of "2 :: nat" i "Suc m"] by simp
  note reach = finger_reach [OF assms(1,2) pn ib i1]
  note kp = last_before_order [OF assms(1-4)]
  have sel: "?P (fingers c ! i)" using P [OF ib] reach kp r(3) by (metis le_less_trans less_le_trans pos zero_less_numeral zero_less_power)
  have above: "\<not> ?P (fingers c ! j)" if "i < j" "j < length (fingers c)" for j
  proof
    assume a: "?P (fingers c ! j)"
    have j: "j < 256" using that len by simp
    from a P [OF j] have b: "0 < ring_dist ?c (peer_id (fingers c ! j))" "ring_dist ?c (peer_id (fingers c ! j)) < ring_dist ?c key" by auto
    have "fingers c ! j \<in> set (fingers c)" using that by simp
    then obtain d where d: "d \<in> set nodes" "fingers c ! j = local_peer d" using finger_node [OF assms(1,2)] by blast
    have "ring_dist ?c (peer_id (fingers c ! j)) \<le> ring_dist ?c ?p"
      using no_node_between [OF assms(1-4) _ d(1)] r(3) b(2) d(2) by metis
    moreover have "2 ^ j \<le> ring_dist ?c (peer_id (fingers c ! j))" by (rule finger_overshoot [OF assms(1,2) j b(1)])
    moreover have "(2 :: nat) ^ Suc i \<le> 2 ^ j" using that(1) by (intro power_increasing) auto
    ultimately show False using i2 by linarith
  qed
  have "next = fingers c ! i" using find_rev_last [of i "fingers c" ?P, OF _ sel above] ib len r(1) by simp
  then have n: "2 ^ i \<le> ring_dist ?c (peer_id next)" "ring_dist ?c (peer_id next) \<le> ring_dist ?c ?p" "proper_id (peer_id next)"
    using reach fp [OF ib] by auto
  have "ring_dist ?c ?p = ring_dist ?c (peer_id next) + ring_dist (peer_id next) ?p"
    by (rule ring.dist_split [OF pr(1) n(3) pr(2) n(2)])
  moreover have "(2 :: nat) ^ i \<le> 2 ^ m" using im by (intro power_increasing) auto
  moreover have "(0 :: nat) < 2 ^ i" by simp
  ultimately show ?thesis using n(1) i2 [unfolded power_Suc] by linarith
qed

text \<open>A final routing step names the owner of the key.\<close>

lemma route_owner:
  assumes "stable_ring lib nodes" "c \<in> set nodes" "proper_id key" "chord_route c key = (next, True)"
  shows "owner nodes key next"
proof -
  let ?c = "peer_id (local_peer c)" and ?s = "peer_id (successor c)"
  note inv = stableD(1) [OF assms(1,2)]
  have pr: "proper_id ?c" "proper_id ?s" using chord_inv_ids [OF inv] by auto
  obtain s where s: "s \<in> set nodes" "successor c = local_peer s"
    using finger_node [OF assms(1,2), of "successor c"] nth_mem [of 0 "fingers c"] stableD(5,6) [OF assms(1,2)] by auto
  have far: "1 \<le> ring_dist ?c ?s \<and> ring_dist ?c ?s \<le> ring_dist ?c (peer_id (local_peer d))"
    if "d \<in> set nodes" "peer_id (local_peer d) \<noteq> ?c" for d
  proof -
    have "ring_dist ?c (peer_id (local_peer d)) \<noteq> 0"
      using ring.dist_eq_0 [OF pr(1) stableD(3) [OF assms(1) that(1)]] that(2) by metis
    with finger_reach [OF assms(1,2) that(1), of 0] stableD(6) [OF assms(1,2)] show ?thesis by simp
  qed
  from route_complete [OF assms(4) inv assms(3)] show ?thesis
  proof (elim disjE conjE)
    assume "next = local_peer c" "key = ?c"
    with assms(2) show ?thesis by (auto simp: owner_def)
  next
    assume n: "next = successor c" "?s = ?c"
    have "peer_id (local_peer d) = ?c" if "d \<in> set nodes" for d using far [OF that] n(2) by fastforce
    with n s show ?thesis by (auto simp: owner_def)
  next
    assume n: "next = successor c" and k: "0 < ring_dist ?c key" "ring_dist ?c key \<le> ring_dist ?c ?s"
    have ks: "ring_dist ?c ?s = ring_dist ?c key + ring_dist key ?s" by (rule ring.dist_split [OF pr(1) assms(3) pr(2) k(2)])
    have "ring_dist key ?s \<le> ring_dist key (peer_id (local_peer d))" if d: "d \<in> set nodes" for d
    proof (cases "peer_id (local_peer d) = ?c")
      case True
      have "key \<noteq> ?c" using k(1) by auto
      then have "ring_dist key ?c + ring_dist ?c key = RING_SIZE" by (rule ring.dist_back [OF assms(3) pr(1)])
      with ks ring.dist_less [OF pr(1,2)] True show ?thesis by simp
    next
      case False
      have "ring_dist ?c (peer_id (local_peer d)) = ring_dist ?c key + ring_dist key (peer_id (local_peer d))"
        using ring.dist_split [OF pr(1) assms(3) stableD(3) [OF assms(1) d]] far [OF d False] k(2) by simp
      with ks far [OF d False] show ?thesis by simp
    qed
    with n s show ?thesis by (auto simp: owner_def)
  qed
qed

text \<open>A round of the lookup at a node of the ring, local or remote.\<close>

lemma find_hop:
  assumes "stable_ring lib nodes" "chord \<in> set nodes" "proper_id key" "c \<in> set nodes"
    "\<forall>v \<in> set visited. proper_id v \<and> v \<noteq> peer_id (local_peer c)" "chord_route c key = (next, complete)"
  shows "complete \<Longrightarrow> find_loop (Suc m) lib (ring_rpc lib nodes) chord key visited (local_peer c) t = Inr next"
    "\<not> complete \<Longrightarrow> peer_id next \<noteq> peer_id (local_peer c) \<Longrightarrow> \<exists>t'. find_loop (Suc m) lib (ring_rpc lib nodes) chord key visited (local_peer c) t =
       find_loop m lib (ring_rpc lib nodes) chord key (visited @ [peer_id (local_peer c)]) next t'"
proof -
  let ?c = "peer_id (local_peer c)" and ?self = "peer_id (local_peer chord)"
  obtain d where d: "d \<in> set nodes" "next = local_peer d" using route_node [OF assms(1,4,3,6)] by blast
  have pr: "proper_id ?c" "proper_id ?self" "proper_id (peer_id next)" using stableD(3) [OF assms(1)] assms(2,4) d by auto
  have nv: "\<not> list_ex (\<lambda>v. node_id_equal ?c v) visited" using assms(5) pr(1) by (auto simp: list_ex_iff)
  have same: "c = chord" if "?c = ?self"
    using that assms(1,2,4) distinct_map [of "\<lambda>c. peer_id (local_peer c)" nodes] by (auto simp: stable_ring_def inj_on_def)
  have conf: "\<exists>m. call_peer (ring_rpc lib nodes) t next (m_type M_CHORD_INFO) [] = Some m \<and> owner_confirms lib m next" for t
    using owner_answers [OF assms(1) d(1)] d(2) by simp
  obtain r where r: "call_peer (ring_rpc lib nodes) t (local_peer c) (m_type M_CHORD_ROUTE) key = Some r"
    "route_reply lib r = Some (next, complete)" using remote_route [OF assms(1,4,3,6)] by blast
  show "find_loop (Suc m) lib (ring_rpc lib nodes) chord key visited (local_peer c) t = Inr next" if complete
    using that nv same conf [of t] conf [of "Suc t"] r assms(6) pr
    by (auto simp: find_loop.simps(2) Let_def)
  show "\<exists>t'. find_loop (Suc m) lib (ring_rpc lib nodes) chord key visited (local_peer c) t =
       find_loop m lib (ring_rpc lib nodes) chord key (visited @ [?c]) next t'" if "\<not> complete" "peer_id next \<noteq> ?c"
  proof (cases "?c = ?self")
    case True
    with same that nv assms(6) pr show ?thesis by (intro exI [of _ t]) (simp add: find_loop.simps(2) Let_def)
  next
    case False
    with that nv r pr show ?thesis by (intro exI [of _ "Suc t"]) (simp add: find_loop.simps(2) Let_def)
  qed
qed

lemma find_loop_stable:
  assumes "stable_ring lib nodes" "chord \<in> set nodes" "proper_id key" "last_before nodes key p" "c \<in> set nodes"
    "ring_dist (peer_id (local_peer c)) (peer_id (local_peer p)) < 2 ^ m"
    "\<forall>v \<in> set visited. proper_id v \<and> ring_dist (peer_id (local_peer c)) (peer_id (local_peer p)) < ring_dist v (peer_id (local_peer p))"
  shows "\<exists>q. find_loop (Suc m) lib (ring_rpc lib nodes) chord key visited (local_peer c) t = Inr q \<and> owner nodes key q"
  using assms(5-7)
proof (induction m arbitrary: c visited t)
  case (0 c visited t)
  obtain nx complete where r: "chord_route c key = (nx, complete)" by (rule prod.exhaust)
  have c: complete
  proof (rule ccontr)
    assume "\<not> complete"
    with r have "chord_route c key = (nx, False)" by simp
    from hop_halves [OF assms(1) 0(1) assms(3,4) this, of 0] 0(2) show False by simp
  qed
  have v: "\<forall>v \<in> set visited. proper_id v \<and> v \<noteq> peer_id (local_peer c)" using 0(3) by auto
  from r c have "owner nodes key nx" by (intro route_owner [OF assms(1) 0(1) assms(3)]) simp
  with find_hop(1) [OF assms(1-3) 0(1) v r c] show ?case by (intro exI [of _ nx] conjI)
next
  case (Suc m c visited t)
  have v: "\<forall>v \<in> set visited. proper_id v \<and> v \<noteq> peer_id (local_peer c)" using Suc.prems(3) by auto
  obtain nx complete where r: "chord_route c key = (nx, complete)" by (rule prod.exhaust)
  show ?case
  proof (cases complete)
    case True
    with r have "owner nodes key nx" by (intro route_owner [OF assms(1) Suc.prems(1) assms(3)]) simp
    with find_hop(1) [OF assms(1-3) Suc.prems(1) v r True] show ?thesis by (intro exI [of _ nx] conjI)
  next
    case False
    with r have r': "chord_route c key = (nx, False)" by simp
    obtain d where d: "d \<in> set nodes" "nx = local_peer d" using route_node [OF assms(1) Suc.prems(1) assms(3) r] by blast
    note h = hop_halves [OF assms(1) Suc.prems(1) assms(3,4) r' Suc.prems(2)]
    then have ne: "peer_id nx \<noteq> peer_id (local_peer c)" by auto
    obtain t' where t': "find_loop (Suc (Suc m)) lib (ring_rpc lib nodes) chord key visited (local_peer c) t =
       find_loop (Suc m) lib (ring_rpc lib nodes) chord key (visited @ [peer_id (local_peer c)]) (local_peer d) t'"
      using find_hop(2) [OF assms(1-3) Suc.prems(1) v r False ne, of "Suc m" t] d(2) by blast
    have "\<exists>q. find_loop (Suc m) lib (ring_rpc lib nodes) chord key (visited @ [peer_id (local_peer c)]) (local_peer d) t' = Inr q \<and> owner nodes key q"
      by (rule Suc.IH [OF d(1)]) (use h d(2) Suc.prems(3) stableD(3) [OF assms(1) Suc.prems(1)] in auto)
    with t' show ?thesis by simp
  qed
qed

text \<open>Rings of one node for the examples.\<close>

lemma sample_canonical: "canonical_peer byte_lib (sample_peer b)"
proof -
  have z: "cstr (zero_padded 46 [49 :: byte]) = [49]" by (rule cstr_zero_padded) simp
  moreover have "(0 :: byte) \<in> set (zero_padded 46 [49])" by (simp add: zero_padded_def)
  ultimately show ?thesis
    by (simp add: canonical_peer_def canonical_config_def sample_peer_def node_compute_id_def node_config_validate_def
        normalize_ip_def byte_lib_def id_input_def NODE_ADDRESS_SIZE_def NODE_UUID_SIZE_def)
qed

lemma sample_ring: "stable_ring byte_lib [sample_chord b]"
  using sample_chord_inv [of byte_lib b] sample_canonical [of b]
  by (simp add: stable_ring_def owner_def) (simp add: sample_chord_def)

section \<open>Properties\<close>

text \<open>
C31: Lookups succeed in a stable ring of any size. When the fingers of all nodes are the owners
of their starts and the calls between nodes succeed, a lookup from any node, started at any node,
returns the owner of the key, the first node at or after it; the limit of 257 hops is never reached,
because every hop halves the way that remains to the last node before the key.
\<close>

theorem chord_lookup_finds_owner:
  assumes "stable_ring lib nodes" "chord \<in> set nodes" "c \<in> set nodes" "proper_id key"
  shows "\<exists>p. find_from lib (ring_rpc lib nodes) chord (local_peer c) key t = Inr p \<and> owner nodes key p"
proof -
  have "nodes \<noteq> []" using assms(2) by auto
  then obtain p where p: "last_before nodes key p" using last_before_exists by blast
  then have "p \<in> set nodes" by (simp add: last_before_def)
  then have "ring_dist (peer_id (local_peer c)) (peer_id (local_peer p)) < 2 ^ 256"
    using ring.dist_less [OF stableD(3) [OF assms(1,3)] stableD(3) [OF assms(1)]] unfolding RING_SIZE_def by blast
  from find_loop_stable [OF assms(1,2,4) p assms(3) this, of "[]"] show ?thesis
    by (simp add: find_from_def CHORD_FINGER_COUNT_def del: power_numeral)
qed

theorem chord_lookup_finds_owner_witness:
  "\<exists>p. find_from byte_lib (ring_rpc byte_lib [sample_chord 5]) (sample_chord 5) (local_peer (sample_chord 5)) (replicate 32 9) 0 = Inr p \<and>
     owner [sample_chord 5] (replicate 32 9) p"
  by (rule chord_lookup_finds_owner [OF sample_ring]) (simp_all add: proper_id_def ID_SIZE_def)

end
