(* ===== verification/Storage_Cache.thy ===== *)
theory Storage_Cache
  imports Content "HOL-Library.Sublist" "HOL-Library.Multiset"
begin

text \<open>
  The cache of chunks of \<^verbatim>\<open>storage.c\<close>: a list of entries, the newest first, with the frequency and the time of the last use of each.
  When it is full the entry with the lowest frequency leaves, among equals the one whose last use is longest ago.

  \<open>Cache\<close> has the fields of \<open>struct Storage\<close> that the cache uses. A pointer to an entry is its position in the list; the allocations of
  \<open>cache_store_locked\<close> are its call sites. Sizes are natural numbers; that \<open>used_bytes\<close> never falls below zero is part
  of the invariant.
\<close>

section \<open>Data\<close>

record StoredChunk =
  sc_index :: u64
  sc_offset :: u64
  sc_raw_size :: u32
  sc_compressed_size :: u32
  sc_hash :: "byte list"
  present :: bool

record CacheEntry =
  ce_id :: ObjectID
  ce_index :: u64
  ce_chunk :: StoredChunk
  ce_data :: "byte list"
  ce_size :: nat
  frequency :: u64
  last_access :: u64

record StorageCacheStats =
  capacity_bytes :: nat
  used_bytes :: nat
  entries_count :: nat
  hits :: u64
  misses :: u64
  evictions :: u64

record Cache =
  cache :: "CacheEntry list"
  cache_stats :: StorageCacheStats
  cache_clock :: u64

section \<open>Operations\<close>

definition cache_increment :: "u64 \<Rightarrow> u64" where
  "cache_increment value = (if value < - 1 then value + 1 else value)"

definition cache_find_locked :: "'a Cache_scheme \<Rightarrow> ObjectID \<Rightarrow> u64 \<Rightarrow> nat option" where
  "cache_find_locked s i index = find_index (\<lambda>e. ce_index e = index \<and> ce_id e = i) (cache s)"

definition cache_touch_locked :: "'a Cache_scheme \<Rightarrow> nat \<Rightarrow> 'a Cache_scheme" where
  "cache_touch_locked s k =
     (let clock = cache_increment (cache_clock s); e = cache s ! k in
      s\<lparr>cache_clock := clock, cache := (cache s)[k := e\<lparr>last_access := clock, frequency := cache_increment (frequency e)\<rparr>]\<rparr>)"

text \<open>The search for the victim: the remaining entries, the position of the first of them, and the victim so far.\<close>

primrec cache_victim :: "CacheEntry list \<Rightarrow> nat \<Rightarrow> (nat \<times> CacheEntry) option \<Rightarrow> (nat \<times> CacheEntry) option" where
  "cache_victim [] k victim = victim"
| "cache_victim (e # es) k victim =
     cache_victim es (Suc k) (case victim of None \<Rightarrow> Some (k, e)
       | Some (_, v) \<Rightarrow>
           if frequency e < frequency v \<or> frequency e = frequency v \<and> last_access e < last_access v then Some (k, e) else victim)"

definition cache_evict_one_locked :: "'a Cache_scheme \<Rightarrow> 'a Cache_scheme option" where
  "cache_evict_one_locked s =
     (case cache_victim (cache s) 0 None of None \<Rightarrow> None
      | Some (k, v) \<Rightarrow>
          let stats = cache_stats s in
          Some (s\<lparr>cache := take k (cache s) @ drop (Suc k) (cache s),
            cache_stats := stats\<lparr>used_bytes := used_bytes stats - ce_size v, entries_count := entries_count stats - 1,
              evictions := cache_increment (evictions stats)\<rparr>\<rparr>))"

lemma cache_victim_Some:
  "cache_victim es k v \<noteq> None \<longleftrightarrow> es \<noteq> [] \<or> v \<noteq> None"
  by (induction es arbitrary: k v) (auto split: option.splits if_splits)

lemma cache_victim_position:
  assumes "cache_victim es k v = Some (j, e)" "\<And>i w. v = Some (i, w) \<Longrightarrow> i < k"
  shows "v = Some (j, e) \<or> k \<le> j \<and> j < k + length es \<and> es ! (j - k) = e"
  using assms
proof (induction es arbitrary: k v)
  case (Cons x es)
  let ?v = "case v of None \<Rightarrow> Some (k, x)
       | Some (_, w) \<Rightarrow> if frequency x < frequency w \<or> frequency x = frequency w \<and> last_access x < last_access w then Some (k, x) else v"
  have v: "?v = v \<or> ?v = Some (k, x)" by (auto split: option.splits)
  have "i < Suc k" if "?v = Some (i, w)" for i w using v that Cons.prems(2) by fastforce
  with Cons.IH [of "Suc k" ?v] Cons.prems(1)
  have "?v = Some (j, e) \<or> Suc k \<le> j \<and> j < Suc k + length es \<and> es ! (j - Suc k) = e" by simp
  with v show ?case by (auto simp: nth_Cons' Suc_diff_le)
qed simp

lemma cache_evict_one_shorter:
  "cache_evict_one_locked s = Some s' \<Longrightarrow> length (cache s') < length (cache s)"
  using cache_victim_position [of "cache s" 0 None]
  by (auto simp: cache_evict_one_locked_def Let_def split: option.splits)

text \<open>The two loops that evict: as long as the cache is above its capacity, and to make room for \<open>n\<close> bytes.\<close>

function cache_evict_to_capacity_locked :: "'a Cache_scheme \<Rightarrow> 'a Cache_scheme" where
  "cache_evict_to_capacity_locked s =
     (if capacity_bytes (cache_stats s) < used_bytes (cache_stats s) then
        (case cache_evict_one_locked s of None \<Rightarrow> s | Some s' \<Rightarrow> cache_evict_to_capacity_locked s')
      else s)"
  by pat_completeness auto

termination
  by (relation "measure (\<lambda>s. length (cache s))") (auto dest: cache_evict_one_shorter)

function cache_make_room :: "nat \<Rightarrow> 'a Cache_scheme \<Rightarrow> bool \<times> 'a Cache_scheme" where
  "cache_make_room n s =
     (if capacity_bytes (cache_stats s) - n < used_bytes (cache_stats s) then
        (case cache_evict_one_locked s of None \<Rightarrow> (False, s) | Some s' \<Rightarrow> cache_make_room n s')
      else (True, s))"
  by pat_completeness auto

termination
  by (relation "measure (\<lambda>(n, s). length (cache s))") (auto dest: cache_evict_one_shorter)

declare cache_evict_to_capacity_locked.simps [simp del] cache_make_room.simps [simp del]

definition cache_store_locked :: "os \<Rightarrow> 'a Cache_scheme \<Rightarrow> ObjectID \<Rightarrow> StoredChunk \<Rightarrow> byte list \<Rightarrow> 'a Cache_scheme" where
  "cache_store_locked os s i c bytes =
     (let n = unat (sc_compressed_size c); capacity = capacity_bytes (cache_stats s) in
      if capacity = 0 \<or> capacity < n \<or> cache_find_locked s i (sc_index c) \<noteq> None then s
      else case cache_make_room n s of
        (False, s) \<Rightarrow> s
      | (True, s) \<Rightarrow>
          if fault (at os 0) \<noteq> None \<or> fault (at os 1) \<noteq> None then s
          else
            let clock = cache_increment (cache_clock s); stats = cache_stats s in
            s\<lparr>cache := \<lparr>ce_id = i, ce_index = sc_index c, ce_chunk = c, ce_data = take n bytes, ce_size = n, frequency = 1, last_access = clock\<rparr> # cache s,
              cache_stats := stats\<lparr>used_bytes := used_bytes stats + n, entries_count := entries_count stats + 1\<rparr>,
              cache_clock := clock\<rparr>)"

text \<open>The operations of the interface, under the mutex; \<open>pthread_mutex_lock\<close> is the call site.\<close>

definition storage_set_cache_capacity :: "os \<Rightarrow> 'a Cache_scheme \<Rightarrow> nat \<Rightarrow> errno option \<times> 'a Cache_scheme" where
  "storage_set_cache_capacity os s capacity =
     (case fault (at os 0) of Some e \<Rightarrow> (Some e, s)
      | None \<Rightarrow> (None, cache_evict_to_capacity_locked (s\<lparr>cache_stats := (cache_stats s)\<lparr>capacity_bytes := capacity\<rparr>\<rparr>)))"

definition storage_get_cache_stats :: "os \<Rightarrow> 'a Cache_scheme \<Rightarrow> StorageCacheStats result" where
  "storage_get_cache_stats os s = (case fault (at os 0) of Some e \<Rightarrow> Inl e | None \<Rightarrow> Inr (cache_stats s))"

section \<open>The invariant\<close>

text \<open>The counters are those of the entries; the cache stays within its capacity.\<close>

definition entry_ok :: "u64 \<Rightarrow> CacheEntry \<Rightarrow> bool" where
  "entry_ok clock e \<longleftrightarrow> ce_size e = length (ce_data e) \<and> ce_size e = unat (sc_compressed_size (ce_chunk e)) \<and>
     ce_index e = sc_index (ce_chunk e) \<and> 0 < frequency e \<and> last_access e \<le> clock"

definition cache_counted :: "'a Cache_scheme \<Rightarrow> bool" where
  "cache_counted s \<longleftrightarrow> distinct (map (\<lambda>e. (ce_id e, ce_index e)) (cache s)) \<and> list_all (entry_ok (cache_clock s)) (cache s) \<and>
     used_bytes (cache_stats s) = sum_list (map ce_size (cache s)) \<and> entries_count (cache_stats s) = length (cache s)"

definition cache_ok :: "'a Cache_scheme \<Rightarrow> bool" where
  "cache_ok s \<longleftrightarrow> cache_counted s \<and> used_bytes (cache_stats s) \<le> capacity_bytes (cache_stats s)"

lemma cache_increment_ge: "value \<le> cache_increment value"
proof (cases "value < - 1")
  case True
  then have "value \<noteq> - 1" by simp
  then have "unat (value + 1) = Suc (unat value)" by (metis Suc_eq_plus1 unatSuc add.commute neg_eq_iff_add_eq_0 add_eq_0_iff2 unsigned_0)
  with True show ?thesis by (simp add: cache_increment_def word_le_nat_alt)
qed (simp add: cache_increment_def)

lemma cache_increment_pos: "0 < value \<Longrightarrow> 0 < cache_increment value"
  using cache_increment_ge [of "value"] by simp

text \<open>The order in which entries leave.\<close>

definition less_used :: "CacheEntry \<Rightarrow> CacheEntry \<Rightarrow> bool" where
  "less_used v e \<longleftrightarrow> frequency v < frequency e \<or> frequency v = frequency e \<and> last_access v \<le> last_access e"

lemma less_used_refl [simp]: "less_used e e"
  by (simp add: less_used_def)

lemma less_used_trans: "less_used a b \<Longrightarrow> less_used b c \<Longrightarrow> less_used a c"
  by (auto simp: less_used_def)

lemma cache_victim_least:
  "cache_victim es k v = Some (j, e) \<Longrightarrow> (\<forall>x \<in> set es. less_used e x) \<and> (\<forall>i w. v = Some (i, w) \<longrightarrow> less_used e w)"
proof (induction es arbitrary: k v)
  case (Cons x es)
  let ?c = "\<lambda>w. frequency x < frequency w \<or> frequency x = frequency w \<and> last_access x < last_access w"
  let ?v = "case v of None \<Rightarrow> Some (k, x) | Some (_, w) \<Rightarrow> if ?c w then Some (k, x) else v"
  from Cons.IH [of "Suc k" ?v] Cons.prems
  have ih: "\<forall>y \<in> set es. less_used e y" "\<And>i w. ?v = Some (i, w) \<Longrightarrow> less_used e w" by simp_all
  show ?case
  proof (cases v)
    case None
    with ih show ?thesis by auto
  next
    case (Some p)
    obtain i w where p: "p = (i, w)" by (cases p)
    show ?thesis
    proof (cases "?c w")
      case True
      with Some p have "less_used e x" by (intro ih(2) [of k]) simp
      moreover have "less_used x w" using True by (auto simp: less_used_def)
      ultimately have "less_used e x" "less_used e w" using less_used_trans by blast+
      then show ?thesis using ih(1) Some p by simp
    next
      case False
      with Some p have "less_used e w" by (intro ih(2) [of i]) auto
      moreover have "less_used w x" using False by (auto simp: less_used_def)
      ultimately have "less_used e x" "less_used e w" using less_used_trans by blast+
      then show ?thesis using ih(1) Some p by simp
    qed
  qed
qed simp

lemma cache_evict_one:
  assumes "cache_evict_one_locked s = Some s'"
  obtains pre v post where "cache s = pre @ v # post" "cache s' = pre @ post" "\<forall>e \<in> set (cache s). less_used v e"
    "cache_clock s' = cache_clock s" "capacity_bytes (cache_stats s') = capacity_bytes (cache_stats s)"
    "used_bytes (cache_stats s') = used_bytes (cache_stats s) - ce_size v" "entries_count (cache_stats s') = entries_count (cache_stats s) - 1"
    "Cache.more s' = Cache.more s"
proof -
  obtain k v where v: "cache_victim (cache s) 0 None = Some (k, v)"
    using assms by (auto simp: cache_evict_one_locked_def split: option.splits)
  from cache_victim_position [OF this] have k: "k < length (cache s)" "cache s ! k = v" by auto
  then have "cache s = take k (cache s) @ v # drop (Suc k) (cache s)" by (metis id_take_nth_drop)
  with v assms cache_victim_least [OF v] show thesis
    by (intro that [of "take k (cache s)" v "drop (Suc k) (cache s)"]) (auto simp: cache_evict_one_locked_def Let_def)
qed

lemma cache_evict_none: "cache_evict_one_locked s = None \<longleftrightarrow> cache s = []"
  using cache_victim_Some [of "cache s" 0 None] by (auto simp: cache_evict_one_locked_def Let_def split: option.splits)

lemma cache_evict_one_counted:
  assumes "cache_evict_one_locked s = Some s'" "cache_counted s"
  shows "cache_counted s'"
  by (rule cache_evict_one [OF assms(1)]) (use assms(2) in \<open>auto simp: cache_counted_def\<close>)

section \<open>The loops of the eviction\<close>

text \<open>What a sequence of evictions does: \<open>removed\<close> are the entries that left, in order.\<close>

inductive evicted :: "'a Cache_scheme \<Rightarrow> CacheEntry list \<Rightarrow> 'a Cache_scheme \<Rightarrow> bool" where
  evicted_none: "evicted s [] s"
| evicted_one: "cache_evict_one_locked s = Some s1 \<Longrightarrow> cache s = pre @ v # post \<Longrightarrow> cache s1 = pre @ post \<Longrightarrow>
    \<forall>e \<in> set (cache s). less_used v e \<Longrightarrow> evicted s1 vs s2 \<Longrightarrow> evicted s (v # vs) s2"

lemma evicted_step:
  assumes "cache_evict_one_locked s = Some s1" "evicted s1 vs s2"
  shows "\<exists>v. evicted s (v # vs) s2"
  by (rule cache_evict_one [OF assms(1)]) (use assms evicted_one in blast)

lemma evicted_keeps:
  assumes "evicted s vs s'"
  shows "cache_counted s \<longrightarrow> cache_counted s'" "cache_clock s' = cache_clock s" "capacity_bytes (cache_stats s') = capacity_bytes (cache_stats s)"
    "Cache.more s' = Cache.more s" "subseq (cache s') (cache s)" "mset (cache s) = mset (cache s') + mset vs"
    "\<forall>v \<in> set vs. \<forall>e \<in> set (cache s'). less_used v e"
  using assms
proof (induction rule: evicted.induct)
  case (evicted_one s s1 pre v post vs s2)
  note f = cache_evict_one [OF evicted_one.hyps(1)]
  { case 1 then show ?case using cache_evict_one_counted [OF evicted_one.hyps(1)] evicted_one by blast }
  { case 2 then show ?case using f evicted_one by metis }
  { case 3 then show ?case using f evicted_one by metis }
  { case 4 then show ?case using f evicted_one by metis }
  { case 5 show ?case
    proof -
      have "subseq (pre @ post) (pre @ v # post)" by (intro list_emb_append_mono) auto
      then show ?thesis using evicted_one subseq_order.trans by metis
    qed }
  { case 6 show ?case using evicted_one by simp }
  { case 7 show ?case
    proof -
      have "set (cache s2) \<subseteq> set (cache s1)" using evicted_one.IH(6) by (metis mset_subset_eq_add_left set_mset_mono set_mset_mset)
      then show ?thesis using evicted_one by auto
    qed }
qed simp_all

lemma evicted_set: "evicted s vs s' \<Longrightarrow> set (cache s') \<subseteq> set (cache s)"
  using evicted_keeps(6) by (metis mset_subset_eq_add_left set_mset_mono set_mset_mset)

lemma evict_to_capacity_evicted: "\<exists>vs. evicted s vs (cache_evict_to_capacity_locked s)"
proof (induction s rule: cache_evict_to_capacity_locked.induct)
  case (1 s)
  then show ?case
    by (subst cache_evict_to_capacity_locked.simps) (auto intro: evicted_none dest: evicted_step split: option.splits)
qed

lemma evict_to_capacity_fits:
  "cache_counted s \<Longrightarrow> used_bytes (cache_stats (cache_evict_to_capacity_locked s)) \<le> capacity_bytes (cache_stats s)"
proof (induction s rule: cache_evict_to_capacity_locked.induct)
  case (1 s)
  show ?case
  proof (cases "capacity_bytes (cache_stats s) < used_bytes (cache_stats s)")
    case True
    then have "cache s \<noteq> []" using "1.prems" by (auto simp: cache_counted_def)
    then obtain s1 where s1: "cache_evict_one_locked s = Some s1" using cache_evict_none [of s] by blast
    have "capacity_bytes (cache_stats s1) = capacity_bytes (cache_stats s)" by (rule cache_evict_one [OF s1]) simp
    with "1.IH" [OF True s1 cache_evict_one_counted [OF s1 "1.prems"]] True s1 show ?thesis
      by (subst cache_evict_to_capacity_locked.simps) simp
  qed (subst cache_evict_to_capacity_locked.simps, simp)
qed

lemma make_room_evicted: "\<exists>vs. evicted s vs (snd (cache_make_room n s))"
proof (induction n s rule: cache_make_room.induct)
  case (1 n s)
  then show ?case
    by (subst cache_make_room.simps) (auto intro: evicted_none dest: evicted_step split: option.splits)
qed

lemma make_room_fits:
  "cache_counted s \<Longrightarrow> n \<le> capacity_bytes (cache_stats s) \<Longrightarrow>
     fst (cache_make_room n s) \<and> used_bytes (cache_stats (snd (cache_make_room n s))) + n \<le> capacity_bytes (cache_stats s)"
proof (induction n s rule: cache_make_room.induct)
  case (1 n s)
  show ?case
  proof (cases "capacity_bytes (cache_stats s) - n < used_bytes (cache_stats s)")
    case True
    then have "cache s \<noteq> []" using "1.prems" by (auto simp: cache_counted_def)
    then obtain s1 where s1: "cache_evict_one_locked s = Some s1" using cache_evict_none [of s] by blast
    have c: "capacity_bytes (cache_stats s1) = capacity_bytes (cache_stats s)" by (rule cache_evict_one [OF s1]) simp
    then have "n \<le> capacity_bytes (cache_stats s1)" using "1.prems"(2) by simp
    from "1.IH" [OF True s1 cache_evict_one_counted [OF s1 "1.prems"(1)] this] True s1 c show ?thesis
      by (subst (1 2) cache_make_room.simps) simp
  next
    case False
    then show ?thesis using "1.prems"(2) by (subst (1 2) cache_make_room.simps) auto
  qed
qed

text \<open>
C19: Reducing the capacity ends, with the cache within its new capacity, and follows the least-frequently-used rule: the entries that stay
keep their order and contents, every entry that left was used less often than every entry that stayed, or as often and not more recently, and
the entries that left and those that stayed are together those that were there.\<close>

theorem cache_capacity_lfu:
  assumes "cache_counted s" "fault (at os 0) = None"
  shows "\<exists>s' removed. storage_set_cache_capacity os s capacity = (None, s') \<and> cache_ok s' \<and> capacity_bytes (cache_stats s') = capacity \<and>
    subseq (cache s') (cache s) \<and> mset (cache s) = mset (cache s') + mset removed \<and> (\<forall>v \<in> set removed. \<forall>e \<in> set (cache s'). less_used v e)"
proof -
  let ?s = "s\<lparr>cache_stats := (cache_stats s)\<lparr>capacity_bytes := capacity\<rparr>\<rparr>"
  let ?t = "cache_evict_to_capacity_locked ?s"
  obtain removed where r: "evicted ?s removed ?t" using evict_to_capacity_evicted by blast
  have c: "cache_counted ?s" using assms(1) by (simp add: cache_counted_def)
  have "used_bytes (cache_stats ?t) \<le> capacity" using evict_to_capacity_fits [OF c] by simp
  then have "cache_ok ?t \<and> capacity_bytes (cache_stats ?t) = capacity"
    using evicted_keeps(1,3) [OF r] c by (simp add: cache_ok_def)
  moreover have "subseq (cache ?t) (cache s)" "mset (cache s) = mset (cache ?t) + mset removed" using evicted_keeps(5,6) [OF r] by simp_all
  ultimately show ?thesis using evicted_keeps(7) [OF r] assms(2) unfolding storage_set_cache_capacity_def by auto
qed

definition sample_entry :: "nat \<Rightarrow> u64 \<Rightarrow> u64 \<Rightarrow> CacheEntry" where
  "sample_entry n f t = \<lparr>ce_id = [of_nat n], ce_index = 0, ce_chunk = \<lparr>sc_index = 0, sc_offset = 0, sc_raw_size = 9, sc_compressed_size = of_nat n, sc_hash = [],
     present = True\<rparr>, ce_data = replicate n 7, ce_size = n, frequency = f, last_access = t\<rparr>"

definition sample_cache :: Cache where
  "sample_cache = \<lparr>cache = [sample_entry 4 2 3, sample_entry 3 1 5, sample_entry 2 2 2],
     cache_stats = \<lparr>capacity_bytes = 20, used_bytes = 9, entries_count = 3, hits = 0, misses = 0, evictions = 0\<rparr>, cache_clock = 5\<rparr>"

theorem cache_capacity_lfu_witness:
  "\<exists>s'. storage_set_cache_capacity calm sample_cache 5 = (None, s') \<and> cache_ok s' \<and> capacity_bytes (cache_stats s') = 5 \<and> subseq (cache s') (cache sample_cache)"
proof -
  have "cache_counted sample_cache" by (simp add: cache_counted_def sample_cache_def sample_entry_def entry_ok_def unat_of_nat)
  from cache_capacity_lfu [OF this, of calm 5] show ?thesis by auto
qed

section \<open>Storing and using entries\<close>

abbreviation entry_key_of :: "CacheEntry \<Rightarrow> ObjectID \<times> u64" where
  "entry_key_of e \<equiv> (ce_id e, ce_index e)"

lemma cache_find_None: "cache_find_locked s i index = None \<longleftrightarrow> (i, index) \<notin> entry_key_of ` set (cache s)"
  by (auto simp: cache_find_locked_def find_index_None)

lemma cache_find_Some:
  "cache_find_locked s i index = Some k \<Longrightarrow> k < length (cache s) \<and> ce_id (cache s ! k) = i \<and> ce_index (cache s ! k) = index"
  by (auto simp: cache_find_locked_def dest: find_index_Some)

text \<open>The parts of an entry that no use changes.\<close>

definition entry_content :: "CacheEntry \<Rightarrow> ObjectID \<times> u64 \<times> StoredChunk \<times> byte list" where
  "entry_content e = (ce_id e, ce_index e, ce_chunk e, ce_data e)"

lemma cache_store_cases:
  assumes "cache_ok s"
  obtains (unchanged) "cache_store_locked os s i c bytes = s"
  | (evicted) vs where "evicted s vs (cache_store_locked os s i c bytes)" "cache_ok (cache_store_locked os s i c bytes)"
  | (stored) vs s1 e where "evicted s vs s1" "cache_counted s1"
    "used_bytes (cache_stats s1) + unat (sc_compressed_size c) \<le> capacity_bytes (cache_stats s)"
    "cache_find_locked s i (sc_index c) = None" "cache_store_locked os s i c bytes = s1\<lparr>cache := e # cache s1,
       cache_stats := (cache_stats s1)\<lparr>used_bytes := used_bytes (cache_stats s1) + unat (sc_compressed_size c),
         entries_count := entries_count (cache_stats s1) + 1\<rparr>, cache_clock := cache_increment (cache_clock s1)\<rparr>"
    "e = \<lparr>ce_id = i, ce_index = sc_index c, ce_chunk = c, ce_data = take (unat (sc_compressed_size c)) bytes, ce_size = unat (sc_compressed_size c),
       frequency = 1, last_access = cache_increment (cache_clock s1)\<rparr>"
proof -
  let ?n = "unat (sc_compressed_size c)" and ?cap = "capacity_bytes (cache_stats s)"
  let ?skip = "?cap = 0 \<or> ?cap < ?n \<or> cache_find_locked s i (sc_index c) \<noteq> None"
  obtain vs where vs: "evicted s vs (snd (cache_make_room ?n s))" using make_room_evicted by blast
  have c: "cache_counted s" using assms by (simp add: cache_ok_def)
  show thesis
  proof (cases ?skip)
    case True
    then show thesis by (intro unchanged) (simp add: cache_store_locked_def Let_def)
  next
    case False
    then have room: "fst (cache_make_room ?n s)" "used_bytes (cache_stats (snd (cache_make_room ?n s))) + ?n \<le> ?cap"
      using make_room_fits [OF c, of ?n] by auto
    obtain s1 where s1: "cache_make_room ?n s = (True, s1)" using room(1) by (cases "cache_make_room ?n s") simp
    have c1: "cache_counted s1" "capacity_bytes (cache_stats s1) = ?cap" using evicted_keeps(1,3) [OF vs] c s1 by simp_all
    show thesis
    proof (cases "fault (at os 0) \<noteq> None \<or> fault (at os 1) \<noteq> None")
      case True
      then have "cache_store_locked os s i c bytes = s1" using False s1 by (simp add: cache_store_locked_def Let_def)
      then show thesis using vs c1 room(2) s1 by (intro evicted) (auto simp: cache_ok_def)
    next
      case no: False
      then have "cache_store_locked os s i c bytes = s1\<lparr>cache := \<lparr>ce_id = i, ce_index = sc_index c, ce_chunk = c, ce_data = take ?n bytes, ce_size = ?n,
           frequency = 1, last_access = cache_increment (cache_clock s1)\<rparr> # cache s1,
         cache_stats := (cache_stats s1)\<lparr>used_bytes := used_bytes (cache_stats s1) + ?n, entries_count := entries_count (cache_stats s1) + 1\<rparr>,
         cache_clock := cache_increment (cache_clock s1)\<rparr>"
        using False s1 by (simp add: cache_store_locked_def Let_def)
      moreover have "evicted s vs s1" "used_bytes (cache_stats s1) + ?n \<le> ?cap" using vs s1 room(2) by simp_all
      moreover have "cache_find_locked s i (sc_index c) = None" using False by simp
      ultimately show thesis using c1(1) by (intro stored [OF _ _ _ _ _ refl])
    qed
  qed
qed

lemma entry_ok_mono: "entry_ok clock e \<Longrightarrow> clock \<le> clock' \<Longrightarrow> entry_ok clock' e"
  by (auto simp: entry_ok_def)

lemma list_entry_ok_mono: "list_all (entry_ok clock) es \<Longrightarrow> clock \<le> clock' \<Longrightarrow> list_all (entry_ok clock') es"
  using entry_ok_mono by (auto simp: list_all_iff)

lemma cache_store_ok:
  assumes "cache_ok s" "length bytes = unat (sc_compressed_size c)"
  shows "cache_ok (cache_store_locked os s i c bytes)"
proof (cases rule: cache_store_cases [OF assms(1), where os = os and i = i and c = c and bytes = bytes])
  case 1
  with assms(1) show ?thesis by simp
next
  case (2 vs)
  then show ?thesis by simp
next
  case (3 vs s1 e)
  note stored = this
  have "(i, sc_index c) \<notin> entry_key_of ` set (cache s1)"
    using stored(4) evicted_set [OF stored(1)] cache_find_None [of s i "sc_index c"] by blast
  moreover have "list_all (entry_ok (cache_increment (cache_clock s1))) (cache s1)"
    using stored(2) list_entry_ok_mono cache_increment_ge by (auto simp: cache_counted_def)
  moreover have "entry_ok (cache_increment (cache_clock s1)) e" using stored(6) assms(2) by (simp add: entry_ok_def)
  ultimately show ?thesis using stored(2,3,6) evicted_keeps(3) [OF stored(1)] unfolding stored(5) by (auto simp: cache_ok_def cache_counted_def)
qed

lemma cache_store_more:
  assumes "cache_ok s"
  shows "Cache.more (cache_store_locked os s i c bytes) = Cache.more s"
proof (cases rule: cache_store_cases [OF assms, where os = os and i = i and c = c and bytes = bytes])
  case (2 vs)
  from evicted_keeps(4) [OF this(1)] show ?thesis .
next
  case (3 vs s1 e)
  note stored = this
  from evicted_keeps(4) [OF stored(1)] show ?thesis unfolding stored(5) by simp
qed simp

lemma cache_store_contents:
  assumes "cache_ok s" "length bytes = unat (sc_compressed_size c)"
  shows "entry_content ` set (cache (cache_store_locked os s i c bytes)) \<subseteq> insert (i, sc_index c, c, bytes) (entry_content ` set (cache s))"
proof (cases rule: cache_store_cases [OF assms(1), where os = os and i = i and c = c and bytes = bytes])
  case (2 vs)
  from evicted_set [OF this(1)] show ?thesis by auto
next
  case (3 vs s1 e)
  note stored = this
  have "entry_content e = (i, sc_index c, c, bytes)" using stored(6) assms(2) by (simp add: entry_content_def)
  with evicted_set [OF stored(1)] show ?thesis unfolding stored(5) by auto
qed auto

lemma cache_touch:
  assumes "cache_ok s" "k < length (cache s)"
  shows "cache_ok (cache_touch_locked s k)" "map entry_content (cache (cache_touch_locked s k)) = map entry_content (cache s)"
    "Cache.more (cache_touch_locked s k) = Cache.more s"
proof -
  let ?e = "cache s ! k" and ?c = "cache_increment (cache_clock s)"
  let ?f = "?e\<lparr>last_access := ?c, frequency := cache_increment (frequency ?e)\<rparr>"
  have t: "cache (cache_touch_locked s k) = (cache s)[k := ?f]" by (simp add: cache_touch_locked_def Let_def)
  have c: "cache_counted s" using assms(1) by (simp add: cache_ok_def)
  have "entry_ok (cache_clock s) ?e" using c assms(2) by (simp add: cache_counted_def list_all_length)
  then have "entry_ok ?c ?f" using cache_increment_pos by (simp add: entry_ok_def)
  then have "list_all (entry_ok ?c) ((cache s)[k := ?f])"
    using c list_entry_ok_mono [OF _ cache_increment_ge] by (auto simp: cache_counted_def list_all_iff dest!: set_update_subset_insert [THEN subsetD])
  moreover have "map entry_key_of ((cache s)[k := ?f]) = map entry_key_of (cache s)" "map ce_size ((cache s)[k := ?f]) = map ce_size (cache s)"
    using assms(2) by (auto intro!: map_update_same)
  ultimately show "cache_ok (cache_touch_locked s k)" using assms(1) t
    by (simp add: cache_ok_def cache_counted_def) (simp add: cache_touch_locked_def Let_def)
  show "map entry_content (cache (cache_touch_locked s k)) = map entry_content (cache s)"
    unfolding t using assms(2) by (intro map_update_same) (simp_all add: entry_content_def)
  show "Cache.more (cache_touch_locked s k) = Cache.more s" by (simp add: cache_touch_locked_def Let_def)
qed

end
