(* ===== verification/Storage.thy ===== *)
theory Storage
  imports Storage_Cache
begin

text \<open>
  The store of documents on disk (\<^verbatim>\<open>storage.c\<close>): uploads are collected under \<open>pending\<close>, verified and then published by renaming
  their directory to \<open>objects\<close>; a manifest in each directory lets a new process find them again.

  \<open>disk\<close> is what is below the root: for \<open>objects\<close> (\<open>True\<close>) and \<open>pending\<close> (\<open>False\<close>) the directories by name, each with the contents
  of its manifest and the files of its chunks. Temporary files are not part of it: they are written, renamed or removed, and never read. A
  failed operation returns the disk that it leaves. The list of documents is in the order of the chain, the newest first; a pointer to a document
  is its position. Both mutexes make an operation one step. Every system call and allocation is a call site, numbered within its
  function in the order of the source.
\<close>

section \<open>Data\<close>

definition STORAGE_PATH_MAX :: nat where
  "STORAGE_PATH_MAX = 4096"

definition MANIFEST_MAGIC :: "byte list" where
  "MANIFEST_MAGIC = [0x50, 0x32, 0x50, 0x44, 0x4f, 0x43, 0x32, 0]"

definition MANIFEST_VERSION :: u32 where
  "MANIFEST_VERSION = 1"

definition STORAGE_DEFAULT_CACHE_BYTES :: nat where
  "STORAGE_DEFAULT_CACHE_BYTES = 16 * 1024 * 1024"

text \<open>\<open>sizeof(StoredChunk)\<close>, \<open>sizeof(MetadataChunk)\<close> is in \<open>Transfer_Format\<close>.\<close>

definition STORED_CHUNK_SLOT_SIZE :: nat where
  "STORED_CHUNK_SLOT_SIZE = 64"

datatype TransferState = TRANSFER_CREATED | TRANSFER_QUEUED | TRANSFER_STARTED | TRANSFER_TRANSFERRING | TRANSFER_VERIFYING
  | TRANSFER_FINISHED | TRANSFER_REPLICATED

primrec transfer_state_code :: "TransferState \<Rightarrow> byte" where
  "transfer_state_code TRANSFER_CREATED = 0"
| "transfer_state_code TRANSFER_QUEUED = 1"
| "transfer_state_code TRANSFER_STARTED = 2"
| "transfer_state_code TRANSFER_TRANSFERRING = 3"
| "transfer_state_code TRANSFER_VERIFYING = 4"
| "transfer_state_code TRANSFER_FINISHED = 5"
| "transfer_state_code TRANSFER_REPLICATED = 6"

definition transfer_state_of :: "byte \<Rightarrow> TransferState option" where
  "transfer_state_of b = find (\<lambda>s. transfer_state_code s = b) [TRANSFER_CREATED, TRANSFER_QUEUED, TRANSFER_STARTED, TRANSFER_TRANSFERRING,
     TRANSFER_VERIFYING, TRANSFER_FINISHED, TRANSFER_REPLICATED]"

record StoredDocument =
  sd_document :: TransferDocument
  sd_owner :: NodeID
  uploaded_at :: u64
  sd_state :: TransferState
  sd_chunks :: "StoredChunk list"

record Storage = Cache +
  storage_root :: "byte list"
  storage_owner :: NodeID
  documents :: "StoredDocument list"

record Dir =
  manifest :: "byte list option"
  chunk_files :: "(u64 \<times> byte list) list"

type_synonym disk = "bool \<Rightarrow> string \<Rightarrow> Dir option"

abbreviation document_id :: "StoredDocument \<Rightarrow> ObjectID" where
  "document_id st \<equiv> transfer_id (sd_document st)"

section \<open>Files and directories\<close>

fun write_all_fd :: "answer list \<Rightarrow> byte list \<Rightarrow> errno option \<times> byte list" where
  "write_all_fd as [] = (None, [])"
| "write_all_fd [] bytes = (None, bytes)"
| "write_all_fd (Ret n # as) bytes =
     (if n = 0 then (Some EIO, [])
      else let (r, written) = write_all_fd as (drop n bytes) in (r, take n bytes @ written))"
| "write_all_fd (Err e # as) bytes = (if e = EINTR then write_all_fd as bytes else (Some e, []))"

text \<open>What was read and what is left of the file.\<close>

fun read_all_fd :: "answer list \<Rightarrow> nat \<Rightarrow> byte list \<Rightarrow> (byte list \<times> byte list) result" where
  "read_all_fd as 0 rest = Inr ([], rest)"
| "read_all_fd [] (Suc k) rest = (if length rest < Suc k then Inl EBADMSG else Inr (take (Suc k) rest, drop (Suc k) rest))"
| "read_all_fd (Ret n # as) (Suc k) rest =
     (let amount = min n (min (Suc k) (length rest)) in
      if amount = 0 then Inl EBADMSG
      else case read_all_fd as (Suc k - amount) (drop amount rest) of
             Inl e \<Rightarrow> Inl e
           | Inr (got, rest') \<Rightarrow> Inr (take amount rest @ got, rest'))"
| "read_all_fd (Err e # as) (Suc k) rest = (if e = EINTR then read_all_fd as (Suc k) rest else Inl e)"

text \<open>Fields written or read one after the other, each by a call of its own.\<close>

fun write_fields :: "os \<Rightarrow> nat \<Rightarrow> byte list list \<Rightarrow> errno option \<times> byte list" where
  "write_fields os k [] = (None, [])"
| "write_fields os k (f # fs) =
     (case write_all_fd (at os k []) f of (Some e, w) \<Rightarrow> (Some e, w)
      | (None, w) \<Rightarrow> (let (r, ws) = write_fields os (Suc k) fs in (r, w @ ws)))"

fun read_fields :: "os \<Rightarrow> nat \<Rightarrow> nat list \<Rightarrow> byte list \<Rightarrow> (byte list list \<times> byte list) result" where
  "read_fields os k [] rest = Inr ([], rest)"
| "read_fields os k (n # ns) rest =
     (case read_all_fd (at os k []) n rest of Inl e \<Rightarrow> Inl e
      | Inr (f, rest) \<Rightarrow>
          (case read_fields os (Suc k) ns rest of Inl e \<Rightarrow> Inl e
           | Inr (fs, rest) \<Rightarrow> Inr (f # fs, rest)))"

text \<open>The directory of the path of \<open>n\<close> bytes: \<open>open\<close> (0) and \<open>fsync\<close> (1).\<close>

definition sync_parent :: "os \<Rightarrow> nat \<Rightarrow> errno option" where
  "sync_parent os n =
     (if STORAGE_PATH_MAX \<le> n then Some ENAMETOOLONG
      else case fault (at os 0) of Some e \<Rightarrow> Some e | None \<Rightarrow> fault (at os 1))"

text \<open>The answers to the \<open>mkdir\<close> calls for the \<open>n\<close> directories on a path; that one exists already is no error.\<close>

fun mkdir_all :: "answer list \<Rightarrow> nat \<Rightarrow> errno option" where
  "mkdir_all as 0 = None"
| "mkdir_all [] n = None"
| "mkdir_all (Ret _ # as) (Suc n) = mkdir_all as n"
| "mkdir_all (Err e # as) (Suc n) = (if e = EEXIST then mkdir_all as n else Some e)"

definition ensure_directory_tree :: "os \<Rightarrow> byte list \<Rightarrow> errno option" where
  "ensure_directory_tree os path =
     (if path = [] \<or> STORAGE_PATH_MAX \<le> length path then Some ENAMETOOLONG
      else mkdir_all (os []) (Suc (length (filter (\<lambda>b. b = 0x2f) (tl path)))))"

definition object_hex :: "ObjectID \<Rightarrow> string" where
  "object_hex i = (case object_id_to_hex i 65 of Inl _ \<Rightarrow> [] | Inr s \<Rightarrow> s)"

definition document_directory :: "'a Storage_scheme \<Rightarrow> ObjectID \<Rightarrow> bool \<Rightarrow> byte list result" where
  "document_directory s i final =
     (let path = storage_root s @ map of_char (''/'' @ (if final then ''objects'' else ''pending'') @ ''/'' @ object_hex i) in
      if STORAGE_PATH_MAX \<le> length path then Inl ENAMETOOLONG else Inr path)"

text \<open>The length of the path of a chunk, whose number is written with 20 digits.\<close>

definition chunk_path :: "'a Storage_scheme \<Rightarrow> ObjectID \<Rightarrow> bool \<Rightarrow> nat result" where
  "chunk_path s i final =
     (case document_directory s i final of Inl e \<Rightarrow> Inl e
      | Inr directory \<Rightarrow>
          let n = length directory + 7 + 20 + 4 in if STORAGE_PATH_MAX \<le> n then Inl ENAMETOOLONG else Inr n)"

definition find_document :: "'a Storage_scheme \<Rightarrow> ObjectID \<Rightarrow> nat option" where
  "find_document s i = find_index (\<lambda>st. document_id st = i) (documents s)"

text \<open>Changes of the disk: a directory that is there afterwards, new contents, and the renaming of a directory, which
  must exist and whose new name must be free or that of an empty directory.\<close>

definition enter_directory :: "disk \<Rightarrow> bool \<Rightarrow> string \<Rightarrow> disk" where
  "enter_directory disk final name =
     disk(final := (disk final)(name \<mapsto> (case disk final name of None \<Rightarrow> \<lparr>manifest = None, chunk_files = []\<rparr> | Some d \<Rightarrow> d)))"

definition change_directory :: "disk \<Rightarrow> bool \<Rightarrow> string \<Rightarrow> (Dir \<Rightarrow> Dir) \<Rightarrow> disk" where
  "change_directory disk final name f = disk(final := (disk final)(name := map_option f (disk final name)))"

definition rename_directory :: "os \<Rightarrow> disk \<Rightarrow> string \<Rightarrow> bool \<Rightarrow> errno option \<times> disk" where
  "rename_directory os disk name final =
     (case disk (\<not> final) name of None \<Rightarrow> (Some ENOENT, disk)
      | Some d \<Rightarrow>
          if (case disk final name of None \<Rightarrow> False | Some t \<Rightarrow> manifest t \<noteq> None \<or> chunk_files t \<noteq> []) then (Some EEXIST, disk)
          else case fault os of Some e \<Rightarrow> (Some e, disk)
          | None \<Rightarrow> (None, disk(final := (disk final)(name \<mapsto> d), (\<not> final) := (disk (\<not> final))(name := None))))"

definition chunk_file :: "disk \<Rightarrow> bool \<Rightarrow> ObjectID \<Rightarrow> u64 \<Rightarrow> byte list option" where
  "chunk_file disk final i index = (case disk final (object_hex i) of None \<Rightarrow> None | Some d \<Rightarrow> map_of (chunk_files d) index)"

section \<open>Manifests\<close>

definition chunk_fields :: "StoredChunk \<Rightarrow> byte list list" where
  "chunk_fields c = [wire_put_u64 (sc_index c), wire_put_u64 (sc_offset c), wire_put_u32 (sc_raw_size c), wire_put_u32 (sc_compressed_size c), sc_hash c,
     [if present c then 1 else 0]]"

definition manifest_fields :: "StoredDocument \<Rightarrow> byte list list" where
  "manifest_fields st =
     (let d = sd_document st; name = cstr (transfer_name d);
          state = (if sd_state st = TRANSFER_VERIFYING then TRANSFER_FINISHED else sd_state st) in
      [MANIFEST_MAGIC, wire_put_u32 MANIFEST_VERSION, transfer_id d, wire_put_u64 (file_size d), wire_put_u64 (transfer_chunk_count d), [compression d],
       wire_put_u16 (of_nat (length name)), name, sd_owner st, wire_put_u64 (uploaded_at st), [transfer_state_code state]] @
      concat (map chunk_fields (take (unat (transfer_chunk_count d)) (sd_chunks st))))"

text \<open>
  The call sites are the directories (0), \<open>open\<close> (1), the fields (2), \<open>fsync\<close> (3), \<open>close\<close> (4), \<open>rename\<close> (5) and the
  synchronisation of the directory (6). When only the last fails, the new manifest is in place all the same.
\<close>

definition write_manifest :: "storage_lib \<Rightarrow> os \<Rightarrow> 'a Storage_scheme \<Rightarrow> disk \<Rightarrow> StoredDocument \<Rightarrow> bool \<Rightarrow> errno option \<times> disk" where
  "write_manifest lib os s disk st final =
     (case document_directory s (document_id st) final of Inl e \<Rightarrow> (Some e, disk)
      | Inr directory \<Rightarrow>
          (case ensure_directory_tree (at os 0) directory of Some e \<Rightarrow> (Some e, disk)
           | None \<Rightarrow>
               let disk = enter_directory disk final (object_hex (document_id st)) in
               if STORAGE_PATH_MAX \<le> length directory + 13 \<or> STORAGE_PATH_MAX \<le> length directory + 14 + length (pid_text lib)
               then (Some ENAMETOOLONG, disk)
               else case fault (at os 1) of Some e \<Rightarrow> (Some e, disk)
               | None \<Rightarrow>
                   (let (r, bytes) = write_fields (at os 2) 0 (manifest_fields st);
                        r = (if r = None then fault (at os 3) else r);
                        r = (if r = None then fault (at os 4) else r);
                        r = (if r = None then fault (at os 5) else r) in
                    case r of Some e \<Rightarrow> (Some e, disk)
                    | None \<Rightarrow> (sync_parent (at os 6) (length directory + 13),
                        change_directory disk final (object_hex (document_id st)) (\<lambda>d. d\<lparr>manifest := Some bytes\<rparr>)))))"

section \<open>Verification\<close>

text \<open>
  The chunks from number \<open>k\<close> on: their contents one after the other. The call sites of a chunk are \<open>malloc\<close> (0), \<open>open\<close> (1),
  \<open>read\<close> (2), \<open>close\<close> (3), the decompression (4) and \<open>EVP_DigestUpdate\<close> (5).
\<close>

fun verify_chunks :: "storage_lib \<Rightarrow> os \<Rightarrow> 'a Storage_scheme \<Rightarrow> disk \<Rightarrow> ObjectID \<Rightarrow> bool \<Rightarrow> nat \<Rightarrow> StoredChunk list \<Rightarrow> byte list result" where
  "verify_chunks lib os s disk i final k [] = Inr []"
| "verify_chunks lib os s disk i final k (c # cs) =
     (let os' = at os k in
      if \<not> present c \<or> isl (chunk_path s i final) then Inl ENODATA
      else case fault (at os' 0) of Some e \<Rightarrow> Inl e
      | None \<Rightarrow>
          (case fault (at os' 1) of Some e \<Rightarrow> Inl e
           | None \<Rightarrow>
               (case chunk_file disk final i (of_nat k) of None \<Rightarrow> Inl ENOENT
                | Some bytes \<Rightarrow>
                    (case read_all_fd (at os' 2 []) (unat (sc_compressed_size c)) bytes of Inl e \<Rightarrow> Inl e
                     | Inr (compressed, _) \<Rightarrow>
                         (case fault (at os' 3) of Some e \<Rightarrow> Inl e
                          | None \<Rightarrow>
                              (case compression_lz4_decompress lib (at os' 4) compressed (unat (sc_raw_size c)) of Inl _ \<Rightarrow> Inl EBADMSG
                               | Inr raw \<Rightarrow>
                                   if content_sha256 lib raw \<noteq> Inr (sc_hash c) \<or> fault (at os' 5) \<noteq> None then Inl EBADMSG
                                   else case verify_chunks lib os s disk i final (Suc k) cs of Inl e \<Rightarrow> Inl e
                                   | Inr raws \<Rightarrow> Inr (raw @ raws)))))))"

text \<open>The call sites are \<open>EVP_MD_CTX_new\<close> (0), \<open>EVP_DigestInit_ex\<close> (1), the chunks (2) and \<open>EVP_DigestFinal_ex\<close> (3). The digest that EVP computes over
  all updates is SHA-256 of their concatenation.\<close>

definition verify_document :: "storage_lib \<Rightarrow> os \<Rightarrow> 'a Storage_scheme \<Rightarrow> disk \<Rightarrow> StoredDocument \<Rightarrow> bool \<Rightarrow> errno option" where
  "verify_document lib os s disk st final =
     (let d = sd_document st in
      case fault (at os 0) of Some e \<Rightarrow> Some e
      | None \<Rightarrow>
          if fault (at os 1) \<noteq> None then Some EIO
          else case verify_chunks lib (at os 2) s disk (transfer_id d) final 0 (take (unat (transfer_chunk_count d)) (sd_chunks st)) of
            Inl e \<Rightarrow> Some e
          | Inr content \<Rightarrow>
              if fault (at os 3) \<noteq> None \<or> of_nat (length content) \<noteq> file_size d \<or> sha256 lib content \<noteq> Some (transfer_id d) then Some EBADMSG
              else None)"

section \<open>Reading a manifest\<close>

definition expected_chunk_size :: "u64 \<Rightarrow> u64 \<Rightarrow> u32" where
  "expected_chunk_size n index =
     (let remaining = n - index * METADATA_CHUNK_SIZE in ucast (if METADATA_CHUNK_SIZE < remaining then METADATA_CHUNK_SIZE else remaining))"

text \<open>A present chunk has the place and size that its number asks for, and its file has the recorded size (\<open>stat\<close> is the call site).\<close>

definition chunk_record_ok :: "storage_lib \<Rightarrow> os \<Rightarrow> 'a Storage_scheme \<Rightarrow> disk \<Rightarrow> TransferDocument \<Rightarrow> bool \<Rightarrow> u64 \<Rightarrow> StoredChunk \<Rightarrow> bool" where
  "chunk_record_ok lib os s disk d final index c =
     (if present c then
        sc_index c = index \<and> sc_offset c = index * METADATA_CHUNK_SIZE \<and> sc_raw_size c = expected_chunk_size (file_size d) index \<and>
        (case compression_lz4_bound lib (unat (sc_raw_size c)) of Inl _ \<Rightarrow> False
         | Inr bound \<Rightarrow> sc_compressed_size c \<noteq> 0 \<and> unat (sc_compressed_size c) \<le> bound) \<and>
        \<not> isl (chunk_path s (transfer_id d) final) \<and> fault os = None \<and>
        (case chunk_file disk final (transfer_id d) index of None \<Rightarrow> False | Some bytes \<Rightarrow> length bytes = unat (sc_compressed_size c))
      else sc_index c = 0 \<and> sc_offset c = 0 \<and> sc_raw_size c = 0 \<and> sc_compressed_size c = 0)"

text \<open>\<open>n\<close> chunks from number \<open>k\<close> on; chunk \<open>k\<close> has the call sites \<open>2 * k\<close> for its fields and \<open>2 * k + 1\<close> for \<open>stat\<close>.\<close>

fun read_chunks ::
  "storage_lib \<Rightarrow> os \<Rightarrow> 'a Storage_scheme \<Rightarrow> disk \<Rightarrow> TransferDocument \<Rightarrow> bool \<Rightarrow> nat \<Rightarrow> nat \<Rightarrow> byte list \<Rightarrow> (StoredChunk list \<times> byte list) result" where
  "read_chunks lib os s disk d final k 0 rest = Inr ([], rest)"
| "read_chunks lib os s disk d final k (Suc n) rest =
     (case read_fields (at os (2 * k)) 0 [8, 8, 4, 4, OBJECT_ID_SIZE, 1] rest of Inl e \<Rightarrow> Inl e
      | Inr (f, rest) \<Rightarrow>
          let c = \<lparr>sc_index = wire_get_u64 (f ! 0), sc_offset = wire_get_u64 (f ! 1), sc_raw_size = wire_get_u32 (f ! 2),
                sc_compressed_size = wire_get_u32 (f ! 3), sc_hash = f ! 4, present = f ! 5 \<noteq> [0]\<rparr> in
          if f ! 5 \<notin> {[0], [1]} \<or> final \<and> \<not> present c \<or> \<not> chunk_record_ok lib (at os (2 * k + 1)) s disk d final (of_nat k) c then Inl EBADMSG
          else case read_chunks lib os s disk d final (Suc k) n rest of Inl e \<Rightarrow> Inl e
          | Inr (cs, rest) \<Rightarrow> Inr (c # cs, rest))"

text \<open>The part of the manifest before the chunks: identifier, sizes, name, owner, time and state.\<close>

definition read_manifest_header :: "os \<Rightarrow> bool \<Rightarrow> byte list \<Rightarrow> (StoredDocument \<times> byte list) result" where
  "read_manifest_header os final bytes =
     (case read_fields (at os 0) 0 [8, 4, OBJECT_ID_SIZE, 8] bytes of Inl _ \<Rightarrow> Inl EBADMSG
      | Inr (a, bytes) \<Rightarrow>
          if a ! 0 \<noteq> MANIFEST_MAGIC \<or> wire_get_u32 (a ! 1) \<noteq> MANIFEST_VERSION then Inl EBADMSG
          else case read_fields (at os 1) 0 [8] bytes of Inl e \<Rightarrow> Inl e
          | Inr (b, bytes) \<Rightarrow>
              let n = wire_get_u64 (a ! 3); count = wire_get_u64 (b ! 0) in
              if count \<noteq> chunks_of_size n \<or> SIZE_MAX div STORED_CHUNK_SLOT_SIZE < unat count then Inl EBADMSG
              else case read_fields (at os 2) 0 [1, 2] bytes of Inl _ \<Rightarrow> Inl EBADMSG
              | Inr (c, bytes) \<Rightarrow>
                  let name_size = unat (wire_get_u16 (c ! 1)) in
                  if c ! 0 \<noteq> [COMPRESSION_LZ4] \<or> name_size = 0 \<or> METADATA_NAME_SIZE \<le> name_size then Inl EBADMSG
                  else case read_fields (at os 3) 0 [name_size] bytes of Inl _ \<Rightarrow> Inl EBADMSG
                  | Inr (name, bytes) \<Rightarrow>
                      if 0 \<in> set (name ! 0) \<or> 0x2f \<in> set (name ! 0) then Inl EBADMSG
                      else case read_fields (at os 4) 0 [NODE_ID_SIZE, 8] bytes of Inl e \<Rightarrow> Inl e
                      | Inr (owner, bytes) \<Rightarrow>
                          (case read_fields (at os 5) 0 [1] bytes of Inl _ \<Rightarrow> Inl EBADMSG
                           | Inr (f, bytes) \<Rightarrow>
                               (case transfer_state_of (f ! 0 ! 0) of None \<Rightarrow> Inl EBADMSG
                                | Some state \<Rightarrow>
                                    if final \<and> state \<noteq> TRANSFER_FINISHED \<and> state \<noteq> TRANSFER_VERIFYING \<or> \<not> final \<and> state = TRANSFER_FINISHED
                                    then Inl EBADMSG
                                    else Inr (\<lparr>sd_document = \<lparr>transfer_id = a ! 2, transfer_name = zero_padded METADATA_NAME_SIZE (name ! 0), file_size = n,
                                          transfer_chunk_count = count, compression = COMPRESSION_LZ4\<rparr>, sd_owner = owner ! 0,
                                        uploaded_at = wire_get_u64 (owner ! 1), sd_state = state, sd_chunks = []\<rparr>, bytes))))"

text \<open>
  The call sites are \<open>open\<close> (0), the allocations (1), the header (2), the array of chunks (3), the chunks (4), the read behind the
  last (5), the verification (6) and \<open>close\<close> (7).
\<close>

definition read_manifest :: "storage_lib \<Rightarrow> os \<Rightarrow> 'a Storage_scheme \<Rightarrow> disk \<Rightarrow> bool \<Rightarrow> string \<Rightarrow> StoredDocument result" where
  "read_manifest lib os s disk final name =
     (case fault (at os 0) of Some e \<Rightarrow> Inl e
      | None \<Rightarrow>
          (case Option.bind (disk final name) manifest of None \<Rightarrow> Inl ENOENT
           | Some bytes \<Rightarrow>
               (case fault (at os 1) of Some e \<Rightarrow> Inl e
                | None \<Rightarrow>
                    (case read_manifest_header (at os 2) final bytes of Inl e \<Rightarrow> Inl e
                     | Inr (st, bytes) \<Rightarrow>
                         let n = unat (transfer_chunk_count (sd_document st)) in
                         (case (if n \<noteq> 0 then fault (at os 3) else None) of Some e \<Rightarrow> Inl e
                          | None \<Rightarrow>
                              (case read_chunks lib (at os 4) s disk (sd_document st) final 0 n bytes of Inl e \<Rightarrow> Inl e
                               | Inr (cs, bytes) \<Rightarrow>
                                   let st = st\<lparr>sd_chunks := cs\<rparr> in
                                   (case fault (at os 5) of Some e \<Rightarrow> Inl e
                                    | None \<Rightarrow>
                                        if bytes \<noteq> [] then Inl EBADMSG
                                        else case (if final then verify_document lib (at os 6) s disk st True else None) of Some e \<Rightarrow> Inl e
                                        | None \<Rightarrow> (case fault (at os 7) of Some e \<Rightarrow> Inl e | None \<Rightarrow> Inr st))))))))"

section \<open>Opening the store\<close>

text \<open>
  One turn of the loop over the names that \<open>readdir\<close> returns. A directory that cannot be read or is not that of its document is passed
  over. The call sites are reading its manifest (0) and writing it (1).
\<close>

definition load_entry :: "storage_lib \<Rightarrow> os \<Rightarrow> bool \<Rightarrow> string \<Rightarrow> Storage \<Rightarrow> disk \<Rightarrow> errno option \<times> Storage \<times> disk" where
  "load_entry lib os final name s disk =
     (if name = [] \<or> hd name = CHR ''.'' \<or> STORAGE_PATH_MAX \<le> length (storage_root s) + 8 + 1 + length name + 13 then (None, s, disk)
      else case read_manifest lib (at os 0) s disk final name of Inl _ \<Rightarrow> (None, s, disk)
      | Inr st \<Rightarrow>
          if object_hex (document_id st) \<noteq> name \<or> find_document s (document_id st) \<noteq> None then (None, s, disk)
          else if \<not> final then (None, s\<lparr>documents := st # documents s\<rparr>, disk)
          else
            let recover = (sd_state st = TRANSFER_VERIFYING);
                st = st\<lparr>sd_state := TRANSFER_FINISHED\<rparr>;
                (r, disk) = (if recover then write_manifest lib (at os 1) s disk st True else (None, disk)) in
            (r, if r = None then s\<lparr>documents := st # documents s\<rparr> else s, disk))"

fun load_names :: "storage_lib \<Rightarrow> os \<Rightarrow> bool \<Rightarrow> nat \<Rightarrow> string list \<Rightarrow> Storage \<Rightarrow> disk \<Rightarrow> errno option \<times> Storage \<times> disk" where
  "load_names lib os final k [] s disk = (None, s, disk)"
| "load_names lib os final k (name # names) s disk =
     (case load_entry lib (at os k) final name s disk of
        (Some e, s, disk) \<Rightarrow> (Some e, s, disk)
      | (None, s, disk) \<Rightarrow> load_names lib os final (Suc k) names s disk)"

text \<open>\<open>opendir\<close> (0), the names (1), \<open>closedir\<close> (2); \<open>names\<close> is what \<open>readdir\<close> returns.\<close>

definition load_documents :: "storage_lib \<Rightarrow> os \<Rightarrow> bool \<Rightarrow> string list \<Rightarrow> Storage \<Rightarrow> disk \<Rightarrow> errno option \<times> Storage \<times> disk" where
  "load_documents lib os final names s disk =
     (if STORAGE_PATH_MAX \<le> length (storage_root s) + 8 then (Some ENAMETOOLONG, s, disk)
      else case fault (at os 0) of Some e \<Rightarrow> (Some e, s, disk)
      | None \<Rightarrow>
          (case load_names lib (at os 1) final 0 names s disk of
             (Some e, s, disk) \<Rightarrow> (Some e, s, disk)
           | (None, s, disk) \<Rightarrow> (fault (at os 2), s, disk)))"

text \<open>
  The call sites are \<open>calloc\<close> (0), the three directories (1, 2, 3), the mutex (4), and loading \<open>objects\<close> (5) and \<open>pending\<close> (6), with the
  names that each lists. \<open>snprintf\<close> cuts a path off where the array ends.
\<close>

definition storage_create :: "storage_lib \<Rightarrow> os \<Rightarrow> byte list \<Rightarrow> NodeID \<Rightarrow> (bool \<Rightarrow> string list) \<Rightarrow> disk \<Rightarrow> Storage result \<times> disk" where
  "storage_create lib os root owner names disk =
     (if STORAGE_PATH_MAX \<le> length root then (Inl EINVAL, disk)
      else
        let below = (\<lambda>name. take (STORAGE_PATH_MAX - 1) (root @ map of_char name));
            r = fault (at os 0);
            r = (if r = None then ensure_directory_tree (at os 1) root else r);
            r = (if r = None then ensure_directory_tree (at os 2) (below ''/pending'') else r);
            r = (if r = None then ensure_directory_tree (at os 3) (below ''/objects'') else r);
            r = (if r = None then fault (at os 4) else r);
            s = \<lparr>cache = [], cache_stats = \<lparr>capacity_bytes = STORAGE_DEFAULT_CACHE_BYTES, used_bytes = 0, entries_count = 0, hits = 0, misses = 0,
                evictions = 0\<rparr>, cache_clock = 0, storage_root = root, storage_owner = owner, documents = []\<rparr> in
        case r of Some e \<Rightarrow> (Inl e, disk)
        | None \<Rightarrow>
            (case load_documents lib (at os 5) True (names True) s disk of (Some e, s, disk) \<Rightarrow> (Inl e, disk)
             | (None, s, disk) \<Rightarrow>
                 (case load_documents lib (at os 6) False (names False) s disk of (Some e, s, disk) \<Rightarrow> (Inl e, disk)
                  | (None, s, disk) \<Rightarrow> (Inr s, disk))))"

section \<open>Operations\<close>

text \<open>
  The call sites are the mutex (0), the allocations (1, 2, 3), the directory (4) and the manifest (5). The clock is \<open>now\<close>. When
  the manifest cannot be written the document is taken back from memory; the directory and, where only its synchronisation
  failed, the manifest stay on disk.
\<close>

definition storage_begin ::
  "storage_lib \<Rightarrow> os \<Rightarrow> u64 \<Rightarrow> 'a Storage_scheme \<Rightarrow> disk \<Rightarrow> TransferDocument \<Rightarrow> errno option \<times> 'a Storage_scheme \<times> disk" where
  "storage_begin lib os now s disk d =
     (if \<not> content_pdf_name (cstr (transfer_name d)) \<or> compression d \<noteq> COMPRESSION_LZ4 \<or> transfer_chunk_count d = 0 \<or>
         SIZE_MAX div STORED_CHUNK_SLOT_SIZE < unat (transfer_chunk_count d)
      then (Some EINVAL, s, disk)
      else case fault (at os 0) of Some e \<Rightarrow> (Some e, s, disk)
      | None \<Rightarrow>
          (case find_document s (transfer_id d) of
             Some k \<Rightarrow>
               let old = sd_document (documents s ! k) in
               (if file_size old = file_size d \<and> transfer_chunk_count old = transfer_chunk_count d then None else Some EEXIST, s, disk)
           | None \<Rightarrow>
               let st = \<lparr>sd_document = d, sd_owner = storage_owner s, uploaded_at = now, sd_state = TRANSFER_CREATED,
                     sd_chunks = replicate (unat (transfer_chunk_count d)) \<lparr>sc_index = 0, sc_offset = 0, sc_raw_size = 0, sc_compressed_size = 0,
                       sc_hash = replicate OBJECT_ID_SIZE 0, present = False\<rparr>\<rparr>;
                   r = fault (at os 1);
                   r = (if r = None then fault (at os 2) else r);
                   r = (if r = None then fault (at os 3) else r) in
               case r of Some e \<Rightarrow> (Some e, s, disk)
               | None \<Rightarrow>
                   (case document_directory s (transfer_id d) False of Inl e \<Rightarrow> (Some e, s, disk)
                    | Inr directory \<Rightarrow>
                        (case ensure_directory_tree (at os 4) directory of Some e \<Rightarrow> (Some e, s, disk)
                         | None \<Rightarrow>
                             (case write_manifest lib (at os 5) s (enter_directory disk False (object_hex (transfer_id d))) st False of
                                (Some e, disk) \<Rightarrow> (Some e, s, disk)
                              | (None, disk) \<Rightarrow> (None, s\<lparr>documents := st # documents s\<rparr>, disk))))))"

text \<open>A chunk that decompresses to contents with its hash.\<close>

definition chunk_genuine :: "storage_lib \<Rightarrow> os \<Rightarrow> TransferChunk \<Rightarrow> bool" where
  "chunk_genuine lib os c =
     (case compression_lz4_bound lib (unat (tc_raw_size c)) of Inl _ \<Rightarrow> False
      | Inr bound \<Rightarrow>
          if bound < unat (tc_compressed_size c) then False
          else case compression_lz4_decompress lib os (take (unat (tc_compressed_size c)) (tc_data c)) (unat (tc_raw_size c)) of Inl _ \<Rightarrow> False
          | Inr raw \<Rightarrow> content_sha256 lib raw = Inr (tc_hash c))"

definition same_chunk :: "StoredChunk \<Rightarrow> TransferChunk \<Rightarrow> bool" where
  "same_chunk r c \<longleftrightarrow> present r \<and> sc_raw_size r = tc_raw_size c \<and> sc_compressed_size r = tc_compressed_size c \<and> sc_hash r = tc_hash c"

text \<open>The file of the chunk: \<open>open\<close> (0), \<open>write\<close> (1), \<open>fsync\<close> (2), \<open>close\<close> (3), \<open>rename\<close> (4).\<close>

definition write_chunk_file :: "os \<Rightarrow> disk \<Rightarrow> TransferChunk \<Rightarrow> errno option \<times> disk" where
  "write_chunk_file os disk c =
     (case disk False (object_hex (tc_id c)) of None \<Rightarrow> (Some ENOENT, disk)
      | Some _ \<Rightarrow>
          (case fault (at os 0) of Some e \<Rightarrow> (Some e, disk)
           | None \<Rightarrow>
               (let (r, bytes) = write_all_fd (at os 1 []) (take (unat (tc_compressed_size c)) (tc_data c));
                    r = (if r = None then fault (at os 2) else r);
                    r = (if r = None then fault (at os 3) else r);
                    r = (if r = None then fault (at os 4) else r) in
                case r of Some e \<Rightarrow> (Some e, disk)
                | None \<Rightarrow> (None, change_directory disk False (object_hex (tc_id c))
                    (\<lambda>d. d\<lparr>chunk_files := (tc_index c, bytes) # filter (\<lambda>f. fst f \<noteq> tc_index c) (chunk_files d)\<rparr>)))))"

definition record_of_chunk :: "TransferChunk \<Rightarrow> StoredChunk" where
  "record_of_chunk c = \<lparr>sc_index = tc_index c, sc_offset = tc_offset c, sc_raw_size = tc_raw_size c, sc_compressed_size = tc_compressed_size c,
     sc_hash = tc_hash c, present = True\<rparr>"

text \<open>
  Writing the file, whose path has \<open>n\<close> bytes, and recording the chunk in the document at position \<open>k\<close>. When the synchronisation of the directory or the
  manifest fails, the record in memory is restored; the file stays.
\<close>

definition store_chunk ::
  "storage_lib \<Rightarrow> os \<Rightarrow> 'a Storage_scheme \<Rightarrow> disk \<Rightarrow> nat \<Rightarrow> TransferChunk \<Rightarrow> nat \<Rightarrow> errno option \<times> 'a Storage_scheme \<times> disk" where
  "store_chunk lib os s disk k c n =
     (case write_chunk_file (at os 3) disk c of (Some e, disk) \<Rightarrow> (Some e, s, disk)
      | (None, disk) \<Rightarrow>
          let st = documents s ! k;
              st' = st\<lparr>sd_chunks := (sd_chunks st)[unat (tc_index c) := record_of_chunk c], sd_state := TRANSFER_TRANSFERRING\<rparr>;
              s' = s\<lparr>documents := (documents s)[k := st']\<rparr> in
          case sync_parent (at os 4) n of Some e \<Rightarrow> (Some e, s, disk)
          | None \<Rightarrow>
              (case write_manifest lib (at os 5) s' disk st' False of
                 (Some e, disk) \<Rightarrow> (Some e, s, disk)
               | (None, disk) \<Rightarrow> (None, s', disk)))"

text \<open>
  The call sites are the decompression (0), the mutexes (1, 2), the file (3), the synchronisation of its directory (4) and the manifest (5).
\<close>

definition storage_put_chunk ::
  "storage_lib \<Rightarrow> os \<Rightarrow> 'a Storage_scheme \<Rightarrow> disk \<Rightarrow> TransferChunk \<Rightarrow> errno option \<times> 'a Storage_scheme \<times> disk" where
  "storage_put_chunk lib os s disk c =
     (if \<not> chunk_genuine lib (at os 0) c then (Some EBADMSG, s, disk)
      else case fault (at os 1) of Some e \<Rightarrow> (Some e, s, disk)
      | None \<Rightarrow>
          (case find_document s (tc_id c) of None \<Rightarrow> (Some ENOENT, s, disk)
           | Some k \<Rightarrow>
               let st = documents s ! k; d = sd_document st in
               if transfer_chunk_count d \<le> tc_index c \<or> - 1 div METADATA_CHUNK_SIZE < tc_index c then (Some EINVAL, s, disk)
               else case fault (at os 2) of Some e \<Rightarrow> (Some e, s, disk)
               | None \<Rightarrow>
                   let r = sd_chunks st ! unat (tc_index c) in
                   if tc_offset c \<noteq> tc_index c * METADATA_CHUNK_SIZE \<or> tc_raw_size c \<noteq> expected_chunk_size (file_size d) (tc_index c)
                   then (Some EINVAL, s, disk)
                   else if sd_state st = TRANSFER_FINISHED \<or> present r then (if same_chunk r c then None else Some EEXIST, s, disk)
                   else case chunk_path s (tc_id c) False of Inl e \<Rightarrow> (Some e, s, disk)
                   | Inr n \<Rightarrow>
                       if STORAGE_PATH_MAX \<le> n + 5 + length (pid_text lib) then (Some ENAMETOOLONG, s, disk)
                       else store_chunk lib os s disk k c n))"

text \<open>
  Publishing the verified document at position \<open>k\<close>: the manifest is written to \<open>pending\<close> and the directory renamed. When the rename cannot be
  made durable it is undone.
\<close>

definition publish_document ::
  "storage_lib \<Rightarrow> os \<Rightarrow> 'a Storage_scheme \<Rightarrow> disk \<Rightarrow> ObjectID \<Rightarrow> nat \<Rightarrow> nat \<Rightarrow> nat \<Rightarrow> TransferDocument result \<times> 'a Storage_scheme \<times> disk" where
  "publish_document lib os s disk i k pending_length final_length =
     (let st = documents s ! k in
      case write_manifest lib (at os 3) s disk st False of (Some e, disk) \<Rightarrow> (Inl e, s, disk)
      | (None, disk) \<Rightarrow>
          (case rename_directory (at os 4) disk (object_hex i) True of (Some e, disk) \<Rightarrow> (Inl e, s, disk)
           | (None, disk) \<Rightarrow>
               let r = sync_parent (at os 5) pending_length;
                   r = (if r = None then sync_parent (at os 6) final_length else r) in
               case r of Some e \<Rightarrow> (Inl e, s, snd (rename_directory (at os 7) disk (object_hex i) False))
               | None \<Rightarrow> (Inr (sd_document st), s\<lparr>documents := (documents s)[k := st\<lparr>sd_state := TRANSFER_FINISHED\<rparr>]\<rparr>, disk)))"

text \<open>
  The call sites are the mutexes (0, 1), the verification (2), the manifest (3), \<open>rename\<close> (4), the synchronisation of both directories
  (5, 6), and \<open>rename\<close> back (7). A document that failed stays in the state \<open>TRANSFER_VERIFYING\<close>.
\<close>

definition storage_commit ::
  "storage_lib \<Rightarrow> os \<Rightarrow> 'a Storage_scheme \<Rightarrow> disk \<Rightarrow> ObjectID \<Rightarrow> TransferDocument result \<times> 'a Storage_scheme \<times> disk" where
  "storage_commit lib os s disk i =
     (case fault (at os 0) of Some e \<Rightarrow> (Inl e, s, disk)
      | None \<Rightarrow>
          (case find_document s i of None \<Rightarrow> (Inl ENOENT, s, disk)
           | Some k \<Rightarrow>
               (case fault (at os 1) of Some e \<Rightarrow> (Inl e, s, disk)
                | None \<Rightarrow>
                    let st = documents s ! k; d = sd_document st in
                    if sd_state st = TRANSFER_FINISHED then (Inr d, s, disk)
                    else if \<not> list_all present (take (unat (transfer_chunk_count d)) (sd_chunks st)) then (Inl ENODATA, s, disk)
                    else
                      let st = st\<lparr>sd_state := TRANSFER_VERIFYING\<rparr>; s = s\<lparr>documents := (documents s)[k := st]\<rparr> in
                      case verify_document lib (at os 2) s disk st False of Some e \<Rightarrow> (Inl e, s, disk)
                      | None \<Rightarrow>
                          (case document_directory s i False of Inl e \<Rightarrow> (Inl e, s, disk)
                           | Inr pending \<Rightarrow>
                               (case document_directory s i True of Inl e \<Rightarrow> (Inl e, s, disk)
                                | Inr final \<Rightarrow> publish_document lib os s disk i k (length pending) (length final))))))"

text \<open>The loop of \<open>storage_find\<close> with the document found so far.\<close>

fun find_finished :: "(StoredDocument \<Rightarrow> bool) \<Rightarrow> StoredDocument option \<Rightarrow> StoredDocument list \<Rightarrow> TransferDocument result" where
  "find_finished matches found [] = (case found of None \<Rightarrow> Inl ENOENT | Some st \<Rightarrow> Inr (sd_document st))"
| "find_finished matches found (st # sts) =
     (if matches st \<and> sd_state st = TRANSFER_FINISHED then
        if (case found of None \<Rightarrow> False | Some f \<Rightarrow> document_id f \<noteq> document_id st) then Inl ENOTUNIQ
        else find_finished matches (Some st) sts
      else find_finished matches found sts)"

definition storage_find :: "os \<Rightarrow> 'a Storage_scheme \<Rightarrow> TransferSelectorType \<Rightarrow> ObjectID \<Rightarrow> byte list \<Rightarrow> TransferDocument result" where
  "storage_find os s type i name =
     (case fault (at os 0) of Some e \<Rightarrow> Inl e
      | None \<Rightarrow>
          find_finished (\<lambda>st. if type = TRANSFER_SELECTOR_OBJECT_ID then document_id st = i
            else cstr (transfer_name (sd_document st)) = cstr name) None (documents s))"

definition chunk_of_record :: "ObjectID \<Rightarrow> StoredChunk \<Rightarrow> byte list \<Rightarrow> TransferChunk" where
  "chunk_of_record i r bytes = \<lparr>tc_id = i, tc_index = sc_index r, tc_offset = sc_offset r, tc_raw_size = sc_raw_size r,
     tc_compressed_size = sc_compressed_size r, tc_hash = sc_hash r, tc_data = bytes\<rparr>"

text \<open>A chunk that is not cached: it is read from disk and, when the mutex can be taken again, stored in the cache.\<close>

definition read_uncached ::
  "os \<Rightarrow> 'a Storage_scheme \<Rightarrow> disk \<Rightarrow> ObjectID \<Rightarrow> u64 \<Rightarrow> StoredChunk \<Rightarrow> (TransferChunk \<times> bool \<times> u64) result \<times> 'a Storage_scheme" where
  "read_uncached os s disk i index r =
     (case chunk_path s i True of Inl e \<Rightarrow> (Inl e, s)
      | Inr _ \<Rightarrow>
          (case fault (at os 2) of Some e \<Rightarrow> (Inl e, s)
           | None \<Rightarrow>
               (case fault (at os 3) of Some e \<Rightarrow> (Inl e, s)
                | None \<Rightarrow>
                    (case chunk_file disk True i index of None \<Rightarrow> (Inl ENOENT, s)
                     | Some bytes \<Rightarrow>
                         (case read_all_fd (at os 4 []) (unat (sc_compressed_size r)) bytes of Inl e \<Rightarrow> (Inl e, s)
                          | Inr (got, _) \<Rightarrow>
                              (case fault (at os 5) of Some e \<Rightarrow> (Inl e, s)
                               | None \<Rightarrow>
                                   let s = (if fault (at os 6) = None then cache_store_locked (at os 7) s i r got else s);
                                       f = (if fault (at os 6) \<noteq> None then 0
                                            else case cache_find_locked s i index of None \<Rightarrow> 0 | Some j \<Rightarrow> frequency (cache s ! j)) in
                                   (Inr (chunk_of_record i r got, False, f), s)))))))"

text \<open>
  The chunk, whether it came from the cache, and the frequency of its entry. The call sites are the mutex (0), the copy of a cached
  chunk (1), and for one that is not cached \<open>malloc\<close> (2), \<open>open\<close> (3), \<open>read\<close> (4), \<open>close\<close> (5), the mutex (6) and storing it (7).
\<close>

definition storage_read_chunk_internal ::
  "os \<Rightarrow> 'a Storage_scheme \<Rightarrow> disk \<Rightarrow> ObjectID \<Rightarrow> u64 \<Rightarrow> (TransferChunk \<times> bool \<times> u64) result \<times> 'a Storage_scheme" where
  "storage_read_chunk_internal os s disk i index =
     (case fault (at os 0) of Some e \<Rightarrow> (Inl e, s)
      | None \<Rightarrow>
          (case find_document s i of None \<Rightarrow> (Inl ENOENT, s)
           | Some k \<Rightarrow>
               let st = documents s ! k in
               if sd_state st \<noteq> TRANSFER_FINISHED \<or> transfer_chunk_count (sd_document st) \<le> index then (Inl ENOENT, s)
               else case cache_find_locked s i index of
                 Some j \<Rightarrow>
                   (case fault (at os 1) of Some e \<Rightarrow> (Inl e, s)
                    | None \<Rightarrow>
                        let e = cache s ! j; s = cache_touch_locked s j;
                            s = s\<lparr>cache_stats := (cache_stats s)\<lparr>hits := cache_increment (hits (cache_stats s))\<rparr>\<rparr> in
                        (Inr (chunk_of_record i (ce_chunk e) (take (ce_size e) (ce_data e)), True, frequency (cache s ! j)), s))
               | None \<Rightarrow>
                   read_uncached os (s\<lparr>cache_stats := (cache_stats s)\<lparr>misses := cache_increment (misses (cache_stats s))\<rparr>\<rparr>) disk i index
                     (sd_chunks st ! unat index)))"

definition storage_read_chunk ::
  "os \<Rightarrow> 'a Storage_scheme \<Rightarrow> disk \<Rightarrow> ObjectID \<Rightarrow> u64 \<Rightarrow> TransferChunk result \<times> 'a Storage_scheme" where
  "storage_read_chunk os s disk i index =
     (let (r, s) = storage_read_chunk_internal os s disk i index in (case r of Inl e \<Rightarrow> Inl e | Inr (c, _) \<Rightarrow> Inr c, s))"

definition storage_read_chunk_with_cache_info ::
  "os \<Rightarrow> 'a Storage_scheme \<Rightarrow> disk \<Rightarrow> ObjectID \<Rightarrow> u64 \<Rightarrow> (TransferChunk \<times> bool \<times> u64) result \<times> 'a Storage_scheme" where
  "storage_read_chunk_with_cache_info os s disk i index = storage_read_chunk_internal os s disk i index"

definition storage_list :: "os \<Rightarrow> 'a Storage_scheme \<Rightarrow> TransferDocument list result" where
  "storage_list os s =
     (case fault (at os 0) of Some e \<Rightarrow> Inl e
      | None \<Rightarrow>
          let finished = filter (\<lambda>st. sd_state st = TRANSFER_FINISHED) (documents s) in
          case (if finished \<noteq> [] then fault (at os 1) else None) of Some e \<Rightarrow> Inl e | None \<Rightarrow> Inr (map sd_document finished))"

text \<open>The only call site is the allocation; the results of the mutexes are not looked at.\<close>

definition storage_descriptors :: "os \<Rightarrow> 'a Storage_scheme \<Rightarrow> ObjectID \<Rightarrow> MetadataChunk list result" where
  "storage_descriptors os s i =
     (case find_document s i of None \<Rightarrow> Inl ENOENT
      | Some k \<Rightarrow>
          let st = documents s ! k in
          if sd_state st \<noteq> TRANSFER_FINISHED then Inl ENODATA
          else case fault (at os 0) of Some e \<Rightarrow> Inl e
          | None \<Rightarrow>
              Inr (map (\<lambda>j. let c = sd_chunks st ! j in
                  \<lparr>chunk_index = of_nat j, chunk_offset = sc_offset c, raw_size = sc_raw_size c, compressed_size = sc_compressed_size c, chunk_hash = sc_hash c\<rparr>)
                [0..<unat (transfer_chunk_count (sd_document st))]))"

end
