(* ===== verification/Storage_Safety.thy ===== *)
theory Storage_Safety
  imports Storage
begin

text \<open>
  The invariant of the store: what every operation of \<open>Storage\<close> keeps, over a step relation from any disk, and what a reader can
  rely on.
\<close>

section \<open>What is stored\<close>

text \<open>The compressed bytes of a chunk on disk, its contents, and the contents of the chunks from number \<open>k\<close> on.\<close>

definition stored_data :: "disk \<Rightarrow> bool \<Rightarrow> ObjectID \<Rightarrow> nat \<Rightarrow> StoredChunk \<Rightarrow> byte list option" where
  "stored_data disk final i k c =
     (case chunk_file disk final i (of_nat k) of None \<Rightarrow> None
      | Some bytes \<Rightarrow> if unat (sc_compressed_size c) \<le> length bytes then Some (take (unat (sc_compressed_size c)) bytes) else None)"

definition chunk_content :: "storage_lib \<Rightarrow> disk \<Rightarrow> bool \<Rightarrow> ObjectID \<Rightarrow> nat \<Rightarrow> StoredChunk \<Rightarrow> byte list option" where
  "chunk_content lib disk final i k c =
     (case stored_data disk final i k c of None \<Rightarrow> None
      | Some bytes \<Rightarrow>
          (case LZ4_decompress_safe lib bytes (unat (sc_raw_size c)) of None \<Rightarrow> None
           | Some raw \<Rightarrow> if present c \<and> length raw = unat (sc_raw_size c) \<and> sha256 lib raw = Some (sc_hash c) then Some raw else None))"

fun chunks_content :: "storage_lib \<Rightarrow> disk \<Rightarrow> bool \<Rightarrow> ObjectID \<Rightarrow> nat \<Rightarrow> StoredChunk list \<Rightarrow> byte list option" where
  "chunks_content lib disk final i k [] = Some []"
| "chunks_content lib disk final i k (c # cs) =
     (case chunk_content lib disk final i k c of None \<Rightarrow> None
      | Some raw \<Rightarrow> map_option (\<lambda>rest. raw @ rest) (chunks_content lib disk final i (Suc k) cs))"

text \<open>A document on disk whose contents have its identifier and size.\<close>

definition genuine :: "storage_lib \<Rightarrow> disk \<Rightarrow> bool \<Rightarrow> StoredDocument \<Rightarrow> bool" where
  "genuine lib disk final st \<longleftrightarrow> (\<exists>content. chunks_content lib disk final (document_id st) 0 (sd_chunks st) = Some content \<and>
     of_nat (length content) = file_size (sd_document st) \<and> sha256 lib content = Some (document_id st))"

definition record_ok :: "StoredDocument \<Rightarrow> bool" where
  "record_ok st \<longleftrightarrow> length (sd_chunks st) = unat (transfer_chunk_count (sd_document st)) \<and>
     (\<forall>k < length (sd_chunks st). present (sd_chunks st ! k) \<longrightarrow> sc_index (sd_chunks st ! k) = of_nat k \<and>
        sc_offset (sd_chunks st ! k) = of_nat k * METADATA_CHUNK_SIZE \<and>
        sc_raw_size (sd_chunks st ! k) = expected_chunk_size (file_size (sd_document st)) (of_nat k))"

text \<open>An entry of the cache holds what is on disk for a chunk of a finished document.\<close>

definition entry_current :: "StoredDocument list \<Rightarrow> disk \<Rightarrow> CacheEntry \<Rightarrow> bool" where
  "entry_current sts disk e \<longleftrightarrow> (\<exists>st \<in> set sts. document_id st = ce_id e \<and> sd_state st = TRANSFER_FINISHED \<and>
     ce_index e < transfer_chunk_count (sd_document st) \<and> ce_chunk e = sd_chunks st ! unat (ce_index e) \<and>
     stored_data disk True (ce_id e) (unat (ce_index e)) (ce_chunk e) = Some (ce_data e))"

definition storage_ok :: "storage_lib \<Rightarrow> Storage \<Rightarrow> disk \<Rightarrow> bool" where
  "storage_ok lib s disk \<longleftrightarrow> cache_ok s \<and> distinct (map document_id (documents s)) \<and>
     (\<forall>st \<in> set (documents s). record_ok st \<and> (sd_state st = TRANSFER_FINISHED \<longrightarrow> genuine lib disk True st)) \<and>
     (\<forall>e \<in> set (cache s). entry_current (documents s) disk e)"

section \<open>Reading and writing files\<close>

lemma write_all_fd_complete: "write_all_fd as bytes = (None, w) \<Longrightarrow> w = bytes"
proof (induction as bytes arbitrary: w rule: write_all_fd.induct)
  case (3 n as v va)
  then show ?case by (auto simp: Let_def split: if_splits prod.splits)
qed (auto split: if_splits)

lemma write_fields_complete: "write_fields os k fs = (None, w) \<Longrightarrow> w = concat fs"
proof (induction os k fs arbitrary: w rule: write_fields.induct)
  case (2 os k f fs)
  then show ?case using write_all_fd_complete by (auto simp: Let_def split: prod.splits option.splits)
qed simp

lemma read_all_fd_prefix: "read_all_fd as n bytes = Inr (got, rest) \<Longrightarrow> bytes = got @ rest \<and> length got = n"
proof (induction as n bytes arbitrary: got rest rule: read_all_fd.induct)
  case (3 n as k bytes)
  let ?c = "min n (min (Suc k) (length bytes))"
  from "3.prems" obtain g where g: "?c \<noteq> 0" "read_all_fd as (Suc k - ?c) (drop ?c bytes) = Inr (g, rest)" "got = take ?c bytes @ g"
    by (auto simp: Let_def split: if_splits sum.splits)
  from "3.IH" [OF refl g(1,2)] have d: "drop ?c bytes = g @ rest" "length g = Suc k - ?c" by (rule conjunct1, rule conjunct2)
  have "bytes = take ?c bytes @ g @ rest" unfolding d(1) [symmetric] by (rule append_take_drop_id [symmetric])
  moreover have "length (take ?c bytes @ g) = Suc k" using d(2) by simp
  ultimately show ?case unfolding g(3) by simp
qed (auto split: if_splits)

lemma read_all_fd_calm: "n \<le> length bytes \<Longrightarrow> read_all_fd [] n bytes = Inr (take n bytes, drop n bytes)"
  by (cases n) auto

lemma read_all_fd_take: "read_all_fd as n bytes = Inr (got, rest) \<Longrightarrow> got = take n bytes \<and> n \<le> length bytes"
  using read_all_fd_prefix by fastforce

section \<open>What the changes of the disk leave alone\<close>

lemma object_hex_eq: "object_hex i = concat (map (\<lambda>b. [hexadecimal ! unat (drop_bit 4 b), hexadecimal ! unat (b AND 15)]) i)"
  by (simp add: object_hex_def object_id_to_hex_def)

lemma object_hex_inj: "object_hex i = object_hex j \<longleftrightarrow> i = j"
proof
  assume "object_hex i = object_hex j"
  then have "hex_pairs (object_hex i) = hex_pairs (object_hex j)" by simp
  then show "i = j" using hex_pairs_of_bytes [of i] hex_pairs_of_bytes [of j] by (simp add: object_hex_eq)
qed simp

lemma chunk_file_enter [simp]: "chunk_file (enter_directory disk f name) final i k = chunk_file disk final i k"
  by (auto simp: chunk_file_def enter_directory_def split: option.splits)

lemma chunk_file_manifest [simp]: "chunk_file (change_directory disk f name (\<lambda>d. d\<lparr>manifest := m d\<rparr>)) final i k = chunk_file disk final i k"
  by (auto simp: chunk_file_def change_directory_def split: option.splits)

lemma chunk_file_change_other:
  "(final, object_hex i) \<noteq> (f, name) \<Longrightarrow> chunk_file (change_directory disk f name g) final i k = chunk_file disk final i k"
  by (auto simp: chunk_file_def change_directory_def split: option.splits)

lemma write_manifest_files: "write_manifest lib os s disk st final = (r, disk') \<Longrightarrow> chunk_file disk' f i k = chunk_file disk f i k"
  by (auto simp: write_manifest_def Let_def split: sum.splits option.splits if_splits prod.splits)

lemma write_chunk_file_files:
  assumes "write_chunk_file os disk c = (r, disk')"
  shows "chunk_file disk' True i k = chunk_file disk True i k" "i \<noteq> tc_id c \<Longrightarrow> chunk_file disk' f i k = chunk_file disk f i k"
  using assms object_hex_inj [of i "tc_id c"]
  by (auto simp: write_chunk_file_def Let_def chunk_file_change_other split: option.splits prod.splits if_splits)

lemma rename_files_other:
  "rename_directory os disk (object_hex j) final = (r, disk') \<Longrightarrow> i \<noteq> j \<Longrightarrow> chunk_file disk' f i k = chunk_file disk f i k"
  using object_hex_inj [of i j] by (auto simp: rename_directory_def chunk_file_def split: option.splits if_splits)

lemma rename_files_moved:
  "rename_directory os disk (object_hex i) final = (None, disk') \<Longrightarrow> chunk_file disk' final i k = chunk_file disk (\<not> final) i k"
  by (auto simp: rename_directory_def chunk_file_def split: option.splits if_splits)

section \<open>Verification shows that the contents are genuine\<close>

lemma stored_data_cong:
  "(\<And>k. chunk_file disk' f' i k = chunk_file disk f i k) \<Longrightarrow> stored_data disk' f' i k c = stored_data disk f i k c"
  by (simp add: stored_data_def)

lemma chunks_content_cong:
  "(\<And>k. chunk_file disk' f' i k = chunk_file disk f i k) \<Longrightarrow> chunks_content lib disk' f' i k cs = chunks_content lib disk f i k cs"
proof (induction cs arbitrary: k)
  case (Cons c cs)
  then have "chunk_content lib disk' f' i k c = chunk_content lib disk f i k c"
    using stored_data_cong [OF Cons.prems] by (simp add: chunk_content_def)
  with Cons show ?case by (simp split: option.split)
qed simp

lemma genuine_cong:
  "(\<And>k. chunk_file disk' f' (document_id st) k = chunk_file disk f (document_id st) k) \<Longrightarrow> genuine lib disk' f' st = genuine lib disk f st"
  by (simp add: genuine_def chunks_content_cong [of disk' f' "document_id st" disk f])

lemma verify_chunks_content: "verify_chunks lib os s disk i final k cs = Inr content \<Longrightarrow> chunks_content lib disk final i k cs = Some content"
proof (induction lib os s disk i final k cs arbitrary: content rule: verify_chunks.induct)
  case (2 lib os s disk i final k c cs)
  let ?os = "at os k"
  obtain bytes compressed rest raw raws where v: "present c" "chunk_file disk final i (of_nat k) = Some bytes"
    "read_all_fd (at ?os 2 []) (unat (sc_compressed_size c)) bytes = Inr (compressed, rest)"
    "compression_lz4_decompress lib (at ?os 4) compressed (unat (sc_raw_size c)) = Inr raw" "content_sha256 lib raw = Inr (sc_hash c)"
    "verify_chunks lib os s disk i final (Suc k) cs = Inr raws" "content = raw @ raws" "\<not> isl (chunk_path s i final)"
    "fault (at ?os 0) = None" "fault (at ?os 1) = None" "fault (at ?os 3) = None" "fault (at ?os 5) = None"
    using "2.prems" by (auto simp: Let_def split: if_splits option.splits sum.splits)
  have "stored_data disk final i k c = Some compressed" using v(2) read_all_fd_take [OF v(3)] by (simp add: stored_data_def)
  moreover have "sha256 lib raw = Some (sc_hash c)" using v(5) by (simp add: content_sha256_def split: option.splits)
  ultimately have "chunk_content lib disk final i k c = Some raw" using v(1) decompress_Inr [OF v(4)] by (simp add: chunk_content_def)
  moreover have "chunks_content lib disk final i (Suc k) cs = Some raws"
    by (rule "2.IH" [OF refl _ v(9,10,2,3) refl v(11,4) _ v(6)]) (use v in auto)
  ultimately show ?case using v(7) by simp
qed simp

lemma verify_document_genuine:
  "verify_document lib os s disk st final = None \<Longrightarrow> record_ok st \<Longrightarrow> genuine lib disk final st"
  by (auto simp: verify_document_def genuine_def record_ok_def Let_def dest!: verify_chunks_content split: option.splits if_splits sum.splits)

section \<open>The operations keep the store consistent\<close>

lemma find_document_Some:
  "find_document s i = Some k \<Longrightarrow> k < length (documents s) \<and> document_id (documents s ! k) = i"
  by (auto simp: find_document_def dest: find_index_Some)

lemma find_document_None: "find_document s i = None \<longleftrightarrow> i \<notin> document_id ` set (documents s)"
  by (auto simp: find_document_def find_index_None)

lemma find_document_unique:
  "distinct (map document_id (documents s)) \<Longrightarrow> k < length (documents s) \<Longrightarrow> find_document s (document_id (documents s ! k)) = Some k"
  unfolding find_document_def by (rule find_index_unique) (auto dest: distinct_map_nth)

lemma storage_okD:
  assumes "storage_ok lib s disk"
  shows "cache_ok s" "distinct (map document_id (documents s))" "\<And>st. st \<in> set (documents s) \<Longrightarrow> record_ok st"
    "\<And>st. st \<in> set (documents s) \<Longrightarrow> sd_state st = TRANSFER_FINISHED \<Longrightarrow> genuine lib disk True st"
    "\<And>e. e \<in> set (cache s) \<Longrightarrow> entry_current (documents s) disk e"
  using assms by (auto simp: storage_ok_def)

text \<open>A change of the disk that leaves the files of all finished documents alone.\<close>

lemma storage_ok_disk:
  assumes "storage_ok lib s disk"
    and same: "\<And>st k. st \<in> set (documents s) \<Longrightarrow> sd_state st = TRANSFER_FINISHED \<Longrightarrow>
      chunk_file disk' True (document_id st) k = chunk_file disk True (document_id st) k"
  shows "storage_ok lib s disk'"
proof -
  have "genuine lib disk' True st" if "st \<in> set (documents s)" "sd_state st = TRANSFER_FINISHED" for st
    using storage_okD(4) [OF assms(1) that] genuine_cong [of disk' True st disk True] same [OF that] by simp
  moreover have "entry_current (documents s) disk' e" if e: "e \<in> set (cache s)" for e
  proof -
    obtain st where st: "st \<in> set (documents s)" "document_id st = ce_id e" "sd_state st = TRANSFER_FINISHED" "ce_index e < transfer_chunk_count (sd_document st)"
      "ce_chunk e = sd_chunks st ! unat (ce_index e)" "stored_data disk True (ce_id e) (unat (ce_index e)) (ce_chunk e) = Some (ce_data e)"
      using storage_okD(5) [OF assms(1) e] by (auto simp: entry_current_def)
    then have "stored_data disk' True (ce_id e) (unat (ce_index e)) (ce_chunk e) = Some (ce_data e)"
      using stored_data_cong [of disk' True "ce_id e" disk True] same [OF st(1,3)] by simp
    with st show ?thesis by (auto simp: entry_current_def)
  qed
  ultimately show ?thesis using assms(1) by (auto simp: storage_ok_def)
qed

lemma entry_current_mono:
  assumes "entry_current sts disk e" "\<And>st. st \<in> set sts \<Longrightarrow> sd_state st = TRANSFER_FINISHED \<Longrightarrow> st \<in> set sts'"
  shows "entry_current sts' disk e"
  using assms by (auto simp: entry_current_def)

lemma storage_ok_add:
  assumes "storage_ok lib s disk" "find_document s (document_id st) = None" "record_ok st" "sd_state st = TRANSFER_FINISHED \<longrightarrow> genuine lib disk True st"
  shows "storage_ok lib (s\<lparr>documents := st # documents s\<rparr>) disk"
proof -
  have "cache_ok (s\<lparr>documents := st # documents s\<rparr>)" using storage_okD(1) [OF assms(1)] by (simp add: cache_ok_def cache_counted_def)
  then show ?thesis
    using assms storage_okD [OF assms(1)] entry_current_mono [of "documents s" disk _ "st # documents s"]
    by (auto simp: storage_ok_def find_document_None)
qed

text \<open>Replacing a document that is not finished.\<close>

lemma storage_ok_replace:
  assumes ok: "storage_ok lib s disk" and k: "k < length (documents s)" "sd_state (documents s ! k) \<noteq> TRANSFER_FINISHED"
    and st: "document_id st = document_id (documents s ! k)" "record_ok st" "sd_state st = TRANSFER_FINISHED \<longrightarrow> genuine lib disk True st"
  shows "storage_ok lib (s\<lparr>documents := (documents s)[k := st]\<rparr>) disk"
proof -
  let ?d = "(documents s)[k := st]"
  have "cache_ok (s\<lparr>documents := ?d\<rparr>)" using storage_okD(1) [OF ok] by (simp add: cache_ok_def cache_counted_def)
  moreover have "map document_id ?d = map document_id (documents s)" using k(1) st(1) by (rule map_update_same)
  moreover have "x \<in> set ?d" if "x \<in> set (documents s)" "sd_state x = TRANSFER_FINISHED" for x
    using that k by (metis in_set_conv_nth length_list_update nth_list_update_neq)
  then have "\<forall>e \<in> set (cache s). entry_current ?d disk e" using storage_okD(5) [OF ok] entry_current_mono by blast
  ultimately show ?thesis
    using storage_okD(2,3,4) [OF ok] st(2,3) set_update_subset_insert [of "documents s" k st]
    by (auto simp: storage_ok_def)
qed

lemma storage_begin_ok:
  assumes "storage_ok lib s disk" "storage_begin lib os now s disk d = (r, s', disk')"
  shows "storage_ok lib s' disk'"
proof -
  let ?st = "\<lparr>sd_document = d, sd_owner = storage_owner s, uploaded_at = now, sd_state = TRANSFER_CREATED,
    sd_chunks = replicate (unat (transfer_chunk_count d)) \<lparr>sc_index = 0, sc_offset = 0, sc_raw_size = 0, sc_compressed_size = 0,
      sc_hash = replicate OBJECT_ID_SIZE 0, present = False\<rparr>\<rparr>"
  consider "s' = s" "disk' = disk"
    | r1 where "find_document s (transfer_id d) = None"
        "write_manifest lib (at os 5) s (enter_directory disk False (object_hex (transfer_id d))) ?st False = (r1, disk')"
        "s' = (if r1 = None then s\<lparr>documents := ?st # documents s\<rparr> else s)"
    using assms(2) unfolding storage_begin_def Let_def by (auto split: if_splits option.splits sum.splits prod.splits)
  then show ?thesis
  proof cases
    case 1
    with assms(1) show ?thesis by simp
  next
    case 2
    have "storage_ok lib s disk'" by (rule storage_ok_disk [OF assms(1)]) (simp add: write_manifest_files [OF 2(2)])
    moreover have "record_ok ?st" by (simp add: record_ok_def)
    ultimately show ?thesis using 2(1,3) storage_ok_add [of lib s disk' ?st] by simp
  qed
qed

text \<open>What a put can do: nothing, or write the file and with it record the chunk.\<close>

lemma storage_put_chunk_cases:
  assumes "storage_put_chunk lib os s disk c = (r, s', disk')"
  obtains (unchanged) "s' = s" "disk' = disk" "r = None \<longrightarrow> (\<exists>k. find_document s (tc_id c) = Some k \<and> same_chunk (sd_chunks (documents s ! k) ! unat (tc_index c)) c)"
  | (written) k n where "find_document s (tc_id c) = Some k" "tc_index c < transfer_chunk_count (sd_document (documents s ! k))"
      "tc_offset c = tc_index c * METADATA_CHUNK_SIZE" "tc_raw_size c = expected_chunk_size (file_size (sd_document (documents s ! k))) (tc_index c)"
      "sd_state (documents s ! k) \<noteq> TRANSFER_FINISHED" "\<not> present (sd_chunks (documents s ! k) ! unat (tc_index c))"
      "store_chunk lib os s disk k c n = (r, s', disk')" "chunk_genuine lib (at os 0) c"
proof -
  have "(r, s', disk') = storage_put_chunk lib os s disk c" using assms by simp
  then show thesis unfolding storage_put_chunk_def Let_def
    by (auto simp: not_le split: if_splits option.splits sum.splits intro: unchanged written)
qed

lemma store_chunk_cases:
  assumes "store_chunk lib os s disk k c n = (r, s', disk')"
  obtains r1 disk1 st' where "write_chunk_file (at os 3) disk c = (r1, disk1)" "\<And>f i j. chunk_file disk' f i j = chunk_file disk1 f i j"
    "st' = (documents s ! k)\<lparr>sd_chunks := (sd_chunks (documents s ! k))[unat (tc_index c) := record_of_chunk c], sd_state := TRANSFER_TRANSFERRING\<rparr>"
    "s' = s \<and> r \<noteq> None \<or> r1 = None \<and> r = None \<and> s' = s\<lparr>documents := (documents s)[k := st']\<rparr>"
proof -
  obtain r1 disk1 where w: "write_chunk_file (at os 3) disk c = (r1, disk1)" by (cases "write_chunk_file (at os 3) disk c")
  show thesis
  proof (rule that [OF w _ refl])
    show "chunk_file disk' f i j = chunk_file disk1 f i j" for f i j
      using assms w by (auto simp: store_chunk_def Let_def write_manifest_files split: option.splits prod.splits)
  qed (use assms w in \<open>auto simp: store_chunk_def Let_def split: option.splits prod.splits\<close>)
qed

lemma record_ok_chunk:
  assumes "record_ok st" "tc_index c < transfer_chunk_count (sd_document st)" "tc_offset c = tc_index c * METADATA_CHUNK_SIZE"
    "tc_raw_size c = expected_chunk_size (file_size (sd_document st)) (tc_index c)"
  shows "record_ok (st\<lparr>sd_chunks := (sd_chunks st)[unat (tc_index c) := record_of_chunk c], sd_state := x\<rparr>)"
proof -
  have l: "unat (tc_index c) < length (sd_chunks st)" using assms(1,2) by (simp add: record_ok_def word_less_nat_alt)
  have n: "(sd_chunks st)[unat (tc_index c) := record_of_chunk c] ! k = (if k = unat (tc_index c) then record_of_chunk c else sd_chunks st ! k)" for k
    using l by (simp add: nth_list_update)
  have "sc_index (record_of_chunk c) = tc_index c" "sc_offset (record_of_chunk c) = tc_index c * METADATA_CHUNK_SIZE"
    "sc_raw_size (record_of_chunk c) = expected_chunk_size (file_size (sd_document st)) (tc_index c)"
    using assms(3,4) by (simp_all add: record_of_chunk_def)
  with assms(1) show ?thesis by (auto simp: record_ok_def n)
qed

lemma storage_put_chunk_ok:
  assumes "storage_ok lib s disk" "storage_put_chunk lib os s disk c = (r, s', disk')"
  shows "storage_ok lib s' disk'"
proof (rule storage_put_chunk_cases [OF assms(2)])
  assume "s' = s" "disk' = disk"
  with assms(1) show ?thesis by simp
next
  fix k n
  assume k: "find_document s (tc_id c) = Some k" "tc_index c < transfer_chunk_count (sd_document (documents s ! k))"
    "tc_offset c = tc_index c * METADATA_CHUNK_SIZE" "tc_raw_size c = expected_chunk_size (file_size (sd_document (documents s ! k))) (tc_index c)"
    "sd_state (documents s ! k) \<noteq> TRANSFER_FINISHED" "store_chunk lib os s disk k c n = (r, s', disk')"
  from k(6) show ?thesis
  proof (rule store_chunk_cases)
    fix r1 disk1 st'
    assume w: "write_chunk_file (at os 3) disk c = (r1, disk1)" "\<And>f i j. chunk_file disk' f i j = chunk_file disk1 f i j"
      "st' = (documents s ! k)\<lparr>sd_chunks := (sd_chunks (documents s ! k))[unat (tc_index c) := record_of_chunk c], sd_state := TRANSFER_TRANSFERRING\<rparr>"
      "s' = s \<and> r \<noteq> None \<or> r1 = None \<and> r = None \<and> s' = s\<lparr>documents := (documents s)[k := st']\<rparr>"
    have ok: "storage_ok lib s disk'" by (rule storage_ok_disk [OF assms(1)]) (simp add: w(2) write_chunk_file_files(1) [OF w(1)])
    have l: "k < length (documents s)" using find_document_Some [OF k(1)] by simp
    then have "record_ok st'" unfolding w(3) by (intro record_ok_chunk k(2-4)) (use storage_okD(3) [OF assms(1)] in simp)
    then have "storage_ok lib (s\<lparr>documents := (documents s)[k := st']\<rparr>) disk'"
      by (intro storage_ok_replace [OF ok l k(5)]) (simp_all add: w(3))
    with ok w(4) show ?thesis by auto
  qed
qed

text \<open>What a commit can do.\<close>

lemma storage_commit_cases:
  assumes "storage_commit lib os s disk i = (r, s', disk')"
  obtains (unchanged) "s' = s" "disk' = disk" "r = Inr d \<longrightarrow> (\<exists>k. find_document s i = Some k \<and> sd_state (documents s ! k) = TRANSFER_FINISHED \<and> d = sd_document (documents s ! k))"
  | (attempted) k st s1 where "find_document s i = Some k" "sd_state (documents s ! k) \<noteq> TRANSFER_FINISHED" "st = (documents s ! k)\<lparr>sd_state := TRANSFER_VERIFYING\<rparr>"
      "s1 = s\<lparr>documents := (documents s)[k := st]\<rparr>"
      "s' = s1 \<and> disk' = disk \<and> isl r \<or> verify_document lib (at os 2) s1 disk st False = None \<and> (\<exists>a b. publish_document lib os s1 disk i k a b = (r, s', disk'))"
proof -
  have "(r, s', disk') = storage_commit lib os s disk i" using assms by simp
  then consider "s' = s" "disk' = disk" "r = Inr d \<longrightarrow> (\<exists>k. find_document s i = Some k \<and> sd_state (documents s ! k) = TRANSFER_FINISHED \<and> d = sd_document (documents s ! k))"
    | k where "find_document s i = Some k" "sd_state (documents s ! k) \<noteq> TRANSFER_FINISHED"
      "(r, s', disk') = (let st = (documents s ! k)\<lparr>sd_state := TRANSFER_VERIFYING\<rparr>; s = s\<lparr>documents := (documents s)[k := st]\<rparr> in
                      case verify_document lib (at os 2) s disk st False of Some e \<Rightarrow> (Inl e, s, disk)
                      | None \<Rightarrow>
                          (case document_directory s i False of Inl e \<Rightarrow> (Inl e, s, disk)
                           | Inr pending \<Rightarrow>
                               (case document_directory s i True of Inl e \<Rightarrow> (Inl e, s, disk)
                                | Inr final \<Rightarrow> publish_document lib os s disk i k (length pending) (length final))))"
    unfolding storage_commit_def Let_def by (auto split: if_splits option.splits)
  then show thesis
  proof cases
    case 1
    then show thesis by (rule unchanged)
  next
    case 2
    show thesis
      by (rule attempted [OF 2(1,2) refl refl]) (use 2(3) in \<open>force simp: Let_def split: option.splits sum.splits\<close>)
  qed
qed

lemma publish_document_cases:
  assumes "publish_document lib os s disk i k a b = (r, s', disk')" "document_id (documents s ! k) = i"
  shows "\<And>j f m. j \<noteq> i \<Longrightarrow> chunk_file disk' f j m = chunk_file disk f j m"
    "s' = s \<and> isl r \<or> r = Inr (sd_document (documents s ! k)) \<and>
      s' = s\<lparr>documents := (documents s)[k := (documents s ! k)\<lparr>sd_state := TRANSFER_FINISHED\<rparr>]\<rparr> \<and>
      (\<forall>m. chunk_file disk' True i m = chunk_file disk False i m)"
proof -
  obtain r1 disk1 where w: "write_manifest lib (at os 3) s disk (documents s ! k) False = (r1, disk1)"
    by (cases "write_manifest lib (at os 3) s disk (documents s ! k) False")
  obtain r2 disk2 where m: "rename_directory (at os 4) disk1 (object_hex i) True = (r2, disk2)"
    by (cases "rename_directory (at os 4) disk1 (object_hex i) True")
  obtain r3 disk3 where b: "rename_directory (at os 7) disk2 (object_hex i) False = (r3, disk3)"
    by (cases "rename_directory (at os 7) disk2 (object_hex i) False")
  have d: "disk' = disk1 \<or> disk' = disk2 \<or> disk' = disk3" using assms(1) w m b by (auto simp: publish_document_def Let_def rename_directory_def split: option.splits if_splits)
  show "chunk_file disk' f j n = chunk_file disk f j n" if "j \<noteq> i" for j f n
    using d write_manifest_files [OF w] rename_files_other [OF m that] rename_files_other [OF b that] by auto
  show "s' = s \<and> isl r \<or> r = Inr (sd_document (documents s ! k)) \<and>
      s' = s\<lparr>documents := (documents s)[k := (documents s ! k)\<lparr>sd_state := TRANSFER_FINISHED\<rparr>]\<rparr> \<and>
      (\<forall>m. chunk_file disk' True i m = chunk_file disk False i m)"
    using assms(1) w m write_manifest_files [OF w] rename_files_moved [of "at os 4" disk1 i True]
    by (auto simp: publish_document_def Let_def split: option.splits if_splits)
qed

lemma storage_commit_ok:
  assumes "storage_ok lib s disk" "storage_commit lib os s disk i = (r, s', disk')"
  shows "storage_ok lib s' disk'"
proof (rule storage_commit_cases [OF assms(2)])
  assume "s' = s" "disk' = disk"
  with assms(1) show ?thesis by simp
next
  fix k st s1
  assume k: "find_document s i = Some k" "sd_state (documents s ! k) \<noteq> TRANSFER_FINISHED" "st = (documents s ! k)\<lparr>sd_state := TRANSFER_VERIFYING\<rparr>"
      "s1 = s\<lparr>documents := (documents s)[k := st]\<rparr>"
    and c: "s' = s1 \<and> disk' = disk \<and> isl r \<or>
      verify_document lib (at os 2) s1 disk st False = None \<and> (\<exists>a b. publish_document lib os s1 disk i k a b = (r, s', disk'))"
  have l: "k < length (documents s)" "document_id (documents s ! k) = i" using find_document_Some [OF k(1)] by simp_all
  have rec: "record_ok st" using storage_okD(3) [OF assms(1), of "documents s ! k"] l(1) by (simp add: k(3) record_ok_def)
  have ok1: "storage_ok lib s1 disk" unfolding k(4) by (rule storage_ok_replace [OF assms(1) l(1) k(2)]) (use rec in \<open>simp_all add: k(3)\<close>)
  have n: "documents s1 ! k = st" "k < length (documents s1)" using l(1) k(4) by simp_all
  from c show ?thesis
  proof
    assume "s' = s1 \<and> disk' = disk \<and> isl r"
    with ok1 show ?thesis by simp
  next
    assume "verify_document lib (at os 2) s1 disk st False = None \<and> (\<exists>a b. publish_document lib os s1 disk i k a b = (r, s', disk'))"
    then obtain a b where v: "verify_document lib (at os 2) s1 disk st False = None" and p: "publish_document lib os s1 disk i k a b = (r, s', disk')" by blast
    have id: "document_id (documents s1 ! k) = i" using n(1) l(2) by (simp add: k(3))
    have vs: "sd_state st \<noteq> TRANSFER_FINISHED" by (simp add: k(3))
    have other: "document_id x \<noteq> i" if "x \<in> set (documents s1)" "sd_state x = TRANSFER_FINISHED" for x
    proof
      assume x: "document_id x = i"
      obtain j where j: "j < length (documents s1)" "documents s1 ! j = x" using \<open>x \<in> set (documents s1)\<close> by (metis in_set_conv_nth)
      then have "j = k" using distinct_map_nth [OF storage_okD(2) [OF ok1] j(1) n(2)] x id by simp
      with j n(1) that(2) vs show False by simp
    qed
    have ok2: "storage_ok lib s1 disk'"
      by (rule storage_ok_disk [OF ok1]) (use other publish_document_cases(1) [OF p id] in simp)
    have "genuine lib disk' True (st\<lparr>sd_state := TRANSFER_FINISHED\<rparr>)" if "\<forall>m. chunk_file disk' True i m = chunk_file disk False i m"
    proof -
      have "genuine lib disk False st" by (rule verify_document_genuine [OF v rec])
      moreover have "document_id st = i" using id n(1) by simp
      ultimately have "genuine lib disk' True st" using genuine_cong [of disk' True st disk False lib] that by simp
      then show ?thesis by (simp add: genuine_def)
    qed
    moreover have "record_ok (st\<lparr>sd_state := TRANSFER_FINISHED\<rparr>)" using rec by (simp add: record_ok_def)
    moreover note vs
    ultimately have "storage_ok lib (s1\<lparr>documents := (documents s1)[k := st\<lparr>sd_state := TRANSFER_FINISHED\<rparr>]\<rparr>) disk'"
      if "\<forall>m. chunk_file disk' True i m = chunk_file disk False i m"
      using storage_ok_replace [OF ok2 n(2), of "st\<lparr>sd_state := TRANSFER_FINISHED\<rparr>"] n(1) that by simp
    with publish_document_cases(2) [OF p id] ok2 n(1) show ?thesis by auto
  qed
qed

section \<open>Reading chunks\<close>

text \<open>The chunk that the disk holds for a finished document.\<close>

definition disk_chunk :: "Storage \<Rightarrow> disk \<Rightarrow> ObjectID \<Rightarrow> u64 \<Rightarrow> TransferChunk option" where
  "disk_chunk s disk i index =
     (case find_document s i of None \<Rightarrow> None
      | Some k \<Rightarrow>
          let st = documents s ! k in
          if sd_state st \<noteq> TRANSFER_FINISHED \<or> transfer_chunk_count (sd_document st) \<le> index then None
          else map_option (chunk_of_record i (sd_chunks st ! unat index)) (stored_data disk True i (unat index) (sd_chunks st ! unat index)))"

lemma cache_counters [simp]:
  "cache_ok (s\<lparr>cache_stats := (cache_stats s)\<lparr>hits := h\<rparr>\<rparr>) = cache_ok s" "cache_ok (s\<lparr>cache_stats := (cache_stats s)\<lparr>misses := h\<rparr>\<rparr>) = cache_ok s"
  by (simp_all add: cache_ok_def cache_counted_def)

lemma entry_current_content:
  "entry_content e = entry_content e' \<Longrightarrow> entry_current sts disk e = entry_current sts disk e'"
  by (simp add: entry_current_def entry_content_def)

lemma storage_ok_cache:
  assumes "storage_ok lib s disk" "cache_ok s'" "Cache.more s' = Cache.more s" "\<And>e. e \<in> set (cache s') \<Longrightarrow> entry_current (documents s) disk e"
  shows "storage_ok lib s' disk"
proof -
  have "documents s' = documents s" using assms(3) by (cases s; cases s') simp
  with assms show ?thesis by (simp add: storage_ok_def)
qed

lemma entries_current_store:
  assumes "storage_ok lib s disk" "find_document s i = Some k" "sd_state (documents s ! k) = TRANSFER_FINISHED"
    "index < transfer_chunk_count (sd_document (documents s ! k))" "c = sd_chunks (documents s ! k) ! unat index"
    "stored_data disk True i (unat index) c = Some bytes" "sc_index c = index" "length bytes = unat (sc_compressed_size c)"
    "e \<in> set (cache (cache_store_locked os s i c bytes))"
  shows "entry_current (documents s) disk e"
proof -
  have "entry_content e \<in> insert (i, index, c, bytes) (entry_content ` set (cache s))"
    using cache_store_contents [OF storage_okD(1) [OF assms(1)] assms(8), of os i] assms(7,9) by auto
  then consider "entry_content e = (i, index, c, bytes)" | e' where "e' \<in> set (cache s)" "entry_content e = entry_content e'" by auto
  then show ?thesis
  proof cases
    case 1
    then show ?thesis using assms(2-6) find_document_Some [OF assms(2)] unfolding entry_current_def entry_content_def
      by (intro bexI [of _ "documents s ! k"]) auto
  next
    case 2
    then show ?thesis using storage_okD(5) [OF assms(1) 2(1)] entry_current_content by blast
  qed
qed

lemma stored_data_length: "stored_data disk f i k c = Some bytes \<Longrightarrow> length bytes = unat (sc_compressed_size c)"
  by (auto simp: stored_data_def split: option.splits if_splits)

lemma genuine_chunks:
  "chunks_content lib disk f i k cs = Some content \<Longrightarrow> j < length cs \<Longrightarrow> \<exists>raw. chunk_content lib disk f i (k + j) (cs ! j) = Some raw"
proof (induction cs arbitrary: k j content)
  case (Cons c cs)
  then show ?case by (cases j) (fastforce split: option.splits)+
qed simp

lemma finished_chunk:
  assumes "storage_ok lib s disk" "find_document s i = Some k" "sd_state (documents s ! k) = TRANSFER_FINISHED"
    "index < transfer_chunk_count (sd_document (documents s ! k))"
  shows "\<exists>raw. chunk_content lib disk True i (unat index) (sd_chunks (documents s ! k) ! unat index) = Some raw"
    "sc_index (sd_chunks (documents s ! k) ! unat index) = index"
proof -
  have k: "documents s ! k \<in> set (documents s)" "document_id (documents s ! k) = i" using find_document_Some [OF assms(2)] by simp_all
  have r: "record_ok (documents s ! k)" by (rule storage_okD(3) [OF assms(1) k(1)])
  have l: "unat index < length (sd_chunks (documents s ! k))" using r assms(4) by (simp add: record_ok_def word_less_nat_alt)
  obtain content where "chunks_content lib disk True i 0 (sd_chunks (documents s ! k)) = Some content"
    using storage_okD(4) [OF assms(1) k(1) assms(3)] k(2) by (auto simp: genuine_def)
  from genuine_chunks [OF this l] show c: "\<exists>raw. chunk_content lib disk True i (unat index) (sd_chunks (documents s ! k) ! unat index) = Some raw" by simp
  then have "present (sd_chunks (documents s ! k) ! unat index)" by (auto simp: chunk_content_def split: option.splits if_splits)
  then show "sc_index (sd_chunks (documents s ! k) ! unat index) = index" using r l by (simp add: record_ok_def)
qed

lemma cached_chunk:
  assumes "storage_ok lib s disk" "find_document s i = Some k" "cache_find_locked s i index = Some j"
  shows "chunk_of_record i (ce_chunk (cache s ! j)) (take (ce_size (cache s ! j)) (ce_data (cache s ! j))) =
      chunk_of_record i (sd_chunks (documents s ! k) ! unat index) (ce_data (cache s ! j))"
    "stored_data disk True i (unat index) (sd_chunks (documents s ! k) ! unat index) = Some (ce_data (cache s ! j))"
proof -
  let ?e = "cache s ! j"
  have j: "j < length (cache s)" "ce_id ?e = i" "ce_index ?e = index" using cache_find_Some [OF assms(3)] by simp_all
  then have "entry_current (documents s) disk ?e" using storage_okD(5) [OF assms(1)] by simp
  then obtain st where st: "st \<in> set (documents s)" "document_id st = i" "ce_chunk ?e = sd_chunks st ! unat index"
    "stored_data disk True i (unat index) (ce_chunk ?e) = Some (ce_data ?e)"
    using j by (auto simp: entry_current_def)
  have "st = documents s ! k"
    using st(1,2) find_document_Some [OF assms(2)] distinct_map_nth [OF storage_okD(2) [OF assms(1)]] by (metis in_set_conv_nth)
  moreover have "ce_size ?e = length (ce_data ?e)"
    using storage_okD(1) [OF assms(1)] j(1) by (simp add: cache_ok_def cache_counted_def list_all_length entry_ok_def)
  ultimately show "chunk_of_record i (ce_chunk ?e) (take (ce_size ?e) (ce_data ?e)) = chunk_of_record i (sd_chunks (documents s ! k) ! unat index) (ce_data ?e)"
    "stored_data disk True i (unat index) (sd_chunks (documents s ! k) ! unat index) = Some (ce_data ?e)"
    using st(3,4) by simp_all
qed

lemma touched_ok:
  assumes "storage_ok lib s disk" "j < length (cache s)"
  shows "storage_ok lib ((cache_touch_locked s j)\<lparr>cache_stats := (cache_stats (cache_touch_locked s j))\<lparr>hits := h\<rparr>\<rparr>) disk"
proof (rule storage_ok_cache [OF assms(1)])
  note t = cache_touch [OF storage_okD(1) [OF assms(1)] assms(2)]
  show "cache_ok ((cache_touch_locked s j)\<lparr>cache_stats := (cache_stats (cache_touch_locked s j))\<lparr>hits := h\<rparr>\<rparr>)" using t(1) by simp
  show "Cache.more ((cache_touch_locked s j)\<lparr>cache_stats := (cache_stats (cache_touch_locked s j))\<lparr>hits := h\<rparr>\<rparr>) = Cache.more s" using t(3) by simp
  fix e assume "e \<in> set (cache ((cache_touch_locked s j)\<lparr>cache_stats := (cache_stats (cache_touch_locked s j))\<lparr>hits := h\<rparr>\<rparr>))"
  then have "entry_content e \<in> set (map entry_content (cache (cache_touch_locked s j)))" by simp
  then have "entry_content e \<in> set (map entry_content (cache s))" unfolding t(2) .
  then obtain e' where "e' \<in> set (cache s)" "entry_content e = entry_content e'" by auto
  then show "entry_current (documents s) disk e" using storage_okD(5) [OF assms(1)] entry_current_content by blast
qed

lemma read_uncached_ok:
  assumes ok: "storage_ok lib s disk" and k: "find_document s i = Some k" and fin: "sd_state (documents s ! k) = TRANSFER_FINISHED"
    "index < transfer_chunk_count (sd_document (documents s ! k))" and c: "c = sd_chunks (documents s ! k) ! unat index"
    and r: "read_uncached os s disk i index c = (r, s')"
  shows "storage_ok lib s' disk \<and> (\<forall>x hit f. r = Inr (x, hit, f) \<longrightarrow> map_option (chunk_of_record i c) (stored_data disk True i (unat index) c) = Some x)"
proof -
  have idx: "sc_index c = index" unfolding c by (rule finished_chunk(2) [OF ok k fin])
  have stored: "storage_ok lib (cache_store_locked os' s i c got) disk" if sd: "stored_data disk True i (unat index) c = Some got" for os' got
  proof (rule storage_ok_cache [OF ok])
    note len = stored_data_length [OF sd]
    show "cache_ok (cache_store_locked os' s i c got)" using storage_okD(1) [OF ok] len by (rule cache_store_ok)
    show "Cache.more (cache_store_locked os' s i c got) = Cache.more s" by (rule cache_store_more [OF storage_okD(1) [OF ok]])
    show "entry_current (documents s) disk e" if "e \<in> set (cache (cache_store_locked os' s i c got))" for e
      by (rule entries_current_store [OF ok k fin c sd idx len that])
  qed
  have sd: "stored_data disk True i (unat index) c = Some got"
    if "chunk_file disk True i index = Some bytes" "read_all_fd as (unat (sc_compressed_size c)) bytes = Inr (got, rest)" for bytes as got rest
    using that(1) read_all_fd_take [OF that(2)] by (simp add: stored_data_def)
  have "(r, s') = read_uncached os s disk i index c" using r by simp
  then consider "s' = s" "isl r"
    | got f where "stored_data disk True i (unat index) c = Some got" "r = Inr (chunk_of_record i c got, False, f)"
        "s' = s \<or> s' = cache_store_locked (at os 7) s i c got"
    unfolding read_uncached_def Let_def by (auto dest: sd split: sum.splits option.splits if_splits)
  then show ?thesis
  proof cases
    case 1
    with ok show ?thesis by auto
  next
    case 2
    with stored [OF 2(1)] ok show ?thesis by auto
  qed
qed

lemma storage_read_ok:
  assumes ok: "storage_ok lib s disk" and r: "storage_read_chunk_internal os s disk i index = (r, s')"
  shows "storage_ok lib s' disk \<and> (\<forall>c hit f. r = Inr (c, hit, f) \<longrightarrow> disk_chunk s disk i index = Some c)"
proof -
  let ?s = "s\<lparr>cache_stats := (cache_stats s)\<lparr>misses := cache_increment (misses (cache_stats s))\<rparr>\<rparr>"
  have ok': "storage_ok lib ?s disk" using ok by (auto simp: storage_ok_def cache_ok_def cache_counted_def)
  have "(r, s') = storage_read_chunk_internal os s disk i index" using r by simp
  then consider "s' = s" "isl r"
    | k where "find_document s i = Some k" "sd_state (documents s ! k) = TRANSFER_FINISHED" "index < transfer_chunk_count (sd_document (documents s ! k))"
        "read_uncached os ?s disk i index (sd_chunks (documents s ! k) ! unat index) = (r, s')"
    | k j f h where "find_document s i = Some k" "sd_state (documents s ! k) = TRANSFER_FINISHED" "index < transfer_chunk_count (sd_document (documents s ! k))"
        "cache_find_locked s i index = Some j" "r = Inr (chunk_of_record i (ce_chunk (cache s ! j)) (take (ce_size (cache s ! j)) (ce_data (cache s ! j))), True, f)"
        "s' = (cache_touch_locked s j)\<lparr>cache_stats := (cache_stats (cache_touch_locked s j))\<lparr>hits := h\<rparr>\<rparr>"
    unfolding storage_read_chunk_internal_def Let_def by (auto split: option.splits if_splits)
  then show ?thesis
  proof cases
    case 1
    with ok show ?thesis by auto
  next
    case (2 k)
    have "find_document ?s i = Some k" using 2(1) by (simp add: find_document_def)
    from read_uncached_ok [OF ok' this _ _ _ 2(4)] 2(1-3) show ?thesis by (auto simp: disk_chunk_def Let_def)
  next
    case (3 k j f h)
    have "j < length (cache s)" using cache_find_Some [OF 3(4)] by blast
    note t = touched_ok [OF ok this] and c = cached_chunk [OF ok 3(1,4)]
    show ?thesis unfolding 3(5,6) using t c 3(1-3) by (auto simp: disk_chunk_def Let_def)
  qed
qed

section \<open>Opening the store\<close>

lemma sum_case_Inr:
  assumes "(case x of Inl e \<Rightarrow> Inl (f e) | Inr (a, b) \<Rightarrow> g a b) = Inr y"
  obtains a b where "x = Inr (a, b)" "g a b = Inr y"
  using assms by (auto split: sum.splits)

lemma if_else_Inr:
  assumes "(if c then Inl e else x) = Inr y"
  obtains "\<not> c" "x = Inr y"
  using assms by (auto split: if_splits)

lemma read_chunks_ok:
  "read_chunks lib os s disk d final k n rest = Inr (cs, rest') \<Longrightarrow>
     length cs = n \<and> (\<forall>j < n. \<exists>os'. chunk_record_ok lib os' s disk d final (of_nat (k + j)) (cs ! j))"
proof (induction lib os s disk d final k n rest arbitrary: cs rest' rule: read_chunks.induct)
  case (2 lib os s disk d final k n rest)
  obtain f rest1 c cs' where f: "read_fields (at os (2 * k)) 0 [8, 8, 4, 4, OBJECT_ID_SIZE, 1] rest = Inr (f, rest1)"
    "c = \<lparr>sc_index = wire_get_u64 (f ! 0), sc_offset = wire_get_u64 (f ! 1), sc_raw_size = wire_get_u32 (f ! 2),
                sc_compressed_size = wire_get_u32 (f ! 3), sc_hash = f ! 4, present = f ! 5 \<noteq> [0]\<rparr>"
    "\<not> (f ! 5 \<notin> {[0], [1]} \<or> final \<and> \<not> present c \<or> \<not> chunk_record_ok lib (at os (2 * k + 1)) s disk d final (of_nat k) c)"
    "read_chunks lib os s disk d final (Suc k) n rest1 = Inr (cs', rest')" "cs = c # cs'"
    using "2.prems" by (auto simp: Let_def split: sum.splits if_splits prod.splits)
  have ih: "length cs' = n \<and> (\<forall>j < n. \<exists>os'. chunk_record_ok lib os' s disk d final (of_nat (Suc k + j)) (cs' ! j))"
    by (rule "2.IH" [OF f(1) refl f(2,3,4)])
  have "\<exists>os'. chunk_record_ok lib os' s disk d final (of_nat (k + j)) (cs ! j)" if "j < Suc n" for j
    using that ih f(3,5) by (cases j) (auto simp del: of_nat_Suc)
  then show ?case using ih f(5) by simp
qed simp

lemma read_manifest_parts:
  assumes "read_manifest lib os s disk final name = Inr st"
  obtains h bytes bytes' cs where "Option.bind (disk final name) manifest = Some bytes" "read_manifest_header (at os 2) final bytes = Inr (h, bytes')"
    "st = h\<lparr>sd_chunks := cs\<rparr>"
    "read_chunks lib (at os 4) s disk (sd_document h) final 0 (unat (transfer_chunk_count (sd_document h))) bytes' = Inr (cs, [])"
    "final \<longrightarrow> verify_document lib (at os 6) s disk st True = None"
  using assms unfolding read_manifest_def by (auto simp: Let_def split: option.splits sum.splits prod.splits if_splits)

lemma read_manifest_ok:
  assumes "read_manifest lib os s disk final name = Inr st"
  shows "record_ok st" "final \<Longrightarrow> genuine lib disk True st"
proof -
  obtain h bytes' cs where m: "st = h\<lparr>sd_chunks := cs\<rparr>"
    "read_chunks lib (at os 4) s disk (sd_document h) final 0 (unat (transfer_chunk_count (sd_document h))) bytes' = Inr (cs, [])"
    "final \<longrightarrow> verify_document lib (at os 6) s disk st True = None"
    by (rule read_manifest_parts [OF assms]) blast
  show r: "record_ok st" using read_chunks_ok [OF m(2)] by (auto simp: m(1) record_ok_def chunk_record_ok_def)
  show "genuine lib disk True st" if final by (rule verify_document_genuine [OF mp [OF m(3) that] r])
qed

lemma read_manifest_header_state:
  "read_manifest_header os final bytes = Inr (h, rest) \<Longrightarrow>
     \<not> (final \<and> sd_state h \<noteq> TRANSFER_FINISHED \<and> sd_state h \<noteq> TRANSFER_VERIFYING \<or> \<not> final \<and> sd_state h = TRANSFER_FINISHED)"
  unfolding read_manifest_header_def Let_def
  by (elim sum_case_Inr if_else_Inr) (auto split: option.splits if_splits)

lemma read_manifest_pending:
  assumes "read_manifest lib os s disk False name = Inr st"
  shows "sd_state st \<noteq> TRANSFER_FINISHED"
  by (rule read_manifest_parts [OF assms]) (use read_manifest_header_state in fastforce)

lemma genuine_state [simp]: "genuine lib disk f (st\<lparr>sd_state := x\<rparr>) = genuine lib disk f st" "record_ok (st\<lparr>sd_state := x\<rparr>) = record_ok st"
  by (simp_all add: genuine_def record_ok_def)

lemma load_entry_ok:
  assumes ok: "storage_ok lib s disk" and l: "load_entry lib os final name s disk = (r, s', disk')"
  shows "storage_ok lib s' disk'"
proof -
  have "(r, s', disk') = load_entry lib os final name s disk" using l by simp
  then consider "s' = s" "disk' = disk"
    | st where "read_manifest lib (at os 0) s disk False name = Inr st" "find_document s (document_id st) = None"
        "s' = s\<lparr>documents := st # documents s\<rparr>" "disk' = disk"
    | st r1 where "read_manifest lib (at os 0) s disk True name = Inr st" "find_document s (document_id st) = None"
        "s' = s \<or> s' = s\<lparr>documents := st\<lparr>sd_state := TRANSFER_FINISHED\<rparr> # documents s\<rparr>"
        "disk' = disk \<or> write_manifest lib (at os 1) s disk (st\<lparr>sd_state := TRANSFER_FINISHED\<rparr>) True = (r1, disk')"
    unfolding load_entry_def Let_def by (cases final) (auto split: if_splits sum.splits prod.splits)
  then show ?thesis
  proof cases
    case (2 st)
    then show ?thesis using storage_ok_add [OF ok 2(2)] read_manifest_ok(1) [OF 2(1)] read_manifest_pending [OF 2(1)] by simp
  next
    case (3 st r1)
    have f: "chunk_file disk' f i j = chunk_file disk f i j" for f i j using 3(4) write_manifest_files by auto
    then have ok': "storage_ok lib s disk'" by (intro storage_ok_disk [OF ok])
    have "genuine lib disk' True st" using read_manifest_ok(2) [OF 3(1)] genuine_cong [of disk' True st disk True] f by simp
    then have "storage_ok lib (s\<lparr>documents := st\<lparr>sd_state := TRANSFER_FINISHED\<rparr> # documents s\<rparr>) disk'"
      using 3(2) read_manifest_ok(1) [OF 3(1)] by (intro storage_ok_add [OF ok']) simp_all
    with ok' 3(3) show ?thesis by auto
  qed (use ok in simp)
qed

lemma load_names_ok:
  "storage_ok lib s disk \<Longrightarrow> load_names lib os final k names s disk = (r, s', disk') \<Longrightarrow> storage_ok lib s' disk'"
proof (induction names arbitrary: k s disk)
  case (Cons name names)
  obtain r1 s1 disk1 where e: "load_entry lib (at os k) final name s disk = (r1, s1, disk1)" by (cases "load_entry lib (at os k) final name s disk") auto
  have "storage_ok lib s1 disk1" by (rule load_entry_ok [OF Cons.prems(1) e])
  with Cons.IH [of s1 disk1 "Suc k"] Cons.prems(2) e show ?case by (auto split: option.splits)
qed simp

lemma load_documents_ok:
  assumes "storage_ok lib s disk" "load_documents lib os final names s disk = (r, s', disk')"
  shows "storage_ok lib s' disk'"
proof -
  obtain r1 s1 disk1 where e: "load_names lib (at os 1) final 0 names s disk = (r1, s1, disk1)" by (cases "load_names lib (at os 1) final 0 names s disk") auto
  have "storage_ok lib s1 disk1" by (rule load_names_ok [OF assms(1) e])
  with assms e show ?thesis by (auto simp: load_documents_def split: if_splits option.splits)
qed

lemma storage_create_ok:
  assumes "storage_create lib os root owner names disk = (Inr s, disk')"
  shows "storage_ok lib s disk'"
proof -
  let ?s = "\<lparr>cache = [], cache_stats = \<lparr>capacity_bytes = STORAGE_DEFAULT_CACHE_BYTES, used_bytes = 0, entries_count = 0, hits = 0, misses = 0,
                evictions = 0\<rparr>, cache_clock = 0, storage_root = root, storage_owner = owner, documents = []\<rparr>"
  have "storage_ok lib ?s disk" by (simp add: storage_ok_def cache_ok_def cache_counted_def)
  moreover obtain s1 disk1 where "load_documents lib (at os 5) True (names True) ?s disk = (None, s1, disk1)"
    "load_documents lib (at os 6) False (names False) s1 disk1 = (None, s, disk')"
    using assms unfolding storage_create_def Let_def by (auto split: if_splits option.splits prod.splits)
  ultimately show ?thesis using load_documents_ok by blast
qed

section \<open>Runs of the store\<close>

inductive storage_step :: "storage_lib \<Rightarrow> Storage \<times> disk \<Rightarrow> Storage \<times> disk \<Rightarrow> bool" for lib where
  step_begin: "storage_begin lib os now s disk d = (r, s', disk') \<Longrightarrow> storage_step lib (s, disk) (s', disk')"
| step_put: "storage_put_chunk lib os s disk c = (r, s', disk') \<Longrightarrow> storage_step lib (s, disk) (s', disk')"
| step_commit: "storage_commit lib os s disk i = (x, s', disk') \<Longrightarrow> storage_step lib (s, disk) (s', disk')"
| step_read: "storage_read_chunk_internal os s disk i index = (y, s') \<Longrightarrow> storage_step lib (s, disk) (s', disk)"
| step_capacity: "storage_set_cache_capacity os s n = (r, s') \<Longrightarrow> storage_step lib (s, disk) (s', disk)"

text \<open>A store is reached from its creation on a disk with any contents, in any environment.\<close>

definition storage_reachable :: "storage_lib \<Rightarrow> Storage \<Rightarrow> disk \<Rightarrow> bool" where
  "storage_reachable lib s disk \<longleftrightarrow> (\<exists>os root owner names disk0 s1 disk1. storage_create lib os root owner names disk0 = (Inr s1, disk1) \<and>
     (storage_step lib)\<^sup>*\<^sup>* (s1, disk1) (s, disk))"

lemma set_capacity_ok:
  assumes ok: "storage_ok lib s disk" and r: "storage_set_cache_capacity os s n = (r, s')"
  shows "storage_ok lib s' disk"
proof (cases "fault (at os 0)")
  case None
  let ?s = "s\<lparr>cache_stats := (cache_stats s)\<lparr>capacity_bytes := n\<rparr>\<rparr>"
  have s': "s' = cache_evict_to_capacity_locked ?s" using r None by (simp add: storage_set_cache_capacity_def)
  obtain vs where e: "evicted ?s vs s'" using evict_to_capacity_evicted s' by blast
  have c: "cache_counted ?s" using storage_okD(1) [OF ok] by (simp add: cache_ok_def cache_counted_def)
  have "cache_ok s'" using evicted_keeps(1,3) [OF e] c evict_to_capacity_fits [OF c] s' by (simp add: cache_ok_def)
  then show ?thesis using evicted_keeps(4) [OF e] evicted_set [OF e] storage_okD(5) [OF ok] by (intro storage_ok_cache [OF ok]) auto
qed (use ok r in \<open>simp add: storage_set_cache_capacity_def\<close>)

lemma storage_step_ok: "storage_step lib (s, disk) (s', disk') \<Longrightarrow> storage_ok lib s disk \<Longrightarrow> storage_ok lib s' disk'"
  by (erule storage_step.cases) (auto intro: storage_begin_ok storage_put_chunk_ok storage_commit_ok set_capacity_ok dest: storage_read_ok)

lemma storage_reachable_ok:
  assumes "storage_reachable lib s disk"
  shows "storage_ok lib s disk"
proof -
  obtain os root owner names disk0 s1 disk1 where c: "storage_create lib os root owner names disk0 = (Inr s1, disk1)"
    and r: "(storage_step lib)\<^sup>*\<^sup>* (s1, disk1) (s, disk)" using assms by (auto simp: storage_reachable_def)
  from r show ?thesis
    by (induction rule: rtranclp_induct2) (use storage_create_ok [OF c] storage_step_ok in blast)+
qed

lemma read_calm:
  assumes ok: "storage_ok lib s disk" and d: "disk_chunk s disk i index = Some c" and p: "\<not> isl (chunk_path s i True)"
  shows "\<exists>hit f s'. storage_read_chunk_internal calm s disk i index = (Inr (c, hit, f), s')"
proof -
  obtain k where k: "find_document s i = Some k" "sd_state (documents s ! k) = TRANSFER_FINISHED" "\<not> transfer_chunk_count (sd_document (documents s ! k)) \<le> index"
    and c: "map_option (chunk_of_record i (sd_chunks (documents s ! k) ! unat index)) (stored_data disk True i (unat index) (sd_chunks (documents s ! k) ! unat index)) = Some c"
    using d by (auto simp: disk_chunk_def Let_def split: option.splits if_splits)
  let ?r = "sd_chunks (documents s ! k) ! unat index" and ?s = "s\<lparr>cache_stats := (cache_stats s)\<lparr>misses := cache_increment (misses (cache_stats s))\<rparr>\<rparr>"
  show ?thesis
  proof (cases "cache_find_locked s i index")
    case (Some j)
    then show ?thesis using k c cached_chunk [OF ok k(1) Some] by (auto simp: storage_read_chunk_internal_def Let_def)
  next
    case None
    obtain got where got: "stored_data disk True i (unat index) ?r = Some got" "c = chunk_of_record i ?r got" using c by auto
    then obtain bytes where b: "chunk_file disk True i index = Some bytes" "unat (sc_compressed_size ?r) \<le> length bytes" "got = take (unat (sc_compressed_size ?r)) bytes"
      by (auto simp: stored_data_def split: option.splits if_splits)
    have q: "\<exists>n. chunk_path ?s i True = Inr n" using p by (cases "chunk_path s i True") (simp_all add: chunk_path_def document_directory_def)
    have "\<exists>f s'. read_uncached calm ?s disk i index ?r = (Inr (c, False, f), s')"
      using q b got(2) by (auto simp: read_uncached_def Let_def read_all_fd_calm)
    then show ?thesis using k None by (simp add: storage_read_chunk_internal_def Let_def) blast
  qed
qed

lemma chunk_contents:
  "chunks_content lib disk f i k cs = Some content \<Longrightarrow>
     \<exists>contents. length contents = length cs \<and> concat contents = content \<and> (\<forall>j < length cs. chunk_content lib disk f i (k + j) (cs ! j) = Some (contents ! j))"
proof (induction cs arbitrary: k content)
  case (Cons c cs)
  obtain raw rest where r: "chunk_content lib disk f i k c = Some raw" "chunks_content lib disk f i (Suc k) cs = Some rest" "content = raw @ rest"
    using Cons.prems by (auto split: option.splits)
  from Cons.IH [OF r(2)] obtain contents where t: "length contents = length cs" "concat contents = rest"
    "\<forall>j < length cs. chunk_content lib disk f i (Suc k + j) (cs ! j) = Some (contents ! j)" by blast
  have "chunk_content lib disk f i (k + j) ((c # cs) ! j) = Some ((raw # contents) ! j)" if "j < length (c # cs)" for j
    using that r(1) t(3) by (cases j) simp_all
  then show ?case using t(1,2) r(3) by (intro exI [of _ "raw # contents"]) simp
qed simp

end
