(* ===== verification/Superpeer.thy ===== *)
theory Superpeer
  imports Heartbeat_Safety Directory C4_Cluster Chord_Network Storage_Safety
begin

text \<open>
  The program of a Super Peer (\<^verbatim>\<open>superpeer.c\<close>): the dispatch of requests to membership, directory, storage, replication and ring, with
  the loop over a connection.

  The table of members is shared: the detector has it, the cluster and the directory read it there. The index is the context of the
  cluster, whose entries are applied to it. A remote call is the one of \<open>C4_Cluster\<close>, on a world of any type. A request is one
  step. Where the code refuses without setting \<open>errno\<close>, the error is \<open>EOTHER 0\<close>. Lines printed to the terminal are left out.
\<close>

section \<open>Data\<close>

record PeerContext =
  sp_node :: Node
  sp_storage :: Storage
  sp_disk :: disk
  sp_chord :: Chord
  sp_heartbeat :: Heartbeat
  sp_c4 :: "MetadataStore C4Cluster"

text \<open>What a request finds of process and clocks: the number of the process, the readings of the wall and the monotonic clock, and the time of an upload or a reply.\<close>

record occasion =
  oc_pid :: int
  oc_wall :: "nat \<Rightarrow> int"
  oc_clock :: "nat \<Rightarrow> int"
  oc_time :: u64

abbreviation base_lib :: "storage_lib \<Rightarrow> lib" where
  "base_lib lib \<equiv> lib.truncate lib"

definition table :: "PeerContext \<Rightarrow> SuperPeer" where
  "table p = hb_members (sp_heartbeat p)"

definition set_table :: "SuperPeer \<Rightarrow> PeerContext \<Rightarrow> PeerContext" where
  "set_table t p = p\<lparr>sp_heartbeat := (sp_heartbeat p)\<lparr>hb_members := t\<rparr>\<rparr>"

definition metadata :: "PeerContext \<Rightarrow> MetadataStore" where
  "metadata p = cl_context (sp_c4 p)"

definition set_metadata :: "MetadataStore \<Rightarrow> PeerContext \<Rightarrow> PeerContext" where
  "set_metadata s p = p\<lparr>sp_c4 := (sp_c4 p)\<lparr>cl_context := s\<rparr>\<rparr>"

definition cluster :: "PeerContext \<Rightarrow> MetadataStore C4Cluster" where
  "cluster p = (sp_c4 p)\<lparr>cl_members := table p\<rparr>"

section \<open>Options\<close>

definition parse_port :: "byte list \<Rightarrow> u16 option" where
  "parse_port text = (if text = [] then None else map_option of_nat (number_in 1 65535 text))"

definition configure_superpeer_cache :: "os \<Rightarrow> byte list option \<Rightarrow> Storage \<Rightarrow> errno option \<times> Storage" where
  "configure_superpeer_cache os value s =
     (case value of None \<Rightarrow> (None, s)
      | Some text \<Rightarrow>
          if text = [] \<or> hd text = 0x2d then (Some EINVAL, s)
          else (case number_in 0 SIZE_MAX text of None \<Rightarrow> (Some EINVAL, s) | Some n \<Rightarrow> storage_set_cache_capacity os s n))"

definition parse_command_type :: "string \<Rightarrow> Message_Type option" where
  "parse_command_type text =
     (if text = ''ping'' then Some M_PING else if text = ''join'' then Some M_JOIN else if text = ''leave'' then Some M_LEAVE else None)"

section \<open>Replies\<close>

definition PING_PAYLOAD :: "byte list" where
  "PING_PAYLOAD = [0x50, 0x49, 0x4e, 0x47]"

definition PONG_PAYLOAD :: "byte list" where
  "PONG_PAYLOAD = [0x50, 0x4f, 0x4e, 0x47]"

definition message_payload_equals :: "message \<Rightarrow> byte list \<Rightarrow> bool" where
  "message_payload_equals m text \<longleftrightarrow> unat (header_payload_size (message_header m)) = length text \<and> message_payload m = Some text"

definition node_id_is_zero :: "NodeID \<Rightarrow> bool" where
  "node_id_is_zero i \<longleftrightarrow> list_all (\<lambda>b. b = 0) i"

text \<open>What is answered: a payload, the descriptor of this node with an acknowledgement, or the code of an error.\<close>

datatype response = Answer byte "byte list" | Descriptor | Refusal errno

text \<open>The call sites are the allocation of the payload (0) and the sending (1).\<close>

definition reply_message :: "lib \<Rightarrow> os \<Rightarrow> u64 \<Rightarrow> Node \<Rightarrow> message \<Rightarrow> response \<Rightarrow> message result" where
  "reply_message lib os now n request r =
     (let h = message_header request;
          reply = (\<lambda>type bytes. \<lparr>message_header = (message_header message_init)\<lparr>message_type := type, source_node := id_of n, destination_node := source_node h,
               header_transaction_id := header_transaction_id h, timestamp := now, header_payload_size := of_nat (length bytes)\<rparr>,
             message_payload = (if bytes = [] then None else Some bytes)\<rparr>);
          copied = (\<lambda>type bytes. if bytes = [] then Inr (reply type bytes) else (case fault (at os 0) of Some e \<Rightarrow> Inl e | None \<Rightarrow> Inr (reply type bytes))) in
      case r of Refusal e \<Rightarrow> copied (m_type M_ERROR) (remote_error_encode e)
      | Answer type bytes \<Rightarrow> copied type bytes
      | Descriptor \<Rightarrow>
          (case fault (at os 0) of Some e \<Rightarrow> Inl e
           | None \<Rightarrow> (case rpc_encode_join_payload lib (config n) of Inl e \<Rightarrow> Inl e | Inr bytes \<Rightarrow> Inr (reply (m_type M_ACK) bytes))))"

definition send_reply :: "lib \<Rightarrow> zcrc \<Rightarrow> os \<Rightarrow> u64 \<Rightarrow> Node \<Rightarrow> message \<Rightarrow> response \<Rightarrow> bool \<times> byte list" where
  "send_reply lib crc os now n request r =
     (case reply_message lib (at os 0) now n request r of Inl _ \<Rightarrow> (False, [])
      | Inr m \<Rightarrow> (case protocol_send_message crc (at os 1) m of (result, sent) \<Rightarrow> (result = PROTOCOL_OK, sent)))"

section \<open>Members that join and leave\<close>

definition register_join :: "lib \<Rightarrow> os \<Rightarrow> occasion \<Rightarrow> PeerContext \<Rightarrow> message \<Rightarrow> errno option \<times> PeerContext" where
  "register_join lib os oc p m =
     (let h = message_header m; n = unat (header_payload_size h); bytes = payload_bytes m in
      if \<not> node_id_is_zero (destination_node h) \<and> destination_node h \<noteq> id_of (sp_node p) then (Some EHOSTUNREACH, p)
      else
        let inc = (if n = JOIN_PAYLOAD_WIRE_SIZE + 9 \<and> bytes ! JOIN_PAYLOAD_WIRE_SIZE = 1 then wire_get_u64 (drop (JOIN_PAYLOAD_WIRE_SIZE + 1) bytes) else 0) in
        if n \<noteq> JOIN_PAYLOAD_WIRE_SIZE \<and> (n \<noteq> JOIN_PAYLOAD_WIRE_SIZE + 9 \<or> inc = 0) then (Some (EOTHER 0), p)
        else case rpc_decode_join_payload lib (take JOIN_PAYLOAD_WIRE_SIZE bytes) of Inl e \<Rightarrow> (Some e, p)
        | Inr c \<Rightarrow>
            (case node_init lib (oc_pid oc) c of Inl e \<Rightarrow> (Some e, p)
             | Inr remote \<Rightarrow>
                 if id_of remote \<noteq> source_node h then (Some EINVAL, p)
                 else if node_id_equal (id_of remote) (id_of (sp_node p)) then (Some EEXIST, p)
                 else (let (r, hb) = heartbeat_register lib (at os 0) (oc_wall oc) (oc_clock oc) (sp_heartbeat p) remote inc in
                       (r, p\<lparr>sp_heartbeat := hb\<rparr>))))"

text \<open>
  A member that leaves: the message says nothing, or the incarnation under which it is known. The result is what is answered and whether the
  connection ends when that fails. The call sites are the search (0), the removal (1), the index (2) and the ledger (3).
\<close>

definition valid_leave :: "PeerContext \<Rightarrow> SuperPeerMember option \<Rightarrow> message \<Rightarrow> bool" where
  "valid_leave p known m \<longleftrightarrow>
     (let h = message_header m; n = unat (header_payload_size h); bytes = payload_bytes m in
      if n = 0 then (case known of None \<Rightarrow> True | Some leaving \<Rightarrow> incarnation leaving = 0)
      else n = 9 \<and> bytes ! 0 = 1 \<and> (case known of None \<Rightarrow> False | Some leaving \<Rightarrow> wire_get_u64 (drop 1 bytes) = incarnation leaving) \<and>
        destination_node h = id_of (sp_node p))"

definition handle_leave :: "lib \<Rightarrow> os \<Rightarrow> PeerContext \<Rightarrow> message \<Rightarrow> (bool \<times> response) \<times> PeerContext" where
  "handle_leave lib os p m =
     (let departed = source_node (message_header m);
          known = (case superpeer_find_member (at os 0) (table p) departed of Inl _ \<Rightarrow> None | Inr leaving \<Rightarrow> Some leaving) in
      if \<not> valid_leave p known m then ((False, Refusal ESTALE), p)
      else if node_id_is_zero departed then ((True, Answer (m_type M_ACK) []), p)
      else
        let (r, t) = superpeer_unregister_node (at os 1) (table p) departed; p = set_table t p in
        ((True, Answer (m_type M_ACK) []),
         if r \<noteq> None then p
         else (let p = set_metadata (snd (metadata_remove_peer (at os 2) (metadata p) departed)) p in
               p\<lparr>sp_heartbeat := snd (heartbeat_checkpoint lib (at os 3) (sp_heartbeat p))\<rparr>)))"

text \<open>The call back of the detector for a member that has failed.\<close>

definition membership_failure :: "os \<Rightarrow> SuperPeerMember \<Rightarrow> PeerContext \<Rightarrow> PeerContext" where
  "membership_failure os m p =
     (if role (member_node m) = NODE_ROLE_SUPERPEER then p\<lparr>sp_chord := snd (chord_forget os (sp_chord p) (member_id m))\<rparr>
      else if local_registration m then set_metadata (snd (metadata_remove_peer os (metadata p) (member_id m))) p
      else p)"

section \<open>Announcements\<close>

text \<open>The call sites are the decoding (0) and the index (1).\<close>

definition apply_c4_entry :: "os \<Rightarrow> MetadataStore applier" where
  "apply_c4_entry os s e =
     (if unat (payload_size e) \<le> NODE_ID_SIZE \<or> payload e = None then (Some EBADMSG, s)
      else case transfer_decode_announcement (at os 0) (drop NODE_ID_SIZE (entry_payload e)) of Inl er \<Rightarrow> (Some er, s)
      | Inr (d, cs) \<Rightarrow> directory_announce (at os 1) s d cs (take NODE_ID_SIZE (entry_payload e)))"

text \<open>
  The node that coordinates submits the announcement, any other sends it on. The call sites are the submission (0) with the entries
  applied in it (1), the search for the coordinator (2) and the allocation (3).
\<close>

definition process_announcement ::
  "zcrc \<Rightarrow> os \<Rightarrow> 'w remote \<Rightarrow> PeerContext \<Rightarrow> NodeID \<Rightarrow> byte list \<Rightarrow> byte list \<Rightarrow> 'w \<Rightarrow> errno option \<times> PeerContext \<times> 'w" where
  "process_announcement crc os rpc p owner_id bytes tid w =
     (if c4_cluster_is_leader (cluster p) then
        (let (ok, cl, w) = c4_cluster_submit crc (at os 0) (apply_c4_entry (at os 1)) rpc (cluster p) tid owner_id bytes w in
         (if ok then None else Some (EOTHER 0), p\<lparr>sp_c4 := cl\<rparr>, w))
      else case c4_cluster_get_leader (cluster p) of None \<Rightarrow> (Some EHOSTUNREACH, p, w)
      | Some coordinator \<Rightarrow>
          (case superpeer_find_member (at os 2) (table p) coordinator of Inl _ \<Rightarrow> (Some EHOSTUNREACH, p, w)
           | Inr destination \<Rightarrow>
               if role (member_node destination) \<noteq> NODE_ROLE_SUPERPEER \<or> SUPERPEER_MEMBER_FAILED \<le> member_state destination
               then (Some EHOSTUNREACH, p, w)
               else if unat MAX_PAYLOAD_SIZE - NODE_ID_SIZE - TRANSACTION_ID_SIZE < length bytes then (Some EMSGSIZE, p, w)
               else case fault (at os 3) of Some e \<Rightarrow> (Some e, p, w)
               | None \<Rightarrow>
                   (case rpc w destination (m_type M_STORE) None (owner_id @ tid @ bytes) of
                      (Inl e, w) \<Rightarrow> (Some e, p, w)
                    | (Inr (type, _), w) \<Rightarrow> (if type \<noteq> m_type M_ACK then Some EREMOTEIO else None, p, w))))"

text \<open>The call sites are the search for the sender (0), its registration (1) and the announcement (2).\<close>

definition handle_announcement :: "zcrc \<Rightarrow> os \<Rightarrow> 'w remote \<Rightarrow> PeerContext \<Rightarrow> message \<Rightarrow> 'w \<Rightarrow> errno option \<times> PeerContext \<times> 'w" where
  "handle_announcement crc os rpc p m w =
     (let h = message_header m; source = source_node h; bytes = payload_bytes m; n = unat (header_payload_size h) in
      case superpeer_find_member (at os 0) (table p) source of Inl _ \<Rightarrow> (Some EACCES, p, w)
      | Inr member \<Rightarrow>
          (case (if role (member_node member) = NODE_ROLE_SUPERPEER then
                   (if n \<le> NODE_ID_SIZE + TRANSACTION_ID_SIZE then Inl EBADMSG
                    else Inr (take NODE_ID_SIZE bytes, take TRANSACTION_ID_SIZE (drop NODE_ID_SIZE bytes), drop (NODE_ID_SIZE + TRANSACTION_ID_SIZE) bytes))
                 else if \<not> superpeer_is_registered (at os 1) (table p) source then Inl EACCES
                 else Inr (source, header_transaction_id h, bytes)) of
             Inl e \<Rightarrow> (Some e, p, w)
           | Inr (owner_id, tid, announcement) \<Rightarrow>
               if announcement = [] \<or> hd announcement \<noteq> store_code TRANSFER_STORE_ANNOUNCE then (Some EBADMSG, p, w)
               else process_announcement crc (at os 2) rpc p owner_id announcement tid w))"

section \<open>Uploads\<close>

text \<open>The call sites of an upload that ends are the document (0), its descriptors (1), their encoding (2) and the announcement (3).\<close>

definition commit_upload :: "storage_lib \<Rightarrow> zcrc \<Rightarrow> os \<Rightarrow> 'w remote \<Rightarrow> PeerContext \<Rightarrow> message \<Rightarrow> 'w \<Rightarrow> errno option \<times> PeerContext \<times> 'w" where
  "commit_upload lib crc os rpc p m w =
     (case transfer_decode_object_operation (payload_bytes m) (store_code TRANSFER_STORE_COMMIT) of Inl e \<Rightarrow> (Some e, p, w)
      | Inr i \<Rightarrow>
          (case storage_commit lib (at os 0) (sp_storage p) (sp_disk p) i of
             (Inl e, s, disk) \<Rightarrow> (Some e, p\<lparr>sp_storage := s, sp_disk := disk\<rparr>, w)
           | (Inr d, s, disk) \<Rightarrow>
               (let p = p\<lparr>sp_storage := s, sp_disk := disk\<rparr> in
                case storage_descriptors (at os 1) s i of Inl e \<Rightarrow> (Some e, p, w)
                | Inr cs \<Rightarrow>
                    (case transfer_encode_announcement (at os 2) d cs of Inl e \<Rightarrow> (Some e, p, w)
                     | Inr announcement \<Rightarrow>
                         process_announcement crc (at os 3) rpc p (id_of (sp_node p)) announcement (header_transaction_id (message_header m)) w))))"

definition handle_client_store ::
  "storage_lib \<Rightarrow> zcrc \<Rightarrow> os \<Rightarrow> occasion \<Rightarrow> 'w remote \<Rightarrow> PeerContext \<Rightarrow> message \<Rightarrow> 'w \<Rightarrow> errno option \<times> PeerContext \<times> 'w" where
  "handle_client_store lib crc os oc rpc p m w =
     (if message_payload m = None \<or> header_payload_size (message_header m) = 0 then (Some EBADMSG, p, w)
      else
        let bytes = payload_bytes m; operation = hd bytes in
        if operation = store_code TRANSFER_STORE_ANNOUNCE then handle_announcement crc os rpc p m w
        else if operation = store_code TRANSFER_STORE_BEGIN then
          (case transfer_decode_document bytes (store_code TRANSFER_STORE_BEGIN) of Inl e \<Rightarrow> (Some e, p, w)
           | Inr d \<Rightarrow>
               (let (r, s, disk) = storage_begin lib os (oc_time oc) (sp_storage p) (sp_disk p) d in
                (r, p\<lparr>sp_storage := s, sp_disk := disk\<rparr>, w)))
        else if operation = store_code TRANSFER_STORE_CHUNK then
          (case transfer_decode_chunk bytes (store_code TRANSFER_STORE_CHUNK) of Inl e \<Rightarrow> (Some e, p, w)
           | Inr c \<Rightarrow>
               (let (r, s, disk) = storage_put_chunk lib os (sp_storage p) (sp_disk p) c in
                (r, p\<lparr>sp_storage := s, sp_disk := disk\<rparr>, w)))
        else if operation = store_code TRANSFER_STORE_COMMIT then commit_upload lib crc os rpc p m w
        else (Some ENOTSUP, p, w))"

section \<open>Lookups and downloads\<close>

text \<open>The call sites are the index (0), the encoding (1), the document (2) and its first chunk (3), which is read to keep it in the cache.\<close>

definition answer_lookup :: "os \<Rightarrow> PeerContext \<Rightarrow> message \<Rightarrow> response \<times> PeerContext" where
  "answer_lookup os p m =
     (case transfer_decode_lookup_request (payload_bytes m) of Inl e \<Rightarrow> (Refusal e, p)
      | Inr (type, i, name) \<Rightarrow>
          (case directory_lookup (at os 0) (metadata p) (table p) type i (cstr name) of Inl e \<Rightarrow> (Refusal e, p)
           | Inr result \<Rightarrow>
               (case transfer_encode_lookup_result (at os 1) result of Inl e \<Rightarrow> (Refusal e, p)
                | Inr bytes \<Rightarrow>
                    (let d = lookup_document result; j = transfer_id d in
                     (Answer (m_type M_DOWNLOAD_REP) bytes,
                      if 0 < transfer_chunk_count d \<and> (case storage_find (at os 2) (sp_storage p) TRANSFER_SELECTOR_OBJECT_ID j [] of Inl _ \<Rightarrow> False | Inr _ \<Rightarrow> True)
                      then p\<lparr>sp_storage := snd (storage_read_chunk_with_cache_info (at os 3) (sp_storage p) (sp_disk p) j 0)\<rparr> else p)))))"

definition answer_chunk_download :: "os \<Rightarrow> PeerContext \<Rightarrow> message \<Rightarrow> response \<times> PeerContext" where
  "answer_chunk_download os p m =
     (case transfer_decode_chunk_request (payload_bytes m) of Inl e \<Rightarrow> (Refusal e, p)
      | Inr (i, index) \<Rightarrow>
          (case storage_read_chunk_with_cache_info (at os 0) (sp_storage p) (sp_disk p) i index of
             (Inl e, s) \<Rightarrow> (Refusal e, p\<lparr>sp_storage := s\<rparr>)
           | (Inr (c, _), s) \<Rightarrow>
               (case transfer_encode_chunk (at os 1) c (download_code TRANSFER_DOWNLOAD_CHUNK) of
                  Inl e \<Rightarrow> (Refusal e, p\<lparr>sp_storage := s\<rparr>)
                | Inr bytes \<Rightarrow> (Answer (m_type M_DOWNLOAD_REP) bytes, p\<lparr>sp_storage := s\<rparr>))))"

section \<open>Requests\<close>

definition outcome :: "errno option \<Rightarrow> response" where
  "outcome r = (case r of None \<Rightarrow> Answer (m_type M_ACK) [] | Some e \<Rightarrow> Refusal e)"

definition answer_of :: "(byte \<times> byte list) result \<Rightarrow> response" where
  "answer_of r = (case r of Inl e \<Rightarrow> Refusal e | Inr (type, bytes) \<Rightarrow> Answer type bytes)"

text \<open>The requests that have to name this node and a sender.\<close>

definition misaddressed :: "PeerContext \<Rightarrow> message \<Rightarrow> bool" where
  "misaddressed p m \<longleftrightarrow>
     (let h = message_header m in
      message_type h \<in> {m_type M_LOOKUP, m_type M_STORE, m_type M_DOWNLOAD_REQ} \<and>
      (node_id_is_zero (source_node h) \<or> destination_node h \<noteq> id_of (sp_node p)))"

definition serve_chord :: "lib \<Rightarrow> os \<Rightarrow> occasion \<Rightarrow> PeerContext \<Rightarrow> message \<Rightarrow> response \<times> PeerContext" where
  "serve_chord lib os oc p m =
     (let h = message_header m; bytes = payload_bytes m;
          p = (if message_type h = m_type M_CHORD_NOTIFY \<and> unat (header_payload_size h) = JOIN_PAYLOAD_WIRE_SIZE then
                 (case rpc_decode_join_payload lib bytes of Inl _ \<Rightarrow> p
                  | Inr candidate \<Rightarrow> p\<lparr>sp_heartbeat := snd (heartbeat_discover lib (at os 0) (oc_pid oc) (oc_wall oc) (oc_clock oc) (sp_heartbeat p) candidate)\<rparr>)
               else p);
          (r, chord) = chord_network_handle lib (sp_chord p) m in
      (answer_of r, p\<lparr>sp_chord := chord\<rparr>))"

definition cluster_types :: "byte set" where
  "cluster_types = m_type ` {M_ELECTION, M_COORDINATOR, M_SNAPSHOT, M_STATE_TRANSFER, M_PREPARE, M_COMMIT, M_ABORT, M_IST_REQUEST}"

text \<open>One round of the loop over a connection: what is answered, whether the connection ends when the answer cannot be sent, and the states after it.\<close>

definition serve_request ::
  "storage_lib \<Rightarrow> zcrc \<Rightarrow> os \<Rightarrow> occasion \<Rightarrow> 'w remote \<Rightarrow> PeerContext \<Rightarrow> message \<Rightarrow> 'w \<Rightarrow> (bool \<times> response) \<times> PeerContext \<times> 'w" where
  "serve_request lib crc os oc rpc p m w =
     (let h = message_header m; type = message_type h in
      if misaddressed p m then ((False, Refusal EACCES), p, w)
      else if type = m_type M_JOIN then
        (let (r, p) = register_join (base_lib lib) os oc p m in ((True, case r of None \<Rightarrow> Descriptor | Some e \<Rightarrow> Refusal e), p, w))
      else if type = m_type M_PING then
        ((True, if message_payload_equals m PING_PAYLOAD then Answer (m_type M_PONG) PONG_PAYLOAD else Refusal (EOTHER 0)), p, w)
      else if type = m_type M_LEAVE then (let (r, p) = handle_leave (base_lib lib) os p m in (r, p, w))
      else if type = m_type M_STORE \<and> 0 < header_payload_size h then
        (let (r, p, w) = handle_client_store lib crc os oc rpc p m w in ((True, outcome r), p, w))
      else if type = m_type M_LOOKUP then (let (r, p) = answer_lookup os p m in ((True, r), p, w))
      else if type = m_type M_DOWNLOAD_REQ then (let (r, p) = answer_chunk_download os p m in ((True, r), p, w))
      else if type = m_type M_HEARTBEAT \<or> type = m_type M_GOSSIP then
        (let (r, hb) = heartbeat_handle (base_lib lib) os (oc_pid oc) (oc_wall oc) (oc_clock oc) (sp_heartbeat p) m in
         ((True, answer_of r), p\<lparr>sp_heartbeat := hb\<rparr>, w))
      else if type \<in> cluster_types then
        (let (r, cl, w) = c4_cluster_handle crc (at os 0) (apply_c4_entry (at os 1)) rpc (cluster p) m w in
         ((True, answer_of r), p\<lparr>sp_c4 := cl\<rparr>, w))
      else if m_type M_CHORD_INFO \<le> type \<and> type \<le> m_type M_CHORD_FINGER then
        (let (r, p) = serve_chord (base_lib lib) os oc p m in ((True, r), p, w))
      else ((True, Refusal ENOTSUP), p, w))"

section \<open>A connection\<close>

lemma receive_shorter:
  assumes "protocol_receive_message crc os stream old = (PROTOCOL_OK, m, rest)"
  shows "length rest < length stream"
proof -
  obtain serialized rest1 where r: "network_recv_exact (at os 0 []) HEADER_WIRE_SIZE stream = Inr (serialized, rest1)" "length serialized = HEADER_WIRE_SIZE"
    using assms by (auto simp: protocol_receive_message_def split: sum.splits if_splits)
  have s: "stream = serialized @ rest1" using network_recv_exact_prefix [OF r(1)] by simp
  have "rest = rest1 \<or> (\<exists>as n got. network_recv_exact as n rest1 = Inr (got, rest))"
    using assms r by (auto simp: protocol_receive_message_def split: sum.splits if_splits option.splits)
  then have "length rest \<le> length rest1" using network_recv_exact_prefix by fastforce
  then show ?thesis using r(2) s by (simp add: HEADER_WIRE_SIZE_def)
qed

text \<open>
  The loop over the requests of a connection, on the bytes that arrive: the bytes that are sent back and the states after it. Round \<open>k\<close> has
  the environment \<open>at os k\<close> and the occasion \<open>oc k\<close>.
\<close>

function handle_client ::
  "storage_lib \<Rightarrow> zcrc \<Rightarrow> os \<Rightarrow> (nat \<Rightarrow> occasion) \<Rightarrow> 'w remote \<Rightarrow> nat \<Rightarrow> PeerContext \<Rightarrow> 'w \<Rightarrow> byte list \<Rightarrow> byte list \<times> PeerContext \<times> 'w" where
  "handle_client lib crc os oc rpc k p w stream =
     (case protocol_receive_message crc (at (at os k) 0) stream message_init of
        (PROTOCOL_OK, m, rest) \<Rightarrow>
          (let ((strict, r), p, w) = serve_request lib crc (at (at os k) 1) (oc k) rpc p m w;
               (ok, sent) = send_reply (base_lib lib) crc (at (at os k) 2) (oc_time (oc k)) (sp_node p) m r in
           if strict \<and> \<not> ok then (sent, p, w)
           else (let (more, p, w) = handle_client lib crc os oc rpc (Suc k) p w rest in (sent @ more, p, w)))
      | _ \<Rightarrow> ([], p, w))"
  by pat_completeness auto
termination
  by (relation "measure (\<lambda>(lib, crc, os, oc, rpc, k, p, w, stream). length stream)") (auto dest!: receive_shorter [OF sym])

declare handle_client.simps [simp del]

section \<open>The node as a client\<close>

text \<open>
  Joining another node: \<open>peer\<close> is what it sends back for the bytes it gets. The call sites are the connection (0), the allocation (1), the two
  messages (2, 3) and the table (4).
\<close>

definition join_request :: "Node \<Rightarrow> u64 \<Rightarrow> byte list \<Rightarrow> byte list \<Rightarrow> message" where
  "join_request n now tid bytes =
     \<lparr>message_header = (message_header message_init)\<lparr>message_type := m_type M_JOIN, source_node := id_of n, destination_node := replicate NODE_ID_SIZE 0,
        header_transaction_id := tid, timestamp := now, header_payload_size := of_nat JOIN_PAYLOAD_WIRE_SIZE\<rparr>,
      message_payload = Some bytes\<rparr>"

definition accepted_node :: "lib \<Rightarrow> int \<Rightarrow> Node \<Rightarrow> byte list \<Rightarrow> message \<Rightarrow> Node option" where
  "accepted_node lib pid n tid response =
     (let h = message_header response in
      if message_type h \<noteq> m_type M_ACK \<or> header_transaction_id h \<noteq> tid \<or> destination_node h \<noteq> id_of n then None
      else case rpc_decode_join_payload lib (payload_bytes response) of Inl _ \<Rightarrow> None
      | Inr c \<Rightarrow>
          (case node_init lib pid c of Inl _ \<Rightarrow> None
           | Inr remote \<Rightarrow> if id_of remote \<noteq> source_node h \<or> node_id_equal (id_of remote) (id_of n) then None else Some remote))"

definition connect_and_join ::
  "lib \<Rightarrow> zcrc \<Rightarrow> os \<Rightarrow> occasion \<Rightarrow> u64 \<Rightarrow> (byte list \<Rightarrow> byte list) \<Rightarrow> PeerContext \<Rightarrow> id_state \<Rightarrow> bool \<times> PeerContext \<times> id_state" where
  "connect_and_join lib crc os oc now peer p st =
     (if fault (at os 0) \<noteq> None then (False, p, st)
      else
        let n = sp_node p; (tid, st) = transfer_fill_transaction_id now (Some (id_of n)) st in
        case (case fault (at os 1) of Some e \<Rightarrow> Inl e | None \<Rightarrow> rpc_encode_join_payload lib (config n)) of Inl _ \<Rightarrow> (False, p, st)
        | Inr bytes \<Rightarrow>
            (case protocol_send_message crc (at os 2) (join_request n (oc_time oc) tid bytes) of
               (PROTOCOL_OK, sent) \<Rightarrow>
                 (case protocol_receive_message crc (at os 3) (peer sent) message_init of
                    (PROTOCOL_OK, response, _) \<Rightarrow>
                      (case accepted_node lib (oc_pid oc) n tid response of None \<Rightarrow> (False, p, st)
                       | Some remote \<Rightarrow>
                           (case superpeer_register_node lib (at os 4) (oc_wall oc 0) (oc_clock oc 0) (table p) remote of
                              (Inl _, t) \<Rightarrow> (False, set_table t p, st)
                            | (Inr _, t) \<Rightarrow> (True, set_table t p, st)))
                  | _ \<Rightarrow> (False, p, st))
             | _ \<Rightarrow> (False, p, st)))"

section \<open>Maintenance of the ring\<close>

text \<open>The neighbours on the ring enter the table. The call sites are the successor (0), the predecessor (1) and the fingers (2 on).\<close>

definition ring_neighbours :: "Chord \<Rightarrow> (nat \<times> ChordPeer) list" where
  "ring_neighbours chord =
     (0, chord_get_successor chord) # (case chord_get_predecessor chord of None \<Rightarrow> [] | Some q \<Rightarrow> [(1, q)]) @
     map (\<lambda>i. (2 + i, fingers chord ! i)) [0..<CHORD_FINGER_COUNT]"

definition discover_neighbours :: "lib \<Rightarrow> os \<Rightarrow> occasion \<Rightarrow> Chord \<Rightarrow> Heartbeat \<Rightarrow> Heartbeat" where
  "discover_neighbours lib os oc chord hb =
     fold (\<lambda>(k, q) hb. snd (heartbeat_discover lib (at os k) (oc_pid oc) (oc_wall oc) (oc_clock oc) hb (peer_config q))) (ring_neighbours chord) hb"

text \<open>One member of the table: it is forgotten or allowed on the ring; \<open>alive\<close> collects those to choose from.\<close>

definition review_member :: "os \<Rightarrow> NodeID \<Rightarrow> NodeID \<Rightarrow> nat \<times> SuperPeerMember \<Rightarrow> Chord \<times> ChordPeer list \<times> bool \<Rightarrow> Chord \<times> ChordPeer list \<times> bool" where
  "review_member os self current = (\<lambda>(k, m) (chord, alive, gone).
     if role (member_node m) \<noteq> NODE_ROLE_SUPERPEER \<or> node_id_equal (member_id m) self then (chord, alive, gone)
     else
       let chord = (if SUPERPEER_MEMBER_FAILED \<le> member_state m then snd (chord_forget (at os k) chord (member_id m)) else chord);
           gone = (gone \<or> node_id_equal (member_id m) current \<and> member_state m \<noteq> SUPERPEER_MEMBER_ALIVE) in
       if member_state m = SUPERPEER_MEMBER_ALIVE \<and> 0 < incarnation m \<and> last_seen m \<noteq> 0
       then (chord_allow chord (member_id m), alive @ [\<lparr>peer_id = member_id m, peer_config = config (member_node m)\<rparr>], gone)
       else (chord, alive, gone))"

text \<open>The call sites are the neighbours (0), the snapshot (1), the allocation (2) and the members (3).\<close>

definition refresh_chord_membership :: "lib \<Rightarrow> os \<Rightarrow> occasion \<Rightarrow> PeerContext \<Rightarrow> PeerContext" where
  "refresh_chord_membership lib os oc p =
     (let hb = discover_neighbours lib (at os 0) oc (sp_chord p) (sp_heartbeat p); p = p\<lparr>sp_heartbeat := hb\<rparr> in
      case membership_snapshot (at os 1) (table p) of Inl _ \<Rightarrow> p
      | Inr ms \<Rightarrow>
          if fault (at os 2) \<noteq> None then p
          else
            let (chord, alive, gone) = fold (review_member (at os 3) (id_of (sp_node p)) (peer_id (chord_get_successor (sp_chord p))))
                  (enumerate 0 ms) (sp_chord p, [], False) in
            p\<lparr>sp_chord := (if alive \<noteq> [] \<or> gone then snd (chord_repair lib chord alive) else chord)\<rparr>)"

section \<open>Start\<close>

text \<open>
  The state that the program builds before it serves: identity, table, index, ring, store with its cache, detector and cluster. The configuration of the node, the
  settings and the files are arguments. The call sites are these parts in turn.
\<close>

definition superpeer_start ::
  "storage_lib \<Rightarrow> zcrc \<Rightarrow> os \<Rightarrow> occasion \<Rightarrow> (string \<Rightarrow> byte list option) \<Rightarrow> NodeConfig \<Rightarrow> byte list \<Rightarrow> nat \<Rightarrow> (bool \<Rightarrow> string list) \<Rightarrow> disk \<Rightarrow>
   byte list option \<Rightarrow> byte list option \<Rightarrow> byte list \<Rightarrow> byte list \<Rightarrow> PeerContext result" where
  "superpeer_start lib crc os oc getenv c root directory_length names disk epoch ledger log_bytes journal =
     (case node_init (base_lib lib) (oc_pid oc) c of Inl e \<Rightarrow> Inl e
      | Inr n \<Rightarrow>
          (let n = n\<lparr>role := NODE_ROLE_SUPERPEER\<rparr> in
           case superpeer_config_init_with_uuid (base_lib lib) (ip c) (port c) (uuid c) of Inl e \<Rightarrow> Inl e
           | Inr sc \<Rightarrow>
               (case superpeer_create (base_lib lib) (at os 0) (oc_pid oc) (oc_wall oc 0) (oc_clock oc 0) sc of Inl e \<Rightarrow> Inl e
                | Inr t \<Rightarrow>
                    (case metadata_create (at os 1) of Inl e \<Rightarrow> Inl e
                     | Inr store \<Rightarrow>
                         (case chord_create (at os 2) n of Inl e \<Rightarrow> Inl e
                          | Inr chord \<Rightarrow>
                              (case storage_create lib (at os 3) root (id_of n) names disk of (Inl e, _) \<Rightarrow> Inl e
                               | (Inr s, disk) \<Rightarrow>
                                   (case configure_superpeer_cache (at os 4) (getenv ''PEER_CACHE_BYTES'') s of (Some e, _) \<Rightarrow> Inl e
                                    | (None, s) \<Rightarrow>
                                        (case heartbeat_create (base_lib lib) (at os 5) (oc_pid oc) (oc_wall oc 1) (oc_clock oc 1) getenv n (Some t) directory_length epoch ledger of
                                           (Inl e, _) \<Rightarrow> Inl e
                                         | (Inr hb, _) \<Rightarrow>
                                             (case c4_cluster_create crc (at os 6) (apply_c4_entry (at os 7)) store n (hb_members hb) log_bytes journal of Inl e \<Rightarrow> Inl e
                                              | Inr cl \<Rightarrow>
                                                  Inr \<lparr>sp_node = n, sp_storage = s, sp_disk = disk, sp_chord = chord, sp_heartbeat = hb, sp_c4 = cl\<rparr>)))))))))"

end
