(* ===== verification/Heartbeat_Detection.thy ===== *)
theory Heartbeat_Detection
  imports Heartbeat_Safety
begin

text \<open>
  The detector and the table of members together: whatever packets arrive, the table changes only by its own steps, so it stays consistent and no
  removed member comes back under the same incarnation; a heartbeat that arrives refreshes its sender; every failure is reported, once.
\<close>

section \<open>The detector changes the table by steps of the table\<close>

abbreviation table_steps :: "lib \<Rightarrow> Heartbeat \<Rightarrow> Heartbeat \<Rightarrow> bool" where
  "table_steps lib h h' \<equiv> (membership_step lib)\<^sup>*\<^sup>* (hb_members h) (hb_members h')"

lemma decoded_id: "gossip_decode_record lib pid r = Inr m \<Longrightarrow> 32 \<le> length r \<Longrightarrow> length (member_id m) = ID_SIZE"
  by (auto simp: gossip_decode_record_def member_id_def ID_SIZE_def Let_def split: if_splits sum.splits)

lemma decode_batch_ids:
  "decode_batch n lib pid bytes = Some ms \<Longrightarrow> n * MEMBERSHIP_WIRE_SIZE \<le> length bytes \<Longrightarrow> list_all (\<lambda>m. length (member_id m) = ID_SIZE) ms"
proof (induction n arbitrary: bytes ms)
  case (Suc n)
  then obtain m ms' where m: "gossip_decode_record lib pid (take MEMBERSHIP_WIRE_SIZE bytes) = Inr m"
    "decode_batch n lib pid (drop MEMBERSHIP_WIRE_SIZE bytes) = Some ms'" "ms = m # ms'"
    by (auto split: sum.splits if_splits option.splits)
  have "length (member_id m) = ID_SIZE" by (rule decoded_id [OF m(1)]) (use Suc.prems(2) in \<open>simp add: MEMBERSHIP_WIRE_SIZE_def\<close>)
  moreover have "n * MEMBERSHIP_WIRE_SIZE \<le> length (drop MEMBERSHIP_WIRE_SIZE bytes)" using Suc.prems(2) by simp
  ultimately show ?case using Suc.IH [OF m(2)] m(3) by simp
qed simp

lemma refused_unless:
  "((if b then Inl e else x) = Inr y) \<longleftrightarrow> \<not> b \<and> x = Inr y"
  "((case s of Inl _ \<Rightarrow> Inl e | Inr v \<Rightarrow> f v) = Inr y) \<longleftrightarrow> (\<exists>v. s = Inr v \<and> f v = Inr y)"
  "((case z of None \<Rightarrow> Inl e | Some v \<Rightarrow> Inr (c, v)) = Inr (c', v')) \<longleftrightarrow> z = Some v' \<and> c = c'"
  by (auto split: sum.split option.split)

lemma check_packet_ids:
  assumes "check_packet lib pid h bytes source gossip = Inr (sender, batch)"
  shows "length (member_id sender) = ID_SIZE" "list_all (\<lambda>m. length (member_id m) = ID_SIZE) batch" "sender_ok h source gossip sender"
proof -
  define n where "n = (if gossip then unat (wire_get_u16 (drop HEARTBEAT_WIRE_SIZE bytes)) else 0)"
  note a = assms [unfolded check_packet_def Let_def n_def [symmetric] refused_unless]
  have p: "length bytes = HEARTBEAT_WIRE_SIZE + (if gossip then 2 + n * MEMBERSHIP_WIRE_SIZE else 0)"
    "gossip_decode_record lib pid (take MEMBERSHIP_WIRE_SIZE (drop 1 bytes)) = Inr sender"
    "decode_batch n lib pid (drop (HEARTBEAT_WIRE_SIZE + 2) bytes) = Some batch" "sender_ok h source gossip sender"
  proof -
    from a obtain v where v: "\<not> (GOSSIP_BATCH_MAX < n \<or> length bytes \<noteq> HEARTBEAT_WIRE_SIZE + (if gossip then 2 + n * MEMBERSHIP_WIRE_SIZE else 0))"
      "gossip_decode_record lib pid (take MEMBERSHIP_WIRE_SIZE (drop 1 bytes)) = Inr v" "\<not> \<not> sender_ok h source gossip v"
      "decode_batch n lib pid (drop (HEARTBEAT_WIRE_SIZE + 2) bytes) = Some batch" "v = sender"
      by (elim conjE exE) (rule that)
    show "length bytes = HEARTBEAT_WIRE_SIZE + (if gossip then 2 + n * MEMBERSHIP_WIRE_SIZE else 0)" using v(1) by simp
    show "gossip_decode_record lib pid (take MEMBERSHIP_WIRE_SIZE (drop 1 bytes)) = Inr sender" using v(2,5) by simp
    show "decode_batch n lib pid (drop (HEARTBEAT_WIRE_SIZE + 2) bytes) = Some batch" by (rule v(4))
    show "sender_ok h source gossip sender" using v(3,5) by simp
  qed
  show "sender_ok h source gossip sender" by (rule p(4))
  show "length (member_id sender) = ID_SIZE"
    by (rule decoded_id [OF p(2)]) (use p(1) in \<open>simp add: HEARTBEAT_WIRE_SIZE_def MEMBERSHIP_WIRE_SIZE_def\<close>)
  have "n * MEMBERSHIP_WIRE_SIZE \<le> length (drop (HEARTBEAT_WIRE_SIZE + 2) bytes)"
  proof (cases gossip)
    case True
    then show ?thesis using p(1) by simp
  next
    case False
    then have "n = 0" by (simp add: n_def)
    then show ?thesis by simp
  qed
  then show "list_all (\<lambda>m. length (member_id m) = ID_SIZE) batch" by (rule decode_batch_ids [OF p(3)])
qed

lemma advance_table: "advance_epoch os h = (r, h') \<Longrightarrow> hb_members h' = hb_members h \<and> hb_local h' = hb_local h"
  by (auto simp: advance_epoch_def Let_def split: option.splits sum.splits if_splits prod.splits)

lemma checkpoint_table: "hb_members (snd (heartbeat_checkpoint lib os h)) = hb_members h" "hb_local (snd (heartbeat_checkpoint lib os h)) = hb_local h"
  by (simp_all add: heartbeat_checkpoint_def Let_def split: prod.split)

lemma admit_steps:
  assumes "admit_sender lib os wall tm t source sender = (r, t')" "length (member_id sender) = ID_SIZE"
  shows "(membership_step lib)\<^sup>*\<^sup>* t t'"
proof -
  let ?r = "membership_register lib (at os 1) (wall 0) (tm 1) t (member_node sender) (home sender) (incarnation sender) (tm 0)"
  have "t' = t \<or> t' = snd ?r"
    using assms(1) by (auto simp: admit_sender_def split: if_splits sum.splits prod.splits)
  moreover have "membership_step lib t (snd ?r)" by (rule membership_step.step_register) (use assms(2) in \<open>simp add: member_id_def\<close>)
  ultimately show ?thesis by auto
qed

lemma rumours_steps:
  "apply_rumours lib os tm k ms h = (r, h') \<Longrightarrow> list_all (\<lambda>m. length (member_id m) = ID_SIZE) ms \<Longrightarrow> table_steps lib h h' \<and> hb_local h' = hb_local h"
proof (induction ms arbitrary: k h)
  case (Cons m ms)
  let ?doubt = "node_id_equal (member_id m) (id_of (hb_local h)) \<and> member_state m \<noteq> SUPERPEER_MEMBER_ALIVE \<and> hb_incarnation h \<le> incarnation m"
  let ?merge = "membership_merge lib (at os k) (tm k) (hb_members h) m"
  obtain q g where q: "(if ?doubt then advance_epoch (at os k) (h\<lparr>hb_incarnation := incarnation m\<rparr>)
      else (let (r, t) = ?merge in (r, h\<lparr>hb_members := t\<rparr>))) = (q, g)" by fastforce
  have g: "table_steps lib h g \<and> hb_local g = hb_local h"
  proof (cases ?doubt)
    case True
    then show ?thesis using q advance_table [of "at os k" "h\<lparr>hb_incarnation := incarnation m\<rparr>" q g] by simp
  next
    case False
    then have "g = h\<lparr>hb_members := snd ?merge\<rparr>" using q by (auto simp only: if_False Let_def snd_conv split: prod.splits)
    moreover have "membership_step lib (hb_members h) (snd ?merge)" using Cons.prems(2) by (intro membership_step.step_merge) simp
    ultimately show ?thesis by auto
  qed
  show ?case
  proof (cases q)
    case None
    then have "apply_rumours lib os tm (Suc k) ms g = (r, h')" using Cons.prems(1) q by (simp add: Let_def)
    then have "table_steps lib g h' \<and> hb_local h' = hb_local g" using Cons.IH Cons.prems(2) by simp
    then show ?thesis using g rtranclp_trans by fastforce
  next
    case (Some e)
    then have "h' = g" using Cons.prems(1) q by (simp add: Let_def)
    then show ?thesis using g by simp
  qed
qed simp

lemma evidence_steps:
  assumes "apply_evidence lib os wall tm sender batch h = (r, h')" "length (member_id sender) = ID_SIZE"
    "list_all (\<lambda>m. length (member_id m) = ID_SIZE) batch"
  shows "table_steps lib h h' \<and> hb_local h' = hb_local h"
proof -
  let ?hb = "membership_heartbeat lib (at os 2) (wall 1) (hb_members h) sender (tm 2)"
  obtain y u where u: "?hb = (y, u)" by fastforce
  have s: "membership_step lib (hb_members h) u"
    using membership_step.step_heartbeat [where lib = lib and m = sender and os = "at os 2" and wall = "wall 1" and t = "hb_members h" and now = "tm 2"] assms(2) u by simp
  note eq = assms(1) [unfolded apply_evidence_def u prod.case]
  show ?thesis
  proof (cases y)
    case (Some e)
    then have "h' = h\<lparr>hb_members := u\<rparr>" using eq by simp
    then show ?thesis using s by auto
  next
    case None
    obtain q g where q: "apply_rumours lib (at os 3) (\<lambda>k. tm (3 + k)) 0 batch (h\<lparr>hb_members := u\<rparr>) = (q, g)" by fastforce
    have "table_steps lib (h\<lparr>hb_members := u\<rparr>) g \<and> hb_local g = hb_local h" using rumours_steps [OF q assms(3)] by simp
    then have "table_steps lib h g \<and> hb_local g = hb_local h" using s by (simp add: converse_rtranclp_into_rtranclp)
    moreover have "h' = g \<or> h' = snd (heartbeat_checkpoint lib (at os 4) g)"
      using eq [unfolded None option.case q prod.case] by (cases q) (auto simp: prod_eq_iff)
    ultimately show ?thesis using checkpoint_table by auto
  qed
qed

lemma apply_packet_steps:
  assumes "apply_packet lib os pid wall tm h bytes source gossip = (r, h')"
  shows "table_steps lib h h' \<and> hb_local h' = hb_local h"
proof (cases "check_packet lib pid h bytes source gossip")
  case (Inl e)
  then show ?thesis using assms by (simp add: apply_packet_def)
next
  case (Inr p)
  obtain sender batch where p: "p = (sender, batch)" by (cases p)
  note ids = check_packet_ids [OF Inr [unfolded p]]
  define known where "known = superpeer_find_member (at os 0) (hb_members h) source"
  define g where "g = note_reconnect source sender known h"
  have g: "hb_members g = hb_members h" "hb_local g = hb_local h" by (simp_all add: g_def note_reconnect_def)
  obtain x t where t: "(case known of Inl _ \<Rightarrow> admit_sender lib (at os 1) wall tm (hb_members g) source sender | Inr _ \<Rightarrow> (None, hb_members g)) = (x, t)"
    by fastforce
  have s: "(membership_step lib)\<^sup>*\<^sup>* (hb_members h) t" using t admit_steps [OF _ ids(1)] g(1) by (cases known) auto
  have eq: "(case x of Some e \<Rightarrow> (Some e, g\<lparr>hb_members := t\<rparr>) | None \<Rightarrow> apply_evidence lib os wall tm sender batch (g\<lparr>hb_members := t\<rparr>)) = (r, h')"
    using assms unfolding apply_packet_def Inr p sum.case prod.case Let_def known_def [symmetric] g_def [symmetric] t .
  show ?thesis
  proof (cases x)
    case (Some e)
    then have "h' = g\<lparr>hb_members := t\<rparr>" using eq by simp
    then show ?thesis using s g(2) by simp
  next
    case None
    then have e: "apply_evidence lib os wall tm sender batch (g\<lparr>hb_members := t\<rparr>) = (r, h')" using eq by simp
    have "table_steps lib (g\<lparr>hb_members := t\<rparr>) h' \<and> hb_local h' = hb_local g" using evidence_steps [OF e ids(1,2)] by simp
    then show ?thesis using rtranclp_trans [OF s] g(2) by simp
  qed
qed

lemma local_record_steps:
  assumes "local_record os h = (r, h')" "length (id_of (hb_local h)) = ID_SIZE"
  shows "table_steps lib h h' \<and> hb_local h' = hb_local h"
proof -
  obtain q g where q: "(if hb_sequence h = - 1 then advance_epoch (at os 0) h else (None, h)) = (q, g)" by fastforce
  have g: "hb_members g = hb_members h" "hb_local g = hb_local h" using q advance_table [of "at os 0" h q g] by (auto split: if_splits)
  let ?l = "membership_local (at os 1) (hb_members g) (hb_local g) (hb_incarnation g) (hb_sequence g + 1)"
  have "h' = g \<or> h' = g\<lparr>hb_sequence := hb_sequence g + 1, hb_members := snd ?l\<rparr>"
    using assms(1) q by (cases q) (auto simp: local_record_def Let_def split: prod.splits)
  moreover have "membership_step lib (hb_members h) (snd ?l)"
    using membership_step.step_local [where n = "hb_local g"] assms(2) g by metis
  ultimately show ?thesis using g by auto
qed

lemma encode_packet_steps:
  assumes "encode_packet lib' os h gossip = (r, h')" "length (id_of (hb_local h)) = ID_SIZE"
  shows "table_steps lib h h' \<and> hb_local h' = hb_local h"
proof -
  obtain q g where q: "local_record (at os 0) h = (q, g)" by fastforce
  obtain c where "h' = g\<lparr>cursor := c\<rparr>" using encode_packet_state(1) [OF assms(1) q] by blast
  then show ?thesis using local_record_steps [OF q assms(2)] by simp
qed

lemma handle_steps:
  assumes "heartbeat_handle lib os pid wall tm h request = (r, h')" "length (id_of (hb_local h)) = ID_SIZE"
  shows "table_steps lib h h' \<and> hb_local h' = hb_local h"
proof -
  define gossip where "gossip \<longleftrightarrow> message_type (message_header request) = m_type M_GOSSIP"
  obtain q g where q: "apply_packet lib (at os 0) pid wall tm h (payload_bytes request) (source_node (message_header request)) gossip = (q, g)" by fastforce
  obtain x u where u: "encode_packet lib (at os 1) g gossip = (x, u)" by fastforce
  have g: "table_steps lib h g \<and> hb_local g = hb_local h" by (rule apply_packet_steps [OF q])
  then have "table_steps lib g u \<and> hb_local u = hb_local g" using encode_packet_steps [OF u] assms(2) by simp
  then have "table_steps lib h u \<and> hb_local u = hb_local h" using g rtranclp_trans by fastforce
  moreover have "h' = h \<or> h' = g \<or> h' = u"
    using arg_cong [OF assms(1) [unfolded heartbeat_handle_def Let_def gossip_def [symmetric] q prod.case u], of snd]
    by (simp split: if_split_asm option.split_asm)
  ultimately show ?thesis using g by auto
qed

lemma register_steps:
  assumes "heartbeat_register lib os wall tm h n inc = (r, h')" "length (id_of n) = ID_SIZE"
  shows "table_steps lib h h' \<and> hb_local h' = hb_local h"
proof -
  obtain x t where t: "membership_register lib (at os 0) (wall 0) (tm 1) (hb_members h) n (id_of (hb_local h)) inc (tm 0) = (x, t)" by fastforce
  have "membership_step lib (hb_members h) t"
    using membership_step.step_register [OF assms(2), where t = "hb_members h" and os = "at os 0" and lib = lib] t by (metis snd_conv)
  moreover have "h' = h\<lparr>hb_members := t\<rparr> \<or> h' = snd (heartbeat_checkpoint lib (at os 1) (h\<lparr>hb_members := t\<rparr>))"
    using assms(1) unfolding heartbeat_register_def t by (cases x) (auto simp: prod_eq_iff)
  ultimately show ?thesis using checkpoint_table [of lib "at os 1" "h\<lparr>hb_members := t\<rparr>"] by auto
qed

lemma node_init_length:
  "node_init lib pid c = Inr n \<Longrightarrow> (\<And>x d. sha256 lib x = Some d \<Longrightarrow> length d = ID_SIZE) \<Longrightarrow> length (id_of n) = ID_SIZE"
  by (auto simp: node_init_def node_compute_id_def split: sum.splits option.splits)

lemma discover_steps:
  assumes "heartbeat_discover lib os pid wall tm h c = (r, h')" "\<And>x d. sha256 lib x = Some d \<Longrightarrow> length d = ID_SIZE"
  shows "table_steps lib h h' \<and> hb_local h' = hb_local h"
proof (cases "node_init lib pid c")
  case (Inl e)
  then show ?thesis using assms(1) by (simp add: heartbeat_discover_def)
next
  case (Inr n)
  let ?n = "n\<lparr>role := NODE_ROLE_SUPERPEER\<rparr>"
  obtain x t where t: "membership_register lib (at os 1) (wall 0) (tm 1) (hb_members h) ?n (id_of ?n) 0 (tm 0) = (x, t)" by fastforce
  have "length (id_of ?n) = ID_SIZE" using node_init_length [OF Inr assms(2)] by simp
  then have "membership_step lib (hb_members h) t"
    using membership_step.step_register [where n = ?n and t = "hb_members h" and os = "at os 1" and lib = lib] t by (metis snd_conv)
  moreover have "h' = h \<or> h' = h\<lparr>hb_members := t\<rparr>"
    using assms(1) unfolding heartbeat_discover_def Inr sum.case Let_def t
    by (cases "membership_snapshot (at os 0) (hb_members h)"; cases x) (auto split: if_splits)
  ultimately show ?thesis by auto
qed

lemma target_steps:
  assumes "heartbeat_peer_target lib os pid wall tm h c = (r, h')" "\<And>x d. sha256 lib x = Some d \<Longrightarrow> length d = ID_SIZE"
  shows "table_steps lib h h' \<and> hb_local h' = hb_local h"
proof -
  obtain x g where g: "heartbeat_discover lib os pid wall tm h c = (x, g)" by fastforce
  have "hb_members h' = hb_members g \<and> hb_local h' = hb_local g"
    using assms(1) unfolding heartbeat_peer_target_def g by (cases x; cases "node_compute_id lib c") auto
  then show ?thesis using discover_steps [OF g assms(2)] by simp
qed

lemma evaluate_steps:
  assumes "evaluate lib os now h = (reported, h')"
  shows "table_steps lib h h' \<and> hb_local h' = hb_local h"
proof (cases "membership_snapshot (at os 0) (hb_members h)")
  case (Inl e)
  then show ?thesis using assms by (simp add: evaluate_def)
next
  case (Inr before)
  obtain x t where t: "membership_tick (at os 1) (hb_members h) now (hb_suspect h) (hb_failed h) (hb_removed h) = (x, t)" by fastforce
  have "membership_step lib (hb_members h) t" using membership_step.step_tick [where t = "hb_members h" and os = "at os 1"] t by (metis snd_conv)
  moreover have "h' = h\<lparr>hb_members := t\<rparr> \<or> h' = snd (heartbeat_checkpoint lib (at os 3) (h\<lparr>hb_members := t\<rparr>))"
    using assms unfolding evaluate_def Inr sum.case t Let_def
    by (cases x; cases "membership_snapshot (at os 2) t") auto
  ultimately show ?thesis using checkpoint_table [of lib "at os 3" "h\<lparr>hb_members := t\<rparr>"] by auto
qed

lemma answer_steps:
  assumes "job_answer lib os pid wall tm h job response = (ok, rejected, h')"
  shows "table_steps lib h h' \<and> hb_local h' = hb_local h"
proof -
  let ?a = "apply_packet lib (at os 0) pid wall tm h (payload_bytes response) (member_id (job_target job)) (job_gossip job)"
  obtain q g where q: "(if message_type (message_header response) = m_type (if job_gossip job then M_GOSSIP else M_HEARTBEAT) then ?a else (Some (EOTHER 0), h)) = (q, g)"
    by fastforce
  have g: "table_steps lib h g \<and> hb_local g = hb_local h"
    using q apply_packet_steps [of lib "at os 0" pid wall tm h "payload_bytes response" "member_id (job_target job)" "job_gossip job" q g]
    by (auto simp only: split: if_splits)
  have "h' = (if message_type (message_header response) = m_type M_ERROR then snd (advance_epoch (at os 1) g) else g)"
    using assms [unfolded job_answer_def Let_def q prod.case] by (elim Pair_inject) (rule sym)
  then have "hb_members h' = hb_members g \<and> hb_local h' = hb_local g" using advance_table [OF prod.collapse [symmetric]] by simp
  then show ?thesis using g by simp
qed

lemma enqueue_table: "hb_members (enqueue h m gossip) = hb_members h" "hb_local (enqueue h m gossip) = hb_local h"
  by (simp_all add: enqueue_def Let_def)

lemma schedule_table:
  "hb_members (schedule_members now periodic fanout ms h) = hb_members h \<and> hb_local (schedule_members now periodic fanout ms h) = hb_local h"
  by (induction ms arbitrary: periodic fanout h) (simp_all add: enqueue_table Let_def)

lemma round_steps:
  assumes "schedule_round lib os tm next_period h = (reported, later, h')"
  shows "table_steps lib h h' \<and> hb_local h' = hb_local h"
proof -
  obtain rs g where g: "evaluate lib (at os 0) (tm 0) h = (rs, g)" by fastforce
  have "hb_members h' = hb_members g \<and> hb_local h' = hb_local g"
    using assms [unfolded schedule_round_def g Let_def prod.case] by (cases "membership_snapshot (at os 1) (hb_members g)") (auto simp: schedule_table)
  then show ?thesis using evaluate_steps [OF g] by simp
qed

text \<open>A job with all its sections; the call back of the peer may itself change the table by steps of the table.\<close>

lemma reconnects_steps:
  assumes "\<And>h. table_steps lib h (snd (reconnect h)) \<and> hb_local (snd (reconnect h)) = hb_local h"
  shows "table_steps lib h (job_reconnects os reconnect ok rejected h) \<and> hb_local (job_reconnects os reconnect ok rejected h) = hb_local h"
proof -
  obtain ok' g where g: "(if \<not> ok \<and> \<not> rejected then (case advance_epoch os h of (r, h) \<Rightarrow> (r = None, h)) else (ok, h)) = (ok', g)" by fastforce
  have t: "hb_members g = hb_members h \<and> hb_local g = hb_local h"
    using g advance_table [of os h] by (auto split: if_splits prod.splits)
  have "hb_members (job_reconnects os reconnect ok rejected h) = hb_members (if rejected \<or> ok' then snd (reconnect g) else g) \<and>
     hb_local (job_reconnects os reconnect ok rejected h) = hb_local (if rejected \<or> ok' then snd (reconnect g) else g)"
    unfolding job_reconnects_def g Let_def prod.case by (simp split: prod.split)
  then show ?thesis using t assms [of g] by simp
qed

lemma job_steps:
  assumes "\<And>h. table_steps lib h (snd (reconnect h)) \<and> hb_local (snd (reconnect h)) = hb_local h"
    "length (id_of (hb_local h)) = ID_SIZE" "length (member_id (job_target job)) = ID_SIZE"
  shows "table_steps lib h (execute_job lib os pid wall tm rpc reconnect h job) \<and> hb_local (execute_job lib os pid wall tm rpc reconnect h job) = hb_local h"
proof -
  obtain r g where r: "encode_packet lib (at os 0) h (job_gossip job) = (r, g)" by fastforce
  define response where "response = (case r of Inl _ \<Rightarrow> None | Inr bytes \<Rightarrow> rpc (m_type (if job_gossip job then M_GOSSIP else M_HEARTBEAT)) bytes)"
  obtain ok rejected u where u: "(case response of None \<Rightarrow> (False, False, g) | Some m \<Rightarrow> job_answer lib (at os 1) pid wall tm g job m) = (ok, rejected, u)"
    by (metis prod_cases3)
  let ?m = "job_target job"
  let ?p = "membership_probe (at os 2) (hb_members u) (member_id ?m) (incarnation ?m) (member_sequence ?m) (tm 100) False"
  define v where "v = (if \<not> ok then u\<lparr>hb_members := snd ?p\<rparr> else u)"
  have g: "table_steps lib h g \<and> hb_local g = hb_local h" by (rule encode_packet_steps [OF r assms(2)])
  have "table_steps lib g u \<and> hb_local u = hb_local g"
    using u answer_steps [of lib "at os 1" pid wall tm g job] by (cases response) auto
  moreover have "membership_step lib (hb_members u) (snd ?p)" by (rule membership_step.step_probe [OF assms(3)])
  then have "table_steps lib u v \<and> hb_local v = hb_local u" by (simp add: v_def r_into_rtranclp)
  ultimately have v: "table_steps lib h v \<and> hb_local v = hb_local h" using g by (metis rtranclp_trans)
  have "execute_job lib os pid wall tm rpc reconnect h job = v \<or> execute_job lib os pid wall tm rpc reconnect h job = job_reconnects (at os 3) reconnect ok rejected v"
    unfolding execute_job_def r Let_def prod.case response_def [symmetric] u v_def [symmetric] by (simp split: if_split)
  then show ?thesis using v reconnects_steps [OF assms(1), of v "at os 3" ok rejected] rtranclp_trans [of "membership_step lib"] by metis
qed

section \<open>The whole detector\<close>

text \<open>
  Every section in which a thread holds the gate, in any environment: requests that arrive, jobs of the workers, rounds of the scheduler, and the calls that the
  server makes. What the server does to the table that it shares is a step of the table.
\<close>

inductive detector_step :: "lib \<Rightarrow> Heartbeat \<Rightarrow> Heartbeat \<Rightarrow> bool" for lib where
  handles: "heartbeat_handle lib os pid wall tm h request = (r, h') \<Longrightarrow> detector_step lib h h'"
| registers: "length (id_of n) = ID_SIZE \<Longrightarrow> heartbeat_register lib os wall tm h n inc = (x, h') \<Longrightarrow> detector_step lib h h'"
| discovers: "heartbeat_discover lib os pid wall tm h c = (x, h') \<Longrightarrow> detector_step lib h h'"
| targets: "heartbeat_peer_target lib os pid wall tm h c = (x, h') \<Longrightarrow> detector_step lib h h'"
| takes: "take_job j h = (job, h') \<Longrightarrow> detector_step lib h h'"
| executes: "(\<And>h. table_steps lib h (snd (reconnect h)) \<and> hb_local (snd (reconnect h)) = hb_local h) \<Longrightarrow>
    length (member_id (job_target job)) = ID_SIZE \<Longrightarrow> detector_step lib h (execute_job lib os pid wall tm rpc reconnect h job)"
| ends: "detector_step lib h (end_job j h)"
| schedules: "schedule_round lib os tm next_period h = (reported, later, h') \<Longrightarrow> detector_step lib h h'"
| shares: "membership_step lib (hb_members h) t \<Longrightarrow> detector_step lib h (h\<lparr>hb_members := t\<rparr>)"
| stops: "detector_step lib h (heartbeat_stop h)"

lemma detector_step_table:
  assumes "detector_step lib h h'" "length (id_of (hb_local h)) = ID_SIZE" "\<And>x d. sha256 lib x = Some d \<Longrightarrow> length d = ID_SIZE"
  shows "table_steps lib h h' \<and> hb_local h' = hb_local h"
  using assms(1)
proof cases
  case handles
  then show ?thesis using handle_steps assms(2) by blast
next
  case registers
  then show ?thesis using register_steps by blast
next
  case (discovers os pid wall tm c x)
  then show ?thesis using discover_steps [OF discovers assms(3)] by simp
next
  case (targets os pid wall tm c x)
  then show ?thesis using target_steps [OF targets assms(3)] by simp
next
  case takes
  then show ?thesis by (auto simp: take_job_def split: if_splits)
next
  case (executes reconnect job os pid wall tm rpc)
  then show ?thesis using job_steps [OF executes(2) assms(2) executes(3)] by simp
next
  case schedules
  then show ?thesis using round_steps by blast
qed (simp_all add: end_job_def heartbeat_stop_def r_into_rtranclp)

lemma detector_steps_table:
  assumes "(detector_step lib)\<^sup>*\<^sup>* h h'" "length (id_of (hb_local h)) = ID_SIZE" "\<And>x d. sha256 lib x = Some d \<Longrightarrow> length d = ID_SIZE"
  shows "table_steps lib h h' \<and> hb_local h' = hb_local h"
  using assms(1)
proof (induction rule: rtranclp_induct)
  case (step g g')
  have "table_steps lib g g' \<and> hb_local g' = hb_local g" by (rule detector_step_table [OF step.hyps(2) _ assms(3)]) (use step.IH assms(2) in simp)
  then show ?case using step.IH by (metis rtranclp_trans)
qed simp

section \<open>Failures and evidence\<close>

lemma snapshot_calm: "membership_snapshot calm t = Inr (members t)"
  by (simp add: membership_snapshot_def)

definition fails_now :: "SuperPeer \<Rightarrow> int \<Rightarrow> nat \<Rightarrow> SuperPeerMember \<Rightarrow> bool" where
  "fails_now t now f m \<longleftrightarrow> member_state m < SUPERPEER_MEMBER_FAILED \<and> member_id m \<noteq> local_id t \<and> local_registration m \<and>
     int f \<le> now - observed_ms m \<and> 2 \<le> failed_probes m"

lemma local_length: "table_inv t \<Longrightarrow> length (local_id t) = ID_SIZE"
  using nth_mem [of 0 "members t"] by (auto simp: table_inv_def dest!: bspec [of _ _ "members t ! 0"])

lemma failed_level: "SUPERPEER_MEMBER_FAILED \<le> st \<longleftrightarrow> st = SUPERPEER_MEMBER_FAILED \<or> st = SUPERPEER_MEMBER_REMOVED"
  by (cases st) (simp_all add: state_order word_le_nat_alt word_less_nat_alt)

lemma below_failed: "st < SUPERPEER_MEMBER_FAILED \<longleftrightarrow> st = SUPERPEER_MEMBER_ALIVE \<or> st = SUPERPEER_MEMBER_SUSPECT"
  by (cases st) (simp_all add: state_order word_le_nat_alt word_less_nat_alt)

lemma tick_crosses:
  assumes "table_inv t" "m \<in> set (members t)" "0 < s" "s < f" "f < r"
  shows "SUPERPEER_MEMBER_FAILED \<le> member_state (tick_member t now s f r m) \<and> \<not> SUPERPEER_MEMBER_FAILED \<le> member_state m \<longleftrightarrow> fails_now t now f m"
proof -
  have n: "node_id_equal (member_id m) (local_id t) \<longleftrightarrow> member_id m = local_id t" using assms(1,2) local_length [OF assms(1)] by (simp add: table_inv_def)
  show ?thesis
  proof (cases "node_id_equal (member_id m) (local_id t) \<or> \<not> local_registration m")
    case True
    then show ?thesis using n tick_other [OF True] by (auto simp: fails_now_def failed_level below_failed)
  next
    case False
    then show ?thesis using n tick_verdict [OF assms(4,5), of m t now] assms(4,5) by (cases "member_state m") (auto simp: fails_now_def verdict_def failed_level below_failed)
  qed
qed

lemma tick_member_id: "member_id (tick_member t now s f r m) = member_id m"
  by (auto simp: tick_member_def Let_def member_id_def transition_def)

lemma newly_failed_tick:
  assumes "table_inv t" "0 < s" "s < f" "f < r"
  shows "newly_failed (members t) (map (tick_member t now s f r) (members t)) = map (tick_member t now s f r) (filter (fails_now t now f) (members t))"
proof -
  have d: "distinct (map member_id (members t))" "\<And>m. m \<in> set (members t) \<Longrightarrow> length (member_id m) = ID_SIZE" using assms(1) by (simp_all add: table_inv_def)
  have "list_ex (\<lambda>b. node_id_equal (member_id b) (member_id m) \<and> SUPERPEER_MEMBER_FAILED \<le> member_state b) (members t) \<longleftrightarrow> SUPERPEER_MEMBER_FAILED \<le> member_state m"
    if m: "m \<in> set (members t)" for m
    using d m by (auto simp: list_ex_iff distinct_map dest: inj_onD)
  then show ?thesis
    using tick_crosses [OF assms(1) _ assms(2-4), of _ now] by (simp add: newly_failed_def filter_map tick_member_id o_def cong: filter_cong)
qed

lemma evaluate_calm:
  assumes "table_inv (hb_members h)" "0 < hb_suspect h" "hb_suspect h < hb_failed h" "hb_failed h < hb_removed h"
  obtains h' where "evaluate lib calm now h = (map (tick_member (hb_members h) now (hb_suspect h) (hb_failed h) (hb_removed h)) (filter (fails_now (hb_members h) now (hb_failed h)) (members (hb_members h))), h')"
    "hb_members h' = hb_members h\<lparr>members := map (tick_member (hb_members h) now (hb_suspect h) (hb_failed h) (hb_removed h)) (members (hb_members h))\<rparr>"
proof -
  let ?t = "hb_members h\<lparr>members := map (tick_member (hb_members h) now (hb_suspect h) (hb_failed h) (hb_removed h)) (members (hb_members h))\<rparr>"
  have "membership_tick calm (hb_members h) now (hb_suspect h) (hb_failed h) (hb_removed h) = (None, ?t)"
    using assms(2-4) by (simp add: membership_tick_def)
  then have "evaluate lib calm now h = (newly_failed (members (hb_members h)) (members ?t), snd (heartbeat_checkpoint lib calm (h\<lparr>hb_members := ?t\<rparr>)))"
    by (simp add: evaluate_def snapshot_calm Let_def)
  moreover have "hb_members (snd (heartbeat_checkpoint lib calm (h\<lparr>hb_members := ?t\<rparr>))) = ?t" by (simp add: checkpoint_table)
  ultimately show ?thesis using that newly_failed_tick [OF assms] by simp
qed

lemma plain_packet:
  assumes "encode_packet lib os h False = (Inr bytes, h')"
  shows "bytes = 1 # record_of_member (self_record h')"
proof -
  obtain q g where q: "local_record (at os 0) h = (q, g)" by fastforce
  obtain m where m: "q = Inr m" using encode_packet_state(2) [OF assms q] by blast
  have "m = self_record g" using q m by (auto simp: local_record_def Let_def split: option.splits prod.splits if_splits)
  moreover have "packet_bytes lib False m [] = Inr bytes \<and> h' = g"
    using assms q m by (cases "fault (at os 2)") (simp_all add: encode_packet_def)
  ultimately show ?thesis by (auto simp: packet_bytes_def gossip_encode_record_def split: sum.splits if_splits)
qed

lemma self_record_fields [simp]:
  "member_node (self_record h) = hb_local h" "member_state (self_record h) = SUPERPEER_MEMBER_ALIVE" "home (self_record h) = hb_home h"
  "incarnation (self_record h) = hb_incarnation h" "member_sequence (self_record h) = hb_sequence h" "member_id (self_record h) = id_of (hb_local h)"
  by (simp_all add: self_record_def member_id_def)

lemma member_of_found: "member_of t i = Some m \<Longrightarrow> member_state m \<noteq> SUPERPEER_MEMBER_REMOVED \<Longrightarrow> superpeer_find_member calm t i = Inr m"
  by (auto simp: member_of_def superpeer_find_member_def)

definition refreshed :: "int \<Rightarrow> int \<Rightarrow> SuperPeerMember \<Rightarrow> SuperPeerMember \<Rightarrow> bool" where
  "refreshed now wall m m' \<longleftrightarrow> member_id m' = member_id m \<and> member_state m' = SUPERPEER_MEMBER_ALIVE \<and> observed_ms m' = now \<and> last_seen m' = wall \<and>
     failed_probes m' = 0 \<and> local_registration m' = local_registration m"

lemma heartbeat_refreshes:
  assumes "table_inv t" "length (member_id x) = ID_SIZE" "node_validate lib (member_node x)" "member_state x = SUPERPEER_MEMBER_ALIVE" "incarnation x \<noteq> 0"
    "member_of t (member_id x) = Some m" "role (member_node x) = role (member_node m)" "home x = home m"
    "incarnation m < incarnation x \<or> incarnation m = incarnation x \<and> member_sequence m < member_sequence x \<and> member_state m < SUPERPEER_MEMBER_FAILED"
  shows "\<exists>t' m'. membership_heartbeat lib calm wall t x now = (None, t') \<and> member_of t' (member_id x) = Some m' \<and> refreshed now wall m m' \<and>
    incarnation m' = incarnation x \<and> member_sequence m' = member_sequence x \<and> table_inv t' \<and> local_id t' = local_id t"
proof -
  obtain k where k: "find_member_index_locked t (member_id x) = Some k" "m = members t ! k" using assms(6) by (auto simp: member_of_def)
  let ?m = "(transition t (m\<lparr>incarnation := incarnation x, member_sequence := member_sequence x\<rparr>) SUPERPEER_MEMBER_ALIVE)\<lparr>observed_ms := now, last_seen := wall, failed_probes := 0\<rparr>"
  let ?t = "t\<lparr>members := (members t)[k := ?m]\<rparr>"
  have "\<not> (role (member_node x) \<noteq> role (member_node m) \<or> \<not> node_id_equal (home x) (home m) \<or> incarnation x < incarnation m \<or>
      (incarnation x = incarnation m \<and> (member_sequence x \<le> member_sequence m \<or> SUPERPEER_MEMBER_FAILED \<le> member_state m)))"
    using assms(7-9) by (auto simp: not_le)
  then have h: "membership_heartbeat lib calm wall t x now = (None, ?t)" using assms(3-5) k by (simp add: membership_heartbeat_def Let_def)
  have m: "refreshed now wall m ?m" "incarnation ?m = incarnation x" "member_sequence ?m = member_sequence x"
    by (simp_all add: refreshed_def transition_def member_id_node)
  have "member_id m = member_id x" using find_member_Some [OF assms(1,2) k(1)] k(2) by simp
  then have o: "member_of ?t (member_id x) = Some ?m" using m(1) by (intro member_of_update [OF assms(1,2) k(1)]) (simp add: refreshed_def)
  have "table_inv ?t" using change_inv [OF assms(1) heartbeat_change [OF assms(1,2), of lib calm wall now]] h by simp
  then show ?thesis using h o m by (intro exI [of _ ?t] exI [of _ ?m]) (auto simp: local_id_def)
qed

lemma evaluate_keeps:
  assumes "table_inv (hb_members h)" "0 < hb_suspect h" "hb_suspect h < hb_failed h" "hb_failed h < hb_removed h"
    "length i = ID_SIZE" "member_of (hb_members h) i = Some m" "now - observed_ms m < int (hb_suspect h)" "evaluate lib calm now h = (reported, h')"
  shows "i \<notin> member_id ` set reported" "member_of (hb_members h') i = Some m \<or> member_state m \<noteq> SUPERPEER_MEMBER_ALIVE"
proof -
  let ?tick = "tick_member (hb_members h) now (hb_suspect h) (hb_failed h) (hb_removed h)"
  obtain g where g: "evaluate lib calm now h = (map ?tick (filter (fails_now (hb_members h) now (hb_failed h)) (members (hb_members h))), g)"
    "hb_members g = hb_members h\<lparr>members := map ?tick (members (hb_members h))\<rparr>"
    by (rule evaluate_calm [OF assms(1-4)])
  have d: "distinct (map member_id (members (hb_members h)))" using assms(1) by (simp add: table_inv_def)
  have m: "m \<in> set (members (hb_members h))" "member_id m = i" using assms(6) member_of_iff [OF assms(1,5)] by auto
  have "\<not> fails_now (hb_members h) now (hb_failed h) m" using assms(3,7) by (simp add: fails_now_def)
  then show "i \<notin> member_id ` set reported" using g(1) assms(8) m d by (auto simp: tick_member_id distinct_map dest: inj_onD)
  have "?tick m = m" if "member_state m = SUPERPEER_MEMBER_ALIVE" using that assms(7) by (simp add: tick_member_def Let_def)
  moreover have "member_of (hb_members g) i = map_option ?tick (member_of (hb_members h) i)" by (rule member_of_map) (simp_all add: g(2) tick_member_id)
  ultimately show "member_of (hb_members h') i = Some m \<or> member_state m \<noteq> SUPERPEER_MEMBER_ALIVE" using g(1) assms(6,8) by auto
qed

lemma packet_refreshes:
  assumes p: "encode_packet lib os a False = (Inr bytes, a')" and wf: "record_wf lib (self_record a')" "0 < pid" "hb_incarnation a' \<noteq> 0" "hb_sequence a' \<noteq> 0"
    and t: "table_inv (hb_members h)" "member_of (hb_members h) (id_of (hb_local a')) = Some m" "role (hb_local a') = role (member_node m)" "hb_home a' = home m"
      "role (hb_local a') = NODE_ROLE_SUPERPEER \<longrightarrow> hb_home a' = id_of (hb_local a')" "\<not> node_id_equal (id_of (hb_local a')) (id_of (hb_local h))"
    and s: "incarnation m < hb_incarnation a' \<and> member_state m \<noteq> SUPERPEER_MEMBER_REMOVED \<or>
      incarnation m = hb_incarnation a' \<and> member_sequence m < hb_sequence a' \<and> member_state m < SUPERPEER_MEMBER_FAILED"
  shows "\<exists>r h' m'. apply_packet lib calm pid wall tm h bytes (id_of (hb_local a')) False = (r, h') \<and> member_of (hb_members h') (id_of (hb_local a')) = Some m' \<and>
    refreshed (tm 2) (wall 1) m m' \<and> incarnation m' = hb_incarnation a' \<and> member_sequence m' = hb_sequence a' \<and> table_inv (hb_members h') \<and>
    hb_suspect h' = hb_suspect h \<and> hb_failed h' = hb_failed h \<and> hb_removed h' = hb_removed h"
proof -
  let ?x = "published pid (self_record a')"
  have x: "member_id ?x = id_of (hb_local a')" "role (member_node ?x) = role (hb_local a')" "home ?x = hb_home a'" by simp_all
  have f: "member_state ?x = SUPERPEER_MEMBER_ALIVE" "incarnation ?x = hb_incarnation a'" "member_sequence ?x = hb_sequence a'" by (simp_all add: published_def)
  have len: "length (id_of (hb_local a')) = ID_SIZE" using wf(1) by (simp add: record_wf_def)
  have v: "node_validate lib (member_node ?x)" using record_published(2) [OF wf(1,2)] by (simp add: record_wf_def node_validate_def member_id_node)
  have "sender_ok h (id_of (hb_local a')) False ?x" using x f wf(3,4) t(5,6) by (auto simp: sender_ok_def)
  then have c: "check_packet lib pid h bytes (id_of (hb_local a')) False = Inr (?x, [])"
    using plain_packet [OF p] decode_record [OF wf(1)] by (simp add: check_packet_def HEARTBEAT_WIRE_SIZE_def MEMBERSHIP_WIRE_SIZE_def Let_def)
  have k: "superpeer_find_member calm (hb_members h) (id_of (hb_local a')) = Inr m"
    by (rule member_of_found [OF t(2)]) (use s in \<open>auto simp: below_failed\<close>)
  define g where "g = note_reconnect (id_of (hb_local a')) ?x (Inr m) h"
  have g: "hb_members g = hb_members h" "hb_suspect g = hb_suspect h" "hb_failed g = hb_failed h" "hb_removed g = hb_removed h"
    by (simp_all add: g_def note_reconnect_def)
  from heartbeat_refreshes [of "hb_members h" ?x lib m "wall 1" "tm 2"]
  obtain t' m' where h: "membership_heartbeat lib calm (wall 1) (hb_members h) ?x (tm 2) = (None, t')" "member_of t' (id_of (hb_local a')) = Some m'"
    "refreshed (tm 2) (wall 1) m m'" "incarnation m' = hb_incarnation a'" "member_sequence m' = hb_sequence a'" "table_inv t'"
    using t(1-4) v len x f wf(3) s by auto
  have e: "apply_packet lib calm pid wall tm h bytes (id_of (hb_local a')) False = heartbeat_checkpoint lib calm (g\<lparr>hb_members := t'\<rparr>)"
    using c k h(1) g by (simp add: apply_packet_def Let_def g_def [symmetric] apply_evidence_def)
  then show ?thesis using h g by (cases "heartbeat_checkpoint lib calm (g\<lparr>hb_members := t'\<rparr>)") (auto simp: heartbeat_checkpoint_def split: prod.splits)
qed

lemma evaluate_settings:
  assumes "evaluate lib os now h = (reported, h')"
  shows "hb_suspect h' = hb_suspect h" "hb_failed h' = hb_failed h" "hb_removed h' = hb_removed h"
  using assms by (auto simp: evaluate_def heartbeat_checkpoint_def Let_def split: sum.splits option.splits prod.splits)

lemma reported_members:
  assumes "table_inv (hb_members h)" "0 < hb_suspect h" "hb_suspect h < hb_failed h" "hb_failed h < hb_removed h" "evaluate lib calm now h = (reported, h')"
  shows "distinct (map member_id reported)"
    "length i = ID_SIZE \<Longrightarrow> i \<in> member_id ` set reported \<longleftrightarrow> (\<exists>m. member_of (hb_members h) i = Some m \<and> fails_now (hb_members h) now (hb_failed h) m)"
    "m \<in> set reported \<Longrightarrow> member_of (hb_members h') (member_id m) = Some m \<and> SUPERPEER_MEMBER_FAILED \<le> member_state m"
    "table_inv (hb_members h')"
proof -
  let ?tick = "tick_member (hb_members h) now (hb_suspect h) (hb_failed h) (hb_removed h)"
  let ?fails = "fails_now (hb_members h) now (hb_failed h)"
  obtain g where g: "evaluate lib calm now h = (map ?tick (filter ?fails (members (hb_members h))), g)"
    "hb_members g = hb_members h\<lparr>members := map ?tick (members (hb_members h))\<rparr>"
    by (rule evaluate_calm [OF assms(1-4)])
  have r: "reported = map ?tick (filter ?fails (members (hb_members h)))" "h' = g" using g(1) assms(5) by simp_all
  have d: "distinct (map member_id (members (hb_members h)))" using assms(1) by (simp add: table_inv_def)
  have ids: "map member_id reported = map member_id (filter ?fails (members (hb_members h)))" by (simp add: r(1) tick_member_id)
  show "distinct (map member_id reported)" using distinct_map_filter [OF d] by (simp only: ids)
  show "i \<in> member_id ` set reported \<longleftrightarrow> (\<exists>m. member_of (hb_members h) i = Some m \<and> ?fails m)" if "length i = ID_SIZE"
    using arg_cong [OF ids, of set] member_of_iff [OF assms(1) that] by auto
  have t: "table_steps lib h h'" using evaluate_steps [OF assms(5)] by simp
  show inv: "table_inv (hb_members h')" using steps_inv [OF t assms(1)] by simp
  show "member_of (hb_members h') (member_id m) = Some m \<and> SUPERPEER_MEMBER_FAILED \<le> member_state m" if m: "m \<in> set reported"
  proof -
    obtain b where b: "b \<in> set (members (hb_members h))" "?fails b" "m = ?tick b" using m r(1) by auto
    have "SUPERPEER_MEMBER_FAILED \<le> member_state m" using tick_crosses [OF assms(1) b(1) assms(2-4), of now] b(2,3) by blast
    moreover have "m \<in> set (members (hb_members h'))" using b g(2) r(2) by simp
    moreover have "length (member_id m) = ID_SIZE" using b assms(1) by (simp add: tick_member_id table_inv_def)
    ultimately show ?thesis using member_of_iff [OF inv] by simp
  qed
qed

section \<open>A detector for the witnesses\<close>

definition sample_detector :: "byte \<Rightarrow> SuperPeer \<Rightarrow> Heartbeat" where
  "sample_detector b t = \<lparr>hb_local = sample_node b, hb_members = t, hb_incarnation = 1, hb_sequence = 0, hb_home = replicate 32 b, can_reconnect = False,
     hb_interval = 5000, hb_suspect = 15000, hb_failed = 20000, hb_removed = 30000, hb_budget = 1000, cursor = 0, neighbor_cursor = 0, hb_stop = False,
     needs_reconnect = False, jobs = [], active_jobs = replicate CONTROL_WORKERS None, epoch_file = Some (wire_put_u64 1), ledger_file = None, ledger_path_length = 25\<rparr>"

definition lone_table :: "byte \<Rightarrow> SuperPeer" where
  "lone_table b = \<lparr>local_node = sample_node b, members = [sample_member b], member_capacity = 16\<rparr>"

definition dying_table :: SuperPeer where
  "dying_table = sample_table\<lparr>members := [sample_member 1, (sample_member 2)\<lparr>member_state := SUPERPEER_MEMBER_SUSPECT, failed_probes := 2, local_registration := True\<rparr>]\<rparr>"

section \<open>Properties\<close>

text \<open>
The failure detector keeps the table. Whatever the threads of a node do under the gate, in any order and with any calls failing (packets from anyone, also malformed or forged, jobs and their
answers, rounds of the scheduler, members that join, operations of the server on the shared table), the table has one record per node with the node itself first and alive, never more than 65536, and no other
member is lost, goes back to an earlier incarnation, or returns from removal without a later one.\<close>

theorem heartbeat_table_safe:
  assumes "(detector_step lib)\<^sup>*\<^sup>* h h'" "table_inv (hb_members h)" "length (id_of (hb_local h)) = ID_SIZE" "\<And>x d. sha256 lib x = Some d \<Longrightarrow> length d = ID_SIZE"
  shows "distinct (map member_id (members (hb_members h'))) \<and> length (members (hb_members h')) \<le> 65536 \<and>
    (\<exists>self others. members (hb_members h') = self # others \<and> member_id self = local_id (hb_members h) \<and> member_state self = SUPERPEER_MEMBER_ALIVE) \<and>
    (\<forall>i m. length i = ID_SIZE \<and> i \<noteq> local_id (hb_members h) \<and> member_of (hb_members h) i = Some m \<longrightarrow>
       (\<exists>m'. member_of (hb_members h') i = Some m' \<and> evolves m m'))"
proof -
  have s: "table_steps lib h h'" using detector_steps_table [OF assms(1,3,4)] by simp
  have "table_inv (hb_members h')" "local_id (hb_members h') = local_id (hb_members h)" using steps_inv [OF s assms(2)] by simp_all
  then show ?thesis using steps_evolve [OF s assms(2)] by (cases "members (hb_members h')") (auto simp: table_inv_def)
qed

theorem heartbeat_table_safe_witness:
  "\<exists>m'. member_of (hb_members (snd (snd (schedule_round byte_lib calm (\<lambda>_. 99999) 0 (sample_detector 1 sample_table))))) (replicate 32 2) = Some m' \<and>
     evolves (sample_member 2) m'"
proof -
  let ?h = "sample_detector 1 sample_table"
  have t: "hb_members ?h = sample_table" "length (id_of (hb_local ?h)) = ID_SIZE" by (simp_all add: sample_detector_def sample_node_def ID_SIZE_def)
  have inv: "table_inv (hb_members ?h)" using sample_table_inv by (simp add: t)
  obtain a b c where r: "schedule_round byte_lib calm (\<lambda>_. 99999) 0 ?h = (a, b, c)" by (rule prod_cases3)
  have s: "(detector_step byte_lib)\<^sup>*\<^sup>* ?h c" by (rule r_into_rtranclp) (rule schedules [OF r])
  have "length (replicate 32 (2 :: byte)) = ID_SIZE" "replicate 32 2 \<noteq> local_id (hb_members ?h)" "member_of (hb_members ?h) (replicate 32 2) = Some (sample_member 2)"
    by (simp_all add: t ID_SIZE_def sample_member_of)
  then show ?thesis using heartbeat_table_safe [OF s inv t(2) byte_lib_digest] r by simp
qed

text \<open>
C24: Failures are reported, all of them and once. When no call fails, the members for which an evaluation makes the failure call back are exactly the other members under observation that were not failed before,
have been silent for the second limit and have failed two probes; each is reported once, with the state that the table now has, and an evaluation that
follows this one at any time, with nothing received in between, does not report it again.\<close>

theorem heartbeat_failures_reported:
  assumes "table_inv (hb_members h)" "0 < hb_suspect h" "hb_suspect h < hb_failed h" "hb_failed h < hb_removed h" "evaluate lib calm now h = (reported, h')"
  shows "distinct (map member_id reported) \<and>
    (\<forall>i. length i = ID_SIZE \<longrightarrow>
       (i \<in> member_id ` set reported \<longleftrightarrow> (\<exists>m. member_of (hb_members h) i = Some m \<and> fails_now (hb_members h) now (hb_failed h) m))) \<and>
    (\<forall>m \<in> set reported. member_of (hb_members h') (member_id m) = Some m \<and> SUPERPEER_MEMBER_FAILED \<le> member_state m) \<and>
    (\<forall>later. member_id ` set reported \<inter> member_id ` set (fst (evaluate lib calm later h')) = {})"
proof -
  note r = reported_members [OF assms]
  have no: "member_id m \<notin> member_id ` set again" if m: "m \<in> set reported" and e: "evaluate lib calm later h' = (again, h'')" for m later again h''
  proof -
    have f: "member_of (hb_members h') (member_id m) = Some m" "SUPERPEER_MEMBER_FAILED \<le> member_state m" using r(3) [OF m] by simp_all
    have "length (member_id m) = ID_SIZE" using r(4) f(1) by (auto simp: member_of_def table_inv_def find_member_index_locked_def dest: find_index_Some)
    moreover have "\<not> fails_now t now' limit m" for t now' limit using leD [OF f(2)] by (simp add: fails_now_def)
    ultimately show ?thesis using reported_members(2) [OF r(4) _ _ _ e] evaluate_settings [OF assms(5)] assms(2-4) f(1) by simp
  qed
  have "member_id ` set reported \<inter> member_id ` set (fst (evaluate lib calm later h')) = {}" for later
    using no [of _ later] by (cases "evaluate lib calm later h'") auto
  then show ?thesis using r(1-3) by blast
qed

theorem heartbeat_failures_reported_witness:
  "replicate 32 2 \<in> member_id ` set (fst (evaluate byte_lib calm 20000 (sample_detector 1 dying_table)))"
proof -
  let ?h = "sample_detector 1 dying_table"
  have h: "hb_members ?h = dying_table" "0 < hb_suspect ?h" "hb_suspect ?h < hb_failed ?h" "hb_failed ?h < hb_removed ?h" "hb_failed ?h = 20000"
    by (simp_all add: sample_detector_def)
  have inv: "table_inv (hb_members ?h)"
    unfolding h using sample_table_inv by (auto simp: dying_table_def table_inv_def sample_table_def local_id_def member_id_def)
  let ?m = "(sample_member 2)\<lparr>member_state := SUPERPEER_MEMBER_SUSPECT, failed_probes := 2, local_registration := True\<rparr>"
  have i: "member_id ?m = replicate 32 2" using sample_member_id [of 2] by (simp add: member_id_def)
  have "member_of dying_table (replicate 32 2) = Some ?m" using member_of_iff [OF inv [unfolded h]] i by (simp add: dying_table_def ID_SIZE_def)
  moreover have "fails_now dying_table 20000 20000 ?m"
    using i by (simp add: fails_now_def below_failed dying_table_def sample_table_def local_id_def sample_node_def sample_member_def set_member_def)
  ultimately show ?thesis
    using heartbeat_failures_reported [OF inv h(2-4) prod.collapse [symmetric], where lib = byte_lib and now = 20000] h(1,5) by (auto simp: ID_SIZE_def)
qed

text \<open>
C25: A heartbeat that arrives counts. Let a node send a heartbeat to another that has a record of it, not removed, under an earlier incarnation, or under the same one with an earlier sequence number and not yet failed. Then
the receiver shows it alive under the new incarnation and sequence number, seen at that moment, with its failed probes forgotten, and an evaluation less than the first limit later neither reports nor suspects it.\<close>

theorem heartbeat_arrival_counts:
  assumes "encode_packet lib os a False = (Inr bytes, a')" "record_wf lib (self_record a')" "0 < pid" "hb_incarnation a' \<noteq> 0" "hb_sequence a' \<noteq> 0"
    "table_inv (hb_members h)" "member_of (hb_members h) (id_of (hb_local a')) = Some m" "role (hb_local a') = role (member_node m)" "hb_home a' = home m"
    "role (hb_local a') = NODE_ROLE_SUPERPEER \<longrightarrow> hb_home a' = id_of (hb_local a')" "\<not> node_id_equal (id_of (hb_local a')) (id_of (hb_local h))"
    "incarnation m < hb_incarnation a' \<and> member_state m \<noteq> SUPERPEER_MEMBER_REMOVED \<or>
      incarnation m = hb_incarnation a' \<and> member_sequence m < hb_sequence a' \<and> member_state m < SUPERPEER_MEMBER_FAILED"
    "0 < hb_suspect h" "hb_suspect h < hb_failed h" "hb_failed h < hb_removed h"
  shows "\<exists>r h' m'. apply_packet lib calm pid wall tm h bytes (id_of (hb_local a')) False = (r, h') \<and>
    member_of (hb_members h') (id_of (hb_local a')) = Some m' \<and> refreshed (tm 2) (wall 1) m m' \<and>
    incarnation m' = hb_incarnation a' \<and> member_sequence m' = hb_sequence a' \<and>
    (\<forall>now reported h''. now - tm 2 < int (hb_suspect h) \<and> evaluate lib calm now h' = (reported, h'') \<longrightarrow>
       id_of (hb_local a') \<notin> member_id ` set reported \<and> member_of (hb_members h'') (id_of (hb_local a')) = Some m')"
proof -
  obtain r h' m' where p: "apply_packet lib calm pid wall tm h bytes (id_of (hb_local a')) False = (r, h')" "member_of (hb_members h') (id_of (hb_local a')) = Some m'"
    "refreshed (tm 2) (wall 1) m m'" "incarnation m' = hb_incarnation a'" "member_sequence m' = hb_sequence a'" "table_inv (hb_members h')"
    "hb_suspect h' = hb_suspect h" "hb_failed h' = hb_failed h" "hb_removed h' = hb_removed h"
    using packet_refreshes [OF assms(1-12), of wall tm] by (elim exE conjE) (rule that)
  have len: "length (id_of (hb_local a')) = ID_SIZE" using assms(2) by (simp add: record_wf_def)
  have l: "0 < hb_suspect h'" "hb_suspect h' < hb_failed h'" "hb_failed h' < hb_removed h'" using p(7-9) assms(13-15) by simp_all
  have m': "member_state m' = SUPERPEER_MEMBER_ALIVE" "observed_ms m' = tm 2" using p(3) by (simp_all add: refreshed_def)
  have "id_of (hb_local a') \<notin> member_id ` set reported \<and> member_of (hb_members h'') (id_of (hb_local a')) = Some m'"
    if "now - tm 2 < int (hb_suspect h)" "evaluate lib calm now h' = (reported, h'')" for now reported h''
    using evaluate_keeps [OF p(6) l len p(2) _ that(2)] that(1) m' p(7) by simp
  then show ?thesis using p(1-5) by blast
qed

theorem heartbeat_arrival_counts_witness:
  "\<exists>bytes a' r h' m'. encode_packet byte_lib calm (sample_detector 2 (lone_table 2)) False = (Inr bytes, a') \<and>
     apply_packet byte_lib calm 7 (\<lambda>_. 0) (\<lambda>_. 500) (sample_detector 1 sample_table) bytes (replicate 32 2) False = (r, h') \<and>
     member_of (hb_members h') (replicate 32 2) = Some m' \<and> incarnation m' = 1 \<and> member_sequence m' = 1 \<and> observed_ms m' = 500"
proof -
  let ?a = "sample_detector 2 (lone_table 2)" and ?h = "sample_detector 1 sample_table"
  have a: "hb_sequence ?a \<noteq> - 1" "local_id (hb_members ?a) = id_of (hb_local ?a)" "node_validate byte_lib (hb_local ?a)"
    using sample_node_valid [of 2] by (simp_all add: sample_detector_def lone_table_def local_id_def)
  obtain b where b: "encode_packet byte_lib calm ?a False = (Inr (1 # record_of_member (self_record b)), b)"
    "b = ?a\<lparr>hb_sequence := hb_sequence ?a + 1, hb_members := snd (membership_local calm (hb_members ?a) (hb_local ?a) (hb_incarnation ?a) (hb_sequence ?a + 1))\<rparr>"
    by (rule heartbeat_packet_calm [OF a])
  have f: "hb_local b = sample_node 2" "hb_home b = replicate 32 2" "hb_incarnation b = 1" "hb_sequence b = 1" by (simp_all add: b(2) sample_detector_def)
  have i: "id_of (sample_node 2) = replicate 32 2" "role (sample_node 2) = NODE_ROLE_SUPERPEER" by (simp_all add: sample_node_def)
  have h: "hb_members ?h = sample_table" "id_of (hb_local ?h) = replicate 32 1" "hb_suspect ?h = 15000" "hb_failed ?h = 20000" "hb_removed ?h = 30000"
    by (simp_all add: sample_detector_def sample_node_def)
  have m: "role (member_node (sample_member 2)) = NODE_ROLE_SUPERPEER" "home (sample_member 2) = replicate 32 2" "incarnation (sample_member 2) = 0"
    "member_state (sample_member 2) = SUPERPEER_MEMBER_ALIVE"
    by (simp_all add: sample_member_def set_member_def sample_node_def)
  have wf: "record_wf byte_lib (self_record b)"
    using sample_record_wf [of 2] f by (simp add: record_wf_def self_record_def member_id_def sample_member_def set_member_def ID_SIZE_def)
  have n: "\<not> node_id_equal (replicate 32 2) (replicate 32 (1 :: byte))" by (simp add: ID_SIZE_def)
  have inv: "table_inv (hb_members ?h)" using sample_table_inv h by simp
  have mo: "member_of (hb_members ?h) (id_of (hb_local b)) = Some (sample_member 2)" using sample_member_of h(1) f(1) i(1) by simp
  obtain r h' m' where "apply_packet byte_lib calm 7 (\<lambda>_. 0) (\<lambda>_. 500) ?h (1 # record_of_member (self_record b)) (id_of (hb_local b)) False = (r, h')"
    "member_of (hb_members h') (id_of (hb_local b)) = Some m'" "refreshed 500 0 (sample_member 2) m'" "incarnation m' = hb_incarnation b" "member_sequence m' = hb_sequence b"
    using heartbeat_arrival_counts [OF b(1) wf _ _ _ inv mo, of 7 "\<lambda>_. 0" "\<lambda>_. 500"] f i h m n by auto
  then show ?thesis using b(1) f i by (auto simp: refreshed_def)
qed

end
