(* ===== verification/C4_Election.thy ===== *)
theory C4_Election
  imports C4_Catchup
begin

text \<open>
  The life of one node of the cluster: what requests, ticks and submissions keep of its state whatever the other nodes answer, and the
  election of the coordinator.
\<close>

section \<open>What every operation keeps\<close>

text \<open>
  The log stays consistent and only grows, and the identity of the node stays; the operations on the log alone keep the
  state of the election as well.
\<close>

definition kept :: "'c C4Cluster \<Rightarrow> 'c C4Cluster \<Rightarrow> bool" where
  "kept cl cl' \<longleftrightarrow> log_inv (cl_log cl') \<and> (\<exists>es. entries (cl_log cl') = entries (cl_log cl) @ es) \<and>
     cl_local cl' = cl_local cl"

definition same_election :: "'c C4Cluster \<Rightarrow> 'c C4Cluster \<Rightarrow> bool" where
  "same_election cl cl' \<longleftrightarrow> leader cl' = leader cl \<and> current_term cl' = current_term cl \<and>
     election_requested cl' = election_requested cl \<and> election_waiting cl' = election_waiting cl"

lemma kept_refl: "log_inv (cl_log cl) \<Longrightarrow> kept cl cl"
  by (simp add: kept_def)

lemma kept_trans: "kept a b \<Longrightarrow> kept b c \<Longrightarrow> kept a c"
  by (auto simp: kept_def)

lemma same_election_refl [simp]: "same_election cl cl"
  by (simp add: same_election_def)

lemma same_election_trans: "same_election a b \<Longrightarrow> same_election b c \<Longrightarrow> same_election a c"
  by (simp add: same_election_def)

lemma apply_kept:
  assumes "c4_apply_new_entry apply (cl\<lparr>cl_log := log\<rparr>) e = (r, cl')" "log_inv log" "\<exists>es. entries log = entries (cl_log cl) @ es"
  shows "kept cl cl' \<and> same_election cl cl'"
  using assms by (auto simp: c4_apply_new_entry_def Let_def kept_def same_election_def split: prod.splits)

lemma log_kept:
  "log_inv log \<Longrightarrow> \<exists>es. entries log = entries (cl_log cl) @ es \<Longrightarrow> kept cl (cl\<lparr>cl_log := log\<rparr>) \<and> same_election cl (cl\<lparr>cl_log := log\<rparr>)"
  by (simp add: kept_def same_election_def)

text \<open>Transfer of entries.\<close>

lemma ist_append_kept:
  "list_all caller_entry es \<Longrightarrow> log_inv (cl_log cl) \<Longrightarrow> ist_append crc os apply k es cl = (r, cl') \<Longrightarrow> kept cl cl' \<and> same_election cl cl'"
proof (induction es arbitrary: k cl)
  case Nil
  then show ?case by (simp add: kept_refl)
next
  case (Cons e es)
  obtain q log where a: "c4_log_append_entry crc (at os k) (cl_log cl) e = (q, log)" by fastforce
  have l: "log_inv log" "\<exists>es. entries log = entries (cl_log cl) @ es"
    using append_locked_inv [OF a [unfolded c4_log_append_entry_def] Cons.prems(2)] Cons.prems(1) by auto
  obtain q2 cl2 where b: "c4_apply_new_entry apply (cl\<lparr>cl_log := log\<rparr>) e = (q2, cl2)" by fastforce
  note k2 = apply_kept [OF b l]
  show ?case
  proof (cases "q = None \<and> q2 = None")
    case True
    then have "kept cl2 cl' \<and> same_election cl2 cl'"
      using Cons.IH [of cl2 "Suc k"] Cons.prems k2 a b by (simp add: kept_def)
    then show ?thesis using k2 kept_trans same_election_trans by blast
  next
    case False
    then show ?thesis using Cons.prems(3) a b k2 log_kept [OF l] by (cases q; cases q2) auto
  qed
qed

lemma ist_entries_caller:
  "ist_entries n crc os log k bytes cursor index version table = Inr es \<Longrightarrow> list_all caller_entry es"
proof (induction n arbitrary: k cursor index version table es)
  case (Suc n)
  then show ?case
    by (auto simp: Let_def dest: Suc.IH stored_caller [OF decode_stored] split: if_splits sum.splits probe.splits)
qed (simp split: if_splits)

lemma recover_round_cases:
  assumes "recover_loop crc os apply rpc m k i v cl w = (r, cl', w')"
  obtains (stop) "cl' = cl" | (failed) es e os' where "list_all caller_entry es" "ist_append crc os' apply 0 es cl = (Some e, cl')"
    | (again) w1 bytes es cl2 where "rpc w m (m_type M_IST_REQUEST) None (wire_put_u64 i @ wire_put_u64 v) = (Inr (m_type M_IST_BATCH, bytes), w1)"
      "4 \<le> length bytes" "unat (wire_get_u32 bytes) \<noteq> 0" "unat (wire_get_u32 bytes) \<le> (length bytes - 4) div 48"
      "List.find (\<lambda>j. fault (at (at os k) j) \<noteq> None) [0, 1] = None"
      "ist_entries (unat (wire_get_u32 bytes)) crc (at (at os k) 2) (cl_log cl) 0 bytes 4 i v
        (replicate (grow_capacity 1 (unat (wire_get_u32 bytes) * 2)) None) = Inr es"
      "ist_append crc (at (at os k) 3) apply 0 es cl = (None, cl2)"
      "recover_loop crc os apply rpc m (Suc k) (entry_index (last es)) (entry_version (last es)) cl2 w1 = (r, cl', w')"
proof -
  note u = assms [unfolded recover_loop.simps [of crc os "apply" rpc m k i v cl w]]
  obtain rep w1 where p: "rpc w m (m_type M_IST_REQUEST) None (wire_put_u64 i @ wire_put_u64 v) = (rep, w1)" by fastforce
  show ?thesis
  proof (cases "\<exists>bytes. rep = Inr (m_type M_IST_BATCH, bytes) \<and> 4 \<le> length bytes \<and> unat (wire_get_u32 bytes) \<noteq> 0 \<and>
      unat (wire_get_u32 bytes) \<le> (length bytes - 4) div 48 \<and> List.find (\<lambda>j. fault (at (at os k) j) \<noteq> None) [0, 1] = None")
    case False
    then have "cl' = cl" using u p by (cases rep) (auto simp: Let_def not_less split: if_splits option.splits)
    then show ?thesis by (rule stop)
  next
    case True
    then obtain bytes where b: "rep = Inr (m_type M_IST_BATCH, bytes)" "4 \<le> length bytes" "unat (wire_get_u32 bytes) \<noteq> 0"
      "unat (wire_get_u32 bytes) \<le> (length bytes - 4) div 48" "List.find (\<lambda>j. fault (at (at os k) j) \<noteq> None) [0, 1] = None" by blast
    let ?ie = "ist_entries (unat (wire_get_u32 bytes)) crc (at (at os k) 2) (cl_log cl) 0 bytes 4 i v
        (replicate (grow_capacity 1 (unat (wire_get_u32 bytes) * 2)) None)"
    have u2: "(case ?ie of Inl e \<Rightarrow> (Some e, cl, w1)
        | Inr es \<Rightarrow> (case ist_append crc (at (at os k) 3) apply 0 es cl of (Some e, cl) \<Rightarrow> (Some e, cl, w1)
           | (None, cl) \<Rightarrow> recover_loop crc os apply rpc m (Suc k) (entry_index (last es)) (entry_version (last es)) cl w1)) = (r, cl', w')"
      using u p b by (simp add: Let_def not_less)
    show ?thesis
    proof (cases ?ie)
      case (Inl e)
      then show ?thesis using u2 stop by simp
    next
      case (Inr es)
      obtain q cl2 where q: "ist_append crc (at (at os k) 3) apply 0 es cl = (q, cl2)" by fastforce
      show ?thesis
      proof (cases q)
        case None
        then show ?thesis using u2 Inr q p b by (intro again [OF _ b(2-5) Inr]) simp_all
      next
        case (Some e)
        then show ?thesis using u2 Inr q by (intro failed [OF ist_entries_caller [OF Inr], where os' = "at (at os k) 3" and e = e]) simp_all
      qed
    qed
  qed
qed

lemma recover_kept:
  "log_inv (cl_log cl) \<Longrightarrow> recover_loop crc os apply rpc m k i v cl w = (r, cl', w') \<Longrightarrow> kept cl cl' \<and> same_election cl cl'"
proof (induction crc os "apply" rpc m k i v cl w rule: recover_loop.induct)
  case (1 crc os "apply" rpc m k i v cl w)
  from 1(3) show ?case
  proof (cases rule: recover_round_cases)
    case stop
    then show ?thesis using kept_refl [OF 1(2)] by simp
  next
    case (failed es e os')
    then show ?thesis using ist_append_kept 1(2) by blast
  next
    case (again w1 bytes es cl2)
    have a: "kept cl cl2 \<and> same_election cl cl2" by (rule ist_append_kept [OF ist_entries_caller [OF again(6)] 1(2) again(7)])
    have "kept cl2 cl' \<and> same_election cl2 cl'"
      by (rule 1(1) [OF again(1) [symmetric] refl refl _ refl again(3) _ again(5,6) again(7) [symmetric] refl _ again(8)])
        (use again(2,4) a in \<open>simp_all add: kept_def\<close>)
    then show ?thesis using a kept_trans same_election_trans by blast
  qed
qed

text \<open>Election.\<close>

lemma recover_all_kept:
  "log_inv (cl_log cl) \<Longrightarrow> recover_from_all crc os apply rpc ms cl w = (b, cl', w') \<Longrightarrow> kept cl cl' \<and> same_election cl cl'"
proof (induction ms arbitrary: cl w)
  case Nil
  then show ?case by (simp add: kept_refl)
next
  case (Cons m ms)
  obtain r cl2 w2 where a: "c4_recover_from_member crc (at os (length ms)) apply rpc m cl w = (r, cl2, w2)" by (cases "c4_recover_from_member crc (at os (length ms)) apply rpc m cl w") auto
  have k: "kept cl cl2 \<and> same_election cl cl2"
    using recover_kept [OF Cons.prems(1) a [unfolded c4_recover_from_member_def]] .
  show ?case
  proof (cases "replica cl m")
    case False
    then show ?thesis using Cons by simp
  next
    case r: True
    show ?thesis
    proof (cases "r = Some EBADMSG \<or> r = Some EEXIST \<or> r = Some ERANGE")
      case True
      then show ?thesis using Cons.prems(2) a k r by auto
    next
      case False
      then have "kept cl2 cl' \<and> same_election cl2 cl'" using Cons.IH [of cl2 w2] Cons.prems(2) a k r by (simp add: kept_def)
      then show ?thesis using k kept_trans same_election_trans by blast
    qed
  qed
qed

text \<open>The outcome of an attempt to become the coordinator: leadership with the next term, or another attempt later.\<close>

lemma become_cases:
  assumes "c4_become_coordinator crc os apply rpc now ms cl w = (b, cl', w')" "log_inv (cl_log cl)"
  shows "kept cl cl' \<and>
    (if b then leader cl' = self_id cl \<and> current_term cl' = current_term cl + 1 \<and> \<not> election_requested cl' \<and> \<not> election_waiting cl'
     else leader cl' = leader cl \<and> current_term cl' = current_term cl \<and> election_requested cl' \<and> election_waiting cl' \<and> election_started_ms cl' = now)"
proof -
  obtain q cl2 w2 where a: "recover_from_all crc (at os 0) apply rpc ms cl w = (q, cl2, w2)" by (cases "recover_from_all crc (at os 0) apply rpc ms cl w") auto
  note k = recover_all_kept [OF assms(2) a]
  then have s: "self_id cl2 = self_id cl" by (simp add: kept_def self_id_def)
  show ?thesis
  proof (cases q)
    case True
    then show ?thesis using assms(1) a k s
      by (auto simp: c4_become_coordinator_def Let_def kept_def same_election_def case_prod_beta)
  next
    case False
    then show ?thesis using assms(1) a k by (auto simp: c4_become_coordinator_def kept_def same_election_def)
  qed
qed

definition ranked :: "'c C4Cluster \<Rightarrow> bool" where
  "ranked cl \<longleftrightarrow> c4_id_is_zero (leader cl) \<or> 0 \<le> memcmp (leader cl) (self_id cl)"

lemma zero_id: "c4_id_is_zero (replicate ID_SIZE 0)"
  by (simp add: c4_id_is_zero_def)

lemma tick_state_kept:
  assumes "tick_state os now ms cl = (q, cl')" "log_inv (cl_log cl)" "ranked cl"
  shows "kept cl cl' \<and> ranked cl' \<and> current_term cl' = current_term cl \<and> (leader cl' = leader cl \<or> c4_id_is_zero (leader cl'))"
proof -
  define gone where "gone \<longleftrightarrow> \<not> c4_id_is_zero (leader cl) \<and> \<not> node_id_equal (leader cl) (self_id cl) \<and>
     (case superpeer_find_member os (cl_members cl) (leader cl) of Inl _ \<Rightarrow> True | Inr m \<Rightarrow> SUPERPEER_MEMBER_FAILED \<le> member_state m)"
  define cl1 where "cl1 = (if gone then cl\<lparr>leader := replicate ID_SIZE 0, election_requested := True\<rparr> else cl)"
  have l: "leader cl' = leader cl1" "current_term cl' = current_term cl1" "cl_log cl' = cl_log cl1" "cl_local cl' = cl_local cl1"
    using arg_cong [OF assms(1), of snd, symmetric] unfolding tick_state_def gone_def [symmetric] cl1_def [symmetric]
    by (simp_all add: Let_def)
  have "kept cl cl1 \<and> ranked cl1 \<and> current_term cl1 = current_term cl \<and> (leader cl1 = leader cl \<or> c4_id_is_zero (leader cl1))"
    using assms(2,3) zero_id by (simp add: cl1_def kept_def ranked_def)
  then show ?thesis using l by (auto simp: kept_def ranked_def self_id_def)
qed

lemma tick_kept:
  assumes "c4_cluster_tick crc os apply rpc now cl w = (b, cl', w')" "log_inv (cl_log cl)" "ranked cl"
  shows "kept cl cl' \<and> ranked cl' \<and> (current_term cl' = current_term cl \<or> current_term cl' = current_term cl + 1)"
proof (cases "c4_alive_superpeers (at os 0) cl")
  case (Inl e)
  then show ?thesis using assms kept_refl by (simp add: c4_cluster_tick_def)
next
  case (Inr ms)
  obtain q cl1 where q: "tick_state (at os 1) now ms cl = (q, cl1)" by fastforce
  note t = tick_state_kept [OF q assms(2,3)]
  obtain h w1 where h: "call_higher rpc cl1 ms w = (h, w1)" by fastforce
  obtain b2 cl2 w2 where c: "c4_become_coordinator crc (at os 2) apply rpc now ms cl1 w1 = (b2, cl2, w2)" by (cases "c4_become_coordinator crc (at os 2) apply rpc now ms cl1 w1") auto
  have l1: "log_inv (cl_log cl1)" using t by (simp add: kept_def)
  note bc = become_cases [OF c l1]
  have s2: "self_id cl2 = self_id cl1" using bc by (simp add: kept_def self_id_def)
  consider "\<not> q" | "q" "h" | "q" "\<not> h" by blast
  then show ?thesis
  proof cases
    case 1
    then show ?thesis using assms(1) Inr q t by (simp add: c4_cluster_tick_def)
  next
    case 2
    then have "cl' = cl1\<lparr>election_waiting := True, election_requested := False, election_started_ms := now\<rparr>"
      using assms(1) Inr q h by (simp add: c4_cluster_tick_def)
    then show ?thesis using t by (auto simp: kept_def ranked_def self_id_def)
  next
    case 3
    then have c2: "cl' = cl2" using assms(1) Inr q h c by (simp add: c4_cluster_tick_def)
    have "ranked cl2" using bc t s2 by (cases b2) (auto simp: ranked_def)
    moreover have "current_term cl2 = current_term cl \<or> current_term cl2 = current_term cl + 1" using bc t by (cases b2) auto
    ultimately show ?thesis using bc t kept_trans c2 by blast
  qed
qed

text \<open>Requests.\<close>

lemma election_ranked: "same_election cl cl' \<Longrightarrow> kept cl cl' \<Longrightarrow> ranked cl \<Longrightarrow> ranked cl'"
  by (simp add: same_election_def kept_def ranked_def self_id_def)

definition term_grows :: "u64 \<Rightarrow> u64 \<Rightarrow> bool" where
  "term_grows a b \<longleftrightarrow> a \<le> b \<or> b = a + 1"

lemma append_kept:
  "c4_log_append_entry crc os (cl_log cl) e = (r, log) \<Longrightarrow> caller_entry e \<Longrightarrow> log_inv (cl_log cl) \<Longrightarrow>
     log_inv log \<and> (\<exists>es. entries log = entries (cl_log cl) @ es)"
  unfolding c4_log_append_entry_def using append_locked_inv by fastforce

lemma commit_kept:
  "c4_log_commit crc os (cl_log cl) tid out = (r, log) \<Longrightarrow> log_inv (cl_log cl) \<Longrightarrow>
     log_inv log \<and> (\<exists>es. entries log = entries (cl_log cl) @ es)"
  using commit_inv by fastforce

text \<open>All requests but the announcement of a coordinator leave the election as it was, apart from asking for one.\<close>

definition harmless :: "'c C4Cluster \<Rightarrow> 'c C4Cluster \<Rightarrow> bool" where
  "harmless cl cl' \<longleftrightarrow> kept cl cl' \<and> leader cl' = leader cl \<and> current_term cl' = current_term cl"

lemma harmlessI: "kept cl cl' \<and> same_election cl cl' \<Longrightarrow> harmless cl cl'"
  by (simp add: harmless_def same_election_def)

lemma handle_harmless:
  assumes "c4_cluster_handle crc os apply rpc cl request w = (r, cl', w')" "log_inv (cl_log cl)"
    "length (header_transaction_id (message_header request)) = 16" "message_type (message_header request) \<noteq> m_type M_COORDINATOR"
  shows "harmless cl cl'"
proof -
  have refl: "harmless cl cl" "harmless cl (cl\<lparr>election_requested := True\<rparr>)" using assms(2) by (simp_all add: harmless_def kept_def)
  have lg: "harmless cl (cl\<lparr>cl_log := log\<rparr>)" if "log_inv log \<and> (\<exists>es. entries log = entries (cl_log cl) @ es)" for log
    using log_kept [of log cl] that by (simp add: harmlessI)
  have ap: "harmless cl cl2" if "c4_apply_new_entry apply (cl\<lparr>cl_log := log\<rparr>) e = (q, cl2)"
    "log_inv log \<and> (\<exists>es. entries log = entries (cl_log cl) @ es)" for log e q cl2
    using apply_kept [OF that(1)] that(2) by (simp add: harmlessI)
  define P where "P log \<longleftrightarrow> log_inv log \<and> (\<exists>es. entries log = entries (cl_log cl) @ es)" for log
  have d: "P log" if "c4_log_entry_decode crc os1 b = Inr e" "c4_log_append_entry crc os2 (cl_log cl) e = (q, log)" for os1 os2 b e q log
    using append_kept [OF that(2) stored_caller [OF decode_stored [OF that(1)]] assms(2)] by (simp add: P_def)
  have p: "P log" if "c4_log_prepare crc os2 (cl_log cl) e = (q, log)" "transaction_id e = header_transaction_id (message_header request)" for os2 e q log
    using prepare_inv [OF that(1) _ assms(2)] that(2) assms(3) by (simp add: P_def)
  have c: "P log" if "c4_log_commit crc os2 (cl_log cl) tid True = (q, log)" for os2 tid q log
    using commit_kept [OF that assms(2)] by (simp add: P_def)
  have a: "P log" if "c4_log_abort crc os2 (cl_log cl) (header_transaction_id (message_header request)) = (q, log)" for os2 q log
    using abort_inv [OF that assms(2,3)] by (simp add: P_def)
  show ?thesis
    using assms(1,4) refl lg [folded P_def] ap [folded P_def] d p c a
    unfolding c4_cluster_handle_def Let_def
    by (auto split: if_splits sum.splits option.splits prod.splits)
qed


lemma handle_coordinator:
  assumes "c4_cluster_handle crc os apply rpc cl request w = (r, cl', w')" "log_inv (cl_log cl)"
    "message_type (message_header request) = m_type M_COORDINATOR"
  shows "harmless cl cl' \<or> kept cl cl' \<and> current_term cl \<le> current_term cl' \<and>
    (leader cl' = replicate ID_SIZE 0 \<or>
     leader cl' = source_node (message_header request) \<and> 0 \<le> memcmp (leader cl') (self_id cl))"
proof -
  let ?h = "message_header request"
  let ?n = "wire_get_u64 (payload_bytes request)" and ?s = "source_node ?h"
  have refl: "harmless cl cl" using assms(2) by (simp add: harmless_def kept_def)
  define cl1 where "cl1 = cl\<lparr>current_term := ?n, leader := ?s, election_requested := False, election_waiting := False\<rparr>"
  show ?thesis
  proof (cases "\<exists>m. c4_member_is_live_superpeer (at os 0) cl ?s = Inr m \<and> destination_node ?h = self_id cl \<and>
      unat (header_payload_size ?h) = C4_COORDINATOR_PAYLOAD_SIZE \<and> current_term cl \<le> ?n \<and> 0 \<le> memcmp ?s (self_id cl)")
    case False
    then have "cl' = cl" using assms(1,3) unfolding c4_cluster_handle_def Let_def
      by (auto simp: not_less not_le split: if_splits sum.splits)
    then show ?thesis using refl by simp
  next
    case True
    then obtain m where m: "c4_member_is_live_superpeer (at os 0) cl ?s = Inr m" "destination_node ?h = self_id cl"
      "unat (header_payload_size ?h) = C4_COORDINATOR_PAYLOAD_SIZE" "current_term cl \<le> ?n" "0 \<le> memcmp ?s (self_id cl)" by blast
    obtain q cl2 w2 where c: "c4_recover_from_member crc (at os 1) apply rpc m cl1 w = (q, cl2, w2)"
      by (cases "c4_recover_from_member crc (at os 1) apply rpc m cl1 w") auto
    have k: "kept cl1 cl2 \<and> same_election cl1 cl2"
      by (rule recover_kept [OF _ c [unfolded c4_recover_from_member_def]]) (use assms(2) in \<open>simp add: cl1_def\<close>)
    have "cl' = cl2 \<or> cl' = cl2\<lparr>leader := replicate ID_SIZE 0\<rparr>"
      using assms(1,3) m c unfolding c4_cluster_handle_def Let_def cl1_def by (cases q) (auto split: if_splits)
    moreover have "kept cl cl2" using k by (simp add: kept_def cl1_def)
    moreover have "leader cl2 = ?s" "current_term cl2 = ?n" using k by (simp_all add: same_election_def cl1_def)
    ultimately show ?thesis using m(4,5) by (auto simp: kept_def)
  qed
qed

text \<open>The steps of a node of the cluster, in any environment and with any replies to its calls.\<close>

inductive cluster_step :: "zcrc \<Rightarrow> 'c applier \<Rightarrow> 'w remote \<Rightarrow> 'c C4Cluster \<Rightarrow> 'c C4Cluster \<Rightarrow> bool"
  for crc "apply" rpc where
  step_request: "c4_cluster_handle crc os apply rpc cl request w = (r, cl', w') \<Longrightarrow>
     length (header_transaction_id (message_header request)) = 16 \<Longrightarrow> cluster_step crc apply rpc cl cl'"
| step_tick: "c4_cluster_tick crc os apply rpc now cl w = (b, cl', w') \<Longrightarrow> cluster_step crc apply rpc cl cl'"
| step_submit: "c4_cluster_submit crc os apply rpc cl tid owner_id data w = (b, cl', w') \<Longrightarrow> length tid = 16 \<Longrightarrow>
     length owner_id = ID_SIZE \<Longrightarrow> cluster_step crc apply rpc cl cl'"
| step_members: "cluster_step crc apply rpc cl (cl\<lparr>cl_members := t\<rparr>)"

lemma two_phase_frame:
  assumes "two_phase crc os apply rpc ms cl tid wire w = (b, cl', w')"
  shows "cl_local cl' = cl_local cl \<and> leader cl' = leader cl \<and> current_term cl' = current_term cl"
  using assms unfolding two_phase_def Let_def c4_apply_new_entry_def
  by (auto split: if_splits prod.splits sum.splits option.splits)

lemma two_phase_harmless:
  assumes "two_phase crc os apply rpc ms cl tid wire w = (b, cl', w')" "log_inv (cl_log cl)" "length tid = 16"
  shows "harmless cl cl'"
proof -
  have "log_inv (cl_log cl') \<and> (\<exists>es. entries (cl_log cl') = entries (cl_log cl) @ es)"
    using assms(1)
  proof (cases rule: two_phase_cases)
    case (aborted sent acks acks' log' q w1)
    then show ?thesis using abort_inv [OF aborted(3) assms(2,3)] by simp
  next
    case (uncommitted acks log' r)
    then show ?thesis using commit_kept [OF uncommitted(4) assms(2)] by simp
  next
    case (committed acks acks' log' c w1)
    then show ?thesis using commit_kept [OF committed(3) assms(2)] by simp
  qed
  then show ?thesis using two_phase_frame [OF assms(1)] by (simp add: harmless_def kept_def)
qed

lemma submit_harmless:
  assumes "c4_cluster_submit crc os apply rpc cl tid owner_id data w = (b, cl', w')" "log_inv (cl_log cl)" "length tid = 16"
    "length owner_id = ID_SIZE"
  shows "harmless cl cl'"
proof -
  let ?e = "submitted_entry crc (at os 3) (cl_log cl) tid (owner_id @ data)"
  have tid: "length (transaction_id ?e) = 16" using assms(3) by (simp add: submitted_entry_def Let_def)
  have o: "length owner_id = C4_FORWARD_OWNER_SIZE" using assms(4) by (simp add: C4_FORWARD_OWNER_SIZE_def ID_SIZE_def)
  from assms(1) o show ?thesis
  proof (cases rule: submit_cases)
    case (prepared ms log wire)
    have p: "log_inv log \<and> entries log = entries (cl_log cl)" by (rule prepare_inv [OF prepared(5) tid assms(2)])
    have "harmless (cl\<lparr>cl_log := log\<rparr>) cl'" by (rule two_phase_harmless [OF prepared(7) _ assms(3)]) (use p in simp)
    then show ?thesis using p by (simp add: harmless_def kept_def)
  next
    case (unprepared r log)
    then show ?thesis using prepare_inv [OF unprepared(4) tid assms(2)] by (simp add: harmless_def kept_def)
  qed (use assms(2) in \<open>simp_all add: harmless_def kept_def\<close>)
qed


lemma harmless_ranked: "harmless cl cl' \<Longrightarrow> ranked cl \<Longrightarrow> ranked cl'"
  by (simp add: harmless_def kept_def ranked_def self_id_def)

lemma cluster_step_kept:
  assumes "cluster_step crc apply rpc cl cl'" "log_inv (cl_log cl)" "ranked cl"
  shows "kept cl cl' \<and> ranked cl' \<and> (current_term cl \<le> current_term cl' \<or> current_term cl' = current_term cl + 1)"
  using assms(1)
proof cases
  case (step_request os request w r w')
  show ?thesis
  proof (cases "message_type (message_header request) = m_type M_COORDINATOR")
    case True
    have s: "kept cl cl' \<Longrightarrow> self_id cl' = self_id cl" by (simp add: kept_def self_id_def)
    show ?thesis using handle_coordinator [OF step_request(1) assms(2) True]
    proof (elim disjE conjE)
      assume "harmless cl cl'"
      then show ?thesis using harmless_ranked [OF _ assms(3)] by (simp add: harmless_def)
    qed (use s zero_id in \<open>auto simp: ranked_def\<close>)
  next
    case False
    from handle_harmless [OF step_request(1) assms(2) step_request(2) False] show ?thesis
      using harmless_ranked [OF _ assms(3)] by (simp add: harmless_def)
  qed
next
  case (step_tick os now w b w')
  then show ?thesis using tick_kept [OF step_tick assms(2,3)] by auto
next
  case (step_submit os tid owner_id data w b w')
  from submit_harmless [OF step_submit(1) assms(2) step_submit(2,3)] show ?thesis
    using harmless_ranked [OF _ assms(3)] by (simp add: harmless_def)
next
  case (step_members t)
  then show ?thesis using assms(2,3) by (simp add: kept_def ranked_def self_id_def)
qed

lemma cluster_run_kept:
  "(cluster_step crc apply rpc)\<^sup>*\<^sup>* cl cl' \<Longrightarrow> log_inv (cl_log cl) \<Longrightarrow> ranked cl \<Longrightarrow> kept cl cl' \<and> ranked cl'"
proof (induction rule: rtranclp_induct)
  case base
  then show ?case by (simp add: kept_refl)
next
  case (step b c)
  then have k: "kept cl b" "ranked b" by blast+
  then have "kept b c \<and> ranked c" using cluster_step_kept [OF step.hyps(2)] by (simp add: kept_def)
  then show ?case using kept_trans k(1) by blast
qed

lemma apply_entries_frame:
  "apply_entries n os apply i cl = (r, cl') \<Longrightarrow> cl_log cl' = cl_log cl \<and> cl_local cl' = cl_local cl \<and> leader cl' = leader cl"
proof (induction n arbitrary: i cl)
  case (Suc n)
  have f: "cl_log c = cl_log cl \<and> cl_local c = cl_local cl \<and> leader c = leader cl" if "c4_apply_new_entry apply cl e = (q, c)" for e q c
    using that by (auto simp: c4_apply_new_entry_def Let_def split: prod.splits)
  show ?case
    using Suc.prems f Suc.IH by (fastforce split: sum.splits prod.splits option.splits)
qed simp

lemma created_kept:
  assumes "c4_cluster_create crc os apply context n t lf jf = Inr cl"
  shows "log_inv (cl_log cl) \<and> ranked cl \<and> self_id cl = id_of n"
proof -
  obtain log where l: "c4_log_open crc (at os 2) lf jf = (None, log)"
    using assms by (auto simp: c4_cluster_create_def split: option.splits prod.splits)
  let ?cl = "\<lparr>cl_local = n, cl_members = t, cl_log = log, cl_context = context, leader = replicate ID_SIZE 0,
      current_term = 0, election_requested = False, election_waiting = False, election_started_ms = 0\<rparr>"
  obtain cl1 where c: "apply_entries (length (entries log)) (at os 3) apply 1 ?cl = (None, cl1)" "cl = cl1\<lparr>election_requested := True\<rparr>"
    using assms l by (auto simp: c4_cluster_create_def Let_def split: option.splits prod.splits)
  show ?thesis using apply_entries_frame [OF c(1)] c(2) open_inv [OF l] zero_id by (simp add: ranked_def self_id_def)
qed

section \<open>Properties of a node of the cluster\<close>

text \<open>
C11: From its creation on arbitrary files, under any sequence of requests, ticks, submissions and changes of the membership table, with any failures and
any replies, a node of the cluster keeps its identity and a consistent log, never loses or replaces a log entry, and has no leader or
one whose identifier is not below its own.\<close>

theorem cluster_safe:
  assumes "c4_cluster_create crc os apply context n t lf jf = Inr cl0" "(cluster_step crc apply rpc)\<^sup>*\<^sup>* cl0 cl"
    "(cluster_step crc apply rpc)\<^sup>*\<^sup>* cl cl'"
  shows "self_id cl' = id_of n \<and> log_inv (cl_log cl') \<and> (\<exists>es. entries (cl_log cl') = entries (cl_log cl) @ es) \<and>
    (c4_id_is_zero (leader cl') \<or> 0 \<le> memcmp (leader cl') (self_id cl'))"
proof -
  note c = created_kept [OF assms(1)]
  have k: "kept cl0 cl \<and> ranked cl" using cluster_run_kept [OF assms(2)] c by blast
  have "kept cl cl' \<and> ranked cl'" by (rule cluster_run_kept [OF assms(3)]) (use k in \<open>simp_all add: kept_def\<close>)
  then show ?thesis using k c by (auto simp: kept_def ranked_def self_id_def)
qed


lemma tick_state_request:
  assumes "tick_state os now ms cl = (q, cl')" "election_requested cl"
  shows "q \<and> self_id cl' = self_id cl \<and> current_term cl' = current_term cl \<and> cl_log cl' = cl_log cl \<and> cl_members cl' = cl_members cl \<and>
    (leader cl' = leader cl \<or> leader cl' = replicate ID_SIZE 0)"
proof -
  have e: "q = fst (tick_state os now ms cl)" "cl' = snd (tick_state os now ms cl)" using assms(1) by simp_all
  show ?thesis unfolding e using assms(2) by (simp add: tick_state_def Let_def self_id_def)
qed



lemma higher_answers:
  assumes "\<And>w bytes. \<exists>b w'. rpc w h (m_type M_ELECTION) None bytes = (Inr (m_type M_OK, b), w')" "live_superpeer h"
    "0 < memcmp (member_id h) (self_id cl)"
  shows "h \<in> set ms \<Longrightarrow> fst (call_higher rpc cl ms w)"
proof (induction ms arbitrary: w)
  case (Cons m ms)
  let ?b = "wire_put_u64 (current_term cl) @ wire_put_u64 (c4_log_last_index (cl_log cl)) @ wire_put_u64 (c4_log_last_version (cl_log cl))"
  obtain r w1 where r: "rpc w m (m_type M_ELECTION) None ?b = (r, w1)" by fastforce
  show ?case
  proof (cases "m = h")
    case True
    then show ?thesis using assms(2,3) assms(1) [of w ?b] by (auto simp: case_prod_beta Let_def)
  next
    case False
    then have "fst (call_higher rpc cl ms w')" for w' using Cons by simp
    then show ?thesis using r by (auto simp: case_prod_beta Let_def split: sum.splits)
  qed
qed simp

text \<open>
C14: A node does not take the lead past a live Super Peer with a higher identifier: as long as that one answers, no tick makes the node the leader or
starts a new term; an election that is due is handed over, and the node waits for the announcement.\<close>

theorem election_defers:
  assumes "c4_cluster_tick crc os apply rpc now cl w = (b, cl', w')" "h \<in> set (members (cl_members cl))" "live_superpeer h"
    "0 < memcmp (member_id h) (self_id cl)" "\<And>w bytes. \<exists>b w'. rpc w h (m_type M_ELECTION) None bytes = (Inr (m_type M_OK, b), w')"
  shows "current_term cl' = current_term cl \<and> (leader cl' = leader cl \<or> leader cl' = replicate ID_SIZE 0) \<and>
    (b \<and> election_requested cl \<longrightarrow> election_waiting cl' \<and> \<not> election_requested cl' \<and> election_started_ms cl' = now)"
proof (cases "membership_snapshot (at os 0) (cl_members cl)")
  case (Inl e)
  then show ?thesis using assms(1) by (simp add: c4_cluster_tick_def c4_alive_superpeers_def)
next
  case (Inr ms)
  have ms: "ms = members (cl_members cl)" by (rule snapshot_members [OF Inr])
  obtain q cl1 where q: "tick_state (at os 1) now ms cl = (q, cl1)" by fastforce
  have e: "q = fst (tick_state (at os 1) now ms cl)" "cl1 = snd (tick_state (at os 1) now ms cl)" using q by simp_all
  have t: "current_term cl1 = current_term cl" "leader cl1 = leader cl \<or> leader cl1 = replicate ID_SIZE 0" "self_id cl1 = self_id cl"
    unfolding e by (simp_all add: tick_state_def Let_def self_id_def)
  have t2: "election_requested cl \<Longrightarrow> q" using tick_state_request [OF q] by blast
  obtain w1 where h: "call_higher rpc cl1 ms w = (True, w1)"
    using higher_answers [where rpc = rpc and h = h, OF assms(5,3), of cl1 ms w] assms(2,4) t(3) ms by (cases "call_higher rpc cl1 ms w") auto
  show ?thesis using assms(1) Inr q h t t2 by (cases q) (auto simp: c4_cluster_tick_def c4_alive_superpeers_def)
qed


text \<open>A node alone with a peer that it cannot reach.\<close>

abbreviation (input) no_answer :: "unit remote" where
  "no_answer \<equiv> \<lambda>w m ty tid bytes. (Inl EHOSTUNREACH, w)"

theorem cluster_safe_witness:
  "\<exists>cl0 b cl' w'. c4_cluster_create sum_crc calm (\<lambda>c e. (None, c)) () (sample_node 1) sample_table [] [] = Inr cl0 \<and>
     c4_cluster_tick sum_crc calm (\<lambda>c e. (None, c)) no_answer 0 cl0 () = (b, cl', w') \<and> self_id cl' = replicate 32 1 \<and> log_inv (cl_log cl')"
proof -
  let ?ap = "\<lambda>(c :: unit) (e :: C4LogEntry). (None :: errno option, c)"
  obtain cl0 where c: "c4_cluster_create sum_crc calm ?ap () (sample_node 1) sample_table [] [] = Inr cl0"
    by (simp add: c4_cluster_create_def open_empty Let_def) (simp add: empty_log_def)
  obtain b cl' w' where t: "c4_cluster_tick sum_crc calm ?ap no_answer 0 cl0 () = (b, cl', w')"
    by (cases "c4_cluster_tick sum_crc calm ?ap no_answer 0 cl0 ()") auto
  have "(cluster_step sum_crc ?ap no_answer)\<^sup>*\<^sup>* cl0 cl'" by (rule r_into_rtranclp, rule step_tick, rule t)
  from cluster_safe [OF c rtranclp.rtrancl_refl this] c t show ?thesis by (auto simp: sample_node_def)
qed


theorem election_defers_witness:
  "current_term (fst (snd (c4_cluster_tick sum_crc calm (\<lambda>c e. (None, c)) (\<lambda>w m ty tid bytes. (Inr (m_type M_OK, []), w)) 0
       ((sample_cluster 1 2)\<lparr>election_requested := True\<rparr>) ()))) = 1"
proof -
  let ?cl = "(sample_cluster 1 2)\<lparr>election_requested := True\<rparr>" and ?rpc = "\<lambda>(w :: unit) m ty tid bytes. (Inr (m_type M_OK, []), w)"
  obtain b cl' w' where t: "c4_cluster_tick sum_crc calm (\<lambda>c e. (None, c)) ?rpc 0 ?cl () = (b, cl', w')"
    by (cases "c4_cluster_tick sum_crc calm (\<lambda>c e. (None, c)) ?rpc 0 ?cl ()") auto
  have h: "live_superpeer (sample_member 2)" "0 < memcmp (member_id (sample_member 2)) (self_id ?cl)"
    by code_simp (simp add: self_id_def sample_cluster_def sample_node_def, code_simp)
  have "sample_member 2 \<in> set (members (cl_members ?cl))" by (simp add: sample_cluster_facts)
  from election_defers [OF t this h] t show ?thesis by (simp add: sample_cluster_def)
qed

end
