(* ===== verification/Superpeer_Safety.thy ===== *)
theory Superpeer_Safety
  imports Superpeer Heartbeat_Detection C4_Election
begin

text \<open>
  The Super Peer as a whole: what every request keeps of the states of all components, whatever bytes arrive on a connection.
\<close>

section \<open>The index changes only by entries that are applied\<close>

lemma apply_context:
  assumes "c4_apply_new_entry apply cl e = (r, cl')" "\<And>c e. P c \<Longrightarrow> P (snd (apply c e))" "P (cl_context cl)"
  shows "P (cl_context cl')"
  using assms(1,3) assms(2) [of "cl_context cl" e] by (auto simp: c4_apply_new_entry_def Let_def split: prod.splits)

lemma ist_append_context:
  assumes "\<And>c e. P c \<Longrightarrow> P (snd (apply c e))"
  shows "ist_append crc os apply k es cl = (r, cl') \<Longrightarrow> P (cl_context cl) \<Longrightarrow> P (cl_context cl')"
proof (induction es arbitrary: k cl)
  case (Cons e es)
  obtain q log where a: "c4_log_append_entry crc (at os k) (cl_log cl) e = (q, log)" by fastforce
  obtain q2 cl2 where b: "c4_apply_new_entry apply (cl\<lparr>cl_log := log\<rparr>) e = (q2, cl2)" by fastforce
  have p: "P (cl_context cl2)" by (rule apply_context [OF b, of P, OF assms]) (use Cons.prems(2) in simp_all)
  show ?case using Cons.IH [of "Suc k" cl2] Cons.prems a b p by (cases q; cases q2) auto
qed simp

lemma recover_context:
  assumes "\<And>c e. P c \<Longrightarrow> P (snd (apply c e))"
  shows "recover_loop crc os apply rpc m k i v cl w = (r, cl', w') \<Longrightarrow> P (cl_context cl) \<Longrightarrow> P (cl_context cl')"
  using assms
proof (induction crc os "apply" rpc m k i v cl w rule: recover_loop.induct)
  case (1 crc os "apply" rpc m k i v cl w)
  from 1(2) show ?case
  proof (cases rule: recover_round_cases)
    case stop
    then show ?thesis using 1(3) by simp
  next
    case (failed es e os')
    then show ?thesis using ist_append_context [of P "apply"] 1(3,4) by blast
  next
    case (again w1 bytes es cl2)
    have p: "P (cl_context cl2)" by (rule ist_append_context [OF 1(4) again(7) 1(3)])
    have n: "\<not> (m_type M_IST_BATCH \<noteq> m_type M_IST_BATCH \<or> length bytes < 4)" "\<not> (length bytes - 4) div 48 < unat (wire_get_u32 bytes)"
      using again(2,4) by simp_all
    show ?thesis
      by (rule 1(1) [OF again(1) [symmetric] refl refl n(1) refl again(3) n(2) again(5,6) again(7) [symmetric] refl again(8) p 1(4)])
  qed
qed

lemma handle_context:
  assumes "c4_cluster_handle crc os apply rpc cl request w = (r, cl', w')" "\<And>c e. P c \<Longrightarrow> P (snd (apply c e))" "P (cl_context cl)"
  shows "P (cl_context cl')"
proof -
  have ap: "P (cl_context cl2)" if "c4_apply_new_entry apply (cl\<lparr>cl_log := log\<rparr>) e = (q, cl2)" for log e q cl2
    by (rule apply_context [OF that, of P, OF assms(2)]) (use assms(3) in simp_all)
  have rc: "P (cl_context cl2)"
    if "c4_recover_from_member crc os2 apply rpc m (cl\<lparr>current_term := n, leader := s, election_requested := False, election_waiting := False\<rparr>) w = (q, cl2, w2)"
    for os2 m n s q cl2 w2
    by (rule recover_context [of P "apply", OF assms(2) that [unfolded c4_recover_from_member_def]]) (use assms(3) in simp_all)
  show ?thesis
    using assms(1,3) ap rc unfolding c4_cluster_handle_def Let_def
    by (auto split: if_splits sum.splits option.splits prod.splits)
qed

lemma two_phase_context:
  assumes "two_phase crc os apply rpc ms cl tid wire w = (b, cl', w')" "\<And>c e. P c \<Longrightarrow> P (snd (apply c e))" "P (cl_context cl)"
  shows "P (cl_context cl')"
proof -
  have ap: "P (cl_context cl2)" if "c4_apply_new_entry apply (cl\<lparr>cl_log := log\<rparr>) e = (q, cl2)" for log e q cl2
    by (rule apply_context [OF that, of P, OF assms(2)]) (use assms(3) in simp_all)
  show ?thesis
    using assms(1,3) ap unfolding two_phase_def Let_def by (auto split: if_splits sum.splits option.splits prod.splits)
qed

lemma submit_context:
  assumes "c4_cluster_submit crc os apply rpc cl tid owner_id data w = (b, cl', w')" "length owner_id = ID_SIZE"
    "\<And>c e. P c \<Longrightarrow> P (snd (apply c e))" "P (cl_context cl)"
  shows "P (cl_context cl')"
proof -
  have o: "length owner_id = C4_FORWARD_OWNER_SIZE" using assms(2) by (simp add: C4_FORWARD_OWNER_SIZE_def ID_SIZE_def)
  from assms(1) o show ?thesis
  proof (cases rule: submit_cases)
    case (prepared ms log wire)
    show ?thesis by (rule two_phase_context [OF prepared(7), of P, OF assms(3)]) (use assms(4) in simp_all)
  qed (use assms(4) in simp_all)
qed

section \<open>Announcements keep the index consistent\<close>

lemma decode_announcement_wf:
  assumes "transfer_decode_announcement os bytes = Inr (d, cs)"
  shows "announcement_wf d cs" "bytes \<noteq> []"
proof -
  let ?op = "store_code TRANSFER_STORE_ANNOUNCE" and ?n = "unat (transfer_chunk_count d)"
  obtain used where u: "decode_document_at bytes ?op = Inr (d, used)" "?n \<noteq> 0" "length bytes - used = ?n * 56"
    "cs = map (\<lambda>i. decode_descriptor (drop (used + i * 56) bytes)) [0..<?n]"
    using assms by (auto simp: transfer_decode_announcement_def Let_def DESCRIPTOR_SIZE_def split: sum.splits if_splits option.splits)
  have w: "document_wf d" using decode_document_Inr [OF u(1)] by blast
  have long: "56 \<le> length (drop (used + i * 56) bytes)" if "i < ?n" for i
  proof -
    have "Suc i * 56 \<le> ?n * 56" using that by (intro mult_right_mono) simp_all
    then show ?thesis using u(3) by simp
  qed
  have "list_all (\<lambda>c. length (chunk_hash c) = OBJECT_ID_SIZE) cs"
    unfolding u(4) using encode_decode_descriptor(2) [OF long] by (simp add: list_all_iff OBJECT_ID_SIZE_def)
  then show "announcement_wf d cs" using w u(2,4) by (simp add: announcement_wf_def)
  show "bytes \<noteq> []" using u(2,3) by auto
qed

lemma apply_c4_entry_inv: "directory_inv s \<Longrightarrow> directory_inv (snd (apply_c4_entry os s e))"
proof (cases "unat (payload_size e) \<le> NODE_ID_SIZE \<or> payload e = None")
  case False
  assume inv: "directory_inv s"
  show ?thesis
  proof (cases "transfer_decode_announcement (at os 0) (drop NODE_ID_SIZE (entry_payload e))")
    case (Inl er)
    then show ?thesis using False inv by (simp add: apply_c4_entry_def)
  next
    case (Inr p)
    obtain d cs where p: "p = (d, cs)" by (cases p)
    note wf = decode_announcement_wf [OF Inr [unfolded p]]
    have "length (take NODE_ID_SIZE (entry_payload e)) = ID_SIZE" using wf(2) by (simp add: NODE_ID_SIZE_def ID_SIZE_def)
    then have "directory_op_ok (AnnounceOp d cs (take NODE_ID_SIZE (entry_payload e)))" using wf(1) by simp
    from directory_step_inv [OF inv this, of "at os 1"] show ?thesis using False Inr p by (auto simp: apply_c4_entry_def)
  qed
qed (simp add: apply_c4_entry_def)

section \<open>The node\<close>

definition peer_inv :: "storage_lib \<Rightarrow> PeerContext \<Rightarrow> bool" where
  "peer_inv lib p \<longleftrightarrow> table_inv (table p) \<and> directory_inv (metadata p) \<and> storage_ok lib (sp_storage p) (sp_disk p) \<and>
     log_inv (cl_log (sp_c4 p)) \<and> ranked (sp_c4 p) \<and> chord_inv (base_lib lib) (sp_chord p) \<and>
     length (id_of (hb_local (sp_heartbeat p))) = ID_SIZE \<and> length (id_of (sp_node p)) = ID_SIZE"

text \<open>What a request may change: the invariant stays, the table makes steps of its own, the log grows at its end.\<close>

definition served :: "storage_lib \<Rightarrow> PeerContext \<Rightarrow> PeerContext \<Rightarrow> bool" where
  "served lib p p' \<longleftrightarrow> peer_inv lib p' \<and> (membership_step (base_lib lib))\<^sup>*\<^sup>* (table p) (table p') \<and>
     (\<exists>es. entries (cl_log (sp_c4 p')) = entries (cl_log (sp_c4 p)) @ es) \<and> sp_node p' = sp_node p"

lemma served_refl: "peer_inv lib p \<Longrightarrow> served lib p p"
  by (simp add: served_def)

lemma served_trans: "served lib a b \<Longrightarrow> served lib b c \<Longrightarrow> served lib a c"
  by (auto simp: served_def dest: rtranclp_trans)

lemma served_heartbeat:
  assumes "peer_inv lib p" "(membership_step (base_lib lib))\<^sup>*\<^sup>* (hb_members (sp_heartbeat p)) (hb_members hb) \<and> hb_local hb = hb_local (sp_heartbeat p)"
  shows "served lib p (p\<lparr>sp_heartbeat := hb\<rparr>)"
proof -
  have "table_inv (hb_members hb)" using steps_inv [OF conjunct1 [OF assms(2)]] assms(1) by (simp add: peer_inv_def table_def)
  then show ?thesis using assms by (simp add: served_def peer_inv_def table_def metadata_def)
qed

lemma served_storage:
  assumes "peer_inv lib p" "storage_step lib (sp_storage p, sp_disk p) (s, disk)"
  shows "served lib p (p\<lparr>sp_storage := s, sp_disk := disk\<rparr>)"
  using assms storage_step_ok [OF assms(2)] by (simp add: served_def peer_inv_def table_def metadata_def)

lemma served_read:
  assumes "peer_inv lib p" "storage_read_chunk_with_cache_info os (sp_storage p) (sp_disk p) i k = (r, s)"
  shows "served lib p (p\<lparr>sp_storage := s\<rparr>)"
proof -
  have "storage_step lib (sp_storage p, sp_disk p) (s, sp_disk p)"
    using assms(2) by (intro storage_step.step_read) (simp add: storage_read_chunk_with_cache_info_def)
  from served_storage [OF assms(1) this] show ?thesis by simp
qed

lemma served_cluster:
  assumes "peer_inv lib p" "kept (cluster p) cl" "ranked cl" "directory_inv (cl_context cl)"
  shows "served lib p (p\<lparr>sp_c4 := cl\<rparr>)"
  using assms by (simp add: served_def peer_inv_def table_def metadata_def kept_def cluster_def)

lemma served_metadata:
  assumes "peer_inv lib p" "directory_inv s"
  shows "served lib p (set_metadata s p)"
  using assms by (simp add: served_def peer_inv_def table_def metadata_def set_metadata_def ranked_def self_id_def)

lemma served_chord:
  assumes "peer_inv lib p" "chord_inv (base_lib lib) chord"
  shows "served lib p (p\<lparr>sp_chord := chord\<rparr>)"
  using assms by (simp add: served_def peer_inv_def table_def metadata_def)

lemma cluster_inv:
  assumes "peer_inv lib p"
  shows "log_inv (cl_log (cluster p))" "ranked (cluster p)" "directory_inv (cl_context (cluster p))"
  using assms by (simp_all add: peer_inv_def cluster_def metadata_def ranked_def self_id_def)

section \<open>Every handler\<close>

lemma process_served:
  assumes "process_announcement crc os rpc p owner_id bytes tid w = (r, p', w')" "peer_inv lib p" "length owner_id = ID_SIZE" "length tid = 16"
  shows "served lib p p'"
proof (cases "c4_cluster_is_leader (cluster p)")
  case True
  obtain ok cl w1 where c: "c4_cluster_submit crc (at os 0) (apply_c4_entry (at os 1)) rpc (cluster p) tid owner_id bytes w = (ok, cl, w1)"
    by (metis prod_cases3)
  note inv = cluster_inv [OF assms(2)]
  have h: "harmless (cluster p) cl" by (rule submit_harmless [OF c inv(1) assms(4,3)])
  have "directory_inv (cl_context cl)" by (rule submit_context [OF c assms(3), of directory_inv, OF apply_c4_entry_inv inv(3)])
  then have "served lib p (p\<lparr>sp_c4 := cl\<rparr>)"
    using served_cluster [OF assms(2)] h harmless_ranked [OF h inv(2)] by (simp add: harmless_def)
  moreover have "p' = p\<lparr>sp_c4 := cl\<rparr>" using assms(1) True c by (simp add: process_announcement_def)
  ultimately show ?thesis by simp
next
  case False
  have "p' = p" using assms(1) False unfolding process_announcement_def by (auto split: option.splits sum.splits if_splits prod.splits)
  then show ?thesis using served_refl [OF assms(2)] by simp
qed

lemma wf_lengths:
  assumes "message_wf m"
  shows "length (payload_bytes m) = unat (header_payload_size (message_header m))" "length (source_node (message_header m)) = ID_SIZE"
    "length (destination_node (message_header m)) = ID_SIZE" "length (header_transaction_id (message_header m)) = 16"
  using assms by (auto simp: message_wf_def header_wf_def payload_bytes_def NODE_ID_SIZE_def ID_SIZE_def TRANSACTION_ID_SIZE_def split: option.splits)

lemma announcement_served:
  assumes "handle_announcement crc os rpc p m w = (r, p', w')" "peer_inv lib p" "message_wf m"
  shows "served lib p p'"
proof (cases "superpeer_find_member (at os 0) (table p) (source_node (message_header m))")
  case (Inl e)
  then have "p' = p" using assms(1) by (simp add: handle_announcement_def)
  then show ?thesis using served_refl [OF assms(2)] by simp
next
  case (Inr member)
  let ?h = "message_header m" and ?b = "payload_bytes m"
  define sel where "sel = (if role (member_node member) = NODE_ROLE_SUPERPEER then
      (if unat (header_payload_size ?h) \<le> NODE_ID_SIZE + TRANSACTION_ID_SIZE then Inl EBADMSG
       else Inr (take NODE_ID_SIZE ?b, take TRANSACTION_ID_SIZE (drop NODE_ID_SIZE ?b), drop (NODE_ID_SIZE + TRANSACTION_ID_SIZE) ?b))
    else if \<not> superpeer_is_registered (at os 1) (table p) (source_node ?h) then Inl EACCES else Inr (source_node ?h, header_transaction_id ?h, ?b))"
  note eq = assms(1) [unfolded handle_announcement_def Let_def Inr sum.case sel_def [symmetric]]
  note len = wf_lengths [OF assms(3)]
  show ?thesis
  proof (cases sel)
    case (Inl e)
    then have "p' = p" using eq by simp
    then show ?thesis using served_refl [OF assms(2)] by simp
  next
    case (Inr x)
    obtain i tid a where x: "x = (i, tid, a)" by (rule prod_cases3)
    have l: "length i = ID_SIZE \<and> length tid = 16"
    proof (cases "role (member_node member) = NODE_ROLE_SUPERPEER")
      case True
      then have "\<not> unat (header_payload_size ?h) \<le> 48" "i = take 32 ?b" "tid = take 16 (drop 32 ?b)"
        using Inr x by (auto simp: sel_def NODE_ID_SIZE_def TRANSACTION_ID_SIZE_def split: if_splits)
      then show ?thesis using len(1) by (simp add: ID_SIZE_def)
    next
      case False
      then show ?thesis using Inr x len by (auto simp: sel_def split: if_splits)
    qed
    show ?thesis
    proof (cases "a = [] \<or> hd a \<noteq> store_code TRANSFER_STORE_ANNOUNCE")
      case True
      then have "p' = p" using eq Inr x by simp
      then show ?thesis using served_refl [OF assms(2)] by simp
    next
      case False
      then have "process_announcement crc (at os 2) rpc p i a tid w = (r, p', w')" using eq Inr x by simp
      from process_served [OF this assms(2)] show ?thesis using l by simp
    qed
  qed
qed

lemma commit_served:
  assumes "commit_upload lib crc os rpc p m w = (r, p', w')" "peer_inv lib p" "message_wf m"
  shows "served lib p p'"
proof (cases "transfer_decode_object_operation (payload_bytes m) (store_code TRANSFER_STORE_COMMIT)")
  case (Inl e)
  then show ?thesis using assms(1) served_refl [OF assms(2)] by (simp add: commit_upload_def)
next
  case (Inr i)
  obtain q s disk where c: "storage_commit lib (at os 0) (sp_storage p) (sp_disk p) i = (q, s, disk)" by (metis prod_cases3)
  define g where "g = p\<lparr>sp_storage := s, sp_disk := disk\<rparr>"
  have g: "served lib p g" unfolding g_def by (rule served_storage [OF assms(2) storage_step.step_commit [OF c]])
  note eq = assms(1) [unfolded commit_upload_def Inr sum.case c prod.case Let_def g_def [symmetric]]
  have inv: "peer_inv lib g" using g by (simp add: served_def)
  have n: "length (id_of (sp_node g)) = ID_SIZE" using inv by (simp add: peer_inv_def)
  have pr: "served lib p p'" if "process_announcement crc (at os 3) rpc g (id_of (sp_node g)) a (header_transaction_id (message_header m)) w = (r, p', w')" for a
    by (rule served_trans [OF g process_served [OF that inv n wf_lengths(4) [OF assms(3)]]])
  show ?thesis
  proof (cases "\<exists>d cs a. q = Inr d \<and> storage_descriptors (at os 1) s i = Inr cs \<and> transfer_encode_announcement (at os 2) d cs = Inr a")
    case True
    then show ?thesis using eq pr by auto
  next
    case False
    then have "p' = g" using eq by (auto split: sum.splits)
    then show ?thesis using g by simp
  qed
qed

lemma store_served:
  assumes "handle_client_store lib crc os oc rpc p m w = (r, p', w')" "peer_inv lib p" "message_wf m"
  shows "served lib p p'"
proof -
  have b: "served lib p (p\<lparr>sp_storage := s, sp_disk := disk\<rparr>)" if "storage_begin lib os (oc_time oc) (sp_storage p) (sp_disk p) d = (q, s, disk)" for d q s disk
    by (rule served_storage [OF assms(2) storage_step.step_begin [OF that]])
  have c: "served lib p (p\<lparr>sp_storage := s, sp_disk := disk\<rparr>)" if "storage_put_chunk lib os (sp_storage p) (sp_disk p) c = (q, s, disk)" for c q s disk
    by (rule served_storage [OF assms(2) storage_step.step_put [OF that]])
  note defs = assms(1) [unfolded handle_client_store_def Let_def]
  consider (empty) "message_payload m = None \<or> header_payload_size (message_header m) = 0"
    | (ann) "\<not> (message_payload m = None \<or> header_payload_size (message_header m) = 0)" "hd (payload_bytes m) = store_code TRANSFER_STORE_ANNOUNCE"
    | (com) "\<not> (message_payload m = None \<or> header_payload_size (message_header m) = 0)" "hd (payload_bytes m) = store_code TRANSFER_STORE_COMMIT"
    | (other) "\<not> (message_payload m = None \<or> header_payload_size (message_header m) = 0)" "hd (payload_bytes m) \<noteq> store_code TRANSFER_STORE_ANNOUNCE"
        "hd (payload_bytes m) \<noteq> store_code TRANSFER_STORE_COMMIT"
    by blast
  then show ?thesis
  proof cases
    case empty
    then show ?thesis using defs served_refl [OF assms(2)] by simp
  next
    case ann
    then have "handle_announcement crc os rpc p m w = (r, p', w')" using defs by auto
    then show ?thesis by (rule announcement_served [OF _ assms(2,3)])
  next
    case com
    then have "commit_upload lib crc os rpc p m w = (r, p', w')" using defs by auto
    then show ?thesis by (rule commit_served [OF _ assms(2,3)])
  next
    case other
    then show ?thesis using defs served_refl [OF assms(2)] b c by (auto split: if_splits sum.splits prod.splits)
  qed
qed

lemma lookup_served:
  assumes "answer_lookup os p m = (r, p')" "peer_inv lib p"
  shows "served lib p p'"
proof -
  have "served lib p (p\<lparr>sp_storage := snd (storage_read_chunk_with_cache_info os' (sp_storage p) (sp_disk p) i k)\<rparr>)" for os' i k
    by (rule served_read [OF assms(2) prod.collapse [symmetric]])
  then show ?thesis using assms(1) served_refl [OF assms(2)] unfolding answer_lookup_def Let_def by (auto split: sum.splits if_splits)
qed

lemma download_served:
  assumes "answer_chunk_download os p m = (r, p')" "peer_inv lib p"
  shows "served lib p p'"
  using assms(1) served_refl [OF assms(2)] served_read [OF assms(2)] unfolding answer_chunk_download_def
  by (auto split: sum.splits prod.splits)

lemma join_served:
  assumes "register_join (base_lib lib) os oc p m = (r, p')" "peer_inv lib p" "\<And>x d. sha256 (base_lib lib) x = Some d \<Longrightarrow> length d = ID_SIZE"
  shows "served lib p p'"
proof -
  have "served lib p (p\<lparr>sp_heartbeat := hb\<rparr>)"
    if "node_init (base_lib lib) (oc_pid oc) c = Inr n" "heartbeat_register (base_lib lib) (at os 0) (oc_wall oc) (oc_clock oc) (sp_heartbeat p) n inc = (q, hb)"
    for c n inc q hb
    by (rule served_heartbeat [OF assms(2) register_steps [OF that(2) node_init_length [OF that(1) assms(3)]]])
  then show ?thesis
    using assms(1) served_refl [OF assms(2)] unfolding register_join_def Let_def by (auto split: if_splits sum.splits prod.splits)
qed

lemma served_table:
  assumes "peer_inv lib p" "membership_step (base_lib lib) (table p) t"
  shows "served lib p (set_table t p)"
  using served_heartbeat [OF assms(1), of "(sp_heartbeat p)\<lparr>hb_members := t\<rparr>"] assms(2) by (simp add: set_table_def table_def r_into_rtranclp)

lemma leave_served:
  assumes "handle_leave (base_lib lib) os p m = (r, p')" "peer_inv lib p" "message_wf m"
  shows "served lib p p'"
proof -
  let ?i = "source_node (message_header m)"
  obtain q t where t: "superpeer_unregister_node (at os 1) (table p) ?i = (q, t)" by fastforce
  have "membership_step (base_lib lib) (table p) t"
    using membership_step.step_unregister [OF wf_lengths(2) [OF assms(3)], where t = "table p" and os = "at os 1"] t by (metis snd_conv)
  then have a: "served lib p (set_table t p)" by (rule served_table [OF assms(2)])
  define g where "g = set_metadata (snd (metadata_remove_peer (at os 2) (metadata (set_table t p)) ?i)) (set_table t p)"
  have "peer_inv lib (set_table t p)" using a by (simp add: served_def)
  then have "served lib (set_table t p) g"
    unfolding g_def by (intro served_metadata remove_peer_inv(1)) (simp_all add: peer_inv_def)
  then have b: "served lib p g" by (rule served_trans [OF a])
  have c: "served lib p (g\<lparr>sp_heartbeat := snd (heartbeat_checkpoint (base_lib lib) (at os 3) (sp_heartbeat g))\<rparr>)"
    by (rule served_trans [OF b served_heartbeat]) (use b in \<open>simp_all add: served_def checkpoint_table\<close>)
  have "p' = p \<or> p' = set_table t p \<or> p' = g\<lparr>sp_heartbeat := snd (heartbeat_checkpoint (base_lib lib) (at os 3) (sp_heartbeat g))\<rparr>"
    using arg_cong [OF assms(1) [unfolded handle_leave_def Let_def t prod.case g_def [symmetric]], of snd] by (simp split: if_split_asm)
  then show ?thesis using served_refl [OF assms(2)] a c by blast
qed

lemma chord_handle_inv:
  assumes "chord_network_handle lib chord m = (r, chord')" "chord_inv lib chord" "message_wf m"
  shows "chord_inv lib chord'"
proof -
  have "chord' = chord \<or> (\<exists>peer q. chord_notify lib chord peer = (q, chord') \<and> peer_id peer = source_node (message_header m))"
    using assms(1) unfolding chord_network_handle_def Let_def by (auto split: if_splits sum.splits prod.splits option.splits)
  then show ?thesis using notify_inv [OF _ assms(2)] assms(2) wf_lengths(2) [OF assms(3)] by (auto simp: proper_id_def)
qed

lemma chord_served:
  assumes "serve_chord (base_lib lib) os oc p m = (r, p')" "peer_inv lib p" "message_wf m" "\<And>x d. sha256 (base_lib lib) x = Some d \<Longrightarrow> length d = ID_SIZE"
  shows "served lib p p'"
proof -
  define g where "g = (if message_type (message_header m) = m_type M_CHORD_NOTIFY \<and> unat (header_payload_size (message_header m)) = JOIN_PAYLOAD_WIRE_SIZE then
      (case rpc_decode_join_payload (base_lib lib) (payload_bytes m) of Inl _ \<Rightarrow> p
       | Inr candidate \<Rightarrow> p\<lparr>sp_heartbeat := snd (heartbeat_discover (base_lib lib) (at os 0) (oc_pid oc) (oc_wall oc) (oc_clock oc) (sp_heartbeat p) candidate)\<rparr>)
    else p)"
  have d: "served lib p (p\<lparr>sp_heartbeat := snd (heartbeat_discover (base_lib lib) (at os 0) (oc_pid oc) (oc_wall oc) (oc_clock oc) (sp_heartbeat p) c)\<rparr>)" for c
    by (rule served_heartbeat [OF assms(2) discover_steps [OF prod.collapse [symmetric] assms(4)]])
  have g: "served lib p g" unfolding g_def using d served_refl [OF assms(2)] by (simp split: sum.split)
  obtain q chord where q: "chord_network_handle (base_lib lib) (sp_chord g) m = (q, chord)" by fastforce
  have inv: "peer_inv lib g" using g by (simp add: served_def)
  have "served lib g (g\<lparr>sp_chord := chord\<rparr>)"
    by (rule served_chord [OF inv chord_handle_inv [OF q _ assms(3)]]) (use inv in \<open>simp add: peer_inv_def\<close>)
  moreover have "p' = g\<lparr>sp_chord := chord\<rparr>"
    using arg_cong [OF assms(1) [unfolded serve_chord_def Let_def g_def [symmetric] q prod.case], of snd] by simp
  ultimately show ?thesis using served_trans [OF g] by simp
qed

lemma cluster_served:
  assumes "c4_cluster_handle crc os0 (apply_c4_entry os1) rpc (cluster p) m w = (r, cl, w')" "peer_inv lib p" "message_wf m"
  shows "served lib p (p\<lparr>sp_c4 := cl\<rparr>)"
proof -
  note inv = cluster_inv [OF assms(2)]
  have "cluster_step crc (apply_c4_entry os1) rpc (cluster p) cl" by (rule cluster_step.step_request [OF assms(1) wf_lengths(4) [OF assms(3)]])
  from cluster_step_kept [OF this inv(1,2)] have "kept (cluster p) cl" "ranked cl" by simp_all
  moreover have "directory_inv (cl_context cl)" by (rule handle_context [OF assms(1), of directory_inv, OF apply_c4_entry_inv inv(3)])
  ultimately show ?thesis by (rule served_cluster [OF assms(2)])
qed

text \<open>Every request, in every environment.\<close>

lemma request_served:
  assumes "serve_request lib crc os oc rpc p m w = (r, p', w')" "peer_inv lib p" "message_wf m"
    "\<And>x d. sha256 (base_lib lib) x = Some d \<Longrightarrow> length d = ID_SIZE"
  shows "served lib p p'"
proof -
  let ?h = "message_header m" and ?lib = "base_lib lib"
  note refl = served_refl [OF assms(2)]
  have hb: "served lib p (p\<lparr>sp_heartbeat := hb\<rparr>)" if "heartbeat_handle ?lib os (oc_pid oc) (oc_wall oc) (oc_clock oc) (sp_heartbeat p) m = (x, hb)" for x hb
    by (rule served_heartbeat [OF assms(2) handle_steps [OF that]]) (use assms(2) in \<open>simp add: peer_inv_def\<close>)
  note eq = assms(1) [unfolded serve_request_def Let_def]
  consider (mis) "misaddressed p m" | (join) "\<not> misaddressed p m" "message_type ?h = m_type M_JOIN" | (ping) "\<not> misaddressed p m" "message_type ?h = m_type M_PING"
    | (leave) "\<not> misaddressed p m" "message_type ?h = m_type M_LEAVE"
    | (store) "\<not> misaddressed p m" "message_type ?h = m_type M_STORE" "0 < header_payload_size ?h"
    | (lookup) "\<not> misaddressed p m" "message_type ?h = m_type M_LOOKUP" | (download) "\<not> misaddressed p m" "message_type ?h = m_type M_DOWNLOAD_REQ"
    | (other) "\<not> misaddressed p m" "message_type ?h \<noteq> m_type M_JOIN" "message_type ?h \<noteq> m_type M_PING" "message_type ?h \<noteq> m_type M_LEAVE"
        "\<not> (message_type ?h = m_type M_STORE \<and> 0 < header_payload_size ?h)" "message_type ?h \<noteq> m_type M_LOOKUP" "message_type ?h \<noteq> m_type M_DOWNLOAD_REQ"
    by blast
  then show ?thesis
  proof cases
    case mis
    then show ?thesis using eq refl by simp
  next
    case join
    then show ?thesis using eq join_served [OF _ assms(2,4)] by (auto split: prod.splits)
  next
    case ping
    then show ?thesis using eq refl by auto
  next
    case leave
    then show ?thesis using eq leave_served [OF _ assms(2,3)] by (auto split: prod.splits)
  next
    case store
    then show ?thesis using eq store_served [OF _ assms(2,3)] by (auto split: prod.splits)
  next
    case lookup
    then show ?thesis using eq lookup_served [OF _ assms(2)] by (auto split: prod.splits)
  next
    case download
    then show ?thesis using eq download_served [OF _ assms(2)] by (auto split: prod.splits)
  next
    case other
    note eq' = eq [unfolded if_not_P [OF other(1)] if_not_P [OF other(2)] if_not_P [OF other(3)] if_not_P [OF other(4)] if_not_P [OF other(5)]
        if_not_P [OF other(6)] if_not_P [OF other(7)]]
    show ?thesis
      using eq' refl hb cluster_served [OF _ assms(2,3)] chord_served [OF _ assms(2-4)] by (auto split: if_splits prod.splits)
  qed
qed

text \<open>Every connection, whatever bytes arrive on it.\<close>

lemma client_served:
  assumes "\<And>x d. sha256 (base_lib lib) x = Some d \<Longrightarrow> length d = ID_SIZE"
  shows "handle_client lib crc os oc rpc k p w stream = (sent, p', w') \<Longrightarrow> peer_inv lib p \<Longrightarrow> served lib p p'"
  using assms
proof (induction lib crc os oc rpc k p w stream arbitrary: sent rule: handle_client.induct)
  case (1 lib crc os oc rpc k p w stream)
  obtain res m rest where m: "protocol_receive_message crc (at (at os k) 0) stream message_init = (res, m, rest)" by (rule prod_cases3)
  show ?case
  proof (cases "res = PROTOCOL_OK")
    case False
    then have "p' = p" using 1(2) m by (cases res) (simp_all add: handle_client.simps)
    then show ?thesis using served_refl [OF 1(3)] by simp
  next
    case True
    obtain strict r g w1 where g: "serve_request lib crc (at (at os k) 1) (oc k) rpc p m w = ((strict, r), g, w1)" by (metis prod.collapse)
    obtain ok out where o: "send_reply (base_lib lib) crc (at (at os k) 2) (oc_time (oc k)) (sp_node g) m r = (ok, out)" by fastforce
    have s: "served lib p g" by (rule request_served [OF g 1(3) _ 1(4)]) (use receive_sound m True in blast)
    note eq = 1(2) [unfolded handle_client.simps [of lib crc os oc rpc k p w stream] m True prod.case protocol_result.case g Let_def o]
    show ?thesis
    proof (cases "strict \<and> \<not> ok")
      case True
      then show ?thesis using eq s by simp
    next
      case False
      obtain more p2 w2 where c: "handle_client lib crc os oc rpc (Suc k) g w1 rest = (more, p2, w2)" by (rule prod_cases3)
      have c': "handle_client lib crc os oc rpc (Suc k) g w1 rest = (more, p', w')" using eq False c by auto
      have inv: "peer_inv lib g" using s by (simp add: served_def)
      have "served lib g p'" by (rule 1(1) [OF m [unfolded True, symmetric] refl refl g [symmetric] refl refl o [symmetric] refl False c' inv 1(4)])
      then show ?thesis by (rule served_trans [OF s])
    qed
  qed
qed

end
