(* ===== verification/Storage_Upload.thy ===== *)
theory Storage_Upload
  imports Storage_Safety
begin

text \<open>
  Uploads in an environment without failures: from the beginning of a document to reading its chunks back.
\<close>

section \<open>Without failures\<close>

text \<open>The longest path that the operations on a document use fits.\<close>

definition path_fits :: "storage_lib \<Rightarrow> Storage \<Rightarrow> ObjectID \<Rightarrow> bool" where
  "path_fits lib s i \<longleftrightarrow> length (storage_root s) + 9 + length (object_hex i) + 36 + length (pid_text lib) < STORAGE_PATH_MAX"

definition manifest_bytes :: "StoredDocument \<Rightarrow> byte list" where
  "manifest_bytes st = concat (manifest_fields st)"

lemma write_all_fd_calm [simp]: "write_all_fd [] bytes = (None, bytes)"
  by (cases bytes) simp_all

lemma write_fields_calm [simp]: "write_fields calm k fs = (None, concat fs)"
  by (induction fs arbitrary: k) simp_all

lemma mkdir_all_calm [simp]: "mkdir_all [] n = None"
  by (cases n) simp_all

lemma document_directory_fits:
  assumes "path_fits lib s i"
  obtains path where "document_directory s i f = Inr path" "length path = length (storage_root s) + 9 + length (object_hex i)" "path \<noteq> []"
  using assms that [of "storage_root s @ map of_char (''/'' @ (if f then ''objects'' else ''pending'') @ ''/'' @ object_hex i)"]
  by (cases f) (auto simp: document_directory_def path_fits_def Let_def)

lemma chunk_path_fits: "path_fits lib s i \<Longrightarrow> chunk_path s i f = Inr (length (storage_root s) + 40 + length (object_hex i))"
  by (rule document_directory_fits [of lib s i f]) (auto simp: chunk_path_def path_fits_def Let_def)

lemma sync_parent_calm: "n < STORAGE_PATH_MAX \<Longrightarrow> sync_parent calm n = None"
  by (simp add: sync_parent_def)

definition manifest_written :: "disk \<Rightarrow> StoredDocument \<Rightarrow> bool \<Rightarrow> disk" where
  "manifest_written disk st f = change_directory (enter_directory disk f (object_hex (document_id st))) f (object_hex (document_id st))
     (\<lambda>d. d\<lparr>manifest := Some (manifest_bytes st)\<rparr>)"

lemma write_manifest_calm:
  assumes "path_fits lib s (document_id st)"
  shows "write_manifest lib calm s disk st f = (None, manifest_written disk st f)"
proof (rule document_directory_fits [OF assms, where f = f])
  fix path assume p: "document_directory s (document_id st) f = Inr path" "length path = length (storage_root s) + 9 + length (object_hex (document_id st))" "path \<noteq> []"
  have l: "length path + 36 + length (pid_text lib) < STORAGE_PATH_MAX" using p(2) assms by (simp add: path_fits_def)
  then have "ensure_directory_tree calm path = None" using p(3) by (simp add: ensure_directory_tree_def)
  moreover have "sync_parent calm (length path + 13) = None" using l by (intro sync_parent_calm) simp
  ultimately show ?thesis using p(1) l unfolding write_manifest_def manifest_written_def manifest_bytes_def by (simp add: Let_def)
qed

lemma manifest_written_files [simp]: "chunk_file (manifest_written disk st f) g i k = chunk_file disk g i k"
  by (simp add: manifest_written_def)

lemma manifest_written_dir: "manifest_written disk st f f (object_hex (document_id st)) =
    Some ((case disk f (object_hex (document_id st)) of None \<Rightarrow> \<lparr>manifest = None, chunk_files = []\<rparr> | Some d \<Rightarrow> d)\<lparr>manifest := Some (manifest_bytes st)\<rparr>)"
  by (simp add: manifest_written_def change_directory_def enter_directory_def)

lemma manifest_written_other: "(g, name) \<noteq> (f, object_hex (document_id st)) \<Longrightarrow> manifest_written disk st f g name = disk g name"
  by (auto simp: manifest_written_def change_directory_def enter_directory_def)

section \<open>An upload\<close>

text \<open>
  The chunks of a document as a client sends them, and their contents: chunk \<open>j\<close> at place \<open>j\<close> with the size that its number asks for, compressed within
  the bound of LZ4 to data that decompress to the contents, with their SHA-256; the identifier is the SHA-256 of all contents.
\<close>

definition sound_chunk :: "storage_lib \<Rightarrow> TransferDocument \<Rightarrow> nat \<Rightarrow> TransferChunk \<Rightarrow> byte list \<Rightarrow> bool" where
  "sound_chunk lib d j c raw \<longleftrightarrow> tc_id c = transfer_id d \<and> tc_index c = of_nat j \<and> tc_offset c = of_nat j * METADATA_CHUNK_SIZE \<and>
     tc_raw_size c = expected_chunk_size (file_size d) (of_nat j) \<and> raw \<noteq> [] \<and> length raw = unat (tc_raw_size c) \<and> length raw \<le> INT_MAX \<and>
     length (tc_data c) = unat (tc_compressed_size c) \<and> tc_data c \<noteq> [] \<and> length (tc_data c) \<le> INT_MAX \<and>
     int (length (tc_data c)) \<le> LZ4_compressBound lib (length raw) \<and> LZ4_decompress_safe lib (tc_data c) (length raw) = Some raw \<and>
     sha256 lib raw = Some (tc_hash c)"

definition sound_upload :: "storage_lib \<Rightarrow> TransferDocument \<Rightarrow> TransferChunk list \<Rightarrow> byte list list \<Rightarrow> bool" where
  "sound_upload lib d cs raws \<longleftrightarrow> content_pdf_name (cstr (transfer_name d)) \<and> compression d = COMPRESSION_LZ4 \<and> cs \<noteq> [] \<and>
     length cs = unat (transfer_chunk_count d) \<and> length raws = length cs \<and> length cs \<le> 2 ^ 42 \<and> (\<forall>j < length cs. sound_chunk lib d j (cs ! j) (raws ! j)) \<and>
     of_nat (length (concat raws)) = file_size d \<and> sha256 lib (concat raws) = Some (transfer_id d)"

lemma sound_chunk_genuine:
  assumes "sound_chunk lib d j c raw"
  shows "chunk_genuine lib calm c"
proof -
  have l: "length raw = unat (tc_raw_size c)" "length raw \<le> INT_MAX" "tc_data c \<noteq> []" "int (length (tc_data c)) \<le> LZ4_compressBound lib (length raw)"
    using assms unfolding sound_chunk_def by blast+
  then have "0 < LZ4_compressBound lib (length raw)" by (metis length_greater_0_conv less_le_trans of_nat_0_less_iff)
  then have "compression_lz4_bound lib (unat (tc_raw_size c)) = Inr (nat (LZ4_compressBound lib (length raw)))"
    using l(1,2) by (simp add: compression_lz4_bound_def Let_def)
  moreover have "\<not> nat (LZ4_compressBound lib (length raw)) < unat (tc_compressed_size c)"
    using l(4) assms unfolding sound_chunk_def by (metis nat_int nat_mono not_le)
  moreover have "take (unat (tc_compressed_size c)) (tc_data c) = tc_data c" using assms by (simp add: sound_chunk_def)
  moreover have "compression_lz4_decompress lib calm (tc_data c) (unat (tc_raw_size c)) = Inr raw"
  proof -
    have "LZ4_decompress_safe lib (tc_data c) (length raw) = Some raw" "length (tc_data c) \<le> INT_MAX" "raw \<noteq> []"
      using assms unfolding sound_chunk_def by blast+
    moreover from this(3) have "length raw \<noteq> 0" by simp
    ultimately show ?thesis unfolding l(1) [symmetric] using l(2,3) by (intro decompress_calm) simp_all
  qed
  ultimately show ?thesis using assms by (simp add: chunk_genuine_def content_sha256_def sound_chunk_def)
qed

text \<open>The document at position \<open>k\<close> has the chunks with numbers in \<open>js\<close>, in memory and on disk.\<close>

definition uploading :: "Storage \<Rightarrow> disk \<Rightarrow> TransferDocument \<Rightarrow> TransferChunk list \<Rightarrow> nat \<Rightarrow> nat set \<Rightarrow> bool" where
  "uploading s disk d cs k js \<longleftrightarrow> find_document s (transfer_id d) = Some k \<and> sd_document (documents s ! k) = d \<and> sd_state (documents s ! k) \<noteq> TRANSFER_FINISHED \<and>
     sd_owner (documents s ! k) = storage_owner s \<and> length (sd_chunks (documents s ! k)) = length cs \<and> disk False (object_hex (transfer_id d)) \<noteq> None \<and>
     (\<forall>j < length cs. if j \<in> js then sd_chunks (documents s ! k) ! j = record_of_chunk (cs ! j) \<and>
          chunk_file disk False (transfer_id d) (of_nat j) = Some (tc_data (cs ! j))
        else \<not> present (sd_chunks (documents s ! k) ! j))"

lemma begin_calm:
  assumes u: "sound_upload lib d cs raws" and f: "find_document s (transfer_id d) = None" and p: "path_fits lib s (transfer_id d)"
  shows "\<exists>s' disk'. storage_begin lib calm now s disk d = (None, s', disk') \<and> uploading s' disk' d cs 0 {} \<and> storage_root s' = storage_root s \<and>
    storage_owner s' = storage_owner s \<and> disk' True = disk True"
proof -
  let ?st = "\<lparr>sd_document = d, sd_owner = storage_owner s, uploaded_at = now, sd_state = TRANSFER_CREATED,
    sd_chunks = replicate (unat (transfer_chunk_count d)) \<lparr>sc_index = 0, sc_offset = 0, sc_raw_size = 0, sc_compressed_size = 0,
      sc_hash = replicate OBJECT_ID_SIZE 0, present = False\<rparr>\<rparr>"
  let ?name = "object_hex (transfer_id d)"
  let ?disk = "manifest_written (enter_directory disk False ?name) ?st False" and ?s = "s\<lparr>documents := ?st # documents s\<rparr>"
  have "cs \<noteq> []" "length cs = unat (transfer_chunk_count d)" using u by (simp_all add: sound_upload_def)
  then have c: "transfer_chunk_count d \<noteq> 0" by (metis length_0_conv unsigned_0)
  have m: "unat (transfer_chunk_count d) \<le> SIZE_MAX div STORED_CHUNK_SLOT_SIZE"
    using u by (auto simp: sound_upload_def SIZE_MAX_def STORED_CHUNK_SLOT_SIZE_def)
  have "write_manifest lib calm s (enter_directory disk False ?name) ?st False = (None, ?disk)" by (rule write_manifest_calm) (use p in simp)
  moreover obtain path where "document_directory s (transfer_id d) False = Inr path" "length path = length (storage_root s) + 9 + length ?name" "path \<noteq> []"
    by (rule document_directory_fits [OF p])
  moreover have "ensure_directory_tree calm path = None" using calculation(3,4) p by (simp add: ensure_directory_tree_def path_fits_def)
  ultimately have "storage_begin lib calm now s disk d = (None, ?s, ?disk)"
    using u f c m by (simp add: storage_begin_def Let_def sound_upload_def)
  moreover have "uploading ?s ?disk d cs 0 {}"
    using u manifest_written_dir [of "enter_directory disk False ?name" ?st False] by (simp add: uploading_def find_document_def sound_upload_def)
  moreover have "?disk True = disk True" by (rule ext) (simp add: manifest_written_other, simp add: enter_directory_def)
  ultimately show ?thesis by auto
qed

fun put_all :: "storage_lib \<Rightarrow> Storage \<Rightarrow> disk \<Rightarrow> TransferChunk list \<Rightarrow> errno option \<times> Storage \<times> disk" where
  "put_all lib s disk [] = (None, s, disk)"
| "put_all lib s disk (c # cs) =
     (case storage_put_chunk lib calm s disk c of (Some e, s, disk) \<Rightarrow> (Some e, s, disk) | (None, s, disk) \<Rightarrow> put_all lib s disk cs)"

lemma chunk_file_written:
  assumes "disk False (object_hex (tc_id c)) = Some dir" "length (tc_data c) = unat (tc_compressed_size c)"
  shows "\<exists>disk'. write_chunk_file calm disk c = (None, disk') \<and> disk' False (object_hex (tc_id c)) \<noteq> None \<and>
    (\<forall>k. chunk_file disk' False (tc_id c) k = (if k = tc_index c then Some (tc_data c) else chunk_file disk False (tc_id c) k))"
proof -
  have "map_of (filter (\<lambda>f. fst f \<noteq> i) fs) k = (if k = i then None else map_of fs k)" for fs :: "(u64 \<times> byte list) list" and i k
    by (induction fs) auto
  then show ?thesis using assms by (simp add: write_chunk_file_def change_directory_def chunk_file_def)
qed

lemma find_document_replace:
  assumes "k < length (documents s)" "document_id st = document_id (documents s ! k)"
  shows "find_document (s\<lparr>documents := (documents s)[k := st]\<rparr>) i = find_document s i"
proof -
  have "find_index (\<lambda>x. x = i) (map document_id ((documents s)[k := st])) = find_index (\<lambda>x. x = i) (map document_id (documents s))"
    using map_update_same [where f = document_id, OF assms] by simp
  then show ?thesis by (simp add: find_document_def find_index_map)
qed

lemma write_chunk_file_True: "write_chunk_file os disk c = (r, disk') \<Longrightarrow> disk' True = disk True"
  by (auto simp: write_chunk_file_def change_directory_def Let_def split: option.splits prod.splits)

lemma index_bound: "j < 2 ^ 42 \<Longrightarrow> \<not> (- 1 div METADATA_CHUNK_SIZE :: u64) < of_nat j"
  by (simp add: METADATA_CHUNK_SIZE_def word_less_nat_alt unat_of_nat unat_div take_bit_nat_eq_self)

lemma put_calm:
  assumes u: "sound_upload lib d cs raws" and up: "uploading s disk d cs k js" and j: "j < length cs" and p: "path_fits lib s (transfer_id d)"
  shows "\<exists>s' disk'. storage_put_chunk lib calm s disk (cs ! j) = (None, s', disk') \<and> uploading s' disk' d cs k (insert j js) \<and>
    storage_root s' = storage_root s \<and> storage_owner s' = storage_owner s \<and> disk' True = disk True"
proof -
  let ?c = "cs ! j" and ?st = "documents s ! k" and ?i = "transfer_id d"
  have c: "sound_chunk lib d j ?c (raws ! j)" using u j by (simp add: sound_upload_def)
  then have id: "tc_id ?c = ?i" "tc_index ?c = of_nat j" "tc_offset ?c = of_nat j * METADATA_CHUNK_SIZE"
    "tc_raw_size ?c = expected_chunk_size (file_size d) (of_nat j)" "length (tc_data ?c) = unat (tc_compressed_size ?c)"
    unfolding sound_chunk_def by blast+
  have n: "length cs = unat (transfer_chunk_count d)" "length cs \<le> 2 ^ 42" using u unfolding sound_upload_def by blast+
  have uj: "unat (of_nat j :: u64) = j" using j n by (simp add: unat_of_nat take_bit_nat_eq_self)
  have lt: "\<not> transfer_chunk_count d \<le> of_nat j" using j n(1) uj by (simp add: word_le_nat_alt)
  have st: "find_document s ?i = Some k" "sd_document ?st = d" "sd_state ?st \<noteq> TRANSFER_FINISHED" "length (sd_chunks ?st) = length cs"
    "disk False (object_hex ?i) \<noteq> None" "sd_owner ?st = storage_owner s" using up by (simp_all add: uploading_def)
  have put: "storage_put_chunk lib calm s disk ?c = (if present (sd_chunks ?st ! j) then (if same_chunk (sd_chunks ?st ! j) ?c then None else Some EEXIST, s, disk)
      else store_chunk lib calm s disk k ?c (length (storage_root s) + 40 + length (object_hex ?i)))"
    using sound_chunk_genuine [OF c] st(1,2,3) lt index_bound [of j] j n(2) chunk_path_fits [OF p, of False] p
    unfolding storage_put_chunk_def id path_fits_def by (simp add: Let_def uj)
  show ?thesis
  proof (cases "present (sd_chunks ?st ! j)")
    case True
    then have "j \<in> js" using up j by (auto simp: uploading_def split: if_splits)
    then have "sd_chunks ?st ! j = record_of_chunk ?c" using up j by (auto simp: uploading_def)
    then have "same_chunk (sd_chunks ?st ! j) ?c" by (simp add: same_chunk_def record_of_chunk_def)
    with True put up \<open>j \<in> js\<close> show ?thesis by (simp add: insert_absorb)
  next
    case False
    let ?st' = "?st\<lparr>sd_chunks := (sd_chunks ?st)[j := record_of_chunk ?c], sd_state := TRANSFER_TRANSFERRING\<rparr>"
    let ?s = "s\<lparr>documents := (documents s)[k := ?st']\<rparr>"
    obtain dir where dir: "disk False (object_hex (tc_id ?c)) = Some dir" using st(5) id(1) by auto
    obtain disk1 where w: "write_chunk_file calm disk ?c = (None, disk1)" "disk1 False (object_hex (tc_id ?c)) \<noteq> None"
      "\<And>m. chunk_file disk1 False (tc_id ?c) m = (if m = tc_index ?c then Some (tc_data ?c) else chunk_file disk False (tc_id ?c) m)"
      using chunk_file_written [where disk = disk and c = ?c, OF dir id(5)] by blast
    have "document_id ?st' = ?i" using st(2) by simp
    moreover have "path_fits lib ?s ?i" using p by (simp add: path_fits_def)
    ultimately have "write_manifest lib calm ?s disk1 ?st' False = (None, manifest_written disk1 ?st' False)" by (intro write_manifest_calm) simp
    moreover have "sync_parent calm (length (storage_root s) + 40 + length (object_hex ?i)) = None" using p by (intro sync_parent_calm) (simp add: path_fits_def)
    ultimately have "store_chunk lib calm s disk k ?c (length (storage_root s) + 40 + length (object_hex ?i)) = (None, ?s, manifest_written disk1 ?st' False)"
      using w(1) id(2) uj by (simp add: store_chunk_def Let_def)
    moreover have "uploading ?s (manifest_written disk1 ?st' False) d cs k (insert j js)"
    proof -
      have kl: "k < length (documents s)" using find_document_Some [OF st(1)] by simp
      have f: "find_document ?s ?i = Some k" using find_document_replace [OF kl, of ?st'] st(1,2) by simp
      have dk: "documents ?s ! k = ?st'" using kl by simp
      have "if m \<in> insert j js then sd_chunks ?st' ! m = record_of_chunk (cs ! m) \<and> chunk_file (manifest_written disk1 ?st' False) False ?i (of_nat m) = Some (tc_data (cs ! m))
          else \<not> present (sd_chunks ?st' ! m)" if m: "m < length cs" for m
      proof (cases "m = j")
        case True
        then show ?thesis using w(3) [of "of_nat j"] id(1,2) st(4) j by simp
      next
        case no: False
        have "unat (of_nat m :: u64) = m" using m n by (simp add: unat_of_nat take_bit_nat_eq_self)
        then have "(of_nat m :: u64) \<noteq> of_nat j" using uj no by metis
        then have "chunk_file disk1 False ?i (of_nat m) = chunk_file disk False ?i (of_nat m)" using w(3) id(1,2) by simp
        then show ?thesis using up m no by (simp add: uploading_def)
      qed
      moreover have "manifest_written disk1 ?st' False False (object_hex ?i) \<noteq> None"
        using manifest_written_dir [of disk1 ?st' False] st(2) by simp
      ultimately have "\<forall>m < length cs. if m \<in> insert j js then sd_chunks ?st' ! m = record_of_chunk (cs ! m) \<and>
            chunk_file (manifest_written disk1 ?st' False) False ?i (of_nat m) = Some (tc_data (cs ! m))
          else \<not> present (sd_chunks ?st' ! m)" "manifest_written disk1 ?st' False False (object_hex ?i) \<noteq> None" by blast+
      then show ?thesis unfolding uploading_def dk f using st(2,4,6) by simp
    qed
    moreover have "manifest_written disk1 ?st' False True = disk True"
      by (rule ext) (simp add: manifest_written_other write_chunk_file_True [OF w(1)])
    ultimately show ?thesis using put False by simp
  qed
qed

lemma record_of_chunk_fields [simp]:
  "sc_index (record_of_chunk c) = tc_index c" "sc_offset (record_of_chunk c) = tc_offset c" "sc_raw_size (record_of_chunk c) = tc_raw_size c"
  "sc_compressed_size (record_of_chunk c) = tc_compressed_size c" "sc_hash (record_of_chunk c) = tc_hash c" "present (record_of_chunk c)"
  by (simp_all add: record_of_chunk_def)

lemma verify_calm:
  "length raws = length cs \<Longrightarrow> \<forall>j < length cs. sound_chunk lib d (k + j) (cs ! j) (raws ! j) \<and>
     chunk_file disk f (transfer_id d) (of_nat (k + j)) = Some (tc_data (cs ! j)) \<Longrightarrow> path_fits lib s (transfer_id d) \<Longrightarrow>
   verify_chunks lib calm s disk (transfer_id d) f k (map record_of_chunk cs) = Inr (concat raws)"
proof (induction cs arbitrary: k raws)
  case (Cons c cs)
  obtain raw raws' where r: "raws = raw # raws'" "length raws' = length cs" using Cons.prems(1) by (cases raws) auto
  have c: "sound_chunk lib d k c raw" "chunk_file disk f (transfer_id d) (of_nat k) = Some (tc_data c)"
    using Cons.prems(2) [rule_format, of 0] r(1) by simp_all
  have "verify_chunks lib calm s disk (transfer_id d) f (Suc k) (map record_of_chunk cs) = Inr (concat raws')"
  proof (rule Cons.IH [OF r(2) _ Cons.prems(3)], intro allI impI)
    fix j assume "j < length cs"
    then show "sound_chunk lib d (Suc k + j) (cs ! j) (raws' ! j) \<and> chunk_file disk f (transfer_id d) (of_nat (Suc k + j)) = Some (tc_data (cs ! j))"
      using Cons.prems(2) [rule_format, of "Suc j"] r(1) by simp
  qed
  moreover have l: "length raw = unat (tc_raw_size c)" "length raw \<le> INT_MAX" "raw \<noteq> []" "length (tc_data c) = unat (tc_compressed_size c)" "tc_data c \<noteq> []"
    "length (tc_data c) \<le> INT_MAX" "LZ4_decompress_safe lib (tc_data c) (length raw) = Some raw" "sha256 lib raw = Some (tc_hash c)"
    using c(1) unfolding sound_chunk_def by blast+
  moreover have "compression_lz4_decompress lib calm (tc_data c) (unat (tc_raw_size c)) = Inr raw"
    unfolding l(1) [symmetric] using l(2,3,5,6,7) by (intro decompress_calm) simp_all
  moreover have "read_all_fd [] (unat (tc_compressed_size c)) (tc_data c) = Inr (tc_data c, [])" using read_all_fd_calm [of "length (tc_data c)" "tc_data c"] l(4) by simp
  ultimately show ?case
    using c(2) chunk_path_fits [OF Cons.prems(3), of f] r(1) by (simp add: Let_def content_sha256_def)
qed simp

text \<open>The document is finished, with its chunks and its manifest under \<open>objects\<close>.\<close>

definition uploaded :: "Storage \<Rightarrow> disk \<Rightarrow> TransferDocument \<Rightarrow> TransferChunk list \<Rightarrow> bool" where
  "uploaded s disk d cs \<longleftrightarrow> (\<exists>k dir. find_document s (transfer_id d) = Some k \<and> sd_document (documents s ! k) = d \<and>
     sd_state (documents s ! k) = TRANSFER_FINISHED \<and> sd_owner (documents s ! k) = storage_owner s \<and>
     sd_chunks (documents s ! k) = map record_of_chunk cs \<and> disk True (object_hex (transfer_id d)) = Some dir \<and>
     manifest dir = Some (manifest_bytes (documents s ! k))) \<and>
     (\<forall>j < length cs. chunk_file disk True (transfer_id d) (of_nat j) = Some (tc_data (cs ! j)))"

lemma uploading_verifies:
  assumes u: "sound_upload lib d cs raws" and up: "uploading s disk d cs k js" "{..<length cs} \<subseteq> js" and p: "path_fits lib s (transfer_id d)"
  shows "find_document s (transfer_id d) = Some k" "sd_document (documents s ! k) = d" "sd_state (documents s ! k) \<noteq> TRANSFER_FINISHED"
    "sd_owner (documents s ! k) = storage_owner s" "sd_chunks (documents s ! k) = map record_of_chunk cs"
    "\<forall>j < length cs. chunk_file disk False (transfer_id d) (of_nat j) = Some (tc_data (cs ! j))"
    "verify_document lib calm (s\<lparr>documents := ds\<rparr>) disk ((documents s ! k)\<lparr>sd_state := x\<rparr>) False = None"
proof -
  let ?i = "transfer_id d" and ?st = "documents s ! k"
  show st: "find_document s ?i = Some k" "sd_document ?st = d" "sd_state ?st \<noteq> TRANSFER_FINISHED" "sd_owner ?st = storage_owner s"
    using up by (auto simp: uploading_def)
  have l: "length (sd_chunks ?st) = length cs" using up by (simp add: uploading_def)
  have ch: "\<forall>j < length cs. sd_chunks ?st ! j = record_of_chunk (cs ! j) \<and> chunk_file disk False ?i (of_nat j) = Some (tc_data (cs ! j))"
    using up by (auto simp: uploading_def subset_eq split: if_splits)
  then show "\<forall>j < length cs. chunk_file disk False ?i (of_nat j) = Some (tc_data (cs ! j))" by blast
  show cs: "sd_chunks ?st = map record_of_chunk cs" using l ch by (intro nth_equalityI) simp_all
  have n: "length cs = unat (transfer_chunk_count d)" "length raws = length cs" "\<forall>j < length cs. sound_chunk lib d j (cs ! j) (raws ! j)"
    "of_nat (length (concat raws)) = file_size d" "sha256 lib (concat raws) = Some ?i" using u unfolding sound_upload_def by blast+
  have ps: "path_fits lib (s\<lparr>documents := ds\<rparr>) ?i" using p by (simp add: path_fits_def)
  have "verify_chunks lib calm (s\<lparr>documents := ds\<rparr>) disk ?i False 0 (map record_of_chunk cs) = Inr (concat raws)"
    by (rule verify_calm [OF n(2) _ ps]) (use n(3) ch in simp)
  then show "verify_document lib calm (s\<lparr>documents := ds\<rparr>) disk (?st\<lparr>sd_state := x\<rparr>) False = None"
    using st(2) cs n by (simp add: verify_document_def Let_def)
qed

lemma commit_calm:
  assumes u: "sound_upload lib d cs raws" and up: "uploading s disk d cs k js" "{..<length cs} \<subseteq> js" and p: "path_fits lib s (transfer_id d)"
    and free: "disk True (object_hex (transfer_id d)) = None"
  shows "\<exists>s' disk'. storage_commit lib calm s disk (transfer_id d) = (Inr d, s', disk') \<and> uploaded s' disk' d cs \<and> storage_root s' = storage_root s \<and>
    storage_owner s' = storage_owner s"
proof -
  let ?i = "transfer_id d" and ?st = "documents s ! k"
  let ?v = "?st\<lparr>sd_state := TRANSFER_VERIFYING\<rparr>" and ?n = "object_hex (transfer_id d)"
  let ?s = "s\<lparr>documents := (documents s)[k := ?v]\<rparr>" and ?disk = "manifest_written disk ?v False"
  note f = uploading_verifies [OF u up p]
  have st: "find_document s ?i = Some k" "sd_document ?st = d" "sd_state ?st \<noteq> TRANSFER_FINISHED" "sd_owner ?st = storage_owner s"
    "sd_chunks ?st = map record_of_chunk cs" and ch: "\<forall>j < length cs. chunk_file disk False ?i (of_nat j) = Some (tc_data (cs ! j))" by (rule f)+
  have k: "k < length (documents s)" using find_document_Some [OF st(1)] by simp
  have n: "length cs = unat (transfer_chunk_count d)" using u unfolding sound_upload_def by blast
  have ps: "path_fits lib ?s ?i" using p by (simp add: path_fits_def)
  have v: "verify_document lib calm ?s disk ?v False = None" by (rule f(7))
  have w: "write_manifest lib calm ?s disk ?v False = (None, ?disk)" by (rule write_manifest_calm) (use ps st(2) in simp)
  obtain dir where dir: "?disk False ?n = Some dir" using manifest_written_dir [of disk ?v False] st(2) by simp
  have free': "?disk True ?n = None" using free manifest_written_other [of True ?n False ?v disk] by simp
  let ?disk' = "?disk(True := (?disk True)(?n \<mapsto> dir), False := (?disk False)(?n := None))"
  have m: "rename_directory calm ?disk ?n True = (None, ?disk')" using dir free' by (simp add: rename_directory_def)
  obtain a b where ab: "document_directory ?s ?i False = Inr a" "document_directory ?s ?i True = Inr b" "length a < STORAGE_PATH_MAX" "length b < STORAGE_PATH_MAX"
    using document_directory_fits [OF ps, of False] document_directory_fits [OF ps, of True] ps unfolding path_fits_def by (metis add_lessD1)
  let ?f = "?v\<lparr>sd_state := TRANSFER_FINISHED\<rparr>"
  have "publish_document lib calm ?s disk ?i k (length a) (length b) = (Inr d, s\<lparr>documents := (documents s)[k := ?f]\<rparr>, ?disk')"
    using w m k st(2) ab(3,4) by (simp add: publish_document_def Let_def sync_parent_calm)
  then have "storage_commit lib calm s disk ?i = (Inr d, s\<lparr>documents := (documents s)[k := ?f]\<rparr>, ?disk')"
    using st n v ab(1,2) by (simp add: storage_commit_def Let_def list_all_iff)
  moreover have "find_document (s\<lparr>documents := (documents s)[k := ?f]\<rparr>) ?i = Some k" using find_document_replace [OF k, of ?f] st(1) by simp
  moreover have "chunk_file ?disk' True ?i (of_nat j) = Some (tc_data (cs ! j))" if "j < length cs" for j
    using rename_files_moved [OF m] ch that by simp
  moreover have "manifest dir = Some (manifest_bytes ?f)"
    using dir manifest_written_dir [of disk ?v False] st(2) by (auto simp: manifest_bytes_def manifest_fields_def)
  ultimately show ?thesis using k st(2,4,5) by (simp add: uploaded_def)
qed

lemma put_all_calm:
  assumes u: "sound_upload lib d cs raws" and p: "path_fits lib s (transfer_id d)"
  shows "uploading s disk d cs k js \<Longrightarrow> set order \<subseteq> {..<length cs} \<Longrightarrow> path_fits lib s (transfer_id d) \<Longrightarrow>
    \<exists>s' disk'. put_all lib s disk (map (\<lambda>j. cs ! j) order) = (None, s', disk') \<and> uploading s' disk' d cs k (set order \<union> js) \<and>
      storage_root s' = storage_root s \<and> storage_owner s' = storage_owner s \<and> disk' True = disk True"
proof (induction order arbitrary: s disk js)
  case (Cons j order)
  then have "j < length cs" by simp
  from put_calm [OF u Cons.prems(1) this Cons.prems(3)] obtain s1 disk1 where s1: "storage_put_chunk lib calm s disk (cs ! j) = (None, s1, disk1)"
    "uploading s1 disk1 d cs k (insert j js)" "storage_root s1 = storage_root s" "storage_owner s1 = storage_owner s"
    "disk1 True = disk True" by blast
  have "path_fits lib s1 (transfer_id d)" using Cons.prems(3) s1(3) by (simp add: path_fits_def)
  with Cons.IH [OF s1(2)] Cons.prems(2) s1 show ?case by (auto simp: Un_commute)
qed simp

lemma put_all_steps: "put_all lib s disk cs = (r, s', disk') \<Longrightarrow> (storage_step lib)\<^sup>*\<^sup>* (s, disk) (s', disk')"
proof (induction lib s disk cs arbitrary: rule: put_all.induct)
  case (2 lib s disk c cs)
  obtain r1 s1 disk1 where p: "storage_put_chunk lib calm s disk c = (r1, s1, disk1)" by (cases "storage_put_chunk lib calm s disk c") auto
  then have step: "storage_step lib (s, disk) (s1, disk1)" by (rule step_put)
  show ?case
  proof (cases r1)
    case None
    with 2 p have "(storage_step lib)\<^sup>*\<^sup>* (s1, disk1) (s', disk')" by simp
    with step show ?thesis by (rule converse_rtranclp_into_rtranclp)
  next
    case (Some e)
    with 2 p step show ?thesis by auto
  qed
qed simp

lemma reachable_steps:
  "storage_reachable lib s disk \<Longrightarrow> (storage_step lib)\<^sup>*\<^sup>* (s, disk) (s', disk') \<Longrightarrow> storage_reachable lib s' disk'"
  unfolding storage_reachable_def by (meson rtranclp_trans)

lemma finished_reads:
  assumes r: "storage_ok lib s disk" and u: "sound_upload lib d cs raws" and p: "path_fits lib s (transfer_id d)" and j: "j < length cs"
    and k: "find_document s (transfer_id d) = Some k" "sd_document (documents s ! k) = d" "sd_state (documents s ! k) = TRANSFER_FINISHED"
    "sd_chunks (documents s ! k) = map record_of_chunk cs" "\<forall>j < length cs. chunk_file disk True (transfer_id d) (of_nat j) = Some (tc_data (cs ! j))"
  shows "fst (storage_read_chunk calm s disk (transfer_id d) (of_nat j)) = Inr (cs ! j)"
proof -
  let ?i = "transfer_id d"
  have n: "length cs = unat (transfer_chunk_count d)" "sound_chunk lib d j (cs ! j) (raws ! j)" "length cs \<le> 2 ^ 42" using u j unfolding sound_upload_def by blast+
  have uj: "unat (of_nat j :: u64) = j" using j n(3) by (simp add: unat_of_nat take_bit_nat_eq_self)
  have t: "tc_id (cs ! j) = ?i" "length (tc_data (cs ! j)) = unat (tc_compressed_size (cs ! j))" using n(2) unfolding sound_chunk_def by blast+
  have "stored_data disk True ?i j (record_of_chunk (cs ! j)) = Some (tc_data (cs ! j))" using k(5) j t(2) by (simp add: stored_data_def)
  moreover have "chunk_of_record ?i (record_of_chunk (cs ! j)) (tc_data (cs ! j)) = cs ! j" using t(1) by (simp add: chunk_of_record_def)
  moreover have "\<not> transfer_chunk_count d \<le> of_nat j" using j n(1) uj by (simp add: word_le_nat_alt)
  ultimately have "disk_chunk s disk ?i (of_nat j) = Some (cs ! j)" using k(1-4) j uj by (simp add: disk_chunk_def Let_def)
  from read_calm [OF r this] chunk_path_fits [OF p, of True] show ?thesis by (auto simp: storage_read_chunk_def)
qed

lemma uploaded_reads:
  assumes "storage_ok lib s disk" "sound_upload lib d cs raws" "path_fits lib s (transfer_id d)" "j < length cs" "uploaded s disk d cs"
  shows "fst (storage_read_chunk calm s disk (transfer_id d) (of_nat j)) = Inr (cs ! j)"
proof -
  obtain k where k: "find_document s (transfer_id d) = Some k" "sd_document (documents s ! k) = d" "sd_state (documents s ! k) = TRANSFER_FINISHED"
    "sd_chunks (documents s ! k) = map record_of_chunk cs" "\<forall>j < length cs. chunk_file disk True (transfer_id d) (of_nat j) = Some (tc_data (cs ! j))"
    using assms(5) by (auto simp: uploaded_def)
  show ?thesis by (rule finished_reads [OF assms(1-4) k])
qed

lemma upload_done:
  assumes r: "storage_reachable lib s disk" and u: "sound_upload lib d cs raws" and f: "find_document s (transfer_id d) = None"
    and p: "path_fits lib s (transfer_id d)" and free: "disk True (object_hex (transfer_id d)) = None" and order: "set order = {..<length cs}"
  shows "\<exists>s1 disk1 s2 disk2 s3 disk3. storage_begin lib calm now s disk d = (None, s1, disk1) \<and>
    put_all lib s1 disk1 (map (\<lambda>j. cs ! j) order) = (None, s2, disk2) \<and> storage_commit lib calm s2 disk2 (transfer_id d) = (Inr d, s3, disk3) \<and>
    storage_reachable lib s3 disk3 \<and> uploaded s3 disk3 d cs \<and> storage_root s3 = storage_root s \<and> storage_owner s3 = storage_owner s"
proof -
  let ?i = "transfer_id d"
  obtain s1 disk1 where b: "storage_begin lib calm now s disk d = (None, s1, disk1)" "uploading s1 disk1 d cs 0 {}" "storage_root s1 = storage_root s"
    "storage_owner s1 = storage_owner s" "disk1 True = disk True"
    using begin_calm [OF u f p] by blast
  have p1: "path_fits lib s1 ?i" using p b(3) by (simp add: path_fits_def)
  obtain s2 disk2 where q: "put_all lib s1 disk1 (map (\<lambda>j. cs ! j) order) = (None, s2, disk2)" "uploading s2 disk2 d cs 0 (set order \<union> {})"
    "storage_root s2 = storage_root s1" "storage_owner s2 = storage_owner s1" "disk2 True = disk1 True"
    using put_all_calm [OF u p1 b(2) _ p1, of order] order by blast
  have p2: "path_fits lib s2 ?i" using p1 q(3) by (simp add: path_fits_def)
  have "disk2 True (object_hex ?i) = None" using free b(5) q(5) by simp
  from commit_calm [OF u q(2) _ p2 this] order obtain s3 disk3 where c: "storage_commit lib calm s2 disk2 ?i = (Inr d, s3, disk3)" "uploaded s3 disk3 d cs"
    "storage_root s3 = storage_root s2" "storage_owner s3 = storage_owner s2" by auto
  have "(storage_step lib)\<^sup>*\<^sup>* (s, disk) (s3, disk3)"
    using step_begin [OF b(1)] put_all_steps [OF q(1)] step_commit [OF c(1)] by (meson converse_rtranclp_into_rtranclp rtranclp.rtrancl_into_rtrancl)
  with r have reach: "storage_reachable lib s3 disk3" by (rule reachable_steps)
  with b q c show ?thesis by simp
qed

end
