(* ===== verification/Storage_Restart.thy ===== *)
theory Storage_Restart
  imports Storage_Upload
begin

text \<open>
  Manifests read back, a restart of the store, interrupted commits and damaged documents; then the properties of the store, with a store of one
  document on which each of them is used.
\<close>

section \<open>Reading back a manifest\<close>

lemma read_fields_calm: "map length fs = ns \<Longrightarrow> read_fields calm k ns (concat fs @ rest) = Inr (fs, rest)"
proof (induction fs arbitrary: ns k)
  case (Cons f fs)
  then obtain n ns' where n: "ns = n # ns'" "n = length f" "map length fs = ns'" by auto
  have "read_all_fd [] (length f) (f @ concat fs @ rest) = Inr (f, concat fs @ rest)" using read_all_fd_calm [of "length f" "f @ concat fs @ rest"] by simp
  with Cons.IH [OF n(3)] n show ?case by simp
qed simp

text \<open>Records that a manifest can hold: a well-formed document, an owner of 32 bytes, and for each chunk a hash of 32 bytes.\<close>

definition manifest_wf :: "StoredDocument \<Rightarrow> bool" where
  "manifest_wf st \<longleftrightarrow> document_wf (sd_document st) \<and> length (sd_owner st) = NODE_ID_SIZE \<and> length (sd_chunks st) = unat (transfer_chunk_count (sd_document st)) \<and>
     list_all (\<lambda>c. length (sc_hash c) = OBJECT_ID_SIZE) (sd_chunks st) \<and> length (sd_chunks st) \<le> 2 ^ 42"

definition manifest_state :: "StoredDocument \<Rightarrow> TransferState" where
  "manifest_state st = (if sd_state st = TRANSFER_VERIFYING then TRANSFER_FINISHED else sd_state st)"

lemma manifest_state_ne [simp]: "manifest_state st \<noteq> TRANSFER_VERIFYING"
  by (simp add: manifest_state_def)

lemma transfer_state_of_code [simp]: "transfer_state_of (transfer_state_code x) = Some x"
  by (cases x) (simp_all add: transfer_state_of_def)

lemma manifest_bytes_parts:
  "manifest_wf st \<Longrightarrow> manifest_bytes st = concat [MANIFEST_MAGIC, wire_put_u32 MANIFEST_VERSION, document_id st, wire_put_u64 (file_size (sd_document st))] @
     concat [wire_put_u64 (transfer_chunk_count (sd_document st))] @
     concat [[compression (sd_document st)], wire_put_u16 (of_nat (length (cstr (transfer_name (sd_document st)))))] @
     concat [cstr (transfer_name (sd_document st))] @ concat [sd_owner st, wire_put_u64 (uploaded_at st)] @ concat [[transfer_state_code (manifest_state st)]] @
     concat (concat (map chunk_fields (sd_chunks st)))"
  by (simp add: manifest_bytes_def manifest_fields_def manifest_state_def Let_def manifest_wf_def)

lemma read_header_calm:
  assumes w: "manifest_wf st"
  shows "read_manifest_header calm final (manifest_bytes st) =
    (if final \<and> manifest_state st \<noteq> TRANSFER_FINISHED \<or> \<not> final \<and> manifest_state st = TRANSFER_FINISHED then Inl EBADMSG
     else Inr (st\<lparr>sd_state := manifest_state st, sd_chunks := []\<rparr>, concat (concat (map chunk_fields (sd_chunks st)))))"
proof -
  let ?d = "sd_document st" and ?n = "cstr (transfer_name (sd_document st))" and ?rest = "concat (concat (map chunk_fields (sd_chunks st)))"
  have d: "length (transfer_id ?d) = OBJECT_ID_SIZE" "?n \<noteq> []" "length ?n < METADATA_NAME_SIZE" "0x2f \<notin> set ?n" "compression ?d = COMPRESSION_LZ4"
    "transfer_chunk_count ?d = chunks_of_size (file_size ?d)" "zero_padded METADATA_NAME_SIZE ?n = transfer_name ?d" "length (sd_owner st) = NODE_ID_SIZE"
    and c: "unat (transfer_chunk_count ?d) \<le> 2 ^ 42" using w by (auto simp: manifest_wf_def document_wf_def)
  have u: "unat (of_nat (length ?n) :: u16) = length ?n" using d(3) by (simp add: unat_of_nat take_bit_nat_eq_self METADATA_NAME_SIZE_def)
  have m: "length MANIFEST_MAGIC = 8" by (simp add: MANIFEST_MAGIC_def)
  have sz: "\<not> SIZE_MAX div STORED_CHUNK_SLOT_SIZE < unat (transfer_chunk_count ?d)" using c by (simp add: SIZE_MAX_def STORED_CHUNK_SLOT_SIZE_def)
  have r: "read_fields calm 0 [8, 4, OBJECT_ID_SIZE, 8] (concat [MANIFEST_MAGIC, wire_put_u32 MANIFEST_VERSION, transfer_id ?d, wire_put_u64 (file_size ?d)] @ rest) =
      Inr ([MANIFEST_MAGIC, wire_put_u32 MANIFEST_VERSION, transfer_id ?d, wire_put_u64 (file_size ?d)], rest)"
    "read_fields calm 0 [8] (concat [wire_put_u64 (transfer_chunk_count ?d)] @ rest) = Inr ([wire_put_u64 (transfer_chunk_count ?d)], rest)"
    "read_fields calm 0 [1, 2] (concat [[compression ?d], wire_put_u16 (of_nat (length ?n))] @ rest) = Inr ([[compression ?d], wire_put_u16 (of_nat (length ?n))], rest)"
    "read_fields calm 0 [length ?n] (concat [?n] @ rest) = Inr ([?n], rest)"
    "read_fields calm 0 [NODE_ID_SIZE, 8] (concat [sd_owner st, wire_put_u64 (uploaded_at st)] @ rest) = Inr ([sd_owner st, wire_put_u64 (uploaded_at st)], rest)"
    "read_fields calm 0 [1] (concat [[transfer_state_code (manifest_state st)]] @ rest) = Inr ([[transfer_state_code (manifest_state st)]], rest)" for rest
    by (rule read_fields_calm, use d m in simp)+
  have n': "[x, y, z, w] ! 0 = x" "[x, y, z, w] ! 1 = y" "[x, y, z, w] ! 2 = z" "[x, y, z, w] ! 3 = w" "[x, y] ! 0 = x" "[x, y] ! 1 = y" "[x] ! 0 = x" for x y z w :: "byte list"
    by simp_all
  have b: "[x] ! 0 = x" for x :: byte by simp
  show ?thesis
    unfolding read_manifest_header_def Let_def at_calm manifest_bytes_parts [OF w]
    unfolding r(1) sum.case prod.case n' r(2) wire_get_put_u64' r(3) wire_get_put_u16' u r(4) r(5) r(6) b transfer_state_of_code option.case
    using d sz manifest_state_ne [of st] by (cases st) auto
qed

lemma read_chunks_calm:
  "list_all (\<lambda>c. length (sc_hash c) = OBJECT_ID_SIZE) cs \<Longrightarrow>
   \<forall>j < length cs. (final \<longrightarrow> present (cs ! j)) \<and> chunk_record_ok lib calm s disk d final (of_nat (k + j)) (cs ! j) \<Longrightarrow>
     read_chunks lib calm s disk d final k (length cs) (concat (concat (map chunk_fields cs)) @ rest) = Inr (cs, rest)"
proof (induction cs arbitrary: k)
  case (Cons c cs)
  have r: "read_fields calm 0 [8, 8, 4, 4, OBJECT_ID_SIZE, 1] (concat (chunk_fields c) @ tail) = Inr (chunk_fields c, tail)" for tail
    by (rule read_fields_calm) (use Cons.prems(1) in \<open>simp add: chunk_fields_def\<close>)
  have b: "concat (concat (map chunk_fields (c # cs))) @ rest = concat (chunk_fields c) @ concat (concat (map chunk_fields cs)) @ rest"
    "length (c # cs) = Suc (length cs)" by simp_all
  have c: "final \<longrightarrow> present c" "chunk_record_ok lib calm s disk d final (of_nat k) c" using Cons.prems(2) [rule_format, of 0] by simp_all
  have f: "\<lparr>sc_index = wire_get_u64 (chunk_fields c ! 0), sc_offset = wire_get_u64 (chunk_fields c ! 1), sc_raw_size = wire_get_u32 (chunk_fields c ! 2),
      sc_compressed_size = wire_get_u32 (chunk_fields c ! 3), sc_hash = chunk_fields c ! 4, present = chunk_fields c ! 5 \<noteq> [0]\<rparr> = c"
    "chunk_fields c ! 5 \<in> {[0], [1]}"
    by (cases c, simp add: chunk_fields_def) (simp add: chunk_fields_def)
  have "read_chunks lib calm s disk d final (Suc k) (length cs) (concat (concat (map chunk_fields cs)) @ rest) = Inr (cs, rest)"
  proof (rule Cons.IH)
    show "list_all (\<lambda>c. length (sc_hash c) = OBJECT_ID_SIZE) cs" using Cons.prems(1) by simp
    show "\<forall>j < length cs. (final \<longrightarrow> present (cs ! j)) \<and> chunk_record_ok lib calm s disk d final (of_nat (Suc k + j)) (cs ! j)"
    proof (intro allI impI)
      fix j assume "j < length cs"
      then show "(final \<longrightarrow> present (cs ! j)) \<and> chunk_record_ok lib calm s disk d final (of_nat (Suc k + j)) (cs ! j)"
        using Cons.prems(2) [rule_format, of "Suc j"] by simp
    qed
  qed
  then show ?case unfolding b read_chunks.simps at_calm r sum.case prod.case Let_def f(1) using f(2) c by simp
qed simp

section \<open>A restart\<close>

text \<open>What is under \<open>objects\<close> of an uploaded document: its manifest and its chunks.\<close>

definition durable :: "disk \<Rightarrow> TransferDocument \<Rightarrow> TransferChunk list \<Rightarrow> StoredDocument \<Rightarrow> bool" where
  "durable disk d cs st \<longleftrightarrow> sd_document st = d \<and> sd_state st = TRANSFER_FINISHED \<and> sd_chunks st = map record_of_chunk cs \<and>
     Option.bind (disk True (object_hex (transfer_id d))) manifest = Some (manifest_bytes st) \<and>
     (\<forall>j < length cs. chunk_file disk True (transfer_id d) (of_nat j) = Some (tc_data (cs ! j)))"

lemma durable_manifest_calm:
  assumes u: "sound_upload lib d cs raws" and w: "manifest_wf st" and d: "durable disk d cs st" and p: "path_fits lib s (transfer_id d)"
  shows "read_manifest lib calm s disk True (object_hex (transfer_id d)) = Inr st"
proof -
  let ?i = "transfer_id d" and ?n = "unat (transfer_chunk_count d)"
  have n: "length cs = ?n" "length raws = length cs" "\<forall>j < length cs. sound_chunk lib d j (cs ! j) (raws ! j)" "length cs \<le> 2 ^ 42"
    "of_nat (length (concat raws)) = file_size d" "sha256 lib (concat raws) = Some ?i" using u unfolding sound_upload_def by blast+
  have st: "sd_document st = d" "sd_state st = TRANSFER_FINISHED" "sd_chunks st = map record_of_chunk cs"
    and f: "\<forall>j < length cs. chunk_file disk True ?i (of_nat j) = Some (tc_data (cs ! j))" using d by (simp_all add: durable_def)
  have h: "read_manifest_header calm True (manifest_bytes st) = Inr (st\<lparr>sd_chunks := []\<rparr>, concat (concat (map chunk_fields (sd_chunks st))))"
    using read_header_calm [OF w, of True] st(2) by (simp add: manifest_state_def)
  have "chunk_record_ok lib calm s disk d True (of_nat j) (record_of_chunk (cs ! j))" if j: "j < length cs" for j
  proof -
    have c: "tc_index (cs ! j) = of_nat j" "tc_offset (cs ! j) = of_nat j * METADATA_CHUNK_SIZE" "tc_raw_size (cs ! j) = expected_chunk_size (file_size d) (of_nat j)"
      "length (raws ! j) = unat (tc_raw_size (cs ! j))" "length (raws ! j) \<le> INT_MAX" "length (tc_data (cs ! j)) = unat (tc_compressed_size (cs ! j))" "tc_data (cs ! j) \<noteq> []"
      "int (length (tc_data (cs ! j))) \<le> LZ4_compressBound lib (length (raws ! j))"
      using n(3) j unfolding sound_chunk_def by blast+
    have z: "tc_compressed_size (cs ! j) \<noteq> 0" using c(6,7) by auto
    have "0 < LZ4_compressBound lib (length (raws ! j))" using c(7,8) by (metis length_greater_0_conv less_le_trans of_nat_0_less_iff)
    then have "compression_lz4_bound lib (unat (tc_raw_size (cs ! j))) = Inr (nat (LZ4_compressBound lib (length (raws ! j))))"
      using c(4,5) by (simp add: compression_lz4_bound_def Let_def)
    moreover have "unat (tc_compressed_size (cs ! j)) \<le> nat (LZ4_compressBound lib (length (raws ! j)))" using c(6,8) by linarith
    moreover have "chunk_file disk True ?i (of_nat j) = Some (tc_data (cs ! j))" using f j by simp
    ultimately show ?thesis
      using c(1,2,3,6) z chunk_path_fits [OF p, of True] by (simp add: chunk_record_ok_def)
  qed
  moreover have "list_all (\<lambda>c. length (sc_hash c) = OBJECT_ID_SIZE) (map record_of_chunk cs)" using w st(3) by (simp add: manifest_wf_def)
  ultimately have r: "read_chunks lib calm s disk d True 0 ?n (concat (concat (map chunk_fields (map record_of_chunk cs)))) = Inr (map record_of_chunk cs, [])"
    using read_chunks_calm [of "map record_of_chunk cs" True lib s disk d 0 "[]"] n(1) by simp
  have "verify_chunks lib calm s disk ?i True 0 (map record_of_chunk cs) = Inr (concat raws)"
    by (rule verify_calm [OF n(2) _ p]) (use n(3) f in simp)
  then have v: "verify_document lib calm s disk st True = None" using st n(1,5,6) by (simp add: verify_document_def Let_def)
  have e: "st\<lparr>sd_chunks := map record_of_chunk cs\<rparr> = st" using st(3) by (cases st) simp
  have m: "Option.bind (disk True (object_hex ?i)) manifest = Some (manifest_bytes st)" using d by (simp add: durable_def)
  have a: "(if c then fault calm else None) = None" for c by simp
  have d0: "sd_document (st\<lparr>sd_chunks := []\<rparr>) = d" "(st\<lparr>sd_chunks := []\<rparr>)\<lparr>sd_chunks := map record_of_chunk cs\<rparr> = st" using st(1) e by simp_all
  show ?thesis
    unfolding read_manifest_def at_calm m option.case h [unfolded st(3)] sum.case prod.case Let_def d0 a r using v by simp
qed

lemma durable_kept:
  assumes "durable disk d cs st" "\<And>f i k. chunk_file disk' f i k = chunk_file disk f i k" "disk' True (object_hex (transfer_id d)) = disk True (object_hex (transfer_id d))"
  shows "durable disk' d cs st"
  using assms by (simp add: durable_def)

lemma write_manifest_others:
  "write_manifest lib os s disk st f = (r, disk') \<Longrightarrow> (g, name) \<noteq> (f, object_hex (document_id st)) \<Longrightarrow> disk' g name = disk g name"
  unfolding write_manifest_def Let_def
  by (auto simp: enter_directory_def change_directory_def split: sum.splits option.splits if_splits prod.splits)

lemma length_object_hex: "length (object_hex i) = 2 * length i"
  by (induction i) (simp_all add: object_hex_eq)

lemma read_fields_lengths: "read_fields os k ns rest = Inr (fs, rest') \<Longrightarrow> map length fs = ns"
proof (induction ns arbitrary: k rest fs)
  case (Cons n ns)
  obtain f rest1 fs' where f: "read_all_fd (at os k []) n rest = Inr (f, rest1)" "read_fields os (Suc k) ns rest1 = Inr (fs', rest')" "fs = f # fs'"
    using Cons.prems by (auto split: sum.splits)
  then show ?case using Cons.IH [OF f(2)] read_all_fd_prefix [OF f(1)] by simp
qed simp

lemma read_header_id: "read_manifest_header os final bytes = Inr (h, rest) \<Longrightarrow> length (document_id h) = OBJECT_ID_SIZE"
proof -
  assume a: "read_manifest_header os final bytes = Inr (h, rest)"
  then obtain a bytes' where r: "read_fields (at os 0) 0 [8, 4, OBJECT_ID_SIZE, 8] bytes = Inr (a, bytes')"
    by (cases "read_fields (at os 0) 0 [8, 4, OBJECT_ID_SIZE, 8] bytes") (auto simp: read_manifest_header_def)
  have "document_id h = a ! 2"
    using a unfolding read_manifest_header_def r sum.case prod.case Let_def
    by (elim sum_case_Inr if_else_Inr) (auto split: option.splits if_splits)
  moreover have "map length a ! 2 = OBJECT_ID_SIZE" "length a = 4" using read_fields_lengths [OF r] by (simp_all add: map_eq_Cons_conv) (auto simp: map_eq_Cons_conv)
  ultimately show ?thesis by simp
qed

lemma read_manifest_id:
  assumes "read_manifest lib os s disk final name = Inr st"
  shows "length (document_id st) = OBJECT_ID_SIZE"
  by (rule read_manifest_parts [OF assms]) (use read_header_id in fastforce)

lemma object_hex_name:
  assumes "i \<noteq> []"
  shows "object_hex i \<noteq> []" "hd (object_hex i) \<noteq> CHR ''.''"
proof -
  obtain b rest where i: "i = b # rest" using assms by (cases i) auto
  have "list_all (\<lambda>k. hexadecimal ! k \<noteq> CHR ''.'') [0..<16]" by (simp add: hexadecimal_def upt_rec)
  then have "hexadecimal ! unat (drop_bit 4 b) \<noteq> CHR ''.''" using nibble_bounds(1) [of b] by (simp add: list_all_iff)
  then show "object_hex i \<noteq> []" "hd (object_hex i) \<noteq> CHR ''.''" by (simp_all add: object_hex_eq i)
qed

lemma load_entry_cases:
  obtains (skipped) "load_entry lib calm f name s disk = (None, s, disk)"
  | (pending) st where "\<not> f" "read_manifest lib calm s disk f name = Inr st" "object_hex (document_id st) = name" "load_entry lib calm f name s disk = (None, s\<lparr>documents := st # documents s\<rparr>, disk)"
  | (final) st where "f" "read_manifest lib calm s disk f name = Inr st" "object_hex (document_id st) = name" "find_document s (document_id st) = None"
      "load_entry lib calm f name s disk = (let st' = st\<lparr>sd_state := TRANSFER_FINISHED\<rparr>;
            (r, disk) = (if sd_state st = TRANSFER_VERIFYING then write_manifest lib calm s disk st' True else (None, disk)) in
        (r, if r = None then s\<lparr>documents := st' # documents s\<rparr> else s, disk))"
proof (cases "name = [] \<or> hd name = CHR ''.'' \<or> STORAGE_PATH_MAX \<le> length (storage_root s) + 8 + 1 + length name + 13")
  case True
  then show thesis by (intro skipped) (simp add: load_entry_def)
next
  case go: False
  show thesis
  proof (cases "read_manifest lib calm s disk f name")
    case (Inl e)
    then show thesis using go by (intro skipped) (simp add: load_entry_def)
  next
    case (Inr st)
    note l = load_entry_def [of lib calm f name s disk, unfolded at_calm Inr sum.case]
    show thesis
    proof (cases "object_hex (document_id st) \<noteq> name \<or> find_document s (document_id st) \<noteq> None")
      case True
      then show thesis using go l by (intro skipped) simp
    next
      case no: False
      show thesis
      proof (cases f)
        case True
        then show thesis using go no l Inr by (intro final [of st]) (simp_all add: Let_def)
      next
        case False
        then show thesis using go no l Inr by (intro pending [of st]) simp_all
      qed
    qed
  qed
qed

text \<open>While the names are gone through, the document is durable and is loaded or still to come; under \<open>pending\<close> it is loaded.\<close>

definition loading :: "storage_lib \<Rightarrow> TransferDocument \<Rightarrow> TransferChunk list \<Rightarrow> StoredDocument \<Rightarrow> bool \<Rightarrow> Storage \<Rightarrow> disk \<Rightarrow> bool" where
  "loading lib d cs st f s disk \<longleftrightarrow> durable disk d cs st \<and> path_fits lib s (transfer_id d) \<and> (find_document s (transfer_id d) = None \<or> st \<in> set (documents s)) \<and>
     (\<not> f \<longrightarrow> st \<in> set (documents s))"

lemma load_entry_calm:
  assumes u: "sound_upload lib d cs raws" and w: "manifest_wf st" and l: "loading lib d cs st f s disk"
  shows "\<exists>s' disk'. load_entry lib calm f name s disk = (None, s', disk') \<and> loading lib d cs st f s' disk' \<and>
    (st \<in> set (documents s) \<or> f \<and> name = object_hex (transfer_id d) \<longrightarrow> st \<in> set (documents s'))"
proof -
  let ?i = "transfer_id d"
  have d: "durable disk d cs st" and p: "path_fits lib s ?i" and kept: "find_document s ?i = None \<or> st \<in> set (documents s)" "\<not> f \<longrightarrow> st \<in> set (documents s)"
    using l by (simp_all add: loading_def)
  have id: "length ?i = OBJECT_ID_SIZE" "document_id st = ?i" "sd_state st = TRANSFER_FINISHED" using w d by (auto simp: manifest_wf_def document_wf_def durable_def)
  have mem: "loading lib d cs st f (s\<lparr>documents := x # documents s\<rparr>) disk'" if "durable disk' d cs st" "x = st \<or> document_id x \<noteq> ?i \<or> st \<in> set (documents s)" for x disk'
    using that p kept by (auto simp: loading_def path_fits_def find_document_def)
  show ?thesis
  proof (cases "f \<and> name = object_hex ?i \<and> find_document s ?i = None")
    case True
    then have r: "read_manifest lib calm s disk f name = Inr st" using durable_manifest_calm [OF u w d p] by simp
    have "?i \<noteq> []" using id(1) by (auto simp: OBJECT_ID_SIZE_def)
    then have "name \<noteq> []" "hd name \<noteq> CHR ''.''" using object_hex_name True by auto
    moreover have "st\<lparr>sd_state := TRANSFER_FINISHED\<rparr> = st" using id(3) by (cases st) simp
    ultimately have "load_entry lib calm f name s disk = (None, s\<lparr>documents := st # documents s\<rparr>, disk)"
      using True r id p by (auto simp: load_entry_def Let_def path_fits_def)
    then show ?thesis using mem [OF d, of st] by simp
  next
    case False
    show ?thesis
    proof (rule load_entry_cases [of lib f name s disk])
      assume "load_entry lib calm f name s disk = (None, s, disk)"
      then show ?thesis using l False kept(1) by auto
    next
      fix x assume "\<not> f" "read_manifest lib calm s disk f name = Inr x" "object_hex (document_id x) = name" "load_entry lib calm f name s disk = (None, s\<lparr>documents := x # documents s\<rparr>, disk)"
      then show ?thesis using mem [OF d, of x] kept(2) by auto
    next
      fix x assume x: f "read_manifest lib calm s disk f name = Inr x" "object_hex (document_id x) = name" "find_document s (document_id x) = None"
        "load_entry lib calm f name s disk = (let st' = x\<lparr>sd_state := TRANSFER_FINISHED\<rparr>;
            (r, disk) = (if sd_state x = TRANSFER_VERIFYING then write_manifest lib calm s disk st' True else (None, disk)) in
          (r, if r = None then s\<lparr>documents := st' # documents s\<rparr> else s, disk))"
      let ?f = "x\<lparr>sd_state := TRANSFER_FINISHED\<rparr>"
      let ?disk = "if sd_state x = TRANSFER_VERIFYING then manifest_written disk ?f True else disk"
      have ne: "document_id x \<noteq> ?i" using x(1,3,4) False by auto
      have "path_fits lib s (document_id ?f)" using p id(1) read_manifest_id [OF x(2)] by (simp add: path_fits_def length_object_hex)
      then have e: "load_entry lib calm f name s disk = (None, s\<lparr>documents := ?f # documents s\<rparr>, ?disk)"
        using x(5) write_manifest_calm [of lib s ?f disk True] by (simp add: Let_def)
      have "durable ?disk d cs st" by (rule durable_kept [OF d]) (use ne in \<open>simp_all add: manifest_written_other object_hex_inj\<close>)
      from mem [OF this, of ?f] ne e False kept(1) show ?thesis by auto
    qed
  qed
qed

lemma load_names_calm:
  assumes u: "sound_upload lib d cs raws" and w: "manifest_wf st"
  shows "loading lib d cs st f s disk \<Longrightarrow> \<exists>s' disk'. load_names lib calm f k names s disk = (None, s', disk') \<and> loading lib d cs st f s' disk' \<and>
      (st \<in> set (documents s) \<or> f \<and> object_hex (transfer_id d) \<in> set names \<longrightarrow> st \<in> set (documents s'))"
proof (induction names arbitrary: k s disk)
  case (Cons name names)
  obtain s1 disk1 where e: "load_entry lib calm f name s disk = (None, s1, disk1)" "loading lib d cs st f s1 disk1"
    "st \<in> set (documents s) \<or> f \<and> name = object_hex (transfer_id d) \<longrightarrow> st \<in> set (documents s1)"
    using load_entry_calm [OF u w Cons.prems, of name] by blast
  obtain s2 disk2 where "load_names lib calm f (Suc k) names s1 disk1 = (None, s2, disk2)" "loading lib d cs st f s2 disk2"
    "st \<in> set (documents s1) \<or> f \<and> object_hex (transfer_id d) \<in> set names \<longrightarrow> st \<in> set (documents s2)"
    using Cons.IH [OF e(2), of "Suc k"] by blast
  with e show ?case by auto
qed simp

lemma find_document_member:
  assumes "distinct (map document_id (documents s))" "st \<in> set (documents s)"
  obtains k where "find_document s (document_id st) = Some k" "documents s ! k = st"
  using assms find_document_unique by (metis in_set_conv_nth)

lemma load_documents_calm:
  assumes u: "sound_upload lib d cs raws" and w: "manifest_wf st" and l: "loading lib d cs st f s disk"
  shows "\<exists>s' disk'. load_documents lib calm f names s disk = (None, s', disk') \<and> loading lib d cs st f s' disk' \<and>
      (st \<in> set (documents s) \<or> f \<and> object_hex (transfer_id d) \<in> set names \<longrightarrow> st \<in> set (documents s'))"
proof -
  have "length (storage_root s) + 8 < STORAGE_PATH_MAX" using l by (simp add: loading_def path_fits_def)
  with load_names_calm [OF u w l, of 0 names] show ?thesis by (auto simp: load_documents_def)
qed

lemma storage_create_restores:
  assumes u: "sound_upload lib d cs raws" and w: "manifest_wf st" and d: "durable disk d cs st"
    and root: "root \<noteq> []" "length root + 9 + length (object_hex (transfer_id d)) + 36 + length (pid_text lib) < STORAGE_PATH_MAX"
    and name: "object_hex (transfer_id d) \<in> set (names True)"
  shows "\<exists>s' disk'. storage_create lib calm root owner names disk = (Inr s', disk') \<and> durable disk' d cs st \<and> st \<in> set (documents s') \<and>
    path_fits lib s' (transfer_id d)"
proof -
  let ?s = "\<lparr>cache = [], cache_stats = \<lparr>capacity_bytes = STORAGE_DEFAULT_CACHE_BYTES, used_bytes = 0, entries_count = 0, hits = 0, misses = 0,
                evictions = 0\<rparr>, cache_clock = 0, storage_root = root, storage_owner = owner, documents = []\<rparr>"
  have l: "loading lib d cs st True ?s disk" using d root(2) by (simp add: loading_def path_fits_def find_document_def)
  obtain s1 disk1 where s1: "load_documents lib calm True (names True) ?s disk = (None, s1, disk1)" "loading lib d cs st True s1 disk1" "st \<in> set (documents s1)"
    using load_documents_calm [OF u w l] name by blast
  have "loading lib d cs st False s1 disk1" using s1(2,3) by (simp add: loading_def)
  then obtain s2 disk2 where s2: "load_documents lib calm False (names False) s1 disk1 = (None, s2, disk2)" "loading lib d cs st False s2 disk2"
    using load_documents_calm [OF u w] by blast
  have e: "ensure_directory_tree calm path = None" if "path \<noteq> []" "length path < STORAGE_PATH_MAX" for path
    using that by (simp add: ensure_directory_tree_def)
  have m: "ensure_directory_tree calm (root @ xs) = None" if "length xs \<le> 9" for xs using root that by (intro e) simp_all
  have "storage_create lib calm root owner names disk = (Inr s2, disk2)"
    using s1(1) s2(1) root m [of "[]"] by (simp add: storage_create_def Let_def m)
  then show ?thesis using s2(2) by (auto simp: loading_def)
qed

lemma uploaded_durable:
  assumes up: "uploaded s disk d cs" and u: "sound_upload lib d cs raws" and w: "document_wf d" "length (storage_owner s) = NODE_ID_SIZE"
    "\<forall>j < length cs. length (tc_hash (cs ! j)) = OBJECT_ID_SIZE"
  obtains st where "durable disk d cs st" "manifest_wf st"
proof -
  obtain k dir where k: "sd_document (documents s ! k) = d" "sd_state (documents s ! k) = TRANSFER_FINISHED" "sd_owner (documents s ! k) = storage_owner s"
    "sd_chunks (documents s ! k) = map record_of_chunk cs" "disk True (object_hex (transfer_id d)) = Some dir" "manifest dir = Some (manifest_bytes (documents s ! k))"
    and f: "\<forall>j < length cs. chunk_file disk True (transfer_id d) (of_nat j) = Some (tc_data (cs ! j))"
    using up by (auto simp: uploaded_def)
  have "length cs = unat (transfer_chunk_count d)" "length cs \<le> 2 ^ 42" using u unfolding sound_upload_def by blast+
  with k f w show thesis by (intro that [of "documents s ! k"]) (simp_all add: durable_def manifest_wf_def list_all_length)
qed

section \<open>A commit that is interrupted\<close>

text \<open>The environment in which only the rename of the directory fails.\<close>

definition rename_fails :: os where
  "rename_fails = calm([4] := [Err EIO])"

lemma rename_fails_at: "k \<noteq> 4 \<Longrightarrow> at rename_fails k = calm" "fault (at rename_fails 4) = Some EIO"
  by (auto simp: rename_fails_def at_def calm_def fault_def)

lemma commit_rename_fails:
  assumes u: "sound_upload lib d cs raws" and up: "uploading s disk d cs k js" "{..<length cs} \<subseteq> js" and p: "path_fits lib s (transfer_id d)"
    and free: "disk True (object_hex (transfer_id d)) = None"
  shows "\<exists>s' disk' st. storage_commit lib rename_fails s disk (transfer_id d) = (Inl EIO, s', disk') \<and>
    disk' True (object_hex (transfer_id d)) = None \<and> Option.bind (disk' False (object_hex (transfer_id d))) manifest = Some (manifest_bytes st) \<and>
    sd_document st = d \<and> sd_state st = TRANSFER_VERIFYING \<and> sd_owner st = storage_owner s \<and> sd_chunks st = map record_of_chunk cs"
proof -
  let ?i = "transfer_id d" and ?st = "documents s ! k"
  let ?v = "?st\<lparr>sd_state := TRANSFER_VERIFYING\<rparr>" and ?n = "object_hex (transfer_id d)"
  let ?s = "s\<lparr>documents := (documents s)[k := ?v]\<rparr>" and ?disk = "manifest_written disk ?v False"
  have st: "find_document s ?i = Some k" "sd_document ?st = d" "sd_state ?st \<noteq> TRANSFER_FINISHED" "sd_owner ?st = storage_owner s"
    and cs: "sd_chunks ?st = map record_of_chunk cs" and v: "verify_document lib calm ?s disk ?v False = None"
    using uploading_verifies [OF u up p] by auto
  have k: "k < length (documents s)" using find_document_Some [OF st(1)] by simp
  have n: "length cs = unat (transfer_chunk_count d)" using u unfolding sound_upload_def by blast
  have ps: "path_fits lib ?s ?i" using p by (simp add: path_fits_def)
  have w: "write_manifest lib calm ?s disk ?v False = (None, ?disk)" by (rule write_manifest_calm) (use ps st(2) in simp)
  obtain dir where dir: "?disk False ?n = Some dir" "manifest dir = Some (manifest_bytes ?v)"
    using manifest_written_dir [of disk ?v False] st(2) by simp
  have free': "?disk True ?n = None" using free manifest_written_other [of True ?n False ?v disk] by simp
  have m: "rename_directory (at rename_fails 4) ?disk ?n True = (Some EIO, ?disk)" using dir(1) free' rename_fails_at(2) by (simp add: rename_directory_def)
  obtain a b where ab: "document_directory ?s ?i False = Inr a" "document_directory ?s ?i True = Inr b"
    using document_directory_fits [OF ps, of False] document_directory_fits [OF ps, of True] by metis
  have "storage_commit lib rename_fails s disk ?i = (Inl EIO, ?s, ?disk)"
    using st n cs v ab k w m by (simp add: storage_commit_def publish_document_def Let_def list_all_iff rename_fails_at(1))
  then show ?thesis using dir free' st cs by (intro exI [of _ ?s] exI [of _ ?disk] exI [of _ ?v]) simp
qed

text \<open>A manifest that says finished is refused under \<open>pending\<close>.\<close>

definition orphaned :: "TransferDocument \<Rightarrow> StoredDocument \<Rightarrow> Storage \<Rightarrow> disk \<Rightarrow> bool" where
  "orphaned d st s disk \<longleftrightarrow> find_document s (transfer_id d) = None \<and> disk True (object_hex (transfer_id d)) = None \<and>
     Option.bind (disk False (object_hex (transfer_id d))) manifest = Some (manifest_bytes st)"

lemma orphan_not_read:
  assumes "manifest_wf st" "manifest_state st = TRANSFER_FINISHED" "orphaned d st s disk" "object_hex (document_id x) = name" "read_manifest lib calm s disk f name = Inr x"
  shows "document_id x \<noteq> transfer_id d"
proof
  assume "document_id x = transfer_id d"
  then have n: "name = object_hex (transfer_id d)" using assms(4) by simp
  have "read_manifest_header calm False (manifest_bytes st) = Inl EBADMSG" using read_header_calm [OF assms(1), of False] assms(2) by simp
  then show False using assms(3,5) n by (cases f) (auto simp: read_manifest_def orphaned_def)
qed

lemma load_entry_orphan:
  assumes w: "manifest_wf st" "manifest_state st = TRANSFER_FINISHED" and l: "load_entry lib calm f name s disk = (r, s', disk')" and oo: "orphaned d st s disk"
  shows "orphaned d st s' disk'"
proof (rule load_entry_cases [of lib f name s disk])
  assume "load_entry lib calm f name s disk = (None, s, disk)"
  then show ?thesis using l oo by simp
next
  fix x assume x: "read_manifest lib calm s disk f name = Inr x" "object_hex (document_id x) = name"
    "load_entry lib calm f name s disk = (None, s\<lparr>documents := x # documents s\<rparr>, disk)"
  then show ?thesis using l oo orphan_not_read [OF w oo x(2,1)] by (auto simp: orphaned_def find_document_def)
next
  fix x assume x: "read_manifest lib calm s disk f name = Inr x" "object_hex (document_id x) = name"
    "load_entry lib calm f name s disk = (let st' = x\<lparr>sd_state := TRANSFER_FINISHED\<rparr>;
            (r, disk) = (if sd_state x = TRANSFER_VERIFYING then write_manifest lib calm s disk st' True else (None, disk)) in
          (r, if r = None then s\<lparr>documents := st' # documents s\<rparr> else s, disk))"
  let ?f = "x\<lparr>sd_state := TRANSFER_FINISHED\<rparr>"
  have ne: "document_id x \<noteq> transfer_id d" by (rule orphan_not_read [OF w oo x(2,1)])
  obtain r1 disk1 where m: "write_manifest lib calm s disk ?f True = (r1, disk1)" by (cases "write_manifest lib calm s disk ?f True")
  have "disk1 g (object_hex (transfer_id d)) = disk g (object_hex (transfer_id d))" for g
    by (rule write_manifest_others [OF m]) (use ne in \<open>simp add: object_hex_inj\<close>)
  then show ?thesis using x(3) l oo ne m by (auto simp: orphaned_def find_document_def Let_def split: if_splits)
qed

lemma load_names_orphan:
  assumes w: "manifest_wf st" "manifest_state st = TRANSFER_FINISHED"
  shows "load_names lib calm f k names s disk = (r, s', disk') \<Longrightarrow> orphaned d st s disk \<Longrightarrow> orphaned d st s' disk'"
proof (induction names arbitrary: k s disk)
  case (Cons name names)
  obtain r1 s1 disk1 where e: "load_entry lib calm f name s disk = (r1, s1, disk1)" by (cases "load_entry lib calm f name s disk") auto
  with Cons.IH [of "Suc k" s1 disk1] Cons.prems load_entry_orphan [OF w e Cons.prems(2)] show ?case by (auto split: option.splits)
qed simp

lemma load_documents_orphan:
  assumes "manifest_wf st" "manifest_state st = TRANSFER_FINISHED" "load_documents lib calm f names s disk = (r, s', disk')" "orphaned d st s disk"
  shows "orphaned d st s' disk'"
proof -
  obtain r1 s1 disk1 where e: "load_names lib calm f 0 names s disk = (r1, s1, disk1)" by (cases "load_names lib calm f 0 names s disk") auto
  with assms load_names_orphan [OF assms(1,2) e assms(4)] show ?thesis by (auto simp: load_documents_def split: if_splits option.splits)
qed

section \<open>A damaged document\<close>

text \<open>Something is in the way under \<open>objects\<close>, and the document is not finished.\<close>

definition blocked :: "ObjectID \<Rightarrow> Storage \<Rightarrow> disk \<Rightarrow> bool" where
  "blocked i s disk \<longleftrightarrow> (\<exists>dir. disk True (object_hex i) = Some dir \<and> (manifest dir \<noteq> None \<or> chunk_files dir \<noteq> [])) \<and>
     (\<forall>st \<in> set (documents s). document_id st = i \<longrightarrow> sd_state st \<noteq> TRANSFER_FINISHED)"

lemma write_manifest_True: "write_manifest lib os s disk st False = (r, disk') \<Longrightarrow> disk' True = disk True"
  by (rule ext) (erule write_manifest_others, auto)

lemma storage_begin_objects:
  assumes "storage_begin lib os now s disk d = (r, s', disk')"
  shows "disk' True = disk True" "\<forall>st \<in> set (documents s'). st \<in> set (documents s) \<or> sd_state st \<noteq> TRANSFER_FINISHED"
proof -
  have "disk' True = disk True \<and> (\<forall>st \<in> set (documents s'). st \<in> set (documents s) \<or> sd_state st \<noteq> TRANSFER_FINISHED)"
    using assms unfolding storage_begin_def Let_def
    by (auto simp: enter_directory_def dest: write_manifest_True split: if_splits option.splits sum.splits prod.splits)
  then show "disk' True = disk True" "\<forall>st \<in> set (documents s'). st \<in> set (documents s) \<or> sd_state st \<noteq> TRANSFER_FINISHED" by simp_all
qed

lemma storage_put_objects:
  assumes "storage_put_chunk lib os s disk c = (r, s', disk')"
  shows "disk' True = disk True" "\<forall>st \<in> set (documents s'). st \<in> set (documents s) \<or> sd_state st \<noteq> TRANSFER_FINISHED"
proof -
  have "disk' True = disk True \<and> (\<forall>st \<in> set (documents s'). st \<in> set (documents s) \<or> sd_state st \<noteq> TRANSFER_FINISHED)"
  proof (rule storage_put_chunk_cases [OF assms])
    fix k n assume "store_chunk lib os s disk k c n = (r, s', disk')"
    moreover obtain r1 disk1 where w: "write_chunk_file (at os 3) disk c = (r1, disk1)" by (cases "write_chunk_file (at os 3) disk c")
    ultimately show ?thesis using write_chunk_file_True [OF w]
      by (auto simp: store_chunk_def Let_def dest: write_manifest_True dest!: set_update_subset_insert [THEN subsetD] split: option.splits prod.splits)
  qed simp
  then show "disk' True = disk True" "\<forall>st \<in> set (documents s'). st \<in> set (documents s) \<or> sd_state st \<noteq> TRANSFER_FINISHED" by simp_all
qed

lemma rename_others: "rename_directory os disk name f = (r, disk') \<Longrightarrow> n \<noteq> name \<Longrightarrow> disk' g n = disk g n"
  by (auto simp: rename_directory_def split: option.splits if_splits)

lemma publish_blocked:
  assumes "publish_document lib os s disk i k a b = (r, s', disk')" "document_id (documents s ! k) = i"
  shows "j \<noteq> i \<Longrightarrow> disk' True (object_hex j) = disk True (object_hex j)"
    "disk True (object_hex i) = Some dir \<Longrightarrow> manifest dir \<noteq> None \<or> chunk_files dir \<noteq> [] \<Longrightarrow>
      isl r \<and> s' = s \<and> disk' True (object_hex i) = Some dir"
proof -
  obtain r1 disk1 where w: "write_manifest lib (at os 3) s disk (documents s ! k) False = (r1, disk1)"
    by (cases "write_manifest lib (at os 3) s disk (documents s ! k) False")
  obtain r2 disk2 where m: "rename_directory (at os 4) disk1 (object_hex i) True = (r2, disk2)"
    by (cases "rename_directory (at os 4) disk1 (object_hex i) True")
  obtain r3 disk3 where b: "rename_directory (at os 7) disk2 (object_hex i) False = (r3, disk3)"
    by (cases "rename_directory (at os 7) disk2 (object_hex i) False")
  have t: "disk1 True = disk True" by (rule write_manifest_True [OF w])
  show "disk' True (object_hex j) = disk True (object_hex j)" if "j \<noteq> i"
  proof -
    have n: "object_hex j \<noteq> object_hex i" using that by (simp add: object_hex_inj)
    have "disk' = disk1 \<or> disk' = disk2 \<or> disk' = disk3"
      using assms(1) w m b by (auto simp: publish_document_def Let_def rename_directory_def split: option.splits if_splits)
    then show ?thesis using t rename_others [OF m n] rename_others [OF b n] by auto
  qed
  assume d: "disk True (object_hex i) = Some dir" "manifest dir \<noteq> None \<or> chunk_files dir \<noteq> []"
  then have "r2 \<noteq> None" "disk2 = disk1" using m t by (auto simp: rename_directory_def split: option.splits)
  then show "isl r \<and> s' = s \<and> disk' True (object_hex i) = Some dir"
    using assms(1) w m t d(1) by (auto simp: publish_document_def Let_def split: option.splits)
qed

lemma commit_blocked:
  assumes c: "storage_commit lib os s disk j = (r, s', disk')" and b: "blocked i s disk"
  shows "blocked i s' disk' \<and> (j = i \<longrightarrow> isl r)"
proof -
  obtain dir where dir: "disk True (object_hex i) = Some dir" "manifest dir \<noteq> None \<or> chunk_files dir \<noteq> []" using b by (auto simp: blocked_def)
  have nf: "\<forall>st \<in> set (documents s). document_id st = i \<longrightarrow> sd_state st \<noteq> TRANSFER_FINISHED" using b by (simp add: blocked_def)
  show ?thesis
  proof (rule storage_commit_cases [OF c, where d = "projr r"])
    assume u: "s' = s" "disk' = disk" "r = Inr (projr r) \<longrightarrow> (\<exists>k. find_document s j = Some k \<and> sd_state (documents s ! k) = TRANSFER_FINISHED \<and> projr r = sd_document (documents s ! k))"
    have "isl r" if "j = i"
    proof (rule ccontr)
      assume "\<not> isl r"
      then obtain k where "find_document s j = Some k" "sd_state (documents s ! k) = TRANSFER_FINISHED" using u(3) by (cases r) auto
      then show False using nf that find_document_Some by (metis nth_mem)
    qed
    with u b show ?thesis by simp
  next
    fix k st s1
    assume k: "find_document s j = Some k" "sd_state (documents s ! k) \<noteq> TRANSFER_FINISHED" "st = (documents s ! k)\<lparr>sd_state := TRANSFER_VERIFYING\<rparr>"
        "s1 = s\<lparr>documents := (documents s)[k := st]\<rparr>"
      and d: "s' = s1 \<and> disk' = disk \<and> isl r \<or>
        verify_document lib (at os 2) s1 disk st False = None \<and> (\<exists>a b. publish_document lib os s1 disk j k a b = (r, s', disk'))"
    have l: "k < length (documents s)" "document_id (documents s ! k) = j" using find_document_Some [OF k(1)] by simp_all
    have b1: "blocked i s1 disk" using dir nf by (auto simp: blocked_def k(3,4) dest!: set_update_subset_insert [THEN subsetD])
    have n: "documents s1 ! k = st" "document_id st = j" using l by (simp_all add: k(3,4))
    from d show ?thesis
    proof
      assume "verify_document lib (at os 2) s1 disk st False = None \<and> (\<exists>a b. publish_document lib os s1 disk j k a b = (r, s', disk'))"
      then obtain a b where p: "publish_document lib os s1 disk j k a b = (r, s', disk')" by blast
      have id: "document_id (documents s1 ! k) = j" using n by simp
      show ?thesis
      proof (cases "j = i")
        case True
        then show ?thesis using publish_blocked(2) [OF p id, of dir] dir b1 by (auto simp: blocked_def)
      next
        case False
        then have "disk' True (object_hex i) = Some dir" using publish_blocked(1) [OF p id, of i] dir(1) by simp
        moreover have "\<forall>x \<in> set (documents s'). document_id x = i \<longrightarrow> sd_state x \<noteq> TRANSFER_FINISHED"
          using publish_document_cases(2) [OF p id] b1 n False by (auto simp: blocked_def dest!: set_update_subset_insert [THEN subsetD])
        ultimately show ?thesis using False dir(2) by (auto simp: blocked_def)
      qed
    qed (use b1 in simp)
  qed
qed

lemma documents_more: "Cache.more s' = Cache.more s \<Longrightarrow> documents s' = documents (s :: Storage)"
  by (cases s; cases s') simp

lemma cache_store_documents: "documents (cache_store_locked os s i c bytes) = documents (s :: Storage)"
proof -
  obtain vs where "evicted s vs (snd (cache_make_room (unat (sc_compressed_size c)) s))" using make_room_evicted by blast
  from documents_more [OF evicted_keeps(4) [OF this]] show ?thesis by (auto simp: cache_store_locked_def Let_def split: prod.splits bool.splits)
qed

lemma read_documents:
  assumes "storage_read_chunk_internal os s disk i index = (r, s')"
  shows "documents s' = documents (s :: Storage)"
proof -
  have t: "documents (cache_touch_locked s j) = documents s" for j by (simp add: cache_touch_locked_def Let_def)
  have u: "documents (snd (read_uncached os t disk i index c)) = documents t" for t :: Storage and c
    unfolding read_uncached_def by (auto simp: Let_def cache_store_documents split: sum.splits option.splits)
  have "documents (snd (storage_read_chunk_internal os s disk i index)) = documents s"
    unfolding storage_read_chunk_internal_def by (auto simp: Let_def t u split: option.splits)
  with assms show ?thesis by simp
qed

lemma set_capacity_documents: "storage_set_cache_capacity os s n = (r, s') \<Longrightarrow> documents s' = documents (s :: Storage)"
proof -
  assume a: "storage_set_cache_capacity os s n = (r, s')"
  let ?s = "s\<lparr>cache_stats := (cache_stats s)\<lparr>capacity_bytes := n\<rparr>\<rparr>"
  obtain vs where "evicted ?s vs (cache_evict_to_capacity_locked ?s)" using evict_to_capacity_evicted by blast
  from documents_more [OF evicted_keeps(4) [OF this]] a show ?thesis by (auto simp: storage_set_cache_capacity_def split: option.splits)
qed

lemma step_blocked:
  assumes "storage_step lib (s, disk) (s', disk')" "blocked i s disk"
  shows "blocked i s' disk'"
  using assms(1)
proof cases
  case (step_begin os now d r)
  from storage_begin_objects [OF this] assms(2) show ?thesis by (auto simp: blocked_def)
next
  case (step_put os c r)
  from storage_put_objects [OF this] assms(2) show ?thesis by (auto simp: blocked_def)
next
  case (step_commit os j x)
  from commit_blocked [OF this assms(2)] show ?thesis by simp
next
  case (step_read os j index y)
  with read_documents [OF step_read(2)] assms(2) show ?thesis by (simp add: blocked_def)
next
  case (step_capacity os n r)
  with set_capacity_documents [OF step_capacity(2)] assms(2) show ?thesis by (simp add: blocked_def)
qed

section \<open>A store with one document\<close>

text \<open>A library without compression in which the hash is the beginning of the contents, and a document of three bytes.\<close>

definition sample_lib :: storage_lib where
  "sample_lib = \<lparr>inet_pton4 = \<lambda>_. None, inet_pton6 = \<lambda>_. None, inet_ntop4 = \<lambda>_. None, inet_ntop6 = \<lambda>_. None,
     sha256 = \<lambda>bs. Some (take 32 (bs @ replicate 32 0)), LZ4_compressBound = \<lambda>n. int n + 16, LZ4_compress_default = \<lambda>bs _. Some bs,
     LZ4_decompress_safe = \<lambda>bs _. Some bs, pid_text = [0x31]\<rparr>"

definition sample_object :: ObjectID where
  "sample_object = [1, 2, 3] @ replicate 29 0"

definition sample_pdf :: TransferDocument where
  "sample_pdf = \<lparr>transfer_id = sample_object, transfer_name = zero_padded 256 [0x61, 0x2e, 0x70, 0x64, 0x66], file_size = 3, transfer_chunk_count = 1,
     compression = 1\<rparr>"

definition sample_piece :: TransferChunk where
  "sample_piece = \<lparr>tc_id = sample_object, tc_index = 0, tc_offset = 0, tc_raw_size = 3, tc_compressed_size = 3, tc_hash = sample_object, tc_data = [1, 2, 3]\<rparr>"

definition sample_store :: Storage where
  "sample_store = \<lparr>cache = [], cache_stats = \<lparr>capacity_bytes = STORAGE_DEFAULT_CACHE_BYTES, used_bytes = 0, entries_count = 0, hits = 0, misses = 0,
     evictions = 0\<rparr>, cache_clock = 0, storage_root = [0x64], storage_owner = replicate 32 5, documents = []\<rparr>"

lemma sample_object_length: "length sample_object = 32" "length (object_hex sample_object) = 64"
  by (simp_all add: sample_object_def length_object_hex)

lemma sample_sound: "sound_upload sample_lib sample_pdf [sample_piece] [[1, 2, 3]]"
proof -
  have n: "cstr (transfer_name sample_pdf) = [0x61, 0x2e, 0x70, 0x64, 0x66]" unfolding sample_pdf_def TransferDocument.select_convs by (rule cstr_zero_padded) simp
  have h: "take 32 ([1, 2, 3] @ replicate 32 0) = sample_object" by (simp add: sample_object_def)
  have e: "expected_chunk_size 3 0 = 3" by (simp add: expected_chunk_size_def METADATA_CHUNK_SIZE_def Let_def)
  have "sound_chunk sample_lib sample_pdf 0 sample_piece [1, 2, 3]"
    using h e by (simp add: sound_chunk_def sample_piece_def sample_pdf_def sample_lib_def INT_MAX_def)
  then show ?thesis unfolding sound_upload_def n using h
    by (simp add: sample_pdf_def sample_lib_def content_pdf_name_def tolower_def COMPRESSION_LZ4_def)
qed

lemma sample_document_ok: "document_wf sample_pdf"
proof -
  have n: "cstr (zero_padded 256 [0x61, 0x2e, 0x70, 0x64, 0x66]) = [0x61, 0x2e, 0x70, 0x64, 0x66 :: byte]" by (rule cstr_zero_padded) simp
  have "chunks_of_size 3 = 1" by (simp add: chunks_of_size_def METADATA_CHUNK_SIZE_def)
  then show ?thesis using n sample_object_length
    by (simp add: document_wf_def sample_pdf_def OBJECT_ID_SIZE_def METADATA_NAME_SIZE_def COMPRESSION_LZ4_def)
qed

lemma sample_created: "storage_create sample_lib calm [0x64] (replicate 32 5) (\<lambda>_. []) (\<lambda>_. Map.empty) = (Inr sample_store, \<lambda>_. Map.empty)"
  by (simp add: storage_create_def load_documents_def ensure_directory_tree_def sample_store_def STORAGE_PATH_MAX_def Let_def)

lemma sample_start:
  "storage_reachable sample_lib sample_store (\<lambda>_. Map.empty)" "find_document sample_store (transfer_id sample_pdf) = None"
  "path_fits sample_lib sample_store (transfer_id sample_pdf)" "set [0, 0] = {..<length [sample_piece]}" "length (storage_owner sample_store) = NODE_ID_SIZE"
  "\<forall>j < length [sample_piece]. length (tc_hash ([sample_piece] ! j)) = OBJECT_ID_SIZE" "storage_root sample_store \<noteq> []"
proof -
  show "storage_reachable sample_lib sample_store (\<lambda>_. Map.empty)" unfolding storage_reachable_def using sample_created by blast
qed (auto simp: sample_store_def find_document_def path_fits_def sample_pdf_def sample_lib_def sample_object_length STORAGE_PATH_MAX_def NODE_ID_SIZE_def
  OBJECT_ID_SIZE_def sample_piece_def)

lemma sample_uploaded:
  obtains s disk where "storage_reachable sample_lib s disk" "uploaded s disk sample_pdf [sample_piece]" "storage_root s = [0x64]"
proof -
  have "\<exists>s1 disk1 s2 disk2 s3 disk3. storage_begin sample_lib calm 0 sample_store (\<lambda>_. Map.empty) sample_pdf = (None, s1, disk1) \<and>
      put_all sample_lib s1 disk1 (map (\<lambda>j. [sample_piece] ! j) [0, 0]) = (None, s2, disk2) \<and>
      storage_commit sample_lib calm s2 disk2 (transfer_id sample_pdf) = (Inr sample_pdf, s3, disk3) \<and>
      storage_reachable sample_lib s3 disk3 \<and> uploaded s3 disk3 sample_pdf [sample_piece] \<and> storage_root s3 = storage_root sample_store \<and>
      storage_owner s3 = storage_owner sample_store"
    by (rule upload_done [OF sample_start(1) sample_sound sample_start(2,3) _ sample_start(4)]) simp
  then obtain s disk where "storage_reachable sample_lib s disk" "uploaded s disk sample_pdf [sample_piece]" "storage_root s = storage_root sample_store" by blast
  then show thesis by (intro that [of s disk]) (simp_all add: sample_store_def)
qed

section \<open>What readers can rely on\<close>

text \<open>
C16: The store stays consistent from its creation on a disk with any contents, under any operations and failures: the cache has one entry
per chunk, its counters are right and it stays within its capacity; documents have different identifiers and chunks recorded at their
places; every finished document is on disk with contents of its size whose SHA-256 is its identifier; and cached chunks are those on disk.\<close>

theorem storage_consistent:
  assumes "storage_reachable lib s disk"
  shows "storage_ok lib s disk"
  by (rule storage_reachable_ok [OF assms])

theorem storage_consistent_witness: "\<exists>s disk. uploaded s disk sample_pdf [sample_piece] \<and> storage_ok sample_lib s disk"
proof -
  obtain s disk where "storage_reachable sample_lib s disk" "uploaded s disk sample_pdf [sample_piece]" by (rule sample_uploaded)
  then show ?thesis using storage_consistent [of sample_lib s disk] by blast
qed

text \<open>
C17: What a read returns is genuine, whatever the failures and whether it comes from the cache or from disk: the document is finished, the chunk
has the number asked for, and its data decompress to contents with its hash which are, at this number, part of contents whose SHA-256 is the identifier asked for.\<close>

theorem storage_read_genuine:
  assumes "storage_reachable lib s disk" "storage_read_chunk_with_cache_info os s disk i index = (Inr (c, hit, f), s')"
  shows "\<exists>contents. unat index < length contents \<and> sha256 lib (concat contents) = Some i \<and> tc_id c = i \<and> tc_index c = index \<and>
    LZ4_decompress_safe lib (tc_data c) (unat (tc_raw_size c)) = Some (contents ! unat index) \<and> sha256 lib (contents ! unat index) = Some (tc_hash c)"
proof -
  note ok = storage_reachable_ok [OF assms(1)]
  have d: "disk_chunk s disk i index = Some c" using storage_read_ok [OF ok] assms(2) by (simp add: storage_read_chunk_with_cache_info_def)
  obtain k where k: "find_document s i = Some k" "sd_state (documents s ! k) = TRANSFER_FINISHED" "index < transfer_chunk_count (sd_document (documents s ! k))"
    and c: "map_option (chunk_of_record i (sd_chunks (documents s ! k) ! unat index)) (stored_data disk True i (unat index) (sd_chunks (documents s ! k) ! unat index)) = Some c"
    using d by (auto simp: disk_chunk_def Let_def split: option.splits if_splits)
  let ?st = "documents s ! k"
  have st: "?st \<in> set (documents s)" "document_id ?st = i" using find_document_Some [OF k(1)] by simp_all
  have l: "unat index < length (sd_chunks ?st)" using storage_okD(3) [OF ok st(1)] k(3) by (simp add: record_ok_def word_less_nat_alt)
  obtain content where g: "chunks_content lib disk True i 0 (sd_chunks ?st) = Some content" "sha256 lib content = Some i"
    using storage_okD(4) [OF ok st(1) k(2)] st(2) by (auto simp: genuine_def)
  from chunk_contents [OF g(1)] obtain contents where cs: "length contents = length (sd_chunks ?st)" "concat contents = content"
    "\<forall>j < length (sd_chunks ?st). chunk_content lib disk True i (0 + j) (sd_chunks ?st ! j) = Some (contents ! j)" by blast
  let ?r = "sd_chunks ?st ! unat index"
  obtain bytes where b: "stored_data disk True i (unat index) ?r = Some bytes" "c = chunk_of_record i ?r bytes" using c by auto
  have "chunk_content lib disk True i (unat index) ?r = Some (contents ! unat index)" using cs(3) l by simp
  then have "LZ4_decompress_safe lib bytes (unat (sc_raw_size ?r)) = Some (contents ! unat index)" "sha256 lib (contents ! unat index) = Some (sc_hash ?r)"
    using b(1) by (auto simp: chunk_content_def split: option.splits if_splits)
  then show ?thesis using b(2) cs(1,2) g(2) l finished_chunk(2) [OF ok k]
    by (intro exI [of _ contents]) (simp add: chunk_of_record_def)
qed

theorem storage_read_genuine_witness:
  "\<exists>s disk contents. uploaded s disk sample_pdf [sample_piece] \<and> 0 < length contents \<and> sha256 sample_lib (concat contents) = Some sample_object \<and>
     LZ4_decompress_safe sample_lib (tc_data sample_piece) 3 = Some (contents ! 0)"
proof -
  obtain s disk where s: "storage_reachable sample_lib s disk" "uploaded s disk sample_pdf [sample_piece]" "storage_root s = [0x64]" by (rule sample_uploaded)
  have p: "path_fits sample_lib s (transfer_id sample_pdf)" using s(3) sample_start(3) by (simp add: path_fits_def sample_store_def)
  have id: "transfer_id sample_pdf = sample_object" "tc_raw_size sample_piece = 3" by (simp_all add: sample_pdf_def sample_piece_def)
  have "fst (storage_read_chunk calm s disk sample_object 0) = Inr sample_piece"
    using uploaded_reads [OF storage_reachable_ok [OF s(1)] sample_sound p _ s(2), of 0] id(1) by simp
  then obtain hit f s' where "storage_read_chunk_with_cache_info calm s disk sample_object 0 = (Inr (sample_piece, hit, f), s')"
    by (auto simp: storage_read_chunk_def storage_read_chunk_with_cache_info_def split: prod.splits sum.splits)
  from storage_read_genuine [OF s(1) this] s(2) id(2) show ?thesis by auto
qed

text \<open>
C18: The cache is transparent: when no call fails, for every document and chunk number, reading with the cache and reading with an emptied cache have the same result,
chunk or error, as long as the paths of the store fit.\<close>

theorem storage_cache_transparent:
  assumes "storage_reachable lib s disk" "\<not> isl (chunk_path s i True)"
  shows "fst (storage_read_chunk calm s disk i index) =
    fst (storage_read_chunk calm (s\<lparr>cache := [], cache_stats := (cache_stats s)\<lparr>used_bytes := 0, entries_count := 0\<rparr>\<rparr>) disk i index)"
proof -
  let ?s = "s\<lparr>cache := [], cache_stats := (cache_stats s)\<lparr>used_bytes := 0, entries_count := 0\<rparr>\<rparr>"
  note ok = storage_reachable_ok [OF assms(1)]
  have ok': "storage_ok lib ?s disk" using ok by (simp add: storage_ok_def cache_ok_def cache_counted_def)
  have p: "\<not> isl (chunk_path ?s i True)" using assms(2) by (simp add: chunk_path_def document_directory_def)
  have d: "disk_chunk ?s disk i index = disk_chunk s disk i index" by (simp add: disk_chunk_def find_document_def split: option.split)
  have fst: "fst (storage_read_chunk calm t disk i index) = (case disk_chunk t disk i index of None \<Rightarrow> Inl ENOENT | Some c \<Rightarrow> Inr c)"
    if t: "storage_ok lib t disk" "\<not> isl (chunk_path t i True)" for t :: Storage
  proof (cases "disk_chunk t disk i index")
    case (Some c)
    with read_calm [OF t(1) Some t(2)] show ?thesis by (auto simp: storage_read_chunk_def)
  next
    case None
    have "find_document t i = None \<or> (\<exists>k. find_document t i = Some k \<and>
        (sd_state (documents t ! k) \<noteq> TRANSFER_FINISHED \<or> transfer_chunk_count (sd_document (documents t ! k)) \<le> index))"
    proof (rule ccontr)
      assume "\<not> ?thesis"
      then obtain k where k: "find_document t i = Some k" "sd_state (documents t ! k) = TRANSFER_FINISHED"
        "index < transfer_chunk_count (sd_document (documents t ! k))" by (cases "find_document t i") auto
      obtain raw where "chunk_content lib disk True i (unat index) (sd_chunks (documents t ! k) ! unat index) = Some raw"
        using finished_chunk(1) [OF t(1) k] by blast
      then show False using None k by (auto simp: disk_chunk_def Let_def chunk_content_def split: option.splits if_splits)
    qed
    then show ?thesis using None by (auto simp: storage_read_chunk_def storage_read_chunk_internal_def Let_def)
  qed
  show ?thesis unfolding fst [OF ok assms(2)] fst [OF ok' p] d ..
qed

theorem storage_cache_transparent_witness:
  "\<exists>s disk. uploaded s disk sample_pdf [sample_piece] \<and> fst (storage_read_chunk calm s disk sample_object 0) =
     fst (storage_read_chunk calm (s\<lparr>cache := [], cache_stats := (cache_stats s)\<lparr>used_bytes := 0, entries_count := 0\<rparr>\<rparr>) disk sample_object 0)"
proof -
  obtain s disk where s: "storage_reachable sample_lib s disk" "uploaded s disk sample_pdf [sample_piece]" "storage_root s = [0x64]" by (rule sample_uploaded)
  have "path_fits sample_lib s sample_object" using s(3) sample_start(3) by (simp add: path_fits_def sample_store_def sample_pdf_def)
  then have "\<not> isl (chunk_path s sample_object True)" by (simp add: chunk_path_fits)
  from storage_cache_transparent [OF s(1) this, of 0] s(2) show ?thesis by blast
qed

section \<open>Uploads, restarts and damage\<close>

text \<open>
C15: What was uploaded stays: when no call fails and nothing of the document is there yet, beginning it, putting its chunks in any order, with
repetitions, and committing it succeed, and every chunk can be read back as it was sent, by the same process and by a new one that opens the
store and finds the directory of the document among the names that it lists.\<close>

theorem storage_upload_survives:
  assumes "storage_reachable lib s disk" "sound_upload lib d cs raws" "find_document s (transfer_id d) = None" "path_fits lib s (transfer_id d)"
    "disk True (object_hex (transfer_id d)) = None" "set order = {..<length cs}" "document_wf d" "length (storage_owner s) = NODE_ID_SIZE"
    "\<forall>j < length cs. length (tc_hash (cs ! j)) = OBJECT_ID_SIZE" "storage_root s \<noteq> []" "object_hex (transfer_id d) \<in> set (names True)"
  shows "\<exists>s1 disk1 s2 disk2 s3 disk3 s4 disk4. storage_begin lib calm now s disk d = (None, s1, disk1) \<and>
    put_all lib s1 disk1 (map (\<lambda>j. cs ! j) order) = (None, s2, disk2) \<and> storage_commit lib calm s2 disk2 (transfer_id d) = (Inr d, s3, disk3) \<and>
    (\<forall>j < length cs. fst (storage_read_chunk calm s3 disk3 (transfer_id d) (of_nat j)) = Inr (cs ! j)) \<and>
    storage_create lib calm (storage_root s) owner names disk3 = (Inr s4, disk4) \<and>
    (\<forall>j < length cs. fst (storage_read_chunk calm s4 disk4 (transfer_id d) (of_nat j)) = Inr (cs ! j))"
proof -
  obtain s1 disk1 s2 disk2 s3 disk3 where c: "storage_begin lib calm now s disk d = (None, s1, disk1)"
    "put_all lib s1 disk1 (map (\<lambda>j. cs ! j) order) = (None, s2, disk2)" "storage_commit lib calm s2 disk2 (transfer_id d) = (Inr d, s3, disk3)"
    and r: "storage_reachable lib s3 disk3" and up: "uploaded s3 disk3 d cs" and s3: "storage_root s3 = storage_root s" "storage_owner s3 = storage_owner s"
    using upload_done [OF assms(1-6), of now] by blast
  have p3: "path_fits lib s3 (transfer_id d)" using assms(4) s3(1) by (simp add: path_fits_def)
  obtain st where st: "durable disk3 d cs st" "manifest_wf st"
    by (rule uploaded_durable [OF up assms(2,7) _ assms(9)]) (use assms(8) s3(2) in simp)
  obtain s4 disk4 where s4: "storage_create lib calm (storage_root s) owner names disk3 = (Inr s4, disk4)" "durable disk4 d cs st" "st \<in> set (documents s4)"
    "path_fits lib s4 (transfer_id d)"
    using storage_create_restores [where root = "storage_root s" and names = names and owner = owner, OF assms(2) st(2,1) assms(10) assms(4) [unfolded path_fits_def] assms(11)]
    by blast
  have ok: "storage_ok lib s4 disk4" by (rule storage_create_ok [OF s4(1)])
  have d: "sd_document st = d" "sd_state st = TRANSFER_FINISHED" "sd_chunks st = map record_of_chunk cs"
    "\<forall>j < length cs. chunk_file disk4 True (transfer_id d) (of_nat j) = Some (tc_data (cs ! j))" using s4(2) by (simp_all add: durable_def)
  obtain k where k: "find_document s4 (transfer_id d) = Some k" "documents s4 ! k = st"
    by (rule find_document_member [OF storage_okD(2) [OF ok] s4(3)]) (use d(1) in simp)
  have "fst (storage_read_chunk calm s4 disk4 (transfer_id d) (of_nat j)) = Inr (cs ! j)" if "j < length cs" for j
    by (rule finished_reads [OF ok assms(2) s4(4) that k(1)]) (use k(2) d in simp_all)
  with c s4(1) uploaded_reads [OF storage_reachable_ok [OF r] assms(2) p3 _ up] show ?thesis by blast
qed

theorem storage_upload_survives_witness:
  "\<exists>s1 disk1 s2 disk2 s3 disk3 s4 disk4. storage_begin sample_lib calm 7 sample_store (\<lambda>_. Map.empty) sample_pdf = (None, s1, disk1) \<and>
     put_all sample_lib s1 disk1 [sample_piece, sample_piece] = (None, s2, disk2) \<and> storage_commit sample_lib calm s2 disk2 sample_object = (Inr sample_pdf, s3, disk3) \<and>
     storage_create sample_lib calm [0x64] (replicate 32 5) (\<lambda>_. [object_hex sample_object]) disk3 = (Inr s4, disk4) \<and>
     fst (storage_read_chunk calm s4 disk4 sample_object 0) = Inr sample_piece"
proof -
  have id: "transfer_id sample_pdf = sample_object" "storage_root sample_store = [0x64]" by (simp_all add: sample_pdf_def sample_store_def)
  have "object_hex (transfer_id sample_pdf) \<in> set ((\<lambda>_ :: bool. [object_hex sample_object]) True)" using id(1) by simp
  from storage_upload_survives [OF sample_start(1) sample_sound sample_start(2,3) _ sample_start(4) sample_document_ok sample_start(5,6,7) this,
    of 7 "replicate 32 5"] id show ?thesis by (simp; blast)
qed

text \<open>
C20: An upload whose commit is interrupted is lost by a restart. After all chunks were stored, a commit whose rename fails, the only call that does, has already
written a manifest that says finished to the pending directory; a new process refuses this manifest, so the document with all its chunks is
not in the store, although the chunks are on disk.\<close>

theorem storage_interrupted_commit:
  assumes "sound_upload lib d cs raws" "find_document s (transfer_id d) = None" "path_fits lib s (transfer_id d)"
    "disk True (object_hex (transfer_id d)) = None" "set order = {..<length cs}" "document_wf d" "length (storage_owner s) = NODE_ID_SIZE"
    "\<forall>j < length cs. length (tc_hash (cs ! j)) = OBJECT_ID_SIZE"
  shows "\<exists>s1 disk1 s2 disk2 s3 disk3. storage_begin lib calm now s disk d = (None, s1, disk1) \<and>
    put_all lib s1 disk1 (map (\<lambda>j. cs ! j) order) = (None, s2, disk2) \<and> storage_commit lib rename_fails s2 disk2 (transfer_id d) = (Inl EIO, s3, disk3) \<and>
    (\<forall>root owner names s4 disk4. storage_create lib calm root owner names disk3 = (Inr s4, disk4) \<longrightarrow> find_document s4 (transfer_id d) = None)"
proof -
  let ?i = "transfer_id d"
  obtain s1 disk1 where b: "storage_begin lib calm now s disk d = (None, s1, disk1)" "uploading s1 disk1 d cs 0 {}" "storage_root s1 = storage_root s"
    "storage_owner s1 = storage_owner s" "disk1 True = disk True"
    using begin_calm [OF assms(1-3)] by blast
  have p1: "path_fits lib s1 ?i" using assms(3) b(3) by (simp add: path_fits_def)
  obtain s2 disk2 where q: "put_all lib s1 disk1 (map (\<lambda>j. cs ! j) order) = (None, s2, disk2)" "uploading s2 disk2 d cs 0 (set order \<union> {})"
    "storage_root s2 = storage_root s1" "storage_owner s2 = storage_owner s1" "disk2 True = disk1 True"
    using put_all_calm [OF assms(1) p1 b(2) _ p1, of order] assms(5) by blast
  have p2: "path_fits lib s2 ?i" using p1 q(3) by (simp add: path_fits_def)
  have "disk2 True (object_hex ?i) = None" using assms(4) b(5) q(5) by simp
  from commit_rename_fails [OF assms(1) q(2) _ p2 this] assms(5) obtain s3 disk3 st where c: "storage_commit lib rename_fails s2 disk2 ?i = (Inl EIO, s3, disk3)"
    "disk3 True (object_hex ?i) = None" "Option.bind (disk3 False (object_hex ?i)) manifest = Some (manifest_bytes st)" "sd_document st = d"
    "sd_state st = TRANSFER_VERIFYING" "sd_owner st = storage_owner s2" "sd_chunks st = map record_of_chunk cs" by auto
  have n: "length cs = unat (transfer_chunk_count d)" "length cs \<le> 2 ^ 42" using assms(1) unfolding sound_upload_def by blast+
  have w: "manifest_wf st" "manifest_state st = TRANSFER_FINISHED"
    using c(4-7) q(4) b(4) assms(6-8) n by (simp_all add: manifest_wf_def manifest_state_def list_all_length)
  have "find_document s4 ?i = None" if cr: "storage_create lib calm root owner names disk3 = (Inr s4, disk4)" for root owner names s4 disk4
  proof -
    let ?s = "\<lparr>cache = [], cache_stats = \<lparr>capacity_bytes = STORAGE_DEFAULT_CACHE_BYTES, used_bytes = 0, entries_count = 0, hits = 0, misses = 0,
                evictions = 0\<rparr>, cache_clock = 0, storage_root = root, storage_owner = owner, documents = []\<rparr>"
    have "orphaned d st ?s disk3" using c(2,3) by (simp add: orphaned_def find_document_def)
    moreover obtain t disk' where "load_documents lib calm True (names True) ?s disk3 = (None, t, disk')" "load_documents lib calm False (names False) t disk' = (None, s4, disk4)"
      using cr unfolding storage_create_def Let_def by (auto split: if_splits option.splits prod.splits)
    ultimately have "orphaned d st s4 disk4" using load_documents_orphan [OF w] by blast
    then show ?thesis by (simp add: orphaned_def)
  qed
  with b(1) q(1) c(1) show ?thesis by blast
qed

theorem storage_interrupted_commit_witness:
  "\<exists>s1 disk1 s2 disk2 s3 disk3. storage_begin sample_lib calm 7 sample_store (\<lambda>_. Map.empty) sample_pdf = (None, s1, disk1) \<and>
     put_all sample_lib s1 disk1 [sample_piece, sample_piece] = (None, s2, disk2) \<and>
     storage_commit sample_lib rename_fails s2 disk2 sample_object = (Inl EIO, s3, disk3)"
proof -
  have id: "transfer_id sample_pdf = sample_object" by (simp add: sample_pdf_def)
  from storage_interrupted_commit [OF sample_sound sample_start(2,3) _ sample_start(4) sample_document_ok sample_start(5,6), of "\<lambda>_. Map.empty" 7] id
  show ?thesis by (simp; blast)
qed

text \<open>
A damaged document blocks its identifier. When the directory of a document under \<open>objects\<close> has a manifest or a chunk, but the document
was not loaded when the store was opened, no commit of this identifier succeeds, after whatever operations and in whatever
environment, so that it can be uploaded again and again but never published.\<close>

theorem storage_damaged_blocks:
  assumes "storage_create lib os0 root owner names disk0 = (Inr s, disk)" "disk True (object_hex i) = Some dir" "manifest dir \<noteq> None \<or> chunk_files dir \<noteq> []"
    "find_document s i = None" "(storage_step lib)\<^sup>*\<^sup>* (s, disk) (s', disk')"
  shows "isl (fst (storage_commit lib os s' disk' i))"
proof -
  have "blocked i s disk" using assms(2-4) by (auto simp: blocked_def find_document_None)
  with assms(5) have b: "blocked i s' disk'" by (induction rule: rtranclp_induct2) (use step_blocked in blast)+
  show ?thesis using commit_blocked [OF _ b, of lib os i] by (cases "storage_commit lib os s' disk' i") auto
qed

theorem storage_damaged_blocks_witness:
  "\<exists>s disk s1 disk1. storage_create sample_lib calm [0x64] (replicate 32 5) (\<lambda>_. [])
       ((\<lambda>_. Map.empty)(True := [object_hex sample_object \<mapsto> \<lparr>manifest = Some [9], chunk_files = []\<rparr>])) = (Inr s, disk) \<and>
     storage_begin sample_lib calm 7 s disk sample_pdf = (None, s1, disk1) \<and> isl (fst (storage_commit sample_lib calm s1 disk1 sample_object))"
proof -
  let ?disk = "(\<lambda>_. Map.empty)(True := [object_hex sample_object \<mapsto> \<lparr>manifest = Some [9], chunk_files = []\<rparr>])"
  have c: "storage_create sample_lib calm [0x64] (replicate 32 5) (\<lambda>_. []) ?disk = (Inr sample_store, ?disk)"
    by (simp add: storage_create_def load_documents_def ensure_directory_tree_def sample_store_def STORAGE_PATH_MAX_def Let_def)
  obtain s1 disk1 where b: "storage_begin sample_lib calm 7 sample_store ?disk sample_pdf = (None, s1, disk1)"
    using begin_calm [OF sample_sound sample_start(2,3), of 7 ?disk] by blast
  have "(storage_step sample_lib)\<^sup>*\<^sup>* (sample_store, ?disk) (s1, disk1)" using step_begin [OF b] by blast
  moreover have "find_document sample_store sample_object = None" using sample_start(2) by (simp add: sample_pdf_def)
  ultimately have "isl (fst (storage_commit sample_lib calm s1 disk1 sample_object))"
    by (intro storage_damaged_blocks [OF c, of sample_object "\<lparr>manifest = Some [9], chunk_files = []\<rparr>"]) simp_all
  with b c show ?thesis by blast
qed

end
