(* ===== verification/Superpeer_Run.thy ===== *)
theory Superpeer_Run
  imports Superpeer_Safety Storage_Restart
begin

text \<open>
  Runs of a Super Peer: its first start, the steps it makes outside of connections, the invariant of all components through any sequence of steps, and the
  replies that arrive.
\<close>

section \<open>The steps outside connections\<close>

lemma failure_served:
  assumes "peer_inv lib p" "length (member_id m) = ID_SIZE"
  shows "served lib p (membership_failure os m p)"
proof -
  have "chord_inv (base_lib lib) (snd (chord_forget os (sp_chord p) (member_id m)))"
    using forget_inv [OF prod.collapse [symmetric], of "base_lib lib" "sp_chord p" "member_id m" os] assms by (simp add: peer_inv_def proper_id_def)
  moreover have "directory_inv (snd (metadata_remove_peer os (metadata p) (member_id m)))"
    by (rule remove_peer_inv(1)) (use assms(1) in \<open>simp add: peer_inv_def\<close>)
  ultimately show ?thesis
    unfolding membership_failure_def using served_chord [OF assms(1)] served_metadata [OF assms(1)] served_refl [OF assms(1)] by simp
qed

lemma discover_all_steps:
  assumes "\<And>x d. sha256 lib x = Some d \<Longrightarrow> length d = ID_SIZE"
  shows "(membership_step lib)\<^sup>*\<^sup>* (hb_members hb) (hb_members (discover_neighbours lib os oc chord hb)) \<and> hb_local (discover_neighbours lib os oc chord hb) = hb_local hb"
proof -
  let ?f = "\<lambda>(k, q). \<lambda>hb. snd (heartbeat_discover lib (at os k) (oc_pid oc) (oc_wall oc) (oc_clock oc) hb (peer_config q))"
  have "(membership_step lib)\<^sup>*\<^sup>* (hb_members hb) (hb_members (fold ?f qs hb)) \<and> hb_local (fold ?f qs hb) = hb_local hb" for qs hb
  proof (induction qs arbitrary: hb)
    case (Cons x qs)
    have "(membership_step lib)\<^sup>*\<^sup>* (hb_members hb) (hb_members (?f x hb)) \<and> hb_local (?f x hb) = hb_local hb"
      using discover_steps [OF prod.collapse [symmetric] assms] by (cases x) simp
    then show ?case using Cons.IH [of "?f x hb"] by (auto dest: rtranclp_trans)
  qed simp
  then show ?thesis unfolding discover_neighbours_def .
qed

lemma review_inv:
  assumes "\<forall>(k, m) \<in> set ms. length (member_id m) = ID_SIZE"
  shows "fold (review_member os self current) ms (chord, alive, gone) = (chord', alive', gone') \<Longrightarrow> chord_inv lib chord \<Longrightarrow>
    list_all (\<lambda>q. proper_id (peer_id q)) alive \<Longrightarrow> chord_inv lib chord' \<and> list_all (\<lambda>q. proper_id (peer_id q)) alive'"
  using assms
proof (induction ms arbitrary: chord alive gone)
  case (Cons x ms)
  obtain k m where x: "x = (k, m)" by (cases x)
  have i: "proper_id (member_id m)" using Cons.prems(4) x by (simp add: proper_id_def)
  obtain c a g where r: "review_member os self current x (chord, alive, gone) = (c, a, g)" by (rule prod_cases3)
  have f: "chord_inv lib (snd (chord_forget (at os k) chord (member_id m)))"
    using forget_inv [OF prod.collapse [symmetric] Cons.prems(2) i] by blast
  have "chord_inv lib c \<and> list_all (\<lambda>q. proper_id (peer_id q)) a"
    using r [unfolded x review_member_def prod.case Let_def] f Cons.prems(2,3) i allow_inv by (auto split: if_splits)
  then show ?case using Cons.IH [of c a g] Cons.prems(1,4) r by simp
qed simp

lemma refresh_served:
  assumes "peer_inv lib p" "\<And>x d. sha256 (base_lib lib) x = Some d \<Longrightarrow> length d = ID_SIZE"
  shows "served lib p (refresh_chord_membership (base_lib lib) os oc p)"
proof -
  define g where "g = p\<lparr>sp_heartbeat := discover_neighbours (base_lib lib) (at os 0) oc (sp_chord p) (sp_heartbeat p)\<rparr>"
  have g: "served lib p g" unfolding g_def by (rule served_heartbeat [OF assms(1) discover_all_steps [OF assms(2)]])
  have inv: "peer_inv lib g" using g by (simp add: served_def)
  note eq = refresh_chord_membership_def [of "base_lib lib" os oc p, unfolded Let_def, folded g_def]
  show ?thesis
  proof (cases "membership_snapshot (at os 1) (table g)")
    case (Inl e)
    then show ?thesis using g eq by simp
  next
    case (Inr ms)
    have t: "table_inv (table g)" using inv by (simp add: peer_inv_def)
    have "ms = members (table g)" using Inr by (auto simp: membership_snapshot_def split: option.splits)
    then have ids: "\<forall>(k, m) \<in> set (enumerate 0 ms). length (member_id m) = ID_SIZE"
      using t by (auto simp: table_inv_def in_set_enumerate_eq)
    obtain chord alive gone where r: "fold (review_member (at os 3) (id_of (sp_node g)) (peer_id (chord_get_successor (sp_chord g)))) (enumerate 0 ms)
        (sp_chord g, [], False) = (chord, alive, gone)" by (rule prod_cases3)
    have c: "chord_inv (base_lib lib) chord" "list_all (\<lambda>q. proper_id (peer_id q)) alive"
      using review_inv [OF ids r, of "base_lib lib"] inv by (simp_all add: peer_inv_def)
    have "chord_inv (base_lib lib) (if alive \<noteq> [] \<or> gone then snd (chord_repair (base_lib lib) chord alive) else chord)"
      using repair_inv [OF prod.collapse [symmetric] c] c(1) by simp
    then have s: "served lib p (g\<lparr>sp_chord := (if alive \<noteq> [] \<or> gone then snd (chord_repair (base_lib lib) chord alive) else chord)\<rparr>)"
      by (intro served_trans [OF g served_chord [OF inv]])
    show ?thesis
    proof (cases "fault (at os 2) \<noteq> None")
      case True
      show ?thesis unfolding eq Inr sum.case if_P [OF True] by (rule g)
    next
      case False
      then show ?thesis using s by (simp only: eq Inr sum.case if_False r prod.case)
    qed
  qed
qed

lemma joining_served:
  assumes "connect_and_join (base_lib lib) crc os oc now peer p st = (b, p', st')" "peer_inv lib p" "\<And>x d. sha256 (base_lib lib) x = Some d \<Longrightarrow> length d = ID_SIZE"
  shows "served lib p p'"
proof -
  have a: "length (id_of r) = ID_SIZE" if r: "accepted_node (base_lib lib) pid n tid m = Some r" for pid n tid m r
  proof -
    obtain c where "node_init (base_lib lib) pid c = Inr r" using r by (auto simp: accepted_node_def Let_def split: if_splits sum.splits)
    then show ?thesis by (rule node_init_length [OF _ assms(3)])
  qed
  have "served lib p (set_table t p)"
    if "accepted_node (base_lib lib) pid n tid m = Some r" "superpeer_register_node (base_lib lib) os' w c (table p) r = (x, t)" for pid n tid m r os' w c x t
  proof -
    have "membership_step (base_lib lib) (table p) t"
      using membership_step.step_register [OF a [OF that(1)], of "base_lib lib" "table p"] that(2) by (metis snd_conv superpeer_register_node_def)
    then show ?thesis by (rule served_table [OF assms(2)])
  qed
  then show ?thesis
    using assms(1) served_refl [OF assms(2)] unfolding connect_and_join_def Let_def
    by (auto split: if_splits sum.splits option.splits prod.splits protocol_result.splits)
qed

section \<open>The ring with other nodes\<close>

lemma decoded_proper:
  assumes "decode_peer lib bytes = Inr q" "\<And>x d. sha256 lib x = Some d \<Longrightarrow> length d = ID_SIZE"
  shows "proper_id (peer_id q)"
proof -
  obtain c n where n: "node_init lib 1 c = Inr n" "peer_id q = id_of n" using assms(1) by (auto simp: decode_peer_def split: sum.splits)
  show ?thesis using node_init_length [OF n(1) assms(2)] n(2) by (simp add: proper_id_def)
qed

lemma known_proper: "chord_inv lib chord \<Longrightarrow> q \<in> set (known_peers chord) \<Longrightarrow> proper_id (peer_id q)"
  by (auto simp: chord_inv_def list_all_iff)

lemma routed_known: "chord_route chord key = (next, complete) \<Longrightarrow> next \<in> set (known_peers chord)"
proof -
  have "f \<in> set (fingers chord)" if "find P (rev (fingers chord)) = Some f" for P f
    using that by (metis find_Some_iff nth_mem set_rev)
  then show "chord_route chord key = (next, complete) \<Longrightarrow> next \<in> set (known_peers chord)"
    by (auto simp: chord_route_def known_peers_def Let_def split: if_splits option.splits)
qed

lemma found_proper:
  assumes "chord_inv lib chord" "\<And>x d. sha256 lib x = Some d \<Longrightarrow> length d = ID_SIZE"
  shows "find_loop hops lib rpc chord key visited current t = Inr q \<Longrightarrow> proper_id (peer_id q)"
proof (induction hops arbitrary: visited current t)
  case (Suc hops)
  have r: "proper_id (peer_id next)" if "chord_route chord key = (next, complete)" for "next" complete
    by (rule known_proper [OF assms(1) routed_known [OF that]])
  have d: "proper_id (peer_id q)" if "decode_peer lib bytes = Inr q" for bytes q by (rule decoded_proper [OF that assms(2)])
  have p: "proper_id (peer_id next)" if "route_reply lib m = Some (next, complete)" for m "next" complete
    using that d by (auto simp: route_reply_def Let_def split: if_splits sum.splits)
  show ?case
    using Suc.prems Suc.IH r p unfolding find_loop.simps(2) Let_def
    by (auto split: if_splits prod.splits option.splits)
qed simp

lemma stabilize_inv:
  assumes "stabilize lib rpc chord = (r, chord')" "chord_inv lib chord" "\<And>x d. sha256 lib x = Some d \<Longrightarrow> length d = ID_SIZE"
  shows "chord_inv lib chord'"
proof -
  have c: "chord_inv lib (snd (chord_consider_predecessor lib chord q))" if "proper_id (peer_id q)" for q
    by (rule consider_inv [OF prod.collapse [symmetric] assms(2) that])
  have k: "proper_id (peer_id q)" if "chord_get_predecessor chord = Some q" for q
    using that by (intro known_proper [OF assms(2)]) (auto simp: chord_get_predecessor_def known_peers_def split: if_splits)
  have d: "proper_id (peer_id q)" if "decode_peer lib bytes = Inr q" for bytes q by (rule decoded_proper [OF that assms(3)])
  have "chord' = chord \<or> (\<exists>q. proper_id (peer_id q) \<and> chord' = snd (chord_consider_predecessor lib chord q))"
    using assms(1) k d unfolding stabilize_def Let_def by (auto split: if_splits sum.splits option.splits)
  then show ?thesis using assms(2) c by blast
qed

lemma maintain_inv:
  assumes "chord_network_maintain lib rpc chord k = (r, chord')" "chord_inv lib chord" "\<And>x d. sha256 lib x = Some d \<Longrightarrow> length d = ID_SIZE"
  shows "chord_inv lib chord'"
proof -
  obtain q c where s: "stabilize lib rpc chord = (q, c)" by fastforce
  have c: "chord_inv lib c" by (rule stabilize_inv [OF s assms(2,3)])
  have "chord_inv lib c'" if "chord_network_find lib rpc c key t = Inr f" "chord_set_finger lib c k f = (x, c')" for key t f x c'
    by (rule set_finger_inv [OF that(2) c found_proper [OF c assms(3) that(1) [unfolded chord_network_find_def find_from_def]]])
  then show ?thesis using assms(1,2) c s unfolding chord_network_maintain_def Let_def by (auto split: if_splits option.splits sum.splits)
qed

lemma network_join_inv:
  assumes "chord_network_join lib rpc chord host p = (r, chord')" "chord_inv lib chord" "\<And>x d. sha256 lib x = Some d \<Longrightarrow> length d = ID_SIZE"
  shows "chord_inv lib chord'"
proof -
  have "chord_inv lib c'" if "find_from lib rpc chord b key t = Inr f" "chord_set_successor lib chord f = (x, c')" for b key t f x c'
    by (rule set_successor_inv [OF that(2) assms(2) found_proper [OF assms(2,3) that(1) [unfolded find_from_def]]])
  then show ?thesis using assms(1,2) unfolding chord_network_join_def by (auto split: if_splits option.splits sum.splits)
qed

section \<open>Elections\<close>

lemma recover_all_context:
  assumes "\<And>c e. P c \<Longrightarrow> P (snd (apply c e))"
  shows "recover_from_all crc os apply rpc ms cl w = (b, cl', w') \<Longrightarrow> P (cl_context cl) \<Longrightarrow> P (cl_context cl')"
proof (induction ms arbitrary: cl w)
  case (Cons m ms)
  obtain q cl1 w1 where r: "c4_recover_from_member crc (at os (length ms)) apply rpc m cl w = (q, cl1, w1)" by (rule prod_cases3)
  have "P (cl_context cl1)" by (rule recover_context [of P "apply", OF assms r [unfolded c4_recover_from_member_def] Cons.prems(2)])
  then show ?case using Cons r by (auto split: if_splits)
qed simp

lemma tick_context:
  assumes "c4_cluster_tick crc os apply rpc now cl w = (b, cl', w')" "\<And>c e. P c \<Longrightarrow> P (snd (apply c e))" "P (cl_context cl)"
  shows "P (cl_context cl')"
proof -
  have s: "P (cl_context c)" if "tick_state os1 now ms cl = (q, c)" for os1 ms q c
    using that assms(3) by (auto simp: tick_state_def Let_def split: if_splits)
  have e: "P (cl_context c2)" if "P (cl_context c)" "c4_become_coordinator crc os2 apply rpc now ms c w1 = (x, c2, w2)" for os2 ms c w1 x c2 w2
  proof -
    obtain q c1 w3 where r: "recover_from_all crc (at os2 0) apply rpc ms c w1 = (q, c1, w3)" by (rule prod_cases3)
    have "P (cl_context c1)" by (rule recover_all_context [of P "apply", OF assms(2) r that(1)])
    then show ?thesis using that(2) r by (auto simp: c4_become_coordinator_def Let_def split: bool.splits prod.splits)
  qed
  show ?thesis
    using assms(1,3) s unfolding c4_cluster_tick_def Let_def by (auto split: sum.splits if_splits prod.splits bool.splits) (erule e [rotated], erule s)
qed

lemma tick_served:
  assumes "c4_cluster_tick crc os0 (apply_c4_entry os1) rpc now (cluster p) w = (b, cl, w')" "peer_inv lib p"
  shows "served lib p (p\<lparr>sp_c4 := cl\<rparr>)"
proof -
  note inv = cluster_inv [OF assms(2)]
  have "cluster_step crc (apply_c4_entry os1) rpc (cluster p) cl" by (rule cluster_step.step_tick [OF assms(1)])
  from cluster_step_kept [OF this inv(1,2)] have "kept (cluster p) cl" "ranked cl" by simp_all
  moreover have "directory_inv (cl_context cl)" by (rule tick_context [OF assms(1), of directory_inv, OF apply_c4_entry_inv inv(3)])
  ultimately show ?thesis by (rule served_cluster [OF assms(2)])
qed

section \<open>A node that starts\<close>

lemma apply_entries_context:
  assumes "\<And>c e. P c \<Longrightarrow> P (snd (apply c e))"
  shows "apply_entries n os apply i cl = (r, cl') \<Longrightarrow> P (cl_context cl) \<Longrightarrow> P (cl_context cl')"
proof (induction n arbitrary: i cl)
  case (Suc n)
  have f: "P (cl_context c)" if "c4_apply_new_entry apply cl e = (q, c)" for e q c
    by (rule apply_context [OF that, of P, OF assms Suc.prems(2)])
  show ?case using Suc.prems f Suc.IH by (fastforce split: sum.splits prod.splits option.splits)
qed simp

lemma created_context:
  assumes "c4_cluster_create crc os apply context n t lf jf = Inr cl" "\<And>c e. P c \<Longrightarrow> P (snd (apply c e))" "P context"
  shows "P (cl_context cl)"
proof -
  obtain log cl1 where c: "apply_entries (length (entries log)) (at os 3) apply 1
      \<lparr>cl_local = n, cl_members = t, cl_log = log, cl_context = context, leader = replicate ID_SIZE 0,
      current_term = 0, election_requested = False, election_waiting = False, election_started_ms = 0\<rparr> = (None, cl1)" "cl = cl1\<lparr>election_requested := True\<rparr>"
    using assms(1) by (auto simp: c4_cluster_create_def Let_def split: option.splits prod.splits)
  show ?thesis using apply_entries_context [of P "apply", OF assms(2) c(1)] c(2) assms(3) by simp
qed

lemma heartbeat_created_table:
  assumes "heartbeat_create lib os pid wall clock env n (Some t) len epoch None = (Inr h, f)" "length (id_of n) = ID_SIZE"
  shows "(membership_step lib)\<^sup>*\<^sup>* t (hb_members h) \<and> hb_local h = n"
proof -
  obtain g k t' where g: "advance_epoch (at os 5) g = (None, k)" "hb_members g = t" "hb_local g = n" "membership_local (at os 7) (hb_members k) n (hb_incarnation k) 0 = (None, t')"
      "h = k\<lparr>hb_members := t'\<rparr>"
    using assms(1) by (auto simp: heartbeat_create_def membership_load_def Let_def split: option.splits if_splits prod.splits)
  have k: "hb_members k = t" "hb_local k = n" using advance_table [OF g(1)] g(2,3) by simp_all
  have "membership_step lib t t'" using membership_step.step_local [OF assms(2), of lib t "at os 7"] g(4) k(1) by (metis snd_conv)
  then show ?thesis using g(5) k(2) by (simp add: r_into_rtranclp)
qed

lemma configure_cache_ok: "configure_superpeer_cache os v s = (r, s') \<Longrightarrow> storage_ok lib s disk \<Longrightarrow> storage_ok lib s' disk"
  by (auto simp: configure_superpeer_cache_def split: option.splits if_splits intro: set_capacity_ok)

text \<open>A first start, without a ledger of members: everything else on the disk may hold anything.\<close>

lemma start_inv:
  assumes "superpeer_start lib crc os oc env c root len names disk epoch None lf jf = Inr p" "\<And>x d. sha256 (base_lib lib) x = Some d \<Longrightarrow> length d = ID_SIZE"
  shows "peer_inv lib p"
proof -
  obtain n0 sc t store chord s0 disk1 s hb f cl where
    n0: "node_init (base_lib lib) (oc_pid oc) c = Inr n0" and
    t: "superpeer_create (base_lib lib) (at os 0) (oc_pid oc) (oc_wall oc 0) (oc_clock oc 0) sc = Inr t" and
    m: "metadata_create (at os 1) = Inr store" and ch: "chord_create (at os 2) (n0\<lparr>role := NODE_ROLE_SUPERPEER\<rparr>) = Inr chord" and
    st: "storage_create lib (at os 3) root (id_of n0) names disk = (Inr s0, disk1)" and
    ca: "configure_superpeer_cache (at os 4) (env ''PEER_CACHE_BYTES'') s0 = (None, s)" and
    hb: "heartbeat_create (base_lib lib) (at os 5) (oc_pid oc) (oc_wall oc 1) (oc_clock oc 1) env (n0\<lparr>role := NODE_ROLE_SUPERPEER\<rparr>) (Some t) len epoch None = (Inr hb, f)" and
    cl: "c4_cluster_create crc (at os 6) (apply_c4_entry (at os 7)) store (n0\<lparr>role := NODE_ROLE_SUPERPEER\<rparr>) (hb_members hb) lf jf = Inr cl" and
    p: "p = \<lparr>sp_node = n0\<lparr>role := NODE_ROLE_SUPERPEER\<rparr>, sp_storage = s, sp_disk = disk1, sp_chord = chord, sp_heartbeat = hb, sp_c4 = cl\<rparr>"
    using assms(1) unfolding superpeer_start_def Let_def by (auto split: sum.splits prod.splits option.splits)
  have i: "length (id_of (n0\<lparr>role := NODE_ROLE_SUPERPEER\<rparr>)) = ID_SIZE" using node_init_length [OF n0 assms(2)] by simp
  note h = heartbeat_created_table [OF hb i]
  have "table_inv (hb_members hb)" using steps_inv [OF conjunct1 [OF h]] created_table_inv [OF t assms(2)] by simp
  moreover have d: "directory_inv store" using created_store [OF m] by (simp add: directory_inv_def)
  have "directory_inv (cl_context cl)" by (rule created_context [OF cl, of directory_inv, OF apply_c4_entry_inv d])
  moreover have "storage_ok lib s disk1" by (rule configure_cache_ok [OF ca storage_create_ok [OF st]])
  moreover have "chord_inv (base_lib lib) chord" by (rule create_inv [OF ch]) (use i in \<open>simp add: proper_id_def\<close>)
  ultimately show ?thesis using created_kept [OF cl] h i by (simp add: p peer_inv_def table_def metadata_def)
qed

section \<open>Runs of a node\<close>

text \<open>
  A step of the node: a connection that is served, a step of the failure detector, a member that it gives up, the election, the review of the members on the ring, its
  maintenance with other nodes, or an attempt to join a node or a ring. Every call may fail, every clock may show anything, and the bytes that arrive are arbitrary.
\<close>

inductive superpeer_step :: "storage_lib \<Rightarrow> zcrc \<Rightarrow> 'w remote \<Rightarrow> PeerContext \<Rightarrow> PeerContext \<Rightarrow> bool" for lib crc rpc where
  connection: "handle_client lib crc os oc rpc 0 p w stream = (sent, p', w') \<Longrightarrow> superpeer_step lib crc rpc p p'"
| failure: "m \<in> set (members (table p)) \<Longrightarrow> superpeer_step lib crc rpc p (membership_failure os m p)"
| maintenance: "superpeer_step lib crc rpc p (refresh_chord_membership (base_lib lib) os occ p)"
| detection: "detector_step (base_lib lib) (sp_heartbeat p) hb \<Longrightarrow> superpeer_step lib crc rpc p (p\<lparr>sp_heartbeat := hb\<rparr>)"
| election: "c4_cluster_tick crc os (apply_c4_entry os') rpc now (cluster p) w = (b, cl, w') \<Longrightarrow> superpeer_step lib crc rpc p (p\<lparr>sp_c4 := cl\<rparr>)"
| stabilization: "chord_network_maintain (base_lib lib) call (sp_chord p) k = (r, chord) \<Longrightarrow> superpeer_step lib crc rpc p (p\<lparr>sp_chord := chord\<rparr>)"
| entering: "chord_network_join (base_lib lib) call (sp_chord p) host pt = (r, chord) \<Longrightarrow> superpeer_step lib crc rpc p (p\<lparr>sp_chord := chord\<rparr>)"
| joining: "connect_and_join (base_lib lib) crc os occ now peer p st = (b, p', st') \<Longrightarrow> superpeer_step lib crc rpc p p'"

lemma step_served:
  assumes "superpeer_step lib crc rpc p p'" "peer_inv lib p" "\<And>x d. sha256 (base_lib lib) x = Some d \<Longrightarrow> length d = ID_SIZE"
  shows "served lib p p'"
  using assms(1)
proof cases
  case (connection os oc w stream sent w')
  show ?thesis by (rule client_served [OF assms(3) connection assms(2)])
next
  case (failure m os)
  have "length (member_id m) = ID_SIZE" using failure(2) assms(2) by (simp add: peer_inv_def table_inv_def)
  then show ?thesis unfolding failure(1) by (rule failure_served [OF assms(2)])
next
  case (maintenance os occ)
  show ?thesis unfolding maintenance by (rule refresh_served [OF assms(2,3)])
next
  case (detection hb)
  show ?thesis
    unfolding detection(1) by (rule served_heartbeat [OF assms(2) detector_step_table [OF detection(2) _ assms(3)]]) (use assms(2) in \<open>simp add: peer_inv_def\<close>)
next
  case (election os os' now w b cl w')
  show ?thesis unfolding election(1) by (rule tick_served [OF election(2) assms(2)])
next
  case (stabilization call k r chord)
  show ?thesis
    unfolding stabilization(1) by (rule served_chord [OF assms(2) maintain_inv [OF stabilization(2) _ assms(3)]]) (use assms(2) in \<open>simp add: peer_inv_def\<close>)
next
  case (entering call host pt r chord)
  show ?thesis
    unfolding entering(1) by (rule served_chord [OF assms(2) network_join_inv [OF entering(2) _ assms(3)]]) (use assms(2) in \<open>simp add: peer_inv_def\<close>)
next
  case (joining os occ now peer st b st')
  show ?thesis by (rule joining_served [OF joining assms(2,3)])
qed

lemma steps_served:
  assumes "(superpeer_step lib crc rpc)\<^sup>*\<^sup>* p p'" "peer_inv lib p" "\<And>x d. sha256 (base_lib lib) x = Some d \<Longrightarrow> length d = ID_SIZE"
  shows "served lib p p'"
  using assms(1)
proof (induction rule: rtranclp_induct)
  case (step q r)
  have "peer_inv lib q" using step.IH by (simp add: served_def)
  from step_served [OF step.hyps(2) this assms(3)] show ?case by (rule served_trans [OF step.IH])
qed (rule served_refl [OF assms(2)])

section \<open>Replies arrive\<close>

definition sendable :: "response \<Rightarrow> bool" where
  "sendable r \<longleftrightarrow> (case r of Answer type bytes \<Rightarrow> type \<in> m_type ` UNIV \<and> length bytes \<le> unat MAX_PAYLOAD_SIZE | _ \<Rightarrow> True)"

lemma reply_wf:
  assumes "reply_message lib os now n m r = Inr reply" "message_wf m" "length (id_of n) = ID_SIZE" "canonical_config lib (config n)" "sendable r"
  shows "message_wf reply" "source_node (message_header reply) = id_of n" "destination_node (message_header reply) = source_node (message_header m)"
    "header_transaction_id (message_header reply) = header_transaction_id (message_header m)"
proof -
  obtain type bytes where b: "reply = \<lparr>message_header = (message_header message_init)\<lparr>message_type := type, source_node := id_of n,
      destination_node := source_node (message_header m), header_transaction_id := header_transaction_id (message_header m), timestamp := now,
      header_payload_size := of_nat (length bytes)\<rparr>, message_payload = (if bytes = [] then None else Some bytes)\<rparr>"
    "type \<in> m_type ` UNIV" "length bytes \<le> unat MAX_PAYLOAD_SIZE"
  proof (cases r)
    case (Answer type bytes)
    then show ?thesis
      by (intro that [of bytes type]) (use assms(1,5) in \<open>auto simp: reply_message_def sendable_def Let_def split: if_splits option.splits\<close>)
  next
    case Descriptor
    then obtain bytes where e: "rpc_encode_join_payload lib (config n) = Inr bytes" using assms(1) by (auto simp: reply_message_def Let_def split: option.splits sum.splits)
    then have "length bytes = 64" using length_join_bytes [OF assms(4)]
      by (auto simp: rpc_encode_join_payload_def JOIN_PAYLOAD_WIRE_SIZE_def NODE_ADDRESS_SIZE_def NODE_UUID_SIZE_def split: sum.splits)
    then show ?thesis by (intro that [of bytes "m_type M_ACK"]) (use assms(1) Descriptor e in \<open>auto simp: reply_message_def Let_def MAX_PAYLOAD_SIZE_def simp del: m_type.simps split: option.splits\<close>)
  next
    case (Refusal e)
    have "length (remote_error_encode e) = 2" by (simp add: remote_error_encode_def)
    then show ?thesis
      by (intro that [of "remote_error_encode e" "m_type M_ERROR"]) (use assms(1) Refusal in \<open>auto simp: reply_message_def Let_def MAX_PAYLOAD_SIZE_def simp del: m_type.simps split: if_splits option.splits\<close>)
  qed
  have u: "unat (of_nat (length bytes) :: u32) = length bytes" using b(3) by (simp add: MAX_PAYLOAD_SIZE_def unat_of_nat take_bit_nat_eq_self)
  have "protocol_validate_header (message_header reply)"
  proof -
    obtain x where x: "type = m_type x" using b(2) by blast
    have "type \<in> m_type ` set [M_JOIN, M_ACK, M_ERROR, M_PING, M_PONG, M_LEAVE, M_LOOKUP, M_STORE, M_DOWNLOAD_REQ,
        M_DOWNLOAD_REP, M_PREPARE, M_COMMIT, M_ABORT, M_HEARTBEAT, M_GOSSIP, M_ELECTION, M_OK,
        M_COORDINATOR, M_SNAPSHOT, M_STATE_TRANSFER, M_CHORD_INFO, M_CHORD_ROUTE,
        M_CHORD_PREDECESSOR, M_CHORD_NOTIFY, M_CHORD_FINGER, M_IST_REQUEST, M_IST_BATCH]"
      unfolding x by (rule imageI) (cases x; simp)
    then show ?thesis using b(3) u by (simp add: protocol_validate_header_def b(1) message_init_def word_le_nat_alt)
  qed
  moreover have "header_wf (message_header reply)"
    using assms(2,3) by (simp add: message_wf_def header_wf_def b(1) ID_SIZE_def NODE_ID_SIZE_def)
  ultimately show "message_wf reply" using u by (simp add: message_wf_def b(1))
  show "source_node (message_header reply) = id_of n" "destination_node (message_header reply) = source_node (message_header m)"
    "header_transaction_id (message_header reply) = header_transaction_id (message_header m)" by (simp_all add: b(1))
qed


lemma calm_reply:
  assumes "reply_message lib calm now n m r = Inr reply" "message_wf m" "length (id_of n) = ID_SIZE" "canonical_config lib (config n)" "sendable r"
  shows "send_reply lib crc calm now n m r = (True, frame crc reply)"
  using send_calm [OF reply_wf(1) [OF assms]] assms(1) by (simp add: send_reply_def)

lemma calm_reply_made:
  assumes "canonical_config lib (config n)"
  shows "\<exists>reply. reply_message lib calm now n m r = Inr reply"
proof -
  have "node_config_validate lib (config n) = Inr (ip (config n))" using assms by (simp add: canonical_config_def node_config_validate_def)
  then show ?thesis by (cases r) (simp_all add: reply_message_def Let_def rpc_encode_join_payload_def)
qed

section \<open>A Super Peer for the witnesses\<close>

definition service_lib :: storage_lib where
  "service_lib = lib.extend byte_lib \<lparr>LZ4_compressBound = \<lambda>n. int n + 16, LZ4_compress_default = \<lambda>bs _. Some bs, LZ4_decompress_safe = \<lambda>bs _. Some bs, pid_text = [0x31]\<rparr>"

lemma service_base: "base_lib service_lib = byte_lib"
  by (simp add: service_lib_def lib.defs byte_lib_def)

definition sample_occasion :: occasion where
  "sample_occasion = \<lparr>oc_pid = 1, oc_wall = \<lambda>_. 0, oc_clock = \<lambda>_. 0, oc_time = 0\<rparr>"

lemma sample_starts:
  "\<exists>p. superpeer_start service_lib sum_crc calm sample_occasion (\<lambda>_. None) (byte_config 1) [0x64] 10 (\<lambda>_. []) (\<lambda>_. Map.empty) None None [] [] = Inr p"
proof -
  have n: "node_init byte_lib 1 (byte_config 1) = Inr ((sample_node 1)\<lparr>role := NODE_ROLE_PEER\<rparr>)"
    by (simp add: node_init_def byte_config_valid sample_node_def)
  have r: "((sample_node 1)\<lparr>role := NODE_ROLE_PEER\<rparr>)\<lparr>role := NODE_ROLE_SUPERPEER\<rparr> = sample_node 1" by (simp add: sample_node_def)
  let ?sc = "\<lparr>superpeer_node = byte_config 1, initial_member_capacity = SUPERPEER_DEFAULT_MEMBER_CAPACITY\<rparr>"
  let ?t = "\<lparr>local_node = sample_node 1, members = [set_member 0 0 (sample_node 1)], member_capacity = SUPERPEER_DEFAULT_MEMBER_CAPACITY\<rparr>"
  have "normalize_ip byte_lib (ip (byte_config 1)) = Inr (ip (byte_config 1))" "port (byte_config 1) \<noteq> 0" "uuid (byte_config 1) = replicate 16 1"
    using byte_config_valid(1) [of 1] by (auto simp: node_config_validate_def byte_config_def split: if_splits)
  then have sc: "superpeer_config_init_with_uuid byte_lib (ip (byte_config 1)) (port (byte_config 1)) (uuid (byte_config 1)) = Inr ?sc"
    by (simp add: superpeer_config_init_with_uuid_def node_config_init_with_uuid_def NODE_UUID_SIZE_def)
  have t: "superpeer_create byte_lib calm 1 0 0 ?sc = Inr ?t" "local_id ?t = id_of (sample_node 1)"
    using n r by (simp_all add: superpeer_create_def byte_config_valid Let_def SUPERPEER_DEFAULT_MEMBER_CAPACITY_def SIZE_MAX_def MEMBER_SLOT_SIZE_def local_id_def)
  have st: "storage_create service_lib calm [0x64] (id_of (sample_node 1)) (\<lambda>_. []) (\<lambda>_. Map.empty) = (Inr (sample_store\<lparr>storage_owner := id_of (sample_node 1)\<rparr>), \<lambda>_. Map.empty)"
    by (simp add: storage_create_def load_documents_def ensure_directory_tree_def sample_store_def STORAGE_PATH_MAX_def Let_def)
  obtain hb f where hb: "heartbeat_create byte_lib calm 1 0 0 (\<lambda>_. None) (sample_node 1) (Some ?t) 10 None None = (Inr hb, f)"
    using create_succeeds [OF default_settings, of 10 None ?t "sample_node 1" byte_lib 1 0 0] t(2) by (auto simp: epoch_file_ok_def epoch_on_disk_def)
  obtain store where m: "metadata_create calm = Inr store" using sample_start_directory(1) by blast
  obtain chord where ch: "chord_create calm (sample_node 1) = Inr chord" by (simp add: chord_create_def Let_def)
  obtain cl where cl: "c4_cluster_create sum_crc calm (apply_c4_entry calm) store (sample_node 1) (hb_members hb) [] [] = Inr cl"
    by (simp add: c4_cluster_create_def open_empty Let_def) (simp add: empty_log_def)
  show ?thesis
    using n sc t(1) st hb m ch cl by (simp add: superpeer_start_def service_base sample_occasion_def r configure_superpeer_cache_def Let_def)
qed

definition ping_mail :: message where
  "ping_mail = \<lparr>message_header = (message_header message_init)\<lparr>message_type := m_type M_PING, header_payload_size := 4\<rparr>, message_payload = Some PING_PAYLOAD\<rparr>"

section \<open>Properties\<close>

text \<open>
C5: A Super Peer withstands whatever arrives. From its first start on, through any sequence of connections with any bytes on them, steps of the failure detector, members given up, elections, maintenance of the
ring and attempts to join, with any calls failing, the state of every component stays consistent: table of members, index, store with its cache, log and ring. The log only grows at its end, the identity of the node stays,
and no other member is lost from the table, falls back to an earlier incarnation or returns after its removal without a later one.\<close>

theorem superpeer_withstands_anything:
  assumes "superpeer_start lib crc os oc env c root len names disk epoch None lf jf = Inr p0" "\<And>x d. sha256 (base_lib lib) x = Some d \<Longrightarrow> length d = ID_SIZE"
    "(superpeer_step lib crc rpc)\<^sup>*\<^sup>* p0 p" "(superpeer_step lib crc rpc)\<^sup>*\<^sup>* p p'"
  shows "table_inv (table p') \<and> directory_inv (metadata p') \<and> storage_ok lib (sp_storage p') (sp_disk p') \<and> log_inv (cl_log (sp_c4 p')) \<and>
    chord_inv (base_lib lib) (sp_chord p') \<and> sp_node p' = sp_node p0 \<and> (\<exists>es. entries (cl_log (sp_c4 p')) = entries (cl_log (sp_c4 p)) @ es) \<and>
    (\<forall>i m. length i = ID_SIZE \<longrightarrow> i \<noteq> local_id (table p) \<longrightarrow> member_of (table p) i = Some m \<longrightarrow> (\<exists>m'. member_of (table p') i = Some m' \<and> evolves m m'))"
proof -
  have a: "served lib p0 p" by (rule steps_served [OF assms(3) start_inv [OF assms(1,2)] assms(2)])
  then have inv: "peer_inv lib p" by (simp add: served_def)
  have b: "served lib p p'" by (rule steps_served [OF assms(4) inv assms(2)])
  then have "(membership_step (base_lib lib))\<^sup>*\<^sup>* (table p) (table p')" "table_inv (table p)" using inv by (simp_all add: served_def peer_inv_def)
  note e = steps_evolve [OF this]
  have "table_inv (table p') \<and> directory_inv (metadata p') \<and> storage_ok lib (sp_storage p') (sp_disk p') \<and> log_inv (cl_log (sp_c4 p')) \<and>
      chord_inv (base_lib lib) (sp_chord p') \<and> sp_node p' = sp_node p0 \<and> (\<exists>es. entries (cl_log (sp_c4 p')) = entries (cl_log (sp_c4 p)) @ es)"
    using a b by (simp add: served_def peer_inv_def)
  then show ?thesis using e by blast
qed

theorem superpeer_withstands_anything_witness:
  "\<exists>p0 sent p'. superpeer_start service_lib sum_crc calm sample_occasion (\<lambda>_. None) (byte_config 1) [0x64] 10 (\<lambda>_. []) (\<lambda>_. Map.empty) None None [] [] = Inr p0 \<and>
     handle_client service_lib sum_crc calm (\<lambda>_. sample_occasion) no_answer 0 p0 () (replicate 200 7) = (sent, p', ()) \<and>
     table_inv (table p') \<and> directory_inv (metadata p') \<and> storage_ok service_lib (sp_storage p') (sp_disk p')"
proof -
  obtain p0 where p0: "superpeer_start service_lib sum_crc calm sample_occasion (\<lambda>_. None) (byte_config 1) [0x64] 10 (\<lambda>_. []) (\<lambda>_. Map.empty) None None [] [] = Inr p0"
    using sample_starts by blast
  obtain sent p' w where c: "handle_client service_lib sum_crc calm (\<lambda>_. sample_occasion) no_answer 0 p0 () (replicate 200 7) = (sent, p', w)" by (rule prod_cases3)
  have "(superpeer_step service_lib sum_crc no_answer)\<^sup>*\<^sup>* p0 p'" by (rule r_into_rtranclp) (rule superpeer_step.connection [OF c])
  then have "table_inv (table p') \<and> directory_inv (metadata p') \<and> storage_ok service_lib (sp_storage p') (sp_disk p')"
    using superpeer_withstands_anything [OF p0 _ rtranclp.rtrancl_refl, of no_answer p'] byte_lib_digest by (simp add: service_base)
  then show ?thesis using p0 c by (intro exI [of _ p0] exI [of _ sent] exI [of _ p']) simp
qed

text \<open>
C6: Every request is answered. While no call fails, the loop over a connection sends for each request it receives, before it looks at the next, one reply that arrives as the answer of the handler:
it comes from this node, goes to the sender of the request and repeats its transaction, provided the answer fits in a message.\<close>

theorem superpeer_answers:
  assumes "peer_inv lib p" "\<And>x d. sha256 (base_lib lib) x = Some d \<Longrightarrow> length d = ID_SIZE" "canonical_config (base_lib lib) (config (sp_node p))"
    "protocol_receive_message crc calm stream message_init = (PROTOCOL_OK, m, rest)" "serve_request lib crc calm (oc k) rpc p m w = ((strict, r), p', w1)"
    "sendable r" "handle_client lib crc calm oc rpc (Suc k) p' w1 rest = (later, p2, w2)"
  shows "\<exists>sent reply. handle_client lib crc calm oc rpc k p w stream = (sent @ later, p2, w2) \<and>
    protocol_receive_message crc calm sent message_init = (PROTOCOL_OK, sealed crc reply, []) \<and>
    reply_message (base_lib lib) calm (oc_time (oc k)) (sp_node p) m r = Inr reply \<and>
    source_node (message_header reply) = id_of (sp_node p) \<and> destination_node (message_header reply) = source_node (message_header m) \<and>
    header_transaction_id (message_header reply) = header_transaction_id (message_header m)"
proof -
  have m: "message_wf m" using receive_sound [OF assms(4)] by simp
  have n: "sp_node p' = sp_node p" "length (id_of (sp_node p)) = ID_SIZE"
    using request_served [OF assms(5,1) m assms(2)] assms(1) by (simp_all add: served_def peer_inv_def)
  obtain reply where reply: "reply_message (base_lib lib) calm (oc_time (oc k)) (sp_node p) m r = Inr reply" using calm_reply_made [OF assms(3)] by blast
  note w = reply_wf [OF reply m n(2) assms(3,6)]
  have "handle_client lib crc calm oc rpc k p w stream = (frame crc reply @ later, p2, w2)"
    unfolding handle_client.simps [of lib crc calm oc rpc k p w stream] using assms(4,5,7) n(1) calm_reply [OF reply m n(2) assms(3,6), of crc] by simp
  then show ?thesis using reply receive_frame [OF w(1), of crc "[]" message_init] w(2-4) by (intro exI [of _ "frame crc reply"] exI [of _ reply]) simp
qed

theorem superpeer_answers_witness:
  "\<exists>p sent reply p2. superpeer_start service_lib sum_crc calm sample_occasion (\<lambda>_. None) (byte_config 1) [0x64] 10 (\<lambda>_. []) (\<lambda>_. Map.empty) None None [] [] = Inr p \<and>
     handle_client service_lib sum_crc calm (\<lambda>_. sample_occasion) no_answer 0 p () (frame sum_crc ping_mail) = (sent, p2, ()) \<and>
     protocol_receive_message sum_crc calm sent message_init = (PROTOCOL_OK, reply, []) \<and> message_type (message_header reply) = m_type M_PONG \<and>
     message_payload reply = Some PONG_PAYLOAD"
proof -
  obtain p where p: "superpeer_start service_lib sum_crc calm sample_occasion (\<lambda>_. None) (byte_config 1) [0x64] 10 (\<lambda>_. []) (\<lambda>_. Map.empty) None None [] [] = Inr p"
    using sample_starts by blast
  have law: "sha256 (base_lib service_lib) x = Some d \<Longrightarrow> length d = ID_SIZE" for x d using byte_lib_digest by (simp add: service_base)
  have inv: "peer_inv service_lib p" by (rule start_inv [OF p law])
  have c: "config (sp_node p) = byte_config 1" using p unfolding superpeer_start_def Let_def by (auto simp: node_init_def split: sum.splits prod.splits option.splits)
  have wf: "message_wf ping_mail"
    by (simp add: message_wf_def ping_mail_def header_wf_def message_init_def zero_header_def protocol_validate_header_def PROTOCOL_VERSION_def MAX_PAYLOAD_SIZE_def
        NODE_ID_SIZE_def TRANSACTION_ID_SIZE_def PING_PAYLOAD_def)
  let ?m = "sealed sum_crc ping_mail" and ?r = "Answer (m_type M_PONG) PONG_PAYLOAD"
  have m: "message_type (message_header ?m) = m_type M_PING" "message_payload_equals ?m PING_PAYLOAD" "\<not> misaddressed p ?m"
    by (simp_all add: sealed_def ping_mail_def message_payload_equals_def misaddressed_def PING_PAYLOAD_def Let_def)
  have s: "serve_request service_lib sum_crc calm sample_occasion no_answer p ?m () = ((True, ?r), p, ())"
    unfolding serve_request_def Let_def using m by simp
  have n0: "network_recv_exact [] k [] = Inr ([], [])" for k by (cases k) auto
  have e: "handle_client service_lib sum_crc calm (\<lambda>_. sample_occasion) no_answer (Suc 0) p () [] = ([], p, ())"
    unfolding handle_client.simps [of _ _ _ _ _ "Suc 0"] by (simp add: protocol_receive_message_def n0)
  have k: "canonical_config (base_lib service_lib) (config (sp_node p))"
    using sample_record_wf [of 1] c by (simp add: record_wf_def sample_member_def sample_node_def set_member_def service_base)
  have ok: "sendable ?r" by (simp add: sendable_def PONG_PAYLOAD_def MAX_PAYLOAD_SIZE_def del: m_type.simps)
  note a = superpeer_answers [where oc = "\<lambda>_. sample_occasion" and k = 0, OF inv law k receive_frame [OF wf, of sum_crc "[]" message_init, unfolded append_Nil2] s ok e]
  obtain sent reply where r: "handle_client service_lib sum_crc calm (\<lambda>_. sample_occasion) no_answer 0 p () (frame sum_crc ping_mail) = (sent @ [], p, ())"
    "protocol_receive_message sum_crc calm sent message_init = (PROTOCOL_OK, sealed sum_crc reply, [])"
    "reply_message (base_lib service_lib) calm (oc_time sample_occasion) (sp_node p) ?m ?r = Inr reply"
    by (rule exE [OF a]) (assumption, elim exE conjE, rule that)
  have "message_type (message_header reply) = m_type M_PONG" "message_payload reply = Some PONG_PAYLOAD"
    using r(3) by (auto simp: reply_message_def Let_def PONG_PAYLOAD_def)
  then show ?thesis using p r(1,2) by (intro exI [of _ p] exI [of _ sent] exI [of _ "sealed sum_crc reply"] exI [of _ p]) (simp add: sealed_def Let_def)
qed

end
