(* ===== verification/Superpeer_Service.thy ===== *)
theory Superpeer_Service
  imports Superpeer_Run
begin

text \<open>
  What the requests to a Super Peer achieve together: a peer announces a document to the coordinator and others find it, and an announcement that arrives at any other Super
  Peer is sent on to the coordinator.
\<close>

section \<open>A coordinator without replicas\<close>



section \<open>An announcement sent on\<close>

text \<open>A remote call to the Super Peer in state \<open>q\<close>, answered by its own handler.\<close>

definition relay :: "storage_lib \<Rightarrow> zcrc \<Rightarrow> os \<Rightarrow> occasion \<Rightarrow> 'w remote \<Rightarrow> 'w \<Rightarrow> Node \<Rightarrow> byte list \<Rightarrow> PeerContext remote" where
  "relay lib crc os oc rpc w n fresh = (\<lambda>q m type tid bytes.
     let request = \<lparr>message_header = (message_header message_init)\<lparr>message_type := type, source_node := id_of n, destination_node := member_id m,
             header_transaction_id := (case tid of None \<Rightarrow> fresh | Some t \<Rightarrow> t), header_payload_size := of_nat (length bytes)\<rparr>,
           message_payload = (if bytes = [] then None else Some bytes)\<rparr>;
         ((_, r), q, _) = serve_request lib crc os oc rpc q request w in
     (case reply_message (base_lib lib) calm 0 (sp_node q) request r of Inl e \<Rightarrow> Inl e
      | Inr reply \<Rightarrow> Inr (message_type (message_header reply), payload_bytes reply), q))"

lemma store_unknown:
  assumes "hd bytes \<notin> store_code ` UNIV" "message_payload m = Some bytes" "header_payload_size (message_header m) \<noteq> 0"
  shows "handle_client_store lib crc os oc rpc p m w = (Some ENOTSUP, p, w)"
proof -
  have "payload_bytes m = bytes" using assms(2) by (simp add: payload_bytes_def)
  moreover have "hd bytes \<noteq> store_code TRANSFER_STORE_ANNOUNCE" "hd bytes \<noteq> store_code TRANSFER_STORE_BEGIN" "hd bytes \<noteq> store_code TRANSFER_STORE_CHUNK"
    "hd bytes \<noteq> store_code TRANSFER_STORE_COMMIT" using assms(1) by blast+
  ultimately show ?thesis using assms(2,3) unfolding handle_client_store_def Let_def by simp
qed

lemma relay_unknown:
  assumes "hd bytes \<notin> store_code ` UNIV" "bytes \<noteq> []" "length bytes \<le> unat MAX_PAYLOAD_SIZE" "\<not> node_id_is_zero (id_of n)" "member_id m = id_of (sp_node q)"
  shows "relay lib crc os oc rpc w n fresh q m (m_type M_STORE) tid bytes = (Inr (m_type M_ERROR, remote_error_encode ENOTSUP), q)"
proof -
  let ?request = "\<lparr>message_header = (message_header message_init)\<lparr>message_type := m_type M_STORE, source_node := id_of n, destination_node := member_id m,
      header_transaction_id := (case tid of None \<Rightarrow> fresh | Some t \<Rightarrow> t), header_payload_size := of_nat (length bytes)\<rparr>, message_payload = Some bytes\<rparr>"
  have "unat (of_nat (length bytes) :: u32) = length bytes" using assms(3) by (simp add: MAX_PAYLOAD_SIZE_def unat_of_nat take_bit_nat_eq_self)
  then have n: "(of_nat (length bytes) :: u32) \<noteq> 0" using assms(2) by (metis length_0_conv unat_0)
  then have pos: "0 < (of_nat (length bytes) :: u32)" by (simp add: word_neq_0_conv)
  have "handle_client_store lib crc os oc rpc q ?request w = (Some ENOTSUP, q, w)" by (rule store_unknown [OF assms(1)]) (use n in simp_all)
  moreover have "\<not> misaddressed q ?request" using assms(4,5) by (simp add: misaddressed_def Let_def)
  ultimately have s: "serve_request lib crc os oc rpc q ?request w = ((True, Refusal ENOTSUP), q, w)"
    using pos by (simp add: serve_request_def Let_def outcome_def)
  have "remote_error_encode ENOTSUP \<noteq> []" by (simp add: remote_error_encode_def)
  then show ?thesis using assms(2) s by (simp add: relay_def Let_def reply_message_def payload_bytes_def)
qed

section \<open>Announcements and lookups as requests\<close>








section \<open>Two Super Peers for the witnesses\<close>

definition sample_superpeer :: "byte \<Rightarrow> SuperPeer \<Rightarrow> NodeID \<Rightarrow> PeerContext" where
  "sample_superpeer b t l = \<lparr>sp_node = sample_node b, sp_storage = sample_store, sp_disk = \<lambda>_. Map.empty, sp_chord = sample_chord b,
     sp_heartbeat = sample_detector b t, sp_c4 = \<lparr>cl_local = sample_node b, cl_members = t, cl_log = empty_log, cl_context = replicate BUCKET_COUNT [],
       leader = l, current_term = 1, election_requested = False, election_waiting = False, election_started_ms = 0\<rparr>\<rparr>"




lemma sample_superpeer_fields [simp]:
  "table (sample_superpeer b t l) = t" "metadata (sample_superpeer b t l) = replicate BUCKET_COUNT []" "cl_log (cluster (sample_superpeer b t l)) = empty_log"
  "id_of (sp_node (sample_superpeer b t l)) = replicate 32 b" "leader (cluster (sample_superpeer b t l)) = l" "self_id (cluster (sample_superpeer b t l)) = replicate 32 b"
  by (simp_all add: sample_superpeer_def table_def metadata_def cluster_def sample_detector_def self_id_def sample_node_def)









section \<open>Properties\<close>



text \<open>
C40: Announcements that are sent on are refused. A Super Peer that does not coordinate sends an announcement to the coordinator as the identifier of the owner, the transaction and the announcement, in a \<open>STORE\<close> request.
The coordinator takes the first byte of the payload, which is the first byte of the owner, as the operation: unless that byte is by chance the code of an operation, it refuses, the announcement fails with
\<open>EREMOTEIO\<close>, and neither node changes.\<close>

theorem superpeer_forward_refused:
  assumes "\<not> c4_cluster_is_leader (cluster p)" "c4_cluster_get_leader (cluster p) = Some i" "superpeer_find_member calm (table p) i = Inr m"
    "role (member_node m) = NODE_ROLE_SUPERPEER" "member_state m < SUPERPEER_MEMBER_FAILED" "member_id m = id_of (sp_node q)" "\<not> node_id_is_zero (id_of (sp_node p))"
    "length owner_id = ID_SIZE" "hd owner_id \<notin> store_code ` UNIV" "length tid = TRANSACTION_ID_SIZE" "length bytes \<le> unat MAX_PAYLOAD_SIZE - NODE_ID_SIZE - TRANSACTION_ID_SIZE"
  shows "process_announcement crc calm (relay lib crc os oc rpc w (sp_node p) fresh) p owner_id bytes tid q = (Some EREMOTEIO, p, q)"
proof -
  have ne: "owner_id \<noteq> []" using assms(8) by (auto simp: ID_SIZE_def)
  have "length (owner_id @ tid @ bytes) \<le> unat MAX_PAYLOAD_SIZE"
    using assms(8,10,11) by (simp add: ID_SIZE_def NODE_ID_SIZE_def TRANSACTION_ID_SIZE_def MAX_PAYLOAD_SIZE_def)
  then have "relay lib crc os oc rpc w (sp_node p) fresh q m (m_type M_STORE) None (owner_id @ tid @ bytes) = (Inr (m_type M_ERROR, remote_error_encode ENOTSUP), q)"
    using assms(6,7,9) ne by (intro relay_unknown) simp_all
  moreover have "\<not> SUPERPEER_MEMBER_FAILED \<le> member_state m" using assms(5) by simp
  ultimately show ?thesis using assms(1-4,11) by (simp add: process_announcement_def)
qed

theorem superpeer_forward_refused_witness:
  "process_announcement sum_crc calm (relay service_lib sum_crc calm sample_occasion no_answer () (sample_node 1) (replicate 16 3))
     (sample_superpeer 1 sample_table (replicate 32 2)) (replicate 32 9) [5] (replicate 16 7) (sample_superpeer 2 (lone_table 2) (replicate 32 2)) =
   (Some EREMOTEIO, sample_superpeer 1 sample_table (replicate 32 2), sample_superpeer 2 (lone_table 2) (replicate 32 2))"
proof -
  let ?p = "sample_superpeer 1 sample_table (replicate 32 2)" and ?q = "sample_superpeer 2 (lone_table 2) (replicate 32 2)"
  have l: "\<not> c4_cluster_is_leader (cluster ?p)" "c4_cluster_get_leader (cluster ?p) = Some (replicate 32 2)"
    by (simp_all add: c4_cluster_is_leader_def node_id_equal_def c4_cluster_get_leader_def c4_id_is_zero_def ID_SIZE_def memcmp_eq_0)
  have f: "superpeer_find_member calm (table ?p) (replicate 32 2) = Inr (sample_member 2)"
    unfolding sample_superpeer_fields by (rule member_of_found [OF sample_member_of]) (use sample_live_member(2) [of 2] in \<open>auto simp: below_failed\<close>)
  have h: "hd (replicate 32 (9 :: byte)) \<notin> store_code ` UNIV"
  proof
    assume "hd (replicate 32 (9 :: byte)) \<in> store_code ` UNIV"
    then obtain x where "store_code x = 9" by auto
    then show False by (cases x) simp_all
  qed
  have n: "sp_node ?p = sample_node 1" by (simp add: sample_superpeer_def)
  show ?thesis
    using superpeer_forward_refused [OF l f _ sample_live_member(2) _ _ _ h, of ?q "replicate 16 7" "[5]" sum_crc service_lib calm sample_occasion no_answer "()" "replicate 16 3"]
    by (simp add: n node_id_is_zero_def list_all_iff ID_SIZE_def TRANSACTION_ID_SIZE_def NODE_ID_SIZE_def MAX_PAYLOAD_SIZE_def) (simp add: sample_member_def set_member_def sample_node_def)
qed

end
