(* ===== verification/Spec2Isabelle.thy ===== *)
theory Spec2Isabelle
  imports C4_Catchup Concurrent_Server Superpeer_Service
begin

text \<open>
  Verification of the peer-to-peer document sharing system of this repository, a C program of Peers
  and Super Peers that exchange checksummed messages over TCP.

  \<^bold>\<open>The program and its parts.\<close> Nodes are identified by the SHA-256 of address, port and UUID
  (\<^verbatim>\<open>node.c\<close>). They talk in frames with a header and a CRC (\<^verbatim>\<open>protocol.c\<close>) that two transfer loops
  move over sockets (\<^verbatim>\<open>network.c\<close>), as requests and replies (\<^verbatim>\<open>rpc.c\<close>). Super Peers form a Chord
  ring (\<^verbatim>\<open>chord.c\<close>) that they search and maintain by remote calls (\<^verbatim>\<open>chord_network.c\<close>). They keep a
  table of members (\<^verbatim>\<open>membership.c\<close>, \<^verbatim>\<open>gossip.c\<close>) that a failure detector feeds with heartbeats and
  rumours (\<^verbatim>\<open>heartbeat.c\<close>), an index of the documents and of the peers that hold their chunks
  (\<^verbatim>\<open>metadata.c\<close>), and a log of operations with a journal of two-phase commit (\<^verbatim>\<open>c4_log.c\<close>), which
  an elected coordinator replicates (\<^verbatim>\<open>c4_cluster.c\<close>). Announcements of documents enter the index
  through the log, and lookups join index and table (\<^verbatim>\<open>directory.c\<close>). Documents are sent in chunks
  (\<^verbatim>\<open>transfer_protocol.c\<close>, \<^verbatim>\<open>content.c\<close>, \<^verbatim>\<open>compression.c\<close>) and kept on disk with a cache
  (\<^verbatim>\<open>storage.c\<close>). A pool of threads serves the connections (\<^verbatim>\<open>concurrent_server.c\<close>), and
  \<^verbatim>\<open>superpeer.c\<close> puts the parts together.

  \<^bold>\<open>Theories, in the order of their dependencies.\<close>
  \<^item> \<open>Prelude\<close>: machine types, error codes, the environment that answers system calls, C strings,
    list lemmas, and the locale \<open>codec\<close> of formats that can be read back from a longer buffer.
  \<^item> \<open>Wire\<close>: big-endian integers (\<^verbatim>\<open>wire.h\<close>) and remote error codes (\<^verbatim>\<open>remote_error.h\<close>).
  \<^item> \<open>Network\<close>: the send and receive loops, under any split, interruption and failure.
  \<^item> \<open>Protocol\<close>: header, validation, checksum, sending and receiving. What is sent is received; what
    is received was a valid frame with a matching checksum.
  \<^item> \<open>Node\<close>: configuration, identifier, comparison, hexadecimal text.
  \<^item> \<open>Rpc\<close>: node descriptors (an interpretation of \<open>codec\<close>), transaction identifiers and calls.
  \<^item> \<open>C_Text\<close>: what the programs use of the C library to read numbers.
  \<^item> \<open>C4_Log\<close>: entries, transactions, both files, and the operations on an open log; its invariant,
    and what one operation may do to entries and transaction states, over a step relation.
  \<^item> \<open>C4_Recovery\<close>: opening a log, that is reading the entries, cutting off a torn tail and replaying
    the journal, with termination of both loops and the invariant of what they build.
  \<^item> \<open>C4_Durability\<close>: recovery after a crash, the properties of runs, and behaviours of the
    recovery that lose or block a log.
  \<^item> \<open>Chord\<close>: ring arithmetic through the locale \<open>ring_position\<close>, routing, neighbours, repair.
  \<^item> \<open>Chord_Network\<close>: lookup, join, maintenance and the handler of requests, over an oracle of
    replies; in a stable ring the oracle is the handler itself, and lookups find the owner.
  \<^item> \<open>Metadata\<close>: the hash table as an instance of the locale \<open>keyed_store\<close>, every operation as a
    refinement of one on a map, and the invariant of the entries.
  \<^item> \<open>Membership\<close>: the table of members as a step relation, failure detection, the record on the wire
    (an interpretation of \<open>codec\<close>) and the ledger on disk.
  \<^item> \<open>C4_Cluster\<close>: election, transfer of entries, two-phase submission and the handler of requests, over
    any remote calls. \<open>C4_Agreement\<close> connects the calls with the handlers of the other nodes: what a
    reported submission means for all logs, and when it succeeds. \<open>C4_Catchup\<close>: a node that recovers
    from others gets all of their entries, and what lost messages change. \<open>C4_Election\<close>: the life of one node, who leads
    after an election among real nodes, and with which log.
  \<^item> \<open>Transfer_Format\<close>: the payloads of transfers and lookups, read back as they were written.
    \<open>Content\<close>: names, hashes and compression of contents.
  \<^item> \<open>Storage_Cache\<close>: the cache of chunks with its eviction. \<open>Storage\<close>: documents on disk.
    \<open>Storage_Safety\<close>: the invariant of the store from any disk on. \<open>Storage_Upload\<close>: uploads without
    failures. \<open>Storage_Restart\<close>: manifests, restarts, interrupted commits, and the properties of the store.
  \<^item> \<open>Directory\<close>: announcements and lookups, with what a lookup may return and must return, and how long
    an announcement lasts.
  \<^item> \<open>Heartbeat\<close>: epochs, packets, jobs and rounds of the failure detector. \<open>Heartbeat_Safety\<close>: the
    order of the records that a node sends through its whole life. \<open>Heartbeat_Detection\<close>: the threads of
    the detector as steps of the table, reported failures, and heartbeats that arrive.
  \<^item> \<open>Concurrent_Server\<close>: the pool of threads as a step relation over its locked sections.
  \<^item> \<open>Superpeer\<close>: every request and the loop over a connection, announcements, uploads, joining,
    maintenance and start. \<open>Superpeer_Safety\<close>: each of them keeps the invariants of all components.
    \<open>Superpeer_Run\<close>: whole runs from the first start, and replies that arrive. \<open>Superpeer_Service\<close>: a document
    that is announced is found by identifier and by name until its peer leaves, and announcements that are sent on to the coordinator are refused there.

  \<^bold>\<open>How the model corresponds to the code.\<close> A definition has the name of the C function it
  translates; parts of a long function that became definitions of their own are named after what they
  do. A \<open>struct\<close> is a record, an enumeration a datatype. A function that returns \<open>-1\<close> with \<open>errno\<close> returns an
  error value, and the state it leaves in that case is part of the result. An environment \<open>os\<close>
  answers the system calls and allocations of one operation, addressed by call site, so that a
  theorem for all \<open>os\<close> covers every failure and every partial transfer. Code that is not in the repository is a
  parameter: the functions of the C library on addresses and SHA-256 are the record \<open>lib\<close>, the CRC
  of zlib an argument, and the nodes at the other end an oracle. A mutex makes an operation one step.

  \<^bold>\<open>Bounds.\<close> Machine integers have their C width. Sizes are natural numbers and every test against
  \<open>SIZE_MAX\<close> is kept. Durability assumes logs below \<open>LOG_LIMIT\<close>, \<open>2 ^ 56\<close> bytes, where the 64-bit
  counters do not wrap. A lookup makes at most 257 calls, the limit of the code, which is shown to be enough for
  every stable ring; all loops are total functions.

  \<^bold>\<open>Not modelled.\<close> Sockets and \<open>poll\<close> beyond their answers, printing, signals and command lines. The
  thread pool is a step relation; elsewhere a mutex makes an operation one step, and a request to a Super Peer is one step. The interactive
  peer (\<^verbatim>\<open>peer.c\<close>), the local control socket (\<^verbatim>\<open>local_control.c\<close>) and the configuration files
  (\<^verbatim>\<open>app_config.c\<close>) are left out: they consist of terminal, file and process input and output around the
  operations modelled here. So are the test drivers, and the workers of a client that send and fetch the chunks of a file
  (\<^verbatim>\<open>file_client.c\<close>), whose messages meet the operations of \<open>Superpeer\<close> and \<open>Storage\<close>.
\<close>

end
